(* ===== verification/Prelude.thy ===== *)
theory Prelude
  imports Main "HOL-Library.Word" "HOL-Library.Sublist" "HOL-Library.Signed_Division"
begin

text \<open>
  Shared ground of the development: Go's strings, decimal text of 64-bit integers
  (package strconv), the byte classes several packages test, and the generic list
  lemmas the component theories use.

  A Go string is a \<^typ>\<open>string\<close> (a list of bytes), a Go map is a partial
  function, \<^verbatim>\<open>int64\<close> and \<^verbatim>\<open>uint64\<close> are
  64-bit words read with \<^const>\<open>sint\<close> and \<^const>\<open>uint\<close>, and a Go
  function returning \<^verbatim>\<open>(T, error)\<close> returns a sum whose left side is the error.
\<close>

unbundle bit_operations_syntax

named_theorems byte_defs "definitions of the byte classes"
named_theorems str_simps "computation rules of the string helpers"

type_synonym i64 = "64 word"
type_synonym name = string

section \<open>Byte classes\<close>

abbreviation byte :: "char \<Rightarrow> nat" where
  "byte c \<equiv> of_char c"

definition is_digit :: "char \<Rightarrow> bool" where [byte_defs]:
  "is_digit c \<longleftrightarrow> 48 \<le> byte c \<and> byte c \<le> 57"

definition is_lower :: "char \<Rightarrow> bool" where [byte_defs]:
  "is_lower c \<longleftrightarrow> 97 \<le> byte c \<and> byte c \<le> 122"

definition is_upper :: "char \<Rightarrow> bool" where [byte_defs]:
  "is_upper c \<longleftrightarrow> 65 \<le> byte c \<and> byte c \<le> 90"

definition is_word :: "char \<Rightarrow> bool" where [byte_defs]:
  "is_word c \<longleftrightarrow> c = CHR ''_'' \<or> is_lower c \<or> is_upper c \<or> is_digit c"

lemma is_digit_is_word: "is_digit c \<Longrightarrow> is_word c"
  by (simp add: is_word_def)

section \<open>Results\<close>

definition bind_res :: "'e + 'a \<Rightarrow> ('a \<Rightarrow> 'e + 'b) \<Rightarrow> 'e + 'b" where
  "bind_res r k = (case r of Inl e \<Rightarrow> Inl e | Inr a \<Rightarrow> k a)"

lemma bind_res_simps [simp]:
  "bind_res (Inl e) k = Inl e"
  "bind_res (Inr a) k = k a"
  by (simp_all add: bind_res_def)

lemma bind_res_eq_Inr:
  "bind_res r k = Inr b \<longleftrightarrow> (\<exists>a. r = Inr a \<and> k a = Inr b)"
  by (cases r) auto

lemma bind_res_cong [fundef_cong]:
  "r = r' \<Longrightarrow> (\<And>a. r' = Inr a \<Longrightarrow> k a = k' a) \<Longrightarrow> bind_res r k = bind_res r' k'"
  by (cases r') auto

text \<open>A Go loop that maps a fallible function over a slice and stops at the first error.\<close>

fun map_res :: "('a \<Rightarrow> 'e + 'b) \<Rightarrow> 'a list \<Rightarrow> 'e + 'b list" where
  "map_res f [] = Inr []"
| "map_res f (x # xs) =
     bind_res (f x) (\<lambda>y. bind_res (map_res f xs) (\<lambda>ys. Inr (y # ys)))"

lemma map_res_cong [fundef_cong]:
  "xs = ys \<Longrightarrow> (\<And>x. x \<in> set ys \<Longrightarrow> f x = g x) \<Longrightarrow> map_res f xs = map_res g ys"
  by (induction ys arbitrary: xs) (auto intro: bind_res_cong)

lemma map_res_Inr: "(\<And>x. x \<in> set xs \<Longrightarrow> f x = Inr (g x)) \<Longrightarrow> map_res f xs = Inr (map g xs)"
  by (induction xs) auto

lemma map_res_Inr_iff:
  "map_res f xs = Inr ys \<longleftrightarrow> list_all2 (\<lambda>x y. f x = Inr y) xs ys"
  by (induction xs arbitrary: ys) (auto simp: bind_res_eq_Inr list_all2_Cons1)

section \<open>Package strings\<close>

definition cut_prefix :: "'a list \<Rightarrow> 'a list \<Rightarrow> 'a list option" where
  "cut_prefix s p = (if prefix p s then Some (drop (length p) s) else None)"

definition trim_prefix :: "'a list \<Rightarrow> 'a list \<Rightarrow> 'a list" where
  "trim_prefix s p = (case cut_prefix s p of Some r \<Rightarrow> r | None \<Rightarrow> s)"

definition trim_suffix :: "'a list \<Rightarrow> 'a list \<Rightarrow> 'a list" where
  "trim_suffix s p = (if suffix p s then take (length s - length p) s else s)"

fun join :: "'a list \<Rightarrow> 'a list list \<Rightarrow> 'a list" where
  "join sep [] = []"
| "join sep [x] = x"
| "join sep (x # y # xs) = x @ sep @ join sep (y # xs)"

text \<open>\<^verbatim>\<open>strings.Split(s, c)\<close> for a one-byte separator: at least one piece.\<close>

fun split_on :: "'a \<Rightarrow> 'a list \<Rightarrow> 'a list list" where
  "split_on c [] = [[]]"
| "split_on c (x # xs) =
     (if x = c then [] # split_on c xs
      else (case split_on c xs of [] \<Rightarrow> [[x]] | p # ps \<Rightarrow> (x # p) # ps))"

text \<open>
  \<^verbatim>\<open>strings.TrimSpace\<close> on ASCII text: the six ASCII white-space bytes go from
  both ends.
\<close>

definition is_space :: "char \<Rightarrow> bool" where [byte_defs]:
  "is_space c \<longleftrightarrow> c = CHR '' '' \<or> (9 \<le> byte c \<and> byte c \<le> 13)"

definition trim_space :: "string \<Rightarrow> string" where
  "trim_space s = rev (dropWhile is_space (rev (dropWhile is_space s)))"

lemma cut_prefix_append [simp, str_simps]: "cut_prefix (p @ s) p = Some s"
  by (simp add: cut_prefix_def)

lemma cut_prefix_Some: "cut_prefix s p = Some r \<longleftrightarrow> s = p @ r"
  by (auto simp: cut_prefix_def prefix_def)

lemma cut_prefix_None: "cut_prefix s p = None \<longleftrightarrow> \<not> prefix p s"
  by (simp add: cut_prefix_def)

lemma cut_prefix_Nil [simp]: "cut_prefix s [] = Some s"
  by (simp add: cut_prefix_def)

lemma cut_prefix_Nil2 [simp]: "p \<noteq> [] \<Longrightarrow> cut_prefix [] p = None"
  by (cases p) (auto simp: cut_prefix_def)

lemma cut_prefix_Cons [simp]:
  "cut_prefix (x # s) (y # p) = (if x = y then cut_prefix s p else None)"
  by (simp add: cut_prefix_def)

lemma split_on_not_Nil [simp]: "split_on c s \<noteq> []"
  by (induction s) (auto split: list.splits)

lemma split_on_none: "c \<notin> set s \<Longrightarrow> split_on c s = [s]"
  by (induction s) auto

lemma split_on_append: "c \<notin> set s \<Longrightarrow> split_on c (s @ c # t) = s # split_on c t"
  by (induction s) auto

lemma split_on_join:
  assumes "xs \<noteq> []" and "\<forall>x\<in>set xs. c \<notin> set x"
  shows "split_on c (join [c] xs) = xs"
  using assms
proof (induction "[c]" xs rule: join.induct)
  case (3 x y xs)
  then show ?case by (simp add: split_on_append)
qed (auto simp: split_on_none)

lemma dropWhile_keep: "s = [] \<or> \<not> P (hd s) \<Longrightarrow> dropWhile P s = s"
  by (cases s) auto

lemma trim_space_id:
  assumes "s = [] \<or> (\<not> is_space (hd s) \<and> \<not> is_space (last s))"
  shows "trim_space s = s"
proof -
  have "dropWhile is_space s = s" using assms by (intro dropWhile_keep) auto
  moreover have "dropWhile is_space (rev s) = rev s"
    using assms by (intro dropWhile_keep) (auto simp: hd_rev)
  ultimately show ?thesis by (simp add: trim_space_def)
qed

section \<open>Runes\<close>

text \<open>
  Text outside ASCII is a list of runes, each its code point. \<open>trim_runes\<close> is
  \<^verbatim>\<open>strings.TrimSpace\<close> on it: the white space of Unicode goes from both ends.
\<close>

type_synonym rune = nat

abbreviation rune :: "char \<Rightarrow> rune" where
  "rune c \<equiv> of_char c"

abbreviation runes :: "string \<Rightarrow> rune list" where
  "runes s \<equiv> map of_char s"

definition is_space_rune :: "rune \<Rightarrow> bool" where
  "is_space_rune ch \<longleftrightarrow> ch = 32 \<or> (9 \<le> ch \<and> ch \<le> 13) \<or> ch = 133 \<or> ch = 160 \<or> ch = 5760 \<or>
     (8192 \<le> ch \<and> ch \<le> 8202) \<or> ch = 8232 \<or> ch = 8233 \<or> ch = 8239 \<or> ch = 8287 \<or> ch = 12288"

definition trim_runes :: "rune list \<Rightarrow> rune list" where
  "trim_runes s = rev (dropWhile is_space_rune (rev (dropWhile is_space_rune s)))"

lemma trim_runes_id:
  assumes "s = [] \<or> (\<not> is_space_rune (hd s) \<and> \<not> is_space_rune (last s))"
  shows "trim_runes s = s"
proof -
  have "dropWhile is_space_rune s = s" using assms by (intro dropWhile_keep) auto
  moreover have "dropWhile is_space_rune (rev s) = rev s"
    using assms by (intro dropWhile_keep) (auto simp: hd_rev)
  ultimately show ?thesis by (simp add: trim_runes_def)
qed

section \<open>Package strconv: decimal text of integers\<close>

definition digit_char :: "nat \<Rightarrow> char" where
  "digit_char d = char_of (48 + d)"

definition digit_val :: "char \<Rightarrow> nat" where
  "digit_val c = byte c - 48"

fun format_nat :: "nat \<Rightarrow> string" where
  "format_nat n = (if n < 10 then [digit_char n]
                   else format_nat (n div 10) @ [digit_char (n mod 10)])"

declare format_nat.simps [simp del]

definition parse_nat :: "string \<Rightarrow> nat option" where
  "parse_nat s = (if s \<noteq> [] \<and> list_all is_digit s
                  then Some (foldl (\<lambda>v c. 10 * v + digit_val c) 0 s) else None)"

lemma digit_char_byte: "d < 10 \<Longrightarrow> byte (digit_char d) = 48 + d"
  by (simp add: digit_char_def)

lemma digit_char_facts [simp]:
  assumes "d < 10"
  shows "is_digit (digit_char d)" and "digit_val (digit_char d) = d"
  using assms by (simp_all add: is_digit_def digit_val_def digit_char_byte)

lemma format_nat_digits: "list_all is_digit (format_nat n)"
proof (induction n rule: format_nat.induct)
  case (1 n)
  then show ?case by (subst format_nat.simps) auto
qed

lemma format_nat_not_Nil [simp]: "format_nat n \<noteq> []"
  by (subst format_nat.simps) simp

lemma format_nat_value: "foldl (\<lambda>v c. 10 * v + digit_val c) 0 (format_nat n) = n"
proof (induction n rule: format_nat.induct)
  case (1 n)
  show ?case
  proof (cases "n < 10")
    case True
    then show ?thesis by (subst format_nat.simps) simp
  next
    case False
    with 1 have "foldl (\<lambda>v c. 10 * v + digit_val c) 0 (format_nat (n div 10)) = n div 10"
      by blast
    with False show ?thesis by (subst format_nat.simps) simp
  qed
qed

lemma parse_format_nat [simp]: "parse_nat (format_nat n) = Some n"
  by (simp add: parse_nat_def format_nat_digits format_nat_value)

lemma format_nat_inj: "format_nat m = format_nat n \<Longrightarrow> m = n"
  by (metis option.inject parse_format_nat)

lemma format_nat_set: "c \<in> set (format_nat n) \<Longrightarrow> is_digit c"
  using format_nat_digits by (auto simp: list_all_iff)

text \<open>
  \<^verbatim>\<open>strconv.ParseInt(s, 10, 64)\<close> takes an optional sign; a magnitude outside the
  64-bit range is an error. \<^verbatim>\<open>strconv.ParseUint\<close> takes no sign.
\<close>

definition parse_int_text :: "string \<Rightarrow> int option" where
  "parse_int_text s =
     (case s of
        [] \<Rightarrow> None
      | c # r \<Rightarrow>
          if c = CHR ''-'' then map_option (\<lambda>n. - int n) (parse_nat r)
          else if c = CHR ''+'' then map_option int (parse_nat r)
          else map_option int (parse_nat s))"

definition parse_int64 :: "string \<Rightarrow> i64 option" where
  "parse_int64 s =
     (case parse_int_text s of
        None \<Rightarrow> None
      | Some v \<Rightarrow> if - (2 ^ 63) \<le> v \<and> v < 2 ^ 63 then Some (word_of_int v) else None)"

definition parse_uint64 :: "string \<Rightarrow> i64 option" where
  "parse_uint64 s =
     (case parse_nat s of
        None \<Rightarrow> None
      | Some n \<Rightarrow> if int n < 2 ^ 64 then Some (word_of_nat n) else None)"

definition format_int :: "int \<Rightarrow> string" where
  "format_int v = (if v < 0 then CHR ''-'' # format_nat (nat (- v)) else format_nat (nat v))"

definition format_int64 :: "i64 \<Rightarrow> string" where
  "format_int64 v = format_int (sint v)"

definition format_uint64 :: "i64 \<Rightarrow> string" where
  "format_uint64 v = format_nat (unat v)"

lemma format_nat_hd_digit: "is_digit (hd (format_nat n))"
  using format_nat_digits[of n] by (cases "format_nat n") auto

lemma digit_not_sign: "is_digit c \<Longrightarrow> c \<noteq> CHR ''-'' \<and> c \<noteq> CHR ''+''"
  by (auto simp: is_digit_def)

lemma parse_int_text_format_nat: "parse_int_text (format_nat n) = Some (int n)"
proof -
  obtain c r where cr: "format_nat n = c # r"
    by (cases "format_nat n") auto
  with format_nat_hd_digit[of n] have "is_digit c" by simp
  with cr show ?thesis
    using parse_format_nat[of n] by (simp add: parse_int_text_def digit_not_sign)
qed

lemma parse_format_int [simp]: "parse_int_text (format_int v) = Some v"
proof (cases "v < 0")
  case True
  then show ?thesis by (simp add: format_int_def parse_int_text_def)
next
  case False
  then show ?thesis by (simp add: format_int_def parse_int_text_format_nat)
qed

lemma sint64_range: "- (2 ^ 63) \<le> sint (v :: i64) \<and> sint v < 2 ^ 63"
  using sint_range_size[of v] by (simp add: word_size)

lemma sint64_of_nat:
  assumes "n < 2 ^ 63"
  shows "sint (word_of_nat n :: i64) = int n"
proof -
  have "sint (word_of_int (int n) :: i64) = signed_take_bit 63 (int n)"
    by (simp only: signed_of_int) simp
  also have "\<dots> = int n" using assms by (intro signed_take_bit_int_eq_self) auto
  finally show ?thesis by simp
qed

lemma parse_format_int64 [simp]: "parse_int64 (format_int64 v) = Some v"
  using sint64_range[of v] by (simp add: parse_int64_def format_int64_def)

lemma parse_format_uint64 [simp]: "parse_uint64 (format_uint64 v) = Some v"
proof -
  have "int (unat v) < 2 ^ 64" using uint_lt2p[of v] by simp
  then show ?thesis by (simp add: parse_uint64_def format_uint64_def)
qed

lemma format_int_set: "c \<in> set (format_int v) \<Longrightarrow> c = CHR ''-'' \<or> is_digit c"
  by (auto simp: format_int_def dest: format_nat_set split: if_splits)

lemma format_int_not_Nil [simp]: "format_int v \<noteq> []"
  by (simp add: format_int_def)

section \<open>64-bit division\<close>

text \<open>
  Go's \<^verbatim>\<open>/\<close> and \<^verbatim>\<open>%\<close> truncate towards zero; the quotient of the
  least integer by -1 wraps to itself.
\<close>

definition go_quot :: "i64 \<Rightarrow> i64 \<Rightarrow> i64" where
  "go_quot a b = word_of_int (sint a sdiv sint b)"

definition go_rem :: "i64 \<Rightarrow> i64 \<Rightarrow> i64" where
  "go_rem a b = word_of_int (sint a smod sint b)"

lemma go_quot_rem: "go_quot a b * b + go_rem a b = a"
proof -
  have "word_of_int (sint a sdiv sint b) * word_of_int (sint b) + word_of_int (sint a smod sint b)
      = (word_of_int (sint a sdiv sint b * sint b + sint a smod sint b) :: i64)"
    by simp
  also have "sint a sdiv sint b * sint b + sint a smod sint b = sint a"
    by (rule sdiv_mult_smod_eq)
  finally show ?thesis by (simp add: go_quot_def go_rem_def)
qed

end
