(* ===== verification/Staticexpr.thy ===== *)
theory Staticexpr
  imports Prelude
begin

text \<open>
  Package staticexpr (internal/staticexpr/staticexpr.go) and the function of the
  parser that writes the text it reads, staticExprText (internal/parser/parser.go).
  A static argument travels as text in which every operation carries its own
  parentheses; \<open>sx_eval\<close> reads that text with 64-bit wrapping arithmetic.

  The evaluator's position in the text is the list of bytes still unread. Its two
  mutually recursive methods take fuel; \<open>sx_eval\<close> gives one unit per byte and one
  more, which \<open>sx_term_fuel\<close> shows is enough for every text.
\<close>

datatype sx_error =
    EndsEarly
  | UnexpectedByte char
  | UnexpectedTail string
  | NotConstant name
  | Malformed
  | DividesByZero
  | BadOperator char
  | BadNumber string
  | SxFuel

section \<open>The evaluator\<close>

definition sx_is :: "string \<Rightarrow> bool" where
  "sx_is text = prefix ''('' text"

definition sx_apply :: "char \<Rightarrow> i64 \<Rightarrow> i64 \<Rightarrow> sx_error + i64" where
  "sx_apply op left right =
     (if op = CHR ''+'' then Inr (left + right)
      else if op = CHR ''-'' then Inr (left - right)
      else if op = CHR ''*'' then Inr (left * right)
      else if op = CHR ''/'' \<or> op = CHR ''%'' then
        (if right = 0 then Inl DividesByZero
         else if op = CHR ''/'' then Inr (go_quot left right)
         else Inr (go_rem left right))
      else Inl (BadOperator op))"

function (sequential)
  sx_term :: "nat \<Rightarrow> (name \<rightharpoonup> i64) \<Rightarrow> string \<Rightarrow> sx_error + (i64 \<times> string)" and
  sx_operation :: "nat \<Rightarrow> (name \<rightharpoonup> i64) \<Rightarrow> string \<Rightarrow> sx_error + (i64 \<times> string)"
where
  "sx_term 0 lookup text = Inl SxFuel"
| "sx_term (Suc fuel) lookup [] = Inl EndsEarly"
| "sx_term (Suc fuel) lookup (c # rest) =
     (if c = CHR ''('' then sx_operation fuel lookup (c # rest)
      else if c = CHR ''-'' then
        bind_res (sx_term fuel lookup rest) (\<lambda>(value, rest'). Inr (- value, rest'))
      else if is_digit c then
        (case parse_int64 (takeWhile is_digit (c # rest)) of
           None \<Rightarrow> Inl (BadNumber (takeWhile is_digit (c # rest)))
         | Some value \<Rightarrow> Inr (value, dropWhile is_digit (c # rest)))
      else if is_word c then
        (case lookup (takeWhile is_word (c # rest)) of
           None \<Rightarrow> Inl (NotConstant (takeWhile is_word (c # rest)))
         | Some value \<Rightarrow> Inr (value, dropWhile is_word (c # rest)))
      else Inl (UnexpectedByte c))"
| "sx_operation fuel lookup text =
     bind_res (sx_term fuel lookup (tl text)) (\<lambda>(left, r1).
       (case r1 of
          s1 # op # s2 # r2 \<Rightarrow>
            if s1 \<noteq> CHR '' '' \<or> s2 \<noteq> CHR '' '' then Inl Malformed
            else bind_res (sx_term fuel lookup r2) (\<lambda>(right, r3).
              (case r3 of
                 [] \<Rightarrow> Inl Malformed
               | c # r4 \<Rightarrow> if c \<noteq> CHR '')'' then Inl Malformed
                           else bind_res (sx_apply op left right) (\<lambda>value. Inr (value, r4))))
        | _ \<Rightarrow> Inl Malformed))"
  by pat_completeness auto
termination
  by (relation "measure (\<lambda>a. case a of Inl (f, _, _) \<Rightarrow> 2 * f | Inr (f, _, _) \<Rightarrow> Suc (2 * f))") auto

definition sx_eval :: "string \<Rightarrow> (name \<rightharpoonup> i64) \<Rightarrow> sx_error + i64" where
  "sx_eval text lookup =
     bind_res (sx_term (Suc (length text)) lookup text) (\<lambda>(value, rest).
       if rest = [] then Inr value else Inl (UnexpectedTail rest))"

text \<open>The compile-time names the text reads, in reading order.\<close>

function sx_names :: "string \<Rightarrow> name list" where
  "sx_names [] = []"
| "sx_names (c # rest) =
     (if \<not> is_word c then sx_names rest
      else let word = takeWhile is_word (c # rest);
               rest' = dropWhile is_word (c # rest)
           in if is_digit c then sx_names rest' else word # sx_names rest')"
  by pat_completeness auto
termination
  by (relation "measure length") (auto simp: less_Suc_eq_le length_dropWhile_le)

section \<open>The canonical spelling the parser writes\<close>

text \<open>
  The expressions staticExprText accepts, with the operators and literals as the
  text they have in the syntax tree; any other expression node is \<open>OtherExpr\<close>.
\<close>

datatype static_expr =
    IntExpr string
  | IdentExpr name
  | PrefixExpr string static_expr
  | BinaryExpr static_expr string static_expr
  | OtherExpr

fun static_expr_text :: "static_expr \<Rightarrow> string option" where
  "static_expr_text (IntExpr value) = Some value"
| "static_expr_text (IdentExpr x) = Some x"
| "static_expr_text (PrefixExpr op right) =
     (case static_expr_text right of
        None \<Rightarrow> None
      | Some r \<Rightarrow> if op \<noteq> ''-'' then None else Some (''(0 - '' @ r @ '')''))"
| "static_expr_text (BinaryExpr left op right) =
     (if op \<notin> {''+'', ''-'', ''*'', ''/'', ''%''} then None
      else case (static_expr_text left, static_expr_text right) of
             (Some l, Some r) \<Rightarrow> Some (''('' @ l @ '' '' @ op @ '' '' @ r @ '')'')
           | _ \<Rightarrow> None)"
| "static_expr_text OtherExpr = None"

lemma static_expr_text_PrefixE:
  assumes "static_expr_text (PrefixExpr op e) = Some s"
  obtains t where "static_expr_text e = Some t" and "s = ''(0 - '' @ t @ '')''" and "op = ''-''"
  using assms by (auto split: option.splits if_splits)

lemma static_expr_text_BinaryE:
  assumes "static_expr_text (BinaryExpr e1 op e2) = Some s"
  obtains t1 t2 c where "static_expr_text e1 = Some t1" and "static_expr_text e2 = Some t2"
    and "s = ''('' @ t1 @ '' '' @ [c] @ '' '' @ t2 @ '')''" and "op = [c]"
    and "c \<in> {CHR ''+'', CHR ''-'', CHR ''*'', CHR ''/'', CHR ''%''}"
proof -
  from assms have "op \<in> {[CHR ''+''], [CHR ''-''], [CHR ''*''], [CHR ''/''], [CHR ''%'']}"
    by (simp split: if_splits)
  then obtain c where c: "op = [c]" "c \<in> {CHR ''+'', CHR ''-'', CHR ''*'', CHR ''/'', CHR ''%''}"
    by auto
  from assms obtain t1 t2 where "static_expr_text e1 = Some t1" "static_expr_text e2 = Some t2"
    and "s = ''('' @ t1 @ '' '' @ op @ '' '' @ t2 @ '')''"
    by (simp split: option.splits if_splits)
  then show ?thesis using c by (intro that) simp_all
qed

section \<open>Specification: the value of an expression\<close>

text \<open>
  What an integer expression means: wrapping 64-bit arithmetic, left operand first,
  with the first error reported.
\<close>

fun expr_value :: "(name \<rightharpoonup> i64) \<Rightarrow> static_expr \<Rightarrow> sx_error + i64" where
  "expr_value lookup (IntExpr value) =
     (case parse_int64 value of None \<Rightarrow> Inl (BadNumber value) | Some v \<Rightarrow> Inr v)"
| "expr_value lookup (IdentExpr x) =
     (case lookup x of None \<Rightarrow> Inl (NotConstant x) | Some v \<Rightarrow> Inr v)"
| "expr_value lookup (PrefixExpr op right) =
     bind_res (expr_value lookup right) (\<lambda>r. Inr (- r))"
| "expr_value lookup (BinaryExpr left op right) =
     bind_res (expr_value lookup left) (\<lambda>l.
     bind_res (expr_value lookup right) (\<lambda>r. sx_apply (hd op) l r))"
| "expr_value lookup OtherExpr = Inl Malformed"

fun expr_names :: "static_expr \<Rightarrow> name list" where
  "expr_names (IdentExpr x) = [x]"
| "expr_names (PrefixExpr op right) = expr_names right"
| "expr_names (BinaryExpr left op right) = expr_names left @ expr_names right"
| "expr_names _ = []"

text \<open>Identifiers and decimal literals, as the lexer produces them.\<close>

definition is_ident :: "string \<Rightarrow> bool" where
  "is_ident x \<longleftrightarrow> x \<noteq> [] \<and> list_all is_word x \<and> \<not> is_digit (hd x)"

definition is_decimal :: "string \<Rightarrow> bool" where
  "is_decimal v \<longleftrightarrow> v \<noteq> [] \<and> list_all is_digit v"

fun lexed_expr :: "static_expr \<Rightarrow> bool" where
  "lexed_expr (IntExpr value) = is_decimal value"
| "lexed_expr (IdentExpr x) = is_ident x"
| "lexed_expr (PrefixExpr op right) = lexed_expr right"
| "lexed_expr (BinaryExpr left op right) = (lexed_expr left \<and> lexed_expr right)"
| "lexed_expr OtherExpr = True"

section \<open>Reading back what was written\<close>

definition stops :: "(char \<Rightarrow> bool) \<Rightarrow> string \<Rightarrow> bool" where
  "stops P rest \<longleftrightarrow> rest = [] \<or> \<not> P (hd rest)"

lemma stops_simps [simp]:
  "stops P []"
  "stops P (c # r) \<longleftrightarrow> \<not> P c"
  by (simp_all add: stops_def)

lemma takeWhile_run: "list_all P w \<Longrightarrow> stops P rest \<Longrightarrow> takeWhile P (w @ rest) = w"
  by (cases rest) (auto simp: list_all_iff)

lemma dropWhile_run: "list_all P w \<Longrightarrow> stops P rest \<Longrightarrow> dropWhile P (w @ rest) = rest"
  by (cases rest) (auto simp: list_all_iff)

lemma takeWhile_word: "is_ident x \<Longrightarrow> stops is_word r \<Longrightarrow> takeWhile is_word (x @ r) = x"
  by (simp add: is_ident_def takeWhile_run)

lemma dropWhile_word: "is_ident x \<Longrightarrow> stops is_word r \<Longrightarrow> dropWhile is_word (x @ r) = r"
  by (simp add: is_ident_def dropWhile_run)

lemma stops_word_digit: "stops is_word r \<Longrightarrow> stops is_digit r"
  by (cases r) (auto simp: is_word_def)

text \<open>The bytes that open an operand are of four different kinds.\<close>

lemma is_word_not_op:
  "is_word c \<Longrightarrow> c \<noteq> CHR ''('' \<and> c \<noteq> CHR '')'' \<and> c \<noteq> CHR ''-'' \<and> c \<noteq> CHR '' ''"
  by (auto simp: byte_defs)

lemma not_word_simps [simp]:
  "\<not> is_word (CHR '' '')" "\<not> is_word (CHR ''('')" "\<not> is_word (CHR '')'')"
  "\<not> is_word (CHR ''+'')" "\<not> is_word (CHR ''-'')" "\<not> is_word (CHR ''*'')"
  "\<not> is_word (CHR ''/'')" "\<not> is_word (CHR ''%'')"
  "is_digit (CHR ''0'')" "is_word (CHR ''0'')"
  "\<not> is_digit (CHR '' '')" "\<not> is_digit (CHR '')'')"
  by (simp_all add: byte_defs)

lemma sx_term_decimal:
  assumes "is_decimal v" and "stops is_word r"
  shows "sx_term (Suc f) lk (v @ r) =
    (case parse_int64 v of None \<Rightarrow> Inl (BadNumber v) | Some x \<Rightarrow> Inr (x, r))"
proof -
  from assms(1) obtain c w where v: "v = c # w" and c: "is_digit c"
    and w: "list_all is_digit w"
    by (cases v) (auto simp: is_decimal_def)
  from c have "c \<noteq> CHR ''(''" "c \<noteq> CHR ''-''"
    by (auto simp: is_digit_def)
  moreover have "takeWhile is_digit (v @ r) = v" "dropWhile is_digit (v @ r) = r"
    using assms stops_word_digit[OF assms(2)]
    by (simp_all add: is_decimal_def takeWhile_run dropWhile_run)
  ultimately show ?thesis using v c by (auto split: option.splits)
qed

lemma sx_term_ident:
  assumes "is_ident x" and "stops is_word r"
  shows "sx_term (Suc f) lk (x @ r) =
    (case lk x of None \<Rightarrow> Inl (NotConstant x) | Some v \<Rightarrow> Inr (v, r))"
proof -
  from assms(1) obtain c w where x: "x = c # w" and c: "is_word c" "\<not> is_digit c"
    by (cases x) (auto simp: is_ident_def)
  then show ?thesis
    using is_word_not_op[OF c(1)] takeWhile_word[OF assms] dropWhile_word[OF assms]
    by (auto split: option.splits)
qed

text \<open>
  The spelling of an expression followed by anything that cannot continue a word
  reads back as the expression's value and leaves that rest.
\<close>

lemma sx_term_text:
  assumes "static_expr_text e = Some s" and "lexed_expr e"
    and "stops is_word r" and "size e < f"
  shows "sx_term f lk (s @ r) =
    bind_res (expr_value lk e) (\<lambda>v. Inr (v, r))"
  using assms
proof (induction e arbitrary: s r f)
  case (IntExpr v)
  then obtain g where "f = Suc g" by (cases f) auto
  with IntExpr show ?case by (simp add: sx_term_decimal split: option.splits)
next
  case (IdentExpr x)
  then obtain g where "f = Suc g" by (cases f) auto
  with IdentExpr show ?case by (simp add: sx_term_ident split: option.splits)
next
  case (PrefixExpr op e)
  from PrefixExpr.prems(1) obtain t where t: "static_expr_text e = Some t"
    and s: "s = ''(0 - '' @ t @ '')''" by (rule static_expr_text_PrefixE)
  from PrefixExpr.prems obtain g where f: "f = Suc (Suc g)" and g: "size e < Suc g"
    by (cases f; cases "f - 1") auto
  have zero: "sx_term (Suc g) lk (''0'' @ '' - '' @ t @ '')'' @ r) = Inr (0, '' - '' @ t @ '')'' @ r)"
    by (subst sx_term_decimal)
      (simp_all add: is_decimal_def parse_int64_def parse_int_text_def parse_nat_def digit_val_def)
  have "sx_term (Suc g) lk (t @ '')'' @ r) = bind_res (expr_value lk e) (\<lambda>v. Inr (v, '')'' @ r))"
    using PrefixExpr t g by simp
  with zero show ?case
    by (cases "expr_value lk e") (auto simp: f s sx_apply_def)
next
  case (BinaryExpr e1 op e2)
  from BinaryExpr.prems(1) obtain t1 t2 c where t: "static_expr_text e1 = Some t1"
      "static_expr_text e2 = Some t2" and s: "s = ''('' @ t1 @ '' '' @ [c] @ '' '' @ t2 @ '')''"
    and c: "op = [c]" by (rule static_expr_text_BinaryE)
  from BinaryExpr.prems obtain g where f: "f = Suc g" and g: "size e1 < g" "size e2 < g"
    by (cases f) auto
  have 1: "sx_term g lk (t1 @ '' '' @ [c] @ '' '' @ t2 @ '')'' @ r) =
      bind_res (expr_value lk e1) (\<lambda>v. Inr (v, '' '' @ [c] @ '' '' @ t2 @ '')'' @ r))"
    using BinaryExpr t g by simp
  have 2: "sx_term g lk (t2 @ '')'' @ r) = bind_res (expr_value lk e2) (\<lambda>v. Inr (v, '')'' @ r))"
    using BinaryExpr t g by simp
  from 1 2 show ?case
    by (cases "expr_value lk e1"; cases "expr_value lk e2") (auto simp: f s c bind_res_def)
qed simp

lemma static_expr_text_length: "static_expr_text e = Some s \<Longrightarrow> lexed_expr e \<Longrightarrow> size e < Suc (length s)"
  by (induction e arbitrary: s)
    (auto simp: is_decimal_def is_ident_def split: option.splits if_splits)

section \<open>Enough fuel\<close>

lemma sx_apply_no_fuel: "sx_apply op l r \<noteq> Inl SxFuel"
  by (simp add: sx_apply_def)

lemma length_dropWhile_Cons: "P c \<Longrightarrow> length (dropWhile P (c # r)) < length (c # r)"
  by (simp add: less_Suc_eq_le length_dropWhile_le)

lemma sx_term_fuel_aux:
  "length text < f \<Longrightarrow> sx_term f lk text \<noteq> Inl SxFuel \<and>
     (\<forall>v r. sx_term f lk text = Inr (v, r) \<longrightarrow> length r < length text)"
  "length text \<le> f \<Longrightarrow> text \<noteq> [] \<Longrightarrow> sx_operation f lk text \<noteq> Inl SxFuel \<and>
     (\<forall>v r. sx_operation f lk text = Inr (v, r) \<longrightarrow> length r < length text)"
proof (induction f lk "text" and f lk "text" rule: sx_term_sx_operation.induct)
  case (3 f lk c rest)
  consider "c = CHR ''(''" | "c = CHR ''-''" | "c \<noteq> CHR ''(''" "c \<noteq> CHR ''-''" "is_digit c"
    | "c \<noteq> CHR ''(''" "c \<noteq> CHR ''-''" "\<not> is_digit c" by blast
  then show ?case
  proof cases
    case 1
    then show ?thesis using "3.IH"(1) "3.prems" by simp
  next
    case 2
    then show ?thesis using "3.IH"(2) "3.prems"
      by (cases "sx_term f lk rest") (auto simp: less_SucI)
  next
    case 3
    then show ?thesis using length_dropWhile_Cons[of is_digit c rest]
      by (auto split: option.splits)
  next
    case 4
    then show ?thesis using length_dropWhile_Cons[of is_word c rest]
      by (auto split: option.splits)
  qed
next
  case (4 f lk s)
  have left: "sx_term f lk (tl s) \<noteq> Inl SxFuel"
    "\<And>v r. sx_term f lk (tl s) = Inr (v, r) \<Longrightarrow> length r < length (tl s)"
    using "4.IH"(1) "4.prems" by (cases s; auto)+
  have right: "sx_term f lk r2 \<noteq> Inl SxFuel \<and>
      (\<forall>v r. sx_term f lk r2 = Inr (v, r) \<longrightarrow> length r < length r2)"
    if "sx_term f lk (tl s) = Inr (l, CHR '' '' # op # CHR '' '' # r2)" for l op r2
    using "4.IH"(2) "4.prems" left(2)[OF that] that by (cases s) auto
  show ?case
  proof (cases "sx_term f lk (tl s)")
    case (Inl e)
    then show ?thesis using left(1) by auto
  next
    case (Inr p)
    then obtain l r1 where lr: "sx_term f lk (tl s) = Inr (l, r1)" by (cases p) auto
    show ?thesis
      using right left(2)[OF lr] lr sx_apply_no_fuel
      by (auto simp: bind_res_def split: list.splits sum.splits)
  qed
qed simp_all

text \<open>The fuel \<open>sx_eval\<close> gives is enough for every text, canonical or not.\<close>

lemma sx_eval_no_fuel: "sx_eval text lookup \<noteq> Inl SxFuel"
  using sx_term_fuel_aux(1)[of "text" "Suc (length text)" lookup]
  by (auto simp: sx_eval_def bind_res_def split: sum.splits)

section \<open>The names of canonical text\<close>

lemma sx_names_skip: "\<not> is_word c \<Longrightarrow> sx_names (c # r) = sx_names r"
  by simp

lemma sx_names_decimal: "is_decimal v \<Longrightarrow> stops is_word r \<Longrightarrow> sx_names (v @ r) = sx_names r"
proof -
  assume v: "is_decimal v" and r: "stops is_word r"
  then obtain c w where cw: "v = c # w" "is_digit c" by (cases v) (auto simp: is_decimal_def)
  have "list_all is_word v" using v by (auto simp: is_decimal_def list_all_iff is_digit_is_word)
  then have "dropWhile is_word (v @ r) = r" using r by (rule dropWhile_run)
  then show ?thesis using cw by (simp add: is_digit_is_word Let_def)
qed

lemma sx_names_ident: "is_ident x \<Longrightarrow> stops is_word r \<Longrightarrow> sx_names (x @ r) = x # sx_names r"
  using takeWhile_word[of x r] dropWhile_word[of x r]
  by (cases x) (auto simp: is_ident_def Let_def)

declare sx_names.simps(2) [simp del]
lemmas sx_names_read = sx_names_skip sx_names_decimal sx_names_ident

lemma sx_names_text_append:
  assumes "static_expr_text e = Some s" and "lexed_expr e" and "stops is_word r"
  shows "sx_names (s @ r) = expr_names e @ sx_names r"
  using assms
proof (induction e arbitrary: s r)
  case (PrefixExpr op e)
  from PrefixExpr.prems(1) obtain t where t: "static_expr_text e = Some t"
    and s: "s = ''(0 - '' @ t @ '')''" by (rule static_expr_text_PrefixE)
  have "sx_names (''0'' @ '' - '' @ t @ '')'' @ r) = sx_names ('' - '' @ t @ '')'' @ r)"
    by (rule sx_names_decimal) (simp_all add: is_decimal_def)
  then show ?case using PrefixExpr t by (simp add: s sx_names_skip)
next
  case (BinaryExpr e1 op e2)
  from BinaryExpr.prems(1) obtain t1 t2 c where t: "static_expr_text e1 = Some t1"
      "static_expr_text e2 = Some t2" and s: "s = ''('' @ t1 @ '' '' @ [c] @ '' '' @ t2 @ '')''"
    and "c \<in> {CHR ''+'', CHR ''-'', CHR ''*'', CHR ''/'', CHR ''%''}"
    by (rule static_expr_text_BinaryE)
  then have c: "\<not> is_word c" by auto
  have "sx_names (s @ r) = sx_names (t1 @ '' '' @ [c] @ '' '' @ t2 @ '')'' @ r)"
    by (simp add: s sx_names_skip)
  also have "\<dots> = expr_names e1 @ sx_names ('' '' @ [c] @ '' '' @ t2 @ '')'' @ r)"
    using BinaryExpr.IH(1)[OF t(1)] BinaryExpr.prems by simp
  also have "sx_names ('' '' @ [c] @ '' '' @ t2 @ '')'' @ r) = sx_names (t2 @ '')'' @ r)"
    using c by (simp add: sx_names_skip)
  also have "\<dots> = expr_names e2 @ sx_names ('')'' @ r)"
    using BinaryExpr.IH(2)[OF t(2)] BinaryExpr.prems by simp
  finally show ?case by (simp add: sx_names_skip)
qed (auto simp: sx_names_read)

section \<open>Properties\<close>

text \<open>
  C29: reading back the text the parser writes for a static expression gives the value
  of the expression in wrapping 64-bit arithmetic, errors included, for every
  assignment of the compile-time names.
\<close>

theorem static_expr_roundtrip:
  assumes "static_expr_text e = Some s" and "lexed_expr e"
  shows "sx_eval s lookup = expr_value lookup e"
proof -
  have "sx_term (Suc (length s)) lookup (s @ []) = bind_res (expr_value lookup e) (\<lambda>v. Inr (v, []))"
    by (rule sx_term_text[OF assms _ static_expr_text_length[OF assms]]) simp
  then show ?thesis by (cases "expr_value lookup e") (simp_all add: sx_eval_def)
qed

abbreviation example_expr :: static_expr where
  "example_expr \<equiv> BinaryExpr (BinaryExpr (IdentExpr ''n1'') ''*'' (IdentExpr ''k2'')) ''%'' (IntExpr ''24'')"

lemmas sx_eval_simps = sx_apply_def is_ident_def is_decimal_def byte_defs parse_int64_def
  parse_int_text_def parse_nat_def digit_val_def go_quot_def go_rem_def sx_names.simps Let_def

theorem static_expr_roundtrip_witness:
  "sx_eval ''((n1 * k2) % 24)'' [''n1'' \<mapsto> 7, ''k2'' \<mapsto> 5] = Inr 11"
  by (subst static_expr_roundtrip [where e = example_expr]) (simp_all add: sx_eval_simps)

text \<open>
  The names listed for a canonical text are the names of the expression, in the
  order it reads them.
\<close>

theorem static_expr_names:
  assumes "static_expr_text e = Some s" and "lexed_expr e"
  shows "sx_names s = expr_names e"
  using sx_names_text_append[OF assms, of "[]"] by simp

theorem static_expr_names_witness: "sx_names ''((n1 * k2) % 24)'' = [''n1'', ''k2'']"
  by (subst static_expr_names [where e = example_expr]) (simp_all add: sx_eval_simps)

lemma expr_value_bound:
  assumes "\<forall>x\<in>set (expr_names e). lookup x \<noteq> None" and "static_expr_text e = Some s"
  shows "(\<exists>v. expr_value lookup e = Inr v) \<or> expr_value lookup e = Inl DividesByZero
    \<or> (\<exists>w. expr_value lookup e = Inl (BadNumber w))"
  using assms
proof (induction e arbitrary: s)
  case (BinaryExpr e1 op e2)
  from BinaryExpr.prems(2) obtain t1 t2 c where t: "static_expr_text e1 = Some t1"
      "static_expr_text e2 = Some t2" and op: "op = [c]"
      "c \<in> {CHR ''+'', CHR ''-'', CHR ''*'', CHR ''/'', CHR ''%''}"
    by (rule static_expr_text_BinaryE)
  have "(\<exists>v. sx_apply (hd op) l r = Inr v) \<or> sx_apply (hd op) l r = Inl DividesByZero" for l r
    using op by (auto simp: sx_apply_def)
  moreover note BinaryExpr.IH(1)[OF _ t(1)] BinaryExpr.IH(2)[OF _ t(2)]
  ultimately show ?case using BinaryExpr.prems by fastforce
qed (auto split: option.splits)

text \<open>
  C37: a canonical text all of whose listed names are bound evaluates to a value, or
  fails by a zero divisor or by a literal outside the 64-bit range; no other error is
  possible, and in particular none about the text itself.
\<close>

theorem static_expr_errors:
  assumes "static_expr_text e = Some s" and "lexed_expr e"
    and "\<forall>x\<in>set (sx_names s). lookup x \<noteq> None"
  shows "(\<exists>v. sx_eval s lookup = Inr v) \<or> sx_eval s lookup = Inl DividesByZero
    \<or> (\<exists>w. sx_eval s lookup = Inl (BadNumber w))"
proof -
  have "sx_names s = expr_names e" using sx_names_text_append[OF assms(1,2), of "[]"] by simp
  moreover have "sx_term (Suc (length s)) lookup (s @ []) = bind_res (expr_value lookup e) (\<lambda>v. Inr (v, []))"
    by (rule sx_term_text[OF assms(1,2) _ static_expr_text_length[OF assms(1,2)]]) simp
  ultimately show ?thesis
    using expr_value_bound[of e lookup s] assms by (auto simp: sx_eval_def)
qed

theorem static_expr_errors_witness:
  "\<exists>v. sx_eval ''((n1 * k2) % 24)'' [''n1'' \<mapsto> 7, ''k2'' \<mapsto> 5] = Inr v"
proof -
  have "(\<exists>v. sx_eval ''((n1 * k2) % 24)'' [''n1'' \<mapsto> 7, ''k2'' \<mapsto> 5] = Inr v)
    \<or> sx_eval ''((n1 * k2) % 24)'' [''n1'' \<mapsto> 7, ''k2'' \<mapsto> 5] = Inl DividesByZero
    \<or> (\<exists>w. sx_eval ''((n1 * k2) % 24)'' [''n1'' \<mapsto> 7, ''k2'' \<mapsto> 5] = Inl (BadNumber w))"
    by (rule static_expr_errors [where e = example_expr]) (simp_all add: sx_eval_simps)
  then show ?thesis by (simp add: sx_eval_def sx_eval_simps)
qed

end
