(* ===== verification/Typ.thy ===== *)
theory Typ
  imports Staticexpr
begin

text \<open>
  Package typ (internal/typ/typ.go): the parsed form of a type spelling, its printer
  and the structural questions every phase asks of it. A missing type (Go's nil) is
  \<^const>\<open>None\<close> where the code allows one: the error set of \<^verbatim>\<open>!T\<close> and the
  arguments of \<open>ty_equal_opt\<close> and \<open>ty_text\<close>.
\<close>

section \<open>Types and their spelling\<close>

datatype ty =
    Name "string list" "ty list"
  | Slice ty
  | Buffer i64 string ty
  | Borrow ty bool
  | Optional ty
  | Const ty
  | Func "ty list" ty bool string
  | ErrorUnion "ty option" ty

definition len_text :: "i64 \<Rightarrow> string \<Rightarrow> string" where
  "len_text n len = (if len \<noteq> [] then len else format_int64 n)"

definition func_head :: "bool \<Rightarrow> string \<Rightarrow> string" where
  "func_head unsafe abi =
     (if abi \<noteq> [] then ''extern \"'' @ abi @ ''\" fn(''
      else if unsafe then ''unsafe fn('' else ''fn('')"

fun ty_string :: "ty \<Rightarrow> string" where
  "ty_string (Name path args) =
     (if args = [] then join ''::'' path
      else join ''::'' path @ ''<'' @ join '', '' (map ty_string args) @ ''>'')"
| "ty_string (Slice elem) = ''[]'' @ ty_string elem"
| "ty_string (Buffer n len elem) = ''['' @ len_text n len @ '']'' @ ty_string elem"
| "ty_string (Borrow elem mut) = (if mut then ''&var '' @ ty_string elem else ''&'' @ ty_string elem)"
| "ty_string (Optional elem) = ''?'' @ ty_string elem"
| "ty_string (Const elem) = ''const '' @ ty_string elem"
| "ty_string (Func params result unsafe abi) =
     func_head unsafe abi @ join '', '' (map ty_string params) @ '') -> '' @ ty_string result"
| "ty_string (ErrorUnion None ok) = ''!'' @ ty_string ok"
| "ty_string (ErrorUnion (Some err) ok) = ty_string err @ ''!'' @ ty_string ok"

definition ty_text :: "ty option \<Rightarrow> string" where
  "ty_text t = (case t of None \<Rightarrow> [] | Some t \<Rightarrow> ty_string t)"

definition is_func_spelling :: "string \<Rightarrow> bool" where
  "is_func_spelling s \<longleftrightarrow>
     prefix ''fn('' s \<or> prefix ''unsafe fn('' s \<or> prefix ''extern \"c\" fn('' s"

text \<open>The 128-bit vector types: lane type and lane count.\<close>

definition vector_of :: "string \<Rightarrow> (string \<times> nat) option" where
  "vector_of x =
     (if x = ''f64x2'' then Some (''f64'', 2)
      else if x = ''f32x4'' then Some (''f32'', 4)
      else if x = ''i64x2'' then Some (''i64'', 2)
      else if x = ''i32x4'' then Some (''i32'', 4)
      else if x = ''i16x8'' then Some (''i16'', 8)
      else if x = ''u64x2'' then Some (''u64'', 2)
      else if x = ''u32x4'' then Some (''u32'', 4)
      else if x = ''u16x8'' then Some (''u16'', 8)
      else None)"

definition is_vector :: "string \<Rightarrow> bool" where
  "is_vector x = (vector_of x \<noteq> None)"

section \<open>Structural equality\<close>

fun ty_equal :: "ty \<Rightarrow> ty \<Rightarrow> bool" and tys_equal :: "ty list \<Rightarrow> ty list \<Rightarrow> bool" where
  "ty_equal (Name p as) other =
     (case other of Name q bs \<Rightarrow> p = q \<and> tys_equal as bs | _ \<Rightarrow> False)"
| "ty_equal (Slice a) other = (case other of Slice b \<Rightarrow> ty_equal a b | _ \<Rightarrow> False)"
| "ty_equal (Buffer n l a) other =
     (case other of Buffer m k b \<Rightarrow> n = m \<and> l = k \<and> ty_equal a b | _ \<Rightarrow> False)"
| "ty_equal (Borrow a m) other =
     (case other of Borrow b k \<Rightarrow> m = k \<and> ty_equal a b | _ \<Rightarrow> False)"
| "ty_equal (Optional a) other = (case other of Optional b \<Rightarrow> ty_equal a b | _ \<Rightarrow> False)"
| "ty_equal (Const a) other = (case other of Const b \<Rightarrow> ty_equal a b | _ \<Rightarrow> False)"
| "ty_equal (Func ps r u abi) other =
     (case other of
        Func qs s v abi' \<Rightarrow> u = v \<and> tys_equal ps qs \<and> ty_equal r s
      | _ \<Rightarrow> False)"
| "ty_equal (ErrorUnion None a) other =
     (case other of ErrorUnion None b \<Rightarrow> ty_equal a b | _ \<Rightarrow> False)"
| "ty_equal (ErrorUnion (Some e) a) other =
     (case other of ErrorUnion (Some f) b \<Rightarrow> ty_equal e f \<and> ty_equal a b | _ \<Rightarrow> False)"
| "tys_equal [] others = (others = [])"
| "tys_equal (a # as) others =
     (case others of [] \<Rightarrow> False | b # bs \<Rightarrow> ty_equal a b \<and> tys_equal as bs)"

definition ty_equal_opt :: "ty option \<Rightarrow> ty option \<Rightarrow> bool" where
  "ty_equal_opt l r =
     (case (l, r) of (Some a, Some b) \<Rightarrow> ty_equal a b | (None, None) \<Rightarrow> True | _ \<Rightarrow> False)"

section \<open>Rewriting the names of a type\<close>

fun map_names :: "(string list \<Rightarrow> 'e + string list) \<Rightarrow> ty \<Rightarrow> 'e + ty" where
  "map_names rename (Name path args) =
     bind_res (rename path) (\<lambda>p. bind_res (map_res (map_names rename) args) (\<lambda>as. Inr (Name p as)))"
| "map_names rename (Slice elem) = bind_res (map_names rename elem) (\<lambda>e. Inr (Slice e))"
| "map_names rename (Buffer n len elem) =
     bind_res (map_names rename elem) (\<lambda>e. Inr (Buffer n len e))"
| "map_names rename (Borrow elem mut) = bind_res (map_names rename elem) (\<lambda>e. Inr (Borrow e mut))"
| "map_names rename (Optional elem) = bind_res (map_names rename elem) (\<lambda>e. Inr (Optional e))"
| "map_names rename (Const elem) = bind_res (map_names rename elem) (\<lambda>e. Inr (Const e))"
| "map_names rename (Func params result unsafe abi) =
     bind_res (map_res (map_names rename) params) (\<lambda>ps.
     bind_res (map_names rename result) (\<lambda>r. Inr (Func ps r unsafe abi)))"
| "map_names rename (ErrorUnion None ok) =
     bind_res (map_names rename ok) (\<lambda>k. Inr (ErrorUnion None k))"
| "map_names rename (ErrorUnion (Some err) ok) =
     bind_res (map_names rename ok) (\<lambda>k.
     bind_res (map_names rename err) (\<lambda>e. Inr (ErrorUnion (Some e) k)))"

text \<open>The types Walk visits, outermost first.\<close>

fun walk :: "ty \<Rightarrow> ty list" where
  "walk (Name path args) = Name path args # concat (map walk args)"
| "walk (Slice elem) = Slice elem # walk elem"
| "walk (Buffer n len elem) = Buffer n len elem # walk elem"
| "walk (Borrow elem mut) = Borrow elem mut # walk elem"
| "walk (Optional elem) = Optional elem # walk elem"
| "walk (Const elem) = Const elem # walk elem"
| "walk (Func params result unsafe abi) =
     Func params result unsafe abi # concat (map walk params) @ walk result"
| "walk (ErrorUnion None ok) = ErrorUnion None ok # walk ok"
| "walk (ErrorUnion (Some err) ok) = ErrorUnion (Some err) ok # walk err @ walk ok"

section \<open>Error unions, optionals, spellings cut apart\<close>

definition error_union_parts :: "ty \<Rightarrow> (ty option \<times> ty) option" where
  "error_union_parts t = (case t of ErrorUnion err ok \<Rightarrow> Some (err, ok) | _ \<Rightarrow> None)"

definition optional_elem :: "string \<Rightarrow> string option" where
  "optional_elem s =
     (if \<not> prefix ''?'' s \<or> prefix ''?ptr<'' s then None else Some (drop 1 s))"

definition nullable_pointer_elem :: "string \<Rightarrow> string option" where
  "nullable_pointer_elem s = (if prefix ''?ptr<'' s then Some (drop 1 s) else None)"

definition openable_elem :: "string \<Rightarrow> string option" where
  "openable_elem s =
     (case optional_elem s of Some e \<Rightarrow> Some e | None \<Rightarrow> nullable_pointer_elem s)"

definition borrow_optional_elem :: "string \<Rightarrow> (string \<times> bool) option" where
  "borrow_optional_elem s =
     (case cut_prefix s ''?&var '' of
        Some e \<Rightarrow> Some (e, True)
      | None \<Rightarrow> (case cut_prefix s ''?&'' of Some e \<Rightarrow> Some (e, False) | None \<Rightarrow> None))"

definition absorbs_error_set :: "ty \<Rightarrow> ty \<Rightarrow> bool" where
  "absorbs_error_set want got =
     (case error_union_parts want of
        Some (None, want_ok) \<Rightarrow>
          (case error_union_parts got of
             Some (Some e, got_ok) \<Rightarrow> ty_equal got_ok want_ok
           | _ \<Rightarrow> False)
      | _ \<Rightarrow> False)"

datatype split_error = UnbalancedClose | UnbalancedOpen | EmptyArgument

text \<open>
  The loop of SplitArgs: the bracket depth, the bytes of the current part in reverse,
  and the finished parts. Spellings are ASCII text, on which strings.TrimSpace cuts what
  \<open>trim_space\<close> cuts.
\<close>

fun split_args_loop :: "int \<Rightarrow> string \<Rightarrow> string list \<Rightarrow> string \<Rightarrow> split_error + string list" where
  "split_args_loop depth cur parts [] =
     (if depth \<noteq> 0 then Inl UnbalancedOpen
      else Inr (parts @ [trim_space (rev cur)]))"
| "split_args_loop depth cur parts (ch # rest) =
     (if ch = CHR ''<'' then split_args_loop (depth + 1) (ch # cur) parts rest
      else if ch = CHR ''>'' then
        (if depth - 1 < 0 then Inl UnbalancedClose
         else split_args_loop (depth - 1) (ch # cur) parts rest)
      else if ch = CHR '','' \<and> depth = 0 then
        split_args_loop depth [] (parts @ [trim_space (rev cur)]) rest
      else split_args_loop depth (ch # cur) parts rest)"

definition split_args :: "string \<Rightarrow> split_error + string list" where
  "split_args s =
     bind_res (split_args_loop 0 [] [] s) (\<lambda>parts.
       if [] \<in> set parts then Inl EmptyArgument else Inr parts)"

text \<open>
  SplitApply cuts \<^verbatim>\<open>Base<Args>\<close> at the first \<^verbatim>\<open><\<close>, which may not be the first
  byte, and drops the last byte, which must be \<^verbatim>\<open>>\<close>; an empty list is refused.
\<close>

definition split_apply :: "string \<Rightarrow> (string \<times> string) option" where
  "split_apply s =
     (let base = takeWhile (\<lambda>c. c \<noteq> CHR ''<'') s;
          args = take (length s - 1 - (length base + 1)) (drop (length base + 1) s)
      in if base = [] \<or> base = s \<or> \<not> suffix ''>'' s then None
         else if args = [] then None
         else Some (base, args))"

definition split_method_name :: "string \<Rightarrow> (string \<times> string) option" where
  "split_method_name s =
     (if CHR ''.'' \<notin> set s then None
      else let meth = rev (takeWhile (\<lambda>c. c \<noteq> CHR ''.'') (rev s))
           in Some (take (length s - length meth - 1) s, meth))"

definition cleanup_method :: string where
  "cleanup_method = ''deinit''"

section \<open>Substituting type parameters\<close>

fun substitute_node :: "(name \<rightharpoonup> ty) \<Rightarrow> ty \<Rightarrow> ty" where
  "substitute_node subst (Name path args) =
     (case (path, args) of
        ([p], []) \<Rightarrow> (case subst p of Some r \<Rightarrow> r | None \<Rightarrow> Name path args)
      | (_, []) \<Rightarrow> Name path args
      | _ \<Rightarrow> Name path (map (substitute_node subst) args))"
| "substitute_node subst (Slice elem) = Slice (substitute_node subst elem)"
| "substitute_node subst (Buffer n len elem) = Buffer n len (substitute_node subst elem)"
| "substitute_node subst (Borrow elem mut) = Borrow (substitute_node subst elem) mut"
| "substitute_node subst (Optional elem) = Optional (substitute_node subst elem)"
| "substitute_node subst (Const elem) = Const (substitute_node subst elem)"
| "substitute_node subst (Func params result unsafe abi) =
     Func (map (substitute_node subst) params) (substitute_node subst result) unsafe abi"
| "substitute_node subst (ErrorUnion None ok) = ErrorUnion None (substitute_node subst ok)"
| "substitute_node subst (ErrorUnion (Some err) ok) =
     ErrorUnion (Some (substitute_node subst err)) (substitute_node subst ok)"

text \<open>
  Substitute returns its argument as it is when no parameter is bound. The bound
  parameters are given as an association list, a finite map.
\<close>

definition substitute :: "ty \<Rightarrow> (name \<times> ty) list \<Rightarrow> ty" where
  "substitute t subst = (if subst = [] then t else substitute_node (map_of subst) t)"

section \<open>Array lengths that wait on static names\<close>

fun has_static_length :: "ty \<Rightarrow> bool" where
  "has_static_length (Name path args) = list_ex has_static_length args"
| "has_static_length (Buffer n len elem) = (len \<noteq> [] \<or> has_static_length elem)"
| "has_static_length (Func params result unsafe abi) =
     (list_ex has_static_length params \<or> has_static_length result)"
| "has_static_length (ErrorUnion None ok) = has_static_length ok"
| "has_static_length (ErrorUnion (Some err) ok) = (has_static_length ok \<or> has_static_length err)"
| "has_static_length (Slice elem) = has_static_length elem"
| "has_static_length (Borrow elem mut) = has_static_length elem"
| "has_static_length (Optional elem) = has_static_length elem"
| "has_static_length (Const elem) = has_static_length elem"

text \<open>The scan of the spelling that answers the same question without parsing.\<close>

fun has_static_length_text :: "string \<Rightarrow> bool" where
  "has_static_length_text (a # b # s) =
     ((a = CHR ''['' \<and> b \<noteq> CHR '']'' \<and> \<not> is_digit b) \<or> has_static_length_text (b # s))"
| "has_static_length_text _ = False"

datatype length_error = LengthEval sx_error | LengthNotPositive i64

definition bind_buffer_len ::
  "(name \<rightharpoonup> i64) \<Rightarrow> i64 \<Rightarrow> string \<Rightarrow> ty \<Rightarrow> length_error + ty" where
  "bind_buffer_len lookup n len elem =
     (if len = [] then Inr (Buffer n len elem)
      else if \<exists>x\<in>set (sx_names len). lookup x = None then Inr (Buffer n len elem)
      else (case sx_eval len lookup of
              Inl e \<Rightarrow> Inl (LengthEval e)
            | Inr n \<Rightarrow> if sint n \<le> 0 then Inl (LengthNotPositive n)
                       else Inr (Buffer n [] elem)))"

fun bind_lengths :: "(name \<rightharpoonup> i64) \<Rightarrow> ty \<Rightarrow> length_error + ty" where
  "bind_lengths lookup (Name path args) =
     (if \<not> list_ex has_static_length args then Inr (Name path args)
      else bind_res (map_res (bind_lengths lookup) args) (\<lambda>as. Inr (Name path as)))"
| "bind_lengths lookup (Buffer n len elem) =
     (if \<not> has_static_length (Buffer n len elem) then Inr (Buffer n len elem)
      else bind_res (bind_lengths lookup elem) (bind_buffer_len lookup n len))"
| "bind_lengths lookup (Slice elem) =
     (if \<not> has_static_length elem then Inr (Slice elem)
      else bind_res (bind_lengths lookup elem) (\<lambda>e. Inr (Slice e)))"
| "bind_lengths lookup (Borrow elem mut) =
     (if \<not> has_static_length elem then Inr (Borrow elem mut)
      else bind_res (bind_lengths lookup elem) (\<lambda>e. Inr (Borrow e mut)))"
| "bind_lengths lookup (Optional elem) =
     (if \<not> has_static_length elem then Inr (Optional elem)
      else bind_res (bind_lengths lookup elem) (\<lambda>e. Inr (Optional e)))"
| "bind_lengths lookup (Const elem) =
     (if \<not> has_static_length elem then Inr (Const elem)
      else bind_res (bind_lengths lookup elem) (\<lambda>e. Inr (Const e)))"
| "bind_lengths lookup (Func params result unsafe abi) =
     (if \<not> has_static_length (Func params result unsafe abi)
      then Inr (Func params result unsafe abi)
      else bind_res (map_res (bind_lengths lookup) params) (\<lambda>ps.
           bind_res (bind_lengths lookup result) (\<lambda>r. Inr (Func ps r unsafe abi))))"
| "bind_lengths lookup (ErrorUnion None ok) =
     (if \<not> has_static_length ok then Inr (ErrorUnion None ok)
      else bind_res (bind_lengths lookup ok) (\<lambda>k. Inr (ErrorUnion None k)))"
| "bind_lengths lookup (ErrorUnion (Some err) ok) =
     (if \<not> (has_static_length ok \<or> has_static_length err) then Inr (ErrorUnion (Some err) ok)
      else bind_res (bind_lengths lookup ok) (\<lambda>k.
           bind_res (bind_lengths lookup err) (\<lambda>e. Inr (ErrorUnion (Some e) k))))"

section \<open>Map keys, shifts, float literals\<close>

definition map_key_types :: "string list" where
  "map_key_types = [''i8'', ''i16'', ''i32'', ''i64'', ''u8'', ''u16'', ''u32'', ''u64'',
     ''isize'', ''usize'']"

definition is_map_key :: "string \<Rightarrow> bool" where
  "is_map_key s \<longleftrightarrow> s = ''[]u8'' \<or> s \<in> set map_key_types"

text \<open>
  Both shifts are Go's on int64: \<^verbatim>\<open><<\<close> drops the bits past the width and
  \<^verbatim>\<open>>>\<close> is arithmetic.
\<close>

definition shift_int64 :: "string \<Rightarrow> i64 \<Rightarrow> i64 \<Rightarrow> i64" where
  "shift_int64 op value amount =
     (if sint amount \<ge> 64 \<and> op = ''<<'' then 0
      else let n = (if sint amount \<ge> 64 then 63 else unat amount)
           in if op = ''<<'' then push_bit n value else signed_drop_bit n value)"

text \<open>
  Separators go and the exponent marker, with every other letter, becomes lower case. The literals
  are ASCII text, on which strings.ToLower is this function of each byte.
\<close>

definition to_lower :: "char \<Rightarrow> char" where
  "to_lower c = (if is_upper c then char_of (byte c + 32) else c)"

definition clean_float_literal :: "string \<Rightarrow> string" where
  "clean_float_literal s = map to_lower (filter (\<lambda>c. c \<noteq> CHR ''_'') s)"

section \<open>Equality compares everything but the calling convention\<close>

text \<open>
  The type with every function pointer's calling convention forgotten: what equality
  really compares.
\<close>

fun erase_abi :: "ty \<Rightarrow> ty" where
  "erase_abi (Name path args) = Name path (map erase_abi args)"
| "erase_abi (Slice elem) = Slice (erase_abi elem)"
| "erase_abi (Buffer n len elem) = Buffer n len (erase_abi elem)"
| "erase_abi (Borrow elem mut) = Borrow (erase_abi elem) mut"
| "erase_abi (Optional elem) = Optional (erase_abi elem)"
| "erase_abi (Const elem) = Const (erase_abi elem)"
| "erase_abi (Func params result unsafe abi) =
     Func (map erase_abi params) (erase_abi result) unsafe []"
| "erase_abi (ErrorUnion None ok) = ErrorUnion None (erase_abi ok)"
| "erase_abi (ErrorUnion (Some err) ok) = ErrorUnion (Some (erase_abi err)) (erase_abi ok)"

lemma erase_abi_ErrorUnion:
  "erase_abi (ErrorUnion err ok) = ErrorUnion (map_option erase_abi err) (erase_abi ok)"
  by (cases err) auto

lemma ty_equal_erase:
  "ty_equal a b \<longleftrightarrow> erase_abi a = erase_abi b"
  "tys_equal as bs \<longleftrightarrow> map erase_abi as = map erase_abi bs"
proof (induction a b and as bs rule: ty_equal_tys_equal.induct)
  case (8 a other)
  then show ?case by (cases other) (auto simp: erase_abi_ErrorUnion split: option.splits)
next
  case (9 e a other)
  then show ?case by (cases other) (auto simp: erase_abi_ErrorUnion split: option.splits)
next
  case (11 a as others)
  then show ?case by (cases others) auto
next
  case (1 p as other)
  then show ?case by (cases other) (auto simp: erase_abi_ErrorUnion)
next
  case (2 a other)
  then show ?case by (cases other) (auto simp: erase_abi_ErrorUnion)
next
  case (3 n l a other)
  then show ?case by (cases other) (auto simp: erase_abi_ErrorUnion)
next
  case (4 a m other)
  then show ?case by (cases other) (auto simp: erase_abi_ErrorUnion)
next
  case (5 a other)
  then show ?case by (cases other) (auto simp: erase_abi_ErrorUnion)
next
  case (6 a other)
  then show ?case by (cases other) (auto simp: erase_abi_ErrorUnion)
next
  case (7 ps r u abi other)
  then show ?case by (cases other) (auto simp: erase_abi_ErrorUnion)
qed auto

section \<open>Renaming and substitution laws\<close>

lemma map_res_compose:
  assumes "map_res f xs = Inr ys" and "\<And>x y. x \<in> set xs \<Longrightarrow> f x = Inr y \<Longrightarrow> g y = h x"
  shows "map_res g ys = map_res h xs"
  using assms
proof (induction xs arbitrary: ys)
  case (Cons x xs)
  then obtain z zs where z: "f x = Inr z" and zs: "map_res f xs = Inr zs" and "ys = z # zs"
    by (auto simp: bind_res_eq_Inr)
  moreover have "map_res g zs = map_res h xs" by (rule Cons.IH[OF zs]) (use Cons.prems in auto)
  moreover have "g z = h x" using Cons.prems(2)[OF _ z] by simp
  ultimately show ?case by simp
qed simp

lemma map_names_compose:
  assumes "map_names r t = Inr t'"
  shows "map_names q t' = map_names (\<lambda>p. bind_res (r p) q) t"
  using assms
proof (induction t arbitrary: t')
  case (Name path args)
  then obtain p as where p: "r path = Inr p" and as: "map_res (map_names r) args = Inr as"
    and t': "t' = Name p as" by (auto simp: bind_res_eq_Inr)
  have "map_res (map_names q) as = map_res (map_names (\<lambda>p. bind_res (r p) q)) args"
    by (rule map_res_compose[OF as]) (use Name.IH in blast)
  then show ?case by (simp add: t' p)
next
  case (Func ps res u abi)
  then obtain ps' res' where ps: "map_res (map_names r) ps = Inr ps'"
    and res: "map_names r res = Inr res'" and t': "t' = Func ps' res' u abi"
    by (auto simp: bind_res_eq_Inr)
  have "map_res (map_names q) ps' = map_res (map_names (\<lambda>p. bind_res (r p) q)) ps"
    by (rule map_res_compose[OF ps]) (use Func.IH in blast)
  then show ?case using Func.IH(2)[OF res] by (simp add: t')
next
  case (ErrorUnion err ok)
  then show ?case by (cases err) (auto simp: bind_res_eq_Inr)
qed (auto simp: bind_res_eq_Inr)

lemma substitute_node_fixed:
  "(\<And>p. Name [p] [] \<in> set (walk t) \<Longrightarrow> subst p = None) \<Longrightarrow> substitute_node subst t = t"
proof (induction t)
  case (Name path args)
  have "map (substitute_node subst) args = args"
    by (rule map_idI) (use Name in auto)
  moreover have "path = [p] \<Longrightarrow> args = [] \<Longrightarrow> subst p = None" for p
    using Name.prems by auto
  ultimately show ?case by (auto split: list.splits option.splits)
next
  case (Func ps r u abi)
  have "map (substitute_node subst) ps = ps"
    by (rule map_idI) (use Func in auto)
  then show ?case using Func by auto
next
  case (ErrorUnion err ok)
  then show ?case by (cases err) auto
qed auto

lemma substitute_node_empty: "substitute_node Map.empty t = t"
  by (rule substitute_node_fixed) simp

lemma substitute_eq: "substitute t subst = substitute_node (map_of subst) t"
  by (simp add: substitute_def substitute_node_empty)

lemma substitute_node_compose:
  "substitute_node tau (substitute_node sigma t) =
   substitute_node (\<lambda>x. case sigma x of Some u \<Rightarrow> Some (substitute_node tau u) | None \<Rightarrow> tau x) t"
proof (induction t)
  case (Name path args)
  then show ?case by (auto split: list.splits option.splits)
next
  case (ErrorUnion err ok)
  then show ?case by (cases err) auto
qed auto

lemma map_of_compose:
  "map_of (map (\<lambda>(x, u). (x, f u)) sigma @ tau) =
   (\<lambda>x. case map_of sigma x of Some u \<Rightarrow> Some (f u) | None \<Rightarrow> map_of tau x)"
  by (induction sigma) (auto simp: fun_eq_iff)

text \<open>
  A type as the list of its heads, each constructor with what it holds besides types and with
  how many types follow. Substitution acts on it head by head.
\<close>

datatype ty_head =
    NameHead "string list" nat | SliceHead | BufferHead i64 string | BorrowHead bool | OptionalHead | ConstHead
  | FuncHead nat bool string | ErrorHead bool

fun heads :: "ty \<Rightarrow> ty_head list" where
  "heads (Name path args) = NameHead path (length args) # concat (map heads args)"
| "heads (Slice elem) = SliceHead # heads elem"
| "heads (Buffer n len elem) = BufferHead n len # heads elem"
| "heads (Borrow elem mut) = BorrowHead mut # heads elem"
| "heads (Optional elem) = OptionalHead # heads elem"
| "heads (Const elem) = ConstHead # heads elem"
| "heads (Func params result unsafe abi) =
     FuncHead (length params) unsafe abi # concat (map heads params) @ heads result"
| "heads (ErrorUnion None ok) = ErrorHead False # heads ok"
| "heads (ErrorUnion (Some err) ok) = ErrorHead True # heads err @ heads ok"

definition replaced_head :: "(name \<rightharpoonup> ty) \<Rightarrow> ty_head \<Rightarrow> ty_head list" where
  "replaced_head subst h = (case h of
     NameHead [p] 0 \<Rightarrow> (case subst p of Some r \<Rightarrow> heads r | None \<Rightarrow> [h]) | _ \<Rightarrow> [h])"

lemma replaced_head_simps [simp]:
  "replaced_head subst (NameHead path n) = (case path of [p] \<Rightarrow>
     if n = 0 then (case subst p of Some r \<Rightarrow> heads r | None \<Rightarrow> [NameHead path n]) else [NameHead path n]
   | _ \<Rightarrow> [NameHead path n])"
  "replaced_head subst SliceHead = [SliceHead]" "replaced_head subst (BufferHead a len) = [BufferHead a len]"
  "replaced_head subst (BorrowHead mut) = [BorrowHead mut]" "replaced_head subst OptionalHead = [OptionalHead]"
  "replaced_head subst ConstHead = [ConstHead]" "replaced_head subst (FuncHead n un abi) = [FuncHead n un abi]"
  "replaced_head subst (ErrorHead e) = [ErrorHead e]"
  by (auto simp: replaced_head_def split: list.splits nat.splits)

lemma heads_list:
  assumes "\<And>t u r r'. t \<in> set ts \<Longrightarrow> heads t @ r = heads u @ r' \<Longrightarrow> t = u \<and> r = r'"
  shows "length us = length ts \<Longrightarrow> concat (map heads ts) @ r = concat (map heads us) @ r' \<Longrightarrow> ts = us \<and> r = r'"
  using assms
proof (induction ts arbitrary: us)
  case (Cons t ts)
  then obtain u us' where us: "us = u # us'" by (cases us) auto
  with Cons.prems(2) have "heads t @ (concat (map heads ts) @ r) = heads u @ (concat (map heads us') @ r')" by simp
  with Cons.prems(3)[of t] have tu: "t = u" "concat (map heads ts) @ r = concat (map heads us') @ r'"
    by (metis list.set_intros(1))+
  with Cons.IH[OF _ tu(2)] Cons.prems(1,3) us show ?case by (metis length_Cons list.set_intros(2) nat.inject)
qed simp

lemma heads_split: "heads t @ r = heads u @ r' \<Longrightarrow> t = u \<and> r = r'"
proof (induction t arbitrary: u r r')
  case (Name path args)
  then show ?case
    using heads_list[of args _ r r'] by (cases u rule: heads.cases) auto
next
  case (Func ps res un abi)
  show ?case
  proof (cases u rule: heads.cases)
    case (7 qs res' un' abi')
    with Func.prems have l: "length qs = length ps" "un = un'" "abi = abi'"
      "concat (map heads ps) @ (heads res @ r) = concat (map heads qs) @ (heads res' @ r')" by auto
    from heads_list[OF Func.IH(1) l(1,4)] have "ps = qs" "heads res @ r = heads res' @ r'" by blast+
    with Func.IH(2) l 7 show ?thesis by blast
  qed (use Func.prems in auto)
next
  case (ErrorUnion err ok)
  show ?case
  proof (cases err)
    case None
    with ErrorUnion show ?thesis by (cases u rule: heads.cases) auto
  next
    case (Some e)
    show ?thesis
    proof (cases u rule: heads.cases)
      case (9 e' ok')
      with ErrorUnion.prems Some have h: "heads e @ (heads ok @ r) = heads e' @ (heads ok' @ r')" by simp
      have "e = e'" "heads ok @ r = heads ok' @ r'"
        using ErrorUnion.IH(1)[OF _ h] Some by simp_all
      with ErrorUnion.IH(2) Some 9 show ?thesis by blast
    qed (use ErrorUnion.prems Some in auto)
  qed
next
  case (Slice t) then show ?case by (cases u rule: heads.cases) auto
next
  case (Buffer n len t) then show ?case by (cases u rule: heads.cases) auto
next
  case (Borrow t mut) then show ?case by (cases u rule: heads.cases) auto
next
  case (Optional t) then show ?case by (cases u rule: heads.cases) auto
next
  case (Const t) then show ?case by (cases u rule: heads.cases) auto
qed

lemma heads_inject [simp]: "heads t = heads u \<longleftrightarrow> t = u"
  using heads_split[of t "[]" u "[]"] by auto

lemma heads_substitute_node: "heads (substitute_node subst t) = concat (map (replaced_head subst) (heads t))"
proof (induction t)
  case (Name path args)
  have "concat (map heads (map (substitute_node subst) args)) = concat (map (replaced_head subst) (concat (map heads args)))"
    using Name by (induction args) auto
  then show ?case by (auto split: list.splits option.splits)
next
  case (Func ps res un abi)
  have "concat (map heads (map (substitute_node subst) ps)) = concat (map (replaced_head subst) (concat (map heads ps)))"
    using Func.IH(1) by (induction ps) auto
  with Func.IH(2) show ?case by simp
next
  case (ErrorUnion err ok)
  then show ?case by (cases err) auto
qed simp_all

section \<open>Binding lengths\<close>

text \<open>
  The early return of a type with no waiting length changes nothing, so the binder may
  be read without it.
\<close>

lemma map_res_id: "(\<And>x. x \<in> set xs \<Longrightarrow> f x = Inr x) \<Longrightarrow> map_res f xs = Inr xs"
  by (induction xs) auto

lemma bind_lengths_unchanged: "\<not> has_static_length t \<Longrightarrow> bind_lengths lookup t = Inr t"
  by (induction lookup t rule: bind_lengths.induct) auto

lemma bind_lengths_rec:
  "bind_lengths lookup (Name path args) =
     bind_res (map_res (bind_lengths lookup) args) (\<lambda>as. Inr (Name path as))"
  "bind_lengths lookup (Buffer n len elem) =
     bind_res (bind_lengths lookup elem) (bind_buffer_len lookup n len)"
  "bind_lengths lookup (Slice elem) = bind_res (bind_lengths lookup elem) (\<lambda>e. Inr (Slice e))"
  "bind_lengths lookup (Borrow elem mut) = bind_res (bind_lengths lookup elem) (\<lambda>e. Inr (Borrow e mut))"
  "bind_lengths lookup (Optional elem) = bind_res (bind_lengths lookup elem) (\<lambda>e. Inr (Optional e))"
  "bind_lengths lookup (Const elem) = bind_res (bind_lengths lookup elem) (\<lambda>e. Inr (Const e))"
  "bind_lengths lookup (Func params result unsafe abi) =
     bind_res (map_res (bind_lengths lookup) params) (\<lambda>ps.
     bind_res (bind_lengths lookup result) (\<lambda>r. Inr (Func ps r unsafe abi)))"
  "bind_lengths lookup (ErrorUnion None ok) =
     bind_res (bind_lengths lookup ok) (\<lambda>k. Inr (ErrorUnion None k))"
  "bind_lengths lookup (ErrorUnion (Some err) ok) =
     bind_res (bind_lengths lookup ok) (\<lambda>k.
     bind_res (bind_lengths lookup err) (\<lambda>e. Inr (ErrorUnion (Some e) k)))"
  by (auto simp: bind_lengths_unchanged map_res_id bind_buffer_len_def list_ex_iff)

declare bind_lengths.simps [simp del]

text \<open>\<open>all_lens P t\<close>: every array inside \<open>t\<close> has a size and a length text that satisfy \<open>P\<close>.\<close>

fun all_lens :: "(i64 \<Rightarrow> string \<Rightarrow> bool) \<Rightarrow> ty \<Rightarrow> bool" where
  "all_lens P (Name path args) = list_all (all_lens P) args"
| "all_lens P (Slice elem) = all_lens P elem"
| "all_lens P (Buffer n len elem) = (P n len \<and> all_lens P elem)"
| "all_lens P (Borrow elem mut) = all_lens P elem"
| "all_lens P (Optional elem) = all_lens P elem"
| "all_lens P (Const elem) = all_lens P elem"
| "all_lens P (Func ps r u abi) = (list_all (all_lens P) ps \<and> all_lens P r)"
| "all_lens P (ErrorUnion None ok) = all_lens P ok"
| "all_lens P (ErrorUnion (Some err) ok) = (all_lens P err \<and> all_lens P ok)"

lemma all_lens_mp:
  "all_lens P t \<Longrightarrow> all_lens (\<lambda>n l. P n l \<longrightarrow> Q n l) t \<Longrightarrow> all_lens Q t"
proof (induction t)
  case (ErrorUnion err ok)
  then show ?case by (cases err) auto
qed (auto simp: list_all_iff)

lemma all_lens_mono: "all_lens P t \<Longrightarrow> (\<And>n l. P n l \<Longrightarrow> Q n l) \<Longrightarrow> all_lens Q t"
proof (induction t)
  case (ErrorUnion err ok)
  then show ?case by (cases err) auto
qed (auto simp: list_all_iff)

lemma has_static_length_all_lens: "has_static_length t \<longleftrightarrow> \<not> all_lens (\<lambda>n len. len = []) t"
proof (induction t)
  case (ErrorUnion err ok)
  then show ?case by (cases err) auto
qed (auto simp: list_all_iff list_ex_iff)

definition waits :: "(name \<rightharpoonup> i64) \<Rightarrow> i64 \<Rightarrow> string \<Rightarrow> bool" where
  "waits lookup n len \<longleftrightarrow> len = [] \<or> (\<exists>x\<in>set (sx_names len). lookup x = None)"

definition positive_len :: "i64 \<Rightarrow> string \<Rightarrow> bool" where
  "positive_len n len \<longleftrightarrow> (len = [] \<longrightarrow> 0 < sint n)"

lemma map_res_all:
  "map_res f xs = Inr ys \<Longrightarrow> (\<And>x y. x \<in> set xs \<Longrightarrow> f x = Inr y \<Longrightarrow> P y) \<Longrightarrow> list_all P ys"
proof (induction xs arbitrary: ys)
  case (Cons x xs)
  then obtain z zs where z: "f x = Inr z" and zs: "map_res f xs = Inr zs" and "ys = z # zs"
    by (auto simp: bind_res_eq_Inr)
  moreover have "list_all P zs" by (rule Cons.IH[OF zs]) (use Cons.prems in auto)
  moreover have "P z" using Cons.prems(2)[OF _ z] by simp
  ultimately show ?case by simp
qed simp

text \<open>
  What binding gives is stated once: a predicate that holds of every array the binder
  leaves or makes holds of every array of the result.
\<close>

lemma bind_lengths_all_lens:
  assumes bind: "bind_lengths lookup t = Inr t'" and start: "all_lens P t"
    and step: "\<And>n len elem m l. P n len \<Longrightarrow>
      bind_buffer_len lookup n len elem = Inr (Buffer m l elem) \<Longrightarrow> Q m l"
  shows "all_lens Q t'"
  using bind start
proof (induction t arbitrary: t')
  case (Name path args)
  then obtain as where as: "map_res (bind_lengths lookup) args = Inr as" and t': "t' = Name path as"
    by (auto simp: bind_lengths_rec bind_res_eq_Inr)
  have "list_all (all_lens Q) as"
    by (rule map_res_all[OF as]) (use Name in \<open>auto simp: list_all_iff\<close>)
  then show ?case by (simp add: t')
next
  case (Func ps r u abi)
  then obtain ps' r' where ps: "map_res (bind_lengths lookup) ps = Inr ps'"
    and r: "bind_lengths lookup r = Inr r'" and t': "t' = Func ps' r' u abi"
    by (auto simp: bind_lengths_rec bind_res_eq_Inr)
  have "list_all (all_lens Q) ps'"
    by (rule map_res_all[OF ps]) (use Func in \<open>auto simp: list_all_iff\<close>)
  then show ?case using Func.IH(2)[OF r] Func.prems by (simp add: t')
next
  case (Buffer n len elem)
  then obtain e where e: "bind_lengths lookup elem = Inr e"
    and b: "bind_buffer_len lookup n len e = Inr t'"
    by (auto simp: bind_lengths_rec bind_res_eq_Inr)
  from b obtain m l where t': "t' = Buffer m l e"
    by (auto simp: bind_buffer_len_def split: if_splits sum.splits)
  then show ?case using Buffer.IH[OF e] Buffer.prems b step by auto
next
  case (ErrorUnion err ok)
  then show ?case by (cases err) (auto simp: bind_lengths_rec bind_res_eq_Inr)
qed (auto simp: bind_lengths_rec bind_res_eq_Inr)

lemma all_lens_True: "all_lens (\<lambda>n l. True) t"
proof (induction t)
  case (ErrorUnion err ok)
  then show ?case by (cases err) auto
qed (auto simp: list_all_iff)

lemma bind_lengths_waits: "bind_lengths lookup t = Inr t' \<Longrightarrow> all_lens (waits lookup) t'"
  by (rule bind_lengths_all_lens[OF _ all_lens_True])
    (auto simp: bind_buffer_len_def waits_def split: if_splits sum.splits)

lemma waits_bind_lengths: "all_lens (waits lookup) t \<Longrightarrow> bind_lengths lookup t = Inr t"
proof (induction t)
  case (ErrorUnion err ok)
  then show ?case by (cases err) (auto simp: bind_lengths_rec)
qed (auto simp: bind_lengths_rec map_res_id bind_buffer_len_def waits_def list_all_iff)

section \<open>Shifts\<close>

lemma unat_nonneg: "0 \<le> sint amount \<Longrightarrow> unat (amount :: i64) = nat (sint amount)"
  using sint64_range[of amount] by (simp add: unat_eq_nat_uint uint_sint take_bit_int_eq_self)

lemma shift_left_exact:
  assumes "0 \<le> sint amount"
  shows "shift_int64 ''<<'' v amount = word_of_int (sint v * 2 ^ nat (sint amount))"
proof -
  have "word_of_int (sint v * 2 ^ n) = push_bit n v" for n
    by (simp add: push_bit_eq_mult)
  moreover have "push_bit n v = 0" if "64 \<le> n" for n
  proof -
    have "(2 :: i64) ^ n = 0" using that by (subst exp_eq_zero_iff) simp
    then show ?thesis by (simp only: push_bit_eq_mult mult_zero_right)
  qed
  ultimately show ?thesis
    using assms by (auto simp: shift_int64_def Let_def nat_le_iff unat_nonneg)
qed

lemma shift_right_exact:
  assumes "0 \<le> sint amount"
  shows "sint (shift_int64 ''>>'' v amount) = sint v div 2 ^ nat (sint amount)"
proof -
  have sd: "sint (signed_drop_bit n v) = sint v div 2 ^ n" for n
    by (simp add: sint_signed_drop_bit_eq drop_bit_eq_div)
  have big: "sint v div 2 ^ n = sint v div 2 ^ 63" if "63 \<le> n" for n
  proof -
    have le: "(2::int) ^ 63 \<le> 2 ^ n" by (rule power_increasing) (use that in auto)
    show ?thesis
    proof (cases "sint v < 0")
      case True
      have "sint v div 2 ^ m = - 1" if "63 \<le> m" for m :: nat
      proof -
        have "(2::int) ^ 63 \<le> 2 ^ m" by (rule power_increasing) (use that in auto)
        then show ?thesis
          using True sint64_range[of v]
          by (intro int_div_pos_eq[where r = "sint v + 2 ^ m"]) auto
      qed
      from this[OF that] this[of 63] show ?thesis by (simp only: order.refl)
    next
      case False
      then show ?thesis using sint64_range[of v] le by (simp add: div_pos_pos_trivial)
    qed
  qed
  show ?thesis
    using assms sd big[of "nat (sint amount)"]
    by (auto simp: shift_int64_def Let_def unat_nonneg)
qed

section \<open>Properties\<close>

text \<open>
  C35: two types are equal exactly when they agree once the calling convention of every
  function pointer in them is forgotten; equality is therefore an equivalence, and it
  is structural identity on types without a C calling convention.
\<close>

theorem ty_equal_iff_erased: "ty_equal a b \<longleftrightarrow> erase_abi a = erase_abi b"
  by (rule ty_equal_erase)

text \<open>
  C36: a function pointer C calls and the ordinary function pointer of the same
  signature are different spellings, yet equality does not tell them apart.
\<close>

theorem ty_equal_ignores_abi:
  "ty_equal (Func ps r False ''c'') (Func ps r False []) \<and>
   ty_string (Func ps r False ''c'') \<noteq> ty_string (Func ps r False [])"
  by (simp add: ty_equal_erase func_head_def)

text \<open>
  Rewriting the names of a rewritten type is rewriting once with the composed
  renaming, failures of the second renaming included.
\<close>

theorem map_names_composition:
  assumes "map_names r t = Inr t'"
  shows "map_names q t' = map_names (\<lambda>p. bind_res (r p) q) t"
  by (rule map_names_compose[OF assms])

abbreviation qualify_with :: "string \<Rightarrow> string list \<Rightarrow> string + string list" where
  "qualify_with m p \<equiv> (if p = [''bad''] then Inl ''unknown'' else Inr (m # p))"

theorem map_names_composition_witness:
  "map_names (qualify_with ''b'') (Slice (Name [''a'', ''T''] [])) =
   Inr (Slice (Name [''b'', ''a'', ''T''] []))"
proof -
  have "map_names (qualify_with ''a'') (Slice (Name [''T''] [])) = Inr (Slice (Name [''a'', ''T''] []))"
    by simp
  from map_names_composition[OF this, of "qualify_with ''b''"] show ?thesis by simp
qed

text \<open>
  C27: Substitution does what it says and nothing else. Written as the list of its heads, the
  result is the type with the head of each bound name that stands alone, without arguments,
  replaced by the heads of its replacement and with every other head kept in place, below
  arguments, parameters, results and error sets too (a parameter \<^verbatim>\<open>T\<close> does not touch
  \<^verbatim>\<open>Timer\<close> or \<^verbatim>\<open>T<u8>\<close>). The heads determine the type. It is simultaneous: substituting
  twice is one substitution by the composed bindings.
\<close>

theorem substitute_composition:
  "heads (substitute t sigma) = concat (map (replaced_head (map_of sigma)) (heads t)) \<and>
   (heads t = heads u \<longrightarrow> t = u) \<and>
   substitute (substitute t sigma) tau =
     substitute t (map (\<lambda>(x, u). (x, substitute u tau)) sigma @ tau)"
proof (intro conjI)
  show "substitute (substitute t sigma) tau =
     substitute t (map (\<lambda>(x, u). (x, substitute u tau)) sigma @ tau)"
    unfolding substitute_eq map_of_compose by (rule substitute_node_compose)
qed (simp_all add: substitute_eq heads_substitute_node)

theorem substitute_composition_witness:
  "substitute (Func [Name [''Box''] [Name [''T''] []]] (Name [''Timer''] []) False []) [(''T'', Name [''u8''] [])]
     = Func [Name [''Box''] [Name [''u8''] []]] (Name [''Timer''] []) False []"
proof -
  let ?t = "Func [Name [''Box''] [Name [''T''] []]] (Name [''Timer''] []) False []"
  let ?u = "Func [Name [''Box''] [Name [''u8''] []]] (Name [''Timer''] []) False []"
  note s = substitute_composition[of ?t "[(''T'', Name [''u8''] [])]" ?t "[]"]
  from s have "heads (substitute ?t [(''T'', Name [''u8''] [])]) = heads ?u" by simp
  then show ?thesis using substitute_composition[of "substitute ?t [(''T'', Name [''u8''] [])]" "[]" ?u "[]"] by blast
qed

text \<open>
  C28: binding lengths is idempotent; it leaves no waiting length when every name the
  lengths read is bound; and it keeps every written length at least 1.
\<close>

theorem bind_lengths_result:
  assumes "bind_lengths lookup t = Inr t'"
  shows "bind_lengths lookup t' = Inr t' \<and>
    (all_lens (\<lambda>n len. set (sx_names len) \<subseteq> dom lookup) t \<longrightarrow> \<not> has_static_length t') \<and>
    (all_lens positive_len t \<longrightarrow> all_lens positive_len t')"
proof (intro conjI impI)
  show "bind_lengths lookup t' = Inr t'"
    by (rule waits_bind_lengths) (rule bind_lengths_waits[OF assms])
  show "\<not> has_static_length t'" if "all_lens (\<lambda>n len. set (sx_names len) \<subseteq> dom lookup) t"
    unfolding has_static_length_all_lens
    by (simp, rule bind_lengths_all_lens[OF assms that])
      (auto simp: bind_buffer_len_def domIff subset_iff split: if_splits sum.splits)
  show "all_lens positive_len t'" if "all_lens positive_len t"
    by (rule bind_lengths_all_lens[OF assms that])
      (auto simp: bind_buffer_len_def positive_len_def split: if_splits sum.splits)
qed

theorem bind_lengths_result_witness:
  "\<not> has_static_length (Slice (Buffer 8 [] (Name [''f64''] [])))"
proof -
  have "bind_lengths [''n'' \<mapsto> 4] (Slice (Buffer 0 ''(n * 2)'' (Name [''f64''] []))) =
      Inr (Slice (Buffer 8 [] (Name [''f64''] [])))"
    by (simp add: bind_lengths_rec bind_buffer_len_def sx_eval_def sx_eval_simps)
  from bind_lengths_result[OF this] show ?thesis by (simp add: sx_eval_simps)
qed

text \<open>
  the width rule of the compile-time shifts is exact arithmetic: for a
  non-negative amount, however large, \<^verbatim>\<open><<\<close> is multiplication by the power of two,
  wrapped, and \<^verbatim>\<open>>>\<close> is its floor division.
\<close>

theorem shift_int64_exact:
  assumes "0 \<le> sint amount"
  shows "shift_int64 ''<<'' v amount = word_of_int (sint v * 2 ^ nat (sint amount)) \<and>
         sint (shift_int64 ''>>'' v amount) = sint v div 2 ^ nat (sint amount)"
  using shift_left_exact[OF assms] shift_right_exact[OF assms] by simp

theorem shift_int64_exact_witness:
  "shift_int64 ''<<'' 3 70 = 0 \<and> sint (shift_int64 ''>>'' (- 5) 1) = - 3"
  using shift_int64_exact[of 70 3] shift_int64_exact[of 1 "- 5"]
  by (simp add: shift_int64_def)

end
