(* ===== verification/Typ_Parse.thy ===== *)
theory Typ_Parse
  imports Typ
begin

text \<open>
  The reader of type spellings, internal/typ/parse.go, and Parse of
  internal/typ/typ.go. The parser's position is the text still unread. The recursive
  descent takes fuel; \<open>typ_parse\<close> gives five units per byte and five more, which
  \<open>typ_parse_no_fuel\<close> shows is enough for every text.

  \<open>canon\<close> describes the types whose spelling reads back as they are;
  \<open>typ_parse_image\<close> shows that these are exactly the types Parse returns.
\<close>

datatype ty_error =
    ExpectedName
  | UnclosedParen
  | ExpectedArrow
  | ExpectedBufferSize
  | ExpectedBracket
  | BadBufferSize
  | UnclosedAngle
  | TrailingText
  | TyFuel

section \<open>The parser\<close>

text \<open>The loop over a path's segments ends where no \<^verbatim>\<open>::\<close> follows.\<close>

function parse_path :: "string \<Rightarrow> ty_error + (string list \<times> string)" where
  "parse_path s =
     (let part = takeWhile is_word s; rest = dropWhile is_word s
      in if part = [] then Inl ExpectedName
         else (case cut_prefix rest ''::'' of
                 None \<Rightarrow> Inr ([part], rest)
               | Some rest' \<Rightarrow> bind_res (parse_path rest') (\<lambda>(path, r). Inr (part # path, r))))"
  by pat_completeness auto
termination
proof (relation "measure length", simp)
  fix s x xa x2
  assume "x = takeWhile is_word s" "xa = dropWhile is_word s" "cut_prefix xa ''::'' = Some x2"
  moreover have "length (dropWhile is_word s) \<le> length s" by (rule length_dropWhile_le)
  ultimately show "(x2, s) \<in> measure length" by (auto simp: cut_prefix_Some)
qed

declare parse_path.simps [simp del]

text \<open>The length text of an array, up to a byte that cannot belong to it.\<close>

fun skip_length :: "nat \<Rightarrow> string \<Rightarrow> ty_error + (string \<times> string)" where
  "skip_length depth [] = Inl ExpectedBracket"
| "skip_length depth (ch # rest) =
     (let more = (\<lambda>d. bind_res (skip_length d rest) (\<lambda>(len, r). Inr (ch # len, r)))
      in if ch = CHR ''('' then more (Suc depth)
         else if ch = CHR '')'' \<and> depth > 0 then more (depth - 1)
         else if depth = 0 \<and> \<not> is_word ch then Inr ([], ch # rest)
         else more depth)"

text \<open>
  The switch of parsePrefix: which opening a text has, in the order the cases are
  tried, and the text after the part the case accepts.
\<close>

datatype opener =
    OErrorUnion | OSlice | OBorrow bool | OOptional | OConst
  | OBuffer | OFunc bool string | OName

definition opening_of :: "string \<Rightarrow> opener \<times> string" where
  "opening_of s =
     (if prefix ''!'' s then (OErrorUnion, drop 1 s)
      else if prefix ''['' s then
        (if prefix ''[]'' s then (OSlice, drop 2 s) else (OBuffer, s))
      else if prefix ''&var '' s then (OBorrow True, drop 5 s)
      else if prefix ''&'' s then (OBorrow False, drop 1 s)
      else if prefix ''?'' s then (OOptional, drop 1 s)
      else if prefix ''unsafe fn('' s then (OFunc True [], drop 10 s)
      else if prefix ''extern \"c\" fn('' s then (OFunc False ''c'', drop 14 s)
      else if prefix ''fn('' s then (OFunc False [], drop 3 s)
      else if prefix ''const '' s then (OConst, drop 6 s)
      else (OName, s))"

fun wrap_opening :: "opener \<Rightarrow> ty \<Rightarrow> ty" where
  "wrap_opening OErrorUnion elem = ErrorUnion None elem"
| "wrap_opening OSlice elem = Slice elem"
| "wrap_opening (OBorrow mut) elem = Borrow elem mut"
| "wrap_opening OOptional elem = Optional elem"
| "wrap_opening _ elem = Const elem"

text \<open>The buffer node once the length text and the element are read.\<close>

definition buffer_node :: "string \<Rightarrow> ty \<times> string \<Rightarrow> ty_error + (ty \<times> string)" where
  "buffer_node len er =
     (case er of (elem, r) \<Rightarrow>
        if \<not> is_digit (hd len) then Inr (Buffer 0 len elem, r)
        else (case parse_int64 len of
                None \<Rightarrow> Inl BadBufferSize
              | Some n \<Rightarrow> Inr (Buffer n [] elem, r)))"

text \<open>\<open>accept_or e p r\<close>: the text after \<open>p\<close>, or the error \<open>e\<close>.\<close>

definition accept_or :: "ty_error \<Rightarrow> string \<Rightarrow> string \<Rightarrow> ty_error + string" where
  "accept_or e p r = (case cut_prefix r p of None \<Rightarrow> Inl e | Some r' \<Rightarrow> Inr r')"

definition buffer_open :: "string \<Rightarrow> ty_error + (string \<times> string)" where
  "buffer_open s =
     bind_res (skip_length 0 (drop 1 s)) (\<lambda>(len, r).
       if len = [] then Inl ExpectedBufferSize
       else bind_res (accept_or ExpectedBracket '']'' r) (\<lambda>r'. Inr (len, r')))"

function (sequential)
    parse_type :: "nat \<Rightarrow> string \<Rightarrow> ty_error + (ty \<times> string)"
and parse_prefix :: "nat \<Rightarrow> string \<Rightarrow> ty_error + (ty \<times> string)"
and parse_func :: "nat \<Rightarrow> bool \<Rightarrow> string \<Rightarrow> string \<Rightarrow> ty_error + (ty \<times> string)"
and parse_params :: "nat \<Rightarrow> string \<Rightarrow> ty_error + (ty list \<times> string)"
and parse_buffer :: "nat \<Rightarrow> string \<Rightarrow> ty_error + (ty \<times> string)"
and parse_name :: "nat \<Rightarrow> string \<Rightarrow> ty_error + (ty \<times> string)"
and parse_list :: "nat \<Rightarrow> string \<Rightarrow> ty_error + (ty list \<times> string)"
where
  "parse_type 0 s = Inl TyFuel"
| "parse_type (Suc f) s =
     bind_res (parse_prefix f s) (\<lambda>(left, r).
       if prefix ''!'' r
       then bind_res (parse_prefix f (drop 1 r)) (\<lambda>(ok, r'). Inr (ErrorUnion (Some left) ok, r'))
       else Inr (left, r))"
| "parse_prefix 0 s = Inl TyFuel"
| "parse_prefix (Suc f) s =
     (case opening_of s of
        (OFunc unsafe abi, r) \<Rightarrow> parse_func f unsafe abi r
      | (OBuffer, r) \<Rightarrow> parse_buffer f r
      | (OName, r) \<Rightarrow> parse_name f r
      | (opener, r) \<Rightarrow>
          bind_res (parse_prefix f r) (\<lambda>(elem, r'). Inr (wrap_opening opener elem, r')))"
| "parse_func 0 unsafe abi s = Inl TyFuel"
| "parse_func (Suc f) unsafe abi s =
     bind_res (parse_params f s) (\<lambda>(ps, r).
     bind_res (accept_or ExpectedArrow '' -> '' r) (\<lambda>r1.
     bind_res (parse_type f r1) (\<lambda>(result, r2). Inr (Func ps result unsafe abi, r2))))"
| "parse_params 0 s = Inl TyFuel"
| "parse_params (Suc f) s =
     (if prefix '')'' s then Inr ([], drop 1 s)
      else bind_res (parse_list f s) (\<lambda>(ps, r).
           bind_res (accept_or UnclosedParen '')'' r) (\<lambda>r'. Inr (ps, r'))))"
| "parse_buffer 0 s = Inl TyFuel"
| "parse_buffer (Suc f) s =
     bind_res (buffer_open s) (\<lambda>(len, r). bind_res (parse_prefix f r) (buffer_node len))"
| "parse_name 0 s = Inl TyFuel"
| "parse_name (Suc f) s =
     bind_res (parse_path s) (\<lambda>(path, r).
       if prefix ''<'' r
       then bind_res (parse_list f (drop 1 r)) (\<lambda>(args, r1).
            bind_res (accept_or UnclosedAngle ''>'' r1) (\<lambda>r2. Inr (Name path args, r2)))
       else Inr (Name path [], r))"
| "parse_list 0 s = Inl TyFuel"
| "parse_list (Suc f) s =
     bind_res (parse_type f s) (\<lambda>(t, r).
       if prefix '','' r
       then bind_res (parse_list f (trim_prefix (drop 1 r) '' '')) (\<lambda>(ts, r'). Inr (t # ts, r'))
       else Inr ([t], r))"
  by pat_completeness auto
termination
  by (relation "measure (\<lambda>x. case x of
        Inl (Inl (f, _)) \<Rightarrow> f | Inl (Inr (Inl (f, _))) \<Rightarrow> f | Inl (Inr (Inr (f, _))) \<Rightarrow> f
      | Inr (Inl (Inl (f, _))) \<Rightarrow> f | Inr (Inl (Inr (f, _))) \<Rightarrow> f
      | Inr (Inr (Inl (f, _))) \<Rightarrow> f | Inr (Inr (Inr (f, _))) \<Rightarrow> f)") auto

definition typ_fuel :: "string \<Rightarrow> nat" where
  "typ_fuel s = 5 * length s + 5"

definition typ_parse :: "string \<Rightarrow> ty_error + ty" where
  "typ_parse s =
     bind_res (parse_type (typ_fuel s) s) (\<lambda>(t, r). if r = [] then Inr t else Inl TrailingText)"

section \<open>Text-level operations that parse\<close>

text \<open>
  BindLengthsText leaves a text it cannot parse, or whose length makes no array, as
  written. SubstituteText parses the text and every replacement first.
\<close>

definition bind_lengths_text :: "(name \<rightharpoonup> i64) \<Rightarrow> string \<Rightarrow> string" where
  "bind_lengths_text lookup s =
     (if \<not> has_static_length_text s then s
      else (case typ_parse s of
              Inl e \<Rightarrow> s
            | Inr t \<Rightarrow> (case bind_lengths lookup t of Inl e \<Rightarrow> s | Inr t' \<Rightarrow> ty_string t')))"

definition substitute_text :: "string \<Rightarrow> (name \<times> string) list \<Rightarrow> ty_error + string" where
  "substitute_text s subst =
     (if subst = [] then Inr s
      else bind_res (typ_parse s) (\<lambda>t.
           bind_res (map_res (\<lambda>(x, r). bind_res (typ_parse r) (\<lambda>u. Inr (x, u))) subst) (\<lambda>sigma.
             Inr (ty_string (substitute t sigma)))))"

section \<open>The table of parsed types\<close>

text \<open>
  Type table (internal/typ/table.go): the parsed trees filed under their spelling.
  Remember keeps the first tree of a spelling; Parse parses a text once.
\<close>

type_synonym ty_table = "string \<rightharpoonup> ty"

definition table_remember :: "ty_table \<Rightarrow> ty \<Rightarrow> ty \<times> ty_table" where
  "table_remember tab t =
     (case tab (ty_string t) of
        Some u \<Rightarrow> (u, tab)
      | None \<Rightarrow> (t, tab(ty_string t \<mapsto> t)))"

definition table_parse :: "ty_table \<Rightarrow> string \<Rightarrow> (ty_error + ty) \<times> ty_table" where
  "table_parse tab s =
     (case tab s of
        Some t \<Rightarrow> (Inr t, tab)
      | None \<Rightarrow>
          (case typ_parse s of
             Inl e \<Rightarrow> (Inl e, tab)
           | Inr t \<Rightarrow> (let (u, tab') = table_remember tab t in (Inr u, tab'))))"

section \<open>Enough fuel\<close>

text \<open>\<open>shrinks s res\<close>: the parser did not run out of fuel, and consumed at least a byte.\<close>

definition shrinks :: "string \<Rightarrow> ty_error + ('a \<times> string) \<Rightarrow> bool" where
  "shrinks s res \<longleftrightarrow> res \<noteq> Inl TyFuel \<and> (\<forall>t r. res = Inr (t, r) \<longrightarrow> length r < length s)"

lemma shrinks_bind:
  assumes "shrinks s m" and "\<And>t r. m = Inr (t, r) \<Longrightarrow> length r < length s \<Longrightarrow> shrinks s (k (t, r))"
  shows "shrinks s (bind_res m k)"
  using assms by (cases m) (auto simp: shrinks_def)

lemma shrinks_mono: "shrinks r res \<Longrightarrow> length r \<le> length s \<Longrightarrow> shrinks s res"
  by (auto simp: shrinks_def)

lemma shrinks_Inr [simp]: "shrinks s (Inr (t, r)) \<longleftrightarrow> length r < length s"
  by (simp add: shrinks_def)

lemma shrinks_accept:
  assumes "e \<noteq> TyFuel" and "\<And>r'. r = p @ r' \<Longrightarrow> shrinks s (k r')"
  shows "shrinks s (bind_res (accept_or e p r) k)"
proof (cases "cut_prefix r p")
  case None
  with assms(1) show ?thesis by (simp add: accept_or_def shrinks_def)
next
  case (Some r')
  with assms(2) show ?thesis by (simp add: accept_or_def cut_prefix_Some)
qed

lemma takeWhile_dropWhile_length: "length (takeWhile P s) + length (dropWhile P s) = length s"
  by (metis length_append takeWhile_dropWhile_id)

lemma parse_path_shrinks: "shrinks s (parse_path s)"
proof (induction s rule: parse_path.induct)
  case (1 s)
  have len: "length (takeWhile is_word s) + length (dropWhile is_word s) = length s"
    by (rule takeWhile_dropWhile_length)
  show ?case
  proof (cases "takeWhile is_word s = []")
    case True
    then show ?thesis by (subst parse_path.simps) (simp add: shrinks_def Let_def)
  next
    case word: False
    then have lt: "length (dropWhile is_word s) < length s"
      using len by (cases "takeWhile is_word s") auto
    show ?thesis
    proof (cases "cut_prefix (dropWhile is_word s) ''::''")
      case None
      with word lt show ?thesis by (subst parse_path.simps) (simp add: Let_def)
    next
      case (Some r)
      have IH: "shrinks r (parse_path r)"
        by (rule "1.IH"[OF refl refl word Some])
      have "length r < length s" using lt Some by (auto simp: cut_prefix_Some)
      with IH have "shrinks s (bind_res (parse_path r) (\<lambda>(path, q). Inr (takeWhile is_word s # path, q)))"
        by (intro shrinks_bind) (auto intro: shrinks_mono)
      with word Some show ?thesis by (subst parse_path.simps) (simp add: Let_def)
    qed
  qed
qed

lemma skip_length_result:
  "skip_length d s \<noteq> Inl TyFuel \<and> (\<forall>len r. skip_length d s = Inr (len, r) \<longrightarrow> s = len @ r)"
  by (induction d s rule: skip_length.induct)
    (auto simp: Let_def bind_res_def split: sum.splits if_splits)

lemma buffer_open_shrinks: "s \<noteq> [] \<Longrightarrow> shrinks s (buffer_open s)"
proof (cases "skip_length 0 (drop 1 s)")
  case (Inl e)
  then show ?thesis using skip_length_result[of 0 "drop 1 s"]
    by (auto simp: buffer_open_def shrinks_def)
next
  case (Inr p)
  assume s: "s \<noteq> []"
  obtain len r where p: "p = (len, r)" by (cases p)
  then have "drop 1 s = len @ r" using skip_length_result[of 0 "drop 1 s"] Inr by auto
  then have "length (len @ r) = length s - 1" by (metis length_drop)
  then have "length r < length s" using s by (cases s) auto
  then show ?thesis using Inr p
    by (auto simp: buffer_open_def shrinks_def accept_or_def cut_prefix_Some
        split: option.splits)
qed

lemma buffer_node_shrinks:
  "length r < length s \<Longrightarrow> shrinks s (buffer_node len (t, r))"
  by (auto simp: buffer_node_def shrinks_def split: option.splits if_splits)

lemma opening_of_length:
  assumes "opening_of s = (op, r)"
  shows "(if op = OBuffer \<or> op = OName then r = s else length r < length s) \<and> (op = OBuffer \<longrightarrow> s \<noteq> [])"
  using assms by (auto simp: opening_of_def prefix_def split: if_splits)

lemma trim_prefix_length: "length (trim_prefix s p) \<le> length s"
  by (auto simp: trim_prefix_def cut_prefix_Some split: option.splits)

lemma parse_shrinks_all:
  "(\<forall>s. 5 * length s + 3 \<le> f \<longrightarrow> shrinks s (parse_type f s)) \<and>
   (\<forall>s. 5 * length s + 2 \<le> f \<longrightarrow> shrinks s (parse_prefix f s)) \<and>
   (\<forall>s unsafe abi. 5 * length s + 6 \<le> f \<longrightarrow> shrinks s (parse_func f unsafe abi s)) \<and>
   (\<forall>s. 5 * length s + 5 \<le> f \<longrightarrow> shrinks s (parse_params f s)) \<and>
   (\<forall>s. 5 * length s + 1 \<le> f \<longrightarrow> s \<noteq> [] \<longrightarrow> shrinks s (parse_buffer f s)) \<and>
   (\<forall>s. 5 * length s + 1 \<le> f \<longrightarrow> shrinks s (parse_name f s)) \<and>
   (\<forall>s. 5 * length s + 4 \<le> f \<longrightarrow> shrinks s (parse_list f s))"
proof (induction f)
  case 0
  then show ?case by simp
next
  case (Suc f)
  then have ty: "\<And>s. 5 * length s + 3 \<le> f \<Longrightarrow> shrinks s (parse_type f s)"
    and pre: "\<And>s. 5 * length s + 2 \<le> f \<Longrightarrow> shrinks s (parse_prefix f s)"
    and fn: "\<And>s u a. 5 * length s + 6 \<le> f \<Longrightarrow> shrinks s (parse_func f u a s)"
    and par: "\<And>s. 5 * length s + 5 \<le> f \<Longrightarrow> shrinks s (parse_params f s)"
    and buf: "\<And>s. 5 * length s + 1 \<le> f \<Longrightarrow> s \<noteq> [] \<Longrightarrow> shrinks s (parse_buffer f s)"
    and nam: "\<And>s. 5 * length s + 1 \<le> f \<Longrightarrow> shrinks s (parse_name f s)"
    and lst: "\<And>s. 5 * length s + 4 \<le> f \<Longrightarrow> shrinks s (parse_list f s)"
    by blast+
  have sub: "shrinks s (bind_res (parse_prefix f r) k)"
    if "5 * length r + 2 \<le> f" "length r \<le> length s"
      "\<And>t r'. length r' < length s \<Longrightarrow> shrinks s (k (t, r'))" for s r k
    by (rule shrinks_bind[OF shrinks_mono[OF pre]]) (use that in auto)
  have "shrinks s (parse_type (Suc f) s)" if "5 * length s + 3 \<le> Suc f" for s
    using that by (auto intro!: sub simp: prefix_def)
  moreover have "shrinks s (parse_prefix (Suc f) s)" if n: "5 * length s + 2 \<le> Suc f" for s
  proof -
    obtain op r where op: "opening_of s = (op, r)" by (cases "opening_of s")
    from opening_of_length[OF op] n show ?thesis
      by (cases op) (auto simp: op intro!: sub buf nam intro: shrinks_mono[OF fn])
  qed
  moreover have "shrinks s (parse_func (Suc f) u a s)" if "5 * length s + 6 \<le> Suc f" for s u a
    using that
    by (auto intro!: shrinks_bind[OF par] shrinks_accept shrinks_bind[OF shrinks_mono[OF ty]])
  moreover have "shrinks s (parse_params (Suc f) s)" if "5 * length s + 5 \<le> Suc f" for s
    using that by (auto intro!: shrinks_bind[OF lst] shrinks_accept simp: prefix_def)
  moreover have "shrinks s (parse_buffer (Suc f) s)" if "5 * length s + 1 \<le> Suc f" "s \<noteq> []" for s
    using that by (auto intro!: shrinks_bind[OF buffer_open_shrinks] sub buffer_node_shrinks)
  moreover have "shrinks s (parse_name (Suc f) s)" if "5 * length s + 1 \<le> Suc f" for s
    using that
    by (auto intro!: shrinks_bind[OF parse_path_shrinks] shrinks_bind[OF shrinks_mono[OF lst]]
        shrinks_accept simp: prefix_def)
  moreover have "shrinks s (parse_list (Suc f) s)" if "5 * length s + 4 \<le> Suc f" for s
  proof -
    have more: "shrinks s (bind_res (parse_list f (trim_prefix r' '' '')) k)"
      if "length r' < length s" "\<And>t r'. length r' < length s \<Longrightarrow> shrinks s (k (t, r'))" for r' k
      by (rule shrinks_bind[OF shrinks_mono[OF lst]])
        (use that trim_prefix_length[of r' "'' ''"] \<open>5 * length s + 4 \<le> Suc f\<close> in auto)
    from that show ?thesis
      by (auto intro!: shrinks_bind[OF ty] more simp: prefix_def)
  qed
  ultimately show ?case by blast
qed

lemma typ_parse_no_fuel: "typ_parse s \<noteq> Inl TyFuel"
  using parse_shrinks_all[of "typ_fuel s"]
  by (auto simp: typ_parse_def typ_fuel_def shrinks_def bind_res_def split: sum.splits)

section \<open>Canonical types\<close>

definition is_prefix_ty :: "ty \<Rightarrow> bool" where
  "is_prefix_ty t = (case t of ErrorUnion (Some e) ok \<Rightarrow> False | _ \<Rightarrow> True)"

text \<open>
  \<open>bang_ok t\<close>: a \<^verbatim>\<open>!\<close> after the spelling of \<open>t\<close> is not read into \<open>t\<close>. Only the result of a
  function pointer reads one, and only when it has no error set yet.
\<close>

fun bang_ok :: "ty \<Rightarrow> bool" where
  "bang_ok (Name path args) = True"
| "bang_ok (Slice elem) = bang_ok elem"
| "bang_ok (Buffer n len elem) = bang_ok elem"
| "bang_ok (Borrow elem mut) = bang_ok elem"
| "bang_ok (Optional elem) = bang_ok elem"
| "bang_ok (Const elem) = bang_ok elem"
| "bang_ok (Func params result unsafe abi) = (\<not> is_prefix_ty result \<and> bang_ok result)"
| "bang_ok (ErrorUnion err ok) = bang_ok ok"

text \<open>A length text: words, and anything inside balanced parentheses.\<close>

fun len_scan :: "nat \<Rightarrow> string \<Rightarrow> bool" where
  "len_scan depth [] = (depth = 0)"
| "len_scan depth (ch # rest) =
     (if ch = CHR ''('' then len_scan (Suc depth) rest
      else if ch = CHR '')'' \<and> depth > 0 then len_scan (depth - 1) rest
      else (depth = 0 \<longrightarrow> is_word ch) \<and> len_scan depth rest)"

definition canon_len :: "i64 \<Rightarrow> string \<Rightarrow> bool" where
  "canon_len n len \<longleftrightarrow>
     (if len = [] then 0 \<le> sint n else n = 0 \<and> \<not> is_digit (hd len) \<and> len_scan 0 len)"

definition is_segment :: "string \<Rightarrow> bool" where
  "is_segment w \<longleftrightarrow> w \<noteq> [] \<and> list_all is_word w"

fun canon :: "ty \<Rightarrow> bool" where
  "canon (Name path args) \<longleftrightarrow> path \<noteq> [] \<and> list_all is_segment path \<and> list_all canon args"
| "canon (Slice elem) \<longleftrightarrow> canon elem \<and> is_prefix_ty elem"
| "canon (Buffer n len elem) \<longleftrightarrow> canon_len n len \<and> canon elem \<and> is_prefix_ty elem"
| "canon (Borrow elem mut) \<longleftrightarrow> canon elem \<and> is_prefix_ty elem"
| "canon (Optional elem) \<longleftrightarrow> canon elem \<and> is_prefix_ty elem"
| "canon (Const elem) \<longleftrightarrow> canon elem \<and> is_prefix_ty elem"
| "canon (Func params result unsafe abi) \<longleftrightarrow>
     list_all canon params \<and> canon result \<and> (abi = [] \<or> (abi = ''c'' \<and> \<not> unsafe))"
| "canon (ErrorUnion None ok) \<longleftrightarrow> canon ok \<and> is_prefix_ty ok"
| "canon (ErrorUnion (Some err) ok) \<longleftrightarrow>
     canon err \<and> is_prefix_ty err \<and> bang_ok err \<and> canon ok \<and> is_prefix_ty ok"

lemma is_prefix_ty_simps [simp]:
  "is_prefix_ty (Name p a)" "is_prefix_ty (Slice e)" "is_prefix_ty (Buffer n l e)"
  "is_prefix_ty (Borrow e m)" "is_prefix_ty (Optional e)" "is_prefix_ty (Const e)"
  "is_prefix_ty (Func ps r u c)" "is_prefix_ty (ErrorUnion None k)"
  "\<not> is_prefix_ty (ErrorUnion (Some e) k)"
  by (simp_all add: is_prefix_ty_def)

section \<open>Reading a printed type\<close>

text \<open>What may follow a type inside a spelling.\<close>

definition follows :: "string \<Rightarrow> bool" where
  "follows rest \<longleftrightarrow> rest = [] \<or> hd rest \<in> {CHR '','', CHR ''>'', CHR '')'', CHR ''!''}"

lemma follows_stops:
  "follows rest \<Longrightarrow> stops is_word rest"
  "follows rest \<Longrightarrow> \<not> prefix ''<'' rest \<and> \<not> prefix '':'' rest \<and> \<not> prefix '' '' rest \<and> \<not> prefix ''('' rest"
  by (cases rest; auto simp: follows_def byte_defs)+

lemma follows_Cons [simp]:
  "follows (c # r) \<longleftrightarrow> c \<in> {CHR '','', CHR ''>'', CHR '')'', CHR ''!''}"
  by (simp add: follows_def)

lemma segment_run:
  assumes "is_segment w" and "stops is_word r"
  shows "takeWhile is_word (w @ r) = w" and "dropWhile is_word (w @ r) = r"
  using assms by (simp_all add: is_segment_def takeWhile_run dropWhile_run)

lemma not_word_colon [simp]: "\<not> is_word (CHR '':'')" "\<not> is_word (CHR ''<'')" "\<not> is_word (CHR '']'')"
  by (simp_all add: byte_defs)

lemma parse_path_join:
  assumes "path \<noteq> []" and "list_all is_segment path"
    and "stops is_word r" and "\<not> prefix '':'' r"
  shows "parse_path (join ''::'' path @ r) = Inr (path, r)"
  using assms
proof (induction "''::''" path rule: join.induct)
  case (2 x)
  then have "x \<noteq> []" and "cut_prefix r ''::'' = None"
    by (auto simp: is_segment_def cut_prefix_None prefix_def)
  with 2 segment_run[of x r] show ?case by (subst parse_path.simps) (simp add: Let_def)
next
  case (3 x y xs)
  then have "x \<noteq> []" by (auto simp: is_segment_def)
  moreover have "parse_path (join ''::'' (y # xs) @ r) = Inr (y # xs, r)"
    using 3 by simp
  ultimately show ?case
    using 3 segment_run[of x "''::'' @ join ''::'' (y # xs) @ r"]
    by (subst parse_path.simps) (simp add: Let_def)
qed simp

lemma skip_length_scan:
  assumes "len_scan d len" and "\<not> is_word c" and "c \<noteq> CHR ''(''"
  shows "skip_length d (len @ c # r) = Inr (len, c # r)"
  using assms by (induction d len rule: len_scan.induct) (auto simp: Let_def split: if_splits)

section \<open>The round trip\<close>

text \<open>A keyword of the switch ends in a byte that no word followed by \<open>r\<close> has there.\<close>

lemma word_not_keyword:
  assumes "list_all is_word w" and "stops is_word r" and "list_all is_word k"
    and "\<not> is_word c" and "\<not> prefix [c] r"
  shows "\<not> prefix (k @ c # k') (w @ r)"
proof
  assume "prefix (k @ c # k') (w @ r)"
  then obtain z where z: "w @ r = k @ (c # k' @ z)" by (auto simp: prefix_def)
  have "dropWhile is_word (w @ r) = r" using assms by (intro dropWhile_run)
  moreover have "dropWhile is_word (k @ (c # k' @ z)) = c # k' @ z"
    using assms by (intro dropWhile_run) auto
  ultimately have "r = c # k' @ z" using z by simp
  then show False using assms(5) by simp
qed

lemma opening_of_word:
  assumes "is_segment w" and "stops is_word r" and "\<not> prefix '' '' r" and "\<not> prefix ''('' r"
  shows "opening_of (w @ r) = (OName, w @ r)"
proof -
  from assms(1) obtain c v where w: "w = c # v" and c: "is_word c" and run: "list_all is_word w"
    by (cases w) (auto simp: is_segment_def)
  have "c \<noteq> CHR ''!''" "c \<noteq> CHR ''[''" "c \<noteq> CHR ''&''" "c \<noteq> CHR ''?''"
    using c by (auto simp: byte_defs)
  moreover have "\<not> prefix (''unsafe'' @ CHR '' '' # ''fn('') (w @ r)"
    "\<not> prefix (''extern'' @ CHR '' '' # ''\"c\" fn('') (w @ r)"
    "\<not> prefix (''fn'' @ CHR ''('' # []) (w @ r)"
    "\<not> prefix (''const'' @ CHR '' '' # []) (w @ r)"
    by (rule word_not_keyword[OF run assms(2)]; use assms in \<open>simp add: byte_defs\<close>)+
  ultimately show ?thesis using w by (simp add: opening_of_def)
qed

definition reads :: "ty \<Rightarrow> bool" where
  "reads t \<longleftrightarrow> (\<forall>f rest. follows rest \<longrightarrow>
     (prefix ''!'' rest \<longrightarrow> \<not> is_prefix_ty t \<and> bang_ok t) \<longrightarrow>
     5 * length (ty_string t) + 3 \<le> f \<longrightarrow> parse_type f (ty_string t @ rest) = Inr (t, rest))"

definition reads_prefix :: "ty \<Rightarrow> bool" where
  "reads_prefix t \<longleftrightarrow> (\<forall>f rest. follows rest \<longrightarrow> (prefix ''!'' rest \<longrightarrow> bang_ok t) \<longrightarrow>
     5 * length (ty_string t) + 2 \<le> f \<longrightarrow> parse_prefix f (ty_string t @ rest) = Inr (t, rest))"

lemma reads_if_prefix: "reads_prefix t \<Longrightarrow> is_prefix_ty t \<Longrightarrow> reads t"
  unfolding reads_def
proof (intro allI impI)
  fix f rest
  assume "reads_prefix t" "is_prefix_ty t" "follows rest"
    "prefix ''!'' rest \<longrightarrow> \<not> is_prefix_ty t \<and> bang_ok t" "5 * length (ty_string t) + 3 \<le> f"
  moreover from this obtain g where "f = Suc g" by (cases f) auto
  ultimately show "parse_type f (ty_string t @ rest) = Inr (t, rest)"
    by (auto simp: reads_prefix_def)
qed

lemma reads_error_union:
  assumes "reads_prefix e" and "reads_prefix k" and "bang_ok e"
  shows "reads (ErrorUnion (Some e) k)"
  unfolding reads_def
proof (intro allI impI)
  fix f rest
  assume a: "follows rest" "prefix ''!'' rest \<longrightarrow>
      \<not> is_prefix_ty (ErrorUnion (Some e) k) \<and> bang_ok (ErrorUnion (Some e) k)"
    "5 * length (ty_string (ErrorUnion (Some e) k)) + 3 \<le> f"
  then obtain g where f: "f = Suc g" by (cases f) auto
  have "parse_prefix g (ty_string e @ ''!'' @ ty_string k @ rest) = Inr (e, ''!'' @ ty_string k @ rest)"
    using assms a f by (auto simp: reads_prefix_def)
  moreover have "parse_prefix g (ty_string k @ rest) = Inr (k, rest)"
    using assms a f by (auto simp: reads_prefix_def)
  ultimately show "parse_type f (ty_string (ErrorUnion (Some e) k) @ rest) =
      Inr (ErrorUnion (Some e) k, rest)"
    by (simp add: f)
qed

lemma parse_list_join:
  assumes "ts \<noteq> []" and "\<And>t. t \<in> set ts \<Longrightarrow> reads t" and "c = CHR ''>'' \<or> c = CHR '')''"
    and "5 * length (join '', '' (map ty_string ts)) + 4 \<le> f"
  shows "parse_list f (join '', '' (map ty_string ts) @ c # rest) = Inr (ts, c # rest)"
  using assms
proof (induction ts arbitrary: f rule: induct_list012)
  case (2 t)
  then obtain g where "f = Suc g" by (cases f) auto
  with 2 show ?case by (auto simp: reads_def)
next
  case (3 t u us)
  let ?tail = "join '', '' (map ty_string (u # us))"
  from 3 obtain g where f: "f = Suc g" by (cases f) auto
  have "parse_type g (ty_string t @ '', '' @ ?tail @ c # rest) = Inr (t, '', '' @ ?tail @ c # rest)"
    using 3 f by (auto simp: reads_def)
  moreover have "parse_list g (?tail @ c # rest) = Inr (u # us, c # rest)"
    by (rule "3.IH"(2)) (use 3 f in auto)
  ultimately show ?case by (simp add: f trim_prefix_def)
qed simp

lemma reads_prefix_wrap:
  assumes "reads_prefix e"
    and "\<And>rest. follows rest \<Longrightarrow> opening_of (ty_string t @ rest) = (op, ty_string e @ rest)"
    and "op = OErrorUnion \<or> op = OSlice \<or> (\<exists>m. op = OBorrow m) \<or> op = OOptional \<or> op = OConst"
    and "wrap_opening op e = t" and "bang_ok t \<longrightarrow> bang_ok e"
    and "length (ty_string e) < length (ty_string t)"
  shows "reads_prefix t"
  unfolding reads_prefix_def
proof (intro allI impI)
  fix f rest
  assume a: "follows rest" "prefix ''!'' rest \<longrightarrow> bang_ok t" "5 * length (ty_string t) + 2 \<le> f"
  then obtain g where f: "f = Suc g" by (cases f) auto
  have "parse_prefix g (ty_string e @ rest) = Inr (e, rest)"
    using assms a f by (auto simp: reads_prefix_def)
  then show "parse_prefix f (ty_string t @ rest) = Inr (t, rest)"
    using assms(2)[OF a(1)] assms(3,4) by (auto simp: f)
qed

lemma reads_prefix_name:
  assumes c: "canon (Name path args)" and args: "\<And>a. a \<in> set args \<Longrightarrow> reads a"
  shows "reads_prefix (Name path args)"
  unfolding reads_prefix_def
proof (intro allI impI)
  fix f rest
  assume a: "follows rest" "5 * length (ty_string (Name path args)) + 2 \<le> f"
  let ?r = "(if args = [] then rest else ''<'' @ join '', '' (map ty_string args) @ ''>'' @ rest)"
  have str: "ty_string (Name path args) @ rest = join ''::'' path @ ?r" by simp
  from c obtain w ws where path: "path = w # ws" and w: "is_segment w" by (cases path) auto
  have r: "stops is_word ?r" "\<not> prefix '':'' ?r" "\<not> prefix '' '' ?r" "\<not> prefix ''('' ?r"
    using follows_stops[OF a(1)] by auto
  obtain r' where r': "join ''::'' path @ ?r = w @ r'" "stops is_word r'"
    "\<not> prefix '' '' r'" "\<not> prefix ''('' r'"
  proof (cases ws)
    case Nil
    then show ?thesis using that[of ?r] path r by simp
  next
    case (Cons v vs)
    then show ?thesis using that[of "''::'' @ join ''::'' ws @ ?r"] path by simp
  qed
  have op: "opening_of (join ''::'' path @ ?r) = (OName, join ''::'' path @ ?r)"
    using opening_of_word[OF w r'(2-4)] r'(1) by simp
  have pp: "parse_path (join ''::'' path @ ?r) = Inr (path, ?r)"
    by (rule parse_path_join) (use c r path in auto)
  obtain g where f: "f = Suc (Suc g)" using a(2) path w by (cases f; cases "f - 1") auto
  have "parse_name (Suc g) (join ''::'' path @ ?r) = Inr (Name path args, rest)"
  proof (cases "args = []")
    case True
    then show ?thesis using pp follows_stops[OF a(1)] by simp
  next
    case False
    then have "parse_list g (join '', '' (map ty_string args) @ CHR ''>'' # rest) = Inr (args, CHR ''>'' # rest)"
      by (intro parse_list_join args) (use a(2) f in auto)
    then show ?thesis using pp False by (simp add: accept_or_def)
  qed
  then show "parse_prefix f (ty_string (Name path args) @ rest) = Inr (Name path args, rest)"
    unfolding str f by (simp add: op)
qed

text \<open>The first byte of a printed type says which kind it is.\<close>

lemma join_hd: "xs \<noteq> [] \<Longrightarrow> hd xs \<noteq> [] \<Longrightarrow> join sep xs \<noteq> [] \<and> hd (join sep xs) = hd (hd xs)"
  by (cases "(sep, xs)" rule: join.cases) auto

lemma canon_name_hd:
  assumes "canon (Name path args)"
  obtains c r where "ty_string (Name path args) = c # r" and "is_word c"
proof -
  from assms have "path \<noteq> []" "hd path \<noteq> []" "is_word (hd (hd path))"
    by (cases path; auto simp: is_segment_def hd_in_set list_all_iff)+
  with join_hd[of path "''::''"] show ?thesis
    by (intro that[of "hd (hd path)" "tl (ty_string (Name path args))"])
      (cases "join ''::'' path"; simp)+
qed

definition opens_type :: "char \<Rightarrow> bool" where
  "opens_type c \<longleftrightarrow> is_word c \<or> c \<in> {CHR ''['', CHR ''&'', CHR ''?'', CHR ''!''}"

lemma canon_hd: "canon t \<Longrightarrow> \<exists>c r. ty_string t = c # r \<and> opens_type c"
proof (induction t)
  case (Name path args)
  then show ?case by (metis canon_name_hd opens_type_def)
next
  case (ErrorUnion err ok)
  then show ?case by (cases err) (auto simp: opens_type_def)
next
  case (Func ps r u abi)
  then show ?case by (auto simp: opens_type_def func_head_def byte_defs)
qed (auto simp: opens_type_def byte_defs)

lemma opens_type_not: "opens_type c \<Longrightarrow> c \<noteq> CHR '')'' \<and> \<not> is_space c"
  by (auto simp: opens_type_def byte_defs)

lemma canon_list_hd:
  assumes "ts \<noteq> []" and "list_all canon ts"
  shows "\<exists>c r. join '', '' (map ty_string ts) = c # r \<and> opens_type c"
proof -
  obtain t us where ts: "ts = t # us" using assms(1) by (cases ts) auto
  with assms(2) canon_hd[of t] show ?thesis by (cases us) auto
qed

lemma opening_of_func:
  assumes "abi = [] \<or> (abi = ''c'' \<and> \<not> unsafe)"
  shows "opening_of (func_head unsafe abi @ r) = (OFunc unsafe abi, r)"
  using assms by (auto simp: opening_of_def func_head_def)

lemma reads_prefix_func:
  assumes c: "canon (Func ps res u abi)" and ps: "\<And>a. a \<in> set ps \<Longrightarrow> reads a" and res: "reads res"
  shows "reads_prefix (Func ps res u abi)"
  unfolding reads_prefix_def
proof (intro allI impI)
  fix f rest
  assume a: "follows rest" "prefix ''!'' rest \<longrightarrow> bang_ok (Func ps res u abi)"
    "5 * length (ty_string (Func ps res u abi)) + 2 \<le> f"
  let ?ps = "join '', '' (map ty_string ps)"
  have head: "3 \<le> length (func_head u abi)" by (simp add: func_head_def)
  then obtain g where f: "f = Suc (Suc (Suc g))" using a(3)
    by (cases f; cases "f - 1"; cases "f - 2") auto
  have "parse_params (Suc g) (?ps @ '') -> '' @ ty_string res @ rest) =
      Inr (ps, '' -> '' @ ty_string res @ rest)"
  proof (cases "ps = []")
    case False
    have l: "parse_list g (?ps @ CHR '')'' # '' -> '' @ ty_string res @ rest) =
        Inr (ps, CHR '')'' # '' -> '' @ ty_string res @ rest)"
      by (rule parse_list_join) (use False ps a(3) f head in auto)
    have "\<not> prefix '')'' (?ps @ CHR '')'' # '' -> '' @ ty_string res @ rest)"
      using canon_list_hd[OF False] c by (auto dest: opens_type_not)
    with l show ?thesis by (simp add: accept_or_def)
  qed simp
  moreover have "parse_type (Suc g) (ty_string res @ rest) = Inr (res, rest)"
    using res[unfolded reads_def, rule_format, of rest "Suc g"] a f head
    by (simp del: parse_type.simps)
  ultimately show "parse_prefix f (ty_string (Func ps res u abi) @ rest) = Inr (Func ps res u abi, rest)"
    using opening_of_func[of abi u] c by (simp add: f accept_or_def)
qed

lemma len_text_scan:
  assumes "canon_len n len"
  shows "skip_length 0 (len_text n len @ CHR '']'' # r) = Inr (len_text n len, CHR '']'' # r)"
    and "len_text n len \<noteq> []"
    and "is_digit (hd (len_text n len)) \<longleftrightarrow> len = []"
    and "len = [] \<Longrightarrow> parse_int64 (len_text n len) = Some n"
proof -
  have scan: "len_scan 0 w" if "list_all is_word w" for w
    using that by (induction w) (auto simp: is_word_not_op)
  have digits: "list_all is_word (format_int64 n) \<and> is_digit (hd (format_int64 n))" if "0 \<le> sint n"
    using that format_nat_digits format_nat_hd_digit
    by (auto simp: format_int64_def format_int_def list_all_iff is_digit_is_word)
  have "len_scan 0 (len_text n len)"
    using assms scan digits by (auto simp: canon_len_def len_text_def)
  then show "skip_length 0 (len_text n len @ CHR '']'' # r) = Inr (len_text n len, CHR '']'' # r)"
    by (rule skip_length_scan) simp_all
  show "len_text n len \<noteq> []" by (auto simp: len_text_def format_int64_def)
  show "is_digit (hd (len_text n len)) \<longleftrightarrow> len = []"
    using assms digits by (auto simp: canon_len_def len_text_def split: if_splits)
  show "len = [] \<Longrightarrow> parse_int64 (len_text n len) = Some n"
    by (simp add: len_text_def)
qed

lemma reads_prefix_buffer:
  assumes c: "canon (Buffer n len elem)" and e: "reads_prefix elem"
  shows "reads_prefix (Buffer n len elem)"
  unfolding reads_prefix_def
proof (intro allI impI)
  fix f rest
  assume a: "follows rest" "prefix ''!'' rest \<longrightarrow> bang_ok (Buffer n len elem)"
    "5 * length (ty_string (Buffer n len elem)) + 2 \<le> f"
  then obtain g where f: "f = Suc (Suc g)" by (cases f; cases "f - 1") auto
  from c have cl: "canon_len n len" by simp
  have "hd (len_text n len @ z) \<noteq> CHR '']''" for z
    using cl len_text_scan(1)[OF cl, of z] len_text_scan(2)[OF cl]
    by (cases "len_text n len") (auto split: if_splits)
  then have op: "opening_of (ty_string (Buffer n len elem) @ rest) =
      (OBuffer, ty_string (Buffer n len elem) @ rest)"
    using len_text_scan(2)[OF cl] by (cases "len_text n len") (auto simp: opening_of_def)
  have "parse_prefix g (ty_string elem @ rest) = Inr (elem, rest)"
    using e a f by (auto simp: reads_prefix_def)
  then have "parse_buffer (Suc g) (ty_string (Buffer n len elem) @ rest) = Inr (Buffer n len elem, rest)"
    using len_text_scan[OF cl] cl
    by (auto simp: buffer_open_def accept_or_def buffer_node_def canon_len_def len_text_def)
  then show "parse_prefix f (ty_string (Buffer n len elem) @ rest) = Inr (Buffer n len elem, rest)"
    by (simp only: f parse_prefix.simps op prod.case opener.case)
qed

lemma canon_not_var:
  assumes "canon e" and "is_prefix_ty e" and "follows rest"
  shows "\<not> prefix ''var '' (ty_string e @ rest)"
proof (cases e)
  case (Name path args)
  let ?r = "(if args = [] then rest else ''<'' @ join '', '' (map ty_string args) @ ''>'' @ rest)"
  from assms Name obtain w ws where path: "path = w # ws" and w: "list_all is_word w"
    by (cases path) (auto simp: is_segment_def)
  obtain r' where r': "join ''::'' path @ ?r = w @ r'" "stops is_word r'" "\<not> prefix '' '' r'"
  proof (cases ws)
    case Nil
    then show ?thesis using that[of ?r] path follows_stops[OF assms(3)] by auto
  next
    case (Cons v vs)
    then show ?thesis using that[of "''::'' @ join ''::'' ws @ ?r"] path by simp
  qed
  have "\<not> prefix (''var'' @ CHR '' '' # []) (w @ r')"
    by (rule word_not_keyword) (use w r' in \<open>auto simp: byte_defs\<close>)
  then show ?thesis using r'(1) Name by auto
next
  case (ErrorUnion err ok)
  show ?thesis
  proof (cases err)
    case (Some e')
    then show ?thesis using ErrorUnion assms by (auto simp: is_prefix_ty_def split: option.splits)
  qed (simp add: ErrorUnion)
qed (auto simp: func_head_def)

lemma reads_prefix_simple:
  assumes "reads_prefix e" and "canon e" and "is_prefix_ty e"
  shows "reads_prefix (Slice e)" and "reads_prefix (Borrow e m)" and "reads_prefix (Optional e)"
    and "reads_prefix (Const e)" and "reads_prefix (ErrorUnion None e)"
proof -
  show "reads_prefix (Slice e)"
    by (rule reads_prefix_wrap[OF assms(1), of _ OSlice]) (auto simp: opening_of_def)
  show "reads_prefix (Borrow e m)"
    by (rule reads_prefix_wrap[OF assms(1), of _ "OBorrow m"])
      (use canon_not_var[OF assms(2,3)] in \<open>auto simp: opening_of_def\<close>)
  show "reads_prefix (Optional e)"
    by (rule reads_prefix_wrap[OF assms(1), of _ OOptional]) (auto simp: opening_of_def)
  show "reads_prefix (Const e)"
    by (rule reads_prefix_wrap[OF assms(1), of _ OConst]) (auto simp: opening_of_def)
  show "reads_prefix (ErrorUnion None e)"
    by (rule reads_prefix_wrap[OF assms(1), of _ OErrorUnion]) (auto simp: opening_of_def)
qed

lemma canon_reads: "canon t \<Longrightarrow> reads t \<and> (is_prefix_ty t \<longrightarrow> reads_prefix t)"
proof (induction t)
  case (Name path args)
  then have "reads_prefix (Name path args)"
    by (intro reads_prefix_name) (auto simp: list_all_iff)
  then show ?case by (simp add: reads_if_prefix)
next
  case (Func ps r u abi)
  then have "reads_prefix (Func ps r u abi)"
    by (intro reads_prefix_func) (auto simp: list_all_iff)
  then show ?case by (simp add: reads_if_prefix)
next
  case (Buffer n len elem)
  then have "reads_prefix (Buffer n len elem)" by (intro reads_prefix_buffer) auto
  then show ?case by (simp add: reads_if_prefix)
next
  case (ErrorUnion err ok)
  show ?case
  proof (cases err)
    case None
    with ErrorUnion show ?thesis by (auto intro: reads_if_prefix reads_prefix_simple)
  next
    case (Some e)
    with ErrorUnion show ?thesis by (auto intro: reads_error_union)
  qed
qed (auto intro: reads_if_prefix reads_prefix_simple reads_prefix_buffer)

lemma canon_parse_type:
  assumes "canon t" and "follows rest"
    and "prefix ''!'' rest \<longrightarrow> \<not> is_prefix_ty t \<and> bang_ok t"
    and "5 * length (ty_string t) + 3 \<le> f"
  shows "parse_type f (ty_string t @ rest) = Inr (t, rest)"
  using canon_reads[OF assms(1)] assms by (auto simp: reads_def)

lemma canon_typ_parse: "canon t \<Longrightarrow> typ_parse (ty_string t) = Inr t"
  using canon_parse_type[of t "[]" "typ_fuel (ty_string t)"]
  by (simp add: typ_parse_def typ_fuel_def follows_def)


section \<open>What the parser returns\<close>

lemma bind_res_InrD: "bind_res m k = Inr x \<Longrightarrow> \<exists>y. m = Inr y \<and> k y = Inr x"
  by (cases m) auto

lemma parse_path_segments: "parse_path s = Inr (path, r) \<Longrightarrow> path \<noteq> [] \<and> list_all is_segment path"
proof (induction s arbitrary: path r rule: parse_path.induct)
  case (1 s)
  have seg: "takeWhile is_word s \<noteq> [] \<Longrightarrow> is_segment (takeWhile is_word s)"
    by (auto simp: is_segment_def list_all_iff dest: set_takeWhileD)
  from "1.prems" show ?case
    by (subst (asm) parse_path.simps)
      (auto simp: Let_def seg dest!: bind_res_InrD dest: "1.IH"[OF refl refl]
        split: if_splits option.splits)
qed

lemma skip_length_len_scan: "skip_length d s = Inr (len, r) \<Longrightarrow> len_scan d len"
proof (induction d s arbitrary: len rule: skip_length.induct)
  case (2 d ch rest)
  then show ?case
    by (auto simp: Let_def dest!: bind_res_InrD split: if_splits)
qed simp

lemma parse_int64_digit:
  assumes "parse_int64 len = Some n" and "is_digit (hd len)" and "len \<noteq> []"
  shows "0 \<le> sint n"
proof -
  obtain c r where c: "len = c # r" "c \<noteq> CHR ''-''" "c \<noteq> CHR ''+''"
    using assms by (cases len) (auto dest: digit_not_sign)
  with assms obtain m :: nat where "int m < 2 ^ 63" and n: "n = word_of_int (int m)"
    by (auto simp: parse_int64_def parse_int_text_def split: option.splits if_splits)
  then have "sint n = int m"
    by (simp only: n signed_of_int) (simp add: signed_take_bit_int_eq_self)
  then show ?thesis by simp
qed

lemma buffer_node_canon:
  assumes "skip_length 0 s = Inr (len, r0)" and "len \<noteq> []" and "buffer_node len (e, r) = Inr (t, r')"
    and "canon e" and "is_prefix_ty e"
  shows "canon t \<and> is_prefix_ty t \<and> r' = r \<and> (bang_ok t \<longleftrightarrow> bang_ok e)"
proof (cases "is_digit (hd len)")
  case True
  with assms obtain n where n: "parse_int64 len = Some n" "t = Buffer n [] e" "r' = r"
    by (auto simp: buffer_node_def split: option.splits)
  have "0 \<le> sint n" using parse_int64_digit[OF n(1) True assms(2)] .
  with n assms show ?thesis by (simp add: canon_len_def)
next
  case False
  with assms skip_length_len_scan[OF assms(1)] show ?thesis
    by (auto simp: buffer_node_def canon_len_def)
qed

lemma parse_canon_all:
  "(\<forall>s t r. parse_type f s = Inr (t, r) \<longrightarrow>
      canon t \<and> (prefix ''!'' r \<longrightarrow> \<not> is_prefix_ty t \<and> bang_ok t)) \<and>
   (\<forall>s t r. parse_prefix f s = Inr (t, r) \<longrightarrow>
      canon t \<and> is_prefix_ty t \<and> (prefix ''!'' r \<longrightarrow> bang_ok t)) \<and>
   (\<forall>s t r unsafe abi. abi = [] \<or> (abi = ''c'' \<and> \<not> unsafe) \<longrightarrow> parse_func f unsafe abi s = Inr (t, r) \<longrightarrow>
      canon t \<and> is_prefix_ty t \<and> (prefix ''!'' r \<longrightarrow> bang_ok t)) \<and>
   (\<forall>s ts r. parse_params f s = Inr (ts, r) \<longrightarrow> list_all canon ts) \<and>
   (\<forall>s t r. parse_buffer f s = Inr (t, r) \<longrightarrow>
      canon t \<and> is_prefix_ty t \<and> (prefix ''!'' r \<longrightarrow> bang_ok t)) \<and>
   (\<forall>s t r. parse_name f s = Inr (t, r) \<longrightarrow>
      canon t \<and> is_prefix_ty t \<and> (prefix ''!'' r \<longrightarrow> bang_ok t)) \<and>
   (\<forall>s ts r. parse_list f s = Inr (ts, r) \<longrightarrow> list_all canon ts)"
proof (induction f)
  case 0
  then show ?case by simp
next
  case (Suc f)
  note IH = Suc.IH
  from IH have ty: "\<And>s t r. parse_type f s = Inr (t, r) \<Longrightarrow>
      canon t \<and> (prefix ''!'' r \<longrightarrow> \<not> is_prefix_ty t \<and> bang_ok t)"
    by metis
  from IH have pre: "\<And>s t r. parse_prefix f s = Inr (t, r) \<Longrightarrow>
      canon t \<and> is_prefix_ty t \<and> (prefix ''!'' r \<longrightarrow> bang_ok t)"
    by metis
  from IH have fn: "\<And>s t r u a. a = [] \<or> (a = ''c'' \<and> \<not> u) \<Longrightarrow> parse_func f u a s = Inr (t, r) \<Longrightarrow>
      canon t \<and> is_prefix_ty t \<and> (prefix ''!'' r \<longrightarrow> bang_ok t)"
    by metis
  from IH have par: "\<And>s ts r. parse_params f s = Inr (ts, r) \<Longrightarrow> list_all canon ts"
    by metis
  from IH have buf: "\<And>s t r. parse_buffer f s = Inr (t, r) \<Longrightarrow>
      canon t \<and> is_prefix_ty t \<and> (prefix ''!'' r \<longrightarrow> bang_ok t)"
    by metis
  from IH have nam: "\<And>s t r. parse_name f s = Inr (t, r) \<Longrightarrow>
      canon t \<and> is_prefix_ty t \<and> (prefix ''!'' r \<longrightarrow> bang_ok t)"
    by metis
  from IH have lst: "\<And>s ts r. parse_list f s = Inr (ts, r) \<Longrightarrow> list_all canon ts"
    by metis
  have "canon t \<and> (prefix ''!'' r \<longrightarrow> \<not> is_prefix_ty t \<and> bang_ok t)"
    if "parse_type (Suc f) s = Inr (t, r)" for s t r
    using that by (auto dest!: bind_res_InrD pre split: if_splits)
  moreover have "canon t \<and> is_prefix_ty t \<and> (prefix ''!'' r \<longrightarrow> bang_ok t)"
    if "parse_prefix (Suc f) s = Inr (t, r)" for s t r
  proof -
    obtain op r0 where op: "opening_of s = (op, r0)" by (cases "opening_of s")
    have abi: "a = [] \<or> (a = ''c'' \<and> \<not> u)" if "op = OFunc u a" for u a
      using op that by (auto simp: opening_of_def split: if_splits)
    from that show ?thesis
      by (cases op) (auto simp: op dest!: bind_res_InrD pre buf nam fn[OF abi])
  qed
  moreover have "canon t \<and> is_prefix_ty t \<and> (prefix ''!'' r \<longrightarrow> bang_ok t)"
    if "a = [] \<or> (a = ''c'' \<and> \<not> u)" "parse_func (Suc f) u a s = Inr (t, r)" for s t r u a
    using that by (auto dest!: bind_res_InrD par ty)
  moreover have "list_all canon ts" if "parse_params (Suc f) s = Inr (ts, r)" for s ts r
    using that by (auto dest!: bind_res_InrD lst split: if_splits)
  moreover have "canon t \<and> is_prefix_ty t \<and> (prefix ''!'' r \<longrightarrow> bang_ok t)"
    if "parse_buffer (Suc f) s = Inr (t, r)" for s t r
    using that
    by (auto simp: buffer_open_def dest!: bind_res_InrD pre buffer_node_canon split: if_splits)
  moreover have "canon t \<and> is_prefix_ty t \<and> (prefix ''!'' r \<longrightarrow> bang_ok t)"
    if "parse_name (Suc f) s = Inr (t, r)" for s t r
    using that by (auto dest!: bind_res_InrD lst parse_path_segments split: if_splits)
  moreover have "list_all canon ts" if "parse_list (Suc f) s = Inr (ts, r)" for s ts r
    using that by (auto dest!: bind_res_InrD lst ty split: if_splits)
  ultimately show ?case by blast
qed

lemma typ_parse_canon: "typ_parse s = Inr t \<Longrightarrow> canon t"
  using parse_canon_all[of "typ_fuel s"]
  by (auto simp: typ_parse_def dest!: bind_res_InrD split: if_splits)


text \<open>
  C16: Parse reads back every spelling it can have produced. For the types it can
  return, printing and parsing again gives the same tree, so a type may travel
  through the compiler as text.
\<close>

lemma typ_parse_roundtrip:
  "typ_parse s = Inr t \<Longrightarrow> typ_parse (ty_string t) = Inr t"
  by (simp add: typ_parse_canon canon_typ_parse)

lemma typ_parse_roundtrip_witness:
  "typ_parse (ty_string (Func [Buffer 2 [] (Name [''i64''] []), Borrow (Name [''T''] []) True]
      (ErrorUnion None (Name [''x'', ''map''] [Name [''k''] [], Buffer 0 ''(N+1)'' (Name [''v''] [])])) False [])) =
    Inr (Func [Buffer 2 [] (Name [''i64''] []), Borrow (Name [''T''] []) True]
      (ErrorUnion None (Name [''x'', ''map''] [Name [''k''] [], Buffer 0 ''(N+1)'' (Name [''v''] [])])) False [])"
  using typ_parse_roundtrip[of "''fn([2]i64,&var T) -> !x::map<k, [(N+1)]v>''"] by code_simp

text \<open>A type is a value Parse can return exactly when it is canonical.\<close>

lemma typ_parse_image: "canon t \<longleftrightarrow> (\<exists>s. typ_parse s = Inr t)"
  using typ_parse_canon canon_typ_parse by blast



section \<open>What the spelling shows\<close>

lemma has_static_length_text_Cons [simp]:
  "c \<noteq> CHR ''['' \<Longrightarrow> has_static_length_text (c # s) = has_static_length_text s"
  by (cases s) auto

lemma has_static_length_text_skip:
  "CHR ''['' \<notin> set w \<Longrightarrow> has_static_length_text (w @ s) = has_static_length_text s"
  by (induction w) auto

lemma has_static_length_text_list:
  assumes "\<And>t rest. t \<in> set ts \<Longrightarrow>
      has_static_length_text (ty_string t @ rest) = (has_static_length t \<or> has_static_length_text rest)"
  shows "has_static_length_text (join '', '' (map ty_string ts) @ rest) =
    (list_ex has_static_length ts \<or> has_static_length_text rest)"
  using assms by (induction ts rule: induct_list012) auto

lemma segments_no_bracket:
  "list_all is_segment path \<Longrightarrow> c \<in> set (join ''::'' path) \<Longrightarrow> is_word c \<or> c = CHR '':''"
  by (induction "''::''" path rule: join.induct) (auto simp: is_segment_def list_all_iff)

lemma canon_len_text:
  assumes "canon_len n len"
  shows "has_static_length_text (CHR ''['' # len_text n len @ CHR '']'' # s) =
    (len \<noteq> [] \<or> has_static_length_text s)"
proof (cases "len = []")
  case True
  with assms have "len_text n len = format_nat (nat (sint n))"
    by (simp add: canon_len_def len_text_def format_int64_def format_int_def)
  moreover obtain d ds where "format_nat (nat (sint n)) = d # ds"
    by (cases "format_nat (nat (sint n))") auto
  ultimately have "len_text n len = d # ds" "\<And>c. c \<in> set (d # ds) \<Longrightarrow> is_digit c"
    using format_nat_set[of _ "nat (sint n)"] by auto
  moreover have "\<not> is_digit (CHR ''['')" by (simp add: byte_defs)
  ultimately show ?thesis using True has_static_length_text_skip[of "d # ds" "CHR '']'' # s"]
    by auto
next
  case False
  then obtain c r where "len = c # r" by (cases len) auto
  with assms show ?thesis by (auto simp: canon_len_def len_text_def byte_defs split: if_splits)
qed

lemma has_static_length_text_string:
  "canon t \<Longrightarrow>
    has_static_length_text (ty_string t @ rest) = (has_static_length t \<or> has_static_length_text rest)"
proof (induction t arbitrary: rest)
  case (Name path args)
  have "CHR ''['' \<notin> set (join ''::'' path)"
    using Name.prems segments_no_bracket[of path "CHR ''[''"] by (auto simp: byte_defs)
  moreover have "has_static_length_text (join '', '' (map ty_string args) @ r) =
      (list_ex has_static_length args \<or> has_static_length_text r)" for r
    by (rule has_static_length_text_list) (use Name in \<open>auto simp: list_all_iff\<close>)
  ultimately show ?case by (simp add: has_static_length_text_skip)
next
  case (Func ps res u abi)
  have "has_static_length_text (join '', '' (map ty_string ps) @ r) =
      (list_ex has_static_length ps \<or> has_static_length_text r)" for r
    by (rule has_static_length_text_list) (use Func in \<open>auto simp: list_all_iff\<close>)
  moreover have "has_static_length_text (func_head u abi @ r) = has_static_length_text r" for r
    using Func.prems by (intro has_static_length_text_skip) (auto simp: func_head_def)
  ultimately show ?case using Func by simp
next
  case (ErrorUnion err ok)
  then show ?case by (cases err) auto
qed (auto simp: canon_len_text)

text \<open>
  C34: the scan of HasStaticLengthText, which looks at the bytes after each opening
  bracket, answers on a printed type what HasStaticLength answers on its tree.
\<close>

lemma has_static_length_text_exact:
  "typ_parse s = Inr t \<Longrightarrow> has_static_length_text (ty_string t) = has_static_length t"
  using has_static_length_text_string[OF typ_parse_canon, of s t "[]"] by simp

lemma has_static_length_text_exact_witness:
  "has_static_length_text (ty_string (Slice (Buffer 0 ''N'' (Name [''T''] [])))) = True"
  using has_static_length_text_exact[of "''[][N]T''" "Slice (Buffer 0 ''N'' (Name [''T''] []))"]
  by code_simp

section \<open>Splitting a static argument list as text\<close>

text \<open>
  A type SplitArgs can carry: no function pointer inside, and lengths written without
  the bytes the splitter counts.
\<close>

definition split_free :: "char \<Rightarrow> bool" where
  "split_free c \<longleftrightarrow> c \<noteq> CHR ''<'' \<and> c \<noteq> CHR ''>'' \<and> c \<noteq> CHR '',''"

fun splittable :: "ty \<Rightarrow> bool" where
  "splittable (Name path args) = list_all splittable args"
| "splittable (Slice elem) = splittable elem"
| "splittable (Buffer n len elem) =
     (list_all split_free len \<and> splittable elem)"
| "splittable (Borrow elem mut) = splittable elem"
| "splittable (Optional elem) = splittable elem"
| "splittable (Const elem) = splittable elem"
| "splittable (Func params result unsafe abi) = False"
| "splittable (ErrorUnion None ok) = splittable ok"
| "splittable (ErrorUnion (Some err) ok) = (splittable err \<and> splittable ok)"

lemma split_args_loop_skip:
  "list_all split_free w \<Longrightarrow>
    split_args_loop d cur parts (w @ s) = split_args_loop d (rev w @ cur) parts s"
  by (induction w arbitrary: cur) (auto simp: split_free_def)

lemma split_args_loop_list:
  assumes "\<And>t d cur rest. t \<in> set ts \<Longrightarrow> 0 \<le> d \<Longrightarrow>
      split_args_loop d cur parts (ty_string t @ rest) = split_args_loop d (rev (ty_string t) @ cur) parts rest"
    and "0 < d"
  shows "split_args_loop d cur parts (join '', '' (map ty_string ts) @ rest) =
    split_args_loop d (rev (join '', '' (map ty_string ts)) @ cur) parts rest"
  using assms(1)
proof (induction ts arbitrary: cur rule: induct_list012)
  case (3 t u us)
  then have "split_args_loop d c parts (join '', '' (map ty_string (u # us)) @ rest) =
    split_args_loop d (rev (join '', '' (map ty_string (u # us))) @ c) parts rest" for c
    by simp
  with 3(3)[of t d] \<open>0 < d\<close> show ?case by simp
qed (use \<open>0 < d\<close> in auto)

lemma split_free_word: "is_word c \<or> c = CHR '':'' \<or> c = CHR ''-'' \<Longrightarrow> split_free c"
  by (auto simp: split_free_def byte_defs)

lemma split_free_path: "list_all is_segment path \<Longrightarrow> list_all split_free (join ''::'' path)"
  using segments_no_bracket[of path] by (auto simp: list_all_iff intro: split_free_word)

lemma len_text_split_free: "list_all split_free len \<Longrightarrow> list_all split_free (len_text n len)"
  using format_int_set[of _ "sint n"]
  by (auto simp: len_text_def format_int64_def list_all_iff intro: split_free_word is_digit_is_word)

lemma split_args_loop_string:
  "canon t \<Longrightarrow> splittable t \<Longrightarrow> 0 \<le> d \<Longrightarrow>
    split_args_loop d cur parts (ty_string t @ rest) = split_args_loop d (rev (ty_string t) @ cur) parts rest"
proof (induction t arbitrary: d cur rest)
  case (Name path args)
  have "list_all split_free (join ''::'' path)"
    using Name.prems by (intro split_free_path) simp
  then have path: "split_args_loop d cur parts (join ''::'' path @ s) =
      split_args_loop d (rev (join ''::'' path) @ cur) parts s" for s cur
    by (rule split_args_loop_skip)
  have args: "split_args_loop (d + 1) cur parts (join '', '' (map ty_string args) @ s) =
      split_args_loop (d + 1) (rev (join '', '' (map ty_string args)) @ cur) parts s" for s cur
    by (rule split_args_loop_list) (use Name in \<open>auto simp: list_all_iff\<close>)
  show ?case using \<open>0 \<le> d\<close> by (simp add: path args)
next
  case (Buffer n len elem)
  then have "list_all split_free (len_text n len)"
    by (intro len_text_split_free) simp
  from split_args_loop_skip[OF this] Buffer show ?case by (simp add: split_free_def)
next
  case (ErrorUnion err ok)
  then show ?case by (cases err) (auto simp: split_free_def)
qed (auto simp: split_free_def)


lemma canon_last: "canon t \<Longrightarrow> ty_string t \<noteq> [] \<and> \<not> is_space (last (ty_string t))"
proof (induction t)
  case (Name path args)
  show ?case
  proof (cases "args = []")
    case True
    obtain c r where "ty_string (Name path args) = c # r" by (rule canon_name_hd[OF Name.prems])
    then have "join ''::'' path \<noteq> []" using True by simp
    moreover from this have "is_word (last (join ''::'' path)) \<or> last (join ''::'' path) = CHR '':''"
      using Name.prems by (intro segments_no_bracket[of path]) auto
    ultimately show ?thesis using True by (auto simp: byte_defs)
  next
    case False
    then show ?thesis by (simp add: byte_defs)
  qed
next
  case (ErrorUnion err ok)
  then show ?case by (cases err) (auto simp: byte_defs)
qed (auto simp: byte_defs)

lemma trim_space_string: "canon t \<Longrightarrow> trim_space (ty_string t) = ty_string t"
  using canon_hd[of t] canon_last[of t] opens_type_not by (intro trim_space_id) auto

lemma trim_space_lead: "is_space c \<Longrightarrow> trim_space (c # s) = trim_space s"
  by (simp add: trim_space_def)

lemma split_args_loop_join:
  assumes "ts \<noteq> []" and "list_all canon ts" and "list_all splittable ts"
    and "\<And>u. trim_space (rev cur @ u) = trim_space u"
  shows "split_args_loop 0 cur parts (join '', '' (map ty_string ts)) = Inr (parts @ map ty_string ts)"
  using assms
proof (induction ts arbitrary: cur parts rule: induct_list012)
  case (2 t)
  then show ?case
    using split_args_loop_string[of t 0 cur parts "[]"] trim_space_string[of t] by simp
next
  case (3 t u us)
  have "split_args_loop 0 [] ps ('' '' @ join '', '' (map ty_string (u # us))) =
      Inr (ps @ map ty_string (u # us))" for ps
    using "3.IH"(2)[of "'' ''" ps] 3 by (simp add: trim_space_lead byte_defs)
  then show ?case
    using split_args_loop_string[of t 0 cur parts] 3 trim_space_string[of t] by simp
qed simp

lemma split_args_join:
  assumes "ts \<noteq> []" and "list_all canon ts" and "list_all splittable ts"
  shows "split_args (join '', '' (map ty_string ts)) = Inr (map ty_string ts)"
proof -
  have "[] \<notin> set (map ty_string ts)"
    using assms(2) canon_last by (fastforce simp: list_all_iff)
  with split_args_loop_join[OF assms, of "[]" "[]"] show ?thesis by (simp add: split_args_def)
qed

lemma split_apply_string:
  assumes "canon (Name path args)" and "args \<noteq> []"
  shows "split_apply (ty_string (Name path args)) = Some (join ''::'' path, join '', '' (map ty_string args))"
proof -
  have free: "c \<in> set (join ''::'' path) \<Longrightarrow> c \<noteq> CHR ''<''" for c
    using assms segments_no_bracket[of path c] by (auto simp: byte_defs)
  obtain c r where "ty_string (Name path []) = c # r"
    by (rule canon_name_hd[of path "[]"]) (use assms in auto)
  then have "join ''::'' path \<noteq> []" by auto
  moreover have "takeWhile (\<lambda>c. c \<noteq> CHR ''<'') (ty_string (Name path args)) = join ''::'' path"
    using assms(2) free by (auto simp: takeWhile_append)
  moreover obtain d q where "join '', '' (map ty_string args) = d # q"
    using canon_list_hd[of args] assms by auto
  moreover have "suffix ''>'' (join ''::'' path @ ''<'' @ join '', '' (map ty_string args) @ ''>'')"
    by (simp add: suffix_def)
  ultimately show ?thesis using assms(2) by (simp add: split_apply_def Let_def)
qed

text \<open>
  On the spelling of a generic type without function pointers, the two text
  splitters agree with the tree: SplitApply finds the base name and SplitArgs the
  spellings of the arguments, in order.
\<close>

lemma split_generic:
  assumes "typ_parse s = Inr (Name path args)" and "args \<noteq> []" and "list_all splittable args"
  shows "\<exists>list. split_apply (ty_string (Name path args)) = Some (join ''::'' path, list) \<and>
    split_args list = Inr (map ty_string args)"
proof -
  have "canon (Name path args)" using assms(1) by (rule typ_parse_canon)
  with split_apply_string[OF this assms(2)] split_args_join[of args] assms(2,3)
  show ?thesis by simp
qed

lemma split_generic_witness:
  "\<exists>list. split_apply ''map<[]u8, vec<i64, 4>>'' = Some (''map'', list) \<and>
    split_args list = Inr [''[]u8'', ''vec<i64, 4>'']"
proof -
  let ?args = "[Slice (Name [''u8''] []), Name [''vec''] [Name [''i64''] [], Name [''4''] []]]"
  have "typ_parse ''map<[]u8,vec<i64, 4>>'' = Inr (Name [''map''] ?args)" by code_simp
  from split_generic[OF this] show ?thesis by simp
qed

text \<open>
  A pointer to a function without parameters cannot stand in an argument list that is split as
  text: the arrow of its spelling counts as a closing bracket, so SplitArgs refuses the text
  although it is the spelling of a type Parse returns.
\<close>

lemma split_args_refuses_func:
  "canon r \<Longrightarrow> split_args (ty_string (Func [] r u [])) = Inl UnbalancedClose \<and>
    typ_parse (ty_string (Func [] r u [])) = Inr (Func [] r u [])"
  using canon_typ_parse[of "Func [] r u []"] by (auto simp: split_args_def func_head_def)

lemma split_args_refuses_func_witness:
  "split_args ''fn() -> i64'' = Inl UnbalancedClose"
  using split_args_refuses_func[of "Name [''i64''] []" False]
  by (simp add: is_segment_def byte_defs func_head_def)

section \<open>The table\<close>

text \<open>Every tree of a table is the one Parse makes of the spelling it is filed under.\<close>

definition table_ok :: "ty_table \<Rightarrow> bool" where
  "table_ok tab \<longleftrightarrow> (\<forall>s t. tab s = Some t \<longrightarrow> ty_string t = s \<and> canon t)"

lemma canon_string_inj: "canon t \<Longrightarrow> canon u \<Longrightarrow> ty_string t = ty_string u \<Longrightarrow> t = u"
  by (metis canon_typ_parse sum.inject(2))

lemma table_remember_ok:
  "table_ok tab \<Longrightarrow> canon t \<Longrightarrow> table_remember tab t = (u, tab') \<Longrightarrow> u = t \<and> table_ok tab' \<and> tab \<subseteq>\<^sub>m tab'"
  by (auto simp: table_ok_def table_remember_def map_le_def canon_string_inj
      split: option.splits if_splits)

lemma table_parse_ok:
  assumes "table_ok tab" and "table_parse tab s = (r, tab')"
  shows "r = typ_parse s \<and> table_ok tab' \<and> tab \<subseteq>\<^sub>m tab'"
proof (cases "tab s")
  case (Some t)
  with assms have "ty_string t = s" "canon t" by (auto simp: table_ok_def)
  with canon_typ_parse[of t] Some assms show ?thesis by (auto simp: table_parse_def)
next
  case None
  show ?thesis
  proof (cases "typ_parse s")
    case (Inl e)
    with assms None show ?thesis by (auto simp: table_parse_def)
  next
    case (Inr t)
    obtain u tab1 where "table_remember tab t = (u, tab1)" by (cases "table_remember tab t")
    with table_remember_ok[OF assms(1) typ_parse_canon[OF Inr] this] assms(2) None Inr
    show ?thesis by (auto simp: table_parse_def)
  qed
qed

text \<open>A phase of the compiler: texts looked up one after another in one table.\<close>

primrec table_parses :: "ty_table \<Rightarrow> string list \<Rightarrow> (ty_error + ty) list \<times> ty_table" where
  "table_parses tab [] = ([], tab)"
| "table_parses tab (s # ss) =
     (let (r, tab1) = table_parse tab s; (rs, tab2) = table_parses tab1 ss in (r # rs, tab2))"

lemma table_parses_ok:
  "table_ok tab \<Longrightarrow> fst (table_parses tab ss) = map typ_parse ss \<and>
    table_ok (snd (table_parses tab ss)) \<and> tab \<subseteq>\<^sub>m snd (table_parses tab ss)"
proof (induction ss arbitrary: tab)
  case (Cons s ss)
  obtain r tab1 where p: "table_parse tab s = (r, tab1)" by (cases "table_parse tab s")
  have ok: "r = typ_parse s" "table_ok tab1" "tab \<subseteq>\<^sub>m tab1" using table_parse_ok[OF Cons.prems p] by auto
  show ?case using Cons.IH[OF ok(2)] ok map_le_trans[OF ok(3)]
    by (auto simp: p split: prod.split)
qed simp

text \<open>
  C33: a table only saves work. Whatever texts were looked up before, each lookup answers
  what Parse answers on its text, error or tree, and every tree kept is filed under the
  spelling it prints.
\<close>

lemma table_parse_transparent:
  "fst (table_parses Map.empty ss) = map typ_parse ss \<and> table_ok (snd (table_parses Map.empty ss))"
  using table_parses_ok[of Map.empty ss] by (simp add: table_ok_def)


end
