(* ===== verification/Ir.thy ===== *)
theory Ir
  imports Prelude
begin

text \<open>
  The data of a lowered program (internal/ir/ir.go): modules, functions, basic blocks
  and SSA instructions, with what every pass reads off them: the successors of a
  terminator, the positions and predecessors of blocks, the values an instruction reads,
  and the libraries a module links. Blocks and instructions are pointers in the code; no
  pass shares one between two places, so they are values here and a pass returns the
  function it has rewritten. A syntax node kept only for its identity
  (Cleanup.Receiver) is a number.
\<close>

section \<open>Data\<close>

record extern_decl =
  ex_abi :: string
  ex_library :: string
  ex_framework :: string

record field =
  fd_name :: name
  fd_type :: string

record struct_decl =
  sd_name :: name
  sd_fields :: "field list"

record enum_decl =
  en_name :: name
  en_tags :: "name \<rightharpoonup> int"
  en_origins :: "name list"

record union_variant =
  uv_name :: name
  uv_index :: int
  uv_payload :: string

record union_decl =
  un_name :: name
  un_variants :: "name \<rightharpoonup> union_variant"

datatype passing = PassValue | PassCallerStorage | PassCopyAddress

record param =
  p_name :: name
  p_type :: string
  p_passing :: passing

record ir_value =
  v_name :: name
  v_type :: string

record position =
  pos_line :: nat
  pos_column :: nat

record span =
  sp_source :: nat
  sp_start :: position
  sp_end :: position

record cleanup =
  cl_op :: string
  cl_args :: "ir_value list"
  cl_loads :: "bool list"
  cl_extern_abi :: string
  cl_extern_name :: string
  cl_call_params :: "param list"
  cl_variadic_fixed :: nat
  cl_on_error :: bool
  cl_receiver :: nat

record field_arg =
  fa_name :: name
  fa_value :: ir_value

record incoming =
  in_block :: name
  in_value :: ir_value

record instr =
  i_result :: ir_value
  i_op :: string
  i_args :: "ir_value list"
  i_extern_abi :: string
  i_extern_name :: string
  i_call_params :: "param list"
  i_variadic_fixed :: nat
  i_immediate :: string
  i_fields :: "field_arg list"
  i_incoming :: "incoming list"
  i_cleanups :: "cleanup list"
  i_span :: span

record terminator =
  t_op :: string
  t_value :: ir_value
  t_cond :: ir_value
  t_target :: name
  t_else :: name

record block =
  b_name :: name
  b_instrs :: "instr list"
  b_term :: terminator

record func =
  f_name :: name
  f_params :: "param list"
  f_return :: string
  f_blocks :: "block list"
  f_export_abi :: string
  f_export_name :: string

text \<open>
  A module's functions are a list; its declarations are maps by name. The error sets, which a
  pass walks and deletes from, are an association list.
\<close>

record module =
  m_structs :: "name \<rightharpoonup> struct_decl"
  m_enums :: "name \<rightharpoonup> enum_decl"
  m_error_sets :: "(name \<times> enum_decl) list"
  m_unions :: "name \<rightharpoonup> union_decl"
  m_functions :: "func list"
  m_externs :: "name \<rightharpoonup> extern_decl"

text \<open>Go's zero values, which a composite literal leaves in the fields it does not set.\<close>

definition no_value :: ir_value where
  "no_value = \<lparr>v_name = [], v_type = []\<rparr>"

definition no_span :: span where
  "no_span = \<lparr>sp_source = 0, sp_start = \<lparr>pos_line = 0, pos_column = 0\<rparr>,
     sp_end = \<lparr>pos_line = 0, pos_column = 0\<rparr>\<rparr>"

definition new_instr :: "ir_value \<Rightarrow> string \<Rightarrow> instr" where
  "new_instr result op =
     \<lparr>i_result = result, i_op = op, i_args = [], i_extern_abi = [], i_extern_name = [],
      i_call_params = [], i_variadic_fixed = 0, i_immediate = [], i_fields = [],
      i_incoming = [], i_cleanups = [], i_span = no_span\<rparr>"

definition new_term :: "string \<Rightarrow> terminator" where
  "new_term op = \<lparr>t_op = op, t_value = no_value, t_cond = no_value, t_target = [], t_else = []\<rparr>"

definition param_value :: "param \<Rightarrow> ir_value" where
  "param_value p = \<lparr>v_name = p_name p, v_type = p_type p\<rparr>"

definition deref_type :: "string \<Rightarrow> string" where
  "deref_type x =
     (if prefix ''&var '' x then trim_prefix x ''&var ''
      else if prefix ''&'' x then trim_prefix x ''&'' else x)"

definition takes_address_of :: "param \<Rightarrow> string \<Rightarrow> bool" where
  "takes_address_of p arg \<longleftrightarrow>
     p_passing p = PassCopyAddress \<and> p_type p \<noteq> arg \<and> deref_type (p_type p) = arg"

definition value_string :: "ir_value \<Rightarrow> string" where
  "value_string v = (if v_type v = [] then v_name v else v_name v @ '': '' @ v_type v)"

section \<open>Edges and positions\<close>

definition successors :: "terminator \<Rightarrow> name list" where
  "successors t = filter (\<lambda>target. target \<noteq> []) [t_target t, t_else t]"

text \<open>
  The map from block names to positions that each pass builds: a later block of the same
  name takes the earlier one's place, as in a Go map.
\<close>

definition positions :: "block list \<Rightarrow> name \<rightharpoonup> nat" where
  "positions bs = map_of (rev (zip (map b_name bs) [0..<length bs]))"

definition block_predecessors :: "func \<Rightarrow> nat list list" where
  "block_predecessors fn =
     map (\<lambda>to. concat (map (\<lambda>from.
         map (\<lambda>_. from)
           (filter (\<lambda>target. positions (f_blocks fn) target = Some to)
             (successors (b_term (f_blocks fn ! from)))))
       [0..<length (f_blocks fn)]))
     [0..<length (f_blocks fn)]"

section \<open>What an instruction reads\<close>

definition instr_reads :: "instr \<Rightarrow> ir_value list" where
  "instr_reads i =
     i_args i @ map in_value (i_incoming i) @ map fa_value (i_fields i) @
     concat (map cl_args (i_cleanups i))"

definition term_reads :: "terminator \<Rightarrow> ir_value list" where
  "term_reads t = [t_value t, t_cond t]"

definition used_values :: "func \<Rightarrow> name list" where
  "used_values fn =
     concat (map (\<lambda>b. concat (map (\<lambda>i. map v_name (instr_reads i)) (b_instrs b)) @
       map v_name (term_reads (b_term b))) (f_blocks fn))"

text \<open>Rewriting every value an instruction or a terminator reads.\<close>

definition map_incoming :: "(ir_value \<Rightarrow> ir_value) \<Rightarrow> incoming \<Rightarrow> incoming" where
  "map_incoming f inc = inc\<lparr>in_value := f (in_value inc)\<rparr>"

definition map_field_arg :: "(ir_value \<Rightarrow> ir_value) \<Rightarrow> field_arg \<Rightarrow> field_arg" where
  "map_field_arg f fa = fa\<lparr>fa_value := f (fa_value fa)\<rparr>"

definition map_cleanup :: "(ir_value \<Rightarrow> ir_value) \<Rightarrow> cleanup \<Rightarrow> cleanup" where
  "map_cleanup f cl = cl\<lparr>cl_args := map f (cl_args cl)\<rparr>"

definition map_reads :: "(ir_value \<Rightarrow> ir_value) \<Rightarrow> instr \<Rightarrow> instr" where
  "map_reads f i = i\<lparr>i_args := map f (i_args i),
     i_incoming := map (map_incoming f) (i_incoming i),
     i_fields := map (map_field_arg f) (i_fields i),
     i_cleanups := map (map_cleanup f) (i_cleanups i)\<rparr>"

definition map_term_reads :: "(ir_value \<Rightarrow> ir_value) \<Rightarrow> terminator \<Rightarrow> terminator" where
  "map_term_reads f t = t\<lparr>t_value := f (t_value t), t_cond := f (t_cond t)\<rparr>"

text \<open>The results of a function's instructions, in program order.\<close>

definition block_results :: "block \<Rightarrow> name list" where
  "block_results b = map (\<lambda>i. v_name (i_result i)) (b_instrs b)"

definition all_instrs :: "func \<Rightarrow> instr list" where
  "all_instrs fn = concat (map b_instrs (f_blocks fn))"

definition map_functions :: "(func \<Rightarrow> func) \<Rightarrow> module \<Rightarrow> module" where
  "map_functions f m = m\<lparr>m_functions := map f (m_functions m)\<rparr>"

section \<open>Linked libraries\<close>

text \<open>
  LinkInputs visits the foreign calls in program order and collects each library and
  framework once; the two lists are then sorted.
\<close>

definition extern_names :: "module \<Rightarrow> name list" where
  "extern_names m =
     concat (map (\<lambda>fn. concat (map (\<lambda>i.
         (if i_extern_name i \<noteq> [] then [i_extern_name i] else []) @
         filter (\<lambda>x. x \<noteq> []) (map cl_extern_name (i_cleanups i)))
       (all_instrs fn))) (m_functions m))"

definition add_once :: "string \<Rightarrow> string list \<Rightarrow> string list" where
  "add_once x xs = (if x \<noteq> [] \<and> x \<notin> set xs then xs @ [x] else xs)"

definition link_visit :: "module \<Rightarrow> name \<Rightarrow> string list \<times> string list \<Rightarrow> string list \<times> string list" where
  "link_visit m x acc =
     (case m_externs m x of
        None \<Rightarrow> acc
      | Some e \<Rightarrow> (add_once (ex_library e) (fst acc), add_once (ex_framework e) (snd acc)))"

definition string_le :: "string \<Rightarrow> string \<Rightarrow> bool" where
  "string_le x y \<longleftrightarrow> x = y \<or> (x, y) \<in> lexord {(a, b). byte a < byte b}"

primrec insert_string :: "string \<Rightarrow> string list \<Rightarrow> string list" where
  "insert_string x [] = [x]"
| "insert_string x (y # ys) = (if string_le x y then x # y # ys else y # insert_string x ys)"

definition sort_strings :: "string list \<Rightarrow> string list" where
  "sort_strings xs = foldr insert_string xs []"

definition link_inputs :: "module \<Rightarrow> string list \<times> string list" where
  "link_inputs m =
     (let (libs, frames) = fold (link_visit m) (extern_names m) ([], [])
      in (sort_strings libs, sort_strings frames))"

section \<open>Lemmas\<close>

lemma positions_Some:
  assumes "positions bs x = Some p"
  shows "p < length bs \<and> b_name (bs ! p) = x"
proof -
  have "(x, p) \<in> set (zip (map b_name bs) [0..<length bs])"
    using map_of_SomeD[OF assms[unfolded positions_def]] by simp
  then show ?thesis by (auto simp: in_set_zip)
qed

lemma positions_dom: "x \<in> dom (positions bs) \<longleftrightarrow> x \<in> b_name ` set bs"
proof -
  have "map fst (zip (map b_name bs) [0..<length bs]) = map b_name bs" by simp
  then have "fst ` set (zip (map b_name bs) [0..<length bs]) = b_name ` set bs"
    by (metis list.set_map)
  then show ?thesis by (simp only: positions_def dom_map_of_conv_image_fst set_rev)
qed

lemma positions_distinct:
  assumes "distinct (map b_name bs)" and "p < length bs"
  shows "positions bs (b_name (bs ! p)) = Some p"
proof -
  from assms(2) have "b_name (bs ! p) \<in> dom (positions bs)" by (simp add: positions_dom)
  then obtain q where q: "positions bs (b_name (bs ! p)) = Some q" by blast
  from positions_Some[OF q] assms(2)
  have "map b_name bs ! q = map b_name bs ! p" and len: "q < length bs" by simp_all
  with nth_eq_iff_index_eq[OF assms(1), of q p] assms(2) have "q = p" by simp
  with q show ?thesis by simp
qed

section \<open>Sorted, once each, and exactly what the calls need\<close>

lemma string_le_refl [simp]: "string_le x x"
  by (simp add: string_le_def)

lemma trans_bytes: "trans {(a, b). byte a < byte b}"
  by (auto simp: trans_def)

lemma byte_inj: "byte a = byte b \<Longrightarrow> a = b"
  by simp

lemma string_le_linear: "string_le x y \<or> string_le y x"
proof -
  have "\<forall>a b. (a, b) \<in> {(a, b). byte a < byte b} \<or> a = b \<or> (b, a) \<in> {(a, b). byte a < byte b}"
    using byte_inj by (auto simp: not_less_iff_gr_or_eq)
  from lexord_linear[OF this, of x y] show ?thesis by (auto simp: string_le_def)
qed

lemma string_le_trans: "string_le x y \<Longrightarrow> string_le y z \<Longrightarrow> string_le x z"
  using lexord_transI[OF trans_bytes] by (auto simp: string_le_def dest: transD)

lemma insert_string_set [simp]: "set (insert_string x ys) = insert x (set ys)"
  by (induction ys) auto

lemma insert_string_sorted: "sorted_wrt string_le ys \<Longrightarrow> sorted_wrt string_le (insert_string x ys)"
proof (induction ys)
  case (Cons y ys)
  then show ?case
    using string_le_linear[of x y] by (auto intro: string_le_trans)
qed simp

lemma insert_string_distinct: "distinct (insert_string x ys) \<longleftrightarrow> x \<notin> set ys \<and> distinct ys"
  by (induction ys) auto

lemma sort_strings_set [simp]: "set (sort_strings xs) = set xs"
  by (induction xs) (auto simp: sort_strings_def)

lemma sort_strings_sorted: "sorted_wrt string_le (sort_strings xs)"
  by (induction xs) (auto simp: sort_strings_def insert_string_sorted)

lemma sort_strings_distinct: "distinct xs \<Longrightarrow> distinct (sort_strings xs)"
proof (induction xs)
  case (Cons x xs)
  have "set (foldr insert_string xs []) = set xs"
    using sort_strings_set[of xs] by (simp add: sort_strings_def)
  with Cons show ?case by (simp add: sort_strings_def insert_string_distinct)
qed (simp add: sort_strings_def)

definition needed_by :: "(extern_decl \<Rightarrow> string) \<Rightarrow> module \<Rightarrow> string set" where
  "needed_by part m =
     {x. x \<noteq> [] \<and> (\<exists>s\<in>set (extern_names m). \<exists>e. m_externs m s = Some e \<and> part e = x)}"

lemma link_visit_fold:
  "distinct a \<Longrightarrow> distinct b \<Longrightarrow>
   (case fold (link_visit m) xs (a, b) of (libs, frames) \<Rightarrow>
      distinct libs \<and> distinct frames \<and>
      set libs = set a \<union> {x. x \<noteq> [] \<and> (\<exists>s\<in>set xs. \<exists>e. m_externs m s = Some e \<and> ex_library e = x)} \<and>
      set frames = set b \<union> {x. x \<noteq> [] \<and> (\<exists>s\<in>set xs. \<exists>e. m_externs m s = Some e \<and> ex_framework e = x)})"
proof (induction xs arbitrary: a b)
  case (Cons x xs)
  obtain a' b' where v: "link_visit m x (a, b) = (a', b')" by (cases "link_visit m x (a, b)")
  then have ab: "distinct a'" "distinct b'"
      "set a' = set a \<union> {y. y \<noteq> [] \<and> (\<exists>e. m_externs m x = Some e \<and> ex_library e = y)}"
      "set b' = set b \<union> {y. y \<noteq> [] \<and> (\<exists>e. m_externs m x = Some e \<and> ex_framework e = y)}"
    using Cons.prems by (auto simp: link_visit_def add_once_def split: option.splits if_splits)
  show ?case using Cons.IH[OF ab(1,2)] by (auto simp: v ab(3,4) split: prod.splits)
qed simp

text \<open>
  the link inputs of a module are exactly the libraries and frameworks declared for
  the foreign symbols its calls and cleanups still name, each once, in byte order.
\<close>

lemma link_inputs_exact:
  "set (fst (link_inputs m)) = needed_by ex_library m \<and>
   set (snd (link_inputs m)) = needed_by ex_framework m \<and>
   distinct (fst (link_inputs m)) \<and> distinct (snd (link_inputs m)) \<and>
   sorted_wrt string_le (fst (link_inputs m)) \<and> sorted_wrt string_le (snd (link_inputs m))"
  using link_visit_fold[where a = "[]" and b = "[]" and m = m and xs = "extern_names m"]
  by (auto simp: link_inputs_def needed_by_def sort_strings_sorted sort_strings_distinct
      split: prod.splits)

end
