(* ===== verification/Ir_Sem.thy ===== *)
theory Ir_Sem
  imports Ir
begin

text \<open>
  What a function of the IR computes. The passes of internal/ir promise to leave this
  alone, so it is the specification they are proved against. Constants, copies and the
  integer operations the optimizer evaluates have the meaning SPEC gives them; every
  other instruction (calls, memory, runtime checks, \<^verbatim>\<open>error.try\<close>) is what the
  parameter \<open>machine\<close> says. Such an instruction sees its own fixed parts, the values of
  its operands and the memory; it yields a result or leaves the function, as a failing
  \<^verbatim>\<open>error.try\<close> or a trap does.

  Phis read the environment the block was entered with, so the phis of one block act at
  once. Reading a name that has no value, or an operation the machine does not
  define, is stuck.
\<close>

section \<open>Values, operands and operations\<close>

datatype 'v val = IntV i64 | BoolV bool | OtherV 'v

type_synonym 'v env = "name \<rightharpoonup> 'v val"

datatype ('v, 's) outcome = Yield "'v val" 's | Leave "'v val" 's

record ('v, 's) machine =
  mc_op :: "instr \<Rightarrow> 'v val list \<Rightarrow> 's \<Rightarrow> ('v, 's) outcome option"
  mc_lit :: "ir_value \<Rightarrow> 'v val option"

text \<open>The fixed parts of an instruction: everything but the names it reads and writes.\<close>

definition anonymous :: "ir_value \<Rightarrow> ir_value" where
  "anonymous v = v\<lparr>v_name := []\<rparr>"

definition shape :: "instr \<Rightarrow> instr" where
  "shape i = map_reads anonymous (i\<lparr>i_result := anonymous (i_result i), i_incoming := []\<rparr>)"

definition operand :: "('v, 's) machine \<Rightarrow> 'v env \<Rightarrow> ir_value \<Rightarrow> 'v val option" where
  "operand m env v =
     (case env (v_name v) of
        Some x \<Rightarrow> Some x
      | None \<Rightarrow>
          if v_type v = ''i64'' then map_option IntV (parse_int64 (v_name v)) else mc_lit m v)"

primrec operands :: "('v, 's) machine \<Rightarrow> 'v env \<Rightarrow> ir_value list \<Rightarrow> 'v val list option" where
  "operands m env [] = Some []"
| "operands m env (v # vs) =
     (case operand m env v of
        None \<Rightarrow> None
      | Some x \<Rightarrow> map_option (\<lambda>xs. x # xs) (operands m env vs))"

text \<open>The i64 operations the optimizer evaluates: wrapping sums, bits, signed order.\<close>

definition int_op :: "string \<Rightarrow> string \<Rightarrow> i64 \<Rightarrow> i64 \<Rightarrow> 'v val option" where
  "int_op ty op l r =
     (if ty = ''i64'' then
        (if op = ''binary.+'' then Some (IntV (word_of_int (sint l + sint r)))
         else if op = ''binary.-'' then Some (IntV (word_of_int (sint l - sint r)))
         else if op = ''binary.*'' then Some (IntV (word_of_int (sint l * sint r)))
         else if op = ''binary.&'' then Some (IntV (and l r))
         else if op = ''binary.|'' then Some (IntV (or l r))
         else if op = ''binary.^'' then Some (IntV (xor l r))
         else None)
      else if ty = ''bool'' then
        (if op = ''binary.<'' then Some (BoolV (sint l < sint r))
         else if op = ''binary.<='' then Some (BoolV (sint l \<le> sint r))
         else if op = ''binary.>'' then Some (BoolV (sint l > sint r))
         else if op = ''binary.>='' then Some (BoolV (sint l \<ge> sint r))
         else if op = ''binary.=='' then Some (BoolV (l = r))
         else if op = ''binary.!='' then Some (BoolV (l \<noteq> r))
         else None)
      else None)"

text \<open>What a constant instruction stands for, when it is an i64 or a bool.\<close>

definition const_value :: "instr \<Rightarrow> 'v val option" where
  "const_value i =
     (if v_type (i_result i) = ''i64'' then map_option IntV (parse_int64 (i_immediate i))
      else if v_type (i_result i) = ''bool'' then Some (BoolV (i_immediate i = ''true''))
      else None)"

text \<open>The value of an instruction whose meaning is fixed here, from its arguments.\<close>

definition fixed_value :: "instr \<Rightarrow> 'v val list \<Rightarrow> 'v val option" where
  "fixed_value i vals =
     (if i_op i = ''const'' then const_value i
      else if i_op i = ''id'' then (case vals of [x] \<Rightarrow> Some x | _ \<Rightarrow> None)
      else (case vals of
              [IntV l, IntV r] \<Rightarrow>
                if list_all (\<lambda>a. v_type a = ''i64'') (i_args i)
                then int_op (v_type (i_result i)) (i_op i) l r else None
            | _ \<Rightarrow> None))"

section \<open>Steps\<close>

record ('v, 's) state =
  st_block :: nat
  st_step :: nat
  st_from :: name
  st_entry :: "'v env"
  st_env :: "'v env"
  st_mem :: 's

datatype ('v, 's) progress = Go "('v, 's) state" | Done "'v val" 's | Stuck

definition phi_value :: "('v, 's) machine \<Rightarrow> ('v, 's) state \<Rightarrow> instr \<Rightarrow> 'v val option" where
  "phi_value m \<sigma> i =
     (case find (\<lambda>inc. in_block inc = st_from \<sigma>) (i_incoming i) of
        None \<Rightarrow> None
      | Some inc \<Rightarrow> operand m (st_entry \<sigma>) (in_value inc))"

text \<open>The values an instruction other than a phi reads where it stands.\<close>

definition direct_reads :: "instr \<Rightarrow> ir_value list" where
  "direct_reads i = i_args i @ map fa_value (i_fields i) @ concat (map cl_args (i_cleanups i))"

definition exec :: "('v, 's) machine \<Rightarrow> ('v, 's) state \<Rightarrow> instr \<Rightarrow> ('v, 's) outcome option" where
  "exec m \<sigma> i =
     (if i_op i = ''phi'' then map_option (\<lambda>x. Yield x (st_mem \<sigma>)) (phi_value m \<sigma> i)
      else (case operands m (st_env \<sigma>) (direct_reads i) of
              None \<Rightarrow> None
            | Some vals \<Rightarrow>
                (case fixed_value i (take (length (i_args i)) vals) of
                   Some x \<Rightarrow> Some (Yield x (st_mem \<sigma>))
                 | None \<Rightarrow> mc_op m (shape i) vals (st_mem \<sigma>))))"

definition bind_result :: "instr \<Rightarrow> 'v val \<Rightarrow> 'v env \<Rightarrow> 'v env" where
  "bind_result i x env =
     (if v_name (i_result i) = [] then env else env(v_name (i_result i) \<mapsto> x))"

definition goto :: "func \<Rightarrow> ('v, 's) state \<Rightarrow> name \<Rightarrow> ('v, 's) progress" where
  "goto fn \<sigma> target =
     (case positions (f_blocks fn) target of
        None \<Rightarrow> Stuck
      | Some p \<Rightarrow> Go (\<sigma>\<lparr>st_block := p, st_step := 0,
          st_from := b_name (f_blocks fn ! st_block \<sigma>), st_entry := st_env \<sigma>\<rparr>))"

definition end_block :: "('v, 's) machine \<Rightarrow> func \<Rightarrow> ('v, 's) state \<Rightarrow> terminator \<Rightarrow> ('v, 's) progress" where
  "end_block m fn \<sigma> t =
     (if t_op t = ''jump'' then goto fn \<sigma> (t_target t)
      else if t_op t = ''branch'' then
        (case operand m (st_env \<sigma>) (t_cond t) of
           Some (BoolV c) \<Rightarrow> goto fn \<sigma> (if c then t_target t else t_else t)
         | _ \<Rightarrow> Stuck)
      else if t_op t = ''return'' then
        (case operand m (st_env \<sigma>) (t_value t) of
           Some x \<Rightarrow> Done x (st_mem \<sigma>)
         | None \<Rightarrow> Stuck)
      else Stuck)"

definition after :: "('v, 's) state \<Rightarrow> instr \<Rightarrow> ('v, 's) outcome option \<Rightarrow> ('v, 's) progress" where
  "after \<sigma> i out =
     (case out of
        None \<Rightarrow> Stuck
      | Some (Leave x s) \<Rightarrow> Done x s
      | Some (Yield x s) \<Rightarrow> Go (\<sigma>\<lparr>st_step := Suc (st_step \<sigma>),
          st_env := bind_result i x (st_env \<sigma>), st_mem := s\<rparr>))"

definition step :: "('v, 's) machine \<Rightarrow> func \<Rightarrow> ('v, 's) state \<Rightarrow> ('v, 's) progress" where
  "step m fn \<sigma> =
     (if st_block \<sigma> < length (f_blocks fn) then
        let b = f_blocks fn ! st_block \<sigma> in
        if st_step \<sigma> < length (b_instrs b)
        then after \<sigma> (b_instrs b ! st_step \<sigma>) (exec m \<sigma> (b_instrs b ! st_step \<sigma>))
        else end_block m fn \<sigma> (b_term b)
      else Stuck)"

text \<open>Running at most so many steps: the value returned and the memory left, if any.\<close>

primrec run :: "('v, 's) machine \<Rightarrow> func \<Rightarrow> nat \<Rightarrow> ('v, 's) state \<Rightarrow> ('v val \<times> 's) option" where
  "run m fn 0 \<sigma> = None"
| "run m fn (Suc n) \<sigma> =
     (case step m fn \<sigma> of
        Go \<tau> \<Rightarrow> run m fn n \<tau>
      | Done x s \<Rightarrow> Some (x, s)
      | Stuck \<Rightarrow> None)"

definition start :: "'v env \<Rightarrow> 's \<Rightarrow> ('v, 's) state" where
  "start args s = \<lparr>st_block = 0, st_step = 0, st_from = [], st_entry = args, st_env = args, st_mem = s\<rparr>"

text \<open>Calling a function: its parameters bound to values, run for some number of steps.\<close>

definition call_env :: "func \<Rightarrow> 'v val list \<Rightarrow> 'v env" where
  "call_env fn vals = map_of (zip (map p_name (f_params fn)) vals)"

definition call_for :: "nat \<Rightarrow> ('v, 's) machine \<Rightarrow> func \<Rightarrow> 'v val list \<Rightarrow> 's \<Rightarrow> ('v val \<times> 's) option" where
  "call_for n m fn vals s = run m fn n (start (call_env fn vals) s)"

inductive reach :: "('v, 's) machine \<Rightarrow> func \<Rightarrow> ('v, 's) state \<Rightarrow> ('v, 's) state \<Rightarrow> bool"
  for m fn \<sigma>0 where
  here: "reach m fn \<sigma>0 \<sigma>0"
| further: "reach m fn \<sigma>0 \<sigma> \<Longrightarrow> step m fn \<sigma> = Go \<tau> \<Longrightarrow> reach m fn \<sigma>0 \<tau>"

inductive_cases reachE: "reach m fn \<sigma>0 \<sigma>"

section \<open>Functions in SSA form\<close>

text \<open>
  What lowering builds: each name has one definition, no parameter is defined again, no
  name is an integer literal, and only a \<^verbatim>\<open>cond_fail\<close> has no result.
\<close>

definition results :: "func \<Rightarrow> name list" where
  "results fn = filter (\<lambda>x. x \<noteq> []) (map (\<lambda>i. v_name (i_result i)) (all_instrs fn))"

definition param_names :: "func \<Rightarrow> name list" where
  "param_names fn = map p_name (f_params fn)"

definition ssa :: "func \<Rightarrow> bool" where
  "ssa fn \<longleftrightarrow>
     distinct (results fn) \<and> set (results fn) \<inter> set (param_names fn) = {} \<and>
     (\<forall>x\<in>set (results fn) \<union> set (param_names fn). parse_int64 x = None \<and> x \<noteq> []) \<and>
     (\<forall>i\<in>set (all_instrs fn). v_name (i_result i) = [] \<longrightarrow> i_op i = ''cond_fail'')"

definition instr_at :: "func \<Rightarrow> nat \<Rightarrow> nat \<Rightarrow> instr option" where
  "instr_at fn p k =
     (if p < length (f_blocks fn) \<and> k < length (b_instrs (f_blocks fn ! p))
      then Some (b_instrs (f_blocks fn ! p) ! k) else None)"

end
