(* ===== verification/Ir_Sim.thy ===== *)
theory Ir_Sim
  imports Ir_Sem
begin

text \<open>
  What the proofs about passes share: the interface of a pass that preserves runs, as
  the locale \<open>simulation\<close>, and where the values of an environment come from.
\<close>

section \<open>Runs\<close>

lemma run_more: "run m fn n \<sigma> = Some r \<Longrightarrow> n \<le> n' \<Longrightarrow> run m fn n' \<sigma> = Some r"
proof (induction n arbitrary: \<sigma> n')
  case (Suc n)
  then obtain k where "n' = Suc k" "n \<le> k" by (cases n') auto
  with Suc show ?case by (auto split: progress.splits)
qed simp

lemma run_unique: "run m fn n \<sigma> = Some r \<Longrightarrow> run m fn n' \<sigma> = Some r' \<Longrightarrow> r = r'"
  using run_more[of m fn n \<sigma> r "max n n'"] run_more[of m fn n' \<sigma> r' "max n n'"] by simp

text \<open>
  A pass rewrites a function so that every step of the original is a step of the result,
  or no step at all, between states the relation keeps.
\<close>

locale simulation =
  fixes m :: "('v, 's) machine"
    and pass :: "func \<Rightarrow> func"
    and sim :: "func \<Rightarrow> ('v, 's) state \<Rightarrow> ('v, 's) state \<Rightarrow> bool"
  assumes sim_go: "sim fn \<sigma> \<sigma>' \<Longrightarrow> step m fn \<sigma> = Go \<tau> \<Longrightarrow>
      sim fn \<tau> \<sigma>' \<or> (\<exists>\<tau>'. step m (pass fn) \<sigma>' = Go \<tau>' \<and> sim fn \<tau> \<tau>')"
    and sim_done: "sim fn \<sigma> \<sigma>' \<Longrightarrow> step m fn \<sigma> = Done x s \<Longrightarrow> step m (pass fn) \<sigma>' = Done x s"
begin

lemma run_preserved: "sim fn \<sigma> \<sigma>' \<Longrightarrow> run m fn n \<sigma> = Some r \<Longrightarrow> run m (pass fn) n \<sigma>' = Some r"
proof (induction n arbitrary: \<sigma> \<sigma>')
  case (Suc n)
  show ?case
  proof (cases "step m fn \<sigma>")
    case (Go \<tau>)
    with Suc.prems have run: "run m fn n \<tau> = Some r" by simp
    from sim_go[OF Suc.prems(1) Go] show ?thesis
    proof
      assume "sim fn \<tau> \<sigma>'"
      from run_more[OF Suc.IH[OF this run], of "Suc n"] show ?thesis by simp
    next
      assume "\<exists>\<tau>'. step m (pass fn) \<sigma>' = Go \<tau>' \<and> sim fn \<tau> \<tau>'"
      with Suc.IH[OF _ run] show ?thesis by auto
    qed
  next
    case (Done x s)
    with Suc.prems sim_done[OF Suc.prems(1) Done] show ?thesis by simp
  next
    case Stuck
    with Suc.prems show ?thesis by simp
  qed
qed simp

end

text \<open>A pass that keeps every step where it was is the special case without skipping.\<close>

locale lockstep =
  fixes m :: "('v, 's) machine"
    and pass :: "func \<Rightarrow> func"
    and ok :: "func \<Rightarrow> ('v, 's) state \<Rightarrow> bool"
  assumes same_step: "ok fn \<sigma> \<Longrightarrow> step m fn \<sigma> \<noteq> Stuck \<Longrightarrow> step m (pass fn) \<sigma> = step m fn \<sigma>"
    and ok_step: "ok fn \<sigma> \<Longrightarrow> step m fn \<sigma> = Go \<tau> \<Longrightarrow> ok fn \<tau>"

sublocale lockstep \<subseteq> simulation m pass "\<lambda>fn \<sigma> \<sigma>'. ok fn \<sigma> \<and> \<sigma>' = \<sigma>"
  by unfold_locales (auto dest: same_step ok_step)

section \<open>States and steps\<close>

definition current_instr :: "func \<Rightarrow> ('v, 's) state \<Rightarrow> instr option" where
  "current_instr fn \<sigma> = instr_at fn (st_block \<sigma>) (st_step \<sigma>)"

lemma current_instr_Some:
  "current_instr fn \<sigma> = Some i \<longleftrightarrow> st_block \<sigma> < length (f_blocks fn) \<and>
    st_step \<sigma> < length (b_instrs (f_blocks fn ! st_block \<sigma>)) \<and>
    i = b_instrs (f_blocks fn ! st_block \<sigma>) ! st_step \<sigma>"
  by (auto simp: current_instr_def instr_at_def)

lemma step_instr: "current_instr fn \<sigma> = Some i \<Longrightarrow> step m fn \<sigma> = after \<sigma> i (exec m \<sigma> i)"
  by (simp add: step_def current_instr_Some Let_def)

lemma step_end:
  "current_instr fn \<sigma> = None \<Longrightarrow> step m fn \<sigma> =
    (if st_block \<sigma> < length (f_blocks fn)
     then end_block m fn \<sigma> (b_term (f_blocks fn ! st_block \<sigma>)) else Stuck)"
  by (auto simp: step_def current_instr_def instr_at_def Let_def)

lemma goto_Go:
  "goto fn \<sigma> target = Go \<tau> \<longleftrightarrow> (\<exists>p. positions (f_blocks fn) target = Some p \<and>
    \<tau> = \<sigma>\<lparr>st_block := p, st_step := 0,
          st_from := b_name (f_blocks fn ! st_block \<sigma>), st_entry := st_env \<sigma>\<rparr>)"
  by (auto simp: goto_def split: option.splits)

lemma goto_not_Done [simp]: "goto fn \<sigma> target \<noteq> Done x s"
  by (auto simp: goto_def split: option.splits)

lemma end_block_Go:
  "end_block m fn \<sigma> t = Go \<tau> \<Longrightarrow> \<exists>target\<in>{t_target t, t_else t}. goto fn \<sigma> target = Go \<tau>"
  by (auto simp: end_block_def split: if_splits option.splits val.splits)

lemma end_block_same:
  assumes "positions (f_blocks fn') = positions (f_blocks fn)"
    and "b_name (f_blocks fn' ! st_block \<sigma>) = b_name (f_blocks fn ! st_block \<sigma>)"
  shows "end_block m fn' \<sigma> = end_block m fn \<sigma>"
proof -
  have "goto fn' \<sigma> = goto fn \<sigma>" by (rule ext) (unfold goto_def assms, rule refl)
  then show ?thesis by (intro ext) (unfold end_block_def, simp only:)
qed

lemma after_Go:
  "after \<sigma> i out = Go \<tau> \<longleftrightarrow> (\<exists>x s. out = Some (Yield x s) \<and>
    \<tau> = \<sigma>\<lparr>st_step := Suc (st_step \<sigma>), st_env := bind_result i x (st_env \<sigma>), st_mem := s\<rparr>)"
  by (auto simp: after_def split: option.splits outcome.splits)

lemma after_result: "i_result i' = i_result i \<Longrightarrow> after \<sigma> i' = after \<sigma> i"
  by (rule ext) (simp add: after_def bind_result_def split: option.splits outcome.splits)

lemma step_cases:
  assumes "step m fn \<sigma> = Go \<tau>"
  obtains (instr) i x s where "current_instr fn \<sigma> = Some i" and "exec m \<sigma> i = Some (Yield x s)"
      and "\<tau> = \<sigma>\<lparr>st_step := Suc (st_step \<sigma>), st_env := bind_result i x (st_env \<sigma>), st_mem := s\<rparr>"
  | (jump) target p where "current_instr fn \<sigma> = None" and "st_block \<sigma> < length (f_blocks fn)"
      and "target \<in> {t_target (b_term (f_blocks fn ! st_block \<sigma>)), t_else (b_term (f_blocks fn ! st_block \<sigma>))}"
      and "positions (f_blocks fn) target = Some p"
      and "\<tau> = \<sigma>\<lparr>st_block := p, st_step := 0,
          st_from := b_name (f_blocks fn ! st_block \<sigma>), st_entry := st_env \<sigma>\<rparr>"
proof (cases "current_instr fn \<sigma>")
  case None
  with assms have lt: "st_block \<sigma> < length (f_blocks fn)"
    and "end_block m fn \<sigma> (b_term (f_blocks fn ! st_block \<sigma>)) = Go \<tau>"
    by (auto simp: step_end split: if_splits)
  from end_block_Go[OF this(2)] jump[OF None lt] show ?thesis by (auto simp: goto_Go)
next
  case (Some i)
  with assms instr[OF Some] show ?thesis by (auto simp: step_instr after_Go)
qed

lemma bind_result_Some:
  "bind_result i x env y = Some v \<longleftrightarrow>
    (if v_name (i_result i) \<noteq> [] \<and> y = v_name (i_result i) then v = x else env y = Some v)"
  by (auto simp: bind_result_def)

section \<open>Where values come from\<close>

text \<open>The environment and the block's entry environment hold arguments and executed results.\<close>

definition made :: "('v, 's) machine \<Rightarrow> func \<Rightarrow> ('v, 's) state \<Rightarrow> name \<Rightarrow> 'v val \<Rightarrow> bool" where
  "made m fn \<sigma>0 x v \<longleftrightarrow>
     (\<exists>\<sigma> i s. reach m fn \<sigma>0 \<sigma> \<and> current_instr fn \<sigma> = Some i \<and> v_name (i_result i) = x \<and>
        x \<noteq> [] \<and> exec m \<sigma> i = Some (Yield v s))"

lemma reach_origin:
  "reach m fn (start args s) \<sigma> \<Longrightarrow>
    (\<forall>x v. st_env \<sigma> x = Some v \<longrightarrow> args x = Some v \<or> made m fn (start args s) x v) \<and>
    (\<forall>x v. st_entry \<sigma> x = Some v \<longrightarrow> args x = Some v \<or> made m fn (start args s) x v)"
proof (induction rule: reach.induct)
  case here
  then show ?case by (simp add: start_def)
next
  case (further \<sigma> \<tau>)
  from further.hyps(2) show ?case
  proof (cases rule: step_cases)
    case (instr i x s')
    then have "made m fn (start args s) y x" if "y = v_name (i_result i)" "y \<noteq> []" for y
      using further.hyps(1) that by (auto simp: made_def)
    with further.IH instr show ?thesis by (auto simp: bind_result_Some split: if_splits)
  next
    case (jump target p)
    with further.IH show ?thesis by simp
  qed
qed

lemma distinct_filter_nth:
  "distinct (filter P xs) \<Longrightarrow> k < length xs \<Longrightarrow> j < length xs \<Longrightarrow> xs ! k = xs ! j \<Longrightarrow> P (xs ! k) \<Longrightarrow> k = j"
proof (induction xs arbitrary: k j)
  case (Cons x xs)
  then show ?case
    by (cases k; cases j) (auto split: if_splits)
qed simp

lemma distinct_concat_nth:
  assumes "distinct (filter P (concat xss))" and "p < length xss" and "k < length (xss ! p)"
    and "q < length xss" and "j < length (xss ! q)" and "xss ! p ! k = xss ! q ! j" and "P (xss ! p ! k)"
  shows "p = q \<and> k = j"
  using assms
proof (induction xss arbitrary: p q)
  case (Cons xs xss)
  have later: "xss ! r ! l \<in> set (filter P (concat xss))"
    if "r < length xss" "l < length (xss ! r)" "P (xss ! r ! l)" for r l
    using that by (auto intro!: bexI[of _ "xss ! r"])
  show ?case
  proof (cases p; cases q)
    fix p' q'
    assume "p = Suc p'" "q = Suc q'"
    with Cons.IH[of p' q'] Cons.prems show ?thesis by simp
  next
    fix q'
    assume "p = 0" "q = Suc q'"
    with Cons.prems later[of q' j] show ?thesis by (fastforce dest: nth_mem)
  next
    fix p'
    assume "p = Suc p'" "q = 0"
    with Cons.prems later[of p' k] show ?thesis by (fastforce dest: nth_mem)
  next
    assume "p = 0" "q = 0"
    with Cons.prems show ?thesis by (auto dest: distinct_filter_nth)
  qed
qed simp

lemma results_concat: "results fn = filter (\<lambda>x. x \<noteq> []) (concat (map block_results (f_blocks fn)))"
proof -
  have "map block_results (f_blocks fn) = map (map (\<lambda>i. v_name (i_result i))) (map b_instrs (f_blocks fn))"
    by (simp add: block_results_def)
  then show ?thesis by (simp only: results_def all_instrs_def map_concat)
qed

lemma ssa_unique:
  assumes "ssa fn" and "instr_at fn p k = Some i" and "instr_at fn q j = Some i'"
    and "v_name (i_result i) = v_name (i_result i')" and "v_name (i_result i) \<noteq> []"
  shows "p = q \<and> k = j \<and> i = i'"
proof -
  let ?xss = "map block_results (f_blocks fn)"
  from assms(2,3) have at: "p < length ?xss" "k < length (?xss ! p)" "q < length ?xss" "j < length (?xss ! q)"
      "?xss ! p ! k = v_name (i_result i)" "?xss ! q ! j = v_name (i_result i')"
    by (auto simp: instr_at_def block_results_def split: if_splits)
  from assms(1) have "distinct (filter (\<lambda>x. x \<noteq> []) (concat ?xss))"
    by (simp add: ssa_def flip: results_concat)
  from distinct_concat_nth[OF this at(1-4)] at(5,6) assms(4,5) have "p = q \<and> k = j" by simp
  with assms(2,3) show ?thesis by simp
qed

lemma instr_at_all: "instr_at fn p k = Some i \<Longrightarrow> i \<in> set (all_instrs fn)"
  by (auto simp: instr_at_def all_instrs_def split: if_splits intro!: bexI[of _ "f_blocks fn ! p"])

lemma instr_at_result: "instr_at fn p k = Some i \<Longrightarrow> v_name (i_result i) \<noteq> [] \<Longrightarrow> v_name (i_result i) \<in> set (results fn)"
  by (auto simp: results_def dest: instr_at_all)

text \<open>A name some executed instruction defines holds what that instruction gave.\<close>

lemma made_by:
  assumes "ssa fn" and "instr_at fn p k = Some i" and "made m fn \<sigma>0 (v_name (i_result i)) v"
  shows "\<exists>\<sigma> s. reach m fn \<sigma>0 \<sigma> \<and> st_block \<sigma> = p \<and> st_step \<sigma> = k \<and> exec m \<sigma> i = Some (Yield v s)"
  using assms ssa_unique[OF assms(1,2)] by (fastforce simp: made_def current_instr_def)

text \<open>Arguments bind parameters only.\<close>

definition args_for :: "func \<Rightarrow> 'v env \<Rightarrow> bool" where
  "args_for fn args \<longleftrightarrow> dom args \<subseteq> set (param_names fn)"

lemma call_env_args_for: "args_for fn (call_env fn vals)"
  by (auto simp: args_for_def call_env_def param_names_def dest!: map_of_SomeD set_zip_leftD)

lemma result_not_arg:
  "ssa fn \<Longrightarrow> args_for fn args \<Longrightarrow> instr_at fn p k = Some i \<Longrightarrow> v_name (i_result i) \<noteq> [] \<Longrightarrow>
    args (v_name (i_result i)) = None"
  using instr_at_result[of fn p k i] by (auto simp: args_for_def ssa_def)

lemma in_all_instrs: "i \<in> set (all_instrs fn) \<Longrightarrow> \<exists>p k. instr_at fn p k = Some i"
proof -
  assume "i \<in> set (all_instrs fn)"
  then obtain b where "b \<in> set (f_blocks fn)" "i \<in> set (b_instrs b)" by (auto simp: all_instrs_def)
  then obtain p k where "p < length (f_blocks fn)" "f_blocks fn ! p = b"
    "k < length (b_instrs b)" "b_instrs b ! k = i" by (auto simp: in_set_conv_nth)
  then have "instr_at fn p k = Some i" by (simp add: instr_at_def)
  then show ?thesis by blast
qed

lemma reach_trans:
  assumes "reach m fn \<sigma> \<tau>" and "reach m fn \<tau> \<rho>"
  shows "reach m fn \<sigma> \<rho>"
  using assms(2,1) by (induction rule: reach.induct) (auto intro: reach.further)

lemma reach_run:
  assumes "reach m fn \<sigma> \<tau>" and "step m fn \<tau> = Done x s"
  shows "\<exists>n. run m fn n \<sigma> = Some (x, s)"
proof -
  have "\<exists>k. \<forall>n. run m fn (k + n) \<sigma> = run m fn n \<tau>" using assms(1)
  proof (induction rule: reach.induct)
    case here
    show ?case by (rule exI[of _ 0]) simp
  next
    case (further \<rho> \<tau>)
    then obtain k where "\<And>n. run m fn (k + n) \<sigma> = run m fn n \<rho>" by blast
    moreover have "run m fn (Suc n) \<rho> = run m fn n \<tau>" for n using further.hyps(2) by simp
    ultimately have "\<forall>n. run m fn (Suc k + n) \<sigma> = run m fn n \<tau>" by (metis add_Suc_shift)
    then show ?case by blast
  qed
  then obtain k where "\<And>n. run m fn (k + n) \<sigma> = run m fn n \<tau>" by blast
  moreover have "run m fn 1 \<tau> = Some (x, s)" using assms(2) by simp
  ultimately show ?thesis by metis
qed

lemma shape_simps [simp]:
  "i_immediate (shape i) = i_immediate i" "i_op (shape i) = i_op i"
  "v_type (i_result (shape i)) = v_type (i_result i)"
  by (simp_all add: shape_def map_reads_def anonymous_def)

section \<open>Small functions\<close>

text \<open>A machine with no operations of its own, and builders for small functions.\<close>

definition bare_machine :: "(unit, unit) machine" where
  "bare_machine = \<lparr>mc_op = (\<lambda>_ _ _. None), mc_lit = (\<lambda>_. None)\<rparr>"

definition typed :: "name \<Rightarrow> string \<Rightarrow> ir_value" where
  "typed x ty = \<lparr>v_name = x, v_type = ty\<rparr>"

definition function_of :: "param list \<Rightarrow> string \<Rightarrow> block list \<Rightarrow> func" where
  "function_of ps ret bs = \<lparr>f_name = ''f'', f_params = ps, f_return = ret, f_blocks = bs,
     f_export_abi = [], f_export_name = []\<rparr>"

definition block_of :: "name \<Rightarrow> instr list \<Rightarrow> terminator \<Rightarrow> block" where
  "block_of x is t = \<lparr>b_name = x, b_instrs = is, b_term = t\<rparr>"

definition const_i64 :: "name \<Rightarrow> string \<Rightarrow> instr" where
  "const_i64 x imm = (new_instr (typed x ''i64'') ''const'')\<lparr>i_immediate := imm\<rparr>"

definition binary_i64 :: "name \<Rightarrow> string \<Rightarrow> string \<Rightarrow> name \<Rightarrow> name \<Rightarrow> instr" where
  "binary_i64 x ty op a b =
     (new_instr (typed x ty) op)\<lparr>i_args := [typed a ''i64'', typed b ''i64'']\<rparr>"

definition return_of :: "name \<Rightarrow> string \<Rightarrow> terminator" where
  "return_of x ty = (new_term ''return'')\<lparr>t_value := typed x ty\<rparr>"

end
