(* ===== verification/Const_Fold.thy ===== *)
theory Const_Fold
  imports Ir_Sim
begin

text \<open>
  ConstantFold (internal/ir/optimize.go): the map of known i64 constants, one sweep over
  a function, and the loop that sweeps until nothing folds. The loop ends because each
  sweep that changes something leaves fewer instructions that are not constants
  (\<open>fold_rounds\<close>). \<open>constant_fold_preserves\<close> is proved as a lockstep simulation whose
  invariant says that a name with a known constant never holds anything else.
\<close>

section \<open>The pass\<close>

type_synonym const_map = "name \<rightharpoonup> i64"

definition record_constant :: "instr \<Rightarrow> const_map \<Rightarrow> const_map" where
  "record_constant i known =
     (if i_op i \<noteq> ''const'' \<or> v_type (i_result i) \<noteq> ''i64'' then known
      else (case parse_int64 (i_immediate i) of
              Some v \<Rightarrow> known(v_name (i_result i) \<mapsto> v)
            | None \<Rightarrow> known))"

definition integer_constant :: "ir_value \<Rightarrow> const_map \<Rightarrow> i64 option" where
  "integer_constant v known =
     (if v_type v \<noteq> ''i64'' then None
      else (case known (v_name v) of
              Some n \<Rightarrow> Some n
            | None \<Rightarrow> parse_int64 (v_name v)))"

definition fold_binary :: "string \<Rightarrow> i64 \<Rightarrow> i64 \<Rightarrow> i64 option" where
  "fold_binary op l r =
     (if op = ''binary.+'' then Some (l + r)
      else if op = ''binary.-'' then Some (l - r)
      else if op = ''binary.*'' then Some (l * r)
      else if op = ''binary.&'' then Some (and l r)
      else if op = ''binary.|'' then Some (or l r)
      else if op = ''binary.^'' then Some (xor l r)
      else None)"

definition fold_comparison :: "string \<Rightarrow> i64 \<Rightarrow> i64 \<Rightarrow> bool option" where
  "fold_comparison op l r =
     (if op = ''binary.<'' then Some (l <s r)
      else if op = ''binary.<='' then Some (l \<le>s r)
      else if op = ''binary.>'' then Some (r <s l)
      else if op = ''binary.>='' then Some (r \<le>s l)
      else if op = ''binary.=='' then Some (l = r)
      else if op = ''binary.!='' then Some (l \<noteq> r)
      else None)"

definition format_bool :: "bool \<Rightarrow> string" where
  "format_bool b = (if b then ''true'' else ''false'')"

definition as_constant :: "instr \<Rightarrow> string \<Rightarrow> instr" where
  "as_constant i imm = i\<lparr>i_op := ''const'', i_args := [], i_immediate := imm\<rparr>"

definition fold_instr :: "instr \<Rightarrow> const_map \<Rightarrow> (instr \<times> const_map) option" where
  "fold_instr i known =
     (if length (i_args i) \<noteq> 2 \<or> i_op i = ''const'' then None
      else (case (integer_constant (i_args i ! 0) known, integer_constant (i_args i ! 1) known) of
              (Some l, Some r) \<Rightarrow>
                if v_type (i_result i) = ''i64'' then
                  (case fold_binary (i_op i) l r of
                     Some v \<Rightarrow> Some (as_constant i (format_int64 v), known(v_name (i_result i) \<mapsto> v))
                   | None \<Rightarrow> None)
                else if v_type (i_result i) = ''bool'' then
                  map_option (\<lambda>c. (as_constant i (format_bool c), known)) (fold_comparison (i_op i) l r)
                else None
            | _ \<Rightarrow> None))"

text \<open>One sweep: the instructions, the constants and whether anything folded.\<close>

primrec fold_instrs :: "instr list \<Rightarrow> const_map \<Rightarrow> instr list \<times> const_map \<times> bool" where
  "fold_instrs [] known = ([], known, False)"
| "fold_instrs (i # is) known =
     (case fold_instr i known of
        None \<Rightarrow> (let (is', known', changed) = fold_instrs is known in (i # is', known', changed))
      | Some (i', consts1) \<Rightarrow>
          (let (is', known', _) = fold_instrs is consts1 in (i' # is', known', True)))"

primrec fold_blocks :: "block list \<Rightarrow> const_map \<Rightarrow> block list \<times> const_map \<times> bool" where
  "fold_blocks [] known = ([], known, False)"
| "fold_blocks (b # bs) known =
     (let (is', consts1, c1) = fold_instrs (b_instrs b) known;
          (bs', consts2, c2) = fold_blocks bs consts1
      in (b\<lparr>b_instrs := is'\<rparr> # bs', consts2, c1 \<or> c2))"

definition unfolded :: "instr list \<Rightarrow> nat" where
  "unfolded is = length (filter (\<lambda>i. i_op i \<noteq> ''const'') is)"

lemma fold_instr_op:
  "fold_instr i known = Some (i', known') \<Longrightarrow> i_op i \<noteq> ''const'' \<and> i_op i' = ''const''"
  by (auto simp: fold_instr_def as_constant_def split: if_splits option.splits)

lemma fold_instrs_unfolded:
  "fold_instrs is known = (is', known', changed) \<Longrightarrow>
    unfolded is' \<le> unfolded is \<and> (changed \<longrightarrow> unfolded is' < unfolded is)"
proof (induction "is" arbitrary: known is' known' changed)
  case (Cons i "is")
  show ?case
  proof (cases "fold_instr i known")
    case None
    obtain is1 c1 ch1 where r: "fold_instrs is known = (is1, c1, ch1)" by (cases "fold_instrs is known")
    with Cons.IH[OF r] Cons.prems None show ?thesis by (auto simp: unfolded_def)
  next
    case (Some ic)
    obtain i1 c0 where ic: "ic = (i1, c0)" by (cases ic)
    obtain is1 c1 ch1 where r: "fold_instrs is c0 = (is1, c1, ch1)" by (cases "fold_instrs is c0")
    with Cons.IH[OF r] Cons.prems Some ic fold_instr_op[of i known i1 c0] show ?thesis
      by (auto simp: unfolded_def)
  qed
qed simp

lemma fold_blocks_unfolded:
  "fold_blocks bs known = (bs', known', changed) \<Longrightarrow>
    (\<Sum>b\<leftarrow>bs'. unfolded (b_instrs b)) \<le> (\<Sum>b\<leftarrow>bs. unfolded (b_instrs b)) \<and>
    (changed \<longrightarrow> (\<Sum>b\<leftarrow>bs'. unfolded (b_instrs b)) < (\<Sum>b\<leftarrow>bs. unfolded (b_instrs b)))"
proof (induction bs arbitrary: known bs' known' changed)
  case (Cons b bs)
  obtain is1 c1 ch1 where r: "fold_instrs (b_instrs b) known = (is1, c1, ch1)"
    by (cases "fold_instrs (b_instrs b) known")
  obtain bs2 c2 ch2 where q: "fold_blocks bs c1 = (bs2, c2, ch2)" by (cases "fold_blocks bs c1")
  from fold_instrs_unfolded[OF r] Cons.IH[OF q] Cons.prems r q show ?case by auto
qed simp

text \<open>Folding repeats until a sweep folds nothing.\<close>

function fold_rounds :: "block list \<Rightarrow> const_map \<Rightarrow> block list" where
  "fold_rounds bs known =
     (let (bs', known', changed) = fold_blocks bs known
      in if changed then fold_rounds bs' known' else bs')"
  by pat_completeness auto
termination
  by (relation "measure (\<lambda>(bs, _). \<Sum>b\<leftarrow>bs. unfolded (b_instrs b))")
    (auto dest!: fold_blocks_unfolded[OF sym])

declare fold_rounds.simps [simp del]

definition initial_constants :: "func \<Rightarrow> const_map" where
  "initial_constants fn = fold record_constant (all_instrs fn) Map.empty"

definition constant_fold_function :: "func \<Rightarrow> func" where
  "constant_fold_function fn =
     fn\<lparr>f_blocks := fold_rounds (f_blocks fn) (initial_constants fn)\<rparr>"

definition constant_fold :: "module \<Rightarrow> module" where
  "constant_fold = map_functions constant_fold_function"

section \<open>One folded instruction\<close>

lemma fold_binary_int_op:
  "fold_binary op l r = Some v \<Longrightarrow> int_op ''i64'' op l r = Some (IntV v)"
  by (auto simp: fold_binary_def int_op_def split: if_splits)

lemma fold_comparison_int_op:
  "fold_comparison op l r = Some c \<Longrightarrow> int_op ''bool'' op l r = Some (BoolV c)"
  by (auto simp: fold_comparison_def int_op_def word_sless_alt word_sle_eq split: if_splits)

lemma fold_op_shape:
  "fold_binary op l r = Some v \<or> fold_comparison op l r = Some c \<Longrightarrow> prefix ''binary.'' op"
  by (auto simp: fold_binary_def fold_comparison_def split: if_splits)

text \<open>The constants are right in a state when no known name holds anything else.\<close>

definition knows :: "const_map \<Rightarrow> 'v env \<Rightarrow> bool" where
  "knows known env \<longleftrightarrow> (\<forall>x n v. known x = Some n \<longrightarrow> env x = Some v \<longrightarrow> v = IntV n)"

text \<open>Reading a known constant gives it, unless the name is read before it has a value.\<close>

lemma integer_constant_operand:
  assumes "knows known env" and "integer_constant v known = Some n" and "operand m env v = Some x"
    and "\<And>y. y \<in> dom env \<union> dom known \<Longrightarrow> parse_int64 y = None"
  shows "x = IntV n"
proof (cases "env (v_name v)")
  case (Some y)
  then have "parse_int64 (v_name v) = None" using assms(4) by blast
  with assms(1-3) Some show ?thesis
    by (auto simp: integer_constant_def operand_def knows_def split: if_splits option.splits)
next
  case None
  with assms(2,3) obtain k where "parse_int64 (v_name v) = Some k" "x = IntV k"
    by (auto simp: integer_constant_def operand_def split: if_splits)
  moreover from this have "known (v_name v) = None" using assms(4)[of "v_name v"] by auto
  ultimately show ?thesis using assms(2) by (auto simp: integer_constant_def split: if_splits)
qed

lemma fold_instr_fixed:
  assumes "fold_instr i known = Some (i', known')"
  obtains l r and w :: "'v val" where "length (i_args i) = 2" and "integer_constant (i_args i ! 0) known = Some l"
    and "integer_constant (i_args i ! 1) known = Some r" and "i_op i \<notin> {''const'', ''id'', ''phi''}"
    and "int_op (v_type (i_result i)) (i_op i) l r = Some w" and "const_value i' = Some w"
    and "i_result i' = i_result i" and "i_op i' = ''const''" and "i_args i' = []"
    and "i_fields i' = i_fields i" and "i_cleanups i' = i_cleanups i"
    and "known' = known \<or> (\<exists>n. w = IntV n \<and> known' = known(v_name (i_result i) \<mapsto> n))"
proof -
  from assms obtain l r where lr: "length (i_args i) = 2" "i_op i \<noteq> ''const''"
      "integer_constant (i_args i ! 0) known = Some l" "integer_constant (i_args i ! 1) known = Some r"
    by (auto simp: fold_instr_def split: if_splits option.splits)
  show ?thesis
  proof (cases "v_type (i_result i) = ''i64''")
    case True
    with assms lr obtain v where v: "fold_binary (i_op i) l r = Some v"
        "i' = as_constant i (format_int64 v)" "known' = known(v_name (i_result i) \<mapsto> v)"
      by (auto simp: fold_instr_def split: option.splits)
    have "prefix ''binary.'' (i_op i)" using v(1) fold_op_shape by blast
    then have op: "i_op i \<notin> {''const'', ''id'', ''phi''}" by auto
    show ?thesis
      by (rule that[of l r "IntV v"])
        (use lr True v op fold_binary_int_op[OF v(1)] in \<open>auto simp: as_constant_def const_value_def\<close>)
  next
    case False
    with assms lr obtain c where c: "v_type (i_result i) = ''bool''" "fold_comparison (i_op i) l r = Some c"
        "i' = as_constant i (format_bool c)" "known' = known"
      by (auto simp: fold_instr_def split: if_splits)
    have "prefix ''binary.'' (i_op i)" using c(2) fold_op_shape by blast
    then have op: "i_op i \<notin> {''const'', ''id'', ''phi''}" by auto
    show ?thesis
      by (rule that[of l r "BoolV c"])
        (use lr c op fold_comparison_int_op[OF c(2)] in
          \<open>auto simp: as_constant_def const_value_def format_bool_def\<close>)
  qed
qed

lemma operands_append:
  "operands m env (us @ vs) =
    (case operands m env us of None \<Rightarrow> None
     | Some xs \<Rightarrow> map_option (\<lambda>ys. xs @ ys) (operands m env vs))"
  by (induction us; cases "operands m env vs") (auto split: option.splits)

lemma operands_length: "operands m env vs = Some xs \<Longrightarrow> length xs = length vs"
  by (induction vs arbitrary: xs) (auto split: option.splits)

lemma operands_nth:
  "operands m env vs = Some xs \<Longrightarrow> k < length vs \<Longrightarrow> operand m env (vs ! k) = Some (xs ! k)"
  by (induction vs arbitrary: xs k) (auto split: option.splits simp: nth_Cons')

lemma integer_constant_type: "integer_constant v known = Some n \<Longrightarrow> v_type v = ''i64''"
  by (simp add: integer_constant_def split: if_splits)

text \<open>In a state where the constants are right, the folded instruction does the same.\<close>

lemma fold_instr_exec:
  fixes \<sigma> :: "('v, 's) state"
  assumes "fold_instr i known = Some (i', known')" and "knows known (st_env \<sigma>)"
    and "\<And>y. y \<in> dom (st_env \<sigma>) \<union> dom known \<Longrightarrow> parse_int64 y = None"
    and "exec m \<sigma> i = Some out"
  shows "exec m \<sigma> i' = Some out \<and> (\<forall>x n. known' x = Some n \<longrightarrow> known x = Some n \<or>
    (x = v_name (i_result i) \<and> out = Yield (IntV n) (st_mem \<sigma>)))"
proof (cases rule: fold_instr_fixed[OF assms(1), where ?'v = 'v])
  case (1 l r w)
  obtain a b where ab: "i_args i = [a, b]"
    using 1(1) by (auto simp: length_Suc_conv numeral_2_eq_2)
  let ?rest = "map fa_value (i_fields i) @ concat (map cl_args (i_cleanups i))"
  from assms(4) 1(4) obtain vals where vals: "operands m (st_env \<sigma>) (direct_reads i) = Some vals"
    by (auto simp: exec_def split: option.splits)
  then obtain x y zs where xyz: "operand m (st_env \<sigma>) a = Some x" "operand m (st_env \<sigma>) b = Some y"
      "operands m (st_env \<sigma>) ?rest = Some zs" "vals = x # y # zs"
    by (auto simp: direct_reads_def ab split: option.splits)
  have "x = IntV l" "y = IntV r"
    using integer_constant_operand[OF assms(2) _ xyz(1) assms(3)]
      integer_constant_operand[OF assms(2) _ xyz(2) assms(3)] 1(2,3) ab by auto
  moreover have "list_all (\<lambda>a. v_type a = ''i64'') (i_args i)"
    using integer_constant_type[OF 1(2)] integer_constant_type[OF 1(3)] ab by simp
  ultimately have fixed: "fixed_value i (take (length (i_args i)) vals) = Some w"
    using 1(4,5) xyz(4) ab by (simp add: fixed_value_def)
  then have out: "out = Yield w (st_mem \<sigma>)"
    using assms(4) 1(4) vals by (simp add: exec_def)
  have "direct_reads i' = ?rest" using 1(9-11) by (simp add: direct_reads_def)
  then have "exec m \<sigma> i' = Some out"
    using xyz(3) 1(6,8) out by (simp add: exec_def fixed_value_def)
  with 1(12) out show ?thesis by (auto split: if_splits)
qed

section \<open>Every sweep\<close>

lemma env_names:
  assumes "ssa fn" and "args_for fn args" and "reach m fn (start args s) \<sigma>" and "st_env \<sigma> x = Some v"
  shows "parse_int64 x = None"
proof -
  from reach_origin[OF assms(3)] assms(4)
  have "x \<in> dom args \<or> made m fn (start args s) x v" by blast
  then have "x \<in> set (param_names fn) \<union> set (results fn)"
    using assms(2) by (auto simp: args_for_def made_def current_instr_def dest: instr_at_result)
  then show ?thesis using assms(1) by (auto simp: ssa_def)
qed

definition sound :: "('v, 's) machine \<Rightarrow> func \<Rightarrow> ('v, 's) state \<Rightarrow> const_map \<Rightarrow> bool" where
  "sound m fn \<sigma>0 known \<longleftrightarrow> dom known \<subseteq> set (results fn) \<and>
     (\<forall>\<sigma>. reach m fn \<sigma>0 \<sigma> \<longrightarrow> knows known (st_env \<sigma>))"

text \<open>An instruction that may stand at a place: the original or a constant, doing the same.\<close>

definition stands_for :: "('v, 's) machine \<Rightarrow> func \<Rightarrow> ('v, 's) state \<Rightarrow> nat \<Rightarrow> nat \<Rightarrow> instr \<Rightarrow> bool" where
  "stands_for m fn \<sigma>0 p k i' \<longleftrightarrow>
     (\<exists>i. instr_at fn p k = Some i \<and> i_result i' = i_result i \<and> (i' = i \<or> i_op i' = ''const'') \<and>
        (\<forall>\<sigma> out. reach m fn \<sigma>0 \<sigma> \<longrightarrow> st_block \<sigma> = p \<longrightarrow> st_step \<sigma> = k \<longrightarrow>
           exec m \<sigma> i = Some out \<longrightarrow> exec m \<sigma> i' = Some out))"

lemma fold_instr_stands_for:
  assumes ssa: "ssa fn" and args: "args_for fn args" and "sound m fn (start args s) known"
    and "stands_for m fn (start args s) p k i'" and "fold_instr i' known = Some (i'', known')"
  shows "stands_for m fn (start args s) p k i'' \<and> sound m fn (start args s) known'"
proof -
  let ?\<sigma>0 = "start args s"
  from assms(4,5) have at: "instr_at fn p k = Some i'"
    using fold_instr_op[OF assms(5)] by (auto simp: stands_for_def)
  have named: "v_name (i_result i') \<noteq> []" "v_name (i_result i') \<in> set (results fn)"
  proof -
    have "prefix ''binary.'' (i_op i')"
      using assms(5) fold_op_shape by (auto simp: fold_instr_def split: if_splits option.splits; blast)
    then have "i_op i' \<noteq> ''cond_fail''" by auto
    then show "v_name (i_result i') \<noteq> []" using ssa instr_at_all[OF at] by (auto simp: ssa_def)
    then show "v_name (i_result i') \<in> set (results fn)" using instr_at_result[OF at] by blast
  qed
  have run: "exec m \<sigma> i'' = Some out \<and> (\<forall>x n. known' x = Some n \<longrightarrow> known x = Some n \<or>
      (x = v_name (i_result i') \<and> out = Yield (IntV n) (st_mem \<sigma>)))"
    if "reach m fn ?\<sigma>0 \<sigma>" "exec m \<sigma> i' = Some out" for \<sigma> out
  proof (rule fold_instr_exec[OF assms(5) _ _ that(2)])
    show "knows known (st_env \<sigma>)" using assms(3) that(1) by (simp add: sound_def)
    show "parse_int64 y = None" if y: "y \<in> dom (st_env \<sigma>) \<union> dom known" for y
      using y env_names[OF ssa args \<open>reach m fn ?\<sigma>0 \<sigma>\<close>] assms(3) ssa
      by (auto simp: sound_def ssa_def)
  qed
  have "i_result i'' = i_result i'" "i_op i'' = ''const''"
    using assms(5) by (auto simp: fold_instr_def as_constant_def split: if_splits option.splits)
  with run at have first: "stands_for m fn ?\<sigma>0 p k i''" by (auto simp: stands_for_def)
  have "dom known' \<subseteq> insert (v_name (i_result i')) (dom known)"
    using assms(5) by (auto simp: fold_instr_def split: if_splits option.splits)
  moreover have "v = IntV n" if \<sigma>: "reach m fn ?\<sigma>0 \<sigma>" and n: "known' x = Some n" and v: "st_env \<sigma> x = Some v"
    for \<sigma> x n v
  proof (cases "known x = Some n")
    case True
    then show ?thesis using assms(3) \<sigma> v by (auto simp: sound_def knows_def)
  next
    case False
    then have "x = v_name (i_result i')"
      using n assms(5) by (auto simp: fold_instr_def split: if_splits option.splits)
    with reach_origin[OF \<sigma>] v result_not_arg[OF ssa args at named(1)]
    have "made m fn ?\<sigma>0 (v_name (i_result i')) v" by (metis option.distinct(1))
    from made_by[OF ssa at this] obtain \<sigma>' s' where "reach m fn ?\<sigma>0 \<sigma>'" "exec m \<sigma>' i' = Some (Yield v s')"
      by blast
    from run[OF this] n False show ?thesis by auto
  qed
  moreover have "dom known \<subseteq> set (results fn)" using assms(3) by (simp add: sound_def)
  ultimately have "sound m fn ?\<sigma>0 known'"
    using named(2) unfolding sound_def knows_def by blast
  with first show ?thesis by blast
qed

definition stand_from :: "('v, 's) machine \<Rightarrow> func \<Rightarrow> ('v, 's) state \<Rightarrow> nat \<Rightarrow> nat \<Rightarrow> instr list \<Rightarrow> bool" where
  "stand_from m fn \<sigma>0 p k is \<longleftrightarrow> (\<forall>j<length is. stands_for m fn \<sigma>0 p (k + j) (is ! j))"

lemma stand_from_Cons [simp]:
  "stand_from m fn \<sigma>0 p k (i # is) \<longleftrightarrow> stands_for m fn \<sigma>0 p k i \<and> stand_from m fn \<sigma>0 p (Suc k) is"
  by (auto simp: stand_from_def less_Suc_eq_0_disj)

lemma fold_instrs_stand:
  assumes "ssa fn" and "args_for fn args"
  shows "sound m fn (start args s) known \<Longrightarrow> stand_from m fn (start args s) p k is \<Longrightarrow>
    fold_instrs is known = (is', known', changed) \<Longrightarrow>
    length is' = length is \<and> stand_from m fn (start args s) p k is' \<and> sound m fn (start args s) known'"
proof (induction "is" arbitrary: known k is' known' changed)
  case (Cons i "is")
  show ?case
  proof (cases "fold_instr i known")
    case None
    obtain is1 c1 ch1 where r: "fold_instrs is known = (is1, c1, ch1)" by (cases "fold_instrs is known")
    with Cons.IH[OF Cons.prems(1) _ r, of "Suc k"] Cons.prems None show ?thesis by auto
  next
    case (Some ic)
    obtain i1 c0 where ic: "ic = (i1, c0)" by (cases ic)
    with Some fold_instr_stands_for[OF assms Cons.prems(1), of p k i i1 c0] Cons.prems
    have i1: "stands_for m fn (start args s) p k i1" "sound m fn (start args s) c0" by auto
    obtain is1 c1 ch1 where r: "fold_instrs is c0 = (is1, c1, ch1)" by (cases "fold_instrs is c0")
    with Cons.IH[OF i1(2) _ r, of "Suc k"] Cons.prems Some ic i1 show ?thesis by auto
  qed
qed (auto simp: stand_from_def)

text \<open>The blocks of a sweep keep their names, ends and lengths.\<close>

definition stand_blocks :: "('v, 's) machine \<Rightarrow> func \<Rightarrow> ('v, 's) state \<Rightarrow> nat \<Rightarrow> block list \<Rightarrow> bool" where
  "stand_blocks m fn \<sigma>0 p bs \<longleftrightarrow> (\<forall>q<length bs. p + q < length (f_blocks fn) \<and>
     b_name (bs ! q) = b_name (f_blocks fn ! (p + q)) \<and> b_term (bs ! q) = b_term (f_blocks fn ! (p + q)) \<and>
     length (b_instrs (bs ! q)) = length (b_instrs (f_blocks fn ! (p + q))) \<and>
     stand_from m fn \<sigma>0 (p + q) 0 (b_instrs (bs ! q)))"

lemma stand_blocks_Cons [simp]:
  "stand_blocks m fn \<sigma>0 p (b # bs) \<longleftrightarrow> p < length (f_blocks fn) \<and>
     b_name b = b_name (f_blocks fn ! p) \<and> b_term b = b_term (f_blocks fn ! p) \<and>
     length (b_instrs b) = length (b_instrs (f_blocks fn ! p)) \<and>
     stand_from m fn \<sigma>0 p 0 (b_instrs b) \<and> stand_blocks m fn \<sigma>0 (Suc p) bs"
  by (auto simp: stand_blocks_def less_Suc_eq_0_disj)

lemma fold_blocks_stand:
  assumes "ssa fn" and "args_for fn args"
  shows "sound m fn (start args s) known \<Longrightarrow> stand_blocks m fn (start args s) p bs \<Longrightarrow>
    fold_blocks bs known = (bs', known', changed) \<Longrightarrow>
    length bs' = length bs \<and> stand_blocks m fn (start args s) p bs' \<and> sound m fn (start args s) known'"
proof (induction bs arbitrary: known p bs' known' changed)
  case (Cons b bs)
  obtain is1 c1 ch1 where r: "fold_instrs (b_instrs b) known = (is1, c1, ch1)"
    by (cases "fold_instrs (b_instrs b) known")
  obtain bs2 c2 ch2 where q: "fold_blocks bs c1 = (bs2, c2, ch2)" by (cases "fold_blocks bs c1")
  from Cons.prems(2) have "stand_from m fn (start args s) p 0 (b_instrs b)" by simp
  from fold_instrs_stand[OF assms Cons.prems(1) this r] Cons.IH[of c1 "Suc p", OF _ _ q] Cons.prems r q
  show ?case by auto
qed (auto simp: stand_blocks_def)

lemma fold_rounds_stand:
  assumes "ssa fn" and "args_for fn args"
  shows "sound m fn (start args s) known \<Longrightarrow> stand_blocks m fn (start args s) 0 bs \<Longrightarrow>
    length (fold_rounds bs known) = length bs \<and> stand_blocks m fn (start args s) 0 (fold_rounds bs known)"
proof (induction bs known rule: fold_rounds.induct)
  case (1 bs known)
  obtain bs1 c1 ch1 where r: "fold_blocks bs known = (bs1, c1, ch1)" by (cases "fold_blocks bs known")
  from fold_blocks_stand[OF assms "1.prems" r] "1.IH"[OF r[symmetric] refl] show ?case
    by (subst (1 2) fold_rounds.simps) (auto simp: r)
qed


section \<open>The pass preserves what a function computes\<close>

lemma recorded:
  "fold record_constant is known x = Some n \<Longrightarrow> known x = Some n \<or>
    (\<exists>i\<in>set is. i_op i = ''const'' \<and> v_type (i_result i) = ''i64'' \<and> v_name (i_result i) = x \<and>
      parse_int64 (i_immediate i) = Some n)"
proof (induction "is" arbitrary: known)
  case (Cons i "is")
  then have "record_constant i known x = Some n \<or> (\<exists>i\<in>set is. i_op i = ''const'' \<and>
      v_type (i_result i) = ''i64'' \<and> v_name (i_result i) = x \<and> parse_int64 (i_immediate i) = Some n)"
    by simp
  then show ?case by (auto simp: record_constant_def split: if_splits option.splits)
qed simp

lemma initial_constants_sound:
  assumes "ssa fn" and "args_for fn args"
  shows "sound m fn (start args s) (initial_constants fn)"
proof -
  have const: "\<exists>p k i. instr_at fn p k = Some i \<and> i_op i = ''const'' \<and> v_type (i_result i) = ''i64'' \<and>
      v_name (i_result i) = x \<and> x \<noteq> [] \<and> parse_int64 (i_immediate i) = Some n"
    if x: "initial_constants fn x = Some n" for x n
  proof -
    from recorded[OF x[unfolded initial_constants_def]] obtain i where i: "i \<in> set (all_instrs fn)"
      "i_op i = ''const''" "v_type (i_result i) = ''i64''" "v_name (i_result i) = x"
      "parse_int64 (i_immediate i) = Some n" by auto
    moreover have "x \<noteq> []" using assms(1) i by (auto simp: ssa_def)
    moreover obtain p k where "instr_at fn p k = Some i" using in_all_instrs[OF i(1)] by blast
    ultimately show ?thesis by blast
  qed
  have "v = IntV n" if \<sigma>: "reach m fn (start args s) \<sigma>" and x: "initial_constants fn x = Some n"
    and v: "st_env \<sigma> x = Some v" for \<sigma> x n v
  proof -
    from const[OF x] obtain p k i where i: "instr_at fn p k = Some i" "i_op i = ''const''"
      "v_type (i_result i) = ''i64''" "v_name (i_result i) = x" "x \<noteq> []"
      "parse_int64 (i_immediate i) = Some n" by blast
    from reach_origin[OF \<sigma>] v result_not_arg[OF assms i(1)] i(4,5)
    have "made m fn (start args s) (v_name (i_result i)) v" by (metis option.distinct(1))
    from made_by[OF assms(1) i(1) this] i(2,3,6) show ?thesis
      by (auto simp: exec_def fixed_value_def const_value_def split: option.splits)
  qed
  moreover have "dom (initial_constants fn) \<subseteq> set (results fn)"
    using const instr_at_result by blast
  ultimately show ?thesis by (auto simp: sound_def knows_def)
qed

lemma original_stands: "stand_blocks m fn \<sigma>0 0 (f_blocks fn)"
  by (auto simp: stand_blocks_def stand_from_def stands_for_def instr_at_def)

lemma constant_fold_stands:
  assumes "ssa fn" and "args_for fn args"
  shows "length (f_blocks (constant_fold_function fn)) = length (f_blocks fn) \<and>
    stand_blocks m fn (start args s) 0 (f_blocks (constant_fold_function fn))"
  using fold_rounds_stand[OF assms initial_constants_sound[OF assms] original_stands]
  by (simp add: constant_fold_function_def)

lemma stand_positions:
  assumes "stand_blocks m fn \<sigma>0 0 bs" and "length bs = length (f_blocks fn)"
  shows "map b_name bs = map b_name (f_blocks fn)"
  using assms by (auto simp: stand_blocks_def intro!: nth_equalityI)

lemma stand_step:
  assumes bs: "stand_blocks m fn \<sigma>0 0 (f_blocks fn')" "length (f_blocks fn') = length (f_blocks fn)"
    and "reach m fn \<sigma>0 \<sigma>" and "step m fn \<sigma> \<noteq> Stuck"
  shows "step m fn' \<sigma> = step m fn \<sigma>"
proof -
  have pos: "positions (f_blocks fn') = positions (f_blocks fn)"
    using stand_positions[OF bs] bs(2) by (simp add: positions_def)
  have lt: "st_block \<sigma> < length (f_blocks fn)" using assms(4) by (rule_tac ccontr) (simp add: step_def)
  let ?b = "f_blocks fn ! st_block \<sigma>" and ?b' = "f_blocks fn' ! st_block \<sigma>"
  have b: "b_name ?b' = b_name ?b" "b_term ?b' = b_term ?b" "length (b_instrs ?b') = length (b_instrs ?b)"
    "stand_from m fn \<sigma>0 (st_block \<sigma>) 0 (b_instrs ?b')"
    using bs lt by (auto simp: stand_blocks_def)
  show ?thesis
  proof (cases "current_instr fn \<sigma>")
    case None
    then have "current_instr fn' \<sigma> = None"
      using b(3) bs(2) by (auto simp: current_instr_def instr_at_def split: if_splits)
    moreover have "end_block m fn' \<sigma> = end_block m fn \<sigma>" by (rule end_block_same[OF pos b(1)])
    ultimately show ?thesis using None lt bs(2) b(2) by (simp add: step_end)
  next
    case (Some i)
    then obtain i' where i': "current_instr fn' \<sigma> = Some i'"
      using b(3) bs(2) by (auto simp: current_instr_def instr_at_def split: if_splits)
    with b(3,4) bs(2) have "stands_for m fn \<sigma>0 (st_block \<sigma>) (st_step \<sigma>) i'"
      by (auto simp: stand_from_def current_instr_Some)
    with Some assms(3) have res: "i_result i' = i_result i"
      and ex: "\<And>out. exec m \<sigma> i = Some out \<Longrightarrow> exec m \<sigma> i' = Some out"
      by (auto simp: stands_for_def current_instr_def)
    from assms(4) Some obtain out where "exec m \<sigma> i = Some out"
      by (auto simp: step_instr after_def split: option.splits)
    with ex[OF this] res show ?thesis
      by (simp add: step_instr[OF Some] step_instr[OF i'] after_result[OF res])
  qed
qed

definition fold_ok :: "('v, 's) machine \<Rightarrow> func \<Rightarrow> ('v, 's) state \<Rightarrow> bool" where
  "fold_ok m fn \<sigma> \<longleftrightarrow> ssa fn \<and> (\<exists>args s. args_for fn args \<and> reach m fn (start args s) \<sigma>)"

interpretation cfold: lockstep m constant_fold_function "fold_ok m" for m
proof
  fix fn \<sigma> \<tau>
  assume ok: "fold_ok m fn \<sigma>"
  then obtain args s where a: "ssa fn" "args_for fn args" "reach m fn (start args s) \<sigma>"
    by (auto simp: fold_ok_def)
  show "step m (constant_fold_function fn) \<sigma> = step m fn \<sigma>" if "step m fn \<sigma> \<noteq> Stuck"
    by (rule stand_step[OF _ _ a(3) that]) (use constant_fold_stands[OF a(1,2), of m s] in auto)
  show "fold_ok m fn \<tau>" if "step m fn \<sigma> = Go \<tau>"
    using a that by (auto simp: fold_ok_def intro: reach.further)
qed

text \<open>
  C1: constant folding preserves what a function computes. For a function in SSA form,
  whatever the operations left uninterpreted do, a call that returns a value and a
  memory within some number of steps returns the same after folding, within as many.
\<close>

theorem constant_fold_preserves:
  assumes "ssa fn" and "call_for n m fn vals s = Some r"
  shows "call_for n m (constant_fold_function fn) vals s = Some r"
proof -
  have "fold_ok m fn (start (call_env fn vals) s)"
    using assms(1) call_env_args_for by (auto simp: fold_ok_def intro: reach.here)
  moreover have "call_env (constant_fold_function fn) vals = (call_env fn vals :: 'a env)"
    by (simp add: call_env_def constant_fold_function_def)
  ultimately show ?thesis
    using cfold.run_preserved[where fn = fn and \<sigma> = "start (call_env fn vals) s"] assms(2) by (simp add: call_for_def)
qed


definition sum_example :: func where
  "sum_example = function_of [] ''i64''
     [block_of ''entry''
       [const_i64 ''%1'' ''5'', const_i64 ''%2'' ''7'',
        binary_i64 ''%3'' ''i64'' ''binary.-'' ''%1'' ''%2'', binary_i64 ''%4'' ''i64'' ''binary.*'' ''%3'' ''%2'']
       (return_of ''%4'' ''i64'')]"

theorem constant_fold_preserves_witness:
  "call_for 5 bare_machine (constant_fold_function sum_example) [] () =
      Some (IntV (- 14), ()) \<and>
   map i_op (all_instrs (constant_fold_function sum_example)) = [''const'', ''const'', ''const'', ''const'']"
proof
  have "ssa sum_example" by code_simp
  moreover have "call_for 5 bare_machine sum_example [] () = Some (IntV (- 14), ())"
    by code_simp
  ultimately show "call_for 5 bare_machine (constant_fold_function sum_example) [] () =
      Some (IntV (- 14), ())"
    by (rule constant_fold_preserves)
  show "map i_op (all_instrs (constant_fold_function sum_example)) = [''const'', ''const'', ''const'', ''const'']"
    by code_simp
qed

end
