(* ===== verification/Copy_Prop.thy ===== *)
theory Copy_Prop
  imports Ir_Sim
begin

text \<open>
  CopyPropagate (internal/ir/optimize.go): every read of an \<^verbatim>\<open>id\<close> instruction's
  result becomes a read of its source, in one walk over the blocks in their order.

  Reading the source instead of the copy is right only because definitions are on every
  path to their uses: otherwise a loop could give the source its next value while the
  copy still holds the last one. \<open>avoids\<close> says that a point can be reached without
  passing a given instruction; \<open>strict\<close> is the rule of Verify that no use is reached
  while avoiding the definition it reads.
\<close>

section \<open>The pass\<close>

type_synonym copies = "name \<rightharpoonup> ir_value"

definition replace_value :: "copies \<Rightarrow> ir_value \<Rightarrow> ir_value" where
  "replace_value cs v = (case cs (v_name v) of Some w \<Rightarrow> w | None \<Rightarrow> v)"

definition replace_args :: "copies \<Rightarrow> instr \<Rightarrow> instr" where
  "replace_args cs i = map_reads (replace_value cs) i"

definition replace_terminator_args :: "copies \<Rightarrow> terminator \<Rightarrow> terminator" where
  "replace_terminator_args cs t = map_term_reads (replace_value cs) t"

definition note_copy :: "instr \<Rightarrow> copies \<Rightarrow> copies" where
  "note_copy i cs =
     (if i_op i = ''id'' \<and> length (i_args i) = 1
      then cs(v_name (i_result i) \<mapsto> hd (i_args i)) else cs)"

primrec copy_instrs :: "instr list \<Rightarrow> copies \<Rightarrow> instr list \<times> copies" where
  "copy_instrs [] cs = ([], cs)"
| "copy_instrs (i # is) cs =
     (let i' = replace_args cs i; (is', cs') = copy_instrs is (note_copy i' cs) in (i' # is', cs'))"

primrec copy_blocks :: "block list \<Rightarrow> copies \<Rightarrow> block list" where
  "copy_blocks [] cs = []"
| "copy_blocks (b # bs) cs =
     (let (is', cs') = copy_instrs (b_instrs b) cs
      in b\<lparr>b_instrs := is', b_term := replace_terminator_args cs' (b_term b)\<rparr> # copy_blocks bs cs')"

definition copy_propagate_function :: "func \<Rightarrow> func" where
  "copy_propagate_function fn = fn\<lparr>f_blocks := copy_blocks (f_blocks fn) Map.empty\<rparr>"

definition copy_propagate :: "module \<Rightarrow> module" where
  "copy_propagate = map_functions copy_propagate_function"

section \<open>Points and dominance\<close>

type_synonym point = "nat \<times> nat"

definition edge :: "func \<Rightarrow> point \<Rightarrow> point \<Rightarrow> bool" where
  "edge fn u w \<longleftrightarrow> (case u of (p, k) \<Rightarrow> p < length (f_blocks fn) \<and>
     (if k < length (b_instrs (f_blocks fn ! p)) then w = (p, Suc k)
      else \<exists>target\<in>{t_target (b_term (f_blocks fn ! p)), t_else (b_term (f_blocks fn ! p))}.
             \<exists>q. positions (f_blocks fn) target = Some q \<and> w = (q, 0)))"

inductive avoids :: "func \<Rightarrow> point \<Rightarrow> point \<Rightarrow> bool" for fn d where
  entry: "avoids fn d (0, 0)"
| onward: "avoids fn d u \<Longrightarrow> u \<noteq> d \<Longrightarrow> edge fn u w \<Longrightarrow> avoids fn d w"

inductive reachable_point :: "func \<Rightarrow> point \<Rightarrow> bool" for fn where
  entry_point: "reachable_point fn (0, 0)"
| next_point: "reachable_point fn u \<Longrightarrow> edge fn u w \<Longrightarrow> reachable_point fn w"

text \<open>Of two points, one can be reached without passing the other.\<close>

lemma avoids_either:
  assumes "reachable_point fn u"
  shows "avoids fn d u \<or> avoids fn u d"
proof -
  have "(avoids fn d w \<and> avoids fn u w) \<or> avoids fn d u \<or> avoids fn u d" if "reachable_point fn w" for w
    using that
  proof (induction rule: reachable_point.induct)
    case (next_point v w)
    then show ?case by (cases "v = d"; cases "v = u") (auto intro: avoids.onward)
  qed (simp add: avoids.entry)
  from this[OF assms] show ?thesis by blast
qed

text \<open>Being passed on every path is transitive.\<close>

lemma avoids_through:
  assumes "avoids fn e u" and "\<not> avoids fn d u"
  shows "avoids fn e d"
  using assms
proof (induction rule: avoids.induct)
  case entry
  then show ?case by (simp add: avoids.entry)
next
  case (onward v w)
  show ?case
  proof (cases "avoids fn d v")
    case True
    with onward have "v = d" by (auto intro: avoids.onward)
    with onward show ?thesis by simp
  next
    case False
    with onward show ?thesis by simp
  qed
qed

definition point_of :: "('v, 's) state \<Rightarrow> point" where
  "point_of \<sigma> = (st_block \<sigma>, st_step \<sigma>)"

lemma step_edge:
  assumes "step m fn \<sigma> = Go \<tau>"
  shows "edge fn (point_of \<sigma>) (point_of \<tau>)"
  using assms
proof (cases rule: step_cases)
  case (instr i x s)
  then show ?thesis by (simp add: point_of_def edge_def current_instr_Some)
next
  case (jump target p)
  then have "\<not> st_step \<sigma> < length (b_instrs (f_blocks fn ! st_block \<sigma>))"
    by (auto simp: current_instr_def instr_at_def split: if_splits)
  with jump show ?thesis by (auto simp: point_of_def edge_def)
qed

lemma reach_point: "reach m fn (start args s) \<sigma> \<Longrightarrow> reachable_point fn (point_of \<sigma>)"
proof (induction rule: reach.induct)
  case here
  then show ?case by (simp add: point_of_def start_def entry_point)
next
  case (further \<sigma> \<tau>)
  then show ?case by (blast intro: next_point step_edge)
qed

section \<open>Strict functions\<close>

definition defined_before :: "func \<Rightarrow> name \<Rightarrow> point \<Rightarrow> bool" where
  "defined_before fn x u \<longleftrightarrow>
     (\<forall>p k i. instr_at fn p k = Some i \<longrightarrow> v_name (i_result i) = x \<longrightarrow> x \<noteq> [] \<longrightarrow> \<not> avoids fn (p, k) u)"

definition end_point :: "func \<Rightarrow> nat \<Rightarrow> point" where
  "end_point fn p = (p, length (b_instrs (f_blocks fn ! p)))"

definition strict :: "func \<Rightarrow> bool" where
  "strict fn \<longleftrightarrow>
     (\<forall>p k i. instr_at fn p k = Some i \<longrightarrow>
        (if i_op i = ''phi''
         then \<forall>inc\<in>set (i_incoming i). \<exists>q. positions (f_blocks fn) (in_block inc) = Some q \<and>
                defined_before fn (v_name (in_value inc)) (end_point fn q)
         else \<forall>v\<in>set (direct_reads i). defined_before fn (v_name v) (p, k))) \<and>
     (\<forall>p<length (f_blocks fn). \<forall>v\<in>set (term_reads (b_term (f_blocks fn ! p))).
        defined_before fn (v_name v) (end_point fn p))"

text \<open>Reads carry the type of the definition they read, and a copy that of its source.\<close>

definition consistent_types :: "func \<Rightarrow> bool" where
  "consistent_types fn \<longleftrightarrow>
     (\<forall>i\<in>set (all_instrs fn). v_name (i_result i) \<noteq> [] \<longrightarrow>
        (\<forall>j\<in>set (all_instrs fn). \<forall>v\<in>set (instr_reads j). v_name v = v_name (i_result i) \<longrightarrow>
           v_type v = v_type (i_result i)) \<and>
        (\<forall>b\<in>set (f_blocks fn). \<forall>v\<in>set (term_reads (b_term b)). v_name v = v_name (i_result i) \<longrightarrow>
           v_type v = v_type (i_result i)) \<and>
        (i_op i = ''id'' \<longrightarrow> (\<forall>a\<in>set (i_args i). v_type a = v_type (i_result i))))"

definition block_names_ok :: "func \<Rightarrow> bool" where
  "block_names_ok fn \<longleftrightarrow> distinct (map b_name (f_blocks fn)) \<and> [] \<notin> b_name ` set (f_blocks fn)"

definition copy_wf :: "func \<Rightarrow> bool" where
  "copy_wf fn \<longleftrightarrow> ssa fn \<and> strict fn \<and> consistent_types fn \<and> block_names_ok fn"

section \<open>A copy holds what its source holds\<close>

text \<open>Wherever the copy's instruction has been passed, both read the same.\<close>

definition same_value :: "('v, 's) machine \<Rightarrow> func \<Rightarrow> ('v, 's) state \<Rightarrow> instr \<Rightarrow> point \<Rightarrow> ir_value \<Rightarrow> bool" where
  "same_value m fn \<sigma>0 i d w \<longleftrightarrow>
     (\<forall>\<sigma>. reach m fn \<sigma>0 \<sigma> \<longrightarrow> \<not> avoids fn d (point_of \<sigma>) \<longrightarrow>
        (\<exists>v. st_env \<sigma> (v_name (i_result i)) = Some v \<and> operand m (st_env \<sigma>) w = Some v))"

lemma operand_bind_other:
  "v_name w \<noteq> v_name (i_result i) \<Longrightarrow> operand m (bind_result i x env) w = operand m env w"
  by (simp add: operand_def bind_result_def)

lemma id_exec:
  assumes "i_op i = ''id''" and "i_args i = [a]" and "exec m \<sigma> i = Some out"
  shows "\<exists>v. operand m (st_env \<sigma>) a = Some v \<and> out = Yield v (st_mem \<sigma>)"
  using assms by (auto simp: exec_def direct_reads_def fixed_value_def split: option.splits)

text \<open>A step elsewhere changes neither, when the source is defined before the copy.\<close>

lemma same_value_step:
  assumes ssa: "ssa fn" and at: "instr_at fn p k = Some i" and named: "v_name (i_result i) \<noteq> []"
    and before: "defined_before fn (v_name a) (p, k)"
    and \<sigma>: "reach m fn (start args s) \<sigma>" "step m fn \<sigma> = Go \<tau>"
    and elsewhere: "point_of \<sigma> \<noteq> (p, k)" and notav: "\<not> avoids fn (p, k) (point_of \<sigma>)"
    and v: "st_env \<sigma> (v_name (i_result i)) = Some v" "operand m (st_env \<sigma>) a = Some v"
  shows "st_env \<tau> (v_name (i_result i)) = Some v \<and> operand m (st_env \<tau>) a = Some v"
  using \<sigma>(2)
proof (cases rule: step_cases)
  case (jump target q)
  with v show ?thesis by simp
next
  case (instr j x s')
  have j: "instr_at fn (st_block \<sigma>) (st_step \<sigma>) = Some j" using instr(1) by (simp add: current_instr_def)
  have "v_name (i_result j) \<noteq> v_name (i_result i)"
    using ssa_unique[OF ssa at j] named elsewhere by (auto simp: point_of_def)
  moreover have "v_name (i_result j) = [] \<or> v_name (i_result j) \<noteq> v_name a"
  proof (rule ccontr)
    assume "\<not> ?thesis"
    with before j have "\<not> avoids fn (point_of \<sigma>) (p, k)"
      by (auto simp: defined_before_def point_of_def)
    with notav avoids_either[OF reach_point[OF \<sigma>(1)], of "(p, k)"] show False by blast
  qed
  ultimately show ?thesis using v instr(3)
    by (cases "v_name (i_result j) = []") (auto simp: bind_result_def operand_bind_other operand_def)
qed

lemma id_same_value:
  assumes ssa: "ssa fn" and at: "instr_at fn p k = Some i"
    and id: "i_op i = ''id''" "i_args i = [a]" and before: "defined_before fn (v_name a) (p, k)"
  shows "same_value m fn (start args s) i (p, k) a"
  unfolding same_value_def
proof (intro allI impI)
  fix \<sigma>
  have named: "v_name (i_result i) \<noteq> []" using ssa instr_at_all[OF at] id by (auto simp: ssa_def)
  assume "reach m fn (start args s) \<sigma>" and "\<not> avoids fn (p, k) (point_of \<sigma>)"
  then show "\<exists>v. st_env \<sigma> (v_name (i_result i)) = Some v \<and> operand m (st_env \<sigma>) a = Some v"
  proof (induction rule: reach.induct)
    case here
    then show ?case by (simp add: point_of_def start_def avoids.entry)
  next
    case (further \<sigma> \<tau>)
    show ?case
    proof (cases "point_of \<sigma> = (p, k)")
      case True
      then have cur: "current_instr fn \<sigma> = Some i" using at by (simp add: point_of_def current_instr_def)
      with further.hyps(2) obtain x s' where x: "exec m \<sigma> i = Some (Yield x s')"
        and \<tau>: "\<tau> = \<sigma>\<lparr>st_step := Suc (st_step \<sigma>), st_env := bind_result i x (st_env \<sigma>), st_mem := s'\<rparr>"
        by (auto simp: step_instr after_Go)
      from id_exec[OF id x] have "operand m (st_env \<sigma>) a = Some x" by simp
      with \<tau> named show ?thesis
        by (cases "v_name a = v_name (i_result i)") (auto simp: bind_result_def operand_def)
    next
      case elsewhere: False
      with further have notav: "\<not> avoids fn (p, k) (point_of \<sigma>)"
        by (meson avoids.onward step_edge)
      with further.IH obtain v where "st_env \<sigma> (v_name (i_result i)) = Some v"
        "operand m (st_env \<sigma>) a = Some v" by blast
      from same_value_step[OF ssa at named before further.hyps elsewhere notav this] show ?thesis by blast
    qed
  qed
qed

section \<open>The copies known at any time\<close>

definition copy_sound :: "('v, 's) machine \<Rightarrow> func \<Rightarrow> ('v, 's) state \<Rightarrow> copies \<Rightarrow> bool" where
  "copy_sound m fn \<sigma>0 cs \<longleftrightarrow>
     (\<forall>x w. cs x = Some w \<longrightarrow> (\<exists>p k i. instr_at fn p k = Some i \<and> v_name (i_result i) = x \<and> x \<noteq> [] \<and>
        v_type w = v_type (i_result i) \<and> same_value m fn \<sigma>0 i (p, k) w))"

lemma replace_value_type:
  assumes "copy_sound m fn \<sigma>0 cs"
    and "\<And>i. i \<in> set (all_instrs fn) \<Longrightarrow> v_name (i_result i) = v_name v \<Longrightarrow> v_name v \<noteq> [] \<Longrightarrow>
      v_type v = v_type (i_result i)"
  shows "v_type (replace_value cs v) = v_type v"
  using assms by (fastforce simp: replace_value_def copy_sound_def split: option.splits dest: instr_at_all)

lemma replace_value_operand:
  assumes "copy_sound m fn \<sigma>0 cs" and "reach m fn \<sigma>0 \<sigma>" and "defined_before fn (v_name v) (point_of \<sigma>)"
    and "operand m (st_env \<sigma>) v = Some x"
  shows "operand m (st_env \<sigma>) (replace_value cs v) = Some x"
proof (cases "cs (v_name v)")
  case None
  with assms(4) show ?thesis by (simp add: replace_value_def)
next
  case (Some w)
  with assms(1) obtain p k i where i: "instr_at fn p k = Some i" "v_name (i_result i) = v_name v" "v_name v \<noteq> []"
    "same_value m fn \<sigma>0 i (p, k) w" unfolding copy_sound_def by blast
  with assms(3) have "\<not> avoids fn (p, k) (point_of \<sigma>)" by (simp add: defined_before_def)
  with i assms(2) obtain y where "st_env \<sigma> (v_name v) = Some y" "operand m (st_env \<sigma>) w = Some y"
    by (auto simp: same_value_def)
  with assms(4) Some show ?thesis by (simp add: replace_value_def operand_def)
qed

text \<open>A copy of a copy is a copy of the first source.\<close>

lemma same_value_replaced:
  assumes "copy_sound m fn \<sigma>0 cs" and "same_value m fn \<sigma>0 i (p, k) a"
    and "defined_before fn (v_name a) (p, k)"
  shows "same_value m fn \<sigma>0 i (p, k) (replace_value cs a)"
  unfolding same_value_def
proof (intro allI impI)
  fix \<sigma>
  assume \<sigma>: "reach m fn \<sigma>0 \<sigma>" "\<not> avoids fn (p, k) (point_of \<sigma>)"
  then obtain v where v: "st_env \<sigma> (v_name (i_result i)) = Some v" "operand m (st_env \<sigma>) a = Some v"
    using assms(2) by (auto simp: same_value_def)
  have "defined_before fn (v_name a) (point_of \<sigma>)"
    using assms(3) \<sigma>(2) avoids_through unfolding defined_before_def by blast
  from replace_value_operand[OF assms(1) \<sigma>(1) this v(2)] v(1)
  show "\<exists>v. st_env \<sigma> (v_name (i_result i)) = Some v \<and> operand m (st_env \<sigma>) (replace_value cs a) = Some v"
    by blast
qed

lemma consistent_read:
  assumes "consistent_types fn" and "instr_at fn q j = Some u" and "v \<in> set (instr_reads u)"
    and "i \<in> set (all_instrs fn)" and "v_name (i_result i) = v_name v" and "v_name v \<noteq> []"
  shows "v_type v = v_type (i_result i)"
  using assms instr_at_all[OF assms(2)] unfolding consistent_types_def by metis

lemma note_copy_sound:
  assumes wf: "copy_wf fn" and at: "instr_at fn p k = Some i" and cs: "copy_sound m fn (start args s) cs"
  shows "copy_sound m fn (start args s) (note_copy (replace_args cs i) cs)"
proof (cases "i_op i = ''id'' \<and> length (i_args i) = 1")
  case True
  then obtain a where a: "i_op i = ''id''" "i_args i = [a]" by (auto simp: length_Suc_conv)
  have named: "v_name (i_result i) \<noteq> []"
    using wf instr_at_all[OF at] a by (auto simp: copy_wf_def ssa_def)
  have before: "defined_before fn (v_name a) (p, k)"
    using wf at a by (auto simp: copy_wf_def strict_def direct_reads_def)
  have "same_value m fn (start args s) i (p, k) a"
    using wf id_same_value[OF _ at a before] by (simp add: copy_wf_def)
  from same_value_replaced[OF cs this before]
  have same: "same_value m fn (start args s) i (p, k) (replace_value cs a)" .
  have "v_type (replace_value cs a) = v_type a"
  proof (rule replace_value_type[OF cs])
    fix j
    assume "j \<in> set (all_instrs fn)" "v_name (i_result j) = v_name a" "v_name a \<noteq> []"
    then show "v_type a = v_type (i_result j)"
      using consistent_read[OF _ at, of a j] wf a by (simp add: copy_wf_def instr_reads_def)
  qed
  moreover have "v_type a = v_type (i_result i)"
    using wf a named instr_at_all[OF at] by (auto simp: copy_wf_def consistent_types_def)
  ultimately have "note_copy (replace_args cs i) cs = cs(v_name (i_result i) \<mapsto> replace_value cs a)"
    "v_type (replace_value cs a) = v_type (i_result i)"
    using a by (simp_all add: note_copy_def replace_args_def map_reads_def)
  with cs at named same show ?thesis by (auto simp: copy_sound_def)
next
  case False
  then have "note_copy (replace_args cs i) cs = cs"
    by (auto simp: note_copy_def replace_args_def map_reads_def)
  with cs show ?thesis by simp
qed

section \<open>One rewritten instruction\<close>

lemma replace_args_simps [simp]:
  "i_op (replace_args cs i) = i_op i" "i_result (replace_args cs i) = i_result i"
  "i_immediate (replace_args cs i) = i_immediate i" "i_args (replace_args cs i) = map (replace_value cs) (i_args i)"
  "i_incoming (replace_args cs i) = map (map_incoming (replace_value cs)) (i_incoming i)"
  by (simp_all add: replace_args_def map_reads_def)

lemma replace_operands:
  assumes "copy_sound m fn \<sigma>0 cs" and "reach m fn \<sigma>0 \<sigma>"
    and "\<And>v. v \<in> set vs \<Longrightarrow> defined_before fn (v_name v) (point_of \<sigma>)"
    and "operands m (st_env \<sigma>) vs = Some xs"
  shows "operands m (st_env \<sigma>) (map (replace_value cs) vs) = Some xs"
  using assms(3,4)
proof (induction vs arbitrary: xs)
  case (Cons v vs)
  then show ?case
    using replace_value_operand[OF assms(1,2), of v] by (auto split: option.splits)
qed simp

lemma anonymous_replace:
  "v_type (replace_value cs v) = v_type v \<Longrightarrow> anonymous (replace_value cs v) = anonymous v"
  by (simp add: anonymous_def)

lemma shape_replace_args:
  assumes "\<And>v. v \<in> set (direct_reads i) \<Longrightarrow> v_type (replace_value cs v) = v_type v"
  shows "shape (replace_args cs i) = shape i"
proof -
  have "map anonymous (map (replace_value cs) (i_args i)) = map anonymous (i_args i)"
    using assms by (auto simp: direct_reads_def intro: anonymous_replace)
  moreover have "map (map_field_arg anonymous) (map (map_field_arg (replace_value cs)) (i_fields i)) =
      map (map_field_arg anonymous) (i_fields i)"
    using assms by (auto simp: direct_reads_def map_field_arg_def anonymous_replace)
  moreover have "map_cleanup anonymous (map_cleanup (replace_value cs) cl) = map_cleanup anonymous cl"
    if "cl \<in> set (i_cleanups i)" for cl
  proof -
    have "map (\<lambda>v. anonymous (replace_value cs v)) (cl_args cl) = map anonymous (cl_args cl)"
      using assms that by (intro map_cong refl anonymous_replace) (auto simp: direct_reads_def)
    then show ?thesis by (simp add: map_cleanup_def comp_def)
  qed
  then have "map (map_cleanup anonymous) (map (map_cleanup (replace_value cs)) (i_cleanups i)) =
      map (map_cleanup anonymous) (i_cleanups i)" by simp
  ultimately show ?thesis by (simp add: shape_def replace_args_def map_reads_def)
qed

lemma direct_reads_replace: "direct_reads (replace_args cs i) = map (replace_value cs) (direct_reads i)"
  by (simp add: direct_reads_def replace_args_def map_reads_def map_field_arg_def map_cleanup_def
      map_concat comp_def)

lemma fixed_value_replace:
  assumes "\<And>v. v \<in> set (i_args i) \<Longrightarrow> v_type (replace_value cs v) = v_type v"
  shows "fixed_value (replace_args cs i) vals = fixed_value i vals"
proof -
  have "list_all (\<lambda>a. v_type a = ''i64'') (map (replace_value cs) (i_args i)) =
      list_all (\<lambda>a. v_type a = ''i64'') (i_args i)"
    using assms by (auto simp: list_all_iff)
  then show ?thesis by (simp only: fixed_value_def const_value_def replace_args_simps)
qed

lemma find_map_incoming:
  "find (\<lambda>inc. in_block inc = b) (map (map_incoming f) incs) =
    map_option (map_incoming f) (find (\<lambda>inc. in_block inc = b) incs)"
  by (induction incs) (auto simp: map_incoming_def)

text \<open>Where the environment a block was entered with comes from.\<close>

definition entered :: "('v, 's) machine \<Rightarrow> func \<Rightarrow> ('v, 's) state \<Rightarrow> ('v, 's) state \<Rightarrow> bool" where
  "entered m fn \<sigma>0 \<sigma> \<longleftrightarrow> st_from \<sigma> = [] \<or>
     (\<exists>\<rho>. reach m fn \<sigma>0 \<rho> \<and> st_block \<rho> < length (f_blocks fn) \<and> point_of \<rho> = end_point fn (st_block \<rho>) \<and>
        b_name (f_blocks fn ! st_block \<rho>) = st_from \<sigma> \<and> st_env \<rho> = st_entry \<sigma>)"

lemma reach_entered:
  "reach m fn (start args s) \<sigma> \<Longrightarrow> entered m fn (start args s) \<sigma> \<and>
    (st_block \<sigma> < length (f_blocks fn) \<longrightarrow> st_step \<sigma> \<le> length (b_instrs (f_blocks fn ! st_block \<sigma>)))"
proof (induction rule: reach.induct)
  case here
  then show ?case by (simp add: entered_def start_def)
next
  case (further \<sigma> \<tau>)
  from further.hyps(2) show ?case
  proof (cases rule: step_cases)
    case (instr i x s')
    with further.IH show ?thesis by (auto simp: entered_def current_instr_Some)
  next
    case (jump target p)
    from jump(1,2) further.IH have "point_of \<sigma> = end_point fn (st_block \<sigma>)"
      by (auto simp: current_instr_def instr_at_def point_of_def end_point_def split: if_splits)
    with jump further.hyps(1) have "entered m fn (start args s) \<tau>"
      unfolding entered_def by (intro disjI2 exI[of _ \<sigma>]) auto
    with jump(5) show ?thesis by simp
  qed
qed

lemma replace_phi:
  assumes wf: "copy_wf fn" and at: "instr_at fn p k = Some i" and cs: "copy_sound m fn (start args s) cs"
    and \<sigma>: "reach m fn (start args s) \<sigma>" and phi: "i_op i = ''phi''" and x: "phi_value m \<sigma> i = Some x"
  shows "phi_value m \<sigma> (replace_args cs i) = Some x"
proof -
  from x obtain inc where inc: "find (\<lambda>inc. in_block inc = st_from \<sigma>) (i_incoming i) = Some inc"
    and x': "operand m (st_entry \<sigma>) (in_value inc) = Some x"
    by (auto simp: phi_value_def split: option.splits)
  from inc have mem: "inc \<in> set (i_incoming i)" "in_block inc = st_from \<sigma>" by (auto simp: find_Some_iff)
  from wf at phi mem obtain q where q: "positions (f_blocks fn) (st_from \<sigma>) = Some q"
    "defined_before fn (v_name (in_value inc)) (end_point fn q)"
    unfolding copy_wf_def strict_def by metis
  from positions_Some[OF q(1)] have "st_from \<sigma> \<in> b_name ` set (f_blocks fn)" by (metis imageI nth_mem)
  then have "st_from \<sigma> \<noteq> []" using wf by (auto simp: copy_wf_def block_names_ok_def)
  with reach_entered[OF \<sigma>] obtain \<rho> where \<rho>: "reach m fn (start args s) \<rho>" "st_block \<rho> < length (f_blocks fn)"
    "point_of \<rho> = end_point fn (st_block \<rho>)" "b_name (f_blocks fn ! st_block \<rho>) = st_from \<sigma>"
    "st_env \<rho> = st_entry \<sigma>" unfolding entered_def by blast
  have "q = st_block \<rho>"
    using q(1) \<rho>(2,4) positions_distinct[of "f_blocks fn" "st_block \<rho>"] wf
    by (simp add: copy_wf_def block_names_ok_def)
  with q(2) \<rho>(3) have "defined_before fn (v_name (in_value inc)) (point_of \<rho>)" by simp
  from replace_value_operand[OF cs \<rho>(1) this] x' \<rho>(5)
  have "operand m (st_entry \<sigma>) (replace_value cs (in_value inc)) = Some x" by simp
  with inc show ?thesis by (simp add: phi_value_def find_map_incoming) (simp add: map_incoming_def)
qed

lemma replace_exec:
  assumes wf: "copy_wf fn" and at: "current_instr fn \<sigma> = Some i" and cs: "copy_sound m fn (start args s) cs"
    and \<sigma>: "reach m fn (start args s) \<sigma>" and out: "exec m \<sigma> i = Some out"
  shows "exec m \<sigma> (replace_args cs i) = Some out"
proof (cases "i_op i = ''phi''")
  case True
  with replace_phi[OF wf at[unfolded current_instr_def] cs \<sigma> True] out show ?thesis
    by (auto simp: exec_def)
next
  case False
  have ty: "v_type (replace_value cs v) = v_type v" if "v \<in> set (direct_reads i)" for v
  proof (rule replace_value_type[OF cs])
    fix j
    assume "j \<in> set (all_instrs fn)" "v_name (i_result j) = v_name v" "v_name v \<noteq> []"
    then show "v_type v = v_type (i_result j)"
      using consistent_read[OF _ at[unfolded current_instr_def], of v j] wf that
      by (auto simp: copy_wf_def instr_reads_def direct_reads_def)
  qed
  have before: "defined_before fn (v_name v) (point_of \<sigma>)" if "v \<in> set (direct_reads i)" for v
    using wf at that False unfolding copy_wf_def strict_def current_instr_def point_of_def by metis
  from out False obtain vals where vals: "operands m (st_env \<sigma>) (direct_reads i) = Some vals"
    by (auto simp: exec_def split: option.splits)
  from replace_operands[OF cs \<sigma> before vals]
  have "operands m (st_env \<sigma>) (direct_reads (replace_args cs i)) = Some vals"
    by (simp add: direct_reads_replace)
  moreover have "fixed_value (replace_args cs i) ws = (fixed_value i ws :: 'a val option)" for ws
    using ty by (intro fixed_value_replace) (simp add: direct_reads_def)
  moreover have "shape (replace_args cs i) = shape i" using ty by (rule shape_replace_args)
  ultimately show ?thesis
    using out False vals by (simp add: exec_def split: option.splits)
qed

section \<open>The whole function\<close>

text \<open>Each place holds the original, rewritten with copies that are right.\<close>

definition copied :: "('v, 's) machine \<Rightarrow> func \<Rightarrow> ('v, 's) state \<Rightarrow> nat \<Rightarrow> block list \<Rightarrow> bool" where
  "copied m fn \<sigma>0 p bs \<longleftrightarrow> (\<forall>q<length bs. p + q < length (f_blocks fn) \<and>
     b_name (bs ! q) = b_name (f_blocks fn ! (p + q)) \<and>
     (\<exists>cs. copy_sound m fn \<sigma>0 cs \<and> b_term (bs ! q) = replace_terminator_args cs (b_term (f_blocks fn ! (p + q)))) \<and>
     length (b_instrs (bs ! q)) = length (b_instrs (f_blocks fn ! (p + q))) \<and>
     (\<forall>k<length (b_instrs (bs ! q)). \<exists>cs. copy_sound m fn \<sigma>0 cs \<and>
        b_instrs (bs ! q) ! k = replace_args cs (b_instrs (f_blocks fn ! (p + q)) ! k)))"

lemma copy_instrs_copied:
  assumes wf: "copy_wf fn"
  shows "copy_sound m fn (start args s) cs \<Longrightarrow> copy_instrs is cs = (is', cs') \<Longrightarrow>
    (\<And>j. j < length is \<Longrightarrow> instr_at fn p (k + j) = Some (is ! j)) \<Longrightarrow>
    copy_sound m fn (start args s) cs' \<and> length is' = length is \<and>
    (\<forall>j<length is. \<exists>cs. copy_sound m fn (start args s) cs \<and> is' ! j = replace_args cs (is ! j))"
proof (induction "is" arbitrary: cs k is' cs')
  case (Cons i "is")
  let ?cs = "note_copy (replace_args cs i) cs"
  obtain is1 cs1 where r: "copy_instrs is ?cs = (is1, cs1)" by (cases "copy_instrs is ?cs")
  have "instr_at fn p k = Some i" using Cons.prems(3)[of 0] by simp
  from note_copy_sound[OF wf this Cons.prems(1)] have cs: "copy_sound m fn (start args s) ?cs" .
  have "instr_at fn p (Suc k + j) = Some (is ! j)" if "j < length is" for j
    using Cons.prems(3)[of "Suc j"] that by simp
  from Cons.IH[OF cs r this] Cons.prems(1,2) r show ?case
    by (auto simp: Let_def less_Suc_eq_0_disj)
qed simp

lemma copy_blocks_copied:
  assumes wf: "copy_wf fn"
  shows "copy_sound m fn (start args s) cs \<Longrightarrow>
    (\<And>q. q < length bs \<Longrightarrow> p + q < length (f_blocks fn) \<and> bs ! q = f_blocks fn ! (p + q)) \<Longrightarrow>
    length (copy_blocks bs cs) = length bs \<and> copied m fn (start args s) p (copy_blocks bs cs)"
proof (induction bs arbitrary: cs p)
  case (Cons b bs)
  obtain is1 cs1 where r: "copy_instrs (b_instrs b) cs = (is1, cs1)" by (cases "copy_instrs (b_instrs b) cs")
  have b: "p < length (f_blocks fn)" "b = f_blocks fn ! p" using Cons.prems(2)[of 0] by auto
  then have "\<And>j. j < length (b_instrs b) \<Longrightarrow> instr_at fn p (0 + j) = Some (b_instrs b ! j)"
    by (simp add: instr_at_def)
  note is1 = copy_instrs_copied[OF wf Cons.prems(1) r this]
  have "Suc p + q < length (f_blocks fn) \<and> bs ! q = f_blocks fn ! (Suc p + q)" if "q < length bs" for q
    using Cons.prems(2)[of "Suc q"] that by simp
  from Cons.IH[OF _ this, of cs1] is1 b r show ?case
    by (auto simp: copied_def Let_def less_Suc_eq_0_disj)
qed (simp add: copied_def)

lemma copy_propagate_copied:
  assumes "copy_wf fn"
  shows "length (f_blocks (copy_propagate_function fn)) = length (f_blocks fn) \<and>
    copied m fn (start args s) 0 (f_blocks (copy_propagate_function fn))"
  using copy_blocks_copied[OF assms, of m args s Map.empty "f_blocks fn" 0]
  by (simp add: copy_propagate_function_def copy_sound_def)

lemma replace_end:
  assumes cs: "copy_sound m fn \<sigma>0 cs" and \<sigma>: "reach m fn \<sigma>0 \<sigma>"
    and before: "\<And>v. v \<in> set (term_reads t) \<Longrightarrow> defined_before fn (v_name v) (point_of \<sigma>)"
    and "end_block m fn \<sigma> t \<noteq> Stuck"
  shows "end_block m fn \<sigma> (replace_terminator_args cs t) = end_block m fn \<sigma> t"
proof -
  have "operand m (st_env \<sigma>) (replace_value cs v) = Some x"
    if "v \<in> set (term_reads t)" "operand m (st_env \<sigma>) v = Some x" for v x
    using replace_value_operand[OF cs \<sigma> before] that by blast
  with assms(4) show ?thesis
    by (auto simp: end_block_def replace_terminator_args_def map_term_reads_def term_reads_def
        split: if_splits option.splits val.splits)
qed

definition copy_ok :: "('v, 's) machine \<Rightarrow> func \<Rightarrow> ('v, 's) state \<Rightarrow> bool" where
  "copy_ok m fn \<sigma> \<longleftrightarrow> copy_wf fn \<and> (\<exists>args s. reach m fn (start args s) \<sigma>)"

lemma copied_step:
  assumes wf: "copy_wf fn" and \<sigma>: "reach m fn (start args s) \<sigma>" and "step m fn \<sigma> \<noteq> Stuck"
    and c: "length (f_blocks fn') = length (f_blocks fn)" "copied m fn (start args s) 0 (f_blocks fn')"
  shows "step m fn' \<sigma> = step m fn \<sigma>"
proof -
  let ?p = "st_block \<sigma>"
  have lt: "?p < length (f_blocks fn)" using assms(3) by (rule_tac ccontr) (simp add: step_def)
  have names: "map b_name (f_blocks fn') = map b_name (f_blocks fn)"
    using c by (auto simp: copied_def intro!: nth_equalityI)
  have pos: "positions (f_blocks fn') = positions (f_blocks fn)"
    using c(1) names by (simp add: positions_def)
  have b: "b_name (f_blocks fn' ! ?p) = b_name (f_blocks fn ! ?p)"
    "length (b_instrs (f_blocks fn' ! ?p)) = length (b_instrs (f_blocks fn ! ?p))"
    using c lt by (auto simp: copied_def)
  show ?thesis
  proof (cases "current_instr fn \<sigma>")
    case None
    obtain cs where cs: "copy_sound m fn (start args s) cs"
      "b_term (f_blocks fn' ! ?p) = replace_terminator_args cs (b_term (f_blocks fn ! ?p))"
      using c lt by (auto simp: copied_def)
    have "point_of \<sigma> = end_point fn ?p"
      using None lt reach_entered[OF \<sigma>]
      by (auto simp: current_instr_def instr_at_def point_of_def end_point_def split: if_splits)
    then have "defined_before fn (v_name v) (point_of \<sigma>)" if "v \<in> set (term_reads (b_term (f_blocks fn ! ?p)))" for v
      using wf lt that by (simp add: copy_wf_def strict_def)
    from replace_end[OF cs(1) \<sigma> this] assms(3) None lt
    have "end_block m fn \<sigma> (b_term (f_blocks fn' ! ?p)) = end_block m fn \<sigma> (b_term (f_blocks fn ! ?p))"
      by (simp add: step_end cs(2))
    moreover have "current_instr fn' \<sigma> = None"
      using None b(2) c(1) by (auto simp: current_instr_def instr_at_def split: if_splits)
    ultimately show ?thesis
      using None lt c(1) end_block_same[OF pos b(1), of m] by (simp add: step_end)
  next
    case (Some i)
    then obtain i' where i': "current_instr fn' \<sigma> = Some i'"
      using b(2) c(1) by (auto simp: current_instr_def instr_at_def split: if_splits)
    have "\<forall>k<length (b_instrs (f_blocks fn' ! ?p)). \<exists>cs. copy_sound m fn (start args s) cs \<and>
        b_instrs (f_blocks fn' ! ?p) ! k = replace_args cs (b_instrs (f_blocks fn ! ?p) ! k)"
      using c lt by (simp add: copied_def)
    with i' Some obtain cs where cs: "copy_sound m fn (start args s) cs" "i' = replace_args cs i"
      by (auto simp: current_instr_Some)
    from assms(3) Some obtain out where out: "exec m \<sigma> i = Some out"
      by (auto simp: step_instr after_def split: option.splits)
    from replace_exec[OF wf Some cs(1) \<sigma> out] out cs(2) show ?thesis
      by (simp add: step_instr[OF Some] step_instr[OF i'] after_result[of "replace_args cs i" i])
  qed
qed

interpretation cprop: lockstep m copy_propagate_function "copy_ok m" for m
proof
  fix fn \<sigma> \<tau>
  assume ok: "copy_ok m fn \<sigma>"
  then obtain args s where a: "copy_wf fn" "reach m fn (start args s) \<sigma>" by (auto simp: copy_ok_def)
  show "step m (copy_propagate_function fn) \<sigma> = step m fn \<sigma>" if "step m fn \<sigma> \<noteq> Stuck"
    by (rule copied_step[OF a that]) (simp_all add: copy_propagate_copied[OF a(1)])
  show "copy_ok m fn \<tau>" if "step m fn \<sigma> = Go \<tau>"
    using a that by (auto simp: copy_ok_def intro: reach.further)
qed

lemma copies_preserved:
  assumes "copy_wf fn" and "call_for n m fn vals s = Some r"
  shows "call_for n m (copy_propagate_function fn) vals s = Some r"
proof -
  have "copy_ok m fn (start (call_env fn vals) s)"
    using assms(1) by (auto simp: copy_ok_def intro: reach.here)
  moreover have "call_env (copy_propagate_function fn) vals = (call_env fn vals :: 'a env)"
    by (simp add: call_env_def copy_propagate_function_def)
  ultimately show ?thesis
    using cprop.run_preserved[where fn = fn and \<sigma> = "start (call_env fn vals) s"] assms(2)
    by (simp add: call_for_def)
qed

text \<open>
  C2: copy propagation preserves what a function computes. For a function in SSA form
  whose definitions are on every path to their uses, a call that returns a value and a
  memory within some number of steps returns the same afterwards, within as many,
  whatever the operations left uninterpreted do.
\<close>

theorem copy_propagate_preserves:
  assumes "copy_wf fn" and "call_for n m fn vals s = Some r"
  shows "call_for n m (copy_propagate_function fn) vals s = Some r"
  using assms by (rule copies_preserved)

text \<open>One block that does not loop is strict when each definition comes before its reads.\<close>

definition straight :: "func \<Rightarrow> bool" where
  "straight fn \<longleftrightarrow> (case f_blocks fn of
     [b] \<Rightarrow> b_name b \<notin> {t_target (b_term b), t_else (b_term b)} \<and>
       (\<forall>k\<in>{0..<length (b_instrs b)}. i_op (b_instrs b ! k) \<noteq> ''phi'' \<and>
         (\<forall>v\<in>set (direct_reads (b_instrs b ! k)). \<forall>j\<in>{0..<length (b_instrs b)}.
            v_name (i_result (b_instrs b ! j)) = v_name v \<longrightarrow> j < k))
   | _ \<Rightarrow> False)"

lemma straight_avoids:
  assumes "f_blocks fn = [b]" and "b_name b \<notin> {t_target (b_term b), t_else (b_term b)}"
    and "avoids fn (0, k) u"
  shows "fst u = 0 \<and> snd u \<le> k"
  using assms(3)
proof (induction rule: avoids.induct)
  case (onward u w)
  then show ?case using assms(1,2)
    by (cases u) (auto simp: edge_def split: if_splits dest!: positions_Some)
qed simp

lemma straight_strict: "straight fn \<Longrightarrow> strict fn"
proof -
  assume s: "straight fn"
  then obtain b where b: "f_blocks fn = [b]" "b_name b \<notin> {t_target (b_term b), t_else (b_term b)}"
    by (auto simp: straight_def split: list.splits)
  from s b(1) have k: "i_op (b_instrs b ! k) \<noteq> ''phi''" "v \<in> set (direct_reads (b_instrs b ! k)) \<Longrightarrow>
      j < length (b_instrs b) \<Longrightarrow> v_name (i_result (b_instrs b ! j)) = v_name v \<Longrightarrow> j < k"
    if "k < length (b_instrs b)" for k v j
    using that by (auto simp: straight_def)
  have av: "\<not> avoids fn (0, j) (0, k)" if "j < k" for j k
    using straight_avoids[OF b, of j "(0, k)"] that by auto
  show ?thesis unfolding strict_def
  proof (intro conjI allI impI)
    fix p n i
    assume "instr_at fn p n = Some i"
    then have i: "p = 0" "n < length (b_instrs b)" "i = b_instrs b ! n"
      using b(1) by (auto simp: instr_at_def split: if_splits)
    have "defined_before fn (v_name v) (p, n)" if "v \<in> set (direct_reads i)" for v
      unfolding defined_before_def
    proof (intro allI impI)
      fix p' j i'
      assume "instr_at fn p' j = Some i'" "v_name (i_result i') = v_name v"
      then have "p' = 0" "j < length (b_instrs b)" "v_name (i_result (b_instrs b ! j)) = v_name v"
        using b(1) by (auto simp: instr_at_def split: if_splits)
      with k(2)[OF i(2), of v j] that i av show "\<not> avoids fn (p', j) (p, n)" by simp
    qed
    with k(1)[OF i(2)] i(3) show "if i_op i = ''phi''
       then \<forall>inc\<in>set (i_incoming i). \<exists>q. positions (f_blocks fn) (in_block inc) = Some q \<and>
              defined_before fn (v_name (in_value inc)) (end_point fn q)
       else \<forall>v\<in>set (direct_reads i). defined_before fn (v_name v) (p, n)" by simp
  next
    fix p
    assume p: "p < length (f_blocks fn)"
    have "\<not> avoids fn (p', j) (end_point fn p)" if "instr_at fn p' j = Some i'" for p' j i'
      using that p b(1) av by (auto simp: instr_at_def end_point_def split: if_splits)
    then show "\<forall>v\<in>set (term_reads (b_term (f_blocks fn ! p))). defined_before fn (v_name v) (end_point fn p)"
      by (auto simp: defined_before_def)
  qed
qed

definition copy_example :: func where
  "copy_example = function_of [\<lparr>p_name = ''a'', p_type = ''i64'', p_passing = PassValue\<rparr>] ''i64''
     [block_of ''entry''
       [(new_instr (typed ''%1'' ''i64'') ''id'')\<lparr>i_args := [typed ''a'' ''i64'']\<rparr>,
        (new_instr (typed ''%2'' ''i64'') ''id'')\<lparr>i_args := [typed ''%1'' ''i64'']\<rparr>,
        binary_i64 ''%3'' ''i64'' ''binary.+'' ''%2'' ''%1'']
       (return_of ''%3'' ''i64'')]"

theorem copy_propagate_preserves_witness:
  "call_for 4 bare_machine (copy_propagate_function copy_example) [IntV 21] () = Some (IntV 42, ()) \<and>
   map (map v_name \<circ> i_args) (all_instrs (copy_propagate_function copy_example)) = [[''a''], [''a''], [''a'', ''a'']]"
proof
  have "ssa copy_example" "consistent_types copy_example" "block_names_ok copy_example" by code_simp+
  moreover have "straight copy_example" by code_simp
  ultimately have "copy_wf copy_example" by (simp add: copy_wf_def straight_strict)
  moreover have "call_for 4 bare_machine copy_example [IntV 21] () = Some (IntV 42, ())" by code_simp
  ultimately show "call_for 4 bare_machine (copy_propagate_function copy_example) [IntV 21] () = Some (IntV 42, ())"
    by (rule copy_propagate_preserves)
  show "map (map v_name \<circ> i_args) (all_instrs (copy_propagate_function copy_example)) =
      [[''a''], [''a''], [''a'', ''a'']]"
    by code_simp
qed

end
