(* ===== verification/Thin.thy ===== *)
theory Thin
  imports Ir_Sim
begin

text \<open>
  What passes share that drop instructions of a block and rewrite the ones they keep:
  DeadCodeEliminate (internal/ir/optimize.go), and foldKnownResults and foldTrivialPhis
  (internal/ir/simplify.go). The locale \<open>thinning\<close> states what such a pass owes: a dropped
  instruction computes only its result, which nothing kept reads, and a rewritten one does
  what the original did. It then preserves every run.
\<close>

section \<open>Environments that agree on what is read\<close>

definition agree :: "name set \<Rightarrow> 'v env \<Rightarrow> 'v env \<Rightarrow> bool" where
  "agree X env env' \<longleftrightarrow> (\<forall>x\<in>X. env x = env' x)"

lemma operand_agree: "agree X env env' \<Longrightarrow> v_name v \<in> X \<Longrightarrow> operand m env' v = operand m env v"
  by (simp add: operand_def agree_def)

lemma operands_agree:
  "agree X env env' \<Longrightarrow> v_name ` set vs \<subseteq> X \<Longrightarrow> operands m env' vs = operands m env vs"
  by (induction vs) (auto simp: operand_agree[of X env env' _ m] split: option.splits)

lemma exec_agree:
  assumes "agree X (st_env \<sigma>) (st_env \<sigma>')" and "agree X (st_entry \<sigma>) (st_entry \<sigma>')"
    and "st_from \<sigma>' = st_from \<sigma>" and "st_mem \<sigma>' = st_mem \<sigma>" and "v_name ` set (instr_reads i) \<subseteq> X"
  shows "exec m \<sigma>' i = exec m \<sigma> i"
proof -
  have "v_name (in_value inc) \<in> X" if "find P (i_incoming i) = Some inc" for P inc
    using that assms(5) by (auto simp: instr_reads_def find_Some_iff)
  then have "phi_value m \<sigma>' i = phi_value m \<sigma> i"
    using assms(2,3) by (auto simp: phi_value_def operand_agree[of X] split: option.splits)
  moreover have "operands m (st_env \<sigma>') (direct_reads i) = operands m (st_env \<sigma>) (direct_reads i)"
    using assms(1,5) by (intro operands_agree) (auto simp: direct_reads_def instr_reads_def)
  ultimately show ?thesis by (simp only: exec_def assms(4))
qed

lemma agree_bind:
  "agree X env env' \<Longrightarrow> i_result i' = i_result i \<Longrightarrow> agree X (bind_result i x env) (bind_result i' x env')"
  by (simp add: agree_def bind_result_def)

lemma agree_bind_unused:
  "agree X env env' \<Longrightarrow> v_name (i_result i) \<notin> X \<Longrightarrow> agree X (bind_result i x env) env'"
  by (auto simp: agree_def bind_result_def)

lemma filter_nth_count:
  "k < length xs \<Longrightarrow> P (xs ! k) \<Longrightarrow>
    length (filter P (take k xs)) < length (filter P xs) \<and> filter P xs ! length (filter P (take k xs)) = xs ! k"
  by (induction xs arbitrary: k) (auto simp: nth_Cons' take_Cons' split: if_splits)

lemma filter_take_Suc:
  "k < length xs \<Longrightarrow>
    length (filter P (take (Suc k) xs)) = length (filter P (take k xs)) + (if P (xs ! k) then 1 else 0)"
  by (simp add: take_Suc_conv_app_nth)

section \<open>Thinned functions\<close>

definition thin :: "(instr \<Rightarrow> bool) \<Rightarrow> (instr \<Rightarrow> instr) \<Rightarrow> (terminator \<Rightarrow> terminator) \<Rightarrow> func \<Rightarrow> func" where
  "thin keep g t fn =
     fn\<lparr>f_blocks := map (\<lambda>b. b\<lparr>b_instrs := map g (filter keep (b_instrs b)), b_term := t (b_term b)\<rparr>) (f_blocks fn)\<rparr>"

lemma thin_blocks [simp]:
  "length (f_blocks (thin keep g t fn)) = length (f_blocks fn)"
  "p < length (f_blocks fn) \<Longrightarrow> f_blocks (thin keep g t fn) ! p =
     (f_blocks fn ! p)\<lparr>b_instrs := map g (filter keep (b_instrs (f_blocks fn ! p))), b_term := t (b_term (f_blocks fn ! p))\<rparr>"
  "positions (f_blocks (thin keep g t fn)) = positions (f_blocks fn)"
  "f_params (thin keep g t fn) = f_params fn"
  by (simp_all add: thin_def positions_def comp_def)

lemma thin_call_env [simp]: "call_env (thin keep g t fn) vals = call_env fn vals"
  by (simp add: call_env_def)

text \<open>What of a terminator decides the next block and the value returned.\<close>

definition same_term :: "('v, 's) machine \<Rightarrow> 'v env \<Rightarrow> 'v env \<Rightarrow> terminator \<Rightarrow> terminator \<Rightarrow> bool" where
  "same_term m env env' t t' \<longleftrightarrow>
     t_op t' = t_op t \<and> t_target t' = t_target t \<and> t_else t' = t_else t \<and>
     (\<forall>x. operand m env (t_cond t) = Some x \<longrightarrow> operand m env' (t_cond t') = Some x) \<and>
     (\<forall>x. operand m env (t_value t) = Some x \<longrightarrow> operand m env' (t_value t') = Some x)"

definition alike :: "name set \<Rightarrow> ('v, 's) state \<Rightarrow> ('v, 's) state \<Rightarrow> bool" where
  "alike X \<sigma> \<sigma>' \<longleftrightarrow> st_block \<sigma>' = st_block \<sigma> \<and> st_from \<sigma>' = st_from \<sigma> \<and> st_mem \<sigma>' = st_mem \<sigma> \<and>
     agree X (st_env \<sigma>) (st_env \<sigma>') \<and> agree X (st_entry \<sigma>) (st_entry \<sigma>')"

locale thinning =
  fixes m :: "('v, 's) machine" and fn :: func
    and keep :: "instr \<Rightarrow> bool" and g :: "instr \<Rightarrow> instr" and t :: "terminator \<Rightarrow> terminator"
    and X :: "name set" and ok :: "('v, 's) state \<Rightarrow> bool"
  assumes ok_step: "ok \<sigma> \<Longrightarrow> step m fn \<sigma> = Go \<tau> \<Longrightarrow> ok \<tau>"
    and dropped: "ok \<sigma> \<Longrightarrow> current_instr fn \<sigma> = Some i \<Longrightarrow> \<not> keep i \<Longrightarrow> exec m \<sigma> i = Some out \<Longrightarrow>
      (\<exists>x. out = Yield x (st_mem \<sigma>)) \<and> v_name (i_result i) \<notin> X"
    and kept: "ok \<sigma> \<Longrightarrow> current_instr fn \<sigma> = Some i \<Longrightarrow> keep i \<Longrightarrow> exec m \<sigma> i = Some out \<Longrightarrow>
      alike X \<sigma> \<sigma>' \<Longrightarrow> exec m \<sigma>' (g i) = Some out \<and> i_result (g i) = i_result i"
    and ended: "ok \<sigma> \<Longrightarrow> current_instr fn \<sigma> = None \<Longrightarrow> st_block \<sigma> < length (f_blocks fn) \<Longrightarrow>
      agree X (st_env \<sigma>) env' \<Longrightarrow>
      same_term m (st_env \<sigma>) env' (b_term (f_blocks fn ! st_block \<sigma>)) (t (b_term (f_blocks fn ! st_block \<sigma>)))"
begin

definition thin_sim :: "('v, 's) state \<Rightarrow> ('v, 's) state \<Rightarrow> bool" where
  "thin_sim \<sigma> \<sigma>' \<longleftrightarrow> ok \<sigma> \<and> alike X \<sigma> \<sigma>' \<and>
     (st_block \<sigma> < length (f_blocks fn) \<longrightarrow> st_step \<sigma>' =
       length (filter keep (take (st_step \<sigma>) (b_instrs (f_blocks fn ! st_block \<sigma>)))))"

lemma thin_current:
  assumes "thin_sim \<sigma> \<sigma>'" and "st_block \<sigma> < length (f_blocks fn)"
  shows "current_instr fn \<sigma> = None \<Longrightarrow> current_instr (thin keep g t fn) \<sigma>' = None"
    and "current_instr fn \<sigma> = Some i \<Longrightarrow> keep i \<Longrightarrow> current_instr (thin keep g t fn) \<sigma>' = Some (g i)"
proof -
  let ?is = "b_instrs (f_blocks fn ! st_block \<sigma>)"
  have \<sigma>': "st_block \<sigma>' = st_block \<sigma>" "st_step \<sigma>' = length (filter keep (take (st_step \<sigma>) ?is))"
    using assms by (auto simp: thin_sim_def alike_def)
  show "current_instr (thin keep g t fn) \<sigma>' = None" if "current_instr fn \<sigma> = None"
  proof -
    from that assms(2) have "length ?is \<le> st_step \<sigma>"
      by (auto simp: current_instr_def instr_at_def split: if_splits)
    then show ?thesis using \<sigma>' assms(2) by (simp add: current_instr_def instr_at_def)
  qed
  show "current_instr (thin keep g t fn) \<sigma>' = Some (g i)" if "current_instr fn \<sigma> = Some i" "keep i"
    using that \<sigma>' assms(2) filter_nth_count[of "st_step \<sigma>" ?is keep]
    by (auto simp: current_instr_Some)
qed

lemma thin_end:
  assumes sim: "thin_sim \<sigma> \<sigma>'" and lt: "st_block \<sigma> < length (f_blocks fn)"
    and none: "current_instr fn \<sigma> = None" and "end_block m fn \<sigma> (b_term (f_blocks fn ! st_block \<sigma>)) \<noteq> Stuck"
  shows "end_block m (thin keep g t fn) \<sigma>' (t (b_term (f_blocks fn ! st_block \<sigma>))) =
    (case end_block m fn \<sigma> (b_term (f_blocks fn ! st_block \<sigma>)) of
       Go \<tau> \<Rightarrow> Go (\<tau>\<lparr>st_entry := st_env \<sigma>', st_env := st_env \<sigma>'\<rparr>) | r \<Rightarrow> r)"
proof -
  let ?t = "b_term (f_blocks fn ! st_block \<sigma>)"
  have same: "same_term m (st_env \<sigma>) (st_env \<sigma>') ?t (t ?t)" and mem: "st_mem \<sigma>' = st_mem \<sigma>"
    using ended[OF _ none lt] sim by (simp_all add: thin_sim_def alike_def)
  have goto: "goto (thin keep g t fn) \<sigma>' x =
      (case goto fn \<sigma> x of Go \<tau> \<Rightarrow> Go (\<tau>\<lparr>st_entry := st_env \<sigma>', st_env := st_env \<sigma>'\<rparr>) | r \<Rightarrow> r)" for x
    using sim lt by (auto simp: goto_def thin_sim_def alike_def split: option.splits)
  from assms(4) same mem show ?thesis
    unfolding end_block_def goto same_term_def
    by (auto split: if_splits option.splits val.splits)
qed

lemma thin_go:
  assumes sim: "thin_sim \<sigma> \<sigma>'" and go: "step m fn \<sigma> = Go \<tau>"
  shows "thin_sim \<tau> \<sigma>' \<or> (\<exists>\<tau>'. step m (thin keep g t fn) \<sigma>' = Go \<tau>' \<and> thin_sim \<tau> \<tau>')"
  using go
proof (cases rule: step_cases)
  case (instr i x s)
  note lt = instr(1)[unfolded current_instr_Some]
  have ok: "ok \<sigma>" "ok \<tau>" and alike: "alike X \<sigma> \<sigma>'" using sim go ok_step by (auto simp: thin_sim_def)
  show ?thesis
  proof (cases "keep i")
    case True
    let ?\<tau>' = "\<sigma>'\<lparr>st_step := Suc (st_step \<sigma>'), st_env := bind_result (g i) x (st_env \<sigma>'), st_mem := s\<rparr>"
    have g: "exec m \<sigma>' (g i) = Some (Yield x s)" "i_result (g i) = i_result i"
      using kept[OF ok(1) instr(1) True instr(2) alike] by auto
    have "step m (thin keep g t fn) \<sigma>' = Go ?\<tau>'"
      using thin_current(2)[OF sim _ instr(1) True] lt g(1) by (simp add: step_instr after_def)
    moreover have "thin_sim \<tau> ?\<tau>'"
      using sim ok instr(3) lt True g(2) by (auto simp: thin_sim_def alike_def filter_take_Suc agree_bind)
    ultimately show ?thesis by blast
  next
    case False
    have "s = st_mem \<sigma>" "v_name (i_result i) \<notin> X" using dropped[OF ok(1) instr(1) False instr(2)] by auto
    then have "thin_sim \<tau> \<sigma>'"
      using sim ok instr(3) lt False by (auto simp: thin_sim_def alike_def filter_take_Suc agree_bind_unused)
    then show ?thesis by blast
  qed
next
  case (jump target p)
  let ?\<tau>' = "\<tau>\<lparr>st_entry := st_env \<sigma>', st_env := st_env \<sigma>'\<rparr>"
  have e: "end_block m fn \<sigma> (b_term (f_blocks fn ! st_block \<sigma>)) = Go \<tau>"
    using jump(1,2) go by (simp add: step_end)
  have "step m (thin keep g t fn) \<sigma>' = Go ?\<tau>'"
    using thin_current(1)[OF sim jump(2,1)] thin_end[OF sim jump(2,1)] e sim jump(2)
    by (simp add: step_end thin_sim_def alike_def)
  moreover have "thin_sim \<tau> ?\<tau>'" using sim jump(5) ok_step[OF _ go] by (auto simp: thin_sim_def alike_def)
  ultimately show ?thesis by blast
qed

lemma thin_done:
  assumes sim: "thin_sim \<sigma> \<sigma>'" and "step m fn \<sigma> = Done x s"
  shows "step m (thin keep g t fn) \<sigma>' = Done x s"
proof (cases "current_instr fn \<sigma>")
  case None
  then have lt: "st_block \<sigma> < length (f_blocks fn)"
    and "end_block m fn \<sigma> (b_term (f_blocks fn ! st_block \<sigma>)) = Done x s"
    using assms(2) by (auto simp: step_end split: if_splits)
  with thin_end[OF sim lt None] thin_current(1)[OF sim lt None] sim show ?thesis
    by (simp add: step_end thin_sim_def alike_def)
next
  case (Some i)
  with assms(2) have leaves: "exec m \<sigma> i = Some (Leave x s)"
    by (auto simp: step_instr after_def split: option.splits outcome.splits)
  have ok: "ok \<sigma>" "alike X \<sigma> \<sigma>'" using sim by (auto simp: thin_sim_def)
  have "keep i" using dropped[OF ok(1) Some _ leaves] by auto
  with thin_current(2)[OF sim _ Some] Some kept[OF ok(1) Some _ leaves ok(2)] show ?thesis
    by (simp add: current_instr_Some[of fn] step_instr after_def)
qed

end

sublocale thinning \<subseteq> simulation m "\<lambda>_. thin keep g t fn" "\<lambda>fn' \<sigma> \<sigma>'. fn' = fn \<and> thin_sim \<sigma> \<sigma>'"
  by unfold_locales (use thin_go thin_done in blast)+

context thinning
begin

lemma call_preserved:
  assumes "ok (start (call_env fn vals) s)" and "call_for n m fn vals s = Some r"
  shows "call_for n m (thin keep g t fn) vals s = Some r"
proof -
  have "thin_sim (start (call_env fn vals) s) (start (call_env fn vals) s)"
    using assms(1) by (simp add: thin_sim_def alike_def start_def agree_def)
  then show ?thesis using run_preserved[of fn] assms(2) by (simp add: call_for_def)
qed

end

end
