(* ===== verification/Dead_Code.thy ===== *)
theory Dead_Code
  imports Thin
begin

text \<open>
  DeadCodeEliminate (internal/ir/optimize.go): which operations only compute their
  result, and the removal of those whose result nothing reads. The names read are
  collected once, from the function as it was, so what only removed instructions read
  stays until the next run.
\<close>

section \<open>The pass\<close>

definition pure_ops :: "string list" where
  "pure_ops =
     [''const'', ''id'', ''phi'', ''cast'', ''struct.new'', ''local.slot'', ''ref.load'',
      ''opt.null'', ''opt.some'', ''opt.has'', ''opt.value'', ''ptr.has'', ''ptr.value'',
      ''error.ok'', ''error.error'', ''error.has'', ''error.value'', ''error.code'',
      ''union.new'', ''union.tag'', ''union.payload'', ''union.payload_ref'', ''union.load'',
      ''slice.len'', ''slice.index'', ''slice.compare'', ''slice.slice'', ''slice.ptr'', ''slice.from_ptr'',
      ''ptr.offset'',
      ''buffer.new'', ''buffer.as_bytes'',
      ''float.bits'', ''float.from_bits'', ''float.sqrt'', ''float.floor'', ''float.ceil'', ''float.trunc'',
      ''float.fma'', ''table.get'', ''vector.new'', ''vector.lane'',
      ''box.borrow'', ''box.borrow_mut'',
      ''array.new'', ''array.len'', ''array.capacity'', ''array.get'', ''array.at'', ''array.at_mut'',
      ''array.as_bytes'', ''map.new'', ''map.len'', ''map.get'', ''map.contains'', ''map.at'',
      ''map.at_mut'', ''map.key_at'', ''arena.new'', ''arena.len'']"

definition is_pure_op :: "string \<Rightarrow> bool" where
  "is_pure_op op \<longleftrightarrow>
     op \<in> set pure_ops \<or>
     (\<not> prefix ''field.ref.set.'' op \<and>
       (prefix ''binary.'' op \<or> prefix ''unary.'' op \<or> prefix ''field.'' op \<or> prefix ''func.addr.'' op))"

definition has_effect :: "instr \<Rightarrow> bool" where
  "has_effect i \<longleftrightarrow> \<not> is_pure_op (i_op i)"

definition keep_live_instrs :: "instr list \<Rightarrow> name list \<Rightarrow> instr list" where
  "keep_live_instrs is used = filter (\<lambda>i. has_effect i \<or> v_name (i_result i) \<in> set used) is"

definition eliminate_dead_code :: "func \<Rightarrow> func" where
  "eliminate_dead_code fn =
     fn\<lparr>f_blocks := map (\<lambda>b. b\<lparr>b_instrs := keep_live_instrs (b_instrs b) (used_values fn)\<rparr>) (f_blocks fn)\<rparr>"

definition dead_code_eliminate :: "module \<Rightarrow> module" where
  "dead_code_eliminate = map_functions eliminate_dead_code"

section \<open>The pass preserves what a function computes\<close>

text \<open>
  What the list above promises of an operation the machine gives meaning to: when it
  runs, it yields a result and leaves the memory as it was.
\<close>

definition pure_machine :: "('v, 's) machine \<Rightarrow> bool" where
  "pure_machine m \<longleftrightarrow>
     (\<forall>i vals s out. is_pure_op (i_op i) \<longrightarrow> mc_op m i vals s = Some out \<longrightarrow> (\<exists>x. out = Yield x s))"

definition live :: "func \<Rightarrow> instr \<Rightarrow> bool" where
  "live fn i \<longleftrightarrow> has_effect i \<or> v_name (i_result i) \<in> set (used_values fn)"

lemma pure_exec:
  assumes "pure_machine m" and "\<not> has_effect i" and "exec m \<sigma> i = Some out"
  shows "\<exists>x. out = Yield x (st_mem \<sigma>)"
proof (cases "i_op i = ''phi''")
  case True
  with assms(3) show ?thesis by (auto simp: exec_def)
next
  case False
  with assms(3) obtain vals where vals: "operands m (st_env \<sigma>) (direct_reads i) = Some vals"
    by (auto simp: exec_def split: option.splits)
  show ?thesis
  proof (cases "fixed_value i (take (length (i_args i)) vals)")
    case None
    with False vals assms(3) have "mc_op m (shape i) vals (st_mem \<sigma>) = Some out" by (simp add: exec_def)
    moreover have "is_pure_op (i_op (shape i))" using assms(2) by (simp add: has_effect_def)
    ultimately show ?thesis using assms(1) unfolding pure_machine_def by blast
  next
    case (Some x)
    with False vals assms(3) show ?thesis by (auto simp: exec_def)
  qed
qed

lemma used_values_block:
  assumes "p < length (f_blocks fn)"
  shows "i \<in> set (b_instrs (f_blocks fn ! p)) \<Longrightarrow> v_name ` set (instr_reads i) \<subseteq> set (used_values fn)"
    and "v_name ` set (term_reads (b_term (f_blocks fn ! p))) \<subseteq> set (used_values fn)"
  using nth_mem[OF assms] by (auto simp: used_values_def)

lemma used_values_instr:
  "current_instr fn \<sigma> = Some i \<Longrightarrow> v_name ` set (instr_reads i) \<subseteq> set (used_values fn)"
  using used_values_block(1)[of "st_block \<sigma>" fn i] by (simp add: current_instr_Some)

lemma eliminate_thin: "eliminate_dead_code fn = thin (live fn) (\<lambda>i. i) (\<lambda>t. t) fn"
  by (simp add: eliminate_dead_code_def thin_def keep_live_instrs_def live_def[abs_def])

interpretation dce: thinning m fn "live fn" "\<lambda>i. i" "\<lambda>t. t" "set (used_values fn)" "\<lambda>_. pure_machine m" for m fn
proof
  fix \<sigma> \<sigma>' :: "('a, 'b) state" and i out
  assume pure: "pure_machine m" and i: "current_instr fn \<sigma> = Some i" and out: "exec m \<sigma> i = Some out"
  show "(\<exists>x. out = Yield x (st_mem \<sigma>)) \<and> v_name (i_result i) \<notin> set (used_values fn)" if "\<not> live fn i"
    using that pure_exec[OF pure _ out] by (auto simp: live_def)
  show "exec m \<sigma>' i = Some out \<and> i_result i = i_result i" if "alike (set (used_values fn)) \<sigma> \<sigma>'"
    using that out used_values_instr[OF i] exec_agree[of "set (used_values fn)" \<sigma> \<sigma>' i m]
    by (auto simp: alike_def)
next
  fix \<sigma> :: "('a, 'b) state" and env'
  assume lt: "st_block \<sigma> < length (f_blocks fn)" and agree: "agree (set (used_values fn)) (st_env \<sigma>) env'"
  show "same_term m (st_env \<sigma>) env' (b_term (f_blocks fn ! st_block \<sigma>)) (b_term (f_blocks fn ! st_block \<sigma>))"
    using used_values_block(2)[OF lt] operand_agree[OF agree, of _ m] by (simp add: same_term_def term_reads_def)
qed

text \<open>
  C3: dead code elimination preserves what a function computes. If the operations the
  list calls pure leave the memory alone, a call that returns a value and a memory
  within some number of steps returns the same afterwards, within as many.
\<close>

theorem dead_code_preserves:
  assumes "pure_machine m" and "call_for n m fn vals s = Some r"
  shows "call_for n m (eliminate_dead_code fn) vals s = Some r"
  unfolding eliminate_thin using assms by (rule dce.call_preserved)

text \<open>A function whose unread product goes, and whose call stays though nothing reads it.\<close>

definition dead_example :: func where
  "dead_example = function_of [] ''i64''
     [block_of ''entry''
       [const_i64 ''%1'' ''6'', binary_i64 ''%2'' ''i64'' ''binary.*'' ''%1'' ''%1'',
        new_instr (typed ''%3'' ''void'') ''call.tick'']
       (return_of ''%1'' ''i64'')]"

definition tick_machine :: "(unit, nat) machine" where
  "tick_machine = \<lparr>mc_op = (\<lambda>i _ s. if i_op i = ''call.tick'' then Some (Yield (OtherV ()) (Suc s)) else None),
     mc_lit = (\<lambda>_. None)\<rparr>"

theorem dead_code_preserves_witness:
  "call_for 4 tick_machine (eliminate_dead_code dead_example) [] 0 = Some (IntV 6, 1) \<and>
   map i_op (all_instrs (eliminate_dead_code dead_example)) = [''const'', ''call.tick'']"
proof
  have "\<not> is_pure_op ''call.tick''" by code_simp
  then have "pure_machine tick_machine" by (auto simp: pure_machine_def tick_machine_def)
  moreover have "call_for 4 tick_machine dead_example [] 0 = Some (IntV 6, 1)" by code_simp
  ultimately show "call_for 4 tick_machine (eliminate_dead_code dead_example) [] 0 = Some (IntV 6, 1)"
    by (rule dead_code_preserves)
  show "map i_op (all_instrs (eliminate_dead_code dead_example)) = [''const'', ''call.tick'']"
    by code_simp
qed

section \<open>What stays\<close>

lemma eliminate_all_instrs: "all_instrs (eliminate_dead_code fn) = filter (live fn) (all_instrs fn)"
  by (simp add: all_instrs_def eliminate_dead_code_def keep_live_instrs_def live_def[abs_def]
      filter_concat comp_def)

lemma used_values_subset: "set (used_values (eliminate_dead_code fn)) \<subseteq> set (used_values fn)"
  by (auto simp: used_values_def eliminate_dead_code_def keep_live_instrs_def)

text \<open>
  C31: elimination leaves no dangling read and drops no effect: a name the result reads
  and the function defined is still defined, the instructions with an effect are the
  same in the same order, and everything kept is in its order.
\<close>

theorem dead_code_keeps:
  "set (used_values (eliminate_dead_code fn)) \<inter> set (results fn) \<subseteq> set (results (eliminate_dead_code fn)) \<and>
   filter has_effect (all_instrs (eliminate_dead_code fn)) = filter has_effect (all_instrs fn) \<and>
   subseq (all_instrs (eliminate_dead_code fn)) (all_instrs fn)"
proof (intro conjI)
  show "set (used_values (eliminate_dead_code fn)) \<inter> set (results fn) \<subseteq> set (results (eliminate_dead_code fn))"
    using used_values_subset[of fn] by (auto simp: results_def eliminate_all_instrs live_def)
  show "filter has_effect (all_instrs (eliminate_dead_code fn)) = filter has_effect (all_instrs fn)"
    unfolding eliminate_all_instrs filter_filter by (rule filter_cong) (auto simp: live_def)
  show "subseq (all_instrs (eliminate_dead_code fn)) (all_instrs fn)"
    by (simp add: eliminate_all_instrs)
qed

end
