(* ===== verification/Tables.thy ===== *)
theory Tables
  imports Ir_Sim
begin

text \<open>
  FoldConstantTables (internal/ir/tables.go): a function that compares its one i64
  parameter with 0, 1, 2, ... in turn and returns a constant for each becomes one
  \<^verbatim>\<open>table.get\<close>. The walk along the chain takes fuel, one unit for each block and one
  more; \<open>constant_table_no_fuel\<close> shows that is enough for every function, because no block
  compares with two different keys.
\<close>

section \<open>Values of a table\<close>

definition is_table_type :: "string \<Rightarrow> bool" where
  "is_table_type ty \<longleftrightarrow> ty = ''u64'' \<or> ty = ''i64''"

definition parse_table_constant :: "string \<Rightarrow> string \<Rightarrow> i64 option" where
  "parse_table_constant imm ty = (if ty = ''u64'' then parse_uint64 imm else parse_int64 imm)"

definition table_arithmetic :: "string \<Rightarrow> i64 \<Rightarrow> i64 \<Rightarrow> string \<Rightarrow> i64 option" where
  "table_arithmetic op l r ty =
     (if op = ''binary.<<'' then (if 64 \<le> r then Some 0 else Some (push_bit (unat r) l))
      else if op = ''binary.>>'' then
        (if ty \<noteq> ''u64'' then None else if 64 \<le> r then Some 0 else Some (drop_bit (unat r) l))
      else if op = ''binary.|'' then Some (or l r)
      else if op = ''binary.&'' then Some (and l r)
      else if op = ''binary.^'' then Some (xor l r)
      else if op = ''binary.+'' then Some (l + r)
      else if op = ''binary.-'' then Some (l - r)
      else if op = ''binary.*'' then Some (l * r)
      else None)"

text \<open>The constants of a block, and the one it returns.\<close>

definition evaluate_instr :: "string \<Rightarrow> instr \<Rightarrow> (name \<rightharpoonup> i64) \<Rightarrow> i64 option" where
  "evaluate_instr ty i known =
     (if v_type (i_result i) \<noteq> ty then None
      else if i_op i = ''const'' then parse_table_constant (i_immediate i) ty
      else if length (i_args i) \<noteq> 2 then None
      else (case (known (v_name (i_args i ! 0)), known (v_name (i_args i ! 1))) of
              (Some l, Some r) \<Rightarrow> table_arithmetic (i_op i) l r ty
            | _ \<Rightarrow> None))"

primrec evaluate_instrs :: "string \<Rightarrow> instr list \<Rightarrow> (name \<rightharpoonup> i64) \<Rightarrow> (name \<rightharpoonup> i64) option" where
  "evaluate_instrs ty [] known = Some known"
| "evaluate_instrs ty (i # is) known =
     (case evaluate_instr ty i known of
        None \<Rightarrow> None
      | Some v \<Rightarrow> evaluate_instrs ty is (known(v_name (i_result i) \<mapsto> v)))"

definition evaluate_block :: "block \<Rightarrow> string \<Rightarrow> i64 option" where
  "evaluate_block b ty =
     (case evaluate_instrs ty (b_instrs b) Map.empty of
        None \<Rightarrow> None
      | Some known \<Rightarrow> known (v_name (t_value (b_term b))))"

section \<open>The chain\<close>

definition block_named :: "func \<Rightarrow> name \<Rightarrow> block option" where
  "block_named fn x = map_option (\<lambda>p. f_blocks fn ! p) (positions (f_blocks fn) x)"

definition compares_param_with :: "func \<Rightarrow> block \<Rightarrow> nat \<Rightarrow> bool" where
  "compares_param_with fn b key \<longleftrightarrow>
     t_op (b_term b) = ''branch'' \<and> length (b_instrs b) = 2 \<and>
     (let constant = b_instrs b ! 0; compare = b_instrs b ! 1
      in i_op constant = ''const'' \<and> v_type (i_result constant) = ''i64'' \<and>
         i_immediate constant = format_nat key \<and>
         i_op compare = ''binary.=='' \<and> length (i_args compare) = 2 \<and>
         v_name (i_args compare ! 0) = p_name (f_params fn ! 0) \<and>
         v_name (i_args compare ! 1) = v_name (i_result constant) \<and>
         v_name (t_cond (b_term b)) = v_name (i_result compare))"

definition table_step :: "func \<Rightarrow> block \<Rightarrow> nat \<Rightarrow> (i64 \<times> block) option" where
  "table_step fn b key =
     (if \<not> compares_param_with fn b key then None
      else (case (block_named fn (t_target (b_term b)), block_named fn (t_else (b_term b))) of
              (Some taken, Some other) \<Rightarrow>
                if t_op (b_term taken) \<noteq> ''return'' then None
                else (case evaluate_block taken (f_return fn) of
                        None \<Rightarrow> None
                      | Some v \<Rightarrow>
                          if b_instrs other \<noteq> [] \<or> t_op (b_term other) \<noteq> ''jump'' then None
                          else map_option (\<lambda>nb. (v, nb)) (block_named fn (t_target (b_term other))))
            | _ \<Rightarrow> None))"

datatype table_error = NotATable | NoBlocks | TableFuel

primrec table_walk :: "nat \<Rightarrow> func \<Rightarrow> block \<Rightarrow> i64 list \<Rightarrow> table_error + i64 list" where
  "table_walk 0 fn b vs = Inl TableFuel"
| "table_walk (Suc fuel) fn b vs =
     (if t_op (b_term b) \<noteq> ''return'' then
        (case table_step fn b (length vs) of
           None \<Rightarrow> Inl NotATable
         | Some (v, nb) \<Rightarrow> table_walk fuel fn nb (vs @ [v]))
      else (case evaluate_block b (f_return fn) of
              None \<Rightarrow> Inl NotATable
            | Some v \<Rightarrow> if length vs < 1 then Inl NotATable else Inr (vs @ [v])))"

text \<open>
  A function without blocks has no first block to read: the code indexes the empty slice and
  panics, which is the outcome \<open>NoBlocks\<close>. Lowering makes no such function.
\<close>

definition constant_table :: "func \<Rightarrow> table_error + i64 list" where
  "constant_table fn =
     (if length (f_params fn) \<noteq> 1 \<or> p_type (f_params fn ! 0) \<noteq> ''i64'' \<or> \<not> is_table_type (f_return fn)
      then Inl NotATable
      else if f_blocks fn = [] then Inl NoBlocks
      else table_walk (Suc (length (f_blocks fn))) fn (f_blocks fn ! 0) [])"

section \<open>The instruction\<close>

definition format_entry :: "string \<Rightarrow> i64 \<Rightarrow> string" where
  "format_entry ty v = (if ty = ''u64'' then format_uint64 v else format_int64 v)"

definition format_table :: "i64 list \<Rightarrow> string \<Rightarrow> string" where
  "format_table vs ty = join '','' (map (format_entry ty) vs)"

text \<open>
  TableValues ignores the error of strconv, whose value is then 0 for a text that is no
  number and the nearest bound for one out of range.
\<close>

definition read_entry :: "string \<Rightarrow> string \<Rightarrow> i64" where
  "read_entry ty s =
     (if ty = ''u64'' then
        (case parse_nat s of None \<Rightarrow> 0 | Some n \<Rightarrow> if int n < 2 ^ 64 then word_of_nat n else - 1)
      else
        (case parse_int_text s of
           None \<Rightarrow> 0
         | Some v \<Rightarrow> if v < - (2 ^ 63) then - (2 ^ 63) else if v < 2 ^ 63 then word_of_int v else 2 ^ 63 - 1))"

definition table_values :: "instr \<Rightarrow> i64 list" where
  "table_values i = map (read_entry (v_type (i_result i))) (split_on (CHR '','') (i_immediate i))"

definition table_get :: "func \<Rightarrow> i64 list \<Rightarrow> instr" where
  "table_get fn vs =
     (new_instr \<lparr>v_name = v_name (t_value (b_term (last (f_blocks fn)))), v_type = f_return fn\<rparr> ''table.get'')
     \<lparr>i_args := [param_value (f_params fn ! 0)], i_immediate := format_table vs (f_return fn)\<rparr>"

definition fold_constant_table :: "func \<Rightarrow> func" where
  "fold_constant_table fn =
     (case constant_table fn of
        Inl _ \<Rightarrow> fn
      | Inr vs \<Rightarrow> fn\<lparr>f_blocks :=
          [\<lparr>b_name = b_name (f_blocks fn ! 0), b_instrs = [table_get fn vs],
            b_term = (new_term ''return'')\<lparr>t_value := i_result (table_get fn vs)\<rparr>\<rparr>]\<rparr>)"

definition fold_constant_tables :: "module \<Rightarrow> module" where
  "fold_constant_tables = map_functions fold_constant_table"

section \<open>Spelling a table\<close>

lemma read_format_entry: "read_entry ty (format_entry ty v) = v"
proof (cases "ty = ''u64''")
  case True
  have "int (unat v) < 2 ^ 64" using uint_lt2p[of v] by simp
  with True show ?thesis by (simp add: read_entry_def format_entry_def format_uint64_def)
next
  case False
  then show ?thesis using sint64_range[of v]
    by (auto simp: read_entry_def format_entry_def format_int64_def)
qed

lemma format_entry_no_comma: "CHR '','' \<notin> set (format_entry ty v)"
  using format_nat_set[of "CHR '',''" "unat v"] format_int_set[of "CHR '',''" "sint v"]
  by (auto simp: format_entry_def format_uint64_def format_int64_def is_digit_def)

lemma table_values_format:
  "vs \<noteq> [] \<Longrightarrow> i_immediate i = format_table vs (v_type (i_result i)) \<Longrightarrow> table_values i = vs"
  using split_on_join[of "map (format_entry (v_type (i_result i))) vs" "CHR '',''"]
  by (auto simp: table_values_def format_table_def format_entry_no_comma read_format_entry comp_def)

section \<open>The walk ends\<close>

text \<open>The blocks walked so far compared with 0, 1, 2, ..., so they are different blocks.\<close>

definition walked :: "func \<Rightarrow> block list \<Rightarrow> bool" where
  "walked fn bs \<longleftrightarrow> set bs \<subseteq> set (f_blocks fn) \<and>
     (\<forall>j<length bs. t_op (b_term (bs ! j)) \<noteq> ''return'' \<and> compares_param_with fn (bs ! j) j)"

lemma walked_distinct: "walked fn bs \<Longrightarrow> distinct bs"
  unfolding distinct_conv_nth walked_def
  by (metis (no_types, lifting) compares_param_with_def format_nat_inj)

lemma walked_length:
  assumes "walked fn bs"
  shows "length bs \<le> length (f_blocks fn)"
proof -
  have "length bs = card (set bs)" using walked_distinct[OF assms] by (simp add: distinct_card)
  also have "\<dots> \<le> card (set (f_blocks fn))" using assms by (auto simp: walked_def intro: card_mono)
  also have "\<dots> \<le> length (f_blocks fn)" by (rule card_length)
  finally show ?thesis .
qed

lemma block_named_mem: "block_named fn x = Some b \<Longrightarrow> b \<in> set (f_blocks fn)"
  by (auto simp: block_named_def dest: positions_Some)

lemma table_step_Some:
  assumes "table_step fn b key = Some (v, nb)"
  obtains taken other where "compares_param_with fn b key"
    and "block_named fn (t_target (b_term b)) = Some taken" and "block_named fn (t_else (b_term b)) = Some other"
    and "t_op (b_term taken) = ''return''" and "evaluate_block taken (f_return fn) = Some v"
    and "b_instrs other = []" and "t_op (b_term other) = ''jump''"
    and "block_named fn (t_target (b_term other)) = Some nb"
  using assms by (auto simp: table_step_def split: if_splits option.splits)

lemma table_walk_no_fuel:
  "walked fn bs \<Longrightarrow> b \<in> set (f_blocks fn) \<Longrightarrow> length vs = length bs \<Longrightarrow>
    Suc (length (f_blocks fn)) \<le> fuel + length bs \<Longrightarrow> table_walk fuel fn b vs \<noteq> Inl TableFuel"
proof (induction fuel arbitrary: b vs bs)
  case 0
  with walked_length[of fn bs] show ?case by simp
next
  case (Suc fuel)
  show ?case
  proof (cases "t_op (b_term b) \<noteq> ''return''")
    case True
    show ?thesis
    proof (cases "table_step fn b (length vs)")
      case None
      with True show ?thesis by simp
    next
      case (Some vn)
      obtain v nb where vn: "vn = (v, nb)" by (cases vn)
      from Some vn table_step_Some[of fn b "length vs" v nb]
      have "compares_param_with fn b (length bs)" "nb \<in> set (f_blocks fn)"
        using Suc.prems(3) block_named_mem by (metis+)
      then have "walked fn (bs @ [b])"
        using Suc.prems(1,2) True by (auto simp: walked_def nth_append less_Suc_eq)
      from Suc.IH[OF this \<open>nb \<in> _\<close>, of "vs @ [v]"] Suc.prems(3,4) True Some vn show ?thesis by simp
    qed
  next
    case False
    then show ?thesis by (simp split: option.splits)
  qed
qed

text \<open>
  C32: looking for a table ends: no function makes the walk along its chain outlast its
  blocks, even when the chain is a loop.
\<close>

theorem constant_table_no_fuel: "constant_table fn \<noteq> Inl TableFuel"
proof -
  have "walked fn []" by (simp add: walked_def)
  from table_walk_no_fuel[OF this, of "f_blocks fn ! 0" "[]" "Suc (length (f_blocks fn))"]
  show ?thesis by (auto simp: constant_table_def simp del: table_walk.simps)
qed

section \<open>A table answers what its chain answers\<close>

text \<open>What \<^verbatim>\<open>table.get\<close> carries: the entry of the index, or the last one.\<close>

definition table_lookup :: "i64 list \<Rightarrow> i64 \<Rightarrow> i64" where
  "table_lookup vs k =
     (if 0 \<le> sint k \<and> sint k < int (length vs) - 1 then vs ! nat (sint k) else last vs)"

text \<open>
  What the backends promise of the operations a table is made of: a u64 constant is its
  bits, the operations wrap at 64 bits, and \<^verbatim>\<open>table.get\<close> looks up its entries.
\<close>

definition table_machine :: "('v, 's) machine \<Rightarrow> bool" where
  "table_machine m \<longleftrightarrow>
     (\<forall>i s v. i_op i = ''const'' \<longrightarrow> v_type (i_result i) = ''u64'' \<longrightarrow>
        parse_uint64 (i_immediate i) = Some v \<longrightarrow> mc_op m i [] s = Some (Yield (IntV v) s)) \<and>
     (\<forall>i l r s v. is_table_type (v_type (i_result i)) \<longrightarrow>
        table_arithmetic (i_op i) l r (v_type (i_result i)) = Some v \<longrightarrow>
        mc_op m i [IntV l, IntV r] s = Some (Yield (IntV v) s)) \<and>
     (\<forall>i k s. i_op i = ''table.get'' \<longrightarrow>
        mc_op m i [IntV k] s = Some (Yield (IntV (table_lookup (table_values i) k)) s))"

text \<open>
  What lowering emits for constants and operators: operands only where they belong. The
  name of the result is read off the last block, which returns a value.
\<close>

definition plain :: "instr \<Rightarrow> bool" where
  "plain i \<longleftrightarrow> i_fields i = [] \<and> i_cleanups i = [] \<and> (i_op i = ''const'' \<longrightarrow> i_args i = []) \<and>
     (i_op i = ''binary.=='' \<longrightarrow> v_type (i_result i) = ''bool'' \<and> list_all (\<lambda>a. v_type a = ''i64'') (i_args i))"

definition table_wf :: "func \<Rightarrow> bool" where
  "table_wf fn \<longleftrightarrow> ssa fn \<and> list_all plain (all_instrs fn) \<and> length (f_blocks fn) < 2 ^ 63 \<and>
     v_name (t_value (b_term (last (f_blocks fn)))) \<noteq> []"

lemma table_arithmetic_op:
  "table_arithmetic op l r ty = Some v \<Longrightarrow> prefix ''binary.'' op"
  by (auto simp: table_arithmetic_def split: if_splits)

lemma table_arithmetic_int_op:
  "table_arithmetic op l r ty = Some v \<Longrightarrow> is_table_type ty \<Longrightarrow> int_op ty op l r = Some w \<Longrightarrow> w = IntV v"
  by (auto simp: table_arithmetic_def int_op_def is_table_type_def split: if_splits)

definition holds :: "(name \<rightharpoonup> i64) \<Rightarrow> 'v env \<Rightarrow> bool" where
  "holds known env \<longleftrightarrow> (\<forall>x v. known x = Some v \<longrightarrow> env x = Some (IntV v))"

lemma evaluate_instr_exec:
  assumes "evaluate_instr ty i known = Some v" and "is_table_type ty" and m: "table_machine m"
    and "plain i" and "holds known (st_env \<sigma>)"
  shows "exec m \<sigma> i = Some (Yield (IntV v) (st_mem \<sigma>))"
proof (cases "i_op i = ''const''")
  case True
  have ty: "v_type (i_result i) = ty" using assms(1) by (auto simp: evaluate_instr_def split: if_splits)
  have parse: "parse_table_constant (i_immediate i) ty = Some v"
    using assms(1) True by (auto simp: evaluate_instr_def split: if_splits)
  have reads: "direct_reads i = []" "i_args i = []" using assms(4) True by (auto simp: plain_def direct_reads_def)
  show ?thesis
  proof (cases "ty = ''i64''")
    case i64: True
    with parse ty True reads show ?thesis
      by (simp add: exec_def fixed_value_def const_value_def parse_table_constant_def)
  next
    case False
    with assms(2) have "ty = ''u64''" by (simp add: is_table_type_def)
    with parse ty True reads m show ?thesis
      by (simp add: exec_def fixed_value_def const_value_def parse_table_constant_def table_machine_def)
  qed
next
  case False
  from assms(1) False obtain l r where lr: "length (i_args i) = 2" "v_type (i_result i) = ty"
      "known (v_name (i_args i ! 0)) = Some l" "known (v_name (i_args i ! 1)) = Some r"
      "table_arithmetic (i_op i) l r ty = Some v"
    by (auto simp: evaluate_instr_def split: if_splits option.splits)
  then obtain a b where ab: "i_args i = [a, b]" by (auto simp: length_Suc_conv numeral_2_eq_2)
  have reads: "direct_reads i = [a, b]" using assms(4) ab by (simp add: plain_def direct_reads_def)
  have "operand m (st_env \<sigma>) a = Some (IntV l)" "operand m (st_env \<sigma>) b = Some (IntV r)"
    using lr assms(5) ab by (auto simp: operand_def holds_def)
  then have vals: "operands m (st_env \<sigma>) (direct_reads i) = Some [IntV l, IntV r]" by (simp add: reads)
  have op: "i_op i \<noteq> ''phi''" "i_op i \<noteq> ''id''" using table_arithmetic_op[OF lr(5)] by auto
  have mc: "mc_op m (shape i) [IntV l, IntV r] (st_mem \<sigma>) = Some (Yield (IntV v) (st_mem \<sigma>))"
    using m lr(2,5) assms(2) by (simp add: table_machine_def)
  show ?thesis
  proof (cases "list_all (\<lambda>a. v_type a = ''i64'') (i_args i)")
    case True
    then show ?thesis
      using vals op False mc lr(2) ab table_arithmetic_int_op[OF lr(5) assms(2)]
      by (cases "int_op ty (i_op i) l r :: 'a val option") (auto simp: exec_def fixed_value_def)
  next
    case False
    then show ?thesis
      using vals op \<open>i_op i \<noteq> ''const''\<close> mc ab by (auto simp: exec_def fixed_value_def)
  qed
qed


lemma evaluate_instrs_reach:
  assumes ty: "is_table_type ty" and m: "table_machine m" and wf: "table_wf fn"
    and p: "p < length (f_blocks fn)"
  shows "evaluate_instrs ty rest known = Some known' \<Longrightarrow> st_block \<sigma> = p \<Longrightarrow>
    b_instrs (f_blocks fn ! p) = done @ rest \<Longrightarrow> st_step \<sigma> = length done \<Longrightarrow> holds known (st_env \<sigma>) \<Longrightarrow>
    \<exists>\<tau>. reach m fn \<sigma> \<tau> \<and> st_block \<tau> = p \<and> current_instr fn \<tau> = None \<and> st_mem \<tau> = st_mem \<sigma> \<and>
      holds known' (st_env \<tau>)"
proof (induction rest arbitrary: known \<sigma> "done")
  case Nil
  then show ?case
    by (intro exI[of _ \<sigma>]) (auto simp: current_instr_def instr_at_def intro: reach.here)
next
  case (Cons i rest)
  from Cons.prems(1) obtain v where v: "evaluate_instr ty i known = Some v"
      "evaluate_instrs ty rest (known(v_name (i_result i) \<mapsto> v)) = Some known'"
    by (auto split: option.splits)
  have cur: "current_instr fn \<sigma> = Some i" using Cons.prems(2,3,4) p by (simp add: current_instr_Some)
  then have "i \<in> set (all_instrs fn)" by (auto simp: current_instr_def dest: instr_at_all)
  then have plain: "plain i" using wf by (simp add: table_wf_def list_all_iff)
  have "i_op i \<noteq> ''cond_fail''"
    using v(1) by (auto simp: evaluate_instr_def split: if_splits option.splits dest: table_arithmetic_op)
  with \<open>i \<in> _\<close> have named: "v_name (i_result i) \<noteq> []" using wf by (auto simp: table_wf_def ssa_def)
  let ?\<tau> = "\<sigma>\<lparr>st_step := Suc (st_step \<sigma>), st_env := (st_env \<sigma>)(v_name (i_result i) \<mapsto> IntV v)\<rparr>"
  have "step m fn \<sigma> = Go ?\<tau>"
    using evaluate_instr_exec[OF v(1) ty m plain Cons.prems(5)] cur named
    by (simp add: step_instr after_def bind_result_def)
  then have first: "reach m fn \<sigma> ?\<tau>" by (auto intro: reach.further reach.here)
  have "holds (known(v_name (i_result i) \<mapsto> v)) (st_env ?\<tau>)" using Cons.prems(5) by (auto simp: holds_def)
  from Cons.IH[OF v(2) _ _ _ this, of "done @ [i]"] Cons.prems(2-4)
  obtain \<tau> where "reach m fn ?\<tau> \<tau>" "st_block \<tau> = p" "current_instr fn \<tau> = None" "st_mem \<tau> = st_mem \<sigma>"
    "holds known' (st_env \<tau>)" by auto
  with reach_trans[OF first] show ?case by blast
qed

lemma return_block_reach:
  assumes "is_table_type (f_return fn)" and "table_machine m" and "table_wf fn" and p: "p < length (f_blocks fn)"
    and "evaluate_block (f_blocks fn ! p) (f_return fn) = Some v" and "t_op (b_term (f_blocks fn ! p)) = ''return''"
    and "st_block \<sigma> = p" and "st_step \<sigma> = 0"
  shows "\<exists>\<tau>. reach m fn \<sigma> \<tau> \<and> step m fn \<tau> = Done (IntV v) (st_mem \<sigma>)"
proof -
  from assms(5) obtain known where known: "evaluate_instrs (f_return fn) (b_instrs (f_blocks fn ! p)) Map.empty = Some known"
    "known (v_name (t_value (b_term (f_blocks fn ! p)))) = Some v"
    by (auto simp: evaluate_block_def split: option.splits)
  from evaluate_instrs_reach[OF assms(1-3) p known(1), of \<sigma> "[]"] assms(7,8)
  obtain \<tau> where \<tau>: "reach m fn \<sigma> \<tau>" "st_block \<tau> = p" "current_instr fn \<tau> = None" "st_mem \<tau> = st_mem \<sigma>"
    "holds known (st_env \<tau>)" by (auto simp: holds_def)
  then have "step m fn \<tau> = Done (IntV v) (st_mem \<sigma>)"
    using p assms(6) known(2) by (simp add: step_end end_block_def operand_def holds_def)
  with \<tau>(1) show ?thesis by blast
qed

lemma parse_key: "n < 2 ^ 63 \<Longrightarrow> parse_int64 (format_nat n) = Some (word_of_nat n)"
  by (simp add: parse_int64_def parse_int_text_format_nat)

text \<open>A link of the chain: the branch tests whether the parameter is the key.\<close>

lemma compare_block_reach:
  assumes wf: "table_wf fn" and p: "p < length (f_blocks fn)" and cmp: "compares_param_with fn (f_blocks fn ! p) key"
    and key: "key < 2 ^ 63" and \<sigma>: "st_block \<sigma> = p" "st_step \<sigma> = 0"
    and param: "f_params fn \<noteq> []" "st_env \<sigma> (p_name (f_params fn ! 0)) = Some (IntV k)"
  shows "\<exists>\<tau>. reach m fn \<sigma> \<tau> \<and> st_mem \<tau> = st_mem \<sigma> \<and> st_env \<tau> (p_name (f_params fn ! 0)) = Some (IntV k) \<and>
    step m fn \<tau> = goto fn \<tau> (if k = word_of_nat key then t_target (b_term (f_blocks fn ! p))
      else t_else (b_term (f_blocks fn ! p)))"
proof -
  let ?b = "f_blocks fn ! p" and ?x = "p_name (f_params fn ! 0)"
  obtain c e where ib: "b_instrs ?b = [c, e]"
    using cmp by (auto simp: compares_param_with_def length_Suc_conv numeral_2_eq_2)
  with cmp have c: "i_op c = ''const''" "v_type (i_result c) = ''i64''" "i_immediate c = format_nat key"
    and e: "i_op e = ''binary.==''" "length (i_args e) = 2" "v_name (i_args e ! 0) = ?x"
      "v_name (i_args e ! 1) = v_name (i_result c)" "v_name (t_cond (b_term ?b)) = v_name (i_result e)"
    and t: "t_op (b_term ?b) = ''branch''"
    by (auto simp: compares_param_with_def Let_def)
  have at: "instr_at fn p 0 = Some c" "instr_at fn p 1 = Some e" using p ib by (simp_all add: instr_at_def)
  have plain: "plain c" "plain e" using wf at by (auto simp: table_wf_def list_all_iff dest: instr_at_all)
  have named: "v_name (i_result c) \<noteq> []" "v_name (i_result e) \<noteq> []"
    using wf c(1) e(1) instr_at_all[OF at(1)] instr_at_all[OF at(2)] by (auto simp: table_wf_def ssa_def)
  have "?x \<in> set (param_names fn)" using param(1) by (simp add: param_names_def)
  then have fresh: "v_name (i_result c) \<noteq> ?x" "v_name (i_result e) \<noteq> ?x"
    using wf instr_at_result[OF at(1)] instr_at_result[OF at(2)] named by (auto simp: table_wf_def ssa_def)
  let ?\<sigma>1 = "\<sigma>\<lparr>st_step := 1, st_env := (st_env \<sigma>)(v_name (i_result c) \<mapsto> IntV (word_of_nat key))\<rparr>"
  have "current_instr fn \<sigma> = Some c" using at \<sigma> by (simp add: current_instr_def)
  then have s1: "step m fn \<sigma> = Go ?\<sigma>1"
    using c named plain(1) \<sigma>(2) parse_key[OF key]
    by (simp add: step_instr after_def bind_result_def exec_def fixed_value_def const_value_def plain_def direct_reads_def)
  obtain a1 a2 where a: "i_args e = [a1, a2]" using e(2) by (auto simp: length_Suc_conv numeral_2_eq_2)
  let ?\<tau> = "?\<sigma>1\<lparr>st_step := 2, st_env := (st_env ?\<sigma>1)(v_name (i_result e) \<mapsto> BoolV (k = word_of_nat key))\<rparr>"
  have reads: "operand m (st_env ?\<sigma>1) a1 = Some (IntV k)" "operand m (st_env ?\<sigma>1) a2 = Some (IntV (word_of_nat key))"
    using a e fresh param(2) by (auto simp: operand_def)
  have "current_instr fn ?\<sigma>1 = Some e" using at \<sigma> by (simp add: current_instr_def)
  then have s2: "step m fn ?\<sigma>1 = Go ?\<tau>"
    using e(1) named(2) plain(2) reads a
    by (simp add: step_instr after_def bind_result_def exec_def fixed_value_def int_op_def plain_def direct_reads_def)
  have "current_instr fn ?\<tau> = None" using p ib \<sigma>(1) by (simp add: current_instr_def instr_at_def)
  then have "step m fn ?\<tau> = goto fn ?\<tau> (if k = word_of_nat key then t_target (b_term ?b) else t_else (b_term ?b))"
    using p \<sigma>(1) t e(5) by (simp add: step_end end_block_def operand_def)
  moreover have "reach m fn \<sigma> ?\<tau>"
    using reach.further[OF reach.further[OF reach.here s1] s2] .
  ultimately show ?thesis using fresh param(2) by (intro exI[of _ ?\<tau>]) simp
qed


lemma table_walk_prefix: "table_walk fuel fn b vs = Inr ws \<Longrightarrow> \<exists>rest. rest \<noteq> [] \<and> ws = vs @ rest"
  by (induction fuel arbitrary: b vs) (fastforce split: if_splits option.splits)+

lemma goto_named:
  assumes "block_named fn x = Some b"
  shows "\<exists>p. p < length (f_blocks fn) \<and> b = f_blocks fn ! p \<and>
    goto fn \<sigma> x = Go (\<sigma>\<lparr>st_block := p, st_step := 0, st_from := b_name (f_blocks fn ! st_block \<sigma>), st_entry := st_env \<sigma>\<rparr>)"
proof -
  from assms obtain p where "positions (f_blocks fn) x = Some p" "b = f_blocks fn ! p"
    by (auto simp: block_named_def)
  with positions_Some[OF this(1)] show ?thesis by (auto simp: goto_def)
qed

lemma lookup_hit:
  assumes "length vs < 2 ^ 63" and "k = word_of_nat (length vs)" and "rest \<noteq> []"
  shows "table_lookup (vs @ v # rest) k = v"
proof -
  have "sint k = int (length vs)"
    unfolding assms(2) using assms(1) by (rule sint64_of_nat)
  with assms(3) show ?thesis by (cases rest) (auto simp: table_lookup_def nth_append)
qed

lemma lookup_miss:
  assumes "\<forall>j<length vs. k \<noteq> word_of_nat j"
  shows "table_lookup (vs @ [v]) k = v"
proof -
  have "\<not> (0 \<le> sint k \<and> sint k < int (length vs))"
  proof
    assume a: "0 \<le> sint k \<and> sint k < int (length vs)"
    then have "k = word_of_nat (nat (sint k))" by simp
    with a assms show False by (metis nat_less_iff)
  qed
  then show ?thesis by (auto simp: table_lookup_def)
qed

lemma table_walk_reach:
  assumes ty: "is_table_type (f_return fn)" and m: "table_machine m" and wf: "table_wf fn"
    and param: "f_params fn \<noteq> []"
  shows "table_walk fuel fn (f_blocks fn ! p) vs = Inr ws \<Longrightarrow> p < length (f_blocks fn) \<Longrightarrow>
    length vs + fuel \<le> 2 ^ 63 \<Longrightarrow> st_block \<sigma> = p \<Longrightarrow> st_step \<sigma> = 0 \<Longrightarrow>
    st_env \<sigma> (p_name (f_params fn ! 0)) = Some (IntV k) \<Longrightarrow> \<forall>j<length vs. k \<noteq> word_of_nat j \<Longrightarrow>
    \<exists>\<tau>. reach m fn \<sigma> \<tau> \<and> step m fn \<tau> = Done (IntV (table_lookup ws k)) (st_mem \<sigma>)"
proof (induction fuel arbitrary: p vs \<sigma>)
  case (Suc fuel)
  let ?b = "f_blocks fn ! p"
  show ?case
  proof (cases "t_op (b_term ?b) = ''return''")
    case True
    with Suc.prems(1) obtain v where "evaluate_block ?b (f_return fn) = Some v" "ws = vs @ [v]"
      by (auto split: option.splits if_splits)
    with return_block_reach[OF ty m wf Suc.prems(2) this(1) True Suc.prems(4,5)] lookup_miss[OF Suc.prems(7)]
    show ?thesis by simp
  next
    case False
    with Suc.prems(1) obtain v nb where step: "table_step fn ?b (length vs) = Some (v, nb)"
      and walk: "table_walk fuel fn nb (vs @ [v]) = Inr ws" by (auto split: option.splits)
    from step obtain taken other where t: "compares_param_with fn ?b (length vs)"
      "block_named fn (t_target (b_term ?b)) = Some taken" "block_named fn (t_else (b_term ?b)) = Some other"
      "t_op (b_term taken) = ''return''" "evaluate_block taken (f_return fn) = Some v"
      "b_instrs other = []" "t_op (b_term other) = ''jump''" "block_named fn (t_target (b_term other)) = Some nb"
      by (rule table_step_Some)
    have len: "length vs < 2 ^ 63" using Suc.prems(3) by simp
    from compare_block_reach[OF wf Suc.prems(2) t(1) len Suc.prems(4,5) param Suc.prems(6), of m]
    obtain \<tau> where \<tau>: "reach m fn \<sigma> \<tau>" "st_mem \<tau> = st_mem \<sigma>"
      "st_env \<tau> (p_name (f_params fn ! 0)) = Some (IntV k)"
      "step m fn \<tau> = goto fn \<tau> (if k = word_of_nat (length vs) then t_target (b_term ?b) else t_else (b_term ?b))"
      by blast
    show ?thesis
    proof (cases "k = word_of_nat (length vs)")
      case True
      from goto_named[OF t(2), of \<tau>] True \<tau>(4) obtain q where q: "q < length (f_blocks fn)" "taken = f_blocks fn ! q"
        "step m fn \<tau> = Go (\<tau>\<lparr>st_block := q, st_step := 0, st_from := b_name (f_blocks fn ! st_block \<tau>), st_entry := st_env \<tau>\<rparr>)"
        by auto
      from return_block_reach[OF ty m wf q(1), of v "\<tau>\<lparr>st_block := q, st_step := 0,
          st_from := b_name (f_blocks fn ! st_block \<tau>), st_entry := st_env \<tau>\<rparr>"] t(4,5) q(2)
      obtain \<rho> where \<rho>: "reach m fn (\<tau>\<lparr>st_block := q, st_step := 0,
          st_from := b_name (f_blocks fn ! st_block \<tau>), st_entry := st_env \<tau>\<rparr>) \<rho>" "step m fn \<rho> = Done (IntV v) (st_mem \<tau>)"
        by auto
      obtain rest where "rest \<noteq> []" "ws = vs @ v # rest"
        using table_walk_prefix[OF walk] by auto
      with lookup_hit[OF len True] have "table_lookup ws k = v" by simp
      with reach_trans[OF reach.further[OF \<tau>(1) q(3)] \<rho>(1)] \<rho>(2) \<tau>(2) show ?thesis by auto
    next
      case miss: False
      from goto_named[OF t(3), of \<tau>] miss \<tau>(4) obtain q \<rho> where q: "q < length (f_blocks fn)" "other = f_blocks fn ! q"
        "step m fn \<tau> = Go \<rho>" "\<rho> = \<tau>\<lparr>st_block := q, st_step := 0,
          st_from := b_name (f_blocks fn ! st_block \<tau>), st_entry := st_env \<tau>\<rparr>" by auto
      have "current_instr fn \<rho> = None" using q t(6) by (simp add: current_instr_def instr_at_def)
      then have jump: "step m fn \<rho> = goto fn \<rho> (t_target (b_term other))"
        using q t(7) by (simp add: step_end end_block_def)
      from goto_named[OF t(8), of \<rho>] jump obtain r \<rho>' where r: "r < length (f_blocks fn)" "nb = f_blocks fn ! r"
        "step m fn \<rho> = Go \<rho>'" "\<rho>' = \<rho>\<lparr>st_block := r, st_step := 0,
          st_from := b_name (f_blocks fn ! st_block \<rho>), st_entry := st_env \<rho>\<rparr>" by auto
      have "\<forall>j<length (vs @ [v]). k \<noteq> word_of_nat j" using Suc.prems(7) miss by (auto simp: less_Suc_eq)
      from Suc.IH[OF walk[unfolded r(2)] r(1) _ _ _ _ this, of \<rho>'] Suc.prems(3) r(4) q(4) \<tau>(2,3)
      obtain \<tau>' where "reach m fn \<rho>' \<tau>'" "step m fn \<tau>' = Done (IntV (table_lookup ws k)) (st_mem \<sigma>)" by auto
      with reach_trans[OF reach.further[OF reach.further[OF \<tau>(1) q(3)] r(3)]] show ?thesis by blast
    qed
  qed
qed simp


text \<open>
  C14: the one-instruction function that replaces a table answers what the chain of
  comparisons answers. For every index the original returns, after finitely many steps
  and with the memory unchanged, the entry of that index, or the last value when there
  is none; the replacement returns it in two steps.
\<close>

theorem fold_table_equivalent:
  assumes "constant_table fn = Inr vs" and "table_wf fn" and "table_machine m"
  shows "(\<exists>n. call_for n m fn [IntV k] s = Some (IntV (table_lookup vs k), s)) \<and>
    call_for 2 m (fold_constant_table fn) [IntV k] s = Some (IntV (table_lookup vs k), s)"
proof
  from assms(1) have len: "length (f_params fn) = 1" and ty: "is_table_type (f_return fn)"
    and ne: "f_blocks fn \<noteq> []" and walk: "table_walk (Suc (length (f_blocks fn))) fn (f_blocks fn ! 0) [] = Inr vs"
    by (auto simp: constant_table_def split: if_splits)
  have fuel: "length ([] :: i64 list) + Suc (length (f_blocks fn)) \<le> 2 ^ 63"
    using assms(2) by (simp add: table_wf_def)
  let ?\<sigma> = "start (call_env fn [IntV k]) s"
  obtain q where q: "f_params fn = [q]" using len by (auto simp: length_Suc_conv)
  then have "st_env ?\<sigma> (p_name (f_params fn ! 0)) = Some (IntV k)" "f_params fn \<noteq> []" "0 < length (f_blocks fn)"
    using ne by (auto simp: start_def call_env_def)
  from table_walk_reach[OF ty assms(3,2) this(2) walk this(3) fuel _ _ this(1)]
  obtain \<tau> where "reach m fn ?\<sigma> \<tau>" "step m fn \<tau> = Done (IntV (table_lookup vs k)) s"
    by (auto simp: start_def)
  from reach_run[OF this] show "\<exists>n. call_for n m fn [IntV k] s = Some (IntV (table_lookup vs k), s)"
    by (simp add: call_for_def)
  have "vs \<noteq> []" using table_walk_prefix[OF walk] by auto
  then have "table_values (shape (table_get fn vs)) = vs"
    by (intro table_values_format) (simp_all add: table_get_def new_instr_def)
  then have "exec m \<sigma> (table_get fn vs) = Some (Yield (IntV (table_lookup vs k)) (st_mem \<sigma>))"
    if "st_env \<sigma> (p_name q) = Some (IntV k)" for \<sigma>
    using that q assms(3)
    by (simp add: exec_def fixed_value_def table_get_def new_instr_def direct_reads_def param_value_def
        operand_def table_machine_def)
  then have get: "exec m (start (call_env fn [IntV k]) s) (table_get fn vs) =
      Some (Yield (IntV (table_lookup vs k)) s)"
    using q by (simp add: start_def call_env_def)
  have named: "v_name (i_result (table_get fn vs)) \<noteq> []"
    using assms(2) by (simp add: table_get_def new_instr_def table_wf_def)
  show "call_for 2 m (fold_constant_table fn) [IntV k] s = Some (IntV (table_lookup vs k), s)"
  proof -
    let ?fn = "fold_constant_table fn"
    have bs: "f_blocks ?fn = [\<lparr>b_name = b_name (f_blocks fn ! 0), b_instrs = [table_get fn vs],
        b_term = (new_term ''return'')\<lparr>t_value := i_result (table_get fn vs)\<rparr>\<rparr>]"
      and ps: "f_params ?fn = f_params fn" using assms(1) by (simp_all add: fold_constant_table_def)
    have "call_env ?fn [IntV k] = (call_env fn [IntV k] :: 'a env)" by (simp add: call_env_def ps)
    then show ?thesis using get named
      by (simp add: call_for_def numeral_2_eq_2 step_def bs start_def after_def bind_result_def
          end_block_def new_term_def operand_def)
  qed
qed

text \<open>A machine with the operations of tables, and a function of two entries and a rest.\<close>

definition table_ops :: "(unit, unit) machine" where
  "table_ops =
     \<lparr>mc_op = (\<lambda>i vals s.
        if i_op i = ''const'' then map_option (\<lambda>v. Yield (IntV v) s) (parse_uint64 (i_immediate i))
        else if i_op i = ''table.get'' then
          (case vals of [IntV k] \<Rightarrow> Some (Yield (IntV (table_lookup (table_values i) k)) s) | _ \<Rightarrow> None)
        else (case vals of
                [IntV l, IntV r] \<Rightarrow>
                  map_option (\<lambda>v. Yield (IntV v) s) (table_arithmetic (i_op i) l r (v_type (i_result i)))
              | _ \<Rightarrow> None)),
      mc_lit = (\<lambda>_. None)\<rparr>"

definition table_example :: func where
  "table_example =
     (let const_u64 = (\<lambda>x imm. (new_instr (typed x ''u64'') ''const'')\<lparr>i_immediate := imm\<rparr>);
          link = (\<lambda>b key x c taken other.
            block_of b [const_i64 x key, binary_i64 c ''bool'' ''binary.=='' ''a'' x]
              \<lparr>t_op = ''branch'', t_value = no_value, t_cond = typed c ''bool'', t_target = taken, t_else = other\<rparr>);
          jump = (\<lambda>b target. block_of b [] ((new_term ''jump'')\<lparr>t_target := target\<rparr>));
          give = (\<lambda>b x imm. block_of b [const_u64 x imm] (return_of x ''u64''))
      in function_of [\<lparr>p_name = ''a'', p_type = ''i64'', p_passing = PassValue\<rparr>] ''u64''
         [link ''entry'' ''0'' ''%1'' ''%2'' ''t0'' ''e0'', give ''t0'' ''%3'' ''10'', jump ''e0'' ''n0'',
          link ''n0'' ''1'' ''%4'' ''%5'' ''t1'' ''e1'', give ''t1'' ''%6'' ''20'', jump ''e1'' ''n1'',
          give ''n1'' ''%7'' ''30''])"

theorem fold_table_equivalent_witness:
  "(\<exists>n. call_for n table_ops table_example [IntV 1] () = Some (IntV 20, ())) \<and>
   call_for 2 table_ops (fold_constant_table table_example) [IntV 1] () = Some (IntV 20, ())"
proof -
  have "ssa table_example" "list_all plain (all_instrs table_example)" "length (f_blocks table_example) = 7"
    "v_name (t_value (b_term (last (f_blocks table_example)))) \<noteq> []" by code_simp+
  then have "table_wf table_example" by (simp add: table_wf_def)
  moreover have "constant_table table_example = Inr [10, 20, 30]" by code_simp
  moreover have "table_machine table_ops"
    by (auto simp: table_machine_def table_ops_def table_arithmetic_def split: if_splits)
  moreover have "table_lookup [10, 20, 30] 1 = 20" by code_simp
  ultimately show ?thesis using fold_table_equivalent[of table_example "[10, 20, 30]" table_ops 1 "()"] by simp
qed

end
