(* ===== verification/Worklist.thy ===== *)
theory Worklist
  imports Prelude
begin

text \<open>
  The loop the reachability passes share: a queue of marked items, each taken off once,
  whose successors are marked and queued unless they are marked already or are refused.
  The locale states what a client has to supply, a finite set that holds all it can mark,
  and proves once that the marked items are exactly the closure of the seeds.
\<close>

section \<open>The loop\<close>

definition push :: "('a \<Rightarrow> bool) \<Rightarrow> 'a \<Rightarrow> 'a list \<times> 'a list \<Rightarrow> 'a list \<times> 'a list" where
  "push guard x st =
     (if \<not> guard x \<or> x \<in> set (fst st) then st else (fst st @ [x], snd st @ [x]))"

definition push_all :: "('a \<Rightarrow> bool) \<Rightarrow> 'a list \<Rightarrow> 'a list \<times> 'a list \<Rightarrow> 'a list \<times> 'a list" where
  "push_all guard xs st = fold (push guard) xs st"

text \<open>Each round takes the head of the queue; the fuel bounds the rounds.\<close>

primrec drain :: "nat \<Rightarrow> ('a \<Rightarrow> bool) \<Rightarrow> ('a \<Rightarrow> 'a list) \<Rightarrow> 'a list \<times> 'a list \<Rightarrow> 'a list option" where
  "drain 0 guard succ st = (if snd st = [] then Some (fst st) else None)"
| "drain (Suc fuel) guard succ st =
     (case snd st of
        [] \<Rightarrow> Some (fst st)
      | x # queue \<Rightarrow> drain fuel guard succ (push_all guard (succ x) (fst st, queue)))"

inductive closure :: "('a \<Rightarrow> bool) \<Rightarrow> ('a \<Rightarrow> 'a list) \<Rightarrow> 'a list \<Rightarrow> 'a \<Rightarrow> bool"
  for guard succ roots where
  root: "x \<in> set roots \<Longrightarrow> guard x \<Longrightarrow> closure guard succ roots x"
| step: "closure guard succ roots x \<Longrightarrow> y \<in> set (succ x) \<Longrightarrow> guard y \<Longrightarrow> closure guard succ roots y"

section \<open>One round\<close>

lemma push_all_result:
  assumes "push_all guard xs (seen, queue) = (seen', queue')" and "distinct seen"
  shows "\<exists>new. seen' = seen @ new \<and> queue' = queue @ new \<and> distinct seen' \<and>
    set new = {x \<in> set xs. guard x} - set seen"
  using assms
proof (induction xs arbitrary: seen queue)
  case (Cons x xs)
  show ?case
  proof (cases "\<not> guard x \<or> x \<in> set seen")
    case True
    with Cons.prems have "push_all guard xs (seen, queue) = (seen', queue')"
      by (simp add: push_all_def push_def)
    from Cons.IH[OF this Cons.prems(2)] True show ?thesis by auto
  next
    case False
    with Cons.prems have "push_all guard xs (seen @ [x], queue @ [x]) = (seen', queue')"
      by (simp add: push_all_def push_def)
    from Cons.IH[OF this] False Cons.prems(2) obtain new where
      "seen' = (seen @ [x]) @ new" "queue' = (queue @ [x]) @ new" "distinct seen'"
      "set new = {y \<in> set xs. guard y} - set (seen @ [x])" by auto
    with False show ?thesis by (intro exI[of _ "x # new"]) auto
  qed
qed (simp add: push_all_def)

section \<open>What a client supplies and gets\<close>

locale worklist =
  fixes guard :: "'a \<Rightarrow> bool" and succ :: "'a \<Rightarrow> 'a list" and U :: "'a set"
  assumes finite_U: "finite U"
    and succ_U: "x \<in> U \<Longrightarrow> y \<in> set (succ x) \<Longrightarrow> guard y \<Longrightarrow> y \<in> U"
begin

text \<open>Between rounds: every marked item is wanted, and only queued ones are unexplored.\<close>

definition progress_inv :: "'a list \<Rightarrow> 'a list \<times> 'a list \<Rightarrow> bool" where
  "progress_inv roots st \<longleftrightarrow> distinct (fst st) \<and> distinct (snd st) \<and> set (snd st) \<subseteq> set (fst st) \<and>
     set (fst st) \<subseteq> U \<and> (\<forall>x\<in>set (fst st). closure guard succ roots x) \<and>
     {x \<in> set roots. guard x} \<subseteq> set (fst st) \<and>
     (\<forall>x\<in>set (fst st) - set (snd st). {y \<in> set (succ x). guard y} \<subseteq> set (fst st))"

lemma seeded:
  assumes "{x \<in> set roots. guard x} \<subseteq> U"
  shows "progress_inv roots (push_all guard roots ([], []))"
proof -
  obtain seen queue where p: "push_all guard roots ([], []) = (seen, queue)"
    by (cases "push_all guard roots ([], [])")
  from push_all_result[OF p] have "seen = queue" "distinct seen" "set seen = {x \<in> set roots. guard x}"
    by auto
  with assms show ?thesis unfolding p progress_inv_def by (auto intro: closure.root)
qed

lemma round:
  assumes "progress_inv roots (seen, x # queue)"
  shows "progress_inv roots (push_all guard (succ x) (seen, queue)) \<and>
    card (U - set (fst (push_all guard (succ x) (seen, queue)))) + length (snd (push_all guard (succ x) (seen, queue)))
      < card (U - set seen) + length (x # queue)"
proof -
  obtain seen' queue' where p: "push_all guard (succ x) (seen, queue) = (seen', queue')"
    by (cases "push_all guard (succ x) (seen, queue)")
  from assms have inv: "distinct seen" "distinct (x # queue)" "set (x # queue) \<subseteq> set seen" "set seen \<subseteq> U"
    by (auto simp: progress_inv_def)
  from push_all_result[OF p inv(1)] obtain new where new: "seen' = seen @ new" "queue' = queue @ new"
    "distinct seen'" "set new = {y \<in> set (succ x). guard y} - set seen" by blast
  have sub: "set new \<subseteq> U" using new(4) inv succ_U[of x] by auto
  then have fresh: "set new \<subseteq> U - set seen" "distinct new" using new by auto
  have "U - set seen' = (U - set seen) - set new" using new(1) by auto
  then have "card (U - set seen') = card (U - set seen) - length new"
    using fresh by (simp add: card_Diff_subset distinct_card)
  moreover have "length new \<le> card (U - set seen)"
    using fresh finite_U by (metis card_mono distinct_card finite_Diff)
  ultimately have "card (U - set seen') + length queue' < card (U - set seen) + length (x # queue)"
    using new(2) by simp
  moreover have "progress_inv roots (seen', queue')"
    using assms new sub by (auto simp: progress_inv_def intro: closure.step)
  ultimately show ?thesis by (simp add: p)
qed

lemma drained:
  assumes "progress_inv roots st" and "snd st = []"
  shows "distinct (fst st) \<and> set (fst st) = {x. closure guard succ roots x}"
proof -
  have "x \<in> set (fst st)" if "closure guard succ roots x" for x
    using that assms by (induction rule: closure.induct) (auto simp: progress_inv_def)
  with assms show ?thesis by (auto simp: progress_inv_def)
qed

lemma drain_exact:
  assumes "progress_inv roots st" and "card (U - set (fst st)) + length (snd st) \<le> fuel"
  shows "\<exists>seen. drain fuel guard succ st = Some seen \<and> distinct seen \<and>
    set seen = {x. closure guard succ roots x}"
  using assms
proof (induction fuel arbitrary: st)
  case 0
  then have "snd st = []" by simp
  with drained[OF "0.prems"(1)] show ?case by simp
next
  case (Suc fuel)
  obtain seen q where st: "st = (seen, q)" by (cases st)
  show ?case
  proof (cases q)
    case Nil
    with drained[OF Suc.prems(1)] st show ?thesis by simp
  next
    case (Cons x queue)
    from round[of roots seen x queue] Suc.prems st Cons
    have "progress_inv roots (push_all guard (succ x) (seen, queue))"
      "card (U - set (fst (push_all guard (succ x) (seen, queue)))) +
        length (snd (push_all guard (succ x) (seen, queue))) \<le> fuel" by auto
    from Suc.IH[OF this] st Cons show ?thesis by simp
  qed
qed

text \<open>Enough fuel for every seed: one round for each item that can be marked.\<close>

lemma search_exact:
  assumes "{x \<in> set roots. guard x} \<subseteq> U" and "card U \<le> fuel"
  shows "\<exists>seen. drain fuel guard succ (push_all guard roots ([], [])) = Some seen \<and> distinct seen \<and>
    set seen = {x. closure guard succ roots x}"
proof (rule drain_exact[OF seeded[OF assms(1)]])
  let ?st = "push_all guard roots ([], [])"
  from seeded[OF assms(1)] have inv: "distinct (snd ?st)" "set (snd ?st) \<subseteq> set (fst ?st)" "set (fst ?st) \<subseteq> U"
    by (auto simp: progress_inv_def)
  have "length (snd ?st) = card (set (snd ?st))" using inv(1) by (simp add: distinct_card)
  also have "\<dots> \<le> card (set (fst ?st))" using inv(2) by (simp add: card_mono)
  finally have "length (snd ?st) \<le> card (set (fst ?st))" .
  moreover have "card (U - set (fst ?st)) = card U - card (set (fst ?st))"
    using inv(3) by (simp add: card_Diff_subset)
  moreover have "card (set (fst ?st)) \<le> card U" using inv(3) finite_U by (simp add: card_mono)
  ultimately show "card (U - set (fst ?st)) + length (snd ?st) \<le> fuel" using assms(2) by linarith
qed

end

end
