(* ===== verification/Lexer.thy ===== *)
theory Lexer
  imports Prelude
begin

text \<open>
  Packages source, token and lexer (internal/source/source.go, internal/token/token.go,
  internal/lexer/lexer.go). A rune is its code point. The scanner keeps the code's state:
  the input, the position of the current rune and of the next one, the current rune (0
  past the end), the line and column, and the comments kept for the next token. A scan
  loop reads while a condition holds that the rune 0 never meets, so it ends
  (\<open>read_while\<close>); the tokens of an input are read with one unit of fuel for each rune
  and one more, which \<open>lex_ends\<close> shows is enough.
\<close>

section \<open>Source files\<close>

record source_file =
  sf_path :: string
  sf_text :: "nat list"

type_synonym source_map = "source_file list"

text \<open>A handle names a file of the one map of an invocation; the zero handle names none.\<close>

type_synonym source_id = "nat option"

definition source_add :: "source_map \<Rightarrow> string \<Rightarrow> nat list \<Rightarrow> source_id \<times> source_map" where
  "source_add m path t = (Some (length m), m @ [\<lparr>sf_path = path, sf_text = t\<rparr>])"

definition source_file_of :: "source_map \<Rightarrow> source_id \<Rightarrow> source_file option" where
  "source_file_of m sid =
     (case sid of None \<Rightarrow> None | Some n \<Rightarrow> if n < length m then Some (m ! n) else None)"

definition source_path :: "source_map \<Rightarrow> source_id \<Rightarrow> string" where
  "source_path m sid = (case source_file_of m sid of Some f \<Rightarrow> sf_path f | None \<Rightarrow> [])"

definition source_text :: "source_map \<Rightarrow> source_id \<Rightarrow> nat list" where
  "source_text m sid = (case source_file_of m sid of Some f \<Rightarrow> sf_text f | None \<Rightarrow> [])"

section \<open>Tokens\<close>

text \<open>A token type is its text, as in the code; a keyword's type is its own spelling.\<close>

record token =
  tk_type :: string
  tk_literal :: "rune list"
  tk_line :: nat
  tk_column :: nat
  tk_doc :: "rune list list"
  tk_safety :: "rune list list"
  tk_source :: source_id

definition keyword_list :: "string list" where
  "keyword_list =
     [''fn'', ''import'', ''pub'', ''let'', ''var'', ''return'', ''defer'', ''errdefer'', ''if'', ''else'',
      ''while'', ''break'', ''continue'', ''match'', ''struct'', ''enum'', ''union'', ''contract'', ''for'',
      ''impl'', ''true'', ''false'', ''and'', ''or'', ''mut'', ''unsafe'', ''extern'', ''export'',
      ''comptime'', ''try'', ''move'', ''null'', ''orelse'', ''catch'']"

definition lookup_ident :: "rune list \<Rightarrow> string" where
  "lookup_ident ident =
     (case find (\<lambda>k. runes k = ident) keyword_list of Some k \<Rightarrow> k | None \<Rightarrow> ''IDENT'')"

section \<open>The scanner's state\<close>

record lexer =
  lx_input :: "rune list"
  lx_position :: nat
  lx_read :: nat
  lx_ch :: rune
  lx_line :: nat
  lx_column :: nat
  lx_doc :: "rune list list"
  lx_safety :: "rune list list"
  lx_source :: source_id

definition read_char :: "lexer \<Rightarrow> lexer" where
  "read_char l =
     (let ch = (if length (lx_input l) \<le> lx_read l then 0 else lx_input l ! lx_read l)
      in l\<lparr>lx_ch := ch, lx_position := lx_read l, lx_read := Suc (lx_read l),
           lx_line := (if ch = 10 then Suc (lx_line l) else lx_line l),
           lx_column := (if ch = 10 then 0 else Suc (lx_column l))\<rparr>)"

definition peek_char :: "lexer \<Rightarrow> rune" where
  "peek_char l = (if length (lx_input l) \<le> lx_read l then 0 else lx_input l ! lx_read l)"

definition peek_rune :: "lexer \<Rightarrow> nat \<Rightarrow> rune" where
  "peek_rune l offset =
     (if length (lx_input l) \<le> lx_position l + offset then 0 else lx_input l ! (lx_position l + offset))"

definition new_source :: "source_id \<Rightarrow> rune list \<Rightarrow> lexer" where
  "new_source sid input =
     read_char \<lparr>lx_input = input, lx_position = 0, lx_read = 0, lx_ch = 0, lx_line = 1, lx_column = 0,
       lx_doc = [], lx_safety = [], lx_source = sid\<rparr>"

definition slice_from :: "lexer \<Rightarrow> nat \<Rightarrow> rune list" where
  "slice_from l start = take (lx_position l - start) (drop start (lx_input l))"

section \<open>Character classes and loops\<close>

definition is_letter :: "rune \<Rightarrow> bool" where
  "is_letter ch \<longleftrightarrow> (97 \<le> ch \<and> ch \<le> 122) \<or> (65 \<le> ch \<and> ch \<le> 90) \<or> ch = 95"

definition is_dec :: "rune \<Rightarrow> bool" where
  "is_dec ch \<longleftrightarrow> 48 \<le> ch \<and> ch \<le> 57"

definition is_hex_digit :: "rune \<Rightarrow> bool" where
  "is_hex_digit ch \<longleftrightarrow> is_dec ch \<or> (97 \<le> ch \<and> ch \<le> 102) \<or> (65 \<le> ch \<and> ch \<le> 70)"

definition is_blank :: "rune \<Rightarrow> bool" where
  "is_blank ch \<longleftrightarrow> ch = 32 \<or> ch = 9 \<or> ch = 10 \<or> ch = 13"

text \<open>How many runes are left to read, as the loops count them.\<close>

definition left :: "lexer \<Rightarrow> nat" where
  "left l = (if lx_ch l = 0 then 0 else Suc (length (lx_input l) - lx_read l))"

lemma read_char_left: "lx_ch l \<noteq> 0 \<Longrightarrow> left (read_char l) < left l"
  by (auto simp: left_def read_char_def Let_def)

function read_while :: "(rune \<Rightarrow> bool) \<Rightarrow> lexer \<Rightarrow> lexer" where
  "read_while p l = (if lx_ch l \<noteq> 0 \<and> p (lx_ch l) then read_while p (read_char l) else l)"
  by pat_completeness auto
termination
  by (relation "measure (\<lambda>(p, l). left l)") (auto simp: read_char_left)

declare read_while.simps [simp del]

primrec read_chars :: "nat \<Rightarrow> lexer \<Rightarrow> lexer" where
  "read_chars 0 l = l"
| "read_chars (Suc n) l = read_chars n (read_char l)"

section \<open>Comments and white space\<close>

text \<open>Reports whether a blank line was passed: more than one newline.\<close>

function skip_whitespace_loop :: "nat \<Rightarrow> lexer \<Rightarrow> nat \<times> lexer" where
  "skip_whitespace_loop newlines l =
     (if lx_ch l \<noteq> 0 \<and> is_blank (lx_ch l)
      then skip_whitespace_loop (if lx_ch l = 10 then Suc newlines else newlines) (read_char l)
      else (newlines, l))"
  by pat_completeness auto
termination
  by (relation "measure (\<lambda>(n, l). left l)") (auto simp: read_char_left)

declare skip_whitespace_loop.simps [simp del]

definition skip_whitespace :: "lexer \<Rightarrow> bool \<times> lexer" where
  "skip_whitespace l = (case skip_whitespace_loop 0 l of (newlines, l') \<Rightarrow> (newlines > 1, l'))"

definition skip_line_comment :: "lexer \<Rightarrow> lexer" where
  "skip_line_comment l = read_while (\<lambda>ch. ch \<noteq> 10) l"

definition is_doc_comment_start :: "lexer \<Rightarrow> bool" where
  "is_doc_comment_start l \<longleftrightarrow> peek_rune l 2 = 47 \<and> peek_rune l 3 \<noteq> 47"

definition safety_prefix :: "rune list" where
  "safety_prefix = runes ''SAFETY:''"

text \<open>The blanks after the slashes: the rune past the end is no blank, so the scan ends.\<close>

definition safety_offset :: "lexer \<Rightarrow> nat" where
  "safety_offset l =
     2 + length (takeWhile (\<lambda>ch. ch = 32 \<or> ch = 9) (drop (lx_position l + 2) (lx_input l)))"

definition read_safety_comment :: "lexer \<Rightarrow> (rune list \<times> lexer) option" where
  "read_safety_comment l =
     (let offset = safety_offset l
      in if list_all (\<lambda>i. peek_rune l (offset + i) = safety_prefix ! i) [0..<length safety_prefix]
         then let l1 = read_chars (offset + length safety_prefix) l; l2 = skip_line_comment l1
              in Some (trim_runes (slice_from l2 (lx_position l1)), l2)
         else None)"

definition read_doc_comment :: "lexer \<Rightarrow> rune list \<times> lexer" where
  "read_doc_comment l =
     (let l1 = read_chars 3 l;
          l2 = (if lx_ch l1 = 32 then read_char l1 else l1);
          l3 = skip_line_comment l2;
          body = slice_from l3 (lx_position l2)
      in (if body \<noteq> [] \<and> last body = 13 then butlast body else body, l3))"

definition clear_pending :: "lexer \<Rightarrow> lexer" where
  "clear_pending l = l\<lparr>lx_doc := [], lx_safety := []\<rparr>"

text \<open>One turn of the loop of skipIgnored: the state after it, and whether it goes on.\<close>

definition skip_turn :: "lexer \<Rightarrow> bool \<times> lexer" where
  "skip_turn l =
     (let (blank, l0) = skip_whitespace l; l1 = (if blank then clear_pending l0 else l0)
      in if lx_ch l1 \<noteq> 47 \<or> peek_char l1 \<noteq> 47 then (False, l1)
         else if is_doc_comment_start l1 then
           (let (t, l2) = read_doc_comment l1 in (True, l2\<lparr>lx_doc := lx_doc l2 @ [t]\<rparr>))
         else (case read_safety_comment l1 of
                 Some (t, l2) \<Rightarrow> (True, l2\<lparr>lx_safety := lx_safety l2 @ [t]\<rparr>)
               | None \<Rightarrow> (True, skip_line_comment (clear_pending l1))))"

section \<open>Termination of the loops\<close>

definition unread :: "lexer \<Rightarrow> nat" where
  "unread l = length (lx_input l) - lx_read l"

text \<open>\<open>ahead l l'\<close>: the same input, read at least as far.\<close>

definition ahead :: "lexer \<Rightarrow> lexer \<Rightarrow> bool" where
  "ahead l l' \<longleftrightarrow> lx_input l' = lx_input l \<and> lx_read l \<le> lx_read l'"

lemma ahead_refl [simp]: "ahead l l"
  by (simp add: ahead_def)

lemma ahead_trans: "ahead l l' \<Longrightarrow> ahead l' l'' \<Longrightarrow> ahead l l''"
  by (auto simp: ahead_def)

lemma ahead_unread: "ahead l l' \<Longrightarrow> unread l' \<le> unread l"
  by (auto simp: ahead_def unread_def)

lemma read_char_input [simp]: "lx_input (read_char l) = lx_input l" "lx_read (read_char l) = Suc (lx_read l)"
  "lx_position (read_char l) = lx_read l" "lx_source (read_char l) = lx_source l"
  "lx_doc (read_char l) = lx_doc l" "lx_safety (read_char l) = lx_safety l"
  by (simp_all add: read_char_def Let_def)

lemma read_char_ahead: "ahead l (read_char l)"
  by (simp add: ahead_def)

lemma read_while_ahead: "ahead l (read_while p l)"
proof (induction p l rule: read_while.induct)
  case (1 p l)
  then show ?case by (subst read_while.simps) (auto intro: ahead_trans[OF read_char_ahead])
qed

lemma read_chars_ahead: "lx_input (read_chars n l) = lx_input l \<and> lx_read (read_chars n l) = lx_read l + n"
  by (induction n arbitrary: l) auto

lemma skip_whitespace_loop_ahead: "ahead l (snd (skip_whitespace_loop n l))"
proof (induction n l rule: skip_whitespace_loop.induct)
  case (1 n l)
  then show ?case by (subst skip_whitespace_loop.simps) (auto intro: ahead_trans[OF read_char_ahead])
qed

lemma skip_whitespace_ahead: "ahead l (snd (skip_whitespace l))"
  using skip_whitespace_loop_ahead[of l 0]
  by (cases "skip_whitespace_loop 0 l") (simp add: skip_whitespace_def)

lemma peek_char_more: "peek_char l \<noteq> 0 \<Longrightarrow> lx_read l < length (lx_input l)"
  by (auto simp: peek_char_def split: if_splits)

lemma ahead_fields [simp]:
  "ahead l (l'\<lparr>lx_doc := d\<rparr>) = ahead l l'" "ahead l (l'\<lparr>lx_safety := d\<rparr>) = ahead l l'"
  "ahead l (clear_pending l') = ahead l l'" "ahead (clear_pending l) l' = ahead l l'"
  by (simp_all add: ahead_def clear_pending_def)

lemma skip_turn_unread:
  assumes "skip_turn l = (True, l')"
  shows "unread l' < unread l"
proof -
  obtain blank l0 where w: "skip_whitespace l = (blank, l0)" by (cases "skip_whitespace l")
  define l1 where "l1 = (if blank then clear_pending l0 else l0)"
  have "ahead l l0" using skip_whitespace_ahead[of l] w by simp
  then have first: "ahead l l1" by (simp add: l1_def)
  from assms have ch: "lx_ch l1 = 47" "peek_char l1 = 47"
    by (auto simp: skip_turn_def w Let_def l1_def split: if_splits)
  then have more: "lx_read l1 < length (lx_input l1)" using peek_char_more[of l1] by simp
  have "lx_input l' = lx_input l1 \<and> lx_read l1 < lx_read l'"
  proof (cases "is_doc_comment_start l1")
    case True
    have two: "ahead (read_chars 3 l1) (if lx_ch (read_chars 3 l1) = 32 then read_char (read_chars 3 l1) else read_chars 3 l1)"
      by (simp add: read_char_ahead)
    have "ahead (read_chars 3 l1) (snd (read_doc_comment l1))"
      unfolding read_doc_comment_def Let_def snd_conv skip_line_comment_def
      by (rule ahead_trans[OF two read_while_ahead])
    moreover have "l' = (snd (read_doc_comment l1))\<lparr>lx_doc := lx_doc (snd (read_doc_comment l1)) @ [fst (read_doc_comment l1)]\<rparr>"
      using assms True ch by (auto simp: skip_turn_def w Let_def l1_def split: prod.splits)
    ultimately show ?thesis using read_chars_ahead[of 3 l1] by (auto simp: ahead_def)
  next
    case False
    show ?thesis
    proof (cases "read_safety_comment l1")
      case None
      have "l' = skip_line_comment (clear_pending l1)"
        using assms False None ch by (simp add: skip_turn_def w Let_def l1_def)
      also have "\<dots> = read_while (\<lambda>ch. ch \<noteq> 10) (read_char (clear_pending l1))"
        using ch(1) unfolding skip_line_comment_def
        by (subst read_while.simps) (simp add: clear_pending_def)
      finally have "ahead (read_char (clear_pending l1)) l'" using read_while_ahead by simp
      then show ?thesis by (auto simp: ahead_def clear_pending_def)
    next
      case (Some tl)
      obtain t l2 where tl: "tl = (t, l2)" by (cases tl)
      then have l': "l' = l2\<lparr>lx_safety := lx_safety l2 @ [t]\<rparr>"
        using assms False Some ch by (simp add: skip_turn_def w Let_def l1_def)
      have "ahead (read_chars (safety_offset l1 + length safety_prefix) l1) l2"
        using Some tl by (auto simp: read_safety_comment_def Let_def skip_line_comment_def read_while_ahead split: if_splits)
      with l' read_chars_ahead[of "safety_offset l1 + length safety_prefix" l1] show ?thesis
        by (auto simp: ahead_def safety_offset_def)
    qed
  qed
  with more first show ?thesis by (auto simp: unread_def ahead_def)
qed

function skip_ignored :: "lexer \<Rightarrow> lexer" where
  "skip_ignored l = (case skip_turn l of (again, l') \<Rightarrow> if again then skip_ignored l' else l')"
  by pat_completeness auto
termination
  by (relation "measure unread") (auto dest!: skip_turn_unread[OF sym])

declare skip_ignored.simps [simp del]

section \<open>Literals\<close>

definition read_identifier :: "lexer \<Rightarrow> rune list \<times> lexer" where
  "read_identifier l =
     (let l' = read_while (\<lambda>ch. is_letter ch \<or> is_dec ch) l in (slice_from l' (lx_position l), l'))"

definition read_digits :: "lexer \<Rightarrow> lexer" where
  "read_digits l = read_while (\<lambda>ch. is_dec ch \<or> ch = 95) l"

definition read_fraction :: "lexer \<Rightarrow> bool \<times> lexer" where
  "read_fraction l =
     (if lx_ch l \<noteq> 46 \<or> \<not> is_dec (peek_char l) then (False, l)
      else (True, read_digits (read_char l)))"

definition read_exponent :: "lexer \<Rightarrow> bool \<times> lexer" where
  "read_exponent l =
     (if lx_ch l \<noteq> 101 \<and> lx_ch l \<noteq> 69 then (False, l)
      else if \<not> is_dec (peek_char l) \<and> peek_char l \<noteq> 43 \<and> peek_char l \<noteq> 45 then (False, l)
      else let l1 = read_char l;
               l2 = (if lx_ch l1 = 43 \<or> lx_ch l1 = 45 then read_char l1 else l1)
           in (True, read_while is_dec l2))"

definition read_number :: "lexer \<Rightarrow> rune list \<times> string \<times> lexer" where
  "read_number l =
     (if lx_ch l = 48 \<and> (peek_char l = 120 \<or> peek_char l = 98)
      then let l' = read_while (\<lambda>ch. is_hex_digit ch \<or> ch = 95) (read_chars 2 l)
           in (slice_from l' (lx_position l), ''INT'', l')
      else let l1 = read_digits l; (frac, l2) = read_fraction l1; (expo, l3) = read_exponent l2
           in (slice_from l3 (lx_position l), if frac \<or> expo then ''FLOAT'' else ''INT'', l3))"

definition read_string :: "lexer \<Rightarrow> rune list \<times> lexer" where
  "read_string l =
     (let l1 = read_char l;
          l2 = read_while (\<lambda>ch. ch \<noteq> 34) l1
      in (slice_from l2 (lx_position l1), if lx_ch l2 = 34 then read_char l2 else l2))"

definition multiline_continuation :: "lexer \<Rightarrow> lexer option" where
  "multiline_continuation l =
     (let after = drop (lx_read l) (lx_input l);
          blanks = takeWhile (\<lambda>ch. ch = 32 \<or> ch = 9 \<or> ch = 13) after
      in if lx_ch l = 10 \<and> prefix [92, 92] (drop (length blanks) after)
         then Some (read_chars (Suc (length blanks)) l) else None)"

lemma multiline_continuation_unread:
  assumes "multiline_continuation (read_while p (read_chars 2 l)) = Some l'"
  shows "unread l' < unread l"
proof -
  let ?l = "read_while p (read_chars 2 l)"
  let ?blanks = "takeWhile (\<lambda>ch. ch = 32 \<or> ch = 9 \<or> ch = 13) (drop (lx_read ?l) (lx_input ?l))"
  define n where "n = Suc (length ?blanks)"
  from assms have n: "l' = read_chars n ?l" "prefix [92, 92] (drop (length ?blanks) (drop (lx_read ?l) (lx_input ?l)))"
    unfolding multiline_continuation_def Let_def n_def by (auto split: if_splits simp del: drop_drop)
  then have "drop (lx_read ?l) (lx_input ?l) \<noteq> []" by auto
  then have "lx_read ?l < length (lx_input ?l)" by simp
  moreover have "ahead (read_chars 2 l) ?l" by (rule read_while_ahead)
  ultimately show ?thesis
    using read_chars_ahead[of 2 l] read_chars_ahead[of n ?l] n by (auto simp: unread_def ahead_def)
qed

function read_multiline :: "lexer \<Rightarrow> rune list \<times> lexer" where
  "read_multiline l =
     (let l1 = read_chars 2 l; l2 = read_while (\<lambda>ch. ch \<noteq> 10) l1; body = slice_from l2 (lx_position l1)
      in case multiline_continuation l2 of
           None \<Rightarrow> (body, l2)
         | Some l3 \<Rightarrow> (case read_multiline l3 of (tail, l4) \<Rightarrow> (body @ [10] @ tail, l4)))"
  by pat_completeness auto
termination
  by (relation "measure unread") (auto dest: multiline_continuation_unread)

declare read_multiline.simps [simp del]

section \<open>Tokens of the input\<close>

definition mk_token :: "lexer \<Rightarrow> string \<Rightarrow> rune list \<Rightarrow> token" where
  "mk_token l ty lit = \<lparr>tk_type = ty, tk_literal = lit, tk_line = lx_line l, tk_column = lx_column l,
     tk_doc = [], tk_safety = [], tk_source = lx_source l\<rparr>"

definition single_char_tokens :: "rune \<rightharpoonup> string" where
  "single_char_tokens ch = map_of (map (\<lambda>c. (rune c, [c])) ''+/&*%^~@?|,:;(){}[]'') ch"

text \<open>The rune that makes an operator a compound one, and the two types.\<close>

definition compound_tokens :: "rune \<rightharpoonup> rune \<times> string \<times> string" where
  "compound_tokens ch =
     map_of [(rune (CHR ''=''), (rune (CHR ''=''), ''=='', ''='')),
             (rune (CHR ''-''), (rune (CHR ''>''), ''->'', ''-'')),
             (rune (CHR ''!''), (rune (CHR ''=''), ''!='', ''!'')),
             (rune (CHR ''<''), (rune (CHR ''=''), ''<='', ''<'')),
             (rune (CHR ''>''), (rune (CHR ''=''), ''>='', ''>'')),
             (rune (CHR ''.''), (rune (CHR ''.''), ''..'', ''.'')),
             (rune (CHR '':''), (rune (CHR '':''), ''::'', '':''))] ch"

definition one_char_token :: "lexer \<Rightarrow> string \<Rightarrow> token \<times> lexer" where
  "one_char_token l ty = (mk_token l ty [lx_ch l], l)"

definition two_char_token :: "lexer \<Rightarrow> string \<Rightarrow> token \<times> lexer" where
  "two_char_token l ty = (mk_token l ty [lx_ch l, lx_ch (read_char l)], read_char l)"

definition read_compound_token :: "lexer \<Rightarrow> rune \<times> string \<times> string \<Rightarrow> token \<times> lexer" where
  "read_compound_token l spec =
     (case spec of (nxt, compound, single) \<Rightarrow>
        if peek_char l = nxt then two_char_token l compound else one_char_token l single)"

definition read_dot_token :: "lexer \<Rightarrow> token \<times> lexer" where
  "read_dot_token l =
     (if peek_char l \<noteq> 46 \<or> peek_rune l 2 \<noteq> 46
      then read_compound_token l (rune (CHR ''.''), ''..'', ''.'')
      else (mk_token l ''...'' (runes ''...''), read_chars 2 l))"

text \<open>Every case that breaks out of the switch reads one more rune; the others return.\<close>

definition scan_token :: "lexer \<Rightarrow> token \<times> lexer" where
  "scan_token l =
     (let break = (\<lambda>(t, l'). (t, read_char l')) in
      if lx_ch l = rune (CHR ''='') then
        (if peek_char l = rune (CHR ''>'') then break (two_char_token l ''=>'')
         else break (read_compound_token l (rune (CHR ''=''), ''=='', ''='')))
      else if lx_ch l = rune (CHR ''.'') then break (read_dot_token l)
      else if lx_ch l = 34 then (case read_string l of (s, l') \<Rightarrow> (mk_token l ''STRING'' s, l'))
      else if lx_ch l = 92 then
        (if peek_char l = 92 then (case read_multiline l of (s, l') \<Rightarrow> (mk_token l ''STRING'' s, l'))
         else break (one_char_token l ''ILLEGAL''))
      else if lx_ch l = 0 then break (mk_token l ''EOF'' [], l)
      else (case compound_tokens (lx_ch l) of
              Some spec \<Rightarrow> break (read_compound_token l spec)
            | None \<Rightarrow>
          (case single_char_tokens (lx_ch l) of
             Some ty \<Rightarrow> break (one_char_token l ty)
           | None \<Rightarrow>
               if lx_ch l = rune (CHR ''c'') \<and> peek_char l = 34 then
                 (case read_string (read_char l) of (s, l') \<Rightarrow> (mk_token l ''CSTRING'' s, l'))
               else if is_letter (lx_ch l) then
                 (case read_identifier l of (s, l') \<Rightarrow> (mk_token l (lookup_ident s) s, l'))
               else if is_dec (lx_ch l) then
                 (case read_number l of (s, ty, l') \<Rightarrow> (mk_token l ty s, l'))
               else break (one_char_token l ''ILLEGAL''))))"

definition next_token :: "lexer \<Rightarrow> token \<times> lexer" where
  "next_token l =
     (let l1 = skip_ignored l; (t, l2) = scan_token (clear_pending l1)
      in (t\<lparr>tk_doc := lx_doc l1, tk_safety := lx_safety l1\<rparr>, l2))"

primrec lex_tokens :: "nat \<Rightarrow> lexer \<Rightarrow> token list option" where
  "lex_tokens 0 l = None"
| "lex_tokens (Suc fuel) l =
     (case next_token l of (t, l') \<Rightarrow>
        if tk_type t = ''EOF'' then Some [t] else map_option (\<lambda>ts. t # ts) (lex_tokens fuel l'))"

definition lex :: "source_id \<Rightarrow> rune list \<Rightarrow> token list option" where
  "lex sid input = lex_tokens (Suc (length input)) (new_source sid input)"

section \<open>Where the scanner stands\<close>

text \<open>The state that has read up to offset \<open>k\<close> of an input, comments aside.\<close>

definition lexer_at :: "source_id \<Rightarrow> rune list \<Rightarrow> nat \<Rightarrow> lexer" where
  "lexer_at sid input k = read_chars k (new_source sid input)"

definition stands :: "source_id \<Rightarrow> rune list \<Rightarrow> nat \<Rightarrow> lexer \<Rightarrow> bool" where
  "stands sid input k l \<longleftrightarrow> clear_pending l = lexer_at sid input k"

definition line_at :: "rune list \<Rightarrow> nat \<Rightarrow> nat" where
  "line_at input p = Suc (count_list (take p input) 10)"

definition column_at :: "rune list \<Rightarrow> nat \<Rightarrow> nat" where
  "column_at input p = Suc (length (takeWhile (\<lambda>ch. ch \<noteq> 10) (rev (take p input))))"

definition rune_at :: "rune list \<Rightarrow> nat \<Rightarrow> rune" where
  "rune_at input k = (if k < length input then input ! k else 0)"

lemma read_chars_Suc: "read_chars (Suc n) l = read_char (read_chars n l)"
  by (induction n arbitrary: l) auto

lemma lexer_at_Suc: "lexer_at sid input (Suc k) = read_char (lexer_at sid input k)"
  by (simp only: lexer_at_def read_chars_Suc)

lemma read_char_clear: "clear_pending (read_char l) = read_char (clear_pending l)"
  by (simp add: clear_pending_def read_char_def Let_def)

lemma stands_new: "stands sid input 0 (new_source sid input)"
  by (simp add: stands_def lexer_at_def clear_pending_def new_source_def read_char_def Let_def)

lemma stands_fields [simp]:
  "stands sid input k (l\<lparr>lx_doc := d\<rparr>) = stands sid input k l"
  "stands sid input k (l\<lparr>lx_safety := d\<rparr>) = stands sid input k l"
  "stands sid input k (clear_pending l) = stands sid input k l"
  by (simp_all add: stands_def clear_pending_def)

lemma stands_read: "stands sid input k l \<Longrightarrow> stands sid input (Suc k) (read_char l)"
  by (simp add: stands_def lexer_at_Suc read_char_clear)

lemma stands_read_chars: "stands sid input k l \<Longrightarrow> stands sid input (k + n) (read_chars n l)"
proof (induction n arbitrary: l k)
  case (Suc n)
  then show ?case using Suc.IH[OF stands_read[OF Suc.prems]] by simp
qed simp

lemma lexer_at_simps [simp]:
  "lx_input (lexer_at sid input k) = input" "lx_position (lexer_at sid input k) = k"
  "lx_read (lexer_at sid input k) = Suc k" "lx_source (lexer_at sid input k) = sid"
  "lx_ch (lexer_at sid input k) = rune_at input k"
  by (induction k)
    (simp_all add: lexer_at_Suc, simp_all add: lexer_at_def new_source_def read_char_def rune_at_def Let_def)

lemma lexer_at_line_col:
  assumes "k \<le> length input"
  shows "lx_line (lexer_at sid input k) = (if rune_at input k = 10 then Suc (line_at input k) else line_at input k)
    \<and> lx_column (lexer_at sid input k) = (if rune_at input k = 10 then 0 else column_at input k)"
  using assms
proof (induction k)
  case 0
  show ?case
    by (auto simp: lexer_at_def new_source_def read_char_def rune_at_def line_at_def column_at_def Let_def)
next
  case (Suc k)
  then have k: "take (Suc k) input = take k input @ [input ! k]" "rune_at input k = input ! k"
    by (simp_all add: take_Suc_conv_app_nth rune_at_def)
  let ?l = "lexer_at sid input k"
  have r: "lx_line (lexer_at sid input (Suc k)) = (if rune_at input (Suc k) = 10 then Suc (lx_line ?l) else lx_line ?l)"
    "lx_column (lexer_at sid input (Suc k)) = (if rune_at input (Suc k) = 10 then 0 else Suc (lx_column ?l))"
    by (simp_all add: lexer_at_Suc read_char_def Let_def rune_at_def)
  show ?case unfolding r using Suc k by (auto simp: line_at_def column_at_def)
qed

lemma stands_simps:
  assumes "stands sid input k l"
  shows "lx_input l = input" "lx_position l = k" "lx_read l = Suc k" "lx_source l = sid" "lx_ch l = rune_at input k"
    "peek_char l = rune_at input (Suc k)" "peek_rune l n = rune_at input (k + n)"
proof -
  have e: "f (clear_pending l) = f (lexer_at sid input k)" for f :: "lexer \<Rightarrow> 'a"
    using assms by (simp add: stands_def)
  show i: "lx_input l = input" using e[of lx_input] by (simp add: clear_pending_def)
  show p: "lx_position l = k" using e[of lx_position] by (simp add: clear_pending_def)
  show r: "lx_read l = Suc k" using e[of lx_read] by (simp add: clear_pending_def)
  show "lx_source l = sid" using e[of lx_source] by (simp add: clear_pending_def)
  show "lx_ch l = rune_at input k" using e[of lx_ch] by (simp add: clear_pending_def)
  show "peek_char l = rune_at input (Suc k)" using i r by (simp add: peek_char_def rune_at_def)
  show "peek_rune l n = rune_at input (k + n)" using i p by (simp add: peek_rune_def rune_at_def)
qed

lemma stands_line_col:
  assumes "stands sid input k l" "k \<le> length input" "rune_at input k \<noteq> 10"
  shows "lx_line l = line_at input k" "lx_column l = column_at input k"
proof -
  have "lx_line l = lx_line (lexer_at sid input k)" "lx_column l = lx_column (lexer_at sid input k)"
    using assms(1) by (auto simp: stands_def clear_pending_def dest: arg_cong[of _ _ lx_line] arg_cong[of _ _ lx_column])
  with lexer_at_line_col[OF assms(2), of sid] assms(3)
  show "lx_line l = line_at input k" "lx_column l = column_at input k" by auto
qed

text \<open>How far a loop reads from an offset.\<close>

definition run_from :: "(rune \<Rightarrow> bool) \<Rightarrow> rune list \<Rightarrow> nat \<Rightarrow> nat" where
  "run_from p input k = k + length (takeWhile (\<lambda>ch. ch \<noteq> 0 \<and> p ch) (drop k input))"

lemma rune_at_drop: "rune_at input k = (case drop k input of [] \<Rightarrow> 0 | ch # _ \<Rightarrow> ch)"
  by (cases "k < length input") (auto simp: rune_at_def Cons_nth_drop_Suc[symmetric])

lemma run_from_step:
  "run_from p input k = (if rune_at input k \<noteq> 0 \<and> p (rune_at input k) then run_from p input (Suc k) else k)"
  by (cases "k < length input") (auto simp: run_from_def rune_at_def Cons_nth_drop_Suc[symmetric])

lemma run_from_bounds: "k \<le> run_from p input k" "k \<le> length input \<Longrightarrow> run_from p input k \<le> length input"
  using length_takeWhile_le[of "\<lambda>ch. ch \<noteq> 0 \<and> p ch" "drop k input"] by (auto simp: run_from_def)

lemma stands_read_while: "stands sid input k l \<Longrightarrow> stands sid input (run_from p input k) (read_while p l)"
proof (induction p l arbitrary: k rule: read_while.induct)
  case (1 p l)
  note s = stands_simps[OF 1(2)]
  show ?case
  proof (cases "lx_ch l \<noteq> 0 \<and> p (lx_ch l)")
    case True
    then show ?thesis using 1(1)[OF True stands_read[OF 1(2)]] s
      by (subst read_while.simps, subst run_from_step) auto
  next
    case False
    then show ?thesis using 1(2) s by (subst read_while.simps, subst run_from_step) auto
  qed
qed

lemma stands_whitespace_loop:
  "stands sid input k l \<Longrightarrow> stands sid input (run_from is_blank input k) (snd (skip_whitespace_loop n l))"
proof (induction n l arbitrary: k rule: skip_whitespace_loop.induct)
  case (1 n l)
  note s = stands_simps[OF 1(2)]
  show ?case
  proof (cases "lx_ch l \<noteq> 0 \<and> is_blank (lx_ch l)")
    case True
    then show ?thesis using 1(1)[OF True stands_read[OF 1(2)]] s
      by (subst skip_whitespace_loop.simps, subst run_from_step) auto
  next
    case False
    then show ?thesis using 1(2) s by (subst skip_whitespace_loop.simps, subst run_from_step) auto
  qed
qed

lemma stands_whitespace:
  "stands sid input k l \<Longrightarrow> stands sid input (run_from is_blank input k) (snd (skip_whitespace l))"
  using stands_whitespace_loop[of sid input k l 0] by (auto simp: skip_whitespace_def split: prod.splits)

lemma slice_from_stands: "stands sid input k l \<Longrightarrow> slice_from l j = take (k - j) (drop j input)"
  by (simp add: slice_from_def stands_simps)

lemma rune_at_nonzero: "rune_at input k \<noteq> 0 \<Longrightarrow> k < length input"
  by (auto simp: rune_at_def split: if_splits)

section \<open>What a token spans\<close>

lemma stands_doc_comment:
  assumes "stands sid input k l" "rune_at input k = 47" "rune_at input (Suc k) = 47" "rune_at input (k + 2) = 47"
  shows "\<exists>k'. k < k' \<and> k' \<le> length input \<and> stands sid input k' (snd (read_doc_comment l))"
proof -
  have three: "stands sid input (k + 3) (read_chars 3 l)" by (rule stands_read_chars[OF assms(1)])
  define j where "j = (if rune_at input (k + 3) = 32 then Suc (k + 3) else k + 3)"
  have two: "stands sid input j (if lx_ch (read_chars 3 l) = 32 then read_char (read_chars 3 l) else read_chars 3 l)"
    using stands_read[OF three] three stands_simps(5)[OF three] by (auto simp: j_def)
  have "k + 2 < length input" using assms(4) by (auto intro: rune_at_nonzero)
  then have j: "k < j" "j \<le> length input" by (auto simp: j_def rune_at_def split: if_splits)
  have "stands sid input (run_from (\<lambda>ch. ch \<noteq> 10) input j) (snd (read_doc_comment l))"
    unfolding read_doc_comment_def Let_def snd_conv skip_line_comment_def by (rule stands_read_while[OF two])
  with j run_from_bounds[where k = j and input = input and p = "\<lambda>ch. ch \<noteq> 10"] show ?thesis
    by (meson less_le_trans)
qed

lemma stands_safety_comment:
  assumes "stands sid input k l" "read_safety_comment l = Some (t, l')"
  shows "\<exists>k'. k < k' \<and> k' \<le> length input \<and> stands sid input k' l'"
proof -
  define n where "n = safety_offset l + length safety_prefix"
  have l': "l' = read_while (\<lambda>ch. ch \<noteq> 10) (read_chars n l)"
    and m: "list_all (\<lambda>i. peek_rune l (safety_offset l + i) = safety_prefix ! i) [0..<length safety_prefix]"
    using assms(2) by (auto simp: read_safety_comment_def Let_def n_def skip_line_comment_def split: if_splits)
  have len: "length safety_prefix = 7" "safety_prefix ! 6 = 58" by (simp_all add: safety_prefix_def)
  have "peek_rune l (safety_offset l + 6) = safety_prefix ! 6" using m by (auto simp: list_all_iff len(1))
  then have "k + (safety_offset l + 6) < length input"
    using stands_simps(7)[OF assms(1)] len by (intro rune_at_nonzero) simp
  then have n: "k < k + n" "k + n \<le> length input" by (simp_all add: n_def len)
  have "stands sid input (run_from (\<lambda>ch. ch \<noteq> 10) input (k + n)) l'"
    unfolding l' by (rule stands_read_while[OF stands_read_chars[OF assms(1)]])
  with n run_from_bounds[where k = "k + n" and input = input and p = "\<lambda>ch. ch \<noteq> 10"] show ?thesis
    by (meson less_le_trans)
qed

lemma stands_skip_turn:
  assumes "stands sid input k l" "k \<le> length input" "skip_turn l = (again, l')"
  shows "\<exists>k'. k \<le> k' \<and> k' \<le> length input \<and> stands sid input k' l' \<and>
    (\<not> again \<longrightarrow> \<not> is_blank (rune_at input k'))"
proof -
  obtain blank l0 where w: "skip_whitespace l = (blank, l0)" by (cases "skip_whitespace l")
  define l1 where "l1 = (if blank then clear_pending l0 else l0)"
  define j where "j = run_from is_blank input k"
  have s: "stands sid input j l1"
    using stands_whitespace[OF assms(1)] w by (simp add: l1_def j_def)
  have j: "k \<le> j" "j \<le> length input" using run_from_bounds assms(2) by (auto simp: j_def)
  note t = assms(3)[unfolded skip_turn_def w Let_def prod.case l1_def[symmetric]]
  have nb: "\<not> is_blank (rune_at input j)"
  proof -
    have "rune_at input j = 0 \<or> \<not> is_blank (rune_at input j)"
      using run_from_step[of is_blank input j] run_from_bounds(1)[of "Suc j" is_blank input]
        nth_length_takeWhile[of "\<lambda>ch. ch \<noteq> 0 \<and> is_blank ch" "drop k input"] assms(2)
      by (auto simp: j_def run_from_def rune_at_def)
    then show ?thesis by (auto simp: is_blank_def)
  qed
  show ?thesis
  proof (cases "lx_ch l1 \<noteq> 47 \<or> peek_char l1 \<noteq> 47")
    case True
    with t have "\<not> again" "l' = l1" by simp_all
    with s j nb show ?thesis by auto
  next
    case False
    then have r: "rune_at input j = 47" "rune_at input (Suc j) = 47" using stands_simps[OF s] by auto
    show ?thesis
    proof (cases "is_doc_comment_start l1")
      case True
      then have "rune_at input (j + 2) = 47" using stands_simps(7)[OF s] by (simp add: is_doc_comment_start_def)
      from stands_doc_comment[OF s r this] obtain k' where
        k': "j < k'" "k' \<le> length input" "stands sid input k' (snd (read_doc_comment l1))" by blast
      moreover have "again" "l' = (snd (read_doc_comment l1))\<lparr>lx_doc := lx_doc (snd (read_doc_comment l1)) @ [fst (read_doc_comment l1)]\<rparr>"
        using t False True by (auto split: prod.splits)
      ultimately show ?thesis using j by (intro exI[of _ k']) auto
    next
      case nodoc: False
      show ?thesis
      proof (cases "read_safety_comment l1")
        case None
        then have l': "again" "l' = read_while (\<lambda>ch. ch \<noteq> 10) (clear_pending l1)"
          using t False nodoc by (auto simp: skip_line_comment_def)
        have "stands sid input (run_from (\<lambda>ch. ch \<noteq> 10) input j) l'"
          unfolding l' using s by (intro stands_read_while) simp
        with l' j run_from_bounds[where k = j and input = input and p = "\<lambda>ch. ch \<noteq> 10"]
        show ?thesis by (meson le_trans)
      next
        case (Some tl)
        obtain c l2 where tl: "tl = (c, l2)" by (cases tl)
        then have "again" "l' = l2\<lparr>lx_safety := lx_safety l2 @ [c]\<rparr>" using t False nodoc Some by auto
        with stands_safety_comment[OF s Some[unfolded tl]] j show ?thesis by auto (meson le_trans less_imp_le)
      qed
    qed
  qed
qed

lemma stands_skip_ignored:
  "stands sid input k l \<Longrightarrow> k \<le> length input \<Longrightarrow>
   \<exists>k'. k \<le> k' \<and> k' \<le> length input \<and> stands sid input k' (skip_ignored l) \<and> \<not> is_blank (rune_at input k')"
proof (induction l arbitrary: k rule: skip_ignored.induct)
  case (1 l)
  obtain again l' where t: "skip_turn l = (again, l')" by (cases "skip_turn l")
  from stands_skip_turn[OF 1(2,3) t] obtain k' where
    k': "k \<le> k'" "k' \<le> length input" "stands sid input k' l'" "\<not> again \<longrightarrow> \<not> is_blank (rune_at input k')" by blast
  show ?case
  proof (cases again)
    case True
    with 1(1)[OF t[symmetric] True k'(3,2)] k' show ?thesis
      by (subst skip_ignored.simps) (auto simp: t intro: le_trans)
  next
    case False
    with k' show ?thesis by (subst skip_ignored.simps) (auto simp: t)
  qed
qed

text \<open>What the code promises of a token that starts at offset \<open>p\<close>: its position is the one a
  reader counts, and but for a string its literal is the text there.\<close>

definition token_at :: "source_id \<Rightarrow> rune list \<Rightarrow> nat \<Rightarrow> token \<Rightarrow> bool" where
  "token_at sid input p t \<longleftrightarrow> tk_source t = sid \<and> tk_line t = line_at input p \<and> tk_column t = column_at input p \<and>
     (tk_type t = ''STRING'' \<or> tk_type t = ''CSTRING'' \<or>
      take (length (tk_literal t)) (drop p input) = tk_literal t)"

lemma token_at_mk:
  assumes "stands sid input k l" "k \<le> length input" "\<not> is_blank (rune_at input k)"
  shows "token_at sid input k (mk_token l ty lit) \<longleftrightarrow>
    ty = ''STRING'' \<or> ty = ''CSTRING'' \<or> take (length lit) (drop k input) = lit"
  using stands_line_col[OF assms(1,2)] assms(3) stands_simps(4)[OF assms(1)]
  by (auto simp: token_at_def mk_token_def is_blank_def)

lemma take_slice: "take (length (take n (drop k xs))) (drop k xs) = take n (drop k xs)"
  by (simp add: min_def)

lemma drop_two: "Suc k < length xs \<Longrightarrow> drop k xs = xs ! k # xs ! Suc k # drop (Suc (Suc k)) xs"
  by (simp add: Cons_nth_drop_Suc)

text \<open>A step of the scanner that reads the token from offset \<open>k\<close>, not the end of the file.\<close>

definition scans :: "source_id \<Rightarrow> rune list \<Rightarrow> nat \<Rightarrow> token \<times> lexer \<Rightarrow> bool" where
  "scans sid input k r \<longleftrightarrow> token_at sid input k (fst r) \<and> tk_type (fst r) \<noteq> ''EOF'' \<and>
     (\<exists>e. k < e \<and> e \<le> length input \<and> stands sid input e (snd r))"

lemma scans_one:
  assumes "stands sid input k l" "rune_at input k \<noteq> 0" "\<not> is_blank (rune_at input k)" "ty \<noteq> ''EOF''"
  shows "scans sid input k (case one_char_token l ty of (t, l') \<Rightarrow> (t, read_char l'))"
proof -
  have k: "k < length input" using assms(2) by (rule rune_at_nonzero)
  then have "take 1 (drop k input) = [rune_at input k]"
    by (simp add: rune_at_def Cons_nth_drop_Suc[symmetric])
  then have "token_at sid input k (mk_token l ty [rune_at input k])"
    using token_at_mk[OF assms(1) _ assms(3)] k by simp
  then show ?thesis
    using k stands_read[OF assms(1)] assms(4) stands_simps(5)[OF assms(1)]
    by (auto simp: scans_def one_char_token_def mk_token_def intro!: exI[of _ "Suc k"])
qed

lemma scans_two:
  assumes "stands sid input k l" "rune_at input (Suc k) \<noteq> 0" "\<not> is_blank (rune_at input k)" "ty \<noteq> ''EOF''"
  shows "scans sid input k (case two_char_token l ty of (t, l') \<Rightarrow> (t, read_char l'))"
proof -
  have k: "Suc k < length input" using assms(2) by (rule rune_at_nonzero)
  have s: "stands sid input (Suc k) (read_char l)" "stands sid input (Suc (Suc k)) (read_char (read_char l))"
    using assms(1) by (simp_all add: stands_read)
  have "token_at sid input k (mk_token l ty [rune_at input k, rune_at input (Suc k)])"
    using token_at_mk[OF assms(1) _ assms(3)] k drop_two[of k input] by (simp add: rune_at_def)
  then show ?thesis
    using k s assms(4) stands_simps(5)[OF assms(1)] stands_simps(5)[OF s(1)]
    by (auto simp: scans_def two_char_token_def mk_token_def intro!: exI[of _ "Suc (Suc k)"])
qed

lemma scans_compound:
  assumes "stands sid input k l" "rune_at input k \<noteq> 0" "\<not> is_blank (rune_at input k)"
    and "nxt \<noteq> 0" "a \<noteq> ''EOF''" "b \<noteq> ''EOF''"
  shows "scans sid input k (case read_compound_token l (nxt, a, b) of (t, l') \<Rightarrow> (t, read_char l'))"
  using scans_one[OF assms(1-3,6)] scans_two[OF assms(1) _ assms(3,5)] assms(4) stands_simps(6)[OF assms(1)]
  by (auto simp: read_compound_token_def)

lemma scans_dot:
  assumes "stands sid input k l" "rune_at input k = 46"
  shows "scans sid input k (case read_dot_token l of (t, l') \<Rightarrow> (t, read_char l'))"
proof (cases "peek_char l \<noteq> 46 \<or> peek_rune l 2 \<noteq> 46")
  case True
  then show ?thesis using scans_compound[OF assms(1), of "rune (CHR ''.'')" "''..''" "''.''"] assms(2)
    by (auto simp: read_dot_token_def is_blank_def)
next
  case False
  then have r: "rune_at input (Suc k) = 46" "rune_at input (Suc (Suc k)) = 46"
    using stands_simps[OF assms(1)] by auto
  then have k: "Suc (Suc k) < length input" by (intro rune_at_nonzero) simp
  have "drop k input = [46, 46, 46] @ drop (k + 3) input"
    using drop_two[of k input] k r assms(2) Cons_nth_drop_Suc[OF k]
    by (simp add: rune_at_def numeral_3_eq_3)
  then have "token_at sid input k (mk_token l ''...'' (runes ''...''))"
    using token_at_mk[OF assms(1)] k assms(2) by (simp add: is_blank_def)
  moreover have "stands sid input (k + 2) (read_chars 2 l)" by (rule stands_read_chars[OF assms(1)])
  from stands_read[OF this] have "stands sid input (Suc (k + 2)) (read_char (read_chars 2 l))" .
  ultimately show ?thesis using False k
    by (auto simp: scans_def read_dot_token_def mk_token_def intro!: exI[of _ "Suc (k + 2)"])
qed

lemma stands_read_string:
  assumes "stands sid input k l" "k < length input"
  shows "\<exists>e. k < e \<and> e \<le> length input \<and> stands sid input e (snd (read_string l))"
proof -
  define l2 where "l2 = read_while (\<lambda>ch. ch \<noteq> 34) (read_char l)"
  define j where "j = run_from (\<lambda>ch. ch \<noteq> 34) input (Suc k)"
  have s: "stands sid input j l2" unfolding j_def l2_def by (rule stands_read_while[OF stands_read[OF assms(1)]])
  have j: "k < j" "j \<le> length input"
    using run_from_bounds[where k = "Suc k" and p = "\<lambda>ch. ch \<noteq> 34" and input = input] assms(2) by (auto simp: j_def)
  show ?thesis
  proof (cases "rune_at input j = 34")
    case True
    then have "j < length input" by (intro rune_at_nonzero) simp
    then show ?thesis using j stands_read[OF s] stands_simps(5)[OF s] True
      by (intro exI[of _ "Suc j"]) (simp add: read_string_def Let_def flip: l2_def)
  next
    case False
    then show ?thesis using j s stands_simps(5)[OF s]
      by (intro exI[of _ j]) (simp add: read_string_def Let_def flip: l2_def)
  qed
qed

lemma multiline_continuation_stands:
  assumes "stands sid input k l" "multiline_continuation l = Some l'"
  shows "\<exists>k'. k < k' \<and> stands sid input k' l' \<and> Suc k' < length input"
proof -
  define after where "after = drop (Suc k) input"
  define n where "n = length (takeWhile (\<lambda>ch. ch = 32 \<or> ch = 9 \<or> ch = 13) after)"
  have l': "l' = read_chars (Suc n) l" "prefix [92, 92] (drop n after)"
    using assms(2) stands_simps[OF assms(1)]
    by (auto simp: multiline_continuation_def Let_def n_def after_def split: if_splits simp del: drop_drop)
  from prefix_length_le[OF l'(2)] have "2 \<le> length (drop n after)" by simp
  then have "Suc (k + Suc n) < length input" by (simp add: after_def)
  moreover have "stands sid input (k + Suc n) l'" unfolding l'(1) by (rule stands_read_chars[OF assms(1)])
  ultimately show ?thesis by (intro exI[of _ "k + Suc n"]) simp
qed

lemma stands_read_multiline:
  "stands sid input k l \<Longrightarrow> Suc k < length input \<Longrightarrow>
   \<exists>e. k < e \<and> e \<le> length input \<and> stands sid input e (snd (read_multiline l))"
proof (induction l arbitrary: k rule: read_multiline.induct)
  case (1 l)
  define l1 where "l1 = read_chars 2 l"
  define l2 where "l2 = read_while (\<lambda>ch. ch \<noteq> 10) l1"
  define j where "j = run_from (\<lambda>ch. ch \<noteq> 10) input (k + 2)"
  have s: "stands sid input j l2" unfolding j_def l2_def l1_def
    by (rule stands_read_while[OF stands_read_chars[OF 1(2)]])
  have j: "k < j" "j \<le> length input"
    using run_from_bounds[where k = "k + 2" and p = "\<lambda>ch. ch \<noteq> 10" and input = input] 1(3) by (auto simp: j_def)
  show ?case
  proof (cases "multiline_continuation l2")
    case None
    then have "snd (read_multiline l) = l2" by (subst read_multiline.simps) (simp add: Let_def l1_def[symmetric] l2_def[symmetric])
    with s j show ?thesis by auto
  next
    case (Some l3)
    from multiline_continuation_stands[OF s Some] obtain k' where
      k': "j < k'" "stands sid input k' l3" "Suc k' < length input" by blast
    have "snd (read_multiline l) = snd (read_multiline l3)"
      using Some by (subst read_multiline.simps) (simp add: Let_def l1_def[symmetric] l2_def[symmetric] split: prod.splits)
    moreover have "\<exists>e. k' < e \<and> e \<le> length input \<and> stands sid input e (snd (read_multiline l3))"
      using 1(1)[OF l1_def l2_def refl Some k'(2,3)] .
    ultimately show ?thesis using j k' by (metis less_trans)
  qed
qed

lemma stands_fraction:
  assumes "stands sid input k l" "k \<le> length input" "read_fraction l = (frac, l')"
  shows "\<exists>e. k \<le> e \<and> e \<le> length input \<and> stands sid input e l'"
proof (cases "lx_ch l \<noteq> 46 \<or> \<not> is_dec (peek_char l)")
  case True
  then show ?thesis using assms by (auto simp: read_fraction_def)
next
  case False
  then have l': "l' = read_while (\<lambda>ch. is_dec ch \<or> ch = 95) (read_char l)" and "rune_at input (Suc k) \<noteq> 0"
    using assms(3) stands_simps(6)[OF assms(1)] by (auto simp: read_fraction_def read_digits_def is_dec_def)
  then have "Suc k \<le> length input" by (meson less_imp_le rune_at_nonzero)
  then show ?thesis
    using stands_read_while[OF stands_read[OF assms(1)]] run_from_bounds[where k = "Suc k" and input = input]
    unfolding l' by (meson Suc_leD le_trans)
qed

lemma stands_exponent:
  assumes "stands sid input k l" "k \<le> length input" "read_exponent l = (expo, l')"
  shows "\<exists>e. k \<le> e \<and> e \<le> length input \<and> stands sid input e l'"
proof (cases "(lx_ch l \<noteq> 101 \<and> lx_ch l \<noteq> 69) \<or> (\<not> is_dec (peek_char l) \<and> peek_char l \<noteq> 43 \<and> peek_char l \<noteq> 45)")
  case True
  then have "l' = l" using assms(3) by (auto simp: read_exponent_def split: if_splits)
  then show ?thesis using assms by auto
next
  case False
  define sign where "sign \<longleftrightarrow> lx_ch (read_char l) = 43 \<or> lx_ch (read_char l) = 45"
  define m where "m = (if sign then read_char (read_char l) else read_char l)"
  define j where "j = (if sign then Suc (Suc k) else Suc k)"
  have sj: "stands sid input j m" using assms(1) by (simp add: m_def j_def stands_read)
  have l': "l' = read_while is_dec m" using assms(3) False by (auto simp: read_exponent_def Let_def m_def sign_def)
  have "Suc k < length input"
    using False stands_simps(6)[OF assms(1)] by (intro rune_at_nonzero) (auto simp: is_dec_def)
  then have "k \<le> j" "j \<le> length input" by (auto simp: j_def)
  then show ?thesis using stands_read_while[OF sj] run_from_bounds[where k = j and p = is_dec and input = input]
    unfolding l' by (meson le_trans)
qed

lemma stands_number:
  assumes "stands sid input k l" "is_dec (rune_at input k)" "read_number l = (s, ty, l')"
  shows "(ty = ''INT'' \<or> ty = ''FLOAT'') \<and>
    (\<exists>e. k < e \<and> e \<le> length input \<and> stands sid input e l' \<and> s = take (e - k) (drop k input))"
proof -
  have k: "k < length input" using assms(2) by (intro rune_at_nonzero) (auto simp: is_dec_def)
  note ch = stands_simps(5,6)[OF assms(1)]
  show ?thesis
  proof (cases "lx_ch l = 48 \<and> (peek_char l = 120 \<or> peek_char l = 98)")
    case True
    define p where "p = (\<lambda>ch. is_hex_digit ch \<or> ch = 95)"
    have r: "ty = ''INT''" "l' = read_while p (read_chars 2 l)" "s = slice_from l' (lx_position l)"
      using assms(3) True by (auto simp: read_number_def Let_def p_def)
    have s: "stands sid input (run_from p input (k + 2)) l'"
      unfolding r by (rule stands_read_while[OF stands_read_chars[OF assms(1)]])
    have "Suc k < length input" using True ch by (intro rune_at_nonzero) auto
    with run_from_bounds[where k = "k + 2" and p = p and input = input]
    have "k < run_from p input (k + 2)" "run_from p input (k + 2) \<le> length input" by simp_all
    then show ?thesis using s r slice_from_stands[OF s] stands_simps(2)[OF assms(1)] by auto
  next
    case False
    define p where "p = (\<lambda>ch. is_dec ch \<or> ch = 95)"
    define l1 where "l1 = read_digits l"
    define j1 where "j1 = run_from p input k"
    have s1: "stands sid input j1 l1"
      unfolding j1_def l1_def read_digits_def p_def by (rule stands_read_while[OF assms(1)])
    have j1: "k < j1" "j1 \<le> length input"
      using run_from_step[of p input k] k assms(2) run_from_bounds[where k = "Suc k" and p = p and input = input]
      by (auto simp: j1_def p_def is_dec_def)
    obtain frac l2 where f: "read_fraction l1 = (frac, l2)" by (cases "read_fraction l1")
    from stands_fraction[OF s1 j1(2) f] obtain j2 where
      j2: "j1 \<le> j2" "j2 \<le> length input" and s2: "stands sid input j2 l2" by blast
    obtain expo l3 where e: "read_exponent l2 = (expo, l3)" by (cases "read_exponent l2")
    from stands_exponent[OF s2 j2(2) e] obtain j3 where
      j3: "j2 \<le> j3" "j3 \<le> length input" and s3: "stands sid input j3 l3" by blast
    have r: "ty = (if frac \<or> expo then ''FLOAT'' else ''INT'')" "l' = l3" "s = slice_from l3 (lx_position l)"
      using assms(3) False f e by (auto simp: read_number_def Let_def l1_def[symmetric])
    show ?thesis using r s3 j1 j2 j3 slice_from_stands[OF s3] stands_simps(2)[OF assms(1)]
      by (auto intro!: exI[of _ j3])
  qed
qed

lemma lookup_ident_not_EOF: "lookup_ident s \<noteq> ''EOF''"
  by (auto simp: lookup_ident_def keyword_list_def split: option.splits if_splits)

lemma single_char_tokens_not_EOF: "single_char_tokens ch = Some ty \<Longrightarrow> ty \<noteq> ''EOF''"
  by (auto simp: single_char_tokens_def split: if_splits)

lemma compound_tokens_cases:
  "compound_tokens ch = Some (nxt, a, b) \<Longrightarrow> nxt \<noteq> 0 \<and> a \<noteq> ''EOF'' \<and> b \<noteq> ''EOF''"
  by (auto simp: compound_tokens_def split: if_splits)

lemma scans_mk:
  assumes "stands sid input k l" "\<not> is_blank (rune_at input k)" "ty \<noteq> ''EOF''"
    and "\<exists>e. k < e \<and> e \<le> length input \<and> stands sid input e l' \<and>
      (ty = ''STRING'' \<or> ty = ''CSTRING'' \<or> lit = take (e - k) (drop k input))"
  shows "scans sid input k (mk_token l ty lit, l')"
proof -
  from assms(4) obtain e where e: "k < e" "e \<le> length input" "stands sid input e l'"
    "ty = ''STRING'' \<or> ty = ''CSTRING'' \<or> lit = take (e - k) (drop k input)" by blast
  have "token_at sid input k (mk_token l ty lit)"
    using token_at_mk[OF assms(1) _ assms(2), of ty lit] e take_slice[of "e - k" k input] by auto
  with e assms(3) show ?thesis by (auto simp: scans_def mk_token_def)
qed

lemma scans_identifier:
  assumes "stands sid input k l" "is_letter (rune_at input k)"
  shows "scans sid input k (case read_identifier l of (s, l') \<Rightarrow> (mk_token l (lookup_ident s) s, l'))"
proof -
  define p where "p = (\<lambda>ch. is_letter ch \<or> is_dec ch)"
  define j where "j = run_from p input k"
  have ch: "rune_at input k \<noteq> 0" "\<not> is_blank (rune_at input k)"
    using assms(2) by (auto simp: is_letter_def is_blank_def)
  have k: "k < length input" using ch(1) by (rule rune_at_nonzero)
  have s: "stands sid input j (read_while p l)" unfolding j_def by (rule stands_read_while[OF assms(1)])
  have "k < j" "j \<le> length input"
    using run_from_step[of p input k] ch(1) assms(2) k run_from_bounds[where k = "Suc k" and p = p and input = input]
    by (auto simp: j_def p_def)
  then have "scans sid input k (mk_token l (lookup_ident (take (j - k) (drop k input))) (take (j - k) (drop k input)), read_while p l)"
    using scans_mk[OF assms(1) ch(2) lookup_ident_not_EOF] s by blast
  then show ?thesis
    using slice_from_stands[OF s] stands_simps(2)[OF assms(1)] by (simp add: read_identifier_def Let_def p_def)
qed

lemma scans_if: "(c \<Longrightarrow> scans sid input k a) \<Longrightarrow> (\<not> c \<Longrightarrow> scans sid input k b) \<Longrightarrow> scans sid input k (if c then a else b)"
  by simp

lemma scans_option:
  "(\<And>x. r = Some x \<Longrightarrow> scans sid input k (f x)) \<Longrightarrow> (r = None \<Longrightarrow> scans sid input k b) \<Longrightarrow>
   scans sid input k (case r of Some x \<Rightarrow> f x | None \<Rightarrow> b)"
  by (cases r) simp_all

lemma scan_token_spans:
  assumes s: "stands sid input k l" and nz: "rune_at input k \<noteq> 0" and nb: "\<not> is_blank (rune_at input k)"
  shows "scans sid input k (scan_token l)"
proof -
  note ch = stands_simps(5,6)[OF s]
  have k: "k < length input" using nz by (rule rune_at_nonzero)
  have str: "scans sid input k (case read_string l of (s, l') \<Rightarrow> (mk_token l ''STRING'' s, l'))"
    using stands_read_string[OF s k] unfolding case_prod_unfold by (intro scans_mk[OF s nb]) auto
  have multi: "scans sid input k (case read_multiline l of (s, l') \<Rightarrow> (mk_token l ''STRING'' s, l'))"
    if "peek_char l = 92"
    using stands_read_multiline[OF s] that ch rune_at_nonzero[of input "Suc k"]
    unfolding case_prod_unfold by (intro scans_mk[OF s nb]) auto
  have cstr: "scans sid input k (case read_string (read_char l) of (s, l') \<Rightarrow> (mk_token l ''CSTRING'' s, l'))"
    if "peek_char l = 34"
  proof -
    have "Suc k < length input" using that ch by (intro rune_at_nonzero) auto
    from stands_read_string[OF stands_read[OF s] this] show ?thesis
      unfolding case_prod_unfold by (intro scans_mk[OF s nb]) (auto dest: Suc_lessD)
  qed
  have num: "scans sid input k (case read_number l of (s, ty, l') \<Rightarrow> (mk_token l ty s, l'))" if "is_dec (lx_ch l)"
  proof -
    obtain lit ty l' where r: "read_number l = (lit, ty, l')" using prod_cases3 by blast
    then have "scans sid input k (mk_token l ty lit, l')"
      using stands_number[OF s _ r] that ch by (intro scans_mk[OF s nb]) auto
    with r show ?thesis by simp
  qed
  have compound: "scans sid input k (case read_compound_token l spec of (t, l') \<Rightarrow> (t, read_char l'))"
    if "compound_tokens (lx_ch l) = Some spec" for spec
    using that compound_tokens_cases[of "lx_ch l" "fst spec" "fst (snd spec)" "snd (snd spec)"]
      scans_compound[OF s nz nb, of "fst spec" "fst (snd spec)" "snd (snd spec)"] by simp
  have single: "scans sid input k (case one_char_token l ty of (t, l') \<Rightarrow> (t, read_char l'))"
    if "single_char_tokens (lx_ch l) = Some ty" for ty
    using that single_char_tokens_not_EOF scans_one[OF s nz nb] by blast
  have ill: "scans sid input k (case one_char_token l ''ILLEGAL'' of (t, l') \<Rightarrow> (t, read_char l'))"
    by (rule scans_one[OF s nz nb]) simp
  have fat: "scans sid input k (case two_char_token l ''=>'' of (t, l') \<Rightarrow> (t, read_char l'))"
    if "peek_char l = rune (CHR ''>'')"
    using that ch by (intro scans_two[OF s _ nb]) auto
  have eq: "scans sid input k (case read_compound_token l (rune (CHR ''=''), ''=='', ''='') of (t, l') \<Rightarrow> (t, read_char l'))"
    by (rule scans_compound[OF s nz nb]) simp_all
  have dot: "scans sid input k (case read_dot_token l of (t, l') \<Rightarrow> (t, read_char l'))" if "lx_ch l = rune (CHR ''.'')"
    using that ch by (intro scans_dot[OF s]) auto
  show ?thesis
    unfolding scan_token_def Let_def using nz ch
    by (intro scans_if scans_option)
      (simp_all only: str multi cstr num compound single ill fat eq dot not_False_eq_True
        scans_identifier[OF s], simp_all add: multi scans_identifier[OF s] num eq[simplified])
qed

lemma scan_token_EOF: "lx_ch l = 0 \<Longrightarrow> scan_token l = (mk_token l ''EOF'' [], read_char l)"
  by (simp add: scan_token_def Let_def)

lemma token_at_fields [simp]: "token_at sid input p (t\<lparr>tk_doc := d, tk_safety := c\<rparr>) = token_at sid input p t"
  by (simp add: token_at_def)

lemma next_token_spans:
  assumes "stands sid input k l" "k \<le> length input" "next_token l = (t, l')"
  shows "\<exists>p. k \<le> p \<and> p \<le> length input \<and> token_at sid input p t \<and>
    (tk_type t = ''EOF'' \<or> (\<exists>e. p < e \<and> e \<le> length input \<and> stands sid input e l'))"
proof -
  define l1 where "l1 = skip_ignored l"
  from stands_skip_ignored[OF assms(1,2)] obtain p where p: "k \<le> p" "p \<le> length input"
    and s: "stands sid input p (clear_pending l1)" and nb: "\<not> is_blank (rune_at input p)" by (auto simp: l1_def)
  have t: "t = (fst (scan_token (clear_pending l1)))\<lparr>tk_doc := lx_doc l1, tk_safety := lx_safety l1\<rparr>"
    "l' = snd (scan_token (clear_pending l1))"
    using assms(3) by (auto simp: next_token_def Let_def l1_def split: prod.splits)
  show ?thesis
  proof (cases "rune_at input p = 0")
    case True
    then have e: "scan_token (clear_pending l1) = (mk_token (clear_pending l1) ''EOF'' [], read_char (clear_pending l1))"
      using stands_simps(5)[OF s] by (intro scan_token_EOF) simp
    then show ?thesis using token_at_mk[OF s p(2) nb, of "''EOF''" "[]"] p
      by (intro exI[of _ p]) (simp add: t(1) mk_token_def token_at_def)
  next
    case False
    from scan_token_spans[OF s False nb] show ?thesis unfolding scans_def t using p by auto
  qed
qed

lemma lex_tokens_spans:
  "stands sid input k l \<Longrightarrow> k \<le> length input \<Longrightarrow> length input - k < fuel \<Longrightarrow>
   \<exists>ts eof offs. lex_tokens fuel l = Some (ts @ [eof]) \<and> tk_type eof = ''EOF'' \<and>
     list_all (\<lambda>t. tk_type t \<noteq> ''EOF'') ts \<and> length ts \<le> length input - k \<and>
     sorted_wrt (<) offs \<and> list_all (\<lambda>p. k \<le> p \<and> p \<le> length input) offs \<and>
     list_all2 (token_at sid input) offs (ts @ [eof])"
proof (induction fuel arbitrary: k l)
  case (Suc fuel)
  obtain t l' where n: "next_token l = (t, l')" by (cases "next_token l")
  from next_token_spans[OF Suc.prems(1,2) n] obtain p where p: "k \<le> p" "p \<le> length input" "token_at sid input p t"
    and more: "tk_type t = ''EOF'' \<or> (\<exists>e. p < e \<and> e \<le> length input \<and> stands sid input e l')" by blast
  show ?case
  proof (cases "tk_type t = ''EOF''")
    case True
    then show ?thesis using p n by (intro exI[of _ "[]"] exI[of _ t] exI[of _ "[p]"]) simp
  next
    case False
    with more obtain e where e: "p < e" "e \<le> length input" "stands sid input e l'" by blast
    with p Suc.prems have "length input - e < fuel" by linarith
    from Suc.IH[OF e(3,2) this] obtain ts eof offs where IH:
      "lex_tokens fuel l' = Some (ts @ [eof])" "tk_type eof = ''EOF''" "list_all (\<lambda>t. tk_type t \<noteq> ''EOF'') ts"
      "length ts \<le> length input - e" "sorted_wrt (<) offs" "list_all (\<lambda>p. e \<le> p \<and> p \<le> length input) offs"
      "list_all2 (token_at sid input) offs (ts @ [eof])" by blast
    then show ?thesis using n False p e
      by (intro exI[of _ "t # ts"] exI[of _ eof] exI[of _ "p # offs"]) (auto simp: list_all_iff intro: less_le_trans)
  qed
qed simp

lemma lex_spans:
  "\<exists>ts eof offs. lex sid input = Some (ts @ [eof]) \<and> tk_type eof = ''EOF'' \<and>
     list_all (\<lambda>t. tk_type t \<noteq> ''EOF'') ts \<and> length ts \<le> length input \<and>
     sorted_wrt (<) offs \<and> list_all (\<lambda>p. p \<le> length input) offs \<and> list_all2 (token_at sid input) offs (ts @ [eof])"
proof -
  have "length input - 0 < Suc (length input)" by simp
  from lex_tokens_spans[OF stands_new _ this] show ?thesis unfolding lex_def by simp
qed

text \<open>
  C18: The scanner ends on every input, whatever runes it holds: reading token after token
  reaches the end-of-file token, which is the last one and the only one of its type, after
  at most one token for each rune of the input.
\<close>
theorem lex_ends:
  "\<exists>ts eof. lex sid input = Some (ts @ [eof]) \<and> tk_type eof = ''EOF'' \<and>
     list_all (\<lambda>t. tk_type t \<noteq> ''EOF'') ts \<and> length ts \<le> length input"
  using lex_spans[of sid input] by blast

text \<open>
  C19: Every token of every input carries the position a reader counts: the tokens start at
  strictly increasing offsets of the input, a token's line is one more than the newlines
  before its offset and its column one more than the runes since the last of them, its
  source is the one that was scanned, and the literal of a token other than a string is the
  very text at its offset.
\<close>
theorem lex_positions:
  "\<exists>ts offs. lex sid input = Some ts \<and> sorted_wrt (<) offs \<and> list_all (\<lambda>p. p \<le> length input) offs \<and>
     list_all2 (\<lambda>p t. tk_source t = sid \<and>
       tk_line t = Suc (count_list (take p input) 10) \<and>
       tk_column t = Suc (length (takeWhile (\<lambda>ch. ch \<noteq> 10) (rev (take p input)))) \<and>
       (tk_type t = ''STRING'' \<or> tk_type t = ''CSTRING'' \<or>
        take (length (tk_literal t)) (drop p input) = tk_literal t)) offs ts"
  using lex_spans[of sid input] unfolding token_at_def[abs_def] line_at_def column_at_def by blast

section \<open>The source map\<close>

text \<open>
  A handle into the source map stays valid: adding a file gives a new handle that names
  its path and text, and every handle that named a file before names the same one after.
\<close>
theorem source_add_keeps:
  "case source_add m path t of (sid, m') \<Rightarrow>
     source_file_of m sid = None \<and> source_path m' sid = path \<and> source_text m' sid = t \<and>
     list_all (\<lambda>n. source_file_of m' (Some n) = source_file_of m (Some n)) [0..<length m]"
  by (auto simp: source_add_def source_file_of_def source_path_def source_text_def list_all_iff nth_append)

end
