(* ===== verification/Lexer_Roundtrip.thy ===== *)
theory Lexer_Roundtrip
  imports Lexer
begin

text \<open>
  The scanner against the printer of tokens: which types and literals some text has
  (\<open>well_spelled\<close>), the text of a token (\<open>token_text\<close>), and that scanning the texts gives
  the tokens back (\<open>lex_roundtrip\<close>), up to the first NUL (\<open>lex_stops_at_nul\<close>).
\<close>

section \<open>Round trip of tokens\<close>

text \<open>The text of a token, and the types and literals that some text has.\<close>

definition token_text :: "string \<times> rune list \<Rightarrow> rune list" where
  "token_text t = (case t of (ty, lit) \<Rightarrow>
     if ty = ''STRING'' then 34 # lit @ [34]
     else if ty = ''CSTRING'' then rune (CHR ''c'') # 34 # lit @ [34] else lit)"

definition operator_list :: "string list" where
  "operator_list =
     [''=>'', ''=='', ''='', ''...'', ''..'', ''.'', ''->'', ''-'', ''!='', ''!'', ''<='', ''<'', ''>='', ''>'', ''::'',
      '':'', ''+'', ''/'', ''&'', ''*'', ''%'', ''^'', ''~'', ''@'', ''?'', ''|'', '','', '';'', ''('', '')'', ''{'', ''}'',
      ''['', '']'']"

definition decimal_int :: "rune list \<Rightarrow> bool" where
  "decimal_int w \<longleftrightarrow> w \<noteq> [] \<and> is_dec (hd w) \<and> list_all (\<lambda>ch. is_dec ch \<or> ch = 95) w"

definition prefixed_int :: "rune list \<Rightarrow> bool" where
  "prefixed_int w \<longleftrightarrow> (take 2 w = runes ''0x'' \<or> take 2 w = runes ''0b'') \<and>
     list_all (\<lambda>ch. is_hex_digit ch \<or> ch = 95) (drop 2 w)"

definition fraction_text :: "rune list \<Rightarrow> bool" where
  "fraction_text w \<longleftrightarrow> (let a = takeWhile (\<lambda>ch. ch \<noteq> 46) w; b = drop (Suc (length a)) w
     in length a < length w \<and> decimal_int a \<and> decimal_int b)"

text \<open>A number with an exponent, a sign with no digit after it included, as the scanner takes it.\<close>

definition exponent_text :: "rune list \<Rightarrow> bool" where
  "exponent_text x \<longleftrightarrow> 2 \<le> length x \<and> (hd x = 101 \<or> hd x = 69) \<and> (is_dec (x ! 1) \<or> x ! 1 = 43 \<or> x ! 1 = 45) \<and>
     list_all is_dec (drop 2 x)"

definition float_text :: "rune list \<Rightarrow> bool" where
  "float_text w \<longleftrightarrow> (let m = takeWhile (\<lambda>ch. ch \<noteq> 101 \<and> ch \<noteq> 69) w; x = drop (length m) w
     in fraction_text m \<and> x = [] \<or> (fraction_text m \<or> decimal_int m) \<and> exponent_text x)"

definition well_spelled :: "string \<times> rune list \<Rightarrow> bool" where
  "well_spelled t = (case t of (ty, lit) \<Rightarrow>
     if ty = ''STRING'' \<or> ty = ''CSTRING'' then list_all (\<lambda>ch. ch \<noteq> 34 \<and> ch \<noteq> 0) lit
     else if ty = ''INT'' then decimal_int lit \<or> prefixed_int lit
     else if ty = ''FLOAT'' then float_text lit
     else if lit \<noteq> [] \<and> is_letter (hd lit) then
       list_all (\<lambda>ch. is_letter ch \<or> is_dec ch) lit \<and> ty = lookup_ident lit
     else ty \<in> set operator_list \<and> lit = runes ty)"

lemma run_from_exact:
  assumes "drop k input = w @ c # rest" "list_all (\<lambda>ch. ch \<noteq> 0 \<and> p ch) w" "c = 0 \<or> \<not> p c"
  shows "run_from p input k = k + length w"
  using assms by (simp add: run_from_def takeWhile_append2 list_all_iff)

lemma rune_at_append: "drop k input = w @ c # rest \<Longrightarrow> rune_at input (k + length w) = c"
  by (simp add: rune_at_drop add.commute[of k] drop_drop[symmetric] del: drop_drop)

text \<open>The scanner reads the token \<open>(ty, lit)\<close> off the text \<open>w\<close> at offset \<open>k\<close>.\<close>

definition reads :: "source_id \<Rightarrow> rune list \<Rightarrow> nat \<Rightarrow> lexer \<Rightarrow> rune list \<Rightarrow> string \<times> rune list \<Rightarrow> bool" where
  "reads sid input k l w t \<longleftrightarrow> fst (scan_token l) = mk_token l (fst t) (snd t) \<and>
     stands sid input (k + length w) (snd (scan_token l))"

lemma slice_exact:
  "drop k input = w @ rest \<Longrightarrow> stands sid input (k + length w) l' \<Longrightarrow> slice_from l' k = w"
  by (simp add: slice_from_stands)

lemma stands_exact:
  assumes "stands sid input k l" "drop k input = w @ c # rest" "list_all (\<lambda>ch. ch \<noteq> 0 \<and> p ch) w" "c = 0 \<or> \<not> p c"
  shows "stands sid input (k + length w) (read_while p l)"
  using stands_read_while[OF assms(1), of p] run_from_exact[OF assms(2-4)] by simp

lemma letter_tokens: "is_letter ch \<Longrightarrow> compound_tokens ch = None \<and> single_char_tokens ch = None \<and>
    ch \<noteq> 0 \<and> ch \<noteq> 61 \<and> ch \<noteq> 46 \<and> ch \<noteq> 34 \<and> ch \<noteq> 92"
  by (auto simp: is_letter_def compound_tokens_def single_char_tokens_def)

lemma digit_tokens: "is_dec ch \<Longrightarrow> compound_tokens ch = None \<and> single_char_tokens ch = None \<and>
    ch \<noteq> 0 \<and> ch \<noteq> 61 \<and> ch \<noteq> 46 \<and> ch \<noteq> 34 \<and> ch \<noteq> 92 \<and> ch \<noteq> 99 \<and> \<not> is_letter ch"
  by (auto simp: is_dec_def is_letter_def compound_tokens_def single_char_tokens_def)

lemma scan_token_letter:
  assumes "is_letter (lx_ch l)" "peek_char l \<noteq> 34"
  shows "scan_token l = (case read_identifier l of (s, l') \<Rightarrow> (mk_token l (lookup_ident s) s, l'))"
  using letter_tokens[OF assms(1)] assms by (simp add: scan_token_def Let_def)

lemma scan_token_digit:
  assumes "is_dec (lx_ch l)"
  shows "scan_token l = (case read_number l of (s, ty, l') \<Rightarrow> (mk_token l ty s, l'))"
  using digit_tokens[OF assms] assms by (simp add: scan_token_def Let_def)

lemma reads_identifier:
  assumes s: "stands sid input k l" and d: "drop k input = w @ c # rest" and c: "c = 32"
    and w: "w \<noteq> []" "is_letter (hd w)" "list_all (\<lambda>ch. is_letter ch \<or> is_dec ch) w"
  shows "reads sid input k l w (lookup_ident w, w)"
proof -
  have ch: "lx_ch l = hd w" using d w(1) stands_simps(5)[OF s] by (cases w) (simp_all add: rune_at_drop)
  have all: "list_all (\<lambda>ch. ch \<noteq> 0 \<and> (is_letter ch \<or> is_dec ch)) w"
    using w(3) by (auto simp: list_all_iff is_letter_def is_dec_def)
  have e: "stands sid input (k + length w) (read_while (\<lambda>ch. is_letter ch \<or> is_dec ch) l)"
    using c by (intro stands_exact[OF s d all]) (simp add: is_letter_def is_dec_def)
  have "peek_char l \<noteq> 34"
  proof -
    have "drop (Suc k) input = tl w @ c # rest" using d w(1) by (cases w) (auto simp: drop_Suc drop_tl)
    then show ?thesis using stands_simps(6)[OF s] c all w(3)
      by (cases "tl w"; cases w) (auto simp: rune_at_drop is_letter_def is_dec_def)
  qed
  then show ?thesis
    using scan_token_letter[of l] ch w(2) e slice_exact[OF d e] stands_simps(2)[OF s]
    by (simp add: reads_def read_identifier_def Let_def)
qed

lemma drop_next: "drop k input = x # ys \<Longrightarrow> drop (Suc k) input = ys"
  by (metis drop_Suc drop_tl list.sel(3))

lemma rune_at_first: "drop k input = x # ys \<Longrightarrow> rune_at input k = x"
  by (simp add: rune_at_drop)

lemma stands_digits:
  assumes "stands sid input k l" "drop k input = w @ c # rest" "list_all (\<lambda>ch. is_dec ch \<or> ch = 95) w" "c = 32 \<or> c = 46 \<or> c = 101 \<or> c = 69"
  shows "stands sid input (k + length w) (read_digits l)"
  unfolding read_digits_def using assms(3,4)
  by (intro stands_exact[OF assms(1,2)]) (auto simp: list_all_iff is_dec_def)

lemma plain_digits:
  assumes "stands sid input k l" "drop k input = w @ c # rest" "decimal_int w" "c = 32 \<or> c = 46 \<or> c = 101 \<or> c = 69"
  shows "is_dec (lx_ch l) \<and> peek_char l \<noteq> 120 \<and> peek_char l \<noteq> 98"
proof -
  obtain a w' where w: "w = a # w'" "is_dec a" "list_all (\<lambda>ch. is_dec ch \<or> ch = 95) w'"
    using assms(3) by (cases w) (auto simp: decimal_int_def)
  have "drop (Suc k) input = w' @ c # rest" using drop_next[of k input a] assms(2) w by simp
  then have "rune_at input (Suc k) \<noteq> 120 \<and> rune_at input (Suc k) \<noteq> 98"
    using w(3) assms(4) by (cases w') (auto simp: rune_at_drop is_dec_def)
  moreover have "rune_at input k = a" using assms(2) w by (intro rune_at_first) simp
  ultimately show ?thesis using w stands_simps(5,6)[OF assms(1)] by simp
qed

lemma reads_decimal:
  assumes s: "stands sid input k l" and d: "drop k input = w @ 32 # rest" and w: "decimal_int w"
  shows "reads sid input k l w (''INT'', w)"
proof -
  have e: "stands sid input (k + length w) (read_digits l)"
    using w by (intro stands_digits[OF s d]) (simp_all add: decimal_int_def)
  have ch: "lx_ch (read_digits l) = 32" using stands_simps(5)[OF e] rune_at_append[OF d] by simp
  note p = plain_digits[OF s d w]
  have "read_number l = (w, ''INT'', read_digits l)"
    using p ch slice_exact[OF d e] stands_simps(2)[OF s]
    by (simp add: read_number_def Let_def read_fraction_def read_exponent_def)
  then show ?thesis using e p scan_token_digit[of l] by (simp add: reads_def)
qed

lemma reads_prefixed:
  assumes s: "stands sid input k l" and d: "drop k input = w @ 32 # rest" and w: "prefixed_int w"
  shows "reads sid input k l w (''INT'', w)"
proof -
  define p where "p = (\<lambda>ch. is_hex_digit ch \<or> ch = 95)"
  obtain b w' where w': "w = 48 # b # w'" "b = 120 \<or> b = 98" "list_all p w'"
    using w by (cases w; cases "tl w") (auto simp: prefixed_int_def p_def)
  have d2: "drop (Suc k) input = b # w' @ 32 # rest" using drop_next[of k input 48] d w' by simp
  have d3: "drop (k + 2) input = w' @ 32 # rest" using drop_next[OF d2] by (simp add: numeral_2_eq_2)
  have nz: "list_all (\<lambda>ch. ch \<noteq> 0 \<and> p ch) w'"
    using w'(3) by (auto simp: list_all_iff p_def is_hex_digit_def is_dec_def)
  have "stands sid input (k + 2 + length w') (read_while p (read_chars 2 l))"
    by (rule stands_exact[OF stands_read_chars[OF s] d3 nz]) (simp add: p_def is_hex_digit_def is_dec_def)
  then have e: "stands sid input (k + length w) (read_while p (read_chars 2 l))" using w'(1) by (simp add: add.commute)
  have ch: "lx_ch l = 48" "peek_char l = b"
    using stands_simps(5,6)[OF s] rune_at_first[of k input 48] rune_at_first[OF d2] d w'(1) by auto
  have "read_number l = (w, ''INT'', read_while p (read_chars 2 l))"
    using ch w'(2) slice_exact[OF d e] stands_simps(2)[OF s] unfolding p_def
    by (auto simp: read_number_def Let_def)
  then show ?thesis using e ch scan_token_digit[of l] by (simp add: reads_def is_dec_def)
qed

lemma fraction_parts:
  assumes "fraction_text w"
  obtains a b where "w = a @ 46 # b" "decimal_int a" "decimal_int b"
proof -
  define a where "a = takeWhile (\<lambda>ch. ch \<noteq> 46) w"
  define b where "b = drop (Suc (length a)) w"
  have ab: "decimal_int a" "decimal_int b" "length a < length w"
    using assms by (simp_all add: fraction_text_def Let_def a_def b_def)
  have "w ! length a = 46" using nth_length_takeWhile[of "\<lambda>ch. ch \<noteq> 46" w] ab(3) by (simp add: a_def)
  moreover have "take (length a) w = a" by (simp add: a_def takeWhile_eq_take[symmetric])
  ultimately have "w = a @ 46 # b" using id_take_nth_drop[OF ab(3)] by (simp add: b_def)
  with ab that show thesis by blast
qed

text \<open>What is read up to the exponent or the end of the number.\<close>

lemma reads_mantissa:
  assumes s: "stands sid input k l" and d: "drop k input = m @ c # rest" and c: "c = 32 \<or> c = 101 \<or> c = 69"
    and m: "fraction_text m \<or> decimal_int m"
  shows "\<exists>frac l'. read_fraction (read_digits l) = (frac, l') \<and> stands sid input (k + length m) l' \<and>
    (frac \<or> \<not> fraction_text m) \<and> is_dec (lx_ch l) \<and> peek_char l \<noteq> 120 \<and> peek_char l \<noteq> 98"
proof (cases "fraction_text m")
  case True
  then obtain a b where m': "m = a @ 46 # b" and ab: "decimal_int a" "decimal_int b" by (rule fraction_parts)
  have d1: "drop k input = a @ 46 # b @ c # rest" using d m' by simp
  have e1: "stands sid input (k + length a) (read_digits l)"
    using ab(1) by (intro stands_digits[OF s d1]) (simp_all add: decimal_int_def)
  have d2: "drop (k + length a) input = 46 # b @ c # rest"
    using d1 by (simp add: add.commute[of k] drop_drop[symmetric] del: drop_drop)
  note d3 = drop_next[OF d2]
  have "stands sid input (Suc (k + length a) + length b) (read_digits (read_char (read_digits l)))"
    using ab(2) c by (intro stands_digits[OF stands_read[OF e1] d3]) (auto simp: decimal_int_def)
  then have e: "stands sid input (k + length m) (read_digits (read_char (read_digits l)))"
    by (simp add: m' add.assoc)
  have "lx_ch (read_digits l) = 46" "is_dec (peek_char (read_digits l))"
    using stands_simps(5,6)[OF e1] rune_at_first[OF d2] ab(2) d3
    by (cases b; simp add: decimal_int_def rune_at_drop)+
  with e plain_digits[OF s d1 ab(1)] show ?thesis by (simp add: read_fraction_def ex_bool_eq)
next
  case False
  with m have m: "decimal_int m" by simp
  have e: "stands sid input (k + length m) (read_digits l)"
    using m c by (intro stands_digits[OF s d]) (auto simp: decimal_int_def)
  have "lx_ch (read_digits l) = c" using stands_simps(5)[OF e] rune_at_append[OF d] by simp
  with e c False plain_digits[OF s d m] show ?thesis by (auto simp: read_fraction_def)
qed

lemma reads_exponent:
  assumes s: "stands sid input k l" and d: "drop k input = x @ 32 # rest" and x: "exponent_text x"
  shows "\<exists>l'. read_exponent l = (True, l') \<and> stands sid input (k + length x) l'"
proof -
  obtain ch y w where w: "x = ch # y # w" "ch = 101 \<or> ch = 69" "is_dec y \<or> y = 43 \<or> y = 45" "list_all is_dec w"
    using x by (cases x; cases "tl x") (auto simp: exponent_text_def)
  have d1: "drop (Suc k) input = y # w @ 32 # rest" using drop_next[of k input ch] d w(1) by simp
  note d2 = drop_next[OF d1]
  have ch: "lx_ch l = ch" "peek_char l = y" "lx_ch (read_char l) = y"
    using stands_simps(5,6)[OF s] stands_simps(5)[OF stands_read[OF s]] rune_at_first[of k input ch] rune_at_first[OF d1] d w(1)
    by simp_all
  have nz: "list_all (\<lambda>ch. ch \<noteq> 0 \<and> is_dec ch) w" using w(4) by (auto simp: list_all_iff is_dec_def)
  have stop: "32 = (0 :: rune) \<or> \<not> is_dec 32" by (simp add: is_dec_def)
  show ?thesis
  proof (cases "y = 43 \<or> y = 45")
    case True
    have "stands sid input (Suc (Suc k) + length w) (read_while is_dec (read_char (read_char l)))"
      by (rule stands_exact[OF stands_read[OF stands_read[OF s]] d2 nz stop])
    with True ch w(1,2) show ?thesis by (auto simp: read_exponent_def Let_def)
  next
    case False
    with w(3) have "list_all (\<lambda>ch. ch \<noteq> 0 \<and> is_dec ch) (y # w)" using nz by (auto simp: is_dec_def)
    from stands_exact[OF stands_read[OF s] _ this stop] d1
    have "stands sid input (Suc k + length (y # w)) (read_while is_dec (read_char l))" by simp
    with False w(1-3) ch show ?thesis by (auto simp: read_exponent_def Let_def)
  qed
qed

lemma reads_float:
  assumes s: "stands sid input k l" and d: "drop k input = w @ 32 # rest" and w: "float_text w"
  shows "reads sid input k l w (''FLOAT'', w)"
proof -
  define m where "m = takeWhile (\<lambda>ch. ch \<noteq> 101 \<and> ch \<noteq> 69) w"
  define x where "x = drop (length m) w"
  have w': "w = m @ x" by (simp add: m_def x_def dropWhile_eq_drop[symmetric])
  have f: "fraction_text m \<and> x = [] \<or> (fraction_text m \<or> decimal_int m) \<and> exponent_text x"
    using w by (simp add: float_text_def Let_def m_def x_def)
  obtain c more where c: "x @ 32 # rest = c # more" "c = 32 \<or> c = 101 \<or> c = 69" "x = [] \<longrightarrow> c = 32"
    using f by (cases x) (auto simp: exponent_text_def)
  have d1: "drop k input = m @ c # more" using d w' c(1) by simp
  from reads_mantissa[OF s d1 c(2)] f obtain frac l2 where l2: "read_fraction (read_digits l) = (frac, l2)"
    "stands sid input (k + length m) l2" "frac \<or> \<not> fraction_text m"
    and p: "is_dec (lx_ch l)" "peek_char l \<noteq> 120" "peek_char l \<noteq> 98" by blast
  have d2: "drop (k + length m) input = x @ 32 # rest"
    using d1 c(1) by (simp add: add.commute[of k] drop_drop[symmetric] del: drop_drop)
  have "\<exists>expo l'. read_exponent l2 = (expo, l') \<and> stands sid input (k + length w) l' \<and> (frac \<or> expo)"
  proof (cases "x = []")
    case True
    with f l2(3) have "frac" by (auto simp: exponent_text_def)
    moreover have "lx_ch l2 = 32" using stands_simps(5)[OF l2(2)] rune_at_first[of _ input 32] d2 True by simp
    ultimately show ?thesis using l2(2) True w' by (simp add: read_exponent_def ex_bool_eq)
  next
    case False
    with f reads_exponent[OF l2(2) d2] w' show ?thesis by (auto simp: add.assoc)
  qed
  then obtain expo l' where l': "read_exponent l2 = (expo, l')" "stands sid input (k + length w) l'" "frac \<or> expo" by blast
  have "read_number l = (w, ''FLOAT'', l')"
    using p l2(1) l' slice_exact[OF d l'(2)] stands_simps(2)[OF s] by (auto simp: read_number_def Let_def)
  then show ?thesis using l'(2) p scan_token_digit[of l] by (simp add: reads_def)
qed

lemma string_body:
  assumes s: "stands sid input k l" and d: "drop k input = 34 # lit @ 34 # rest"
    and lit: "list_all (\<lambda>ch. ch \<noteq> 34 \<and> ch \<noteq> 0) lit"
  shows "fst (read_string l) = lit \<and> stands sid input (k + length lit + 2) (snd (read_string l))"
proof -
  note d1 = drop_next[OF d]
  have e: "stands sid input (Suc k + length lit) (read_while (\<lambda>ch. ch \<noteq> 34) (read_char l))"
    using lit by (intro stands_exact[OF stands_read[OF s] d1]) (auto simp: list_all_iff)
  have "lx_ch (read_while (\<lambda>ch. ch \<noteq> 34) (read_char l)) = 34"
    using stands_simps(5)[OF e] rune_at_append[OF d1] by simp
  then show ?thesis using slice_exact[OF d1 e] stands_read[OF e] stands_simps(2)[OF stands_read[OF s]]
    by (simp add: read_string_def Let_def)
qed

lemma reads_string:
  assumes s: "stands sid input k l" and d: "drop k input = (34 # lit @ [34]) @ 32 # rest"
    and lit: "list_all (\<lambda>ch. ch \<noteq> 34 \<and> ch \<noteq> 0) lit"
  shows "reads sid input k l (34 # lit @ [34]) (''STRING'', lit)"
proof -
  have "lx_ch l = 34" using stands_simps(5)[OF s] rune_at_first[of k input 34] d by simp
  then show ?thesis using string_body[OF s _ lit, of "32 # rest"] d
    by (cases "read_string l") (simp add: reads_def scan_token_def Let_def)
qed

lemma reads_cstring:
  assumes s: "stands sid input k l" and d: "drop k input = (99 # 34 # lit @ [34]) @ 32 # rest"
    and lit: "list_all (\<lambda>ch. ch \<noteq> 34 \<and> ch \<noteq> 0) lit"
  shows "reads sid input k l (99 # 34 # lit @ [34]) (''CSTRING'', lit)"
proof -
  have d1: "drop (Suc k) input = 34 # lit @ 34 # 32 # rest" using drop_next[of k input 99] d by simp
  have "lx_ch l = 99" "peek_char l = 34"
    using stands_simps(5,6)[OF s] rune_at_first[of k input 99] rune_at_first[OF d1] d by simp_all
  then show ?thesis using string_body[OF stands_read[OF s] d1 lit] letter_tokens[of 99]
    by (cases "read_string (read_char l)") (simp add: reads_def scan_token_def Let_def is_letter_def)
qed

definition plain_operator :: "rune \<Rightarrow> string \<Rightarrow> bool" where
  "plain_operator c ty \<longleftrightarrow> single_char_tokens c = Some ty \<and> compound_tokens c = None \<and>
     c \<noteq> 0 \<and> c \<noteq> 61 \<and> c \<noteq> 46 \<and> c \<noteq> 34 \<and> c \<noteq> 92"

lemma plain_operators: "ty \<in> set (drop 16 operator_list) \<Longrightarrow> \<exists>c. runes ty = [c] \<and> plain_operator c ty"
  unfolding operator_list_def
  by (simp, elim disjE) (simp_all add: plain_operator_def single_char_tokens_def compound_tokens_def)

lemma scan_token_plain:
  "plain_operator (lx_ch l) ty \<Longrightarrow> scan_token l = (mk_token l ty [lx_ch l], read_char l)"
  by (simp add: plain_operator_def scan_token_def one_char_token_def)

lemma reads_operator:
  assumes s: "stands sid input k l" and d: "drop k input = runes ty @ 32 # rest" and ty: "ty \<in> set operator_list"
  shows "reads sid input k l (runes ty) (ty, runes ty)"
proof -
  have r: "rune_at input (k + i) = (case drop i (runes ty @ 32 # rest) of [] \<Rightarrow> 0 | ch # _ \<Rightarrow> ch)" for i
    using d by (simp add: rune_at_drop add.commute[of k] drop_drop[symmetric] del: drop_drop)
  have ch: "lx_ch l = rune_at input (k + 0)" "peek_char l = rune_at input (k + 1)" "peek_rune l 2 = rune_at input (k + 2)"
    "lx_ch (read_char l) = rune_at input (k + 1)"
    using stands_simps[OF s] stands_simps(5)[OF stands_read[OF s]] by simp_all
  have n: "stands sid input (Suc k) (read_char l)" "stands sid input (Suc (Suc k)) (read_char (read_char l))"
    "stands sid input (Suc (Suc (Suc k))) (read_char (read_char (read_char l)))"
    using s by (simp_all add: stands_read)
  note defs = reads_def scan_token_def Let_def one_char_token_def two_char_token_def read_compound_token_def
    read_dot_token_def compound_tokens_def single_char_tokens_def numeral_2_eq_2
  have "ty \<in> set (take 16 operator_list) \<or> ty \<in> set (drop 16 operator_list)"
    using ty by (metis UnE append_take_drop_id set_append)
  then show ?thesis
  proof
    assume "ty \<in> set (take 16 operator_list)"
    then show ?thesis using ch n unfolding r operator_list_def
      by (simp del: drop_append, elim disjE) (simp_all add: defs)
  next
    assume "ty \<in> set (drop 16 operator_list)"
    from plain_operators[OF this] obtain c where c: "runes ty = [c]" "plain_operator c ty" by (elim exE conjE)
    then have "lx_ch l = c" using ch(1) r[of 0] by simp
    with c show ?thesis using scan_token_plain[of l ty] n(1) by (simp add: reads_def)
  qed
qed

text \<open>The six spellings of a token, each with the text it has.\<close>

lemma well_spelled_cases [consumes 1, case_names quoted c_quoted decimal prefixed float ident operator]:
  assumes "well_spelled t"
  obtains
    lit where "t = (''STRING'', lit)" "token_text t = 34 # lit @ [34]" "list_all (\<lambda>ch. ch \<noteq> 34 \<and> ch \<noteq> 0) lit"
  | lit where "t = (''CSTRING'', lit)" "token_text t = 99 # 34 # lit @ [34]" "list_all (\<lambda>ch. ch \<noteq> 34 \<and> ch \<noteq> 0) lit"
  | lit where "t = (''INT'', lit)" "token_text t = lit" "decimal_int lit"
  | lit where "t = (''INT'', lit)" "token_text t = lit" "prefixed_int lit"
  | lit where "t = (''FLOAT'', lit)" "token_text t = lit" "float_text lit"
  | lit where "t = (lookup_ident lit, lit)" "token_text t = lit" "lit \<noteq> []" "is_letter (hd lit)"
      "list_all (\<lambda>ch. is_letter ch \<or> is_dec ch) lit"
  | ty where "t = (ty, runes ty)" "token_text t = runes ty" "ty \<in> set operator_list"
proof -
  obtain ty lit where t: "t = (ty, lit)" by (cases t)
  show thesis
  proof (cases "ty = ''STRING'' \<or> ty = ''CSTRING''")
    case True
    then show thesis using assms that(1,2)[of lit] by (auto simp: t well_spelled_def token_text_def)
  next
    case str: False
    then have plain: "token_text t = lit" by (simp add: t token_text_def)
    show thesis
    proof (cases "ty = ''INT'' \<or> ty = ''FLOAT''")
      case True
      then show thesis using assms that(3-5)[of lit] plain by (auto simp: t well_spelled_def)
    next
      case num: False
      show thesis
      proof (cases "lit \<noteq> [] \<and> is_letter (hd lit)")
        case True
        then show thesis using assms str num that(6)[of lit] plain by (simp add: t well_spelled_def)
      next
        case False
        then have "ty \<in> set operator_list \<and> lit = runes ty" using assms str num by (simp add: t well_spelled_def)
        then show thesis using that(7)[of ty] plain t by simp
      qed
    qed
  qed
qed

lemma reads_text:
  assumes s: "stands sid input k l" and d: "drop k input = token_text t @ 32 # rest" and w: "well_spelled t"
  shows "reads sid input k l (token_text t) t"
  using w
proof (cases rule: well_spelled_cases)
  case (quoted lit)
  then show ?thesis using reads_string[OF s, of lit rest] d by simp
next
  case (c_quoted lit)
  then show ?thesis using reads_cstring[OF s, of lit rest] d by simp
next
  case (decimal lit)
  then show ?thesis using reads_decimal[OF s, of lit rest] d by simp
next
  case (prefixed lit)
  then show ?thesis using reads_prefixed[OF s, of lit rest] d by simp
next
  case (float lit)
  then show ?thesis using reads_float[OF s, of lit rest] d by simp
next
  case (ident lit)
  then show ?thesis using reads_identifier[OF s, of lit 32 rest] d by simp
next
  case (operator ty)
  then show ?thesis using reads_operator[OF s, of ty rest] d by simp
qed

definition plain_head :: "rune list \<Rightarrow> bool" where
  "plain_head w \<longleftrightarrow> w \<noteq> [] \<and> hd w \<noteq> 0 \<and> \<not> is_blank (hd w) \<and> (hd w = 47 \<longrightarrow> tl w = [])"

lemma plain_head_classes:
  "w \<noteq> [] \<Longrightarrow> is_letter (hd w) \<Longrightarrow> plain_head w" "w \<noteq> [] \<Longrightarrow> is_dec (hd w) \<Longrightarrow> plain_head w"
  by (auto simp: plain_head_def is_letter_def is_dec_def is_blank_def)

lemma operator_head: "ty \<in> set operator_list \<Longrightarrow> plain_head (runes ty) \<and> ty \<noteq> ''EOF''"
  unfolding operator_list_def by (simp, elim disjE) (simp_all add: is_blank_def plain_head_def)

lemma number_heads:
  "decimal_int w \<Longrightarrow> w \<noteq> [] \<and> is_dec (hd w)"
  "prefixed_int w \<Longrightarrow> w \<noteq> [] \<and> is_dec (hd w)"
  "float_text w \<Longrightarrow> w \<noteq> [] \<and> is_dec (hd w)"
proof -
  show "decimal_int w \<Longrightarrow> w \<noteq> [] \<and> is_dec (hd w)" by (simp add: decimal_int_def)
  show "prefixed_int w \<Longrightarrow> w \<noteq> [] \<and> is_dec (hd w)"
    by (cases w; cases "tl w") (auto simp: prefixed_int_def is_dec_def)
  have fraction: "fraction_text m \<Longrightarrow> m \<noteq> [] \<and> is_dec (hd m)" for m
    by (elim fraction_parts) (auto simp: decimal_int_def)
  assume "float_text w"
  then have m: "fraction_text (takeWhile (\<lambda>ch. ch \<noteq> 101 \<and> ch \<noteq> 69) w) \<or> decimal_int (takeWhile (\<lambda>ch. ch \<noteq> 101 \<and> ch \<noteq> 69) w)"
    by (auto simp: float_text_def Let_def)
  let ?m = "takeWhile (\<lambda>ch. ch \<noteq> 101 \<and> ch \<noteq> 69) w"
  from m fraction have "?m \<noteq> []" "is_dec (hd ?m)" by (auto simp: decimal_int_def)
  then show "w \<noteq> [] \<and> is_dec (hd w)" by (cases w) (auto split: if_splits)
qed

lemma token_text_head:
  assumes "well_spelled t"
  shows "plain_head (token_text t) \<and> fst t \<noteq> ''EOF''"
  using assms
proof (cases rule: well_spelled_cases)
  case (ident lit)
  then show ?thesis using lookup_ident_not_EOF plain_head_classes(1) by simp
qed (simp_all add: plain_head_classes(2) number_heads operator_head plain_head_def[of "_ # _"] is_blank_def)

lemma skip_ignored_plain:
  assumes s: "stands sid input k l" and j: "j = run_from is_blank input k"
    and c: "rune_at input j \<noteq> 47 \<or> rune_at input (Suc j) \<noteq> 47"
  shows "stands sid input j (skip_ignored l)"
proof -
  obtain blank l0 where w: "skip_whitespace l = (blank, l0)" by (cases "skip_whitespace l")
  define l1 where "l1 = (if blank then clear_pending l0 else l0)"
  have s1: "stands sid input j l1" using stands_whitespace[OF s] w by (simp add: l1_def j)
  have "skip_turn l = (False, l1)"
    using c stands_simps(5,6)[OF s1] by (simp add: skip_turn_def w Let_def l1_def)
  then show ?thesis using s1 by (subst skip_ignored.simps) simp
qed

definition token_key :: "token \<Rightarrow> string \<times> rune list" where
  "token_key t = (tk_type t, tk_literal t)"

lemma token_key_type [simp]: "fst (token_key t) = tk_type t"
  by (simp add: token_key_def)

lemma next_token_reads:
  assumes s: "stands sid input k l" and j: "j = run_from is_blank input k"
    and d: "drop j input = token_text t @ 32 # rest" and t: "well_spelled t"
  shows "token_key (fst (next_token l)) = t \<and> fst t \<noteq> ''EOF'' \<and>
    stands sid input (j + length (token_text t)) (snd (next_token l))"
proof -
  from token_text_head[OF t] obtain x xs where x: "token_text t = x # xs" "x = 47 \<longrightarrow> xs = []" "fst t \<noteq> ''EOF''"
    by (cases "token_text t") (auto simp: plain_head_def)
  have "rune_at input j = x" "rune_at input (Suc j) = hd (xs @ [32])"
    using rune_at_first[of j input x] drop_next[of j input x] d x(1)
    by (cases xs; simp add: rune_at_drop)+
  then have "stands sid input j (clear_pending (skip_ignored l))"
    using skip_ignored_plain[OF s j] x(2) by auto
  from reads_text[OF this d t] show ?thesis using x(3)
    by (cases t) (auto simp: reads_def next_token_def Let_def token_key_def mk_token_def split: prod.splits)
qed

definition spaced :: "(string \<times> rune list) list \<Rightarrow> rune list" where
  "spaced ts = concat (map (\<lambda>t. token_text t @ [32]) ts)"

lemma run_from_text:
  assumes "drop k input = replicate b 32 @ token_text t @ rest" "well_spelled t"
  shows "run_from is_blank input k = k + b"
proof -
  from token_text_head[OF assms(2)] obtain x xs where x: "token_text t = x # xs" "\<not> is_blank x"
    by (cases "token_text t") (auto simp: plain_head_def)
  have "list_all (\<lambda>ch. ch \<noteq> 0 \<and> is_blank ch) (replicate b 32)" by (simp add: list_all_iff is_blank_def)
  with x show ?thesis using assms(1) run_from_exact[of k input "replicate b 32" x "xs @ rest" is_blank] by simp
qed

lemma lex_tokens_spaced:
  "stands sid input k l \<Longrightarrow> drop k input = replicate b 32 @ spaced ts @ rest \<Longrightarrow> list_all well_spelled ts \<Longrightarrow>
   length ts < fuel \<Longrightarrow> rest = [] \<or> hd rest = 0 \<Longrightarrow>
   map_option (map token_key) (lex_tokens fuel l) = Some (ts @ [(''EOF'', [])])"
proof (induction ts arbitrary: k l b fuel)
  case Nil
  then have d: "drop k input = replicate b 32 @ rest" by (simp add: spaced_def)
  have j: "run_from is_blank input k = k + b"
    using d Nil(5) by (cases rest) (simp_all add: run_from_def is_blank_def takeWhile_append takeWhile_replicate)
  have z: "rune_at input (k + b) = 0"
    using d Nil(5) by (cases rest) (simp_all add: rune_at_drop add.commute[of k] drop_drop[symmetric] del: drop_drop)
  have s: "stands sid input (k + b) (clear_pending (skip_ignored l))"
    using skip_ignored_plain[OF Nil(1) j[symmetric]] z by simp
  then have "token_key (fst (next_token l)) = (''EOF'', [])"
    using scan_token_EOF[of "clear_pending (skip_ignored l)"] stands_simps(5)[OF s] z
    by (simp add: next_token_def Let_def token_key_def mk_token_def)
  with Nil(4) show ?case
    by (cases fuel; cases "next_token l") (auto simp: token_key_def)
next
  case (Cons t ts)
  have d: "drop k input = replicate b 32 @ token_text t @ 32 # spaced ts @ rest" using Cons.prems(2) by (simp add: spaced_def)
  have t: "well_spelled t" using Cons.prems(3) by simp
  note j = run_from_text[OF d t]
  have d': "drop (k + b) input = token_text t @ 32 # spaced ts @ rest"
    using d by (simp add: add.commute[of k] drop_drop[symmetric] del: drop_drop)
  note n = next_token_reads[OF Cons.prems(1) j[symmetric] d' t]
  have d2: "drop (k + b + length (token_text t)) input = replicate 1 32 @ spaced ts @ rest"
    using d' by (simp add: add.commute[of "k + b"] drop_drop[symmetric] del: drop_drop)
  obtain f where f: "fuel = Suc f" "length ts < f" using Cons.prems(4) by (cases fuel) auto
  have "map_option (map token_key) (lex_tokens f (snd (next_token l))) = Some (ts @ [(''EOF'', [])])"
    using n Cons.prems(3,5) f by (intro Cons.IH[OF _ d2]) auto
  with n f show ?case
    by (cases "next_token l"; cases "lex_tokens f (snd (next_token l))") auto
qed

text \<open>
  C17: Scanning undoes printing. Write any sequence of well-spelled tokens out, each followed by
  a space: names and keywords as their letters, integers in the decimal, hexadecimal or binary
  spelling, floating-point numbers with a fraction, an exponent or both, every operator and
  delimiter of the language, string and C string literals between their quotes. The scanner reads
  back the very same types and literals, in order, and then the end of the file. A string literal
  holds no quote and no rune 0, for which the one-line spelling has no text; the multi-line
  spelling and illegal tokens are not printed.
\<close>
theorem lex_roundtrip:
  assumes "list_all well_spelled ts"
  shows "map_option (map (\<lambda>t. (tk_type t, tk_literal t))) (lex sid (concat (map (\<lambda>t. token_text t @ [32]) ts)))
    = Some (ts @ [(''EOF'', [])])"
proof -
  have "length ts \<le> length (spaced ts)" by (induction ts) (auto simp: spaced_def)
  then have "map_option (map token_key) (lex sid (spaced ts)) = Some (ts @ [(''EOF'', [])])"
    unfolding lex_def using lex_tokens_spaced[where b = 0 and k = 0 and rest = "[]", OF stands_new _ assms] by (simp del: lex_tokens.simps)
  then show ?thesis by (simp add: spaced_def token_key_def[abs_def])
qed

theorem lex_roundtrip_witness:
  "map_option (map (\<lambda>t. (tk_type t, tk_literal t)))
     (lex None (concat (map (\<lambda>t. token_text t @ [32])
        [(''let'', runes ''let''), (''IDENT'', runes ''let_it''), (''='', runes ''=''), (''FLOAT'', runes ''1.50''),
         (''FLOAT'', runes ''2.5e-3''), (''FLOAT'', runes ''1E6''),
         (''/'', runes ''/''), (''STRING'', runes ''// no''), (''INT'', runes ''0xfF_1''), (''...'', runes ''...'')])))
   = Some ([(''let'', runes ''let''), (''IDENT'', runes ''let_it''), (''='', runes ''=''), (''FLOAT'', runes ''1.50''),
         (''FLOAT'', runes ''2.5e-3''), (''FLOAT'', runes ''1E6''),
         (''/'', runes ''/''), (''STRING'', runes ''// no''), (''INT'', runes ''0xfF_1''), (''...'', runes ''...'')]
      @ [(''EOF'', [])])"
  by (rule lex_roundtrip) code_simp

text \<open>
  C38: The scanner takes the rune 0 for the end of the file: after any sequence of well-spelled
  tokens, each followed by a space, a NUL in the text gives the end-of-file token, whatever text
  comes after it. Nothing is reported and the rest of the file is not read.
\<close>
theorem lex_stops_at_nul:
  assumes "list_all well_spelled ts"
  shows "map_option (map (\<lambda>t. (tk_type t, tk_literal t)))
      (lex sid (concat (map (\<lambda>t. token_text t @ [32]) ts) @ 0 # unread_text))
    = Some (ts @ [(''EOF'', [])])"
proof -
  have "length ts \<le> length (spaced ts)" by (induction ts) (auto simp: spaced_def)
  then have "map_option (map token_key) (lex sid (spaced ts @ 0 # unread_text)) = Some (ts @ [(''EOF'', [])])"
    unfolding lex_def
    using lex_tokens_spaced[where b = 0 and k = 0 and rest = "0 # unread_text", OF stands_new _ assms]
    by (simp del: lex_tokens.simps)
  then show ?thesis by (simp add: spaced_def token_key_def[abs_def])
qed

theorem lex_stops_at_nul_witness:
  "map_option (map (\<lambda>t. (tk_type t, tk_literal t)))
     (lex None (concat (map (\<lambda>t. token_text t @ [32]) [(''return'', runes ''return''), ('';'', runes '';'')])
        @ 0 # runes ''not ( read''))
   = Some ([(''return'', runes ''return''), ('';'', runes '';'')] @ [(''EOF'', [])])"
  by (rule lex_stops_at_nul) code_simp

text \<open>The exponent is read without a digit: \<open>1e+\<close> is one token.\<close>

lemma exponent_without_digits:
  "map_option (map (\<lambda>t. (tk_type t, tk_literal t))) (lex None (runes ''1e+;''))
   = Some [(''FLOAT'', runes ''1e+''), ('';'', runes '';''), (''EOF'', [])]"
  by code_simp

end
