(* ===== verification/Stdtarget.thy ===== *)
theory Stdtarget
  imports Prelude
begin

text \<open>
  Package stdtarget (internal/stdtarget/stdtarget.go): the build targets, their operating
  systems, and the predicates of \<^verbatim>\<open>std::target\<close>. The operating system the compiler
  runs on is an argument of \<open>host\<close>.
\<close>

datatype target = NativeDarwin | NativeLinux | NativeWindows | WasmWASI | WasmBrowser

definition target_is_native :: "target \<Rightarrow> bool" where
  "target_is_native t \<longleftrightarrow> t = NativeDarwin \<or> t = NativeLinux \<or> t = NativeWindows"

definition target_os :: "target \<Rightarrow> string" where
  "target_os t = (case t of NativeDarwin \<Rightarrow> ''darwin'' | NativeLinux \<Rightarrow> ''linux'' | NativeWindows \<Rightarrow> ''windows'' | _ \<Rightarrow> [])"

definition native_os :: "string list" where
  "native_os = [''darwin'', ''linux'', ''windows'']"

definition native_for :: "string \<Rightarrow> target option" where
  "native_for os =
     (if os = ''darwin'' then Some NativeDarwin
      else if os = ''linux'' then Some NativeLinux
      else if os = ''windows'' then Some NativeWindows else None)"

text \<open>The error names the host that is not supported.\<close>

definition host :: "string \<Rightarrow> string + target" where
  "host goos = (case native_for goos of Some t \<Rightarrow> Inr t | None \<Rightarrow> Inl goos)"

datatype predicate = IsNative | IsWASI | IsBrowser | IsDarwin | IsLinux | IsWindows

definition target_spelling :: "predicate \<Rightarrow> string" where
  "target_spelling p = (case p of
     IsNative \<Rightarrow> ''std::target::is_native''
   | IsWASI \<Rightarrow> ''std::target::is_wasi''
   | IsBrowser \<Rightarrow> ''std::target::is_browser''
   | IsDarwin \<Rightarrow> ''std::target::is_darwin''
   | IsLinux \<Rightarrow> ''std::target::is_linux''
   | IsWindows \<Rightarrow> ''std::target::is_windows'')"

definition target_predicates :: "predicate list" where
  "target_predicates = [IsNative, IsWASI, IsBrowser, IsDarwin, IsLinux, IsWindows]"

definition target_identify :: "string \<Rightarrow> predicate option" where
  "target_identify name = find (\<lambda>p. target_spelling p = name) target_predicates"

definition target_evaluate :: "target \<Rightarrow> predicate \<Rightarrow> bool" where
  "target_evaluate t p = (case p of
     IsNative \<Rightarrow> target_is_native t
   | IsWASI \<Rightarrow> t = WasmWASI
   | IsBrowser \<Rightarrow> t = WasmBrowser
   | IsDarwin \<Rightarrow> t = NativeDarwin
   | IsLinux \<Rightarrow> t = NativeLinux
   | IsWindows \<Rightarrow> t = NativeWindows)"

lemma native_for_Some: "native_for os = Some t \<longleftrightarrow> target_is_native t \<and> target_os t = os"
  by (cases t) (auto simp: native_for_def target_is_native_def target_os_def)

lemma native_for_os: "native_for os \<noteq> None \<longleftrightarrow> os \<in> set native_os"
  by (auto simp: native_for_def native_os_def)

lemma target_identify_Some: "target_identify name = Some p \<longleftrightarrow> target_spelling p = name"
  unfolding target_identify_def target_predicates_def target_spelling_def
  by (cases p) auto

text \<open>
  A predicate of \<^verbatim>\<open>std::target\<close> is found by its spelling and by nothing else, and
  the predicates answer for a target what its name says: the native targets are those an
  operating system name selects, each by its own predicate, and exactly one of
  native, WASI and browser holds for every target.
\<close>
theorem target_predicates_exact:
  "(target_identify name = Some p \<longleftrightarrow> name = target_spelling p) \<and>
   (target_evaluate t IsNative \<longleftrightarrow> native_for (target_os t) = Some t) \<and>
   [target_evaluate t IsDarwin, target_evaluate t IsLinux, target_evaluate t IsWindows]
     = map (\<lambda>os. native_for os = Some t) native_os \<and>
   length (filter (target_evaluate t) [IsNative, IsWASI, IsBrowser]) = 1"
proof (intro conjI)
  show "target_identify name = Some p \<longleftrightarrow> name = target_spelling p"
    using target_identify_Some[of name p] by auto
  show "target_evaluate t IsNative \<longleftrightarrow> native_for (target_os t) = Some t"
    by (simp add: native_for_Some target_evaluate_def)
  show "[target_evaluate t IsDarwin, target_evaluate t IsLinux, target_evaluate t IsWindows]
     = map (\<lambda>os. native_for os = Some t) native_os"
    by (cases t) (simp_all add: target_evaluate_def native_for_def native_os_def)
  show "length (filter (target_evaluate t) [IsNative, IsWASI, IsBrowser]) = 1"
    by (cases t) (simp_all add: target_evaluate_def target_is_native_def)
qed

end
