(* ===== verification/Manifest.thy ===== *)
theory Manifest
  imports Stdtarget
begin

text \<open>
  Package manifest (internal/manifest/manifest.go): the reader of kizu.toml. The text is a
  list of runes. The loop over the lines keeps the lines still unread and the number of the
  next one, counted from 1 as the errors count them. An error is a value with the line it
  names; the partly filled manifest the code returns beside it is read by no caller.
\<close>

section \<open>Data\<close>

record search_paths =
  sp_libraries :: "rune list list"
  sp_frameworks :: "rune list list"

record manifest =
  mf_name :: "rune list"
  mf_version :: "rune list"
  mf_paths :: "rune list list"
  mf_native :: search_paths
  mf_native_by_os :: "rune list \<rightharpoonup> search_paths"

datatype manifest_error =
    InvalidSection nat
  | UnsupportedSection nat "rune list"
  | UnsupportedNative nat "rune list"
  | ExpectedAssignment nat
  | UnterminatedArray nat
  | UnsupportedKey nat "rune list" "rune list"
  | ExpectedQuoted nat
  | ExpectedArray nat
  | MissingName
  | ReservedName

definition no_paths :: search_paths where
  "no_paths = \<lparr>sp_libraries = [], sp_frameworks = []\<rparr>"

definition empty_manifest :: manifest where
  "empty_manifest = \<lparr>mf_name = [], mf_version = [], mf_paths = [], mf_native = no_paths,
     mf_native_by_os = Map.empty\<rparr>"

definition native_search :: "manifest \<Rightarrow> rune list \<Rightarrow> search_paths" where
  "native_search m os =
     (let for_os = (case mf_native_by_os m os of Some p \<Rightarrow> p | None \<Rightarrow> no_paths)
      in \<lparr>sp_libraries = sp_libraries (mf_native m) @ sp_libraries for_os,
          sp_frameworks = sp_frameworks (mf_native m) @ sp_frameworks for_os\<rparr>)"

section \<open>Lines\<close>

definition strip_comment :: "rune list \<Rightarrow> rune list" where
  "strip_comment l = takeWhile (\<lambda>ch. ch \<noteq> rune (CHR ''#'')) l"

definition manifest_line :: "rune list \<Rightarrow> rune list" where
  "manifest_line l = trim_runes (strip_comment l)"

definition has_prefix :: "rune list \<Rightarrow> char \<Rightarrow> bool" where
  "has_prefix s c \<longleftrightarrow> s \<noteq> [] \<and> hd s = rune c"

definition has_suffix :: "rune list \<Rightarrow> char \<Rightarrow> bool" where
  "has_suffix s c \<longleftrightarrow> s \<noteq> [] \<and> last s = rune c"

definition starts_multiline_array :: "rune list \<Rightarrow> bool" where
  "starts_multiline_array value \<longleftrightarrow> has_prefix value (CHR ''['') \<and> \<not> has_suffix value (CHR '']'')"

text \<open>The joined value, the lines after it, and the number of the line that closed it.\<close>

fun collect_multiline_array ::
  "rune list \<Rightarrow> rune list list \<Rightarrow> nat \<Rightarrow> (rune list \<times> rune list list \<times> nat) option" where
  "collect_multiline_array value [] no = None"
| "collect_multiline_array value (l # ls) no =
     (let line = manifest_line l
      in if line = [] then collect_multiline_array value ls (Suc no)
         else if has_suffix line (CHR '']'') then Some (value @ line, ls, Suc no)
         else collect_multiline_array (value @ line) ls (Suc no))"

definition parse_section :: "rune list \<Rightarrow> nat \<Rightarrow> manifest_error + rune list" where
  "parse_section line no =
     (if \<not> has_suffix line (CHR '']'') then Inl (InvalidSection no)
      else let section_name = trim_runes (trim_suffix (trim_prefix line (runes ''['')) (runes '']''))
           in if section_name = runes ''package'' \<or> section_name = runes ''modules'' \<or> section_name = runes ''native''
              then Inr section_name
              else (case cut_prefix section_name (runes ''native.'') of
                      Some os \<Rightarrow> if list_ex (\<lambda>n. runes n = os) native_os then Inr section_name
                                 else Inl (UnsupportedNative no section_name)
                    | None \<Rightarrow> Inl (UnsupportedSection no section_name)))"

definition cut_assignment :: "rune list \<Rightarrow> (rune list \<times> rune list) option" where
  "cut_assignment line =
     (if rune (CHR ''='') \<in> set line
      then let key = takeWhile (\<lambda>ch. ch \<noteq> rune (CHR ''='')) line
           in Some (trim_runes key, trim_runes (drop (Suc (length key)) line))
      else None)"

definition parse_assignment :: "rune list \<Rightarrow> nat \<Rightarrow> manifest_error + (rune list \<times> rune list)" where
  "parse_assignment line no =
     (case cut_assignment line of
        None \<Rightarrow> Inl (ExpectedAssignment no)
      | Some (key, value) \<Rightarrow>
          if key = [] \<or> value = [] then Inl (ExpectedAssignment no) else Inr (key, value))"

section \<open>Values\<close>

definition parse_string_value :: "rune list \<Rightarrow> nat \<Rightarrow> manifest_error + rune list" where
  "parse_string_value value no =
     (if 2 \<le> length value \<and> has_prefix value (CHR 0x22) \<and> has_suffix value (CHR 0x22)
      then Inr (butlast (tl value)) else Inl (ExpectedQuoted no))"

text \<open>An empty piece is skipped when it is the last one.\<close>

fun parse_string_parts :: "rune list list \<Rightarrow> nat \<Rightarrow> manifest_error + rune list list" where
  "parse_string_parts [] no = Inr []"
| "parse_string_parts (part # rest) no =
     (let trimmed = trim_runes part
      in if trimmed = [] \<and> rest = [] then Inr []
         else bind_res (parse_string_value trimmed no) (\<lambda>v.
              bind_res (parse_string_parts rest no) (\<lambda>vs. Inr (v # vs))))"

definition parse_string_list :: "rune list \<Rightarrow> nat \<Rightarrow> manifest_error + rune list list" where
  "parse_string_list value no =
     (if \<not> has_prefix value (CHR ''['') \<or> \<not> has_suffix value (CHR '']'') then Inl (ExpectedArray no)
      else let body = trim_runes (trim_suffix (trim_prefix value (runes ''['')) (runes '']''))
           in if body = [] then Inr [] else parse_string_parts (split_on (rune (CHR '','')) body) no)"

text \<open>The paths of a section, and the manifest with them replaced.\<close>

definition native_search_paths :: "manifest \<Rightarrow> rune list \<Rightarrow> search_paths" where
  "native_search_paths m sec =
     (if sec = runes ''native'' then mf_native m
      else case mf_native_by_os m (trim_prefix sec (runes ''native.'')) of
             Some p \<Rightarrow> p | None \<Rightarrow> no_paths)"

definition set_native_paths :: "manifest \<Rightarrow> rune list \<Rightarrow> search_paths \<Rightarrow> manifest" where
  "set_native_paths m sec p =
     (if sec = runes ''native'' then m\<lparr>mf_native := p\<rparr>
      else m\<lparr>mf_native_by_os := (mf_native_by_os m)(trim_prefix sec (runes ''native.'') \<mapsto> p)\<rparr>)"

definition assign_native_value ::
  "manifest \<Rightarrow> rune list \<Rightarrow> rune list \<Rightarrow> rune list \<Rightarrow> nat \<Rightarrow> manifest_error + manifest" where
  "assign_native_value m sec key value no =
     bind_res (parse_string_list value no) (\<lambda>parsed.
       let p = native_search_paths m sec
       in if key = runes ''library_search'' then Inr (set_native_paths m sec (p\<lparr>sp_libraries := parsed\<rparr>))
          else if key = runes ''framework_search'' then Inr (set_native_paths m sec (p\<lparr>sp_frameworks := parsed\<rparr>))
          else Inl (UnsupportedKey no sec key))"

definition assign_manifest_value ::
  "manifest \<Rightarrow> rune list \<Rightarrow> rune list \<Rightarrow> rune list \<Rightarrow> nat \<Rightarrow> manifest_error + manifest" where
  "assign_manifest_value m sec key value no =
     (let name = sec @ runes ''.'' @ key in
      if name = runes ''package.name'' then
        bind_res (parse_string_value value no) (\<lambda>v. Inr (m\<lparr>mf_name := v\<rparr>))
      else if name = runes ''package.version'' then
        bind_res (parse_string_value value no) (\<lambda>v. Inr (m\<lparr>mf_version := v\<rparr>))
      else if name = runes ''modules.paths'' then
        bind_res (parse_string_list value no) (\<lambda>v. Inr (m\<lparr>mf_paths := v\<rparr>))
      else if sec = runes ''native'' \<or> prefix (runes ''native.'') sec then
        assign_native_value m sec key value no
      else Inl (UnsupportedKey no sec key))"

definition validate_manifest :: "manifest \<Rightarrow> bool \<Rightarrow> manifest_error + manifest" where
  "validate_manifest m allow =
     (if mf_name m = [] then Inl MissingName
      else if mf_name m = runes ''std'' \<and> \<not> allow then Inl ReservedName
      else Inr (if mf_paths m = [] then m\<lparr>mf_paths := [runes ''src'']\<rparr> else m))"

section \<open>The loop over the lines\<close>

lemma collect_multiline_array_shorter:
  "collect_multiline_array v ls no = Some (v', ls', no') \<Longrightarrow> length ls' < length ls \<and> no' + length ls' = no + length ls"
  by (induction v ls no rule: collect_multiline_array.induct) (auto simp: Let_def split: if_splits)

text \<open>
  One turn of the loop: the manifest and the section after the line, the lines still unread
  and how many were read.
\<close>

definition parse_turn ::
  "manifest \<Rightarrow> rune list \<Rightarrow> rune list \<Rightarrow> rune list list \<Rightarrow> nat \<Rightarrow>
   manifest_error + (manifest \<times> rune list \<times> rune list list \<times> nat)" where
  "parse_turn m sec l ls here =
     (let line = manifest_line l in
      if line = [] then Inr (m, sec, ls, here)
      else if has_prefix line (CHR ''['') then
        bind_res (parse_section line here) (\<lambda>sec'. Inr (m, sec', ls, here))
      else bind_res (parse_assignment line here) (\<lambda>(key, value).
        bind_res (if starts_multiline_array value
                  then (case collect_multiline_array value ls here of
                          None \<Rightarrow> Inl (UnterminatedArray here)
                        | Some joined \<Rightarrow> Inr joined)
                  else Inr (value, ls, here)) (\<lambda>(value', ls', no').
        bind_res (assign_manifest_value m sec key value' no') (\<lambda>m'. Inr (m', sec, ls', no')))))"

lemma parse_turn_shorter:
  "parse_turn m sec l ls here = Inr (m', sec', ls', no') \<Longrightarrow>
   length ls' \<le> length ls \<and> no' + length ls' = here + length ls"
  by (auto simp: parse_turn_def Let_def bind_res_eq_Inr split: if_splits option.splits
      dest!: collect_multiline_array_shorter)

function parse_lines :: "manifest \<Rightarrow> rune list \<Rightarrow> rune list list \<Rightarrow> nat \<Rightarrow> manifest_error + manifest" where
  "parse_lines m sec [] no = Inr m"
| "parse_lines m sec (l # ls) no =
     bind_res (parse_turn m sec l ls (Suc no)) (\<lambda>(m', sec', ls', no'). parse_lines m' sec' ls' no')"
  by pat_completeness auto
termination
  by (relation "measure (\<lambda>(m, sec, ls, no). length ls)") (auto dest: parse_turn_shorter)

definition parse_manifest_text :: "rune list \<Rightarrow> bool \<Rightarrow> manifest_error + manifest" where
  "parse_manifest_text src allow =
     bind_res (parse_lines empty_manifest [] (split_on 10 src) 0) (\<lambda>m. validate_manifest m allow)"

definition parse_manifest :: "rune list \<Rightarrow> manifest_error + manifest" where
  "parse_manifest src = parse_manifest_text src False"

definition parse_std_manifest :: "rune list \<Rightarrow> manifest_error + manifest" where
  "parse_std_manifest src = parse_manifest_text src True"

section \<open>Errors name a line, results are valid\<close>

fun error_line :: "manifest_error \<Rightarrow> nat option" where
  "error_line (InvalidSection no) = Some no"
| "error_line (UnsupportedSection no _) = Some no"
| "error_line (UnsupportedNative no _) = Some no"
| "error_line (ExpectedAssignment no) = Some no"
| "error_line (UnterminatedArray no) = Some no"
| "error_line (UnsupportedKey no _ _) = Some no"
| "error_line (ExpectedQuoted no) = Some no"
| "error_line (ExpectedArray no) = Some no"
| "error_line MissingName = None"
| "error_line ReservedName = None"

definition known_os :: "rune list \<Rightarrow> bool" where
  "known_os os \<longleftrightarrow> list_ex (\<lambda>n. runes n = os) native_os"

text \<open>A section the reader accepts.\<close>

definition known_section :: "rune list \<Rightarrow> bool" where
  "known_section sec \<longleftrightarrow> sec = [] \<or> sec = runes ''package'' \<or> sec = runes ''modules'' \<or> sec = runes ''native'' \<or>
     (case cut_prefix sec (runes ''native.'') of Some os \<Rightarrow> known_os os | None \<Rightarrow> False)"

definition known_targets :: "manifest \<Rightarrow> bool" where
  "known_targets m \<longleftrightarrow> (\<forall>os. mf_native_by_os m os \<noteq> None \<longrightarrow> known_os os)"

definition answers :: "('a \<Rightarrow> bool) \<Rightarrow> nat \<Rightarrow> nat \<Rightarrow> manifest_error + 'a \<Rightarrow> bool" where
  "answers P a b r \<longleftrightarrow> (case r of
     Inr x \<Rightarrow> P x
   | Inl e \<Rightarrow> (case error_line e of Some no \<Rightarrow> a \<le> no \<and> no \<le> b | None \<Rightarrow> False))"

lemma answers_simps [simp]:
  "answers P a b (Inr x) = P x"
  "answers P a b (Inl e) = (case error_line e of Some no \<Rightarrow> a \<le> no \<and> no \<le> b | None \<Rightarrow> False)"
  by (simp_all add: answers_def)

lemma answers_bind:
  assumes "answers Q a b r" "\<And>x. r = Inr x \<Longrightarrow> Q x \<Longrightarrow> answers P a b (f x)"
  shows "answers P a b (bind_res r f)"
  using assms by (cases r) auto

lemma answers_mono: "answers P a b r \<Longrightarrow> a' \<le> a \<Longrightarrow> b \<le> b' \<Longrightarrow> answers P a' b' r"
  by (cases r) (auto split: option.splits)

lemma parse_section_answers: "answers known_section no no (parse_section line no)"
  by (auto simp: parse_section_def Let_def known_section_def known_os_def split: option.splits)

lemma parse_assignment_answers: "answers (\<lambda>_. True) no no (parse_assignment line no)"
  by (auto simp: parse_assignment_def split: option.splits)

lemma parse_string_value_answers: "answers (\<lambda>_. True) no no (parse_string_value v no)"
  by (auto simp: parse_string_value_def)

lemma parse_string_parts_answers: "answers (\<lambda>_. True) no no (parse_string_parts ps no)"
proof (induction ps)
  case (Cons part rest)
  have "answers (\<lambda>_. True) no no (bind_res (parse_string_parts rest no) (\<lambda>vs. Inr (v # vs)))" for v
    by (rule answers_bind[OF Cons.IH]) simp
  then show ?case by (auto simp: Let_def intro!: answers_bind[OF parse_string_value_answers])
qed simp

lemma parse_string_list_answers: "answers (\<lambda>_. True) no no (parse_string_list v no)"
  by (auto simp: parse_string_list_def Let_def parse_string_parts_answers)

lemma known_targets_set:
  assumes "known_targets m" "known_section sec" "sec = runes ''native'' \<or> prefix (runes ''native.'') sec"
  shows "known_targets (set_native_paths m sec p)"
proof (cases "sec = runes ''native''")
  case True
  then show ?thesis using assms(1) by (simp add: set_native_paths_def known_targets_def)
next
  case False
  with assms(3) obtain os where os: "sec = runes ''native.'' @ os" by (auto simp: prefix_def)
  with assms(2) have "known_os os" by (auto simp: known_section_def)
  moreover have "trim_prefix sec (runes ''native.'') = os" by (simp add: os trim_prefix_def)
  ultimately show ?thesis using assms(1) False by (auto simp: set_native_paths_def known_targets_def)
qed

lemma assign_manifest_value_answers:
  assumes "known_targets m" "known_section sec"
  shows "answers known_targets no no (assign_manifest_value m sec key v no)"
proof -
  have keep: "known_targets (m\<lparr>mf_name := v\<rparr>)" "known_targets (m\<lparr>mf_version := v\<rparr>)" "known_targets (m\<lparr>mf_paths := vs\<rparr>)" for v vs
    using assms(1) by (simp_all add: known_targets_def)
  show ?thesis
    unfolding assign_manifest_value_def Let_def assign_native_value_def
    using keep known_targets_set[OF assms]
    by (auto intro!: answers_bind[OF parse_string_value_answers] answers_bind[OF parse_string_list_answers])
qed

lemma collect_multiline_array_answers:
  "answers (\<lambda>(v', ls', no'). here \<le> no' \<and> no' + length ls' = here + length ls) here (here + length ls)
     (if starts_multiline_array v
      then (case collect_multiline_array v ls here of None \<Rightarrow> Inl (UnterminatedArray here) | Some joined \<Rightarrow> Inr joined)
      else Inr (v, ls, here))"
  by (auto split: option.splits dest: collect_multiline_array_shorter)

lemma parse_turn_answers:
  assumes "known_targets m" "known_section sec"
  shows "answers (\<lambda>(m', sec', ls', no'). known_targets m' \<and> known_section sec' \<and> here \<le> no') here (here + length ls)
    (parse_turn m sec l ls here)"
proof -
  have wide: "answers P here (here + length ls) r" if "answers P k k r" "here \<le> k" "k \<le> here + length ls"
    for P and r :: "manifest_error + 'c" and k
    by (rule answers_mono[OF that(1)]) (simp_all add: that)
  note steps = wide[OF parse_section_answers] wide[OF parse_assignment_answers] collect_multiline_array_answers
    wide[OF assign_manifest_value_answers[OF assms]]
  show ?thesis
    unfolding parse_turn_def Let_def using assms
    by (auto intro!: answers_bind[OF steps(1)] answers_bind[OF steps(2)] answers_bind[OF steps(3)] answers_bind[OF steps(4)]
        simp del: if_split)
qed

lemma parse_lines_answers:
  "known_targets m \<Longrightarrow> known_section sec \<Longrightarrow> answers known_targets (Suc no) (no + length ls) (parse_lines m sec ls no)"
proof (induction m sec ls no rule: parse_lines.induct)
  case (2 m sec l ls no)
  show ?case unfolding parse_lines.simps
  proof (rule answers_bind)
    show "answers (\<lambda>(m', sec', ls', no'). known_targets m' \<and> known_section sec' \<and> Suc no \<le> no')
        (Suc no) (no + length (l # ls)) (parse_turn m sec l ls (Suc no))"
      using parse_turn_answers[OF 2(2,3), of "Suc no" ls l] by simp
  next
    fix r assume r: "parse_turn m sec l ls (Suc no) = Inr r"
      "case r of (m', sec', ls', no') \<Rightarrow> known_targets m' \<and> known_section sec' \<and> Suc no \<le> no'"
    obtain m' sec' ls' no' where e: "r = (m', sec', ls', no')" using prod_cases4 by blast
    show "answers known_targets (Suc no) (no + length (l # ls)) (case r of (m', sec', ls', no') \<Rightarrow> parse_lines m' sec' ls' no')"
      using 2(1)[OF r(1) e[symmetric] refl refl] r e parse_turn_shorter[of m sec l ls "Suc no" m' sec' ls' no']
      by (auto elim!: answers_mono)
  qed
qed simp

text \<open>
  C40: What the reader of kizu.toml answers is usable whatever the text. A manifest it
  returns has a name, which is the reserved one only in the reader of the standard
  library, at least one module path, and search paths only for operating systems the
  targets know. An error about the text names one of its lines, and the two errors about the
  whole manifest name none.
\<close>
theorem parse_manifest_answers:
  "case parse_manifest_text src allow of
     Inr m \<Rightarrow> mf_name m \<noteq> [] \<and> mf_paths m \<noteq> [] \<and> \<not> (mf_name m = runes ''std'' \<and> \<not> allow) \<and>
       dom (mf_native_by_os m) \<subseteq> {runes ''darwin'', runes ''linux'', runes ''windows''}
   | Inl e \<Rightarrow> (case error_line e of
        Some no \<Rightarrow> 1 \<le> no \<and> no \<le> length (split_on 10 src)
      | None \<Rightarrow> e = MissingName \<or> e = ReservedName)"
proof -
  have known: "known_targets m \<Longrightarrow> dom (mf_native_by_os m) \<subseteq> {runes ''darwin'', runes ''linux'', runes ''windows''}" for m
    by (auto simp: known_targets_def known_os_def native_os_def dom_def)
  have "known_targets empty_manifest" "known_section []"
    by (simp_all add: known_targets_def empty_manifest_def known_section_def)
  from parse_lines_answers[OF this, of 0 "split_on 10 src"] known show ?thesis
    by (cases "parse_lines empty_manifest [] (split_on 10 src) 0")
      (auto simp: parse_manifest_text_def validate_manifest_def split: option.splits)
qed

section \<open>Round trip\<close>

definition quoted :: "rune list \<Rightarrow> rune list" where
  "quoted s = 34 # s @ [34]"

definition array_text :: "rune list list \<Rightarrow> rune list" where
  "array_text xs = runes ''['' @ join (runes '', '') (map quoted xs) @ runes '']''"

definition assignment_text :: "string \<Rightarrow> rune list \<Rightarrow> rune list" where
  "assignment_text key v = runes key @ runes '' = '' @ v"

definition search_lines :: "string \<Rightarrow> search_paths \<Rightarrow> rune list list" where
  "search_lines sec p =
     [runes ''['' @ runes sec @ runes '']'',
      assignment_text ''library_search'' (array_text (sp_libraries p)),
      assignment_text ''framework_search'' (array_text (sp_frameworks p))]"

definition manifest_lines :: "manifest \<Rightarrow> rune list list" where
  "manifest_lines m =
     [runes ''[package]'', assignment_text ''name'' (quoted (mf_name m)),
      assignment_text ''version'' (quoted (mf_version m)),
      runes ''[modules]'', assignment_text ''paths'' (array_text (mf_paths m))]
     @ search_lines ''native'' (mf_native m)
     @ concat (map (\<lambda>os. case mf_native_by_os m (runes os) of
         None \<Rightarrow> [] | Some p \<Rightarrow> search_lines (''native.'' @ os) p) native_os)"

text \<open>Text the file format can hold: no comment sign and no newline, in an array no comma.\<close>

definition line_text :: "rune list \<Rightarrow> bool" where
  "line_text s \<longleftrightarrow> rune (CHR ''#'') \<notin> set s \<and> 10 \<notin> set s"

definition item_text :: "rune list \<Rightarrow> bool" where
  "item_text s \<longleftrightarrow> line_text s \<and> rune (CHR '','') \<notin> set s"

definition paths_text :: "search_paths \<Rightarrow> bool" where
  "paths_text p \<longleftrightarrow> list_all item_text (sp_libraries p) \<and> list_all item_text (sp_frameworks p)"

definition writable :: "manifest \<Rightarrow> bool" where
  "writable m \<longleftrightarrow> mf_name m \<noteq> [] \<and> mf_name m \<noteq> runes ''std'' \<and> line_text (mf_name m) \<and> line_text (mf_version m) \<and>
     mf_paths m \<noteq> [] \<and> list_all item_text (mf_paths m) \<and> paths_text (mf_native m) \<and>
     list_all (\<lambda>os. case mf_native_by_os m (runes os) of None \<Rightarrow> True | Some p \<Rightarrow> paths_text p) native_os"

definition firm :: "rune list \<Rightarrow> bool" where
  "firm s \<longleftrightarrow> s \<noteq> [] \<and> \<not> is_space_rune (hd s) \<and> \<not> is_space_rune (last s)"

lemma trim_runes_firm [simp]: "firm s \<Longrightarrow> trim_runes s = s"
  by (simp add: firm_def trim_runes_id)

lemma trim_runes_before: "trim_runes (32 # s) = trim_runes s"
  by (simp add: trim_runes_def is_space_rune_def)

lemma trim_runes_after: "firm s \<Longrightarrow> trim_runes (s @ [32]) = s"
  using trim_runes_firm[of s] by (cases s) (simp_all add: trim_runes_def firm_def is_space_rune_def[of 32])

lemma firm_quoted [simp]: "firm (quoted s)" "quoted s \<noteq> []"
  by (simp_all add: firm_def quoted_def is_space_rune_def)

lemma parse_string_value_quoted [simp]: "parse_string_value (quoted s) no = Inr s"
  by (simp add: parse_string_value_def quoted_def has_prefix_def has_suffix_def)

lemma split_on_join_sep:
  "c \<notin> set sep \<Longrightarrow> list_all (\<lambda>x. c \<notin> set x) xs \<Longrightarrow> c \<notin> set x \<Longrightarrow>
   split_on c (join (c # sep) (x # xs)) = x # map (\<lambda>y. sep @ y) xs"
proof (induction xs arbitrary: x)
  case (Cons y ys)
  have "split_on c (sep @ join (c # sep) (y # ys)) = (sep @ y) # map (\<lambda>y. sep @ y) ys"
  proof (cases ys)
    case Nil
    then show ?thesis using Cons.prems by (simp add: split_on_none)
  next
    case (Cons z zs)
    have "split_on c ((sep @ y) @ c # sep @ join (c # sep) (z # zs)) = (sep @ y) # split_on c (sep @ join (c # sep) (z # zs))"
      using Cons.prems by (intro split_on_append) simp
    moreover have "split_on c (y @ c # sep @ join (c # sep) (z # zs)) = y # map (\<lambda>y. sep @ y) ys"
      using Cons.IH[of y] Cons.prems Cons by simp
    ultimately show ?thesis using Cons Cons.prems by (simp add: split_on_append)
  qed
  then show ?case using Cons.prems by (simp add: split_on_append)
qed (simp add: split_on_none)

lemma parse_string_parts_quoted: "parse_string_parts (map (\<lambda>x. 32 # quoted x) xs) no = Inr xs"
  by (induction xs) (simp_all add: Let_def trim_runes_before)

lemma join_quoted_ends:
  "xs \<noteq> [] \<Longrightarrow> join sep (map quoted xs) \<noteq> [] \<and> hd (join sep (map quoted xs)) = 34 \<and> last (join sep (map quoted xs)) = 34"
proof (induction xs)
  case (Cons x xs)
  then show ?case by (cases xs) (auto simp: quoted_def)
qed simp

lemma parse_string_list_array:
  assumes "list_all item_text xs"
  shows "parse_string_list (array_text xs) no = Inr xs"
proof (cases xs)
  case Nil
  then show ?thesis
    by (simp add: parse_string_list_def array_text_def has_prefix_def has_suffix_def trim_prefix_def trim_suffix_def
        cut_prefix_def suffix_def trim_runes_def Let_def)
next
  case (Cons x ys)
  define body where "body = join (runes '', '') (map quoted xs)"
  have "firm body" using join_quoted_ends[of xs "runes '', ''"] Cons by (simp add: body_def firm_def is_space_rune_def)
  have commas: "list_all (\<lambda>x. 44 \<notin> set x) (map quoted ys)" "44 \<notin> set (quoted x)"
    using assms Cons by (auto simp: list_all_iff item_text_def quoted_def)
  have "split_on 44 body = quoted x # map (\<lambda>y. [32] @ y) (map quoted ys)"
    using split_on_join_sep[OF _ commas, of "[32]"] Cons by (simp add: body_def)
  then have parts: "parse_string_parts (split_on (rune (CHR '','')) body) no = Inr xs"
    using parse_string_parts_quoted[of ys no] Cons by (simp add: Let_def comp_def)
  have "array_text xs = 91 # body @ [93]" by (simp add: array_text_def body_def)
  moreover have "trim_suffix (body @ [93]) [93] = body" by (simp add: trim_suffix_def)
  ultimately show ?thesis using parts \<open>firm body\<close>
    by (simp add: parse_string_list_def has_prefix_def has_suffix_def trim_prefix_def Let_def firm_def[of body])
qed

definition plain_key :: "string \<Rightarrow> bool" where
  "plain_key key \<longleftrightarrow> firm (runes key) \<and> list_all (\<lambda>ch. ch \<noteq> 35 \<and> ch \<noteq> 61 \<and> ch \<noteq> 10) (runes key) \<and> hd (runes key) \<noteq> 91"

lemma manifest_line_plain: "rune (CHR ''#'') \<notin> set l \<Longrightarrow> firm l \<Longrightarrow> manifest_line l = l"
proof -
  assume l: "rune (CHR ''#'') \<notin> set l" "firm l"
  have "takeWhile (\<lambda>ch. ch \<noteq> rune (CHR ''#'')) l = l" using l(1) by (intro takeWhile_eq_all_conv[THEN iffD2]) auto
  then show ?thesis using l(2) unfolding manifest_line_def strip_comment_def by (simp only: trim_runes_firm)
qed

lemma cut_assignment_text:
  assumes "plain_key key" "firm v"
  shows "cut_assignment (assignment_text key v) = Some (runes key, v)"
proof -
  have none: "61 \<notin> set (runes key @ [32])" using assms(1) by (auto simp: plain_key_def list_all_iff)
  have "takeWhile (\<lambda>ch. ch \<noteq> 61) ((runes key @ [32]) @ 61 # 32 # v) = runes key @ [32]"
    using none by (subst takeWhile_append2) (auto simp: list_all_iff)
  then have key: "takeWhile (\<lambda>ch. ch \<noteq> rune (CHR ''='')) (assignment_text key v) = runes key @ [32]"
    by (simp add: assignment_text_def)
  have "drop (Suc (length (runes key @ [32]))) (assignment_text key v) = 32 # v" by (simp add: assignment_text_def)
  then show ?thesis
    using assms key trim_runes_after[of "runes key"] trim_runes_before[of v]
    by (simp add: cut_assignment_def Let_def plain_key_def) (simp add: assignment_text_def)
qed

lemma parse_turn_assignment:
  assumes "plain_key key" "firm v" "rune (CHR ''#'') \<notin> set v" "\<not> starts_multiline_array v"
  shows "parse_turn m sec (assignment_text key v) ls here =
    bind_res (assign_manifest_value m sec (runes key) v here) (\<lambda>m'. Inr (m', sec, ls, here))"
proof -
  have key: "runes key \<noteq> []" "hd (runes key) \<noteq> 91" "\<not> is_space_rune (hd (runes key))" "35 \<notin> set (runes key)"
    using assms(1) by (auto simp: plain_key_def firm_def list_all_iff)
  have v: "v \<noteq> []" "\<not> is_space_rune (last v)" using assms(2) by (auto simp: firm_def)
  have "firm (assignment_text key v)" using key v by (simp add: firm_def assignment_text_def)
  moreover have "rune (CHR ''#'') \<notin> set (assignment_text key v)" using key assms(3) by (simp add: assignment_text_def)
  ultimately have line: "manifest_line (assignment_text key v) = assignment_text key v" by (simp add: manifest_line_plain)
  have "\<not> has_prefix (assignment_text key v) (CHR ''['')" "assignment_text key v \<noteq> []"
    using key by (simp_all add: has_prefix_def assignment_text_def)
  then show ?thesis
    using cut_assignment_text[OF assms(1,2)] assms(4) key(1) v(1)
    by (simp add: parse_turn_def Let_def line parse_assignment_def)
qed

lemma parse_turn_section:
  assumes "firm (runes sec)" "35 \<notin> set (runes sec)" "parse_section (runes ''['' @ runes sec @ runes '']'') here = Inr (runes sec)"
  shows "parse_turn m sec' (runes ''['' @ runes sec @ runes '']'') ls here = Inr (m, runes sec, ls, here)"
proof -
  let ?l = "runes ''['' @ runes sec @ runes '']''"
  have "manifest_line ?l = ?l" using assms(2) by (intro manifest_line_plain) (simp_all add: firm_def is_space_rune_def)
  then show ?thesis using assms(3) by (simp add: parse_turn_def Let_def has_prefix_def)
qed

lemma set_join: "set (join sep xs) \<subseteq> set sep \<union> (\<Union>x\<in>set xs. set x)"
  by (induction sep xs rule: join.induct) auto

lemma array_text_plain:
  assumes "list_all item_text xs"
  shows "firm (array_text xs)" "35 \<notin> set (array_text xs)" "10 \<notin> set (array_text xs)" "\<not> starts_multiline_array (array_text xs)"
proof -
  have "35 \<notin> set (join (runes '', '') (map quoted xs)) \<and> 10 \<notin> set (join (runes '', '') (map quoted xs))"
    using subsetD[OF set_join, of _ "runes '', ''" "map quoted xs"] assms
    by (fastforce simp: list_all_iff item_text_def line_text_def quoted_def)
  then show "35 \<notin> set (array_text xs)" "10 \<notin> set (array_text xs)" by (simp_all add: array_text_def)
  show "firm (array_text xs)" by (simp add: firm_def array_text_def is_space_rune_def)
  show "\<not> starts_multiline_array (array_text xs)" by (simp add: starts_multiline_array_def has_suffix_def array_text_def)
qed

lemma quoted_plain:
  assumes "line_text s"
  shows "35 \<notin> set (quoted s)" "10 \<notin> set (quoted s)" "\<not> starts_multiline_array (quoted s)"
  using assms by (simp_all add: line_text_def quoted_def starts_multiline_array_def has_prefix_def)

lemma known_keys: "plain_key ''name''" "plain_key ''version''" "plain_key ''paths''" "plain_key ''library_search''"
  "plain_key ''framework_search''"
  by (simp_all add: plain_key_def firm_def is_space_rune_def)

text \<open>A section of search paths sets those of its section.\<close>

definition search_section :: "string \<Rightarrow> bool" where
  "search_section sec \<longleftrightarrow> sec \<in> set [''native'', ''native.darwin'', ''native.linux'', ''native.windows'']"

lemma search_section_header:
  assumes "search_section sec"
  shows "parse_turn m sec' (runes ''['' @ runes sec @ runes '']'') ls here = Inr (m, runes sec, ls, here)"
proof (rule parse_turn_section)
  show "firm (runes sec)" "35 \<notin> set (runes sec)"
    using assms by (auto simp: search_section_def firm_def is_space_rune_def)
  show "parse_section (runes ''['' @ runes sec @ runes '']'') here = Inr (runes sec)"
    using assms unfolding search_section_def
    by (auto simp: parse_section_def has_suffix_def trim_prefix_def trim_suffix_def suffix_def trim_runes_def
        is_space_rune_def native_os_def Let_def)
qed

lemma assign_search:
  assumes "search_section sec" "list_all item_text xs"
  shows "assign_manifest_value m (runes sec) (runes ''library_search'') (array_text xs) no
      = Inr (set_native_paths m (runes sec) ((native_search_paths m (runes sec))\<lparr>sp_libraries := xs\<rparr>))"
    and "assign_manifest_value m (runes sec) (runes ''framework_search'') (array_text xs) no
      = Inr (set_native_paths m (runes sec) ((native_search_paths m (runes sec))\<lparr>sp_frameworks := xs\<rparr>))"
  using assms(1) parse_string_list_array[OF assms(2)] unfolding search_section_def
  by (auto simp: assign_manifest_value_def assign_native_value_def Let_def)

lemma native_paths_set [simp]:
  "native_search_paths (set_native_paths m sec p) sec = p"
  "set_native_paths (set_native_paths m sec p) sec q = set_native_paths m sec q"
  by (simp_all add: native_search_paths_def set_native_paths_def)

lemma parse_lines_search:
  assumes "search_section sec" "paths_text p"
  shows "parse_lines m sec' (search_lines sec p @ ls) no = parse_lines (set_native_paths m (runes sec) p) (runes sec) ls (Suc (Suc (Suc no)))"
proof -
  have items: "list_all item_text (sp_libraries p)" "list_all item_text (sp_frameworks p)"
    using assms(2) by (simp_all add: paths_text_def)
  have eta: "q\<lparr>sp_libraries := sp_libraries p, sp_frameworks := sp_frameworks p\<rparr> = p" for q :: search_paths by simp
  show ?thesis
    using search_section_header[OF assms(1)] array_text_plain[OF items(1)] array_text_plain[OF items(2)] known_keys
      assign_search[OF assms(1) items(1)] assign_search[OF assms(1) items(2)]
    by (simp add: search_lines_def parse_turn_assignment eta)
qed

definition set_os_paths :: "manifest \<Rightarrow> manifest \<Rightarrow> string \<Rightarrow> manifest" where
  "set_os_paths m acc os = (case mf_native_by_os m (runes os) of
     None \<Rightarrow> acc | Some p \<Rightarrow> acc\<lparr>mf_native_by_os := (mf_native_by_os acc)(runes os \<mapsto> p)\<rparr>)"

lemma parse_lines_os:
  assumes "list_all (\<lambda>os. os \<in> set native_os) oss"
    and "list_all (\<lambda>os. case mf_native_by_os m (runes os) of None \<Rightarrow> True | Some p \<Rightarrow> paths_text p) oss"
  shows "parse_lines acc sec (concat (map (\<lambda>os. case mf_native_by_os m (runes os) of
      None \<Rightarrow> [] | Some p \<Rightarrow> search_lines (''native.'' @ os) p) oss)) no = Inr (foldl (set_os_paths m) acc oss)"
  using assms
proof (induction oss arbitrary: acc sec no)
  case (Cons os oss)
  show ?case
  proof (cases "mf_native_by_os m (runes os)")
    case None
    then show ?thesis using Cons by (simp add: set_os_paths_def)
  next
    case (Some p)
    have sec: "search_section (''native.'' @ os)" using Cons.prems(1) by (auto simp: search_section_def native_os_def)
    have "set_native_paths acc (runes (''native.'' @ os)) p = set_os_paths m acc os"
      using Some by (simp add: set_native_paths_def set_os_paths_def trim_prefix_def)
    then show ?thesis using parse_lines_search[OF sec, of p] Some Cons by simp
  qed
qed simp

lemma no_newline_texts:
  "line_text s \<Longrightarrow> plain_key key \<Longrightarrow> 10 \<notin> set (assignment_text key (quoted s))"
  "list_all item_text xs \<Longrightarrow> plain_key key \<Longrightarrow> 10 \<notin> set (assignment_text key (array_text xs))"
  using array_text_plain[of xs] by (auto simp: assignment_text_def quoted_def line_text_def plain_key_def list_all_iff)

lemma search_lines_no_newline:
  "paths_text p \<Longrightarrow> 10 \<notin> set (runes sec) \<Longrightarrow> list_all (\<lambda>l. 10 \<notin> set l) (search_lines sec p)"
  using no_newline_texts(2) known_keys by (simp add: search_lines_def paths_text_def)

lemma manifest_lines_no_newline:
  assumes "writable m"
  shows "list_all (\<lambda>l. 10 \<notin> set l) (manifest_lines m)"
proof -
  note w = assms[unfolded writable_def]
  have os: "list_all (\<lambda>l. 10 \<notin> set l) (case mf_native_by_os m (runes os) of None \<Rightarrow> [] | Some p \<Rightarrow> search_lines (''native.'' @ os) p)"
    if "os \<in> set native_os" for os
    using that w search_lines_no_newline[of _ "''native.'' @ os"] by (auto simp: list_all_iff native_os_def split: option.splits)
  then have "list_all (\<lambda>l. 10 \<notin> set l) (concat (map (\<lambda>os. case mf_native_by_os m (runes os) of
      None \<Rightarrow> [] | Some p \<Rightarrow> search_lines (''native.'' @ os) p) native_os))"
    by (auto simp: list_all_iff)
  then show ?thesis
    using w no_newline_texts known_keys search_lines_no_newline[of "mf_native m" "''native''"]
    by (simp add: manifest_lines_def)
qed

lemma foldl_set_os_paths:
  "foldl (set_os_paths m) acc oss = acc\<lparr>mf_native_by_os := (\<lambda>os.
     if os \<in> set (map runes oss) \<and> mf_native_by_os m os \<noteq> None then mf_native_by_os m os else mf_native_by_os acc os)\<rparr>"
proof (induction oss arbitrary: acc)
  case (Cons os oss)
  have "mf_native_by_os (set_os_paths m acc os) n =
      (if n = runes os \<and> mf_native_by_os m n \<noteq> None then mf_native_by_os m n else mf_native_by_os acc n)" for n
    by (auto simp: set_os_paths_def split: option.splits)
  moreover have "(set_os_paths m acc os)\<lparr>mf_native_by_os := f\<rparr> = acc\<lparr>mf_native_by_os := f\<rparr>" for f
    by (simp add: set_os_paths_def split: option.splits)
  ultimately show ?case using Cons.IH[of "set_os_paths m acc os"] by (auto simp: fun_eq_iff intro!: arg_cong[where f = "\<lambda>f. acc\<lparr>mf_native_by_os := f\<rparr>"])
qed simp

lemma parse_lines_head:
  assumes "writable m"
  shows "parse_lines empty_manifest []
      ([runes ''[package]'', assignment_text ''name'' (quoted (mf_name m)), assignment_text ''version'' (quoted (mf_version m)),
        runes ''[modules]'', assignment_text ''paths'' (array_text (mf_paths m))] @ ls) 0
    = parse_lines \<lparr>mf_name = mf_name m, mf_version = mf_version m, mf_paths = mf_paths m, mf_native = no_paths,
        mf_native_by_os = Map.empty\<rparr> (runes ''modules'') ls (Suc (Suc (Suc (Suc (Suc 0)))))"
proof -
  note w = assms[unfolded writable_def]
  have h: "parse_turn m' sec' (runes ''[package]'') ls' here = Inr (m', runes ''package'', ls', here)"
    "parse_turn m' sec' (runes ''[modules]'') ls' here = Inr (m', runes ''modules'', ls', here)" for m' sec' ls' here
    by (simp_all add: parse_turn_def manifest_line_def strip_comment_def trim_runes_def is_space_rune_def has_prefix_def
        has_suffix_def parse_section_def trim_prefix_def trim_suffix_def suffix_def Let_def)
  have assign: "assign_manifest_value m' (runes ''package'') (runes ''name'') (quoted s) no = Inr (m'\<lparr>mf_name := s\<rparr>)"
    "assign_manifest_value m' (runes ''package'') (runes ''version'') (quoted s) no = Inr (m'\<lparr>mf_version := s\<rparr>)"
    "list_all item_text xs \<Longrightarrow> assign_manifest_value m' (runes ''modules'') (runes ''paths'') (array_text xs) no = Inr (m'\<lparr>mf_paths := xs\<rparr>)"
    for m' s no xs
    by (simp_all add: assign_manifest_value_def Let_def parse_string_list_array)
  note name = parse_turn_assignment[OF known_keys(1) firm_quoted(1), of "mf_name m"]
    parse_turn_assignment[OF known_keys(2) firm_quoted(1), of "mf_version m"]
    parse_turn_assignment[OF known_keys(3) array_text_plain(1), of "mf_paths m"]
  show ?thesis
    using w h assign name quoted_plain[of "mf_name m"] quoted_plain[of "mf_version m"] array_text_plain[of "mf_paths m"]
    by (simp add: empty_manifest_def)
qed

text \<open>
  C39: Reading undoes writing. Any manifest whose texts the file format can hold, written out
  with its package, its module paths and the search paths of \<^verbatim>\<open>[native]\<close> and of every
  \<^verbatim>\<open>[native.<os>]\<close> it has, one assignment to a line, is read back as the very same
  manifest.
\<close>
theorem manifest_roundtrip:
  assumes "writable m" and "dom (mf_native_by_os m) \<subseteq> set (map runes native_os)"
  shows "parse_manifest (join [10] (manifest_lines m)) = Inr m"
proof -
  note w = assms(1)[unfolded writable_def]
  define base where "base = \<lparr>mf_name = mf_name m, mf_version = mf_version m, mf_paths = mf_paths m,
    mf_native = no_paths, mf_native_by_os = Map.empty\<rparr>"
  have "split_on 10 (join [10] (manifest_lines m)) = manifest_lines m"
    using manifest_lines_no_newline[OF assms(1)]
    by (intro split_on_join) (simp_all add: list_all_iff, simp add: manifest_lines_def)
  moreover have "parse_lines empty_manifest [] (manifest_lines m) 0
      = Inr (foldl (set_os_paths m) (base\<lparr>mf_native := mf_native m\<rparr>) native_os)"
  proof -
    have sec: "search_section ''native''" by (simp add: search_section_def)
    have "set_native_paths base (runes ''native'') (mf_native m) = base\<lparr>mf_native := mf_native m\<rparr>"
      by (simp add: set_native_paths_def)
    then show ?thesis
      unfolding manifest_lines_def append_assoc parse_lines_head[OF assms(1)] base_def[symmetric]
      using parse_lines_search[OF sec] parse_lines_os[of native_os m] w by (simp add: list_all_iff)
  qed
  moreover have "foldl (set_os_paths m) (base\<lparr>mf_native := mf_native m\<rparr>) native_os = m"
  proof -
    have none: "mf_native_by_os m os = None" if "os \<notin> set (map runes native_os)" for os
      using assms(2) that by (cases "mf_native_by_os m os") (auto simp: subset_iff)
    have "(\<lambda>os. if os \<in> set (map runes native_os) \<and> mf_native_by_os m os \<noteq> None then mf_native_by_os m os
        else mf_native_by_os (base\<lparr>mf_native := mf_native m\<rparr>) os) = mf_native_by_os m"
      using none by (fastforce simp: fun_eq_iff base_def)
    then show ?thesis unfolding foldl_set_os_paths by (simp only:) (simp add: base_def)
  qed
  ultimately show ?thesis using w by (simp add: parse_manifest_def parse_manifest_text_def validate_manifest_def)
qed

theorem manifest_roundtrip_witness:
  "parse_manifest (join [10] (manifest_lines
      \<lparr>mf_name = runes ''app'', mf_version = runes ''0.1'', mf_paths = [runes ''src'', runes ''lib''],
       mf_native = \<lparr>sp_libraries = [runes ''vendor/lib''], sp_frameworks = []\<rparr>,
       mf_native_by_os = [runes ''linux'' \<mapsto> \<lparr>sp_libraries = [], sp_frameworks = [runes ''fw'']\<rparr>]\<rparr>))
   = Inr \<lparr>mf_name = runes ''app'', mf_version = runes ''0.1'', mf_paths = [runes ''src'', runes ''lib''],
       mf_native = \<lparr>sp_libraries = [runes ''vendor/lib''], sp_frameworks = []\<rparr>,
       mf_native_by_os = [runes ''linux'' \<mapsto> \<lparr>sp_libraries = [], sp_frameworks = [runes ''fw'']\<rparr>]\<rparr>"
  by (rule manifest_roundtrip)
    (simp_all add: writable_def line_text_def item_text_def paths_text_def native_os_def)

end
