(* ===== verification/Reachable.thy ===== *)
theory Reachable
  imports Ir Worklist
begin

text \<open>
  KeepReachableFunctions, KeepTargetReachableFunctions and KeepReferencedErrorSets
  (internal/ir/reachable.go). Both searches are instances of the loop of theory
  Worklist; the fuel is the number of functions, or of error sets and origins, and the
  interpretations below show that this is enough.
\<close>

section \<open>Calls\<close>

definition direct_callee :: "string \<Rightarrow> name option" where
  "direct_callee op =
     (case cut_prefix op ''func.addr.'' of
        Some x \<Rightarrow> Some x
      | None \<Rightarrow>
          if op = ''call.indirect'' then None
          else if \<not> prefix ''call.'' op then None
          else Some (trim_prefix op ''call.''))"

definition callee_list :: "string \<Rightarrow> string \<Rightarrow> name list" where
  "callee_list op abi =
     (case direct_callee op of Some x \<Rightarrow> if abi = [] then [x] else [] | None \<Rightarrow> [])"

definition direct_callees :: "func \<Rightarrow> name list" where
  "direct_callees fn =
     concat (map (\<lambda>i. callee_list (i_op i) (i_extern_abi i) @
       concat (map (\<lambda>cl. callee_list (cl_op cl) (cl_extern_abi cl)) (i_cleanups i)))
     (all_instrs fn))"

text \<open>The map of functions by name; a later function takes an earlier one's place.\<close>

definition functions_of :: "module \<Rightarrow> name \<rightharpoonup> func" where
  "functions_of m = map_of (rev (map (\<lambda>fn. (f_name fn, fn)) (m_functions m)))"

definition is_defined :: "module \<Rightarrow> name \<Rightarrow> bool" where
  "is_defined m x \<longleftrightarrow> functions_of m x \<noteq> None"

definition callees_of :: "module \<Rightarrow> name \<Rightarrow> name list" where
  "callees_of m x = (case functions_of m x of Some fn \<Rightarrow> direct_callees fn | None \<Rightarrow> [])"

definition exported :: "string \<Rightarrow> bool \<Rightarrow> func \<Rightarrow> bool" where
  "exported abi all fn \<longleftrightarrow> f_export_abi fn \<noteq> [] \<and> (all \<or> f_export_abi fn = abi)"

definition seed_names :: "module \<Rightarrow> string \<Rightarrow> bool \<Rightarrow> name list \<Rightarrow> name list" where
  "seed_names m abi all roots = roots @ map f_name (filter (exported abi all) (m_functions m))"

definition seed_reachable_functions ::
  "module \<Rightarrow> string \<Rightarrow> bool \<Rightarrow> name list \<Rightarrow> name list \<times> name list" where
  "seed_reachable_functions m abi all roots =
     push_all (is_defined m) (seed_names m abi all roots) ([], [])"

section \<open>Error sets\<close>

definition is_name_byte :: "char \<Rightarrow> bool" where
  "is_name_byte c \<longleftrightarrow> is_word c \<or> c = CHR '':''"

text \<open>The runs of name bytes of a spelling, as strings.FieldsFunc cuts them.\<close>

function type_names :: "string \<Rightarrow> name list" where
  "type_names s =
     (let r = dropWhile (\<lambda>c. \<not> is_name_byte c) s
      in if r = [] then [] else takeWhile is_name_byte r # type_names (dropWhile is_name_byte r))"
  by pat_completeness auto
termination
proof (relation "measure length", simp)
  fix s r
  assume r: "r = dropWhile (\<lambda>c. \<not> is_name_byte c) s" and ne: "r \<noteq> []"
  then have "is_name_byte (hd r)" using hd_dropWhile[of "\<lambda>c. \<not> is_name_byte c" s] by auto
  then have "length (dropWhile is_name_byte r) < length r"
    using ne length_dropWhile_le[of is_name_byte "tl r"] by (cases r) auto
  also have "\<dots> \<le> length s" using r length_dropWhile_le by blast
  finally show "(dropWhile is_name_byte r, s) \<in> measure length" by simp
qed

declare type_names.simps [simp del]

text \<open>The type spellings a module's functions mention.\<close>

definition noted_types :: "module \<Rightarrow> string list" where
  "noted_types m =
     concat (map (\<lambda>fn. map p_type (f_params fn) @ [f_return fn] @
       concat (map (\<lambda>b.
         concat (map (\<lambda>i. v_type (i_result i) # map v_type (i_args i) @ [i_immediate i]) (b_instrs b)) @
         [v_type (t_value (b_term b))]) (f_blocks fn)))
     (m_functions m))"

definition error_set_of :: "module \<Rightarrow> name \<rightharpoonup> enum_decl" where
  "error_set_of m = map_of (m_error_sets m)"

definition noted_sets :: "module \<Rightarrow> name list" where
  "noted_sets m =
     filter (\<lambda>x. error_set_of m x \<noteq> None) (concat (map type_names (noted_types m)))"

definition origins_of :: "module \<Rightarrow> name \<Rightarrow> name list" where
  "origins_of m x = (case error_set_of m x of Some e \<Rightarrow> en_origins e | None \<Rightarrow> [])"

definition error_set_bound :: "module \<Rightarrow> nat" where
  "error_set_bound m = length (m_error_sets m) + (\<Sum>e\<leftarrow>m_error_sets m. length (en_origins (snd e)))"

definition keep_referenced_error_sets :: "module \<Rightarrow> module" where
  "keep_referenced_error_sets m =
     (case drain (error_set_bound m) (\<lambda>_. True) (origins_of m)
         (push_all (\<lambda>_. True) (noted_sets m) ([], [])) of
        None \<Rightarrow> m
      | Some referenced \<Rightarrow> m\<lparr>m_error_sets := filter (\<lambda>e. fst e \<in> set referenced) (m_error_sets m)\<rparr>)"

section \<open>Keeping what is reached\<close>

definition keep_reachable :: "module \<Rightarrow> string \<Rightarrow> bool \<Rightarrow> name list \<Rightarrow> module" where
  "keep_reachable m abi all roots =
     (let st = seed_reachable_functions m abi all roots
      in if snd st = [] then m
         else (case drain (length (m_functions m)) (is_defined m) (callees_of m) st of
                 None \<Rightarrow> m
               | Some reached \<Rightarrow> keep_referenced_error_sets
                   (m\<lparr>m_functions := filter (\<lambda>fn. f_name fn \<in> set reached) (m_functions m)\<rparr>)))"

definition keep_reachable_functions :: "module \<Rightarrow> name list \<Rightarrow> module" where
  "keep_reachable_functions m roots = keep_reachable m [] True roots"

definition keep_target_reachable_functions :: "module \<Rightarrow> string \<Rightarrow> name list \<Rightarrow> module" where
  "keep_target_reachable_functions m abi roots = keep_reachable m abi False roots"

section \<open>The searches\<close>

lemma is_defined_iff: "is_defined m x \<longleftrightarrow> x \<in> f_name ` set (m_functions m)"
  by (force simp: is_defined_def functions_of_def map_of_eq_None_iff)

interpretation calls: worklist "is_defined m" "callees_of m" "f_name ` set (m_functions m)" for m
  by unfold_locales (auto simp: is_defined_iff)

definition set_universe :: "module \<Rightarrow> name set" where
  "set_universe m = fst ` set (m_error_sets m) \<union> (\<Union>e\<in>set (m_error_sets m). set (en_origins (snd e)))"

interpretation origins: worklist "\<lambda>_. True" "origins_of m" "set_universe m" for m
proof
  show "finite (set_universe m)" by (simp add: set_universe_def)
  show "y \<in> set_universe m" if "y \<in> set (origins_of m x)" for x y
  proof -
    from that obtain e where "map_of (m_error_sets m) x = Some e" "y \<in> set (en_origins e)"
      by (cases "map_of (m_error_sets m) x") (auto simp: origins_of_def error_set_of_def)
    with map_of_SomeD[OF this(1)] show ?thesis by (force simp: set_universe_def)
  qed
qed

lemma set_universe_bound: "card (set_universe m) \<le> error_set_bound m"
proof -
  have "card (\<Union>e\<in>set es. set (en_origins (snd e))) \<le> (\<Sum>e\<leftarrow>es. length (en_origins (snd e)))"
    for es :: "(name \<times> enum_decl) list"
  proof (induction es)
    case (Cons e es)
    have "card (set (en_origins (snd e)) \<union> (\<Union>e\<in>set es. set (en_origins (snd e)))) \<le>
        card (set (en_origins (snd e))) + card (\<Union>e\<in>set es. set (en_origins (snd e)))"
      by (rule card_Un_le)
    also have "card (set (en_origins (snd e))) \<le> length (en_origins (snd e))" by (rule card_length)
    finally show ?case using Cons by simp
  qed simp
  moreover have "card (fst ` set (m_error_sets m)) \<le> length (m_error_sets m)"
    by (metis card_length length_map list.set_map)
  ultimately show ?thesis
    unfolding set_universe_def error_set_bound_def by (meson add_mono card_Un_le order.trans)
qed

lemma function_search:
  "\<exists>reached. drain (length (m_functions m)) (is_defined m) (callees_of m)
      (seed_reachable_functions m abi all roots) = Some reached \<and>
    set reached = {x. closure (is_defined m) (callees_of m) (seed_names m abi all roots) x}"
proof -
  have "card (f_name ` set (m_functions m)) \<le> length (m_functions m)"
    by (metis card_length length_map list.set_map)
  with calls.search_exact[of "seed_names m abi all roots" m "length (m_functions m)"]
  show ?thesis by (auto simp: seed_reachable_functions_def is_defined_iff)
qed

lemma error_set_search:
  "\<exists>referenced. drain (error_set_bound m) (\<lambda>_. True) (origins_of m)
      (push_all (\<lambda>_. True) (noted_sets m) ([], [])) = Some referenced \<and>
    set referenced = {x. closure (\<lambda>_. True) (origins_of m) (noted_sets m) x}"
proof -
  have "{x \<in> set (noted_sets m). True} \<subseteq> set_universe m"
    by (force simp: noted_sets_def error_set_of_def set_universe_def dest: map_of_SomeD)
  from origins.search_exact[OF this set_universe_bound] show ?thesis by blast
qed

section \<open>What is kept\<close>

text \<open>
  The error sets kept are exactly those a type of a kept function names, and those
  their members come from, in any number of steps.
\<close>

theorem error_sets_exact:
  "m_error_sets (keep_referenced_error_sets m) =
     filter (\<lambda>e. closure (\<lambda>_. True) (origins_of m) (noted_sets m) (fst e)) (m_error_sets m)"
  using error_set_search[of m] by (auto simp: keep_referenced_error_sets_def intro!: filter_cong)

lemma keep_error_sets_functions [simp]: "m_functions (keep_referenced_error_sets m) = m_functions m"
  by (simp add: keep_referenced_error_sets_def split: option.splits)

lemma seeds_empty:
  "snd (seed_reachable_functions m abi all roots) = [] \<longleftrightarrow> (\<forall>x\<in>set (seed_names m abi all roots). \<not> is_defined m x)"
proof -
  obtain seen queue where p: "push_all (is_defined m) (seed_names m abi all roots) ([], []) = (seen, queue)"
    by (cases "push_all (is_defined m) (seed_names m abi all roots) ([], [])")
  from push_all_result[OF p] have "queue = seen"
    and "set seen = {x \<in> set (seed_names m abi all roots). is_defined m x}" by auto
  then have "queue = [] \<longleftrightarrow> {x \<in> set (seed_names m abi all roots). is_defined m x} = {}" by (metis set_empty)
  then show ?thesis by (auto simp: seed_reachable_functions_def p)
qed

lemma reachable_kept:
  "(if \<forall>x\<in>set (seed_names m abi all roots). \<not> is_defined m x then keep_reachable m abi all roots = m
    else m_functions (keep_reachable m abi all roots) =
      filter (\<lambda>fn. closure (is_defined m) (callees_of m) (seed_names m abi all roots) (f_name fn)) (m_functions m))"
proof (cases "\<forall>x\<in>set (seed_names m abi all roots). \<not> is_defined m x")
  case True
  then show ?thesis by (simp add: keep_reachable_def Let_def seeds_empty)
next
  case False
  obtain reached where "drain (length (m_functions m)) (is_defined m) (callees_of m)
      (seed_reachable_functions m abi all roots) = Some reached"
    "set reached = {x. closure (is_defined m) (callees_of m) (seed_names m abi all roots) x}"
    using function_search by blast
  with False show ?thesis by (auto simp: keep_reachable_def Let_def seeds_empty)
qed

text \<open>
  C15: from at least one root or export that is defined, the functions kept are exactly
  those reached from the roots and the matching exports by calls and taken addresses, in
  their order; with none, the module is returned as it is.
\<close>

theorem reachable_exact:
  "if list_ex (is_defined m) (seed_names m abi all roots)
   then m_functions (keep_reachable m abi all roots) =
     filter (\<lambda>fn. closure (is_defined m) (callees_of m) (seed_names m abi all roots) (f_name fn)) (m_functions m)
   else keep_reachable m abi all roots = m"
  using reachable_kept[of m abi all roots] by (auto simp: list_ex_iff split: if_splits)

lemma functions_of_mem: "functions_of m x = Some fn \<Longrightarrow> fn \<in> set (m_functions m) \<and> f_name fn = x"
  by (auto simp: functions_of_def dest!: map_of_SomeD)

text \<open>
  C30: no call is left dangling: with distinct function names and at least one defined
  root, whatever a kept function calls or takes the address of is kept when the
  module defined it.
\<close>

theorem no_dangling_calls:
  assumes "distinct (map f_name (m_functions m))" and "x \<in> set (seed_names m abi all roots)" and "is_defined m x"
    and "fn \<in> set (m_functions (keep_reachable m abi all roots))" and "callee \<in> set (direct_callees fn)"
    and "is_defined m callee"
  shows "is_defined (keep_reachable m abi all roots) callee"
proof -
  let ?cl = "closure (is_defined m) (callees_of m) (seed_names m abi all roots)"
  have kept: "m_functions (keep_reachable m abi all roots) = filter (\<lambda>fn. ?cl (f_name fn)) (m_functions m)"
    using reachable_kept[of m abi all roots] assms(2,3) by metis
  with assms(4) have fn: "fn \<in> set (m_functions m)" "?cl (f_name fn)" by auto
  have "functions_of m (f_name fn) = Some fn"
  proof -
    have "distinct (map fst (rev (map (\<lambda>fn. (f_name fn, fn)) (m_functions m))))"
      using assms(1) by (simp add: rev_map[symmetric] comp_def)
    with fn(1) show ?thesis by (auto simp: functions_of_def intro!: map_of_is_SomeI)
  qed
  with assms(5) have "callee \<in> set (callees_of m (f_name fn))" by (simp add: callees_of_def)
  from closure.step[OF fn(2) this assms(6)] have reached: "?cl callee" .
  obtain g where "g \<in> set (m_functions m)" "f_name g = callee" using assms(6) unfolding is_defined_iff by blast
  with reached kept have "g \<in> set (m_functions (keep_reachable m abi all roots))" by simp
  with \<open>f_name g = callee\<close> show ?thesis unfolding is_defined_iff by blast
qed

text \<open>Three functions: \<^verbatim>\<open>main\<close> calls \<^verbatim>\<open>f\<close> in a cleanup, and nothing reaches \<^verbatim>\<open>g\<close>.\<close>

definition call_example :: module where
  "call_example =
     (let body = (\<lambda>x is. \<lparr>f_name = x, f_params = [], f_return = ''void'',
            f_blocks = [\<lparr>b_name = ''entry'', b_instrs = is, b_term = new_term ''return''\<rparr>],
            f_export_abi = [], f_export_name = []\<rparr>);
          cleanup = \<lparr>cl_op = ''call.f'', cl_args = [], cl_loads = [], cl_extern_abi = [], cl_extern_name = [],
            cl_call_params = [], cl_variadic_fixed = 0, cl_on_error = False, cl_receiver = 0\<rparr>
      in \<lparr>m_structs = Map.empty, m_enums = Map.empty, m_error_sets = [], m_unions = Map.empty,
          m_functions = [body ''g'' [], body ''f'' [],
            body ''main'' [(new_instr no_value ''error.try'')\<lparr>i_cleanups := [cleanup]\<rparr>]],
          m_externs = Map.empty\<rparr>)"

theorem no_dangling_calls_witness:
  "map f_name (m_functions (keep_reachable call_example [] True [''main''])) = [''f'', ''main''] \<and>
   is_defined (keep_reachable call_example [] True [''main'']) ''f''"
proof
  show kept: "map f_name (m_functions (keep_reachable call_example [] True [''main''])) = [''f'', ''main'']"
    by code_simp
  let ?fn = "m_functions call_example ! 2"
  have "?fn \<in> set (m_functions (keep_reachable call_example [] True [''main'']))" by code_simp
  moreover have "distinct (map f_name (m_functions call_example))" "''main'' \<in> set (seed_names call_example [] True [''main''])"
    "is_defined call_example ''main''" "''f'' \<in> set (direct_callees ?fn)" "is_defined call_example ''f''"
    by code_simp+
  ultimately show "is_defined (keep_reachable call_example [] True [''main'']) ''f''"
    by (blast intro: no_dangling_calls)
qed

end
