(* ===== verification/Dominators.thy ===== *)
theory Dominators
  imports Ir_Sim
begin

text \<open>
  The dominator tree of internal/ir/verify.go: reversePostorder, buildDominatorTree, meet
  and dominates. The code's -1 is None. A walk up the tree that would leave the slice, or
  not end, answers None; \<open>settle_total\<close>, \<open>meet_total\<close> and \<open>dom_walk_exact\<close> show that
  none does, so the bounds on the rounds and walks never bind. The depth-first
  search recurses at most once for each block, which is its bound.

  \<open>flow_order\<close> is what the iteration relies on: every block but the first has a
  predecessor before it in the order. \<open>postorder\<close> shows that reverse postorder
  is such an order.
\<close>

section \<open>The walk up the tree\<close>

type_synonym idoms = "nat option list"

definition idom_at :: "idoms \<Rightarrow> nat \<Rightarrow> nat option" where
  "idom_at idom p = (if p < length idom then idom ! p else None)"

primrec meet_walk :: "nat \<Rightarrow> idoms \<Rightarrow> nat \<Rightarrow> nat \<Rightarrow> nat option" where
  "meet_walk 0 idom l r = (if l = r then Some l else None)"
| "meet_walk (Suc fuel) idom l r =
     (if l = r then Some l
      else if l > r then Option.bind (idom_at idom l) (\<lambda>l'. meet_walk fuel idom l' r)
      else Option.bind (idom_at idom r) (\<lambda>r'. meet_walk fuel idom l r'))"

definition meet :: "idoms \<Rightarrow> nat \<Rightarrow> nat \<Rightarrow> nat option" where
  "meet idom l r = meet_walk (l + r) idom l r"

primrec dom_walk :: "nat \<Rightarrow> idoms \<Rightarrow> nat \<Rightarrow> nat \<Rightarrow> bool option" where
  "dom_walk 0 idom p target = (if p = target then Some True else None)"
| "dom_walk (Suc fuel) idom p target =
     (if p = target then Some True
      else Option.bind (idom_at idom p) (\<lambda>up. if up = p then Some False else dom_walk fuel idom up target))"

section \<open>The iteration\<close>

text \<open>The meet of the predecessors that have a dominator: none so far, or the meet so far.\<close>

definition meet_pred :: "idoms \<Rightarrow> nat \<Rightarrow> nat option option \<Rightarrow> nat option option" where
  "meet_pred idom p acc =
     Option.bind acc (\<lambda>cur.
       if idom_at idom p = None then Some cur
       else (case cur of None \<Rightarrow> Some (Some p) | Some l \<Rightarrow> map_option Some (meet idom l p)))"

definition meet_preds :: "idoms \<Rightarrow> nat list \<Rightarrow> nat option option" where
  "meet_preds idom ps = fold (meet_pred idom) ps (Some None)"

definition sweep_at :: "(nat \<Rightarrow> nat list) \<Rightarrow> nat \<Rightarrow> idoms \<times> bool \<Rightarrow> (idoms \<times> bool) option" where
  "sweep_at preds p st =
     Option.bind (meet_preds (fst st) (preds p)) (\<lambda>m. case m of
         None \<Rightarrow> Some st
       | Some q \<Rightarrow> Some (if idom_at (fst st) p \<noteq> Some q then ((fst st)[p := Some q], True) else st))"

primrec sweep :: "(nat \<Rightarrow> nat list) \<Rightarrow> nat list \<Rightarrow> idoms \<times> bool \<Rightarrow> (idoms \<times> bool) option" where
  "sweep preds [] st = Some st"
| "sweep preds (p # ps) st = Option.bind (sweep_at preds p st) (sweep preds ps)"

primrec settle :: "nat \<Rightarrow> (nat \<Rightarrow> nat list) \<Rightarrow> nat \<Rightarrow> idoms \<Rightarrow> idoms option" where
  "settle 0 preds n idom = None"
| "settle (Suc fuel) preds n idom =
     Option.bind (sweep preds [1..<n] (idom, False)) (\<lambda>(idom', changed).
       if changed then settle fuel preds n idom' else Some idom')"

definition first_idoms :: "nat \<Rightarrow> idoms" where
  "first_idoms n = (replicate n None)[0 := Some 0]"

section \<open>Ancestors\<close>

function ancestors :: "idoms \<Rightarrow> nat \<Rightarrow> nat set" where
  "ancestors T p = (case idom_at T p of
     Some q \<Rightarrow> if q < p then insert p (ancestors T q) else {p} | None \<Rightarrow> {p})"
  by pat_completeness auto
termination
  by (relation "measure snd") auto

declare ancestors.simps [simp del]

text \<open>
  The tree the iteration keeps: the entry is its own dominator, the blocks that have one are
  those before some position, and each one's stands before it.
\<close>

definition tree_upto :: "nat \<Rightarrow> idoms \<Rightarrow> bool" where
  "tree_upto s T \<longleftrightarrow> 0 < s \<and> s \<le> length T \<and> idom_at T 0 = Some 0 \<and>
     (\<forall>p. 0 < p \<longrightarrow> p < s \<longrightarrow> (\<exists>q<p. idom_at T p = Some q)) \<and>
     (\<forall>p. s \<le> p \<longrightarrow> idom_at T p = None)"

lemma tree_upto_parent: "tree_upto s T \<Longrightarrow> 0 < p \<Longrightarrow> p < s \<Longrightarrow> \<exists>q<p. idom_at T p = Some q"
  by (auto simp: tree_upto_def)

lemma tree_upto_set: "tree_upto s T \<Longrightarrow> idom_at T p \<noteq> None \<longleftrightarrow> p < s"
  by (cases "p = 0"; cases "p < s") (auto simp: tree_upto_def not_less)

lemma ancestors_self [simp]: "p \<in> ancestors T p"
  by (subst ancestors.simps) (auto split: option.splits)

lemma ancestors_step: "idom_at T p = Some q \<Longrightarrow> q < p \<Longrightarrow> ancestors T p = insert p (ancestors T q)"
  by (subst ancestors.simps) simp

lemma ancestors_entry: "tree_upto s T \<Longrightarrow> ancestors T 0 = {0}"
  by (subst ancestors.simps) (simp add: tree_upto_def)

lemma ancestors_le: "x \<in> ancestors T p \<Longrightarrow> x \<le> p"
proof (induction T p rule: ancestors.induct)
  case (1 T p)
  then show ?case
    by (cases "idom_at T p") (auto simp: ancestors.simps[of T p] split: if_splits)
qed

lemma ancestors_trans: "x \<in> ancestors T y \<Longrightarrow> y \<in> ancestors T p \<Longrightarrow> x \<in> ancestors T p"
proof (induction T p rule: ancestors.induct)
  case (1 T p)
  then show ?case
    by (cases "idom_at T p") (auto simp: ancestors.simps[of T p] split: if_splits)
qed

text \<open>The ancestors of a block are a chain.\<close>

lemma ancestors_chain: "x \<in> ancestors T p \<Longrightarrow> y \<in> ancestors T p \<Longrightarrow> x \<le> y \<Longrightarrow> x \<in> ancestors T y"
proof (induction T p rule: ancestors.induct)
  case (1 T p)
  show ?case
  proof (cases "idom_at T p")
    case None
    with 1 show ?thesis by (simp add: ancestors.simps[of T p])
  next
    case (Some q)
    show ?thesis
    proof (cases "q < p")
      case True
      note step = ancestors_step[OF Some True]
      show ?thesis
      proof (cases "y = p")
        case False
        with 1(3) step have y: "y \<in> ancestors T q" by simp
        then have "y \<le> q" by (rule ancestors_le)
        with 1(2,4) True step have "x \<in> ancestors T q" by auto
        with 1(1)[OF Some True _ y 1(4)] show ?thesis by simp
      qed (use 1 in simp)
    next
      case False
      with 1(2,3) Some show ?thesis by (simp add: ancestors.simps[of T p])
    qed
  qed
qed

lemma ancestors_set: "tree_upto s T \<Longrightarrow> p < s \<Longrightarrow> x \<in> ancestors T p \<Longrightarrow> x < s"
  using ancestors_le by fastforce

lemma meet_walk_total:
  assumes "tree_upto s T"
  shows "l < s \<Longrightarrow> r < s \<Longrightarrow> l + r \<le> fuel \<Longrightarrow>
    \<exists>m. meet_walk fuel T l r = Some m \<and> m < s \<and> ancestors T m = ancestors T l \<inter> ancestors T r"
proof (induction fuel arbitrary: l r)
  case (Suc fuel)
  have climb: "\<exists>m. meet_walk fuel T l' r' = Some m \<and> m < s \<and> ancestors T m = ancestors T a \<inter> ancestors T b"
    if "b < a" "a < s" "b < s" "idom_at T a = Some p" "p < a" "l' + r' \<le> fuel" "{l', r'} = {p, b}" for a b p l' r'
  proof -
    have "a \<notin> ancestors T b" using that(1) ancestors_le by fastforce
    then have "ancestors T p \<inter> ancestors T b = ancestors T a \<inter> ancestors T b"
      using ancestors_step[OF that(4,5)] by auto
    moreover have "l' < s" "r' < s" "ancestors T l' \<inter> ancestors T r' = ancestors T p \<inter> ancestors T b"
      using that by (auto simp: doubleton_eq_iff)
    ultimately show ?thesis using Suc.IH[of l' r'] that(6) by simp
  qed
  consider "l = r" | "r < l" | "l < r" by linarith
  then show ?case
  proof cases
    case 2
    then obtain q where "q < l" "idom_at T l = Some q" using tree_upto_parent[OF assms, of l] Suc.prems by auto
    then show ?thesis using climb[of r l q q r] 2 Suc.prems by simp
  next
    case 3
    then obtain q where "q < r" "idom_at T r = Some q" using tree_upto_parent[OF assms, of r] Suc.prems by auto
    then show ?thesis using climb[of l r q l q] 3 Suc.prems by (simp add: insert_commute Int_commute)
  qed (use Suc.prems in simp)
qed simp

lemma meet_total:
  assumes "tree_upto s T" "l < s" "r < s"
  shows "\<exists>m. meet T l r = Some m \<and> m < s \<and> ancestors T m = ancestors T l \<inter> ancestors T r"
  using meet_walk_total[OF assms] by (simp add: meet_def)

lemma dom_walk_exact:
  assumes "tree_upto s T"
  shows "p < s \<Longrightarrow> p < fuel \<Longrightarrow> dom_walk fuel T p target = Some (target \<in> ancestors T p)"
proof (induction fuel arbitrary: p)
  case (Suc fuel)
  show ?case
  proof (cases "p = 0")
    case True
    then show ?thesis using assms ancestors_entry[OF assms] by (auto simp: tree_upto_def)
  next
    case False
    with tree_upto_parent[OF assms, of p] Suc.prems obtain q where q: "q < p" "idom_at T p = Some q" by auto
    then show ?thesis using Suc.IH[of q] Suc.prems ancestors_step[OF q(2,1)] by auto
  qed
qed simp

section \<open>One update\<close>

lemma idom_at_update: "p < length T \<Longrightarrow> idom_at (T[p := v]) x = (if x = p then v else idom_at T x)"
  by (auto simp: idom_at_def)

text \<open>Moving a block up moves the blocks below it with it.\<close>

lemma ancestors_update:
  assumes "p < length T" "m < p"
  shows "ancestors (T[p := Some m]) x =
    (if p \<in> ancestors T x then (ancestors T x - ancestors T p) \<union> insert p (ancestors T m) else ancestors T x)"
proof (induction x rule: less_induct)
  case (less x)
  let ?T = "T[p := Some m]"
  have low: "ancestors ?T y = ancestors T y" if "y < p" for y
    using that
  proof (induction y rule: less_induct)
    case (less y)
    then show ?case using assms(1)
      by (subst (1 2) ancestors.simps) (auto simp: idom_at_update split: option.splits)
  qed
  show ?case
  proof (cases "x = p")
    case True
    have "ancestors ?T p = insert p (ancestors ?T m)"
      using assms by (intro ancestors_step) (simp_all add: idom_at_update)
    with True low[OF assms(2)] show ?thesis by simp
  next
    case False
    then have same: "idom_at ?T x = idom_at T x" using assms(1) by (simp add: idom_at_update)
    show ?thesis
    proof (cases "\<exists>q<x. idom_at T x = Some q")
      case True
      then obtain q where q: "q < x" "idom_at T x = Some q" by blast
      have x: "x \<notin> ancestors T p" if "p \<in> ancestors T q"
        using that q(1) ancestors_le[of p T q] ancestors_le[of x T p] by auto
      show ?thesis
        using less[OF q(1)] ancestors_step[OF q(2,1)] ancestors_step[OF q(2)[folded same] q(1)] False x by auto
    next
      case none: False
      then have "ancestors T x = {x}" "ancestors ?T x = {x}"
        using same by (subst ancestors.simps; auto split: option.splits)+
      with False show ?thesis by simp
    qed
  qed
qed

lemma tree_upto_update:
  assumes "tree_upto s T" "0 < p" "p \<le> s" "p < length T" "m < p"
  shows "tree_upto (max s (Suc p)) (T[p := Some m])"
  using assms unfolding tree_upto_def by (auto simp: idom_at_update less_Suc_eq)

section \<open>The order the iteration relies on\<close>

locale flow_order =
  fixes n :: nat and preds :: "nat \<Rightarrow> nat list"
  assumes earlier: "0 < p \<Longrightarrow> p < n \<Longrightarrow> \<exists>q\<in>set (preds p). q < p"
    and within: "p < n \<Longrightarrow> q \<in> set (preds p) \<Longrightarrow> q < n"
begin

text \<open>What the predecessors seen so far have in common.\<close>

definition common :: "nat \<Rightarrow> idoms \<Rightarrow> nat \<Rightarrow> nat set" where
  "common s T p = (\<Inter>q\<in>{q \<in> set (preds p). q < s}. ancestors T q)"

text \<open>
  The state before block \<open>c\<close> of a sweep. What a block's predecessors have in common stands
  above its dominator. The dominator of a block already passed in this sweep stands above an
  earlier predecessor; that of a block still to come does too, unless it has been passed.
\<close>

definition steady :: "nat \<Rightarrow> nat \<Rightarrow> idoms \<Rightarrow> bool" where
  "steady s c T \<longleftrightarrow> tree_upto s T \<and> length T = n \<and> 0 < c \<and> c \<le> s \<and>
     (\<forall>r d. 0 < r \<longrightarrow> idom_at T r = Some d \<longrightarrow>
        common s T r \<subseteq> ancestors T d \<and>
        ((\<exists>q\<in>set (preds r). q < r \<and> d \<in> ancestors T q) \<or> c \<le> r \<and> d < c))"

lemma common_earlier:
  assumes "q \<in> set (preds p)" "q < s"
  shows "common s T p \<subseteq> ancestors T q"
  using assms by (auto simp: common_def)

lemma meet_preds_fold:
  assumes "tree_upto s T" "list_all (\<lambda>q. q < n) qs" "cur = None \<longrightarrow> A = UNIV"
    "\<And>l. cur = Some l \<Longrightarrow> l < s \<and> ancestors T l = A"
  shows "\<exists>m. fold (meet_pred T) qs (Some cur) = Some m \<and>
    (m = None \<longleftrightarrow> cur = None \<and> (\<forall>q\<in>set qs. \<not> q < s)) \<and>
    (\<forall>l. m = Some l \<longrightarrow> l < s \<and> ancestors T l = A \<inter> (\<Inter>q\<in>{q \<in> set qs. q < s}. ancestors T q))"
  using assms(2-4)
proof (induction qs arbitrary: cur A)
  case (Cons q qs)
  show ?case
  proof (cases "q < s")
    case False
    then have "meet_pred T q (Some cur) = Some cur"
      using tree_upto_set[OF assms(1), of q] by (simp add: meet_pred_def)
    moreover have "{x \<in> set (q # qs). x < s} = {x \<in> set qs. x < s}" using False by auto
    ultimately show ?thesis using Cons.IH[of cur A] Cons.prems False by auto
  next
    case True
    then obtain up where set: "idom_at T q = Some up" using tree_upto_set[OF assms(1), of q] by auto
    have "\<exists>l. meet_pred T q (Some cur) = Some (Some l) \<and> l < s \<and> ancestors T l = A \<inter> ancestors T q"
    proof (cases cur)
      case None
      then show ?thesis using set True Cons.prems(2) by (simp add: meet_pred_def)
    next
      case (Some l)
      from Cons.prems(3)[OF Some] have l: "l < s" "ancestors T l = A" by simp_all
      from meet_total[OF assms(1) l(1) True] obtain m where
        "meet T l q = Some m" "m < s" "ancestors T m = A \<inter> ancestors T q" unfolding l(2) by blast
      then show ?thesis using Some set by (intro exI[of _ m]) (simp add: meet_pred_def)
    qed
    then obtain l where l: "meet_pred T q (Some cur) = Some (Some l)" "l < s" "ancestors T l = A \<inter> ancestors T q" by blast
    have "{x \<in> set (q # qs). x < s} = insert q {x \<in> set qs. x < s}" using True by auto
    then show ?thesis using Cons.IH[of "Some l" "A \<inter> ancestors T q"] Cons.prems(1) l True
      by (auto simp: Int_assoc)
  qed
qed auto

lemma meet_preds_common:
  assumes "steady s c T" "0 < p" "p < n" "p \<le> s"
  shows "\<exists>m. meet_preds T (preds p) = Some (Some m) \<and> m < p \<and> m < s \<and> ancestors T m = common s T p"
proof -
  obtain q where q: "q \<in> set (preds p)" "q < p" using earlier assms by blast
  have "list_all (\<lambda>q. q < n) (preds p)" using within[OF assms(3)] by (simp add: list_all_iff)
  with meet_preds_fold[of s T "preds p" None UNIV] assms(1) q assms(4)
  obtain m where m: "meet_preds T (preds p) = Some (Some m)" "m < s" "ancestors T m = common s T p"
    by (fastforce simp: meet_preds_def steady_def common_def)
  moreover have "m \<in> ancestors T q" using common_earlier[of q p s T] q assms(4) m(3) by auto
  ultimately show ?thesis using ancestors_le[of m T q] q(2) by auto
qed

definition weight :: "idoms \<Rightarrow> nat" where
  "weight T = (\<Sum>p<n. case idom_at T p of None \<Rightarrow> n | Some d \<Rightarrow> d)"

lemma weight_update:
  assumes "c < n" "length T = n" "m < (case idom_at T c of None \<Rightarrow> n | Some d \<Rightarrow> d)"
  shows "weight (T[c := Some m]) < weight T"
  unfolding weight_def
proof (rule sum_strict_mono_ex1)
  show "\<forall>p\<in>{..<n}. (case idom_at (T[c := Some m]) p of None \<Rightarrow> n | Some d \<Rightarrow> d) \<le> (case idom_at T p of None \<Rightarrow> n | Some d \<Rightarrow> d)"
    using assms by (auto simp: idom_at_update)
  show "\<exists>p\<in>{..<n}. (case idom_at (T[c := Some m]) p of None \<Rightarrow> n | Some d \<Rightarrow> d) < (case idom_at T p of None \<Rightarrow> n | Some d \<Rightarrow> d)"
    using assms by (intro bexI[of _ c]) (simp_all add: idom_at_update)
qed simp

lemma steady_parent:
  assumes "steady s c T" "0 < r" "idom_at T r = Some d"
  shows "r < s" "d < r" "common s T r \<subseteq> ancestors T d"
    "(\<exists>q\<in>set (preds r). q < r \<and> d \<in> ancestors T q) \<or> c \<le> r \<and> d < c"
proof -
  have t: "tree_upto s T" using assms(1) by (simp add: steady_def)
  show "r < s" using tree_upto_set[OF t, of r] assms(3) by simp
  with tree_upto_parent[OF t assms(2)] assms(3) show "d < r" by auto
  show "common s T r \<subseteq> ancestors T d" "(\<exists>q\<in>set (preds r). q < r \<and> d \<in> ancestors T q) \<or> c \<le> r \<and> d < c"
    using assms unfolding steady_def by blast+
qed

lemma steady_moves_up:
  assumes "steady s c T" "c < n" "m < c" "ancestors T m = common s T c" "idom_at T c \<noteq> Some m"
  shows "m < (case idom_at T c of None \<Rightarrow> n | Some d \<Rightarrow> d)" "x < s \<Longrightarrow> ancestors (T[c := Some m]) x \<subseteq> ancestors T x"
proof -
  have c: "0 < c" "c < length T" using assms(1,2) by (simp_all add: steady_def)
  note up = ancestors_update[OF c(2) assms(3)]
  show "m < (case idom_at T c of None \<Rightarrow> n | Some d \<Rightarrow> d)"
  proof (cases "idom_at T c")
    case (Some d)
    have "m \<in> ancestors T d" using steady_parent(3)[OF assms(1) c(1) Some] assms(4) by auto
    then show ?thesis using ancestors_le[of m T d] assms(5) Some by auto
  qed (use assms in simp)
  show "ancestors (T[c := Some m]) x \<subseteq> ancestors T x" if "x < s"
  proof (cases "c \<in> ancestors T x")
    case True
    then have "c < s" using ancestors_le[of c T x] that by simp
    moreover have "tree_upto s T" using assms(1) by (simp add: steady_def)
    ultimately obtain d where d: "d < c" "idom_at T c = Some d" using tree_upto_parent[of s T c] c(1) by blast
    have "ancestors T m \<subseteq> ancestors T c"
      using steady_parent(3)[OF assms(1) c(1) d(2)] assms(4) ancestors_step[OF d(2,1)] by auto
    then show ?thesis using up[of x] True ancestors_trans[of _ T c x] by auto
  qed (simp add: up)
qed

lemma steady_update:
  assumes st: "steady s c T" and c: "c < n" and m: "m < c" "ancestors T m = common s T c" "idom_at T c \<noteq> Some m"
  shows "steady (max s (Suc c)) (Suc c) (T[c := Some m])"
proof -
  define T' where "T' = T[c := Some m]"
  define s' where "s' = max s (Suc c)"
  have t: "tree_upto s T" "0 < c" "c \<le> s" "c < length T" "length T = n" using st c by (auto simp: steady_def)
  note up = ancestors_update[OF t(4) m(1), folded T'_def]
  have below: "ancestors T' x = ancestors T x" if "x < c" for x
    using up[of x] ancestors_le[of c T x] that by auto
  have shrink: "common s' T' r \<subseteq> common s T r" for r
    using steady_moves_up(2)[OF st c m] unfolding common_def T'_def s'_def by fastforce
  have "common s' T' r \<subseteq> ancestors T' e \<and> ((\<exists>q\<in>set (preds r). q < r \<and> e \<in> ancestors T' q) \<or> Suc c \<le> r \<and> e < Suc c)"
    if r: "0 < r" "idom_at T' r = Some e" for r e
  proof (cases "r = c")
    case True
    then have e: "e = m" using r(2) t(4) by (simp add: T'_def idom_at_update)
    obtain q where q: "q \<in> set (preds c)" "q < c" using earlier[OF t(2) c] by blast
    have "m \<in> ancestors T q" using common_earlier[OF q(1), of s T] q(2) t(3) m(2) by auto
    then show ?thesis using True e q below[OF q(2)] below[OF m(1)] shrink[of c] m(2) by auto
  next
    case False
    then have e: "idom_at T r = Some e" using r(2) t(4) by (simp add: T'_def idom_at_update)
    note p = steady_parent[OF st r(1) e]
    have "common s' T' r \<subseteq> ancestors T' e"
    proof (cases "c \<in> ancestors T e")
      case True
      then have "c \<le> e" by (rule ancestors_le)
      with p obtain q where q: "q \<in> set (preds r)" "q < r" "e \<in> ancestors T q" by auto
      have "c \<in> ancestors T q" using True q(3) by (rule ancestors_trans)
      then have "e \<in> ancestors T' q" using up[of q] q(3) ancestors_le[of e T c] \<open>c \<le> e\<close> by auto
      moreover have "common s' T' r \<subseteq> ancestors T' q" using q p(1) by (intro common_earlier) (auto simp: s'_def)
      moreover have "x \<le> e" if "x \<in> common s' T' r" for x using that shrink[of r] p(3) ancestors_le[of x T e] by auto
      ultimately show ?thesis using ancestors_chain[of _ T' q e] by auto
    next
      case False
      then show ?thesis using up[of e] shrink[of r] p(3) by auto
    qed
    moreover have "(\<exists>q\<in>set (preds r). q < r \<and> e \<in> ancestors T' q) \<or> Suc c \<le> r \<and> e < Suc c"
      using p(4)
    proof
      assume "\<exists>q\<in>set (preds r). q < r \<and> e \<in> ancestors T q"
      then obtain q where q: "q \<in> set (preds r)" "q < r" "e \<in> ancestors T q" by blast
      show ?thesis
      proof (cases "e \<in> ancestors T' q")
        case False
        then have "c \<in> ancestors T q" "e \<in> ancestors T c" using up[of q] q(3) by (auto split: if_splits)
        then show ?thesis using ancestors_le[of c T q] ancestors_le[of e T c] q(2) by auto
      qed (use q in blast)
    qed (use False in auto)
    ultimately show ?thesis by blast
  qed
  moreover have "tree_upto s' T'" unfolding s'_def T'_def by (rule tree_upto_update[OF t(1-4) m(1)])
  ultimately show ?thesis using t unfolding steady_def T'_def[symmetric] s'_def[symmetric] by (auto simp: T'_def s'_def)
qed

lemma sweep_at_steady:
  assumes st: "steady s c T" and c: "c < n"
  shows "\<exists>T' changed'. sweep_at preds c (T, changed) = Some (T', changed') \<and> steady (max s (Suc c)) (Suc c) T' \<and>
    (changed' \<and> weight T' < weight T \<or>
     changed' = changed \<and> T' = T \<and> (\<exists>d. idom_at T c = Some d \<and> ancestors T d = common s T c))"
proof -
  have t: "tree_upto s T" "0 < c" "c \<le> s" "length T = n" using st c by (auto simp: steady_def)
  from meet_preds_common[OF st t(2) c t(3)] obtain m where
    m: "meet_preds T (preds c) = Some (Some m)" "m < c" "ancestors T m = common s T c" by blast
  show ?thesis
  proof (cases "idom_at T c = Some m")
    case True
    then have "c < s" using tree_upto_set[OF t(1), of c] by simp
    have "steady s (Suc c) T" unfolding steady_def
    proof (intro conjI allI impI)
      fix r d assume r: "0 < r" "idom_at T r = Some d"
      note p = steady_parent[OF st r]
      show "common s T r \<subseteq> ancestors T d" by (rule p(3))
      show "(\<exists>q\<in>set (preds r). q < r \<and> d \<in> ancestors T q) \<or> Suc c \<le> r \<and> d < Suc c"
      proof (cases "r = c")
        case eq: True
        obtain q where q: "q \<in> set (preds c)" "q < c" using earlier[OF t(2) c] by blast
        then have "m \<in> ancestors T q" using common_earlier[OF q(1), of s T] t(3) m(3) by auto
        with q eq r(2) True show ?thesis by auto
      qed (use p(4) in auto)
    qed (use t \<open>c < s\<close> in auto)
    moreover have "max s (Suc c) = s" using \<open>c < s\<close> by simp
    ultimately show ?thesis using True m by (simp add: sweep_at_def)
  next
    case False
    have "weight (T[c := Some m]) < weight T"
      using weight_update[OF c t(4) steady_moves_up(1)[OF st c m(2,3) False]] .
    with steady_update[OF st c m(2,3) False] m(1) False show ?thesis
      by (intro exI[of _ "T[c := Some m]"] exI[of _ True]) (simp add: sweep_at_def)
  qed
qed

lemma sweep_steady:
  assumes "steady s c T" "c \<le> n"
  shows "\<exists>T' changed'. sweep preds [c..<n] (T, changed) = Some (T', changed') \<and> steady (max s n) n T' \<and>
    (changed' \<and> weight T' < weight T \<or>
     changed' = changed \<and> T' = T \<and> (\<forall>p\<in>{c..<n}. \<exists>d. idom_at T p = Some d \<and> ancestors T d = common s T p))"
  using assms
proof (induction "n - c" arbitrary: s c T changed)
  case 0
  then have c: "c = n" by simp
  have "c \<le> s" "s \<le> length T" "length T = n" using 0(2) by (simp_all add: steady_def tree_upto_def)
  with c have "s = n" by simp
  with 0(2) c show ?case by simp
next
  case (Suc k)
  then have c: "c < n" by simp
  from sweep_at_steady[OF Suc.prems(1) c, of changed] obtain T1 changed1 where
    one: "sweep_at preds c (T, changed) = Some (T1, changed1)" "steady (max s (Suc c)) (Suc c) T1"
    "changed1 \<and> weight T1 < weight T \<or>
     changed1 = changed \<and> T1 = T \<and> (\<exists>d. idom_at T c = Some d \<and> ancestors T d = common s T c)" by blast
  have k: "k = n - Suc c" "Suc c \<le> n" using Suc.hyps(2) c by simp_all
  from Suc.hyps(1)[OF k(1) one(2) k(2), of changed1] obtain T2 changed2 where
    two: "sweep preds [Suc c..<n] (T1, changed1) = Some (T2, changed2)" "steady (max (max s (Suc c)) n) n T2"
    "changed2 \<and> weight T2 < weight T1 \<or> changed2 = changed1 \<and> T2 = T1 \<and>
      (\<forall>p\<in>{Suc c..<n}. \<exists>d. idom_at T1 p = Some d \<and> ancestors T1 d = common (max s (Suc c)) T1 p)" by blast
  have "max (max s (Suc c)) n = max s n" using c by simp
  moreover have "sweep preds [c..<n] (T, changed) = Some (T2, changed2)"
    using one(1) two(1) c by (simp add: upt_conv_Cons)
  moreover have "changed2 \<and> weight T2 < weight T \<or> changed2 = changed \<and> T2 = T \<and>
      (\<forall>p\<in>{c..<n}. \<exists>d. idom_at T p = Some d \<and> ancestors T d = common s T p)"
  proof (cases "changed1 \<and> weight T1 < weight T")
    case True
    then show ?thesis using two(3) by auto
  next
    case False
    with one(3) have same: "changed1 = changed" "T1 = T" "\<exists>d. idom_at T c = Some d \<and> ancestors T d = common s T c" by auto
    have "c < s" using tree_upto_set[of s T c] same(3) Suc.prems(1) by (auto simp: steady_def)
    then have "max s (Suc c) = s" by simp
    with two(3) same show ?thesis by (auto simp: Ball_def le_Suc_eq dest: le_neq_implies_less)
  qed
  ultimately show ?case using two(2) by (metis (no_types, lifting))
qed

text \<open>The trees no round changes: the dominator of every block is the meet of its predecessors.\<close>

definition settled :: "idoms \<Rightarrow> bool" where
  "settled T \<longleftrightarrow> tree_upto n T \<and> length T = n \<and>
     (\<forall>p d. 0 < p \<longrightarrow> p < n \<longrightarrow> idom_at T p = Some d \<longrightarrow> ancestors T d = common n T p)"

lemma settle_total:
  assumes "steady s 1 T" "0 < n" "weight T < fuel"
  shows "\<exists>T'. settle fuel preds n T = Some T' \<and> settled T'"
  using assms
proof (induction fuel arbitrary: s T)
  case (Suc fuel)
  have "s \<le> n" using Suc.prems(1) by (simp add: steady_def tree_upto_def)
  then have max: "max s n = n" by simp
  from sweep_steady[OF Suc.prems(1), of False] Suc.prems(2) obtain T1 changed where
    one: "sweep preds [1..<n] (T, False) = Some (T1, changed)" "steady n n T1"
    "changed \<and> weight T1 < weight T \<or>
     \<not> changed \<and> T1 = T \<and> (\<forall>p\<in>{1..<n}. \<exists>d. idom_at T p = Some d \<and> ancestors T d = common s T p)"
    unfolding max by auto
  have next_round: "steady n 1 T1"
    unfolding steady_def
  proof (intro conjI allI impI)
    fix r d assume r: "0 < r" "idom_at T1 r = Some d"
    note p = steady_parent[OF one(2) r]
    show "common n T1 r \<subseteq> ancestors T1 d" by (rule p(3))
    show "(\<exists>q\<in>set (preds r). q < r \<and> d \<in> ancestors T1 q) \<or> 1 \<le> r \<and> d < 1" using p(1,4) by auto
  qed (use one(2) Suc.prems(2) in \<open>auto simp: steady_def\<close>)
  show ?case
  proof (cases changed)
    case True
    with one(3) Suc.prems(3) have "weight T1 < fuel" by auto
    from Suc.IH[OF next_round Suc.prems(2) this] one(1) True show ?thesis by simp
  next
    case False
    with one(3) have same: "T1 = T" "\<And>p. 0 < p \<Longrightarrow> p < n \<Longrightarrow> \<exists>d. idom_at T p = Some d \<and> ancestors T d = common s T p" by auto
    have trees: "tree_upto s T" "tree_upto n T" using Suc.prems(1) one(2) same(1) by (simp_all add: steady_def)
    have "\<not> s < n" using tree_upto_set[OF trees(1), of s] tree_upto_set[OF trees(2), of s] by simp
    with \<open>s \<le> n\<close> have "s = n" by simp
    have "ancestors T d = common n T p" if "0 < p" "p < n" "idom_at T p = Some d" for p d
      using same(2)[OF that(1,2)] that(3) \<open>s = n\<close> by auto
    moreover have "length T = n" using Suc.prems(1) by (simp add: steady_def)
    ultimately have "settled T" using trees(2) by (simp add: settled_def)
    then show ?thesis using one(1) False same(1) by simp
  qed
qed simp

text \<open>What dominates a block stands on every path to it.\<close>

inductive flow_path :: "nat list \<Rightarrow> nat \<Rightarrow> bool" where
  flow_entry: "flow_path [] 0"
| flow_step: "flow_path ps q \<Longrightarrow> q \<in> set (preds p) \<Longrightarrow> p < n \<Longrightarrow> flow_path (q # ps) p"

lemma settled_on_path:
  assumes "settled T" "flow_path ps p" "0 < n"
  shows "p < n \<and> ancestors T p \<subseteq> set (p # ps)"
  using assms(2)
proof (induction rule: flow_path.induct)
  case flow_entry
  then show ?case using assms(1,3) ancestors_entry[of n T] by (simp add: settled_def)
next
  case (flow_step ps q p)
  have t: "tree_upto n T" using assms(1) by (simp add: settled_def)
  show ?case
  proof (cases "p = 0")
    case True
    then show ?thesis using flow_step.hyps(3) ancestors_entry[OF t] by simp
  next
    case False
    with tree_upto_parent[OF t, of p] flow_step.hyps(3) obtain d where d: "d < p" "idom_at T p = Some d" by auto
    with False flow_step.hyps(3) assms(1) have "ancestors T d = common n T p" by (simp add: settled_def)
    moreover have "common n T p \<subseteq> ancestors T q" using flow_step by (intro common_earlier) auto
    ultimately show ?thesis using ancestors_step[OF d(2,1)] flow_step by auto
  qed
qed

end

section \<open>Reverse postorder\<close>

primrec visit :: "nat \<Rightarrow> (nat \<Rightarrow> nat list) \<Rightarrow> nat \<Rightarrow> nat list \<times> nat list \<Rightarrow> nat list \<times> nat list" where
  "visit 0 succ p st = st"
| "visit (Suc fuel) succ p st =
     (if p \<in> set (fst st) then st
      else let st' = fold (visit fuel succ) (succ p) (p # fst st, snd st) in (fst st', snd st' @ [p]))"

text \<open>
  What a search adds to the order: blocks not visited before, whose successors are
  visited afterwards, each with a predecessor after it but for the roots of the search.
\<close>

definition searched :: "(nat \<Rightarrow> nat list) \<Rightarrow> nat set \<Rightarrow> nat list \<times> nat list \<Rightarrow> nat list \<times> nat list \<Rightarrow> bool" where
  "searched succ roots st st' \<longleftrightarrow> (\<exists>new. snd st' = snd st @ new \<and> distinct new \<and>
     set (fst st') = set (fst st) \<union> set new \<and> set new \<inter> set (fst st) = {} \<and>
     (\<forall>x\<in>set new. set (succ x) \<subseteq> set (fst st')) \<and> roots \<subseteq> set (fst st') \<and>
     (\<forall>xs y ys. new = xs @ y # ys \<longrightarrow> y \<in> roots \<or> (\<exists>z\<in>set ys. y \<in> set (succ z))))"

lemma searched_refl: "searched succ {} st st"
  by (auto simp: searched_def)

lemma searched_seq:
  assumes "searched succ R1 st st1" "searched succ R2 st1 st2"
  shows "searched succ (R1 \<union> R2) st st2"
proof -
  from assms(1) obtain n1 where n1: "snd st1 = snd st @ n1" "distinct n1" "set (fst st1) = set (fst st) \<union> set n1"
    "set n1 \<inter> set (fst st) = {}" "\<forall>x\<in>set n1. set (succ x) \<subseteq> set (fst st1)" "R1 \<subseteq> set (fst st1)"
    "\<forall>xs y ys. n1 = xs @ y # ys \<longrightarrow> y \<in> R1 \<or> (\<exists>z\<in>set ys. y \<in> set (succ z))" unfolding searched_def by blast
  from assms(2) obtain n2 where n2: "snd st2 = snd st1 @ n2" "distinct n2" "set (fst st2) = set (fst st1) \<union> set n2"
    "set n2 \<inter> set (fst st1) = {}" "\<forall>x\<in>set n2. set (succ x) \<subseteq> set (fst st2)" "R2 \<subseteq> set (fst st2)"
    "\<forall>xs y ys. n2 = xs @ y # ys \<longrightarrow> y \<in> R2 \<or> (\<exists>z\<in>set ys. y \<in> set (succ z))" unfolding searched_def by blast
  have "y \<in> R1 \<union> R2 \<or> (\<exists>z\<in>set ys. y \<in> set (succ z))" if split: "n1 @ n2 = xs @ y # ys" for xs y ys
  proof -
    from split consider us where "n1 = xs @ y # us" "ys = us @ n2" | us where "n2 = us @ y # ys"
      by (auto simp: append_eq_append_conv2 Cons_eq_append_conv append_eq_Cons_conv)
    then show ?thesis
    proof cases
      case 1
      then show ?thesis using n1(7) by auto
    next
      case 2
      then show ?thesis using n2(7) by auto
    qed
  qed
  then show ?thesis unfolding searched_def using n1 n2
    by (intro exI[of _ "n1 @ n2"]) auto
qed

lemma searched_fold:
  assumes "\<And>p st. p \<in> set ps \<Longrightarrow> V \<subseteq> set (fst st) \<Longrightarrow> searched succ {p} st (f p st)" "V \<subseteq> set (fst st)"
  shows "searched succ (set ps) st (fold f ps st)"
  using assms
proof (induction ps arbitrary: st)
  case (Cons p ps)
  have one: "searched succ {p} st (f p st)" by (rule Cons.prems) (use Cons.prems in simp_all)
  then have "V \<subseteq> set (fst (f p st))" using Cons.prems(2) by (auto simp: searched_def)
  then have "searched succ (set ps) (f p st) (fold f ps (f p st))"
    by (intro Cons.IH) (use Cons.prems in auto)
  from searched_seq[OF one this] show ?case by simp
qed (simp add: searched_refl)

lemma visit_searched:
  assumes "\<And>x. x < n \<Longrightarrow> set (succ x) \<subseteq> {..<n}"
  shows "p < n \<Longrightarrow> card ({..<n} - set (fst st)) \<le> fuel \<Longrightarrow> searched succ {p} st (visit fuel succ p st)"
proof (induction fuel arbitrary: p st)
  case 0
  then have "{..<n} - set (fst st) = {}" by simp
  with 0(1) have "p \<in> set (fst st)" by auto
  then show ?case by (auto simp: searched_def)
next
  case (Suc fuel)
  show ?case
  proof (cases "p \<in> set (fst st)")
    case True
    then show ?thesis by (auto simp: searched_def)
  next
    case False
    define st0 where "st0 = (p # fst st, snd st)"
    define st1 where "st1 = fold (visit fuel succ) (succ p) st0"
    have child: "searched succ {q} st' (visit fuel succ q st')" if "q \<in> set (succ p)" "set (p # fst st) \<subseteq> set (fst st')" for q st'
    proof (rule Suc.IH)
      show "q < n" using that(1) assms[OF Suc.prems(1)] by auto
      have "{..<n} - set (fst st') \<subseteq> ({..<n} - set (fst st)) - {p}" using that(2) by auto
      then have "card ({..<n} - set (fst st')) \<le> card (({..<n} - set (fst st)) - {p})" by (intro card_mono) auto
      also have "\<dots> < card ({..<n} - set (fst st))" using False Suc.prems(1) by (intro psubset_card_mono) auto
      finally show "card ({..<n} - set (fst st')) \<le> fuel" using Suc.prems(2) by simp
    qed
    have "searched succ (set (succ p)) st0 st1"
      unfolding st1_def
    proof (rule searched_fold[where V = "set (p # fst st)"])
      show "set (p # fst st) \<subseteq> set (fst st0)" by (simp add: st0_def)
    qed (rule child)
    then obtain new where new: "snd st1 = snd st @ new" "distinct new" "set (fst st1) = insert p (set (fst st)) \<union> set new"
      "set new \<inter> insert p (set (fst st)) = {}" "\<forall>x\<in>set new. set (succ x) \<subseteq> set (fst st1)" "set (succ p) \<subseteq> set (fst st1)"
      "\<forall>xs y ys. new = xs @ y # ys \<longrightarrow> y \<in> set (succ p) \<or> (\<exists>z\<in>set ys. y \<in> set (succ z))"
      by (auto simp: searched_def st0_def)
    have later: "y \<in> {p} \<or> (\<exists>z\<in>set ys. y \<in> set (succ z))" if "new @ [p] = xs @ y # ys" for xs y ys
    proof (cases ys rule: rev_cases)
      case (snoc zs z)
      with that have "new = xs @ y # zs" "z = p" by auto
      then show ?thesis using new(7) snoc by auto
    qed (use that in auto)
    have "visit (Suc fuel) succ p st = (fst st1, snd st1 @ [p])" using False by (simp add: st1_def st0_def Let_def)
    then show ?thesis unfolding searched_def using new later False
      by (intro exI[of _ "new @ [p]"]) auto
  qed
qed

section \<open>The tree of a function\<close>

definition succ_positions :: "func \<Rightarrow> nat \<Rightarrow> nat list" where
  "succ_positions fn p = List.map_filter (positions (f_blocks fn)) (successors (b_term (f_blocks fn ! p)))"

definition reverse_postorder :: "func \<Rightarrow> nat list" where
  "reverse_postorder fn = rev (snd (visit (length (f_blocks fn)) (succ_positions fn) 0 ([], [])))"

definition place_in :: "nat list \<Rightarrow> nat \<Rightarrow> nat option" where
  "place_in order p = (if p \<in> set order then Some (length (takeWhile (\<lambda>x. x \<noteq> p) order)) else None)"

record dominator_tree =
  dt_place :: "nat option list"
  dt_idom :: idoms

definition tree_preds :: "func \<Rightarrow> nat \<Rightarrow> nat list" where
  "tree_preds fn p =
     (let order = reverse_postorder fn
      in List.map_filter (place_in order) (block_predecessors fn ! (order ! p)))"

definition build_dominator_tree :: "func \<Rightarrow> dominator_tree option" where
  "build_dominator_tree fn =
     (let order = reverse_postorder fn; n = length order
      in map_option (\<lambda>idom. \<lparr>dt_place = map (place_in order) [0..<length (f_blocks fn)], dt_idom = idom\<rparr>)
           (settle (Suc (n * n)) (tree_preds fn) n (first_idoms n)))"

definition dominates :: "dominator_tree \<Rightarrow> nat \<Rightarrow> nat \<Rightarrow> bool option" where
  "dominates tree d b =
     (case dt_place tree ! b of
        None \<Rightarrow> Some True
      | Some p \<Rightarrow>
          (case dt_place tree ! d of
             None \<Rightarrow> Some False
           | Some target \<Rightarrow> dom_walk (Suc p) (dt_idom tree) p target))"

lemma in_map_filter: "y \<in> set (List.map_filter f xs) \<longleftrightarrow> (\<exists>x\<in>set xs. f x = Some y)"
  by (induction xs) (auto simp: List.map_filter_def)

lemma succ_positions_bound: "set (succ_positions fn p) \<subseteq> {..<length (f_blocks fn)}"
  by (auto simp: succ_positions_def in_map_filter dest: positions_Some)

lemma predecessors_iff:
  assumes "q < length (f_blocks fn)"
  shows "p \<in> set (block_predecessors fn ! q) \<longleftrightarrow> p < length (f_blocks fn) \<and> q \<in> set (succ_positions fn p)"
  using assms by (auto simp: block_predecessors_def succ_positions_def in_map_filter image_iff Bex_def)

text \<open>The entry comes first, every block after a predecessor, and no reachable block is missing.\<close>

lemma postorder:
  assumes "f_blocks fn \<noteq> []"
  shows "distinct (reverse_postorder fn)" "set (reverse_postorder fn) \<subseteq> {..<length (f_blocks fn)}"
    "0 \<in> set (reverse_postorder fn)"
    "p \<in> set (reverse_postorder fn) \<Longrightarrow> set (succ_positions fn p) \<subseteq> set (reverse_postorder fn)"
    "i < length (reverse_postorder fn) \<Longrightarrow> reverse_postorder fn ! i = 0 \<or>
       (\<exists>j<i. reverse_postorder fn ! i \<in> set (succ_positions fn (reverse_postorder fn ! j)))"
proof -
  let ?n = "length (f_blocks fn)"
  define st where "st = visit ?n (succ_positions fn) 0 ([], [])"
  have "searched (succ_positions fn) {0} ([], []) st"
    unfolding st_def using assms succ_positions_bound by (intro visit_searched[where n = ?n]) auto
  then obtain new where new: "snd st = new" "distinct new" "set (fst st) = set new"
    "\<And>x. x \<in> set new \<Longrightarrow> set (succ_positions fn x) \<subseteq> set new" "0 \<in> set new"
    "\<And>xs y ys. new = xs @ y # ys \<Longrightarrow> y = 0 \<or> (\<exists>z\<in>set ys. y \<in> set (succ_positions fn z))"
    unfolding searched_def by auto
  have order: "reverse_postorder fn = rev new" by (simp add: reverse_postorder_def st_def[symmetric] new(1))
  show "distinct (reverse_postorder fn)" "0 \<in> set (reverse_postorder fn)" using order new by simp_all
  show "set (succ_positions fn p) \<subseteq> set (reverse_postorder fn)" if "p \<in> set (reverse_postorder fn)"
    using order new(4) that by simp
  have early: "y = 0 \<or> (\<exists>z\<in>set ys. y \<in> set (succ_positions fn z))" if "rev new = ys @ y # xs" for xs y ys
  proof -
    have "new = rev xs @ y # rev ys" using that by (metis append.assoc append_Cons append_Nil rev.simps(2) rev_append rev_rev_ident)
    from new(6)[OF this] show ?thesis by simp
  qed
  show "reverse_postorder fn ! i = 0 \<or> (\<exists>j<i. reverse_postorder fn ! i \<in> set (succ_positions fn (reverse_postorder fn ! j)))"
    if "i < length (reverse_postorder fn)"
  proof -
    have "rev new = take i (rev new) @ rev new ! i # drop (Suc i) (rev new)" using that order by (intro id_take_nth_drop) simp
    from early[OF this] show ?thesis using that unfolding order by (auto simp: in_set_conv_nth)
  qed
  show "set (reverse_postorder fn) \<subseteq> {..<?n}"
  proof
    fix y assume "y \<in> set (reverse_postorder fn)"
    then obtain i where i: "i < length (rev new)" "y = rev new ! i" unfolding order in_set_conv_nth by blast
    have "rev new = take i (rev new) @ y # drop (Suc i) (rev new)" using i id_take_nth_drop by blast
    from early[OF this] show "y \<in> {..<?n}" using assms succ_positions_bound by auto
  qed
qed

lemma place_in_Some:
  assumes "distinct order"
  shows "place_in order p = Some i \<longleftrightarrow> i < length order \<and> order ! i = p"
proof
  assume "place_in order p = Some i"
  then have i: "p \<in> set order" "i = length (takeWhile (\<lambda>x. x \<noteq> p) order)" by (auto simp: place_in_def split: if_splits)
  have "p \<in> set order \<Longrightarrow> length (takeWhile (\<lambda>x. x \<noteq> p) order) < length order" by (induction order) auto
  with i have "i < length order" by simp
  with nth_length_takeWhile[of "\<lambda>x. x \<noteq> p" order] i(2) show "i < length order \<and> order ! i = p" by simp
next
  assume i: "i < length order \<and> order ! i = p"
  have "takeWhile (\<lambda>x. x \<noteq> p) order = take i order"
    using i assms by (intro takeWhile_eq_take_P_nth) (auto simp: nth_eq_iff_index_eq)
  with i show "place_in order p = Some i" by (auto simp: place_in_def)
qed

lemma place_in_None: "place_in order p = None \<longleftrightarrow> p \<notin> set order"
  by (simp add: place_in_def)

interpretation doms: flow_order "length (reverse_postorder fn)" "tree_preds fn" for fn
proof
  fix p assume p: "0 < p" "p < length (reverse_postorder fn)"
  have ne: "f_blocks fn \<noteq> []"
  proof
    assume "f_blocks fn = []"
    then show False using p(2) by (simp add: reverse_postorder_def)
  qed
  note order = postorder[OF ne]
  have entry: "reverse_postorder fn ! 0 = 0"
    using order(5)[of 0] p by fastforce
  have "reverse_postorder fn ! p \<noteq> 0"
    using entry p nth_eq_iff_index_eq[OF order(1) p(2), of 0] by fastforce
  with order(5)[OF p(2)] obtain j where j: "j < p" "reverse_postorder fn ! p \<in> set (succ_positions fn (reverse_postorder fn ! j))" by blast
  have b: "reverse_postorder fn ! i < length (f_blocks fn)" if "i < length (reverse_postorder fn)" for i
    using order(2) nth_mem[OF that] by auto
  have "reverse_postorder fn ! j \<in> set (block_predecessors fn ! (reverse_postorder fn ! p))"
    using predecessors_iff[OF b[OF p(2)]] j b[of j] p(2) by auto
  moreover have "place_in (reverse_postorder fn) (reverse_postorder fn ! j) = Some j"
    using place_in_Some[OF order(1)] j(1) p(2) by auto
  ultimately have "j \<in> set (tree_preds fn p)" by (auto simp: tree_preds_def Let_def in_map_filter)
  with j(1) show "\<exists>q\<in>set (tree_preds fn p). q < p" by blast
next
  fix p q assume pq: "p < length (reverse_postorder fn)" "q \<in> set (tree_preds fn p)"
  then have "reverse_postorder fn \<noteq> []" by auto
  then have "f_blocks fn \<noteq> []" by (auto simp: reverse_postorder_def)
  from place_in_Some[OF postorder(1)[OF this]] pq(2) show "q < length (reverse_postorder fn)"
    by (auto simp: tree_preds_def Let_def in_map_filter)
qed

lemma first_idoms_steady:
  assumes "0 < length (reverse_postorder fn)"
  shows "doms.steady fn 1 1 (first_idoms (length (reverse_postorder fn)))"
    "doms.weight fn (first_idoms (length (reverse_postorder fn))) < Suc (length (reverse_postorder fn) * length (reverse_postorder fn))"
proof -
  let ?n = "length (reverse_postorder fn)"
  have at: "idom_at (first_idoms ?n) p = (if p = 0 then Some 0 else None)" for p
    using assms by (auto simp: idom_at_def first_idoms_def nth_list_update)
  show "doms.steady fn 1 1 (first_idoms ?n)"
    using assms by (auto simp: doms.steady_def tree_upto_def at) (simp_all add: first_idoms_def Suc_le_eq)
  have "doms.weight fn (first_idoms ?n) \<le> (\<Sum>p<?n. ?n)"
    unfolding doms.weight_def by (intro sum_mono) (simp add: at)
  then show "doms.weight fn (first_idoms ?n) < Suc (?n * ?n)" by simp
qed

lemma build_dominator_tree_total:
  assumes "f_blocks fn \<noteq> []"
  shows "\<exists>idom. build_dominator_tree fn = Some \<lparr>dt_place = map (place_in (reverse_postorder fn)) [0..<length (f_blocks fn)], dt_idom = idom\<rparr> \<and>
    doms.settled fn idom"
proof -
  have "0 < length (reverse_postorder fn)" using postorder(3)[OF assms] by auto
  from doms.settle_total[OF first_idoms_steady(1)[OF this] this first_idoms_steady(2)[OF this]]
  show ?thesis by (auto simp: build_dominator_tree_def Let_def)
qed

section \<open>Paths of blocks\<close>

text \<open>\<open>block_path fn ps p\<close>: control may come to block \<open>p\<close> through the blocks \<open>ps\<close>, last first.\<close>

inductive block_path :: "func \<Rightarrow> nat list \<Rightarrow> nat \<Rightarrow> bool" for fn where
  path_entry: "block_path fn [] 0"
| path_step: "block_path fn ps q \<Longrightarrow> p \<in> set (succ_positions fn q) \<Longrightarrow> block_path fn (q # ps) p"

lemma block_path_flow:
  assumes "f_blocks fn \<noteq> []" "block_path fn ps p"
  shows "\<exists>is i. map (nth (reverse_postorder fn)) is = ps \<and> place_in (reverse_postorder fn) p = Some i \<and>
    list_all (\<lambda>k. k < length (reverse_postorder fn)) is \<and> doms.flow_path fn is i"
  using assms(2)
proof (induction rule: block_path.induct)
  case path_entry
  note order = postorder[OF assms(1)]
  have "0 < length (reverse_postorder fn)" using order(3) by auto
  moreover from this have "reverse_postorder fn ! 0 = 0" using order(5)[of 0] by auto
  ultimately have "place_in (reverse_postorder fn) 0 = Some 0" using place_in_Some[OF order(1)] by simp
  then show ?case using doms.flow_entry by (intro exI[of _ "[]"] exI[of _ 0]) simp
next
  case (path_step ps q p)
  note order = postorder[OF assms(1)]
  from path_step.IH obtain js j where j: "map (nth (reverse_postorder fn)) js = ps" "place_in (reverse_postorder fn) q = Some j"
    "list_all (\<lambda>k. k < length (reverse_postorder fn)) js" "doms.flow_path fn js j" by blast
  then have jq: "j < length (reverse_postorder fn)" "reverse_postorder fn ! j = q" using place_in_Some[OF order(1)] by auto
  then have "p \<in> set (reverse_postorder fn)" using order(4)[of q] path_step.hyps(2) by auto
  then obtain i where "place_in (reverse_postorder fn) p = Some i" by (auto simp: place_in_def)
  then have i: "i < length (reverse_postorder fn)" "reverse_postorder fn ! i = p" "place_in (reverse_postorder fn) p = Some i"
    using place_in_Some[OF order(1)] by auto
  have bounds: "p < length (f_blocks fn)" "q < length (f_blocks fn)" using order(2) i(1,2) jq nth_mem by fastforce+
  then have "j \<in> set (tree_preds fn i)"
    using predecessors_iff[OF bounds(1)] path_step.hyps(2) j(2) i(2) by (auto simp: tree_preds_def Let_def in_map_filter)
  then have "doms.flow_path fn (j # js) i" using doms.flow_step[OF j(4)] i(1) by simp
  then show ?case using i(3) j jq by (intro exI[of _ "j # js"] exI[of _ i]) simp
qed

lemma dominates_sound:
  assumes ne: "f_blocks fn \<noteq> []" and d: "d < length (f_blocks fn)" and b: "b < length (f_blocks fn)"
    and tree: "build_dominator_tree fn = Some tree"
  shows "\<exists>v. dominates tree d b = Some v \<and> (\<forall>ps. v \<longrightarrow> block_path fn ps b \<longrightarrow> d \<in> set (b # ps))"
proof -
  let ?order = "reverse_postorder fn"
  note order = postorder[OF ne]
  from build_dominator_tree_total[OF ne] tree obtain idom where
    t: "tree = \<lparr>dt_place = map (place_in ?order) [0..<length (f_blocks fn)], dt_idom = idom\<rparr>" "doms.settled fn idom" by auto
  have place: "dt_place tree ! p = place_in ?order p" if "p < length (f_blocks fn)" for p using that t(1) by simp
  have n: "0 < length ?order" using order(3) by auto
  have on_path: "d \<in> set (b # ps)" if "block_path fn ps b" "place_in ?order b = Some i" "place_in ?order d = Some k" "k \<in> ancestors idom i" for ps i k
  proof -
    from block_path_flow[OF ne that(1)] that(2) obtain js where
      js: "map (nth ?order) js = ps" "list_all (\<lambda>k. k < length ?order) js" "doms.flow_path fn js i" by auto
    from doms.settled_on_path[OF t(2) js(3) n] that(4) have "k \<in> set (i # js)" by auto
    moreover have "?order ! i = b" "?order ! k = d" using that(2,3) place_in_Some[OF order(1)] by auto
    ultimately show ?thesis using js(1) by auto
  qed
  show ?thesis
  proof (cases "place_in ?order b")
    case None
    then have "\<not> block_path fn ps b" for ps using block_path_flow[OF ne, of ps b] by auto
    then show ?thesis using None place[OF b] by (intro exI[of _ True]) (simp add: dominates_def)
  next
    case (Some i)
    show ?thesis
    proof (cases "place_in ?order d")
      case None
      then show ?thesis using Some place[OF b] place[OF d] by (intro exI[of _ False]) (simp add: dominates_def)
    next
      case k: (Some k)
      have "tree_upto (length ?order) idom" "i < length ?order" using t(2) Some place_in_Some[OF order(1)] by (auto simp: doms.settled_def)
      from dom_walk_exact[OF this, of "Suc i" k] show ?thesis
        using Some k place[OF b] place[OF d] t(1) on_path by (auto simp: dominates_def)
    qed
  qed
qed

end
