(* ===== verification/Verify.thy ===== *)
theory Verify
  imports Typ_Parse Reachable Copy_Prop Dominators
begin

text \<open>
  The verifier of lowered modules, internal/ir/verify.go. A rule answers the first error it
  finds, or None where the code returns nil. The two flag slices of the phi rule are
  membership in the lists they are set from. A type table gives what parsing gives
  (\<open>table_parse_transparent\<close>), so the rules parse. \<open>Overrun\<close> stands for a walk of the
  dominator tree that does not end; \<open>verify_no_overrun\<close> shows that it never occurs.

  \<open>verify_strict\<close> is what the verifier is for: in a function it accepts, every value is
  defined on every path to each of its uses.
\<close>

section \<open>Errors\<close>

datatype slot =
    IndirectCallee
  | IndirectArgument nat
  | CallArgument name nat
  | StructField string name
  | UnionPayload string name
  | SuccessWrap string
  | ReturnValue

text \<open>Each error names the function and the block, then what it is about.\<close>

datatype verify_error =
    WrongType name name slot string string
  | NoCallee name name
  | IndirectArity name name nat nat nat
  | NoTerminator name name
  | NoSuchBlock name name name
  | PhiNoEdge name name name name
  | PhiNoValue name name name name
  | PhiCount name name name nat nat
  | PhiNotDominated name name name name name name
  | ReadBeforeDefined name name name
  | NotDominated name name name name
  | Overrun

text \<open>A loop that returns the first error.\<close>

primrec first_error :: "('a \<Rightarrow> 'e option) \<Rightarrow> 'a list \<Rightarrow> 'e option" where
  "first_error f [] = None"
| "first_error f (x # xs) = (case f x of Some e \<Rightarrow> Some e | None \<Rightarrow> first_error f xs)"

definition either_error :: "'e option \<Rightarrow> 'e option \<Rightarrow> 'e option" where
  "either_error a b = (case a of Some e \<Rightarrow> Some e | None \<Rightarrow> b)"

lemma first_error_None: "first_error f xs = None \<longleftrightarrow> (\<forall>x\<in>set xs. f x = None)"
  by (induction xs) (auto split: option.splits)

declare first_error.simps [simp del]

lemma either_error_None [simp]: "either_error a b = None \<longleftrightarrow> a = None \<and> b = None"
  by (auto simp: either_error_def split: option.splits)

section \<open>Types\<close>

definition func_pointer_params :: "string \<Rightarrow> ty list option" where
  "func_pointer_params s =
     (if \<not> is_func_spelling s then None
      else case typ_parse s of Inr (Func params _ _ _) \<Rightarrow> Some params | _ \<Rightarrow> None)"

definition lends_shared_borrow :: "string \<Rightarrow> string \<Rightarrow> bool" where
  "lends_shared_borrow want got \<longleftrightarrow> prefix ''&'' want \<and> \<not> prefix ''&var '' want \<and>
     prefix ''&var '' got \<and> deref_type want = deref_type got"

definition argument_fits :: "param \<Rightarrow> string \<Rightarrow> bool" where
  "argument_fits p got \<longleftrightarrow> p_type p = got \<or> takes_address_of p got \<or> lends_shared_borrow (p_type p) got"

text \<open>The arguments that a list of parameters is filled with, in order.\<close>

definition arguments_error :: "(nat \<Rightarrow> string \<Rightarrow> string \<Rightarrow> verify_error) \<Rightarrow> param list \<Rightarrow> ir_value list \<Rightarrow> verify_error option" where
  "arguments_error err params args =
     first_error (\<lambda>(k, p, a). if argument_fits p (v_type a) then None else Some (err k (p_type p) (v_type a)))
       (zip [0..<length params] (zip params args))"

definition indirect_call_error :: "name \<Rightarrow> name \<Rightarrow> instr \<Rightarrow> verify_error option" where
  "indirect_call_error fn b i =
     (case i_args i of
        [] \<Rightarrow> Some (NoCallee fn b)
      | callee # args \<Rightarrow>
          (case func_pointer_params (v_type callee) of
             None \<Rightarrow> Some (WrongType fn b IndirectCallee ''function pointer'' (v_type callee))
           | Some params \<Rightarrow>
               if length (i_call_params i) \<noteq> length args \<or> length params \<noteq> length (i_call_params i)
               then Some (IndirectArity fn b (length args) (length (i_call_params i)) (length params))
               else arguments_error (\<lambda>k. WrongType fn b (IndirectArgument k)) (i_call_params i) args))"

definition declared_params :: "module \<Rightarrow> name \<rightharpoonup> param list" where
  "declared_params m = map_of (rev (map (\<lambda>fn. (f_name fn, f_params fn)) (m_functions m)))"

definition call_error :: "module \<Rightarrow> name \<Rightarrow> name \<Rightarrow> name \<Rightarrow> instr \<Rightarrow> verify_error option" where
  "call_error m fn b callee i =
     (case declared_params m callee of
        None \<Rightarrow> None
      | Some params \<Rightarrow>
          if length params \<noteq> length (i_args i) then None
          else arguments_error (\<lambda>k. WrongType fn b (CallArgument callee k)) params (i_args i))"

definition struct_literal_error :: "module \<Rightarrow> name \<Rightarrow> name \<Rightarrow> instr \<Rightarrow> verify_error option" where
  "struct_literal_error m fn b i =
     (let declared = (case m_structs m (v_type (i_result i)) of Some d \<Rightarrow> sd_fields d | None \<Rightarrow> [])
      in first_error (\<lambda>fa. first_error (\<lambda>d.
           if fd_name d \<noteq> fa_name fa \<or> fd_type d = v_type (fa_value fa) then None
           else Some (WrongType fn b (StructField (v_type (i_result i)) (fa_name fa)) (fd_type d) (v_type (fa_value fa))))
         declared) (i_fields i))"

definition union_payload_error :: "module \<Rightarrow> name \<Rightarrow> name \<Rightarrow> instr \<Rightarrow> verify_error option" where
  "union_payload_error m fn b i =
     (case Option.bind (m_unions m (v_type (i_result i))) (\<lambda>u. un_variants u (i_immediate i)) of
        None \<Rightarrow> None
      | Some variant \<Rightarrow>
          (case i_args i of
             [a] \<Rightarrow>
               if uv_payload variant = [] \<or> uv_payload variant = v_type a then None
               else Some (WrongType fn b (UnionPayload (v_type (i_result i)) (uv_name variant)) (uv_payload variant) (v_type a))
           | _ \<Rightarrow> None))"

definition success_text :: "string \<Rightarrow> string option" where
  "success_text s = (case typ_parse s of
     Inr t \<Rightarrow> map_option (\<lambda>(err, ok). ty_string ok) (error_union_parts t) | Inl _ \<Rightarrow> None)"

definition success_wrap_error :: "name \<Rightarrow> name \<Rightarrow> instr \<Rightarrow> verify_error option" where
  "success_wrap_error fn b i =
     (case (success_text (v_type (i_result i)), i_args i) of
        (Some success, [a]) \<Rightarrow>
          if success = v_type a then None
          else Some (WrongType fn b (SuccessWrap (v_type (i_result i))) success (v_type a))
      | _ \<Rightarrow> None)"

definition instr_error :: "module \<Rightarrow> name \<Rightarrow> name \<Rightarrow> instr \<Rightarrow> verify_error option" where
  "instr_error m fn b i =
     (if i_op i = ''struct.new'' then struct_literal_error m fn b i
      else if i_op i = ''union.new'' then union_payload_error m fn b i
      else if i_op i = ''error.ok'' then success_wrap_error fn b i
      else if i_op i = ''call.indirect'' then indirect_call_error fn b i
      else case direct_callee (i_op i) of Some callee \<Rightarrow> call_error m fn b callee i | None \<Rightarrow> None)"

definition absorbs_error_set_text :: "string \<Rightarrow> string \<Rightarrow> bool" where
  "absorbs_error_set_text want got =
     (case (typ_parse want, typ_parse got) of (Inr w, Inr g) \<Rightarrow> absorbs_error_set w g | _ \<Rightarrow> False)"

definition fills_nullable_pointer :: "string \<Rightarrow> string \<Rightarrow> bool" where
  "fills_nullable_pointer want got \<longleftrightarrow> prefix ''?ptr<'' want \<and> drop 1 want = got"

definition terminator_error :: "func \<Rightarrow> block \<Rightarrow> verify_error option" where
  "terminator_error fn b =
     (let t = b_term b; got = v_type (t_value t) in
      if t_op t = [] then Some (NoTerminator (f_name fn) (b_name b))
      else either_error
        (first_error (\<lambda>target. if positions (f_blocks fn) target = None
           then Some (NoSuchBlock (f_name fn) (b_name b) target) else None) (successors t))
        (if t_op t \<noteq> ''return'' \<or> got = [] \<or> absorbs_error_set_text (f_return fn) got then None
         else if f_return fn \<noteq> got \<and> \<not> fills_nullable_pointer (f_return fn) got
         then Some (WrongType (f_name fn) (b_name b) ReturnValue (f_return fn) got) else None))"

section \<open>Phis\<close>

definition phi_edges_error :: "func \<Rightarrow> block \<Rightarrow> nat list \<Rightarrow> instr \<Rightarrow> verify_error option" where
  "phi_edges_error fn b preds i =
     (let phi = v_name (i_result i) in
      either_error
        (first_error (\<lambda>inc. case positions (f_blocks fn) (in_block inc) of
            Some from \<Rightarrow> if from \<in> set preds then None else Some (PhiNoEdge (f_name fn) (b_name b) phi (in_block inc))
          | None \<Rightarrow> Some (PhiNoEdge (f_name fn) (b_name b) phi (in_block inc))) (i_incoming i))
        (either_error
          (first_error (\<lambda>pred.
              if Some pred \<in> set (map (\<lambda>inc. positions (f_blocks fn) (in_block inc)) (i_incoming i)) then None
              else Some (PhiNoValue (f_name fn) (b_name b) phi (b_name (f_blocks fn ! pred)))) preds)
          (if length (i_incoming i) \<noteq> length preds
           then Some (PhiCount (f_name fn) (b_name b) phi (length (i_incoming i)) (length preds)) else None)))"

definition phi_incoming_matches :: "func \<Rightarrow> verify_error option" where
  "phi_incoming_matches fn =
     first_error (\<lambda>p. first_error (phi_edges_error fn (f_blocks fn ! p) (block_predecessors fn ! p))
         (filter (\<lambda>i. i_op i = ''phi'') (b_instrs (f_blocks fn ! p))))
       [0..<length (f_blocks fn)]"

section \<open>Definitions before uses\<close>

text \<open>The last definition of a name, as the map is filled.\<close>

definition value_defining_blocks :: "func \<Rightarrow> name \<rightharpoonup> nat \<times> nat" where
  "value_defining_blocks fn =
     map_of (rev (concat (map (\<lambda>p. concat (map (\<lambda>k.
         let x = v_name (i_result (b_instrs (f_blocks fn ! p) ! k)) in if x = [] then [] else [(x, (p, k))])
       [0..<length (b_instrs (f_blocks fn ! p))])) [0..<length (f_blocks fn)])))"

definition phi_value_error :: "func \<Rightarrow> dominator_tree \<Rightarrow> block \<Rightarrow> instr \<Rightarrow> incoming \<Rightarrow> verify_error option" where
  "phi_value_error fn tree b i inc =
     (case value_defining_blocks fn (v_name (in_value inc)) of
        None \<Rightarrow> None
      | Some (d, _) \<Rightarrow>
          (case positions (f_blocks fn) (in_block inc) of
             None \<Rightarrow> None
           | Some from \<Rightarrow>
               (case dominates tree d from of
                  None \<Rightarrow> Some Overrun
                | Some True \<Rightarrow> None
                | Some False \<Rightarrow> Some (PhiNotDominated (f_name fn) (b_name b) (v_name (i_result i))
                    (v_name (in_value inc)) (in_block inc) (b_name (f_blocks fn ! d))))))"

definition phi_incoming_dominates :: "func \<Rightarrow> verify_error option" where
  "phi_incoming_dominates fn =
     (if f_blocks fn = [] then None
      else case build_dominator_tree fn of
        None \<Rightarrow> Some Overrun
      | Some tree \<Rightarrow> first_error (\<lambda>b. first_error (\<lambda>i.
            first_error (phi_value_error fn tree b i) (i_incoming i))
          (filter (\<lambda>i. i_op i = ''phi'') (b_instrs b))) (f_blocks fn))"

definition dominates_use :: "func \<Rightarrow> dominator_tree \<Rightarrow> nat \<Rightarrow> nat \<Rightarrow> ir_value \<Rightarrow> verify_error option" where
  "dominates_use fn tree p k v =
     (let b = b_name (f_blocks fn ! p) in
      case value_defining_blocks fn (v_name v) of
        None \<Rightarrow> None
      | Some (d, j) \<Rightarrow>
          if d = p then (if j < k then None else Some (ReadBeforeDefined (f_name fn) b (v_name v)))
          else (case dominates tree d p of
                  None \<Rightarrow> Some Overrun
                | Some True \<Rightarrow> None
                | Some False \<Rightarrow> Some (NotDominated (f_name fn) b (v_name v) (b_name (f_blocks fn ! d)))))"

definition check_operands :: "func \<Rightarrow> dominator_tree \<Rightarrow> nat \<Rightarrow> nat \<Rightarrow> instr \<Rightarrow> verify_error option" where
  "check_operands fn tree p k i =
     either_error (first_error (dominates_use fn tree p k) (i_args i))
       (either_error (first_error (dominates_use fn tree p k) (map fa_value (i_fields i)))
         (first_error (\<lambda>cl. first_error (dominates_use fn tree p k) (cl_args cl)) (i_cleanups i)))"

definition values_dominate_uses :: "func \<Rightarrow> verify_error option" where
  "values_dominate_uses fn =
     (if f_blocks fn = [] then None
      else case build_dominator_tree fn of
        None \<Rightarrow> Some Overrun
      | Some tree \<Rightarrow> first_error (\<lambda>p.
          let b = f_blocks fn ! p in
          either_error
            (first_error (\<lambda>k. if i_op (b_instrs b ! k) = ''phi'' then None
               else check_operands fn tree p k (b_instrs b ! k)) [0..<length (b_instrs b)])
            (first_error (dominates_use fn tree p (length (b_instrs b))) [t_cond (b_term b), t_value (b_term b)]))
          [0..<length (f_blocks fn)])"

section \<open>Functions and modules\<close>

definition verify_function :: "module \<Rightarrow> func \<Rightarrow> verify_error option" where
  "verify_function m fn =
     either_error
       (first_error (\<lambda>b. either_error (first_error (instr_error m (f_name fn) (b_name b)) (b_instrs b))
          (terminator_error fn b)) (f_blocks fn))
       (either_error (phi_incoming_matches fn)
         (either_error (phi_incoming_dominates fn) (values_dominate_uses fn)))"

definition verify :: "module \<Rightarrow> verify_error option" where
  "verify m = first_error (verify_function m) (m_functions m)"

section \<open>Where values are defined\<close>

definition definitions_in :: "func \<Rightarrow> (name \<times> nat \<times> nat) list" where
  "definitions_in fn = concat (map (\<lambda>p. concat (map (\<lambda>k.
     let x = v_name (i_result (b_instrs (f_blocks fn ! p) ! k)) in if x = [] then [] else [(x, (p, k))])
     [0..<length (b_instrs (f_blocks fn ! p))])) [0..<length (f_blocks fn)])"

lemma in_definitions:
  "(x, (p, k)) \<in> set (definitions_in fn) \<longleftrightarrow> (\<exists>i. instr_at fn p k = Some i \<and> v_name (i_result i) = x \<and> x \<noteq> [])"
  by (auto simp: definitions_in_def instr_at_def Let_def split: if_splits)

lemma map_nth_apply: "map (\<lambda>k. f (xs ! k)) [0..<length xs] = map f xs"
  using map_map[of f "nth xs" "[0..<length xs]"] by (simp add: map_nth comp_def)

lemma definitions_results: "map fst (definitions_in fn) = results fn"
proof -
  define names where "names = (\<lambda>i :: instr. let x = v_name (i_result i) in if x = [] then [] else [x])"
  have key: "map fst (let x = v_name (i_result i) in if x = [] then [] else [(x, pk)]) = names i" for i :: instr and pk :: "nat \<times> nat"
    by (simp add: names_def Let_def)
  have flat: "concat (map (\<lambda>b. concat (map names (b_instrs b))) bs) = concat (map names (concat (map b_instrs bs)))" for bs :: "block list"
    by (induction bs) simp_all
  have kept: "concat (map names is) = filter (\<lambda>x. x \<noteq> []) (map (\<lambda>i. v_name (i_result i)) is)" for "is" :: "instr list"
    by (induction "is") (simp_all add: names_def Let_def)
  have "map fst (definitions_in fn) = concat (map (\<lambda>p. concat (map (\<lambda>k. names (b_instrs (f_blocks fn ! p) ! k))
      [0..<length (b_instrs (f_blocks fn ! p))])) [0..<length (f_blocks fn)])"
    by (simp add: definitions_in_def map_concat comp_def key)
  also have "\<dots> = concat (map (\<lambda>b. concat (map names (b_instrs b))) (f_blocks fn))"
    using map_nth_apply[of "\<lambda>b. concat (map names (b_instrs b))" "f_blocks fn"] by (simp add: map_nth_apply)
  also have "\<dots> = concat (map names (all_instrs fn))"
    unfolding all_instrs_def by (rule flat)
  also have "\<dots> = results fn" unfolding results_def by (rule kept)
  finally show ?thesis .
qed

lemma value_defining_blocks_exact:
  assumes "ssa fn"
  shows "value_defining_blocks fn x = Some (p, k) \<longleftrightarrow>
    (\<exists>i. instr_at fn p k = Some i \<and> v_name (i_result i) = x \<and> x \<noteq> [])"
proof -
  have "value_defining_blocks fn = map_of (rev (definitions_in fn))"
    by (simp add: value_defining_blocks_def definitions_in_def)
  moreover have "distinct (map fst (rev (definitions_in fn)))"
    using assms by (simp add: rev_map[symmetric] definitions_results ssa_def)
  ultimately show ?thesis using in_definitions[of x p k fn] by (simp add: map_of_eq_Some_iff)
qed

section \<open>Dominance of blocks and of points\<close>

lemma edge_successor:
  assumes "edge fn (p, k) w" "\<not> k < length (b_instrs (f_blocks fn ! p))" "block_names_ok fn"
  shows "\<exists>q. w = (q, 0) \<and> q \<in> set (succ_positions fn p)"
proof -
  from assms(1,2) obtain target q where t: "target \<in> {t_target (b_term (f_blocks fn ! p)), t_else (b_term (f_blocks fn ! p))}"
    "positions (f_blocks fn) target = Some q" "w = (q, 0)" by (auto simp: edge_def)
  have "target \<in> b_name ` set (f_blocks fn)" using positions_Some[OF t(2)] by (metis imageI nth_mem)
  then have "target \<noteq> []" using assms(3) unfolding block_names_ok_def by metis
  then show ?thesis using t by (auto simp: succ_positions_def in_map_filter successors_def)
qed

lemma avoids_block:
  assumes "avoids fn (d, k) u" "k < length (b_instrs (f_blocks fn ! d))" "block_names_ok fn"
  shows "fst u = d \<and> snd u \<le> k \<or> (\<exists>ps. block_path fn ps (fst u) \<and> d \<notin> set (fst u # ps))"
  using assms(1)
proof (induction rule: avoids.induct)
  case entry
  then show ?case using path_entry[of fn] by (cases "d = 0") auto
next
  case (onward u w)
  obtain b j where u: "u = (b, j)" by (cases u)
  show ?case
  proof (cases "j < length (b_instrs (f_blocks fn ! b))")
    case True
    with onward u have w: "w = (b, Suc j)" by (simp add: edge_def)
    with onward.IH onward.hyps(2) u show ?thesis by auto
  next
    case False
    with onward.IH u assms(2) obtain ps where ps: "block_path fn ps b" "d \<notin> set (b # ps)" by auto
    from edge_successor[OF _ False assms(3)] onward.hyps(3) u obtain q where
      q: "w = (q, 0)" "q \<in> set (succ_positions fn b)" by blast
    with path_step[OF ps(1) q(2)] ps(2) show ?thesis by (cases "q = d") auto
  qed
qed

text \<open>Where the tree says so, every path to a point passes the definition.\<close>

lemma dominates_avoids:
  assumes "f_blocks fn \<noteq> []" "block_names_ok fn" "build_dominator_tree fn = Some tree"
    and "instr_at fn d k = Some i" "b < length (f_blocks fn)"
    and "d = b \<and> k < j \<or> d \<noteq> b \<and> dominates tree d b = Some True"
  shows "\<not> avoids fn (d, k) (b, j)"
proof
  assume a: "avoids fn (d, k) (b, j)"
  have d: "d < length (f_blocks fn)" "k < length (b_instrs (f_blocks fn ! d))"
    using assms(4) by (auto simp: instr_at_def split: if_splits)
  from avoids_block[OF a d(2) assms(2)] show False
  proof
    assume "fst (b, j) = d \<and> snd (b, j) \<le> k"
    with assms(6) show False by auto
  next
    assume "\<exists>ps. block_path fn ps (fst (b, j)) \<and> d \<notin> set (fst (b, j) # ps)"
    then obtain ps where ps: "block_path fn ps b" "d \<notin> set (b # ps)" by auto
    with dominates_sound[OF assms(1) d(1) assms(5,3)] assms(6) show False by auto
  qed
qed

section \<open>What the verifier accepts is strict\<close>

lemma use_defined:
  assumes "ssa fn" "f_blocks fn \<noteq> []" "block_names_ok fn" "build_dominator_tree fn = Some tree" "p < length (f_blocks fn)"
    and "dominates_use fn tree p k v = None"
  shows "defined_before fn (v_name v) (p, k)"
  unfolding defined_before_def
proof (intro allI impI)
  fix d j i assume i: "instr_at fn d j = Some i" "v_name (i_result i) = v_name v" "v_name v \<noteq> []"
  then have "value_defining_blocks fn (v_name v) = Some (d, j)" using value_defining_blocks_exact[OF assms(1)] by blast
  with assms(6) have "d = p \<and> j < k \<or> d \<noteq> p \<and> dominates tree d p = Some True"
    by (auto simp: dominates_use_def Let_def split: if_splits option.splits bool.splits)
  from dominates_avoids[OF assms(2-4) i(1) assms(5) this] show "\<not> avoids fn (d, j) (p, k)" .
qed

lemma incoming_defined:
  assumes "ssa fn" "f_blocks fn \<noteq> []" "block_names_ok fn" "build_dominator_tree fn = Some tree"
    and "positions (f_blocks fn) (in_block inc) = Some q" "phi_value_error fn tree b i inc = None"
  shows "defined_before fn (v_name (in_value inc)) (end_point fn q)"
  unfolding defined_before_def
proof (intro allI impI)
  fix d j i' assume i: "instr_at fn d j = Some i'" "v_name (i_result i') = v_name (in_value inc)" "v_name (in_value inc) \<noteq> []"
  then have "value_defining_blocks fn (v_name (in_value inc)) = Some (d, j)" using value_defining_blocks_exact[OF assms(1)] by blast
  with assms(5,6) have "dominates tree d q = Some True"
    by (auto simp: phi_value_error_def split: option.splits bool.splits)
  moreover have "j < length (b_instrs (f_blocks fn ! d))" using i(1) by (auto simp: instr_at_def split: if_splits)
  ultimately show "\<not> avoids fn (d, j) (end_point fn q)"
    using dominates_avoids[OF assms(2-4) i(1), of q] positions_Some[OF assms(5)] by (auto simp: end_point_def)
qed

lemma phi_edges_accepted:
  assumes "phi_edges_error fn b preds i = None"
  shows "inc \<in> set (i_incoming i) \<Longrightarrow> \<exists>q\<in>set preds. positions (f_blocks fn) (in_block inc) = Some q"
    "q \<in> set preds \<Longrightarrow> \<exists>inc\<in>set (i_incoming i). positions (f_blocks fn) (in_block inc) = Some q"
    "length (i_incoming i) = length preds"
proof -
  have a: "\<forall>inc\<in>set (i_incoming i). case positions (f_blocks fn) (in_block inc) of Some q \<Rightarrow> q \<in> set preds | None \<Rightarrow> False"
    "\<forall>q\<in>set preds. Some q \<in> set (map (\<lambda>inc. positions (f_blocks fn) (in_block inc)) (i_incoming i))"
    "length (i_incoming i) = length preds"
    using assms unfolding phi_edges_error_def Let_def either_error_None first_error_None
    by (auto split: option.splits if_splits)
  show "inc \<in> set (i_incoming i) \<Longrightarrow> \<exists>q\<in>set preds. positions (f_blocks fn) (in_block inc) = Some q"
    using a(1) by (auto split: option.splits)
  show "q \<in> set preds \<Longrightarrow> \<exists>inc\<in>set (i_incoming i). positions (f_blocks fn) (in_block inc) = Some q"
  proof -
    assume "q \<in> set preds"
    with a(2) have "Some q \<in> (\<lambda>inc. positions (f_blocks fn) (in_block inc)) ` set (i_incoming i)" by simp
    then show ?thesis by (elim imageE) (metis)
  qed
  show "length (i_incoming i) = length preds" by (rule a(3))
qed

text \<open>The parts of an accepted function.\<close>

lemma verify_function_parts:
  assumes "verify_function m fn = None"
  shows "p < length (f_blocks fn) \<Longrightarrow> i \<in> set (b_instrs (f_blocks fn ! p)) \<Longrightarrow> i_op i = ''phi'' \<Longrightarrow>
      phi_edges_error fn (f_blocks fn ! p) (block_predecessors fn ! p) i = None"
    "phi_incoming_dominates fn = None" "values_dominate_uses fn = None"
  using assms by (auto simp: verify_function_def phi_incoming_matches_def first_error_None)

lemma values_dominate_uses_None:
  assumes "f_blocks fn \<noteq> []" "build_dominator_tree fn = Some tree"
  shows "values_dominate_uses fn = None \<longleftrightarrow> (\<forall>p<length (f_blocks fn).
    (\<forall>k<length (b_instrs (f_blocks fn ! p)). i_op (b_instrs (f_blocks fn ! p) ! k) \<noteq> ''phi'' \<longrightarrow>
       check_operands fn tree p k (b_instrs (f_blocks fn ! p) ! k) = None) \<and>
    (\<forall>v\<in>set [t_cond (b_term (f_blocks fn ! p)), t_value (b_term (f_blocks fn ! p))].
       dominates_use fn tree p (length (b_instrs (f_blocks fn ! p))) v = None))"
  using assms by (simp add: values_dominate_uses_def first_error_None Let_def Ball_def) blast

lemma phi_incoming_dominates_None:
  assumes "f_blocks fn \<noteq> []" "build_dominator_tree fn = Some tree"
  shows "phi_incoming_dominates fn = None \<longleftrightarrow> (\<forall>b\<in>set (f_blocks fn). \<forall>i\<in>set (b_instrs b). i_op i = ''phi'' \<longrightarrow>
    (\<forall>inc\<in>set (i_incoming i). phi_value_error fn tree b i inc = None))"
  using assms by (simp add: phi_incoming_dominates_def first_error_None) blast

lemma verify_strict:
  assumes "verify_function m fn = None" "ssa fn" "block_names_ok fn"
  shows "strict fn"
proof (cases "f_blocks fn = []")
  case True
  then show ?thesis by (simp add: strict_def instr_at_def)
next
  case False
  note v = verify_function_parts[OF assms(1)]
  obtain tree where tree: "build_dominator_tree fn = Some tree" using build_dominator_tree_total[OF False] by blast
  note use = use_defined[OF assms(2) False assms(3) tree]
  have instrs: "dominates_use fn tree p k v = None"
    if "instr_at fn p k = Some i" "i_op i \<noteq> ''phi''" "v \<in> set (direct_reads i)" for p k i v
  proof -
    have p: "p < length (f_blocks fn)" "k < length (b_instrs (f_blocks fn ! p))" and i: "b_instrs (f_blocks fn ! p) ! k = i"
      using that(1) by (auto simp: instr_at_def split: if_splits)
    from v(3)[unfolded values_dominate_uses_None[OF False tree], rule_format, OF p(1), THEN conjunct1, rule_format, OF p(2)]
    have "check_operands fn tree p k i = None" using that(2) unfolding i by simp
    with that(3) show ?thesis by (auto simp: check_operands_def direct_reads_def first_error_None)
  qed
  have terms: "dominates_use fn tree p (length (b_instrs (f_blocks fn ! p))) v = None"
    if "p < length (f_blocks fn)" "v \<in> set (term_reads (b_term (f_blocks fn ! p)))" for p v
  proof -
    have "v \<in> set [t_cond (b_term (f_blocks fn ! p)), t_value (b_term (f_blocks fn ! p))]"
      using that(2) by (auto simp: term_reads_def)
    from v(3)[unfolded values_dominate_uses_None[OF False tree], rule_format, OF that(1), THEN conjunct2, rule_format, OF this]
    show ?thesis .
  qed
  have phis: "phi_value_error fn tree (f_blocks fn ! p) i inc = None"
    if "instr_at fn p k = Some i" "i_op i = ''phi''" "inc \<in> set (i_incoming i)" for p k i inc
  proof -
    have "f_blocks fn ! p \<in> set (f_blocks fn)" "i \<in> set (b_instrs (f_blocks fn ! p))"
      using that(1) by (auto simp: instr_at_def split: if_splits)
    with v(2) that(2,3) show ?thesis unfolding phi_incoming_dominates_None[OF False tree] by blast
  qed
  show ?thesis unfolding strict_def
  proof (intro conjI allI impI ballI)
    fix p k i assume i: "instr_at fn p k = Some i"
    then have p: "p < length (f_blocks fn)" "i \<in> set (b_instrs (f_blocks fn ! p))" by (auto simp: instr_at_def split: if_splits)
    have "\<exists>q. positions (f_blocks fn) (in_block inc) = Some q \<and> defined_before fn (v_name (in_value inc)) (end_point fn q)"
      if "i_op i = ''phi''" "inc \<in> set (i_incoming i)" for inc
    proof -
      from phi_edges_accepted(1)[OF v(1)[OF p that(1)] that(2)] obtain q where
        "positions (f_blocks fn) (in_block inc) = Some q" by blast
      with incoming_defined[OF assms(2) False assms(3) tree this phis[OF i that]] show ?thesis by blast
    qed
    then show "if i_op i = ''phi''
      then \<forall>inc\<in>set (i_incoming i). \<exists>q. positions (f_blocks fn) (in_block inc) = Some q \<and>
             defined_before fn (v_name (in_value inc)) (end_point fn q)
      else \<forall>v\<in>set (direct_reads i). defined_before fn (v_name v) (p, k)"
      using use[OF p(1) instrs[OF i]] by simp
  next
    fix p v assume "p < length (f_blocks fn)" "v \<in> set (term_reads (b_term (f_blocks fn ! p)))"
    from use[OF this(1) terms[OF this]] show "defined_before fn (v_name v) (end_point fn p)" by (simp add: end_point_def)
  qed
qed

section \<open>The verifier ends\<close>

definition ends :: "verify_error option \<Rightarrow> bool" where
  "ends e \<longleftrightarrow> e \<noteq> Some Overrun"

lemma ends_simps [simp]: "ends None" "ends (Some e) \<longleftrightarrow> e \<noteq> Overrun"
  by (simp_all add: ends_def)

lemma ends_first [intro]: "(\<And>x. x \<in> set xs \<Longrightarrow> ends (f x)) \<Longrightarrow> ends (first_error f xs)"
  by (induction xs) (auto simp: first_error.simps ends_def split: option.splits)

lemma ends_either [intro]: "ends a \<Longrightarrow> ends b \<Longrightarrow> ends (either_error a b)"
  by (auto simp: either_error_def ends_def split: option.splits)

lemma value_defining_blocks_bound: "value_defining_blocks fn x = Some (d, k) \<Longrightarrow> d < length (f_blocks fn)"
proof -
  assume "value_defining_blocks fn x = Some (d, k)"
  then have "(x, (d, k)) \<in> set (definitions_in fn)"
    using map_of_SomeD[of "rev (definitions_in fn)" x "(d, k)"] by (simp add: value_defining_blocks_def definitions_in_def)
  then show ?thesis by (auto simp: in_definitions instr_at_def split: if_splits)
qed

lemma ends_uses:
  assumes "f_blocks fn \<noteq> []" "build_dominator_tree fn = Some tree"
  shows "p < length (f_blocks fn) \<Longrightarrow> ends (dominates_use fn tree p k v)" "ends (phi_value_error fn tree b i inc)"
proof -
  have total: "\<exists>a. dominates tree d q = Some a" if "value_defining_blocks fn x = Some (d, j)" "q < length (f_blocks fn)" for x d j q
    using dominates_sound[OF assms(1) value_defining_blocks_bound[OF that(1)] that(2) assms(2)] by auto
  show "ends (dominates_use fn tree p k v)" if "p < length (f_blocks fn)"
  proof (cases "value_defining_blocks fn (v_name v)")
    case (Some dj)
    then show ?thesis using total[of "v_name v" "fst dj" "snd dj" p] that
      by (cases dj) (auto simp: dominates_use_def Let_def split: bool.splits)
  qed (simp add: dominates_use_def)
  show "ends (phi_value_error fn tree b i inc)"
  proof (cases "value_defining_blocks fn (v_name (in_value inc))")
    case (Some dj)
    show ?thesis
    proof (cases "positions (f_blocks fn) (in_block inc)")
      case q: (Some q)
      then show ?thesis using total[of "v_name (in_value inc)" "fst dj" "snd dj" q] Some positions_Some[OF q]
        by (cases dj) (auto simp: phi_value_error_def split: bool.splits)
    qed (cases dj, simp add: phi_value_error_def Some)
  qed (simp add: phi_value_error_def)
qed

lemma ends_arguments: "ends (arguments_error (\<lambda>k. WrongType fn b (s k)) params args)"
  unfolding arguments_error_def by (rule ends_first) auto

lemma ends_instr: "ends (instr_error m fn b i)"
proof -
  have "ends (struct_literal_error m fn b i)"
    unfolding struct_literal_error_def Let_def by (intro ends_first) simp
  moreover have "ends (union_payload_error m fn b i)" "ends (success_wrap_error fn b i)"
    by (simp_all add: union_payload_error_def success_wrap_error_def split: option.splits list.splits)
  moreover have "ends (indirect_call_error fn b i)"
    using ends_arguments by (simp add: indirect_call_error_def split: option.splits list.splits)
  moreover have "ends (call_error m fn b callee i)" for callee
    using ends_arguments by (simp add: call_error_def split: option.splits)
  ultimately show ?thesis by (simp add: instr_error_def split: option.splits)
qed

lemma ends_block: "ends (terminator_error fn b)" "ends (phi_edges_error fn b preds i)"
  unfolding terminator_error_def phi_edges_error_def Let_def
  by (auto intro!: ends_first ends_either split: option.splits)

lemma verify_no_overrun: "verify_function m fn \<noteq> Some Overrun"
proof -
  have phis: "ends (phi_incoming_dominates fn)"
  proof (cases "f_blocks fn = []")
    case False
    then obtain tree where "build_dominator_tree fn = Some tree" using build_dominator_tree_total by blast
    then show ?thesis using ends_uses(2)[OF False] False
      by (auto simp: phi_incoming_dominates_def intro!: ends_first)
  qed (simp add: phi_incoming_dominates_def)
  have uses: "ends (values_dominate_uses fn)"
  proof (cases "f_blocks fn = []")
    case False
    then obtain tree where tree: "build_dominator_tree fn = Some tree" using build_dominator_tree_total by blast
    have "ends (check_operands fn tree p k i)" if "p < length (f_blocks fn)" for p k i
      unfolding check_operands_def using ends_uses(1)[OF False tree that] by (intro ends_first ends_either)
    then show ?thesis using ends_uses(1)[OF False tree] False tree
      by (auto simp: values_dominate_uses_def Let_def intro!: ends_first ends_either)
  qed (simp add: values_dominate_uses_def)
  have "ends (verify_function m fn)"
    unfolding verify_function_def phi_incoming_matches_def
    using ends_instr ends_block phis uses by (intro ends_first ends_either)
  then show ?thesis by (simp add: ends_def)
qed

section \<open>No undefined value is read\<close>

lemma reach_defined:
  assumes "reach m fn (start args s) \<sigma>" "instr_at fn p k = Some i" "v_name (i_result i) = x" "x \<noteq> []"
  shows "st_env \<sigma> x \<noteq> None \<or> avoids fn (p, k) (point_of \<sigma>)"
  using assms(1)
proof (induction rule: reach.induct)
  case here
  then show ?case by (simp add: start_def point_of_def avoids.entry)
next
  case (further \<sigma> \<tau>)
  note edge = step_edge[OF further.hyps(2)]
  from further.hyps(2) show ?case
  proof (cases rule: step_cases)
    case (instr j y s')
    show ?thesis
    proof (cases "point_of \<sigma> = (p, k)")
      case True
      then have "j = i" using instr(1) assms(2) by (simp add: current_instr_def point_of_def)
      then show ?thesis using instr assms(3,4) by (simp add: bind_result_def)
    next
      case False
      then show ?thesis using further.IH avoids.onward[OF _ False edge] instr by (auto simp: bind_result_def)
    qed
  next
    case (jump target q)
    then have "point_of \<sigma> \<noteq> (p, k)" using assms(2) by (auto simp: current_instr_def point_of_def)
    then show ?thesis using further.IH avoids.onward[OF _ _ edge] jump by auto
  qed
qed

lemma defined_before_bound:
  assumes "reach m fn (start args s) \<sigma>" "defined_before fn x (point_of \<sigma>)" "x \<in> set (results fn)"
  shows "st_env \<sigma> x \<noteq> None"
proof -
  from assms(3) obtain i where "i \<in> set (all_instrs fn)" "v_name (i_result i) = x" "x \<noteq> []" by (auto simp: results_def)
  moreover from this in_all_instrs obtain p k where "instr_at fn p k = Some i" by blast
  ultimately show ?thesis using reach_defined[OF assms(1)] assms(2) unfolding defined_before_def by blast
qed

text \<open>The block a state came from jumps to the one it is in.\<close>

lemma reach_came_from:
  "reach m fn (start args s) \<sigma> \<Longrightarrow> st_from \<sigma> = [] \<and> st_block \<sigma> = 0 \<or>
    (\<exists>\<rho>. reach m fn (start args s) \<rho> \<and> st_block \<rho> < length (f_blocks fn) \<and> point_of \<rho> = end_point fn (st_block \<rho>) \<and>
       b_name (f_blocks fn ! st_block \<rho>) = st_from \<sigma> \<and> st_env \<rho> = st_entry \<sigma> \<and>
       edge fn (point_of \<rho>) (st_block \<sigma>, 0))"
proof (induction rule: reach.induct)
  case here
  then show ?case by (simp add: start_def)
next
  case (further \<sigma> \<tau>)
  note edge = step_edge[OF further.hyps(2)]
  from further.hyps(2) show ?case
  proof (cases rule: step_cases)
    case (instr i x s')
    with further.IH show ?thesis by auto
  next
    case (jump target p)
    have "point_of \<sigma> = end_point fn (st_block \<sigma>)"
      using jump(1,2) reach_entered[OF further.hyps(1)]
      by (auto simp: current_instr_def instr_at_def point_of_def end_point_def split: if_splits)
    moreover have "edge fn (point_of \<sigma>) (st_block \<tau>, 0)" using edge jump by (simp add: point_of_def)
    ultimately show ?thesis using jump further.hyps(1) by (intro disjI2 exI[of _ \<sigma>]) auto
  qed
qed

text \<open>
  What a state is about to read: a value that some instruction defines has been defined, and
  a phi has a value for the block control came from.
\<close>

definition bound_value :: "func \<Rightarrow> 'v env \<Rightarrow> ir_value \<Rightarrow> bool" where
  "bound_value fn env v \<longleftrightarrow> v_name v \<in> set (results fn) \<longrightarrow> env (v_name v) \<noteq> None"

definition reads_bound :: "func \<Rightarrow> ('v, 's) state \<Rightarrow> bool" where
  "reads_bound fn \<sigma> \<longleftrightarrow> (case current_instr fn \<sigma> of
     Some i \<Rightarrow>
       if i_op i = ''phi''
       then (case find (\<lambda>inc. in_block inc = st_from \<sigma>) (i_incoming i) of
               None \<Rightarrow> False | Some inc \<Rightarrow> bound_value fn (st_entry \<sigma>) (in_value inc))
       else list_all (bound_value fn (st_env \<sigma>)) (direct_reads i)
   | None \<Rightarrow> list_all (bound_value fn (st_env \<sigma>)) (term_reads (b_term (f_blocks fn ! st_block \<sigma>))))"

definition no_entry_phi :: "func \<Rightarrow> bool" where
  "no_entry_phi fn \<longleftrightarrow> (case f_blocks fn of [] \<Rightarrow> False | b # _ \<Rightarrow> list_all (\<lambda>i. i_op i \<noteq> ''phi'') (b_instrs b))"

lemma phi_bound:
  assumes v: "verify_function M fn = None" "ssa fn" "block_names_ok fn" "no_entry_phi fn"
    and r: "reach m fn (start args s) \<sigma>" and i: "current_instr fn \<sigma> = Some i" "i_op i = ''phi''"
  shows "\<exists>inc. find (\<lambda>inc. in_block inc = st_from \<sigma>) (i_incoming i) = Some inc \<and>
    bound_value fn (st_entry \<sigma>) (in_value inc)"
proof -
  let ?p = "st_block \<sigma>"
  have at: "instr_at fn ?p (st_step \<sigma>) = Some i" using i(1) by (simp add: current_instr_def)
  then have p: "?p < length (f_blocks fn)" "i \<in> set (b_instrs (f_blocks fn ! ?p))" by (auto simp: instr_at_def split: if_splits)
  have "?p \<noteq> 0"
    using v(4) p i(2) by (cases "f_blocks fn"; cases "st_block \<sigma>") (auto simp: no_entry_phi_def list_all_iff)
  with reach_came_from[OF r] obtain \<rho> where \<rho>: "reach m fn (start args s) \<rho>" "st_block \<rho> < length (f_blocks fn)"
    "point_of \<rho> = end_point fn (st_block \<rho>)" "b_name (f_blocks fn ! st_block \<rho>) = st_from \<sigma>" "st_env \<rho> = st_entry \<sigma>"
    "edge fn (point_of \<rho>) (?p, 0)" by blast
  have "?p \<in> set (succ_positions fn (st_block \<rho>))"
    using edge_successor[OF \<rho>(6)[unfolded \<rho>(3) end_point_def] _ v(3)] by auto
  then have "st_block \<rho> \<in> set (block_predecessors fn ! ?p)" using predecessors_iff[OF p(1)] \<rho>(2) by simp
  with phi_edges_accepted(2)[OF verify_function_parts(1)[OF v(1) p i(2)]] obtain inc0 where
    inc0: "inc0 \<in> set (i_incoming i)" "positions (f_blocks fn) (in_block inc0) = Some (st_block \<rho>)" by blast
  then have name: "in_block inc0 = st_from \<sigma>" using positions_Some[OF inc0(2)] \<rho>(4) by simp
  obtain inc where inc: "find (\<lambda>inc. in_block inc = st_from \<sigma>) (i_incoming i) = Some inc"
    using inc0(1) name by (cases "find (\<lambda>inc. in_block inc = st_from \<sigma>) (i_incoming i)") (auto simp: find_None_iff)
  then have mem: "inc \<in> set (i_incoming i)" "in_block inc = st_from \<sigma>" by (auto simp: find_Some_iff)
  from verify_strict[OF v(1-3)] at i(2) mem(1) obtain q where
    "positions (f_blocks fn) (in_block inc) = Some q" "defined_before fn (v_name (in_value inc)) (end_point fn q)"
    unfolding strict_def by metis
  then have "defined_before fn (v_name (in_value inc)) (point_of \<rho>)" using inc0(2) name mem(2) \<rho>(3) by simp
  with defined_before_bound[OF \<rho>(1)] \<rho>(5) inc show ?thesis by (auto simp: bound_value_def)
qed

text \<open>
  C10: The verifier does its work, given what it does not check itself: each result is defined
  once (\<open>ssa\<close>), no two blocks share a name (\<open>block_names_ok\<close>) and the entry block has no phi
  (\<open>no_entry_phi\<close>; \<open>entry_phi_accepted\<close> shows that this one is needed). In an accepted function
  of that form no state that any call can reach reads an undefined value: every
  result that the instruction about to run reads, or the terminator, has been computed, and
  a phi has a value, computed before, for the very block control came from. This holds for
  any meaning of the operations.
\<close>
theorem verified_reads_bound:
  assumes "verify_function M fn = None" "ssa fn" "block_names_ok fn" "no_entry_phi fn"
    and "reach m fn (start args s) \<sigma>"
  shows "reads_bound fn \<sigma>"
proof (cases "current_instr fn \<sigma>")
  case None
  have blocks: "st_block \<sigma> < length (f_blocks fn)"
    using reach_came_from[OF assms(5)]
  proof
    assume "st_from \<sigma> = [] \<and> st_block \<sigma> = 0"
    then show ?thesis using assms(4) by (auto simp: no_entry_phi_def split: list.splits)
  next
    assume "\<exists>\<rho>. reach m fn (start args s) \<rho> \<and> st_block \<rho> < length (f_blocks fn) \<and> point_of \<rho> = end_point fn (st_block \<rho>) \<and>
       b_name (f_blocks fn ! st_block \<rho>) = st_from \<sigma> \<and> st_env \<rho> = st_entry \<sigma> \<and> edge fn (point_of \<rho>) (st_block \<sigma>, 0)"
    then obtain q where "edge fn (end_point fn q) (st_block \<sigma>, 0)" by metis
    then have "st_block \<sigma> \<in> set (succ_positions fn q)"
      using edge_successor[of fn q _ "(st_block \<sigma>, 0)"] assms(3) by (auto simp: end_point_def)
    then show ?thesis using succ_positions_bound[of fn q] by auto
  qed
  have "point_of \<sigma> = end_point fn (st_block \<sigma>)"
    using None blocks reach_entered[OF assms(5)]
    by (auto simp: current_instr_def instr_at_def point_of_def end_point_def split: if_splits)
  then have "defined_before fn (v_name v) (point_of \<sigma>)" if "v \<in> set (term_reads (b_term (f_blocks fn ! st_block \<sigma>)))" for v
    using verify_strict[OF assms(1-3)] blocks that by (simp add: strict_def)
  then show ?thesis using None defined_before_bound[OF assms(5)]
    by (auto simp: reads_bound_def bound_value_def list_all_iff)
next
  case (Some i)
  show ?thesis
  proof (cases "i_op i = ''phi''")
    case True
    with phi_bound[OF assms Some True] Some show ?thesis by (auto simp: reads_bound_def)
  next
    case False
    have "defined_before fn (v_name v) (point_of \<sigma>)" if "v \<in> set (direct_reads i)" for v
      using verify_strict[OF assms(1-3)] Some False that unfolding strict_def current_instr_def point_of_def by metis
    then show ?thesis using Some False defined_before_bound[OF assms(5)]
      by (auto simp: reads_bound_def bound_value_def list_all_iff)
  qed
qed

definition join_example :: func where
  "join_example = function_of [\<lparr>p_name = ''a'', p_type = ''i64'', p_passing = PassValue\<rparr>] ''i64''
     [block_of ''entry'' [binary_i64 ''%1'' ''bool'' ''binary.<'' ''a'' ''a'']
        ((new_term ''branch'')\<lparr>t_cond := typed ''%1'' ''bool'', t_target := ''left'', t_else := ''right''\<rparr>),
      block_of ''left'' [const_i64 ''%2'' ''7''] ((new_term ''jump'')\<lparr>t_target := ''join''\<rparr>),
      block_of ''right'' [const_i64 ''%3'' ''5''] ((new_term ''jump'')\<lparr>t_target := ''join''\<rparr>),
      block_of ''join''
        [(new_instr (typed ''%4'' ''i64'') ''phi'')\<lparr>i_incoming :=
           [\<lparr>in_block = ''left'', in_value = typed ''%2'' ''i64''\<rparr>, \<lparr>in_block = ''right'', in_value = typed ''%3'' ''i64''\<rparr>]\<rparr>,
         binary_i64 ''%5'' ''i64'' ''binary.+'' ''%4'' ''a'']
        (return_of ''%5'' ''i64'')]"

definition one_function :: "func \<Rightarrow> module" where
  "one_function fn = \<lparr>m_structs = Map.empty, m_enums = Map.empty, m_error_sets = [], m_unions = Map.empty,
     m_functions = [fn], m_externs = Map.empty\<rparr>"

text \<open>The states a run passes.\<close>

primrec steps :: "nat \<Rightarrow> ('v, 's) machine \<Rightarrow> func \<Rightarrow> ('v, 's) state \<Rightarrow> ('v, 's) state" where
  "steps 0 m fn \<sigma> = \<sigma>"
| "steps (Suc n) m fn \<sigma> = (case step m fn \<sigma> of Go \<tau> \<Rightarrow> steps n m fn \<tau> | _ \<Rightarrow> \<sigma>)"

lemma reach_steps: "reach m fn \<sigma>0 \<sigma> \<Longrightarrow> reach m fn \<sigma>0 (steps n m fn \<sigma>)"
  by (induction n arbitrary: \<sigma>) (auto intro: reach.further split: progress.splits)

theorem verified_reads_bound_witness:
  "reads_bound join_example (steps 4 bare_machine join_example (start (call_env join_example [IntV 1]) ())) \<and>
   st_block (steps 4 bare_machine join_example (start (call_env join_example [IntV 1]) ())) = 3"
proof
  have "verify_function (one_function join_example) join_example = None" by code_simp
  moreover have "ssa join_example" "block_names_ok join_example" "no_entry_phi join_example" by code_simp+
  ultimately show "reads_bound join_example (steps 4 bare_machine join_example (start (call_env join_example [IntV 1]) ()))"
    by (rule verified_reads_bound[OF _ _ _ _ reach_steps[OF reach.here]])
  show "st_block (steps 4 bare_machine join_example (start (call_env join_example [IntV 1]) ())) = 3" by code_simp
qed

text \<open>
  C12: The dominator tree of a function with blocks is always built: the iteration over
  reverse postorder settles, whatever the loops. The tree answers every question about two
  blocks, and when it answers that one dominates the other, every path of control from the
  entry to the other passes through the one.
\<close>
theorem dominator_tree_sound:
  assumes "f_blocks fn \<noteq> []" "d < length (f_blocks fn)" "b < length (f_blocks fn)"
  shows "\<exists>tree v. build_dominator_tree fn = Some tree \<and> dominates tree d b = Some v \<and>
    (v \<longrightarrow> block_path fn ps b \<longrightarrow> d \<in> set (b # ps))"
proof -
  obtain tree where "build_dominator_tree fn = Some tree" using build_dominator_tree_total[OF assms(1)] by blast
  with dominates_sound[OF assms this] show ?thesis by blast
qed

theorem dominator_tree_sound_witness:
  "\<exists>tree v. build_dominator_tree join_example = Some tree \<and> dominates tree 0 3 = Some v \<and>
    (v \<longrightarrow> block_path join_example [1, 0] 3 \<longrightarrow> (0::nat) \<in> set (3 # [1, 0]))"
  by (rule dominator_tree_sound) code_simp+

text \<open>
  C13: The verifier ends on every module, whatever its blocks and terminators: it answers
  that the module is accepted or names an error of it, and none of its walks through the
  dominator tree leaves the tree or runs on.
\<close>
theorem verify_total: "verify m \<noteq> Some Overrun"
proof -
  have "ends (verify m)"
    unfolding verify_def using verify_no_overrun by (intro ends_first) (simp add: ends_def)
  then show ?thesis by (simp add: ends_def)
qed

text \<open>
  C11: The dominance copy propagation needs is the one the verifier checks. For an accepted
  function that is also in SSA form, with distinct block names, and whose reads carry the types
  of their definitions (three conditions the verifier leaves to lowering), a call that returns a
  value and a memory returns the same after copy propagation, whatever the operations left
  uninterpreted do.
\<close>
theorem verified_copies_preserved:
  assumes "verify_function M fn = None" "ssa fn" "block_names_ok fn" "consistent_types fn"
    and "call_for n m fn vals s = Some r"
  shows "call_for n m (copy_propagate_function fn) vals s = Some r"
  using assms verify_strict[OF assms(1-3)] by (intro copies_preserved) (simp_all add: copy_wf_def)

definition copy_join :: func where
  "copy_join = function_of [\<lparr>p_name = ''a'', p_type = ''i64'', p_passing = PassValue\<rparr>] ''i64''
     [block_of ''entry'' [(new_instr (typed ''%1'' ''i64'') ''id'')\<lparr>i_args := [typed ''a'' ''i64'']\<rparr>]
        ((new_term ''jump'')\<lparr>t_target := ''tail''\<rparr>),
      block_of ''tail'' [binary_i64 ''%2'' ''i64'' ''binary.+'' ''%1'' ''%1''] (return_of ''%2'' ''i64'')]"

theorem verified_copies_preserved_witness:
  "call_for 4 bare_machine (copy_propagate_function copy_join) [IntV 21] () = Some (IntV 42, ())"
proof (rule verified_copies_preserved)
  show "verify_function (one_function copy_join) copy_join = None" by code_simp
  show "ssa copy_join" "block_names_ok copy_join" "consistent_types copy_join" by code_simp+
  show "call_for 4 bare_machine copy_join [IntV 21] () = Some (IntV 42, ())" by code_simp
qed

section \<open>What the verifier does not see\<close>

text \<open>
  A phi of the entry block has no value when the function is entered: the verifier counts the
  edges from blocks only and accepts it.
\<close>

definition entry_phi_example :: func where
  "entry_phi_example = function_of [] ''i64''
     [block_of ''entry'' [(new_instr (typed ''%1'' ''i64'') ''phi'')\<lparr>i_incoming :=
         [\<lparr>in_block = ''entry'', in_value = typed ''%1'' ''i64''\<rparr>]\<rparr>]
        ((new_term ''jump'')\<lparr>t_target := ''entry''\<rparr>)]"

lemma entry_phi_accepted:
  "verify_function (one_function entry_phi_example) entry_phi_example = None"
  "case step bare_machine entry_phi_example (start Map.empty ()) of Stuck \<Rightarrow> True | _ \<Rightarrow> False"
  by code_simp+

text \<open>Two edges from one block and one from another match two incomings of the other.\<close>

definition uneven_phi_example :: func where
  "uneven_phi_example = function_of [\<lparr>p_name = ''c'', p_type = ''bool'', p_passing = PassValue\<rparr>] ''i64''
     [block_of ''entry'' []
        ((new_term ''branch'')\<lparr>t_cond := typed ''c'' ''bool'', t_target := ''twice'', t_else := ''once''\<rparr>),
      block_of ''twice'' []
        ((new_term ''branch'')\<lparr>t_cond := typed ''c'' ''bool'', t_target := ''join'', t_else := ''join''\<rparr>),
      block_of ''once'' [] ((new_term ''jump'')\<lparr>t_target := ''join''\<rparr>),
      block_of ''join'' [(new_instr (typed ''%1'' ''i64'') ''phi'')\<lparr>i_incoming :=
         [\<lparr>in_block = ''twice'', in_value = typed ''1'' ''i64''\<rparr>, \<lparr>in_block = ''once'', in_value = typed ''2'' ''i64''\<rparr>,
          \<lparr>in_block = ''once'', in_value = typed ''3'' ''i64''\<rparr>]\<rparr>] (return_of ''%1'' ''i64'')]"

lemma uneven_phi_accepted:
  "verify_function (one_function uneven_phi_example) uneven_phi_example = None"
  "block_predecessors uneven_phi_example ! 3 = [1, 1, 2]"
  by code_simp+

end
