(* ===== verification/Phi_Fold.thy ===== *)
theory Phi_Fold
  imports Verify Thin
begin

text \<open>
  foldTrivialPhis (internal/ir/simplify.go) with replaceFunctionValues (internal/ir/inline.go):
  a phi whose incoming values are one value, apart from the phi itself, goes, and its reads
  become reads of that value, until no such phi is left. Following a replacement that is
  itself replaced is a loop in the code; \<open>resolve\<close> gives it one step for each replacement and
  answers None where the loop would not end. \<open>phi_rounds\<close> shows that it ends for the functions
  the verifier accepts.
\<close>

section \<open>The pass\<close>

primrec only_value :: "name \<Rightarrow> ir_value option \<Rightarrow> ir_value list \<Rightarrow> ir_value option" where
  "only_value x only [] = only"
| "only_value x only (v # vs) =
     (if v_name v = x then only_value x only vs
      else (case only of
              None \<Rightarrow> only_value x (Some v) vs
            | Some u \<Rightarrow> if v_name u \<noteq> v_name v then None else only_value x (Some v) vs))"

definition trivial_phi_value :: "instr \<Rightarrow> ir_value option" where
  "trivial_phi_value i =
     (if i_op i \<noteq> ''phi'' \<or> i_incoming i = [] then None
      else only_value (v_name (i_result i)) None (map in_value (i_incoming i)))"

type_synonym replacements = "(name \<times> ir_value) list"

text \<open>A later entry for a name takes the place of an earlier one, as in the code's map.\<close>

definition lookup_last :: "replacements \<Rightarrow> copies" where
  "lookup_last reps = map_of (rev reps)"

primrec resolve :: "nat \<Rightarrow> copies \<Rightarrow> ir_value \<Rightarrow> ir_value option" where
  "resolve 0 cs v = (case cs (v_name v) of None \<Rightarrow> Some v | Some _ \<Rightarrow> None)"
| "resolve (Suc n) cs v = (case cs (v_name v) of None \<Rightarrow> Some v | Some w \<Rightarrow> resolve n cs w)"

definition function_reads :: "func \<Rightarrow> ir_value list" where
  "function_reads fn = concat (map (\<lambda>b. concat (map instr_reads (b_instrs b)) @ term_reads (b_term b)) (f_blocks fn))"

definition map_function_reads :: "(ir_value \<Rightarrow> ir_value) \<Rightarrow> func \<Rightarrow> func" where
  "map_function_reads f fn =
     fn\<lparr>f_blocks := map (\<lambda>b. b\<lparr>b_instrs := map (map_reads f) (b_instrs b), b_term := map_term_reads f (b_term b)\<rparr>) (f_blocks fn)\<rparr>"

definition replace_function_values :: "replacements \<Rightarrow> func \<Rightarrow> func option" where
  "replace_function_values reps fn =
     (let res = resolve (length reps) (lookup_last reps)
      in if list_all (\<lambda>v. res v \<noteq> None) (function_reads fn)
         then Some (map_function_reads (\<lambda>v. the (res v)) fn) else None)"

definition trivial_phis :: "func \<Rightarrow> replacements" where
  "trivial_phis fn =
     List.map_filter (\<lambda>i. map_option (Pair (v_name (i_result i))) (trivial_phi_value i)) (all_instrs fn)"

definition drop_trivial_phis :: "func \<Rightarrow> func" where
  "drop_trivial_phis fn =
     fn\<lparr>f_blocks := map (\<lambda>b. b\<lparr>b_instrs := filter (\<lambda>i. trivial_phi_value i = None) (b_instrs b)\<rparr>) (f_blocks fn)\<rparr>"

lemma drop_all_instrs: "all_instrs (drop_trivial_phis fn) = filter (\<lambda>i. trivial_phi_value i = None) (all_instrs fn)"
  by (simp add: all_instrs_def drop_trivial_phis_def filter_concat comp_def)

lemma map_reads_all_instrs: "all_instrs (map_function_reads f fn) = map (map_reads f) (all_instrs fn)"
  by (simp add: all_instrs_def map_function_reads_def map_concat comp_def)

lemma trivial_phis_empty: "trivial_phis fn = [] \<longleftrightarrow> (\<forall>i\<in>set (all_instrs fn). trivial_phi_value i = None)"
  by (auto simp: trivial_phis_def List.map_filter_def filter_empty_conv)

function fold_trivial_phis :: "func \<Rightarrow> func option" where
  "fold_trivial_phis fn =
     (let reps = trivial_phis fn; fn1 = drop_trivial_phis fn
      in if reps = [] then Some fn1
         else (case replace_function_values reps fn1 of
                 None \<Rightarrow> None
               | Some fn2 \<Rightarrow> fold_trivial_phis fn2))"
  by pat_completeness auto
termination
proof (relation "measure (\<lambda>fn. length (all_instrs fn))", simp)
  fix fn fn2 reps fn1
  assume "reps = trivial_phis fn" "fn1 = drop_trivial_phis fn" "reps \<noteq> []" "replace_function_values reps fn1 = Some fn2"
  then have "length (all_instrs fn2) = length (filter (\<lambda>i. trivial_phi_value i = None) (all_instrs fn))"
    and "\<exists>i\<in>set (all_instrs fn). trivial_phi_value i \<noteq> None"
    by (auto simp: replace_function_values_def Let_def map_reads_all_instrs drop_all_instrs trivial_phis_empty split: if_splits)
  then show "(fn2, fn) \<in> measure (\<lambda>fn. length (all_instrs fn))"
    by (auto simp: length_filter_less)
qed

declare fold_trivial_phis.simps [simp del]

section \<open>Phis with one value for each edge\<close>

definition incoming_from :: "instr \<Rightarrow> name \<Rightarrow> incoming list" where
  "incoming_from i b = filter (\<lambda>inc. in_block inc = b) (i_incoming i)"

definition phi_exact :: "func \<Rightarrow> bool" where
  "phi_exact fn \<longleftrightarrow>
     list_all (\<lambda>b. list_all (\<lambda>i. i_op i = ''phi'' \<longrightarrow>
       list_all (\<lambda>c. length (incoming_from i (b_name c)) =
           length (filter (\<lambda>x. x = b_name b) (successors (b_term c)))) (f_blocks fn))
     (b_instrs b)) (f_blocks fn)"

definition phi_types :: "func \<Rightarrow> bool" where
  "phi_types fn \<longleftrightarrow>
     list_all (\<lambda>i. i_op i = ''phi'' \<longrightarrow>
       list_all (\<lambda>inc. v_type (in_value inc) = v_type (i_result i)) (i_incoming i)) (all_instrs fn)"

definition phi_wf :: "func \<Rightarrow> bool" where
  "phi_wf fn \<longleftrightarrow> copy_wf fn \<and> no_entry_phi fn \<and> phi_exact fn \<and> phi_types fn \<and>
     (\<forall>p<length (f_blocks fn). reachable_point fn (p, 0))"

section \<open>Paths to the start of a block\<close>

inductive avoids_all :: "func \<Rightarrow> point set \<Rightarrow> point \<Rightarrow> bool" for fn D where
  entry_all: "avoids_all fn D (0, 0)"
| onward_all: "avoids_all fn D u \<Longrightarrow> u \<notin> D \<Longrightarrow> edge fn u w \<Longrightarrow> avoids_all fn D w"

inductive_cases avoids_all_last: "avoids_all fn D w"

lemma avoids_all_each: "avoids_all fn D u \<Longrightarrow> d \<in> D \<Longrightarrow> avoids fn d u"
  by (induction rule: avoids_all.induct) (auto intro: avoids.intros)

lemma avoids_all_first:
  assumes "avoids fn e w"
  shows "avoids_all fn {e, w} w"
proof -
  have "avoids_all fn {e, w} u \<or> avoids_all fn {e, w} w" if "avoids fn e u" for u
    using that by (induction rule: avoids.induct) (auto intro: avoids_all.intros)
  from this[OF assms] show ?thesis by blast
qed

lemma avoids_start: "avoids fn e u \<Longrightarrow> avoids fn e (fst u, 0)"
proof (induction rule: avoids.induct)
  case (onward u w)
  show ?case
  proof (cases "snd u < length (b_instrs (f_blocks fn ! fst u))")
    case True
    with onward show ?thesis by (cases u) (auto simp: edge_def)
  next
    case False
    with onward.hyps(3) obtain q where "w = (q, 0)" by (cases u) (auto simp: edge_def)
    with avoids.onward[OF onward.hyps] show ?thesis by simp
  qed
qed (simp add: avoids.entry)

lemma avoids_inner: "avoids fn (p, 0) u \<Longrightarrow> avoids fn (p, k) u \<and> (fst u = p \<longrightarrow> snd u = 0)"
proof (induction rule: avoids.induct)
  case (onward u w)
  then have "fst u \<noteq> p" by (cases u) auto
  then have "u \<noteq> (p, k)" by auto
  with onward have "avoids fn (p, k) w" by (blast intro: avoids.onward)
  moreover have "fst w = p \<longrightarrow> snd w = 0"
    using onward.hyps(3) \<open>fst u \<noteq> p\<close> by (cases u) (auto simp: edge_def split: if_splits)
  ultimately show ?case by blast
qed (simp add: avoids.entry)

lemma avoids_bound: "avoids fn d u \<Longrightarrow> snd u \<le> length (b_instrs (f_blocks fn ! fst u))"
  by (induction rule: avoids.induct) (auto simp: edge_def split: if_splits prod.splits)

lemma reachable_avoids: "reachable_point fn u \<Longrightarrow> avoids fn u u"
  using avoids_either[of fn u u] by blast

lemma edge_start:
  assumes "edge fn u (p, 0)" and "snd u \<le> length (b_instrs (f_blocks fn ! fst u))"
  shows "fst u < length (f_blocks fn) \<and> u = end_point fn (fst u) \<and>
    (\<exists>target\<in>{t_target (b_term (f_blocks fn ! fst u)), t_else (b_term (f_blocks fn ! fst u))}.
       positions (f_blocks fn) target = Some p)"
  using assms by (cases u) (auto simp: edge_def end_point_def split: if_splits)

section \<open>The one value is defined before the phi\<close>

definition copy_before :: "func \<Rightarrow> copies \<Rightarrow> bool" where
  "copy_before fn cs \<longleftrightarrow>
     (\<forall>x w. cs x = Some w \<longrightarrow> (\<exists>p k i. instr_at fn p k = Some i \<and> v_name (i_result i) = x \<and> x \<noteq> [] \<and>
        defined_before fn (v_name w) (p, k)))"

lemma defined_before_trans:
  assumes "defined_before fn x u" and "instr_at fn p k = Some i" "v_name (i_result i) = x" "x \<noteq> []"
    and "defined_before fn y (p, k)"
  shows "defined_before fn y u"
proof -
  have "\<not> avoids fn (p, k) u" using assms(1-4) by (simp add: defined_before_def)
  then have "avoids fn e (p, k)" if "avoids fn e u" for e using avoids_through[OF that] by simp
  with assms(5) show ?thesis unfolding defined_before_def by blast
qed

lemma replaced_before:
  assumes "copy_before fn cs" and "defined_before fn (v_name v) u"
  shows "defined_before fn (v_name (replace_value cs v)) u"
proof (cases "cs (v_name v)")
  case None
  with assms(2) show ?thesis by (simp add: replace_value_def)
next
  case (Some w)
  with assms(1) obtain p k i where "instr_at fn p k = Some i" "v_name (i_result i) = v_name v" "v_name v \<noteq> []"
    "defined_before fn (v_name w) (p, k)" unfolding copy_before_def by blast
  from defined_before_trans[OF assms(2) this] Some show ?thesis by (simp add: replace_value_def)
qed

lemma instr_at_nth: "instr_at fn p k = Some i \<Longrightarrow> p < length (f_blocks fn) \<and> i \<in> set (b_instrs (f_blocks fn ! p))"
  by (auto simp: instr_at_def split: if_splits)

lemma phi_not_entry: "no_entry_phi fn \<Longrightarrow> instr_at fn p k = Some i \<Longrightarrow> i_op i = ''phi'' \<Longrightarrow> p \<noteq> 0"
  by (cases p; cases "f_blocks fn")
    (auto simp: no_entry_phi_def list_all_iff instr_at_def split: if_splits dest: nth_mem)

lemma phi_incoming_exists:
  assumes "phi_exact fn" "block_names_ok fn" "instr_at fn p k = Some i" "i_op i = ''phi''" "q < length (f_blocks fn)"
    and "target \<in> {t_target (b_term (f_blocks fn ! q)), t_else (b_term (f_blocks fn ! q))}"
    and "positions (f_blocks fn) target = Some p"
  shows "incoming_from i (b_name (f_blocks fn ! q)) \<noteq> []"
proof -
  have p: "p < length (f_blocks fn)" "b_name (f_blocks fn ! p) = target" using positions_Some[OF assms(7)] by auto
  then have "target \<noteq> []" using assms(2) unfolding block_names_ok_def by (metis imageI nth_mem)
  then have "target \<in> set (successors (b_term (f_blocks fn ! q)))" using assms(6) by (auto simp: successors_def)
  then have "filter (\<lambda>x. x = b_name (f_blocks fn ! p)) (successors (b_term (f_blocks fn ! q))) \<noteq> []"
    using p(2) by (auto simp: filter_empty_conv)
  moreover have "length (incoming_from i (b_name (f_blocks fn ! q))) =
      length (filter (\<lambda>x. x = b_name (f_blocks fn ! p)) (successors (b_term (f_blocks fn ! q))))"
    using assms(1,4,5) instr_at_nth[OF assms(3)] unfolding phi_exact_def list_all_iff by (meson nth_mem)
  ultimately show ?thesis by auto
qed

lemma phi_incoming_before:
  assumes wf: "phi_wf fn" and at: "instr_at fn p k = Some i" "i_op i = ''phi''" and cs: "copy_before fn cs"
    and q: "q < length (f_blocks fn)" and inc: "inc \<in> set (incoming_from i (b_name (f_blocks fn ! q)))"
  shows "defined_before fn (v_name (replace_value cs (in_value inc))) (end_point fn q)"
proof -
  have inc': "inc \<in> set (i_incoming i)" "in_block inc = b_name (f_blocks fn ! q)"
    using inc by (auto simp: incoming_from_def)
  have "strict fn" using wf by (simp add: phi_wf_def copy_wf_def)
  with at inc'(1) obtain r where r: "positions (f_blocks fn) (in_block inc) = Some r"
    "defined_before fn (v_name (in_value inc)) (end_point fn r)" unfolding strict_def by metis
  have "r = q" using r(1) inc'(2) q positions_distinct[of "f_blocks fn" q] wf
    by (simp add: phi_wf_def copy_wf_def block_names_ok_def)
  with replaced_before[OF cs r(2)] show ?thesis by simp
qed

lemma phi_source_before:
  assumes wf: "phi_wf fn" and at: "instr_at fn p k = Some i" "i_op i = ''phi''" and cs: "copy_before fn cs"
    and vals: "\<And>inc. inc \<in> set (i_incoming i) \<Longrightarrow>
      v_name (replace_value cs (in_value inc)) \<in> {v_name (i_result i), y}"
    and def: "instr_at fn q j = Some d" "v_name (i_result d) = y" "y \<noteq> []"
  shows "\<not> avoids fn (q, j) (p, 0)"
proof
  assume "avoids fn (q, j) (p, 0)"
  from avoids_all_first[OF this] have all: "avoids_all fn {(q, j), (p, 0)} (p, 0)" .
  have "p \<noteq> 0" using wf at by (intro phi_not_entry[OF _ at]) (simp add: phi_wf_def)
  with all obtain u where u: "avoids_all fn {(q, j), (p, 0)} u" "edge fn u (p, 0)"
    by (cases rule: avoids_all_last) auto
  note av = avoids_all_each[OF u(1)]
  from edge_start[OF u(2)] avoids_bound[OF av, of "(p, 0)"] obtain target where
    b: "fst u < length (f_blocks fn)" "u = end_point fn (fst u)"
    "target \<in> {t_target (b_term (f_blocks fn ! fst u)), t_else (b_term (f_blocks fn ! fst u))}"
    "positions (f_blocks fn) target = Some p" by auto
  have "incoming_from i (b_name (f_blocks fn ! fst u)) \<noteq> []"
    using phi_incoming_exists[OF _ _ at b(1,3,4)] wf by (simp add: phi_wf_def copy_wf_def)
  then obtain inc where inc: "inc \<in> set (incoming_from i (b_name (f_blocks fn ! fst u)))"
    using hd_in_set by blast
  from phi_incoming_before[OF wf at cs b(1) inc] b(2)
  have before: "defined_before fn (v_name (replace_value cs (in_value inc))) u" by simp
  have named: "v_name (i_result i) \<noteq> []"
    using wf instr_at_all[OF at(1)] at(2) by (auto simp: phi_wf_def copy_wf_def ssa_def)
  have "avoids fn (p, k) u" using avoids_inner av by blast
  then have "v_name (replace_value cs (in_value inc)) \<noteq> v_name (i_result i)"
    using before at(1) named unfolding defined_before_def by metis
  moreover have "v_name (replace_value cs (in_value inc)) \<noteq> y"
    using before def av unfolding defined_before_def by blast
  ultimately show False using vals[of inc] inc by (auto simp: incoming_from_def)
qed

lemma phi_source_outside:
  assumes wf: "phi_wf fn" and at: "instr_at fn p k = Some i" "i_op i = ''phi''" and cs: "copy_before fn cs"
    and vals: "\<And>inc. inc \<in> set (i_incoming i) \<Longrightarrow>
      v_name (replace_value cs (in_value inc)) \<in> {v_name (i_result i), y}"
    and def: "instr_at fn q j = Some d" "v_name (i_result d) = y" "y \<noteq> []"
  shows "q \<noteq> p"
proof
  assume "q = p"
  have "\<not> avoids fn (p, j) (p, 0)" using phi_source_before[OF assms] \<open>q = p\<close> by simp
  then show False
    using avoids_inner[OF reachable_avoids, of fn p j] instr_at_nth[OF at(1)] wf by (auto simp: phi_wf_def)
qed


section \<open>A trivial phi holds what its one value holds\<close>

text \<open>What no instruction of a block defines is as it was when the block was entered.\<close>

lemma entry_env:
  assumes "reach m fn (start args s) \<sigma>" and "\<And>k i. instr_at fn (st_block \<sigma>) k = Some i \<Longrightarrow> v_name (i_result i) \<noteq> y \<or> y = []"
  shows "st_env \<sigma> y = st_entry \<sigma> y"
  using assms
proof (induction rule: reach.induct)
  case here
  then show ?case by (simp add: start_def)
next
  case (further \<sigma> \<tau>)
  from further.hyps(2) show ?case
  proof (cases rule: step_cases)
    case (instr i x s')
    then have "v_name (i_result i) \<noteq> y \<or> y = []"
      using further.prems[of "st_step \<sigma>" i] by (simp add: current_instr_def)
    with instr further.IH further.prems show ?thesis by (auto simp: bind_result_def)
  next
    case (jump target p)
    then show ?thesis by simp
  qed
qed

lemma operand_same: "env (v_name a) = env' (v_name a) \<Longrightarrow> operand m env a = operand m env' a"
  by (simp add: operand_def)

lemma operand_bound: "env (v_name a) = Some v \<Longrightarrow> operand m env a = Some v"
  by (simp add: operand_def)

definition one_value :: "copies \<Rightarrow> instr \<Rightarrow> ir_value \<Rightarrow> bool" where
  "one_value cs i a \<longleftrightarrow> v_name a \<noteq> v_name (i_result i) \<and>
     (\<forall>inc\<in>set (i_incoming i). v_name (replace_value cs (in_value inc)) = v_name (i_result i) \<or>
        replace_value cs (in_value inc) = a)"

lemma one_value_names:
  "one_value cs i a \<Longrightarrow> inc \<in> set (i_incoming i) \<Longrightarrow>
    v_name (replace_value cs (in_value inc)) \<in> {v_name (i_result i), v_name a}"
  by (auto simp: one_value_def)

lemma one_value_before:
  assumes "phi_wf fn" "instr_at fn p k = Some i" "i_op i = ''phi''" "copy_before fn cs" "one_value cs i a"
  shows "defined_before fn (v_name a) (p, k)"
  unfolding defined_before_def
proof (intro allI impI)
  fix q j d
  assume d: "instr_at fn q j = Some d" "v_name (i_result d) = v_name a" "v_name a \<noteq> []"
  show "\<not> avoids fn (q, j) (p, k)"
    using phi_source_before[OF assms(1-4) one_value_names[OF assms(5)] d] avoids_start[of fn "(q, j)" "(p, k)"] by auto
qed

text \<open>The value the phi takes, read from the environment its block was entered with.\<close>

lemma phi_takes:
  assumes wf: "phi_wf fn" and at: "instr_at fn p k = Some i" "i_op i = ''phi''"
    and cs: "copy_sound m fn (start args s) cs" "copy_before fn cs" "one_value cs i a"
    and \<sigma>: "reach m fn (start args s) \<sigma>" "st_block \<sigma> = p" and x: "phi_value m \<sigma> i = Some x"
    and entry: "\<And>q. q < length (f_blocks fn) \<Longrightarrow> b_name (f_blocks fn ! q) = st_from \<sigma> \<Longrightarrow>
      \<not> avoids fn (p, k) (end_point fn q) \<Longrightarrow>
      \<exists>v. st_entry \<sigma> (v_name (i_result i)) = Some v \<and> operand m (st_entry \<sigma>) a = Some v"
  shows "operand m (st_env \<sigma>) a = Some x"
proof -
  have cwf: "copy_wf fn" using wf by (simp add: phi_wf_def)
  from replace_phi[OF cwf at(1) cs(1) \<sigma>(1) at(2) x] obtain inc where
    inc: "find (\<lambda>inc. in_block inc = st_from \<sigma>) (i_incoming i) = Some inc"
    and val: "operand m (st_entry \<sigma>) (replace_value cs (in_value inc)) = Some x"
    by (auto simp: phi_value_def find_map_incoming map_incoming_def split: option.splits)
  then have mem: "inc \<in> set (i_incoming i)" "in_block inc = st_from \<sigma>" by (auto simp: find_Some_iff)
  have "p \<noteq> 0" using wf by (intro phi_not_entry[OF _ at]) (simp add: phi_wf_def)
  with reach_came_from[OF \<sigma>(1)] \<sigma>(2) obtain q where q: "q < length (f_blocks fn)" "b_name (f_blocks fn ! q) = st_from \<sigma>"
    by blast
  have before: "defined_before fn (v_name (replace_value cs (in_value inc))) (end_point fn q)"
    using mem q(2) by (intro phi_incoming_before[OF wf at cs(2) q(1)]) (simp add: incoming_from_def)
  have named: "v_name (i_result i) \<noteq> []"
    using cwf instr_at_all[OF at(1)] at(2) by (auto simp: copy_wf_def ssa_def)
  have "operand m (st_entry \<sigma>) a = Some x"
  proof (cases "v_name (replace_value cs (in_value inc)) = v_name (i_result i)")
    case True
    with before at(1) named have "\<not> avoids fn (p, k) (end_point fn q)" by (simp add: defined_before_def)
    from entry[OF q this] obtain v where v: "st_entry \<sigma> (v_name (i_result i)) = Some v" "operand m (st_entry \<sigma>) a = Some v"
      by blast
    from operand_bound[of "st_entry \<sigma>" "replace_value cs (in_value inc)" v m] True v val show ?thesis by simp
  next
    case False
    with cs(3) mem(1) val show ?thesis by (auto simp: one_value_def)
  qed
  moreover have "st_env \<sigma> (v_name a) = st_entry \<sigma> (v_name a)"
  proof (rule entry_env[OF \<sigma>(1)])
    fix j d
    assume "instr_at fn (st_block \<sigma>) j = Some d"
    then show "v_name (i_result d) \<noteq> v_name a \<or> v_name a = []"
      using phi_source_outside[OF wf at cs(2) one_value_names[OF cs(3)], of p j d] \<sigma>(2) by auto
  qed
  ultimately show ?thesis using operand_same[of "st_env \<sigma>" a "st_entry \<sigma>" m] by simp
qed

lemma phi_same_value:
  assumes wf: "phi_wf fn" and at: "instr_at fn p k = Some i" "i_op i = ''phi''"
    and cs: "copy_sound m fn (start args s) cs" "copy_before fn cs" "one_value cs i a"
  shows "same_value m fn (start args s) i (p, k) a"
proof -
  let ?same = "\<lambda>env. \<exists>v. env (v_name (i_result i)) = Some v \<and> operand m env a = Some v"
  have cwf: "copy_wf fn" and ssa: "ssa fn" and names: "block_names_ok fn"
    using wf by (simp_all add: phi_wf_def copy_wf_def)
  have named: "v_name (i_result i) \<noteq> []"
    using ssa instr_at_all[OF at(1)] at(2) by (auto simp: ssa_def)
  note before = one_value_before[OF wf at cs(2,3)]
  have "(\<not> avoids fn (p, k) (point_of \<sigma>) \<longrightarrow> ?same (st_env \<sigma>)) \<and>
     (\<forall>q<length (f_blocks fn). b_name (f_blocks fn ! q) = st_from \<sigma> \<longrightarrow> \<not> avoids fn (p, k) (end_point fn q) \<longrightarrow>
        ?same (st_entry \<sigma>))" if "reach m fn (start args s) \<sigma>" for \<sigma>
    using that
  proof (induction rule: reach.induct)
    case here
    have "b_name (f_blocks fn ! q) \<noteq> []" if "q < length (f_blocks fn)" for q
      using names that unfolding block_names_ok_def by (metis imageI nth_mem)
    then show ?case by (auto simp: point_of_def start_def avoids.entry)
  next
    case (further \<sigma> \<tau>)
    have first: "?same (st_env \<tau>)" if notav: "\<not> avoids fn (p, k) (point_of \<tau>)"
    proof (cases "point_of \<sigma> = (p, k)")
      case True
      then have cur: "current_instr fn \<sigma> = Some i" "st_block \<sigma> = p"
        using at(1) by (simp_all add: point_of_def current_instr_def)
      with further.hyps(2) at(2) obtain x where x: "phi_value m \<sigma> i = Some x"
        and \<tau>: "st_env \<tau> = bind_result i x (st_env \<sigma>)"
        by (auto simp: step_instr after_Go exec_def)
      have "operand m (st_env \<sigma>) a = Some x"
        using further.IH by (intro phi_takes[OF wf at cs further.hyps(1) cur(2) x]) blast
      with \<tau> named cs(3) show ?thesis by (simp add: one_value_def bind_result_def operand_def)
    next
      case elsewhere: False
      with further.hyps notav have "\<not> avoids fn (p, k) (point_of \<sigma>)"
        by (meson avoids.onward step_edge)
      with further.IH same_value_step[OF ssa at(1) named before further.hyps elsewhere] show ?thesis by blast
    qed
    from further.hyps(2) show ?case
    proof (cases rule: step_cases)
      case (instr j x s')
      with first further.IH show ?thesis by auto
    next
      case (jump target q)
      have "point_of \<sigma> = end_point fn (st_block \<sigma>)"
        using jump(1,2) reach_entered[OF further.hyps(1)]
        by (auto simp: current_instr_def instr_at_def point_of_def end_point_def split: if_splits)
      moreover have "r = st_block \<sigma>" if "r < length (f_blocks fn)" "b_name (f_blocks fn ! r) = st_from \<tau>" for r
      proof -
        have "distinct (map b_name (f_blocks fn))" using names by (simp add: block_names_ok_def)
        moreover have "st_from \<tau> = b_name (f_blocks fn ! st_block \<sigma>)" using jump(5) by simp
        ultimately show ?thesis
          using that positions_distinct[of "f_blocks fn" r] positions_distinct[OF _ jump(2)] by (metis option.inject)
      qed
      moreover have "st_entry \<tau> = st_env \<sigma>" using jump(5) by simp
      ultimately have "?same (st_entry \<tau>)"
        if "r < length (f_blocks fn)" "b_name (f_blocks fn ! r) = st_from \<tau>" "\<not> avoids fn (p, k) (end_point fn r)" for r
        using that further.IH by metis
      with first show ?thesis by blast
    qed
  qed
  then show ?thesis by (simp add: same_value_def)
qed

section \<open>Following replacements\<close>

lemma resolve_stop: "v_name v \<notin> dom cs \<Longrightarrow> resolve n cs v = Some v"
  by (cases n) (auto simp: domIff)

lemma resolve_result: "resolve n cs v = Some w \<Longrightarrow> v_name w \<notin> dom cs \<and> (w = v \<or> w \<in> ran cs)"
proof (induction n arbitrary: v)
  case 0
  then show ?case by (auto split: option.splits)
next
  case (Suc n)
  then show ?case by (cases "cs (v_name v)") (auto intro: ranI)
qed

lemma resolve_more: "resolve n cs v = Some w \<Longrightarrow> n \<le> n' \<Longrightarrow> resolve n' cs v = Some w"
proof (induction n arbitrary: v n')
  case 0
  then show ?case by (auto simp: resolve_stop domIff split: option.splits)
next
  case (Suc n)
  then obtain k where "n' = Suc k" "n \<le> k" by (cases n') auto
  with Suc show ?case by (auto split: option.splits)
qed

lemma reachable_instr:
  assumes "reachable_point fn (p, 0)" "p < length (f_blocks fn)" "k \<le> length (b_instrs (f_blocks fn ! p))"
  shows "reachable_point fn (p, k)"
  using assms(3)
proof (induction k)
  case (Suc k)
  then have "edge fn (p, k) (p, Suc k)" using assms(2) by (simp add: edge_def)
  with Suc show ?case by (auto intro: next_point)
qed (simp add: assms(1))

text \<open>One replaced name is defined before another.\<close>

definition earlier :: "func \<Rightarrow> copies \<Rightarrow> name \<Rightarrow> name \<Rightarrow> bool" where
  "earlier fn cs y x \<longleftrightarrow> y \<in> dom cs \<and> y \<noteq> x \<and> y \<noteq> [] \<and> x \<noteq> [] \<and>
     (\<exists>q j d p k i. instr_at fn q j = Some d \<and> v_name (i_result d) = y \<and>
        instr_at fn p k = Some i \<and> v_name (i_result i) = x \<and> \<not> avoids fn (q, j) (p, k))"

lemma earlier_trans:
  assumes wf: "ssa fn" "\<forall>p<length (f_blocks fn). reachable_point fn (p, 0)"
    and "earlier fn cs z y" and "earlier fn cs y x"
  shows "earlier fn cs z x"
proof -
  from assms(3) obtain r l e q j d where e: "instr_at fn r l = Some e" "v_name (i_result e) = z" "z \<in> dom cs" "z \<noteq> []"
    and d: "instr_at fn q j = Some d" "v_name (i_result d) = y" "y \<noteq> []" "\<not> avoids fn (r, l) (q, j)" "z \<noteq> y"
    unfolding earlier_def by blast
  from assms(4) obtain q' j' d' p k i where d': "instr_at fn q' j' = Some d'" "v_name (i_result d') = y"
    and i: "instr_at fn p k = Some i" "v_name (i_result i) = x" "x \<noteq> []" "\<not> avoids fn (q', j') (p, k)" "y \<noteq> x"
    unfolding earlier_def by blast
  have "q' = q \<and> j' = j" using ssa_unique[OF wf(1) d(1) d'(1)] d(2,3) d'(2) by simp
  then have notav: "\<not> avoids fn (q, j) (p, k)" using i(4) by simp
  then have "\<not> avoids fn (r, l) (p, k)" using avoids_through[of fn "(r, l)" "(p, k)" "(q, j)"] d(4) by blast
  moreover have "z \<noteq> x"
  proof
    assume "z = x"
    then have "r = p \<and> l = k" using ssa_unique[OF wf(1) e(1) i(1)] e(2,4) i(2) by simp
    moreover have "q < length (f_blocks fn)" "j \<le> length (b_instrs (f_blocks fn ! q))"
      using d(1) by (simp_all add: instr_at_def split: if_splits)
    then have "reachable_point fn (q, j)" using wf(2) reachable_instr by blast
    ultimately show False using avoids_either[of fn "(q, j)" "(p, k)"] notav d(4) by blast
  qed
  ultimately show ?thesis using e i(1-3) unfolding earlier_def by blast
qed

lemma resolve_ends:
  assumes wf: "ssa fn" "\<forall>p<length (f_blocks fn). reachable_point fn (p, 0)"
    and cs: "copy_before fn cs" "finite (dom cs)" "\<And>x w. cs x = Some w \<Longrightarrow> v_name w \<noteq> x"
    and n: "card (dom cs) \<le> n"
  shows "\<exists>w. resolve n cs v = Some w"
proof -
  let ?E = "\<lambda>x. {y. earlier fn cs y x}"
  have fin: "finite (?E x)" for x using cs(2) by (rule finite_subset[rotated]) (auto simp: earlier_def)
  have step: "?E (v_name w) \<subset> ?E x" if w: "cs x = Some w" "v_name w \<in> dom cs" for x w
  proof -
    from cs(1) w(1) obtain p k i where i: "instr_at fn p k = Some i" "v_name (i_result i) = x" "x \<noteq> []"
      "defined_before fn (v_name w) (p, k)" unfolding copy_before_def by blast
    from cs(1) w(2) obtain q j d where d: "instr_at fn q j = Some d" "v_name (i_result d) = v_name w" "v_name w \<noteq> []"
      unfolding copy_before_def by blast
    have "earlier fn cs (v_name w) x"
      using i d w(2) cs(3)[OF w(1)] unfolding earlier_def defined_before_def by blast
    moreover have "\<not> earlier fn cs (v_name w) (v_name w)" by (simp add: earlier_def)
    ultimately show ?thesis using earlier_trans[OF wf] by blast
  qed
  have main: "\<exists>w. resolve n cs v = Some w" if "card (?E (v_name v)) < n" for n v
    using that
  proof (induction n arbitrary: v)
    case (Suc n)
    show ?case
    proof (cases "cs (v_name v)")
      case (Some w)
      show ?thesis
      proof (cases "v_name w \<in> dom cs")
        case True
        from psubset_card_mono[OF fin step[OF Some True]] Suc.prems have "card (?E (v_name w)) < n" by simp
        from Suc.IH[OF this] Some show ?thesis by simp
      qed (simp add: Some resolve_stop)
    qed simp
  qed simp
  show ?thesis
  proof (cases "v_name v \<in> dom cs")
    case True
    have "?E (v_name v) \<subset> dom cs" using True by (auto simp: earlier_def)
    from psubset_card_mono[OF cs(2) this] n show ?thesis by (intro main) simp
  qed (simp add: resolve_stop)
qed

section \<open>Types\<close>

definition typed_read :: "func \<Rightarrow> ir_value \<Rightarrow> bool" where
  "typed_read fn v \<longleftrightarrow>
     (\<forall>i\<in>set (all_instrs fn). v_name (i_result i) = v_name v \<longrightarrow> v_name v \<noteq> [] \<longrightarrow> v_type v = v_type (i_result i))"

definition copy_typed :: "func \<Rightarrow> copies \<Rightarrow> bool" where
  "copy_typed fn cs \<longleftrightarrow> (\<forall>w\<in>ran cs. typed_read fn w)"

lemma replaced_typed: "copy_typed fn cs \<Longrightarrow> typed_read fn v \<Longrightarrow> typed_read fn (replace_value cs v)"
  by (auto simp: replace_value_def copy_typed_def ran_def split: option.splits)

lemma replaced_type: "copy_sound m fn \<sigma>0 cs \<Longrightarrow> typed_read fn v \<Longrightarrow> v_type (replace_value cs v) = v_type v"
  by (rule replace_value_type) (auto simp: typed_read_def)

lemma read_typed: "consistent_types fn \<Longrightarrow> i \<in> set (all_instrs fn) \<Longrightarrow> v \<in> set (instr_reads i) \<Longrightarrow> typed_read fn v"
  unfolding consistent_types_def typed_read_def by metis

section \<open>One round\<close>

text \<open>What following replacements keeps of a source: it is defined before, and holds the same.\<close>

definition stands_in :: "('v, 's) machine \<Rightarrow> func \<Rightarrow> ('v, 's) state \<Rightarrow> instr \<Rightarrow> point \<Rightarrow> ir_value \<Rightarrow> bool" where
  "stands_in m fn \<sigma>0 i d w \<longleftrightarrow> same_value m fn \<sigma>0 i d w \<and> defined_before fn (v_name w) d \<and>
     v_type w = v_type (i_result i) \<and> typed_read fn w"

definition standing :: "('v, 's) machine \<Rightarrow> func \<Rightarrow> ('v, 's) state \<Rightarrow> copies \<Rightarrow> bool" where
  "standing m fn \<sigma>0 cs \<longleftrightarrow>
     (\<forall>x w. cs x = Some w \<longrightarrow> (\<exists>p k i. instr_at fn p k = Some i \<and> v_name (i_result i) = x \<and> x \<noteq> [] \<and>
        stands_in m fn \<sigma>0 i (p, k) w))"

definition replacing :: "('v, 's) machine \<Rightarrow> func \<Rightarrow> ('v, 's) state \<Rightarrow> copies \<Rightarrow> bool" where
  "replacing m fn \<sigma>0 cs \<longleftrightarrow>
     (\<forall>x w. cs x = Some w \<longrightarrow> (\<exists>p k i. instr_at fn p k = Some i \<and> i_op i = ''phi'' \<and> v_name (i_result i) = x \<and> x \<noteq> [] \<and>
        stands_in m fn \<sigma>0 i (p, k) w))"

lemma replacing_standing: "replacing m fn \<sigma>0 cs \<Longrightarrow> standing m fn \<sigma>0 cs"
  unfolding replacing_def standing_def by blast

lemma standing_facts:
  assumes "standing m fn \<sigma>0 cs"
  shows "copy_sound m fn \<sigma>0 cs" and "copy_before fn cs" and "copy_typed fn cs"
  using assms unfolding standing_def stands_in_def copy_sound_def copy_before_def copy_typed_def ran_def by blast+

lemmas replacing_facts = standing_facts[OF replacing_standing]

lemma stands_in_replaced:
  assumes cs: "replacing m fn \<sigma>0 cs" and i: "stands_in m fn \<sigma>0 i (p, k) a"
  shows "stands_in m fn \<sigma>0 i (p, k) (replace_value cs a)"
  using assms same_value_replaced[OF replacing_facts(1)[OF cs], of i p k a]
    replaced_before[OF replacing_facts(2)[OF cs], of a "(p, k)"]
    replaced_type[OF replacing_facts(1)[OF cs], of a] replaced_typed[OF replacing_facts(3)[OF cs], of a]
  by (simp add: stands_in_def)

lemma stands_in_resolved:
  assumes cs: "replacing m fn \<sigma>0 cs"
  shows "stands_in m fn \<sigma>0 i (p, k) a \<Longrightarrow> resolve n cs a = Some w \<Longrightarrow> stands_in m fn \<sigma>0 i (p, k) w"
proof (induction n arbitrary: a)
  case 0
  then show ?case by (auto split: option.splits)
next
  case (Suc n)
  show ?case
  proof (cases "cs (v_name a)")
    case None
    with Suc.prems show ?thesis by simp
  next
    case (Some b)
    have "stands_in m fn \<sigma>0 i (p, k) b"
      using stands_in_replaced[OF cs Suc.prems(1)] Some by (simp add: replace_value_def)
    with Suc Some show ?thesis by simp
  qed
qed

lemma only_value_Some:
  "only_value x only vs = Some a \<Longrightarrow> (\<forall>u. only = Some u \<longrightarrow> v_name u \<noteq> x) \<Longrightarrow>
    v_name a \<noteq> x \<and> a \<in> set vs \<union> set_option only \<and> (\<forall>v\<in>set vs \<union> set_option only. v_name v = x \<or> v_name v = v_name a)"
proof (induction vs arbitrary: only)
  case (Cons v vs)
  show ?case
  proof (cases "v_name v = x")
    case True
    with Cons.IH[of only] Cons.prems show ?thesis by auto
  next
    case False
    then have r: "only_value x (Some v) vs = Some a" "\<forall>u. only = Some u \<longrightarrow> v_name u = v_name v"
      using Cons.prems(1) by (simp_all split: option.splits if_splits)
    have "v_name a \<noteq> x \<and> a \<in> set vs \<union> {v} \<and> (\<forall>u\<in>set vs \<union> {v}. v_name u = x \<or> v_name u = v_name a)"
      using Cons.IH[OF r(1)] False by simp
    moreover have "v_name u = v_name v" if "u \<in> set_option only" for u using that r(2) by simp
    ultimately show ?thesis by (metis Un_iff insert_iff list.set(2) sup_commute singletonD)
  qed
qed auto

lemma trivial_phi_Some:
  assumes "trivial_phi_value i = Some a"
  shows "i_op i = ''phi''" "v_name a \<noteq> v_name (i_result i)" "a \<in> in_value ` set (i_incoming i)"
    "\<And>inc. inc \<in> set (i_incoming i) \<Longrightarrow> v_name (in_value inc) \<in> {v_name (i_result i), v_name a}"
  using assms only_value_Some[of "v_name (i_result i)" None "map in_value (i_incoming i)" a]
  by (auto simp: trivial_phi_value_def split: if_splits)

text \<open>What the rounds so far have made of the function: no replacement leads to another.\<close>

definition without :: "copies \<Rightarrow> func \<Rightarrow> func" where
  "without cs fn =
     thin (\<lambda>i. v_name (i_result i) \<notin> dom cs) (replace_args cs) (replace_terminator_args cs) fn"

definition settled_copies :: "('v, 's) machine \<Rightarrow> func \<Rightarrow> ('v, 's) state \<Rightarrow> copies \<Rightarrow> bool" where
  "settled_copies m fn \<sigma>0 cs \<longleftrightarrow> replacing m fn \<sigma>0 cs \<and> (\<forall>w\<in>ran cs. v_name w \<notin> dom cs)"

lemma without_instrs:
  "all_instrs (without cs fn) =
    map (replace_args cs) (filter (\<lambda>i. v_name (i_result i) \<notin> dom cs) (all_instrs fn))"
  by (simp add: without_def all_instrs_def thin_def map_concat filter_concat comp_def)

lemma in_trivial_phis:
  "(x, a) \<in> set (trivial_phis (without cs fn)) \<longleftrightarrow>
    (\<exists>i\<in>set (all_instrs fn). v_name (i_result i) \<notin> dom cs \<and> v_name (i_result i) = x \<and>
       trivial_phi_value (replace_args cs i) = Some a)"
  by (auto simp: trivial_phis_def List.map_filter_def without_instrs image_iff Bex_def)

lemma trivial_one_value:
  assumes wf: "phi_wf fn" and cs: "replacing m fn \<sigma>0 cs" and i: "i \<in> set (all_instrs fn)"
    and a: "trivial_phi_value (replace_args cs i) = Some a"
  shows "i_op i = ''phi''" and "one_value cs i a" and "v_type a = v_type (i_result i)" and "typed_read fn a"
    and "\<exists>v. a = replace_value cs v"
proof -
  note t = trivial_phi_Some[OF a]
  show phi: "i_op i = ''phi''" using t(1) by simp
  have types: "v_type (in_value inc) = v_type (i_result i)" if "inc \<in> set (i_incoming i)" for inc
    using wf i phi that by (simp add: phi_wf_def phi_types_def list_all_iff)
  have read: "typed_read fn (in_value inc)" if "inc \<in> set (i_incoming i)" for inc
    using wf i that by (intro read_typed[of fn i]) (auto simp: phi_wf_def copy_wf_def instr_reads_def)
  have type: "v_type (replace_value cs (in_value inc)) = v_type (i_result i)" if "inc \<in> set (i_incoming i)" for inc
    using replaced_type[OF replacing_facts(1)[OF cs] read[OF that]] types[OF that] by simp
  from t(3) obtain inc where inc: "inc \<in> set (i_incoming i)" "a = replace_value cs (in_value inc)"
    by (auto simp: map_incoming_def)
  show "v_type a = v_type (i_result i)" using type inc by simp
  show "typed_read fn a" using replaced_typed[OF replacing_facts(3)[OF cs] read[OF inc(1)]] inc(2) by simp
  show "\<exists>v. a = replace_value cs v" using inc(2) by blast
  have "replace_value cs (in_value inc') = a \<or> v_name (replace_value cs (in_value inc')) = v_name (i_result i)"
    if "inc' \<in> set (i_incoming i)" for inc'
    using t(4)[of "map_incoming (replace_value cs) inc'"] that type[OF that] type[OF inc(1)] inc(2)
    by (auto simp: map_incoming_def)
  with t(2) show "one_value cs i a" by (auto simp: one_value_def)
qed

lemma trivial_replacing:
  assumes wf: "phi_wf fn" and cs: "replacing m fn (start args s) cs"
  shows "replacing m fn (start args s) (lookup_last (trivial_phis (without cs fn)))"
  unfolding replacing_def
proof (intro allI impI)
  fix x a
  assume "lookup_last (trivial_phis (without cs fn)) x = Some a"
  then have "(x, a) \<in> set (trivial_phis (without cs fn))" by (auto simp: lookup_last_def dest: map_of_SomeD)
  then obtain i where i: "i \<in> set (all_instrs fn)" "v_name (i_result i) = x"
    "trivial_phi_value (replace_args cs i) = Some a" by (auto simp: in_trivial_phis)
  note t = trivial_one_value[OF wf cs i(1,3)]
  from in_all_instrs[OF i(1)] obtain p k where at: "instr_at fn p k = Some i" by blast
  have "x \<noteq> []" using wf i(1,2) t(1) by (auto simp: phi_wf_def copy_wf_def ssa_def)
  moreover have "same_value m fn (start args s) i (p, k) a"
    by (rule phi_same_value[OF wf at t(1) replacing_facts(1,2)[OF cs] t(2)])
  moreover have "defined_before fn (v_name a) (p, k)"
    by (rule one_value_before[OF wf at t(1) replacing_facts(2)[OF cs] t(2)])
  ultimately show "\<exists>p k i. instr_at fn p k = Some i \<and> i_op i = ''phi'' \<and> v_name (i_result i) = x \<and> x \<noteq> [] \<and>
      stands_in m fn (start args s) i (p, k) a"
    using at i(2) t(1,3,4) unfolding stands_in_def by blast
qed


definition after_round :: "copies \<Rightarrow> replacements \<Rightarrow> copies" where
  "after_round cs reps x =
     (case cs x of
        Some w \<Rightarrow> resolve (length reps) (lookup_last reps) w
      | None \<Rightarrow> (case lookup_last reps x of
                  None \<Rightarrow> None
                | Some a \<Rightarrow> resolve (length reps) (lookup_last reps) a))"

lemma lookup_last_dom: "finite (dom (lookup_last reps))" "card (dom (lookup_last reps)) \<le> length reps"
proof -
  have "dom (lookup_last reps) = set (map fst reps)" by (simp add: lookup_last_def dom_map_of_conv_image_fst)
  then show "finite (dom (lookup_last reps))" "card (dom (lookup_last reps)) \<le> length reps"
    using card_length[of "map fst reps"] by auto
qed

lemma round_resolves:
  assumes wf: "phi_wf fn" and cs: "replacing m fn (start args s) cs" and "reps = trivial_phis (without cs fn)"
  shows "\<exists>w. resolve (length reps) (lookup_last reps) v = Some w"
proof (rule resolve_ends)
  show "ssa fn" "\<forall>p<length (f_blocks fn). reachable_point fn (p, 0)"
    using wf by (simp_all add: phi_wf_def copy_wf_def)
  show "copy_before fn (lookup_last reps)"
    using trivial_replacing[OF wf cs] assms(3) by (auto intro: replacing_facts(2))
  show "finite (dom (lookup_last reps))" "card (dom (lookup_last reps)) \<le> length reps" by (rule lookup_last_dom)+
  fix x w
  assume "lookup_last reps x = Some w"
  then have "(x, w) \<in> set (trivial_phis (without cs fn))" using assms(3) by (auto simp: lookup_last_def dest: map_of_SomeD)
  then obtain i where "v_name (i_result i) = x" "trivial_phi_value (replace_args cs i) = Some w"
    by (auto simp: in_trivial_phis)
  with trivial_phi_Some(2)[of "replace_args cs i" w] show "v_name w \<noteq> x" by simp
qed

lemma round_dom:
  assumes "phi_wf fn" "replacing m fn (start args s) cs" "reps = trivial_phis (without cs fn)"
  shows "dom (after_round cs reps) = dom cs \<union> dom (lookup_last reps)"
proof -
  have "resolve (length reps) (lookup_last reps) v \<noteq> None" for v using round_resolves[OF assms, of v] by auto
  then show ?thesis by (auto simp: after_round_def domIff split: option.splits)
qed

lemma replaced_not_copied: "settled_copies m fn \<sigma>0 cs \<Longrightarrow> v_name (replace_value cs v) \<notin> dom cs"
  by (auto simp: replace_value_def settled_copies_def domIff ran_def split: option.splits)

lemma round_settled:
  assumes wf: "phi_wf fn" and cs: "settled_copies m fn (start args s) cs" and reps: "reps = trivial_phis (without cs fn)"
  shows "settled_copies m fn (start args s) (after_round cs reps)"
  unfolding settled_copies_def
proof
  let ?cs1 = "lookup_last reps"
  have r: "replacing m fn (start args s) cs" using cs by (simp add: settled_copies_def)
  have r1: "replacing m fn (start args s) ?cs1" using trivial_replacing[OF wf r] reps by simp
  show "replacing m fn (start args s) (after_round cs reps)"
    unfolding replacing_def
  proof (intro allI impI)
    fix x w
    assume "after_round cs reps x = Some w"
    then obtain a where a: "cs x = Some a \<or> ?cs1 x = Some a" "resolve (length reps) ?cs1 a = Some w"
      by (auto simp: after_round_def split: option.splits)
    from a(1) r r1 obtain p k i where i: "instr_at fn p k = Some i" "i_op i = ''phi''" "v_name (i_result i) = x" "x \<noteq> []"
      "stands_in m fn (start args s) i (p, k) a" unfolding replacing_def by blast
    from stands_in_resolved[OF r1 i(5) a(2)] i
    show "\<exists>p k i. instr_at fn p k = Some i \<and> i_op i = ''phi'' \<and> v_name (i_result i) = x \<and> x \<noteq> [] \<and>
        stands_in m fn (start args s) i (p, k) w" by blast
  qed
  show "\<forall>w\<in>ran (after_round cs reps). v_name w \<notin> dom (after_round cs reps)"
  proof
    fix w
    assume "w \<in> ran (after_round cs reps)"
    then obtain x a where a: "cs x = Some a \<or> ?cs1 x = Some a" "resolve (length reps) ?cs1 a = Some w"
      by (auto simp: after_round_def ran_def split: option.splits)
    have new: "v_name b \<notin> dom cs" if "b \<in> ran ?cs1" for b
    proof -
      from that obtain y where "(y, b) \<in> set (trivial_phis (without cs fn))"
        using reps by (auto simp: ran_def lookup_last_def dest: map_of_SomeD)
      then obtain i where i: "i \<in> set (all_instrs fn)" "trivial_phi_value (replace_args cs i) = Some b"
        by (auto simp: in_trivial_phis)
      from trivial_one_value(5)[OF wf r i] replaced_not_copied[OF cs] show ?thesis by auto
    qed
    have "v_name a \<notin> dom cs" using a(1) new cs by (auto simp: settled_copies_def ran_def)
    with resolve_result[OF a(2)] new have "v_name w \<notin> dom cs \<union> dom ?cs1" by auto
    then show "v_name w \<notin> dom (after_round cs reps)" using round_dom[OF wf r reps] by simp
  qed
qed

lemma map_reads_comp: "map_reads f (map_reads h i) = map_reads (\<lambda>v. f (h v)) i"
  by (simp add: map_reads_def map_incoming_def map_field_arg_def map_cleanup_def comp_def)

lemma map_term_reads_comp: "map_term_reads f (map_term_reads h t) = map_term_reads (\<lambda>v. f (h v)) t"
  by (simp add: map_term_reads_def)

lemma round_value:
  assumes wf: "phi_wf fn" and cs: "replacing m fn (start args s) cs" and reps: "reps = trivial_phis (without cs fn)"
  shows "resolve (length reps) (lookup_last reps) (replace_value cs v) = Some (replace_value (after_round cs reps) v)"
proof -
  let ?res = "resolve (length reps) (lookup_last reps)"
  show ?thesis
  proof (cases "cs (v_name v)")
    case (Some w)
    from round_resolves[OF assms, of w] Some show ?thesis by (auto simp: replace_value_def after_round_def)
  next
    case None
    show ?thesis
    proof (cases "lookup_last reps (v_name v)")
      case (Some a)
      from round_resolves[OF assms, of v] obtain w where w: "?res v = Some w" by blast
      from Some have "reps \<noteq> []" by (auto simp: lookup_last_def)
      then obtain k where k: "length reps = Suc k" by (cases reps) auto
      with w Some have "resolve k (lookup_last reps) a = Some w" by simp
      from resolve_more[OF this, of "length reps"] k have "?res a = Some w" by simp
      with None Some w show ?thesis by (simp add: replace_value_def after_round_def)
    next
      case b: None
      then have "?res v = Some v" by (intro resolve_stop) (simp add: domIff)
      with None b show ?thesis by (simp add: replace_value_def after_round_def)
    qed
  qed
qed

lemma round_keeps:
  assumes wf: "phi_wf fn" and cs: "replacing m fn (start args s) cs" and reps: "reps = trivial_phis (without cs fn)"
    and i: "i \<in> set (all_instrs fn)" "v_name (i_result i) \<notin> dom cs"
  shows "trivial_phi_value (replace_args cs i) = None \<longleftrightarrow> v_name (i_result i) \<notin> dom (lookup_last reps)"
proof
  assume none: "trivial_phi_value (replace_args cs i) = None"
  show "v_name (i_result i) \<notin> dom (lookup_last reps)"
  proof
    assume "v_name (i_result i) \<in> dom (lookup_last reps)"
    then obtain a where "(v_name (i_result i), a) \<in> set (trivial_phis (without cs fn))"
      using reps by (auto simp: lookup_last_def dest: map_of_SomeD)
    then obtain j where j: "j \<in> set (all_instrs fn)" "v_name (i_result j) = v_name (i_result i)"
      "trivial_phi_value (replace_args cs j) = Some a" by (auto simp: in_trivial_phis)
    have ssa: "ssa fn" using wf by (simp add: phi_wf_def copy_wf_def)
    have "v_name (i_result j) \<noteq> []"
      using ssa j(1) trivial_one_value(1)[OF wf cs j(1,3)] by (auto simp: ssa_def)
    then have "j = i" using in_all_instrs[OF j(1)] in_all_instrs[OF i(1)] ssa_unique[OF ssa] j(2) by metis
    with j(3) none show False by simp
  qed
next
  assume notin: "v_name (i_result i) \<notin> dom (lookup_last reps)"
  show "trivial_phi_value (replace_args cs i) = None"
  proof (rule ccontr)
    assume "trivial_phi_value (replace_args cs i) \<noteq> None"
    then obtain a where "(v_name (i_result i), a) \<in> set reps" using reps i by (auto simp: in_trivial_phis)
    then have "v_name (i_result i) \<in> dom (lookup_last reps)"
      by (auto simp: lookup_last_def dom_map_of_conv_image_fst intro: rev_image_eqI)
    with notin show False by simp
  qed
qed

lemma round_function:
  assumes wf: "phi_wf fn" and cs: "replacing m fn (start args s) cs" and reps: "reps = trivial_phis (without cs fn)"
  shows "replace_function_values reps (drop_trivial_phis (without cs fn)) = Some (without (after_round cs reps) fn)"
proof -
  let ?res = "resolve (length reps) (lookup_last reps)" and ?cs' = "after_round cs reps"
  let ?keep = "\<lambda>cs i. v_name (i_result i) \<notin> dom cs"
  have val: "the (?res (replace_value cs v)) = replace_value ?cs' v" for v using round_value[OF assms, of v] by simp
  have "filter (\<lambda>i. trivial_phi_value i = None) (map (replace_args cs) (filter (?keep cs) (b_instrs b))) =
      map (replace_args cs) (filter (?keep ?cs') (b_instrs b))" if "b \<in> set (f_blocks fn)" for b
  proof -
    have "trivial_phi_value (replace_args cs i) = None \<longleftrightarrow> ?keep ?cs' i" if "i \<in> set (b_instrs b)" "?keep cs i" for i
    proof -
      have "i \<in> set (all_instrs fn)" using that(1) \<open>b \<in> set (f_blocks fn)\<close> by (auto simp: all_instrs_def)
      from round_keeps[OF assms this that(2)] round_dom[OF assms] that(2) show ?thesis by simp
    qed
    moreover have "?keep cs i" if "?keep ?cs' i" for i using that round_dom[OF assms] by auto
    ultimately have "filter (\<lambda>i. ?keep cs i \<and> trivial_phi_value (replace_args cs i) = None) (b_instrs b) =
        filter (?keep ?cs') (b_instrs b)" by (intro filter_cong refl) auto
    then show ?thesis by (simp add: filter_map comp_def)
  qed
  then have blocks: "map_function_reads (\<lambda>v. the (?res v)) (drop_trivial_phis (without cs fn)) = without ?cs' fn"
    by (auto simp: map_function_reads_def drop_trivial_phis_def without_def thin_def replace_args_def
        replace_terminator_args_def map_reads_comp map_term_reads_comp val comp_def intro!: map_cong)
  have "?res v \<noteq> None" for v using round_resolves[OF assms, of v] by auto
  then show ?thesis using blocks by (simp add: replace_function_values_def Let_def list_all_iff)
qed

section \<open>The rounds\<close>

lemma map_reads_id: "(\<And>v. f v = v) \<Longrightarrow> map_reads f i = i"
  by (simp add: map_reads_def map_incoming_def map_field_arg_def map_cleanup_def map_idI)

lemma without_none: "without Map.empty fn = fn"
proof -
  have "replace_value Map.empty v = v" for v by (simp add: replace_value_def)
  then show ?thesis
    by (simp add: without_def thin_def replace_args_def replace_terminator_args_def map_reads_id map_term_reads_def map_idI)
qed

lemma drop_none: "trivial_phis fn = [] \<Longrightarrow> drop_trivial_phis fn = fn"
proof -
  assume "trivial_phis fn = []"
  then have "filter (\<lambda>i. trivial_phi_value i = None) (b_instrs b) = b_instrs b" if "b \<in> set (f_blocks fn)" for b
    using that by (auto simp: trivial_phis_empty all_instrs_def intro!: filter_True)
  then show ?thesis by (simp add: drop_trivial_phis_def map_idI)
qed

lemma phi_rounds:
  assumes wf: "phi_wf fn"
  shows "fn1 = without cs fn \<Longrightarrow> settled_copies m fn (start args s) cs \<Longrightarrow>
    \<exists>cs'. fold_trivial_phis fn1 = Some (without cs' fn) \<and> settled_copies m fn (start args s) cs' \<and>
      trivial_phis (without cs' fn) = []"
proof (induction fn1 arbitrary: cs rule: fold_trivial_phis.induct)
  case (1 fn1)
  let ?reps = "trivial_phis fn1"
  show ?case
  proof (cases "?reps = []")
    case True
    then have "fold_trivial_phis fn1 = Some fn1" by (simp add: fold_trivial_phis.simps[of fn1] Let_def drop_none)
    with 1(2,3) True show ?thesis by blast
  next
    case False
    let ?cs = "after_round cs ?reps"
    have cs: "replacing m fn (start args s) cs" and reps: "?reps = trivial_phis (without cs fn)"
      using 1(2,3) by (auto simp: settled_copies_def)
    have r: "replace_function_values ?reps (drop_trivial_phis fn1) = Some (without ?cs fn)"
      using round_function[OF wf cs reps] 1(2) by simp
    from 1(1)[OF refl refl False r refl round_settled[OF wf 1(3) reps]] False r show ?thesis
      by (simp add: fold_trivial_phis.simps[of fn1] Let_def)
  qed
qed

section \<open>Removing the phis preserves runs\<close>

definition phi_ok :: "('v, 's) machine \<Rightarrow> func \<Rightarrow> copies \<Rightarrow> ('v, 's) state \<Rightarrow> bool" where
  "phi_ok m fn cs \<sigma> \<longleftrightarrow> phi_wf fn \<and>
     (\<exists>args s. settled_copies m fn (start args s) cs \<and> reach m fn (start args s) \<sigma>)"

lemma gone_is_phi:
  assumes "ssa fn" "replacing m fn \<sigma>0 cs" "current_instr fn \<sigma> = Some i" "v_name (i_result i) \<in> dom cs"
  shows "i_op i = ''phi''"
proof -
  from assms(2,4) obtain p k j where j: "instr_at fn p k = Some j" "i_op j = ''phi''"
    "v_name (i_result j) = v_name (i_result i)" "v_name (i_result i) \<noteq> []"
    unfolding replacing_def by blast
  from ssa_unique[OF assms(1) j(1) assms(3)[unfolded current_instr_def]] j show ?thesis by simp
qed

lemma instr_reads_replace: "instr_reads (replace_args cs i) = map (replace_value cs) (instr_reads i)"
  by (simp add: instr_reads_def replace_args_def map_reads_def map_field_arg_def map_cleanup_def map_incoming_def
      map_concat comp_def)

interpretation phis: thinning m fn "\<lambda>i. v_name (i_result i) \<notin> dom cs" "replace_args cs" "replace_terminator_args cs"
  "- dom cs" "phi_ok m fn cs" for m fn cs
proof
  fix \<sigma> :: "('a, 'b) state"
  assume "phi_ok m fn cs \<sigma>"
  then obtain args s where wf: "phi_wf fn" and cs: "settled_copies m fn (start args s) cs"
    and \<sigma>: "reach m fn (start args s) \<sigma>" by (auto simp: phi_ok_def)
  have r: "replacing m fn (start args s) cs" using cs by (simp add: settled_copies_def)
  have cwf: "copy_wf fn" using wf by (simp add: phi_wf_def)
  show "phi_ok m fn cs \<tau>" if "step m fn \<sigma> = Go \<tau>" for \<tau>
    using wf cs \<sigma> that by (auto simp: phi_ok_def intro: reach.further)
  show "(\<exists>x. out = Yield x (st_mem \<sigma>)) \<and> v_name (i_result i) \<notin> - dom cs"
    if "current_instr fn \<sigma> = Some i" "\<not> v_name (i_result i) \<notin> dom cs" "exec m \<sigma> i = Some out" for i out
  proof -
    have "i_op i = ''phi''" using gone_is_phi[OF _ r that(1)] that(2) cwf by (simp add: copy_wf_def)
    with that show ?thesis by (auto simp: exec_def)
  qed
  show "exec m \<sigma>' (replace_args cs i) = Some out \<and> i_result (replace_args cs i) = i_result i"
    if "current_instr fn \<sigma> = Some i" "exec m \<sigma> i = Some out" "alike (- dom cs) \<sigma> \<sigma>'" for i out \<sigma>'
  proof -
    have "v_name ` set (instr_reads (replace_args cs i)) \<subseteq> - dom cs"
      using replaced_not_copied[OF cs] by (auto simp: instr_reads_replace)
    with that(3) have "exec m \<sigma>' (replace_args cs i) = exec m \<sigma> (replace_args cs i)"
      by (intro exec_agree) (auto simp: alike_def)
    then show ?thesis using replace_exec[OF cwf that(1) replacing_facts(1)[OF r] \<sigma> that(2)] by simp
  qed
  show "same_term m (st_env \<sigma>) env' (b_term (f_blocks fn ! st_block \<sigma>))
      (replace_terminator_args cs (b_term (f_blocks fn ! st_block \<sigma>)))"
    if "current_instr fn \<sigma> = None" "st_block \<sigma> < length (f_blocks fn)" "agree (- dom cs) (st_env \<sigma>) env'" for env'
  proof -
    let ?t = "b_term (f_blocks fn ! st_block \<sigma>)"
    have "point_of \<sigma> = end_point fn (st_block \<sigma>)"
      using that(1,2) reach_entered[OF \<sigma>]
      by (auto simp: current_instr_def instr_at_def point_of_def end_point_def split: if_splits)
    then have "defined_before fn (v_name v) (point_of \<sigma>)" if "v \<in> set (term_reads ?t)" for v
      using cwf \<open>st_block \<sigma> < length (f_blocks fn)\<close> that by (simp add: copy_wf_def strict_def)
    then have "operand m env' (replace_value cs v) = Some x"
      if "v \<in> set (term_reads ?t)" "operand m (st_env \<sigma>) v = Some x" for v x
      using replace_value_operand[OF replacing_facts(1)[OF r] \<sigma>, of v x] that
        operand_agree[OF \<open>agree (- dom cs) (st_env \<sigma>) env'\<close>, of "replace_value cs v" m] replaced_not_copied[OF cs, of v]
      by simp
    then show ?thesis
      by (simp add: same_term_def replace_terminator_args_def map_term_reads_def term_reads_def)
  qed
qed

lemma phi_fold_preserves:
  assumes "phi_wf fn" and "call_for n m fn vals s = Some r"
  shows "\<exists>fn'. fold_trivial_phis fn = Some fn' \<and> call_for n m fn' vals s = Some r"
proof -
  let ?\<sigma>0 = "start (call_env fn vals) s"
  have "settled_copies m fn ?\<sigma>0 Map.empty" by (simp add: settled_copies_def replacing_def)
  from phi_rounds[OF assms(1) without_none[symmetric] this] obtain cs where
    cs: "fold_trivial_phis fn = Some (without cs fn)" "settled_copies m fn ?\<sigma>0 cs" by blast
  have "phi_ok m fn cs ?\<sigma>0" using assms(1) cs(2) reach.here[of m fn ?\<sigma>0] unfolding phi_ok_def by blast
  from phis.call_preserved[OF this assms(2)] cs(1) show ?thesis by (simp add: without_def)
qed

text \<open>The loop ends on every such function, and leaves no trivial phi.\<close>

lemma phi_fold_total:
  assumes "phi_wf fn"
  shows "\<exists>fn'. fold_trivial_phis fn = Some fn' \<and> trivial_phis fn' = []"
proof -
  have "settled_copies bare_machine fn (start Map.empty ()) Map.empty" by (simp add: settled_copies_def replacing_def)
  from phi_rounds[OF assms without_none[symmetric] this] show ?thesis by blast
qed

end
