(* ===== verification/Branches.thy ===== *)
theory Branches
  imports Phi_Fold
begin

text \<open>
  The middle of SimplifyBranches (internal/ir/simplify.go): the branches whose arm is known
  become jumps, and the blocks no path reaches any more go, each with the incoming values
  of phis that came from a block that no longer jumps there. \<open>cut_branches\<close> is the loop
  over the blocks and \<open>remove_unreachable_blocks\<close> the search with its stack and the two
  filters after it.

  A run that returns never enters a block that holds nothing but \<^verbatim>\<open>unreachable\<close>, so
  the simulation of the first part relates a state in such a block to anything.
\<close>

section \<open>Branches with one way out\<close>

text \<open>The bool constants, a later definition in place of an earlier one, and the dead blocks.\<close>

definition known_conditions :: "func \<Rightarrow> name \<rightharpoonup> bool" where
  "known_conditions fn =
     fold (\<lambda>i known. if i_op i = ''const'' \<and> v_type (i_result i) = ''bool''
                      then known(v_name (i_result i) \<mapsto> i_immediate i = ''true'') else known)
       (all_instrs fn) Map.empty"

definition dead_blocks :: "func \<Rightarrow> name list" where
  "dead_blocks fn = map b_name (filter (\<lambda>b. b_instrs b = [] \<and> t_op (b_term b) = ''unreachable'') (f_blocks fn))"

definition branch_taken :: "terminator \<Rightarrow> (name \<rightharpoonup> bool) \<Rightarrow> name list \<Rightarrow> bool option" where
  "branch_taken t known dead =
     (if t_op t \<noteq> ''branch'' then None
      else (case known (v_name (t_cond t)) of
              Some taken \<Rightarrow> Some taken
            | None \<Rightarrow>
                if t_else t \<in> set dead \<and> t_target t \<notin> set dead then Some True
                else if t_target t \<in> set dead \<and> t_else t \<notin> set dead then Some False
                else None))"

primrec drop_first :: "('a \<Rightarrow> bool) \<Rightarrow> 'a list \<Rightarrow> 'a list" where
  "drop_first P [] = []"
| "drop_first P (x # xs) = (if P x then xs else x # drop_first P xs)"

definition drop_from :: "name \<Rightarrow> instr \<Rightarrow> instr" where
  "drop_from from i =
     (if i_op i \<noteq> ''phi'' then i
      else i\<lparr>i_incoming := drop_first (\<lambda>inc. in_block inc = from) (i_incoming i)\<rparr>)"

definition drop_incoming :: "name \<Rightarrow> name \<Rightarrow> block list \<Rightarrow> block list" where
  "drop_incoming target from bs =
     map (\<lambda>b. if b_name b \<noteq> target then b else b\<lparr>b_instrs := map (drop_from from) (b_instrs b)\<rparr>) bs"

definition arm :: "bool \<Rightarrow> terminator \<Rightarrow> name" where
  "arm taken t = (if taken then t_target t else t_else t)"

definition cut_branch :: "(name \<rightharpoonup> bool) \<Rightarrow> name list \<Rightarrow> nat \<Rightarrow> block list \<times> bool \<Rightarrow> block list \<times> bool" where
  "cut_branch known dead p st =
     (let bs = fst st; b = bs ! p in
      case branch_taken (b_term b) known dead of
        None \<Rightarrow> st
      | Some taken \<Rightarrow>
          (drop_incoming (arm (\<not> taken) (b_term b)) (b_name b)
             (bs[p := b\<lparr>b_term := (new_term ''jump'')\<lparr>t_target := arm taken (b_term b)\<rparr>\<rparr>]), True))"

definition cut_branches :: "func \<Rightarrow> func \<times> bool" where
  "cut_branches fn =
     (let (bs, changed) = fold (cut_branch (known_conditions fn) (dead_blocks fn)) [0..<length (f_blocks fn)] (f_blocks fn, False)
      in (fn\<lparr>f_blocks := bs\<rparr>, changed))"

section \<open>Blocks no path reaches\<close>

text \<open>
  The search takes the top of its stack; a position may be on it more than once. The
  positions on the stack are positions of blocks, which the guard says for the termination.
\<close>

definition open_positions :: "nat \<Rightarrow> nat list \<Rightarrow> nat set" where
  "open_positions n reached = {p. p < n} - set reached"

lemma open_positions_smaller:
  assumes "\<not> (p \<in> set reached \<or> n \<le> p)"
  shows "card (open_positions n (p # reached)) < card (open_positions n reached)"
proof -
  have "open_positions n (p # reached) = open_positions n reached - {p}"
    unfolding open_positions_def list.set by (rule Diff_insert)
  moreover have "p \<in> open_positions n reached" using assms by (simp add: open_positions_def)
  moreover have "finite (open_positions n reached)" by (simp add: open_positions_def)
  ultimately show ?thesis by (metis card_Diff1_less)
qed

function reach_blocks :: "nat \<Rightarrow> (nat \<Rightarrow> nat list) \<Rightarrow> nat list \<Rightarrow> nat list \<Rightarrow> nat list" where
  "reach_blocks n succ [] reached = reached"
| "reach_blocks n succ (p # stack) reached =
     (if p \<in> set reached \<or> n \<le> p then reach_blocks n succ stack reached
      else reach_blocks n succ (rev (filter (\<lambda>q. q \<notin> set (p # reached)) (succ p)) @ stack) (p # reached))"
  by pat_completeness auto
termination
  by (relation "measures [\<lambda>(n, succ, stack, reached). card (open_positions n reached), \<lambda>(n, succ, stack, reached). length stack]")
    (use open_positions_smaller in auto)

definition reached_blocks :: "func \<Rightarrow> nat list" where
  "reached_blocks fn = reach_blocks (length (f_blocks fn)) (succ_positions fn) [0] []"

definition keep_incoming :: "name list \<Rightarrow> instr \<Rightarrow> instr" where
  "keep_incoming live i =
     (if i_op i \<noteq> ''phi'' then i
      else i\<lparr>i_incoming := filter (\<lambda>inc. in_block inc \<in> set live) (i_incoming i)\<rparr>)"

definition kept_positions :: "func \<Rightarrow> nat list" where
  "kept_positions fn = filter (\<lambda>p. p \<in> set (reached_blocks fn)) [0..<length (f_blocks fn)]"

definition remove_unreachable_blocks :: "func \<Rightarrow> func" where
  "remove_unreachable_blocks fn =
     (let kept = map (\<lambda>p. f_blocks fn ! p) (kept_positions fn); live = map b_name kept
      in fn\<lparr>f_blocks := map (\<lambda>b. b\<lparr>b_instrs := map (keep_incoming live) (b_instrs b)\<rparr>) kept\<rparr>)"

section \<open>What the loop over the branches leaves\<close>

definition cut :: "func \<Rightarrow> nat \<Rightarrow> bool option" where
  "cut fn q = branch_taken (b_term (f_blocks fn ! q)) (known_conditions fn) (dead_blocks fn)"

definition cuts_into :: "func \<Rightarrow> nat \<Rightarrow> name \<Rightarrow> bool" where
  "cuts_into fn q x \<longleftrightarrow> (case cut fn q of None \<Rightarrow> False | Some taken \<Rightarrow> arm (\<not> taken) (b_term (f_blocks fn ! q)) = x)"

definition cut_instr :: "func \<Rightarrow> nat \<Rightarrow> name \<Rightarrow> instr \<Rightarrow> instr" where
  "cut_instr fn k x i = fold (\<lambda>q i. if cuts_into fn q x then drop_from (b_name (f_blocks fn ! q)) i else i) [0..<k] i"

definition cut_term :: "func \<Rightarrow> nat \<Rightarrow> terminator" where
  "cut_term fn q = (case cut fn q of
     None \<Rightarrow> b_term (f_blocks fn ! q)
   | Some taken \<Rightarrow> (new_term ''jump'')\<lparr>t_target := arm taken (b_term (f_blocks fn ! q))\<rparr>)"

definition cut_upto :: "func \<Rightarrow> nat \<Rightarrow> block list" where
  "cut_upto fn k = map (\<lambda>p. let b = f_blocks fn ! p in
     b\<lparr>b_instrs := map (cut_instr fn k (b_name b)) (b_instrs b), b_term := if p < k then cut_term fn p else b_term b\<rparr>)
     [0..<length (f_blocks fn)]"

lemma cut_instr_Suc:
  "cut_instr fn (Suc k) x i = (if cuts_into fn k x then drop_from (b_name (f_blocks fn ! k)) (cut_instr fn k x i) else cut_instr fn k x i)"
  by (simp add: cut_instr_def)

lemma cut_upto_nth:
  "p < length (f_blocks fn) \<Longrightarrow> cut_upto fn k ! p =
     (f_blocks fn ! p)\<lparr>b_instrs := map (cut_instr fn k (b_name (f_blocks fn ! p))) (b_instrs (f_blocks fn ! p)),
        b_term := if p < k then cut_term fn p else b_term (f_blocks fn ! p)\<rparr>"
  by (simp add: cut_upto_def Let_def)

lemma cut_upto_length [simp]: "length (cut_upto fn k) = length (f_blocks fn)"
  by (simp add: cut_upto_def)

lemma cut_branch_upto:
  assumes k: "k < length (f_blocks fn)"
  shows "cut_branch (known_conditions fn) (dead_blocks fn) k (cut_upto fn k, changed) =
    (cut_upto fn (Suc k), changed \<or> cut fn k \<noteq> None)"
proof (cases "cut fn k")
  case None
  then have "cut_upto fn (Suc k) = cut_upto fn k"
    by (intro nth_equalityI) (auto simp: cut_upto_nth cut_instr_Suc cuts_into_def cut_term_def less_Suc_eq)
  with None k show ?thesis by (simp add: cut_branch_def Let_def cut_upto_nth cut_def)
next
  case (Some taken)
  let ?now = "cut_upto fn k ! k" and ?orig = "f_blocks fn ! k"
  have b: "b_term ?now = b_term ?orig" "b_name ?now = b_name ?orig" using k by (simp_all add: cut_upto_nth)
  have taken: "branch_taken (b_term ?orig) (known_conditions fn) (dead_blocks fn) = Some taken" using Some by (simp add: cut_def)
  have instrs: "map (cut_instr fn (Suc k) x) is = (if cuts_into fn k x then map (drop_from (b_name ?orig)) (map (cut_instr fn k x) is)
      else map (cut_instr fn k x) is)" for x "is"
    by (simp add: cut_instr_Suc comp_def)
  have into: "cuts_into fn k x \<longleftrightarrow> arm (\<not> taken) (b_term ?orig) = x" for x using Some by (simp add: cuts_into_def)
  have "drop_incoming (arm (\<not> taken) (b_term ?orig)) (b_name ?orig)
      ((cut_upto fn k)[k := ?now\<lparr>b_term := (new_term ''jump'')\<lparr>t_target := arm taken (b_term ?orig)\<rparr>\<rparr>]) = cut_upto fn (Suc k)"
  proof (rule nth_equalityI)
    fix p
    assume "p < length (drop_incoming (arm (\<not> taken) (b_term ?orig)) (b_name ?orig)
      ((cut_upto fn k)[k := ?now\<lparr>b_term := (new_term ''jump'')\<lparr>t_target := arm taken (b_term ?orig)\<rparr>\<rparr>]))"
    then have p: "p < length (f_blocks fn)" by (simp add: drop_incoming_def)
    then show "drop_incoming (arm (\<not> taken) (b_term ?orig)) (b_name ?orig)
      ((cut_upto fn k)[k := ?now\<lparr>b_term := (new_term ''jump'')\<lparr>t_target := arm taken (b_term ?orig)\<rparr>\<rparr>]) ! p = cut_upto fn (Suc k) ! p"
      using k Some by (cases "p = k")
        (auto simp: drop_incoming_def nth_list_update cut_upto_nth instrs into cut_term_def less_Suc_eq simp del: map_map
          intro!: block.equality)
  qed (simp add: drop_incoming_def)
  then show ?thesis using taken Some b by (simp add: cut_branch_def Let_def)
qed

lemma cut_branches_result:
  "cut_branches fn = (fn\<lparr>f_blocks := cut_upto fn (length (f_blocks fn))\<rparr>, \<exists>q<length (f_blocks fn). cut fn q \<noteq> None)"
proof -
  have "fold (cut_branch (known_conditions fn) (dead_blocks fn)) [0..<k] (f_blocks fn, False) =
      (cut_upto fn k, \<exists>q<k. cut fn q \<noteq> None)" if "k \<le> length (f_blocks fn)" for k
    using that
  proof (induction k)
    case 0
    have "cut_upto fn 0 = f_blocks fn"
      by (rule nth_equalityI) (simp_all add: cut_upto_nth cut_instr_def map_idI)
    then show ?case by simp
  next
    case (Suc k)
    then show ?case by (auto simp: cut_branch_upto less_Suc_eq)
  qed
  from this[of "length (f_blocks fn)"] show ?thesis by (simp add: cut_branches_def)
qed

text \<open>The incoming values that stay: one less for each arm cut.\<close>

lemma incoming_from_drop:
  assumes "i_op i = ''phi''"
  shows "incoming_from (drop_from from i) x = (if x = from then tl (incoming_from i x) else incoming_from i x)"
proof -
  have "filter (\<lambda>inc. in_block inc = x) (drop_first (\<lambda>inc. in_block inc = from) incs) =
      (if x = from then tl (filter (\<lambda>inc. in_block inc = x) incs) else filter (\<lambda>inc. in_block inc = x) incs)" for incs
    by (induction incs) auto
  from this[of "i_incoming i"] assms show ?thesis by (simp add: incoming_from_def drop_from_def)
qed

lemma drop_from_simps [simp]:
  "i_op (drop_from b i) = i_op i" "i_result (drop_from b i) = i_result i" "i_args (drop_from b i) = i_args i"
  "i_fields (drop_from b i) = i_fields i" "i_cleanups (drop_from b i) = i_cleanups i"
  "i_op i \<noteq> ''phi'' \<Longrightarrow> drop_from b i = i"
  by (simp_all add: drop_from_def)

lemma drop_first_subset: "set (drop_first P xs) \<subseteq> set xs"
  by (induction xs) auto

lemma cut_instr_simps [simp]:
  "i_op (cut_instr fn k x i) = i_op i" "i_result (cut_instr fn k x i) = i_result i"
  "i_op i \<noteq> ''phi'' \<Longrightarrow> cut_instr fn k x i = i" "direct_reads (cut_instr fn k x i) = direct_reads i"
  "set (i_incoming (cut_instr fn k x i)) \<subseteq> set (i_incoming i)"
proof (induction k)
  case (Suc k)
  case 5
  from Suc(5) show ?case
    using drop_first_subset[of _ "i_incoming (cut_instr fn k x i)"]
    by (auto simp: cut_instr_Suc drop_from_def)
qed (simp_all add: cut_instr_Suc direct_reads_def, simp_all add: cut_instr_def direct_reads_def)

lemma incoming_from_cut:
  assumes "i_op i = ''phi''" and "distinct (map b_name (f_blocks fn))" and "q < length (f_blocks fn)"
    and "k \<le> length (f_blocks fn)"
  shows "incoming_from (cut_instr fn k x i) (b_name (f_blocks fn ! q)) =
    (if q < k \<and> cuts_into fn q x then tl (incoming_from i (b_name (f_blocks fn ! q)))
     else incoming_from i (b_name (f_blocks fn ! q)))"
  using assms(4)
proof (induction k)
  case 0
  then show ?case by (simp add: cut_instr_def)
next
  case (Suc k)
  have "b_name (f_blocks fn ! q) = b_name (f_blocks fn ! k) \<longleftrightarrow> q = k"
    using nth_eq_iff_index_eq[OF assms(2), of q k] assms(3) Suc.prems by simp
  with Suc assms(1) show ?case by (auto simp: cut_instr_Suc incoming_from_drop)
qed

section \<open>Cutting branches preserves runs\<close>

text \<open>A phi has the same value for each of the edges that come from one block.\<close>

definition phi_agree :: "func \<Rightarrow> bool" where
  "phi_agree fn \<longleftrightarrow>
     list_all (\<lambda>i. i_op i = ''phi'' \<longrightarrow>
       list_all (\<lambda>a. list_all (\<lambda>b. in_block a = in_block b \<longrightarrow> in_value a = in_value b) (i_incoming i)) (i_incoming i))
     (all_instrs fn)"

definition branch_wf :: "func \<Rightarrow> bool" where
  "branch_wf fn \<longleftrightarrow> copy_wf fn \<and> no_entry_phi fn \<and> phi_exact fn \<and> phi_types fn \<and> phi_agree fn"

definition cut_function :: "func \<Rightarrow> func" where
  "cut_function fn = fst (cut_branches fn)"

lemma cut_blocks [simp]:
  "f_blocks (cut_function fn) = cut_upto fn (length (f_blocks fn))" "f_params (cut_function fn) = f_params fn"
  by (simp_all add: cut_function_def cut_branches_result)

lemma cut_positions [simp]: "positions (cut_upto fn k) = positions (f_blocks fn)"
proof -
  have "map b_name (cut_upto fn k) = map b_name (f_blocks fn)" by (rule nth_equalityI) (simp_all add: cut_upto_nth)
  then show ?thesis by (simp add: positions_def)
qed

lemma cut_instr_at:
  "instr_at (cut_function fn) p k = map_option (cut_instr fn (length (f_blocks fn)) (b_name (f_blocks fn ! p))) (instr_at fn p k)"
  by (simp add: instr_at_def cut_upto_nth)

text \<open>Control goes from a cut branch to the arm that is kept.\<close>

definition took :: "func \<Rightarrow> ('v, 's) state \<Rightarrow> bool" where
  "took fn \<sigma> \<longleftrightarrow> st_from \<sigma> = [] \<or>
     (\<exists>q<length (f_blocks fn). b_name (f_blocks fn ! q) = st_from \<sigma> \<and>
        (\<forall>taken. cut fn q = Some taken \<longrightarrow> b_name (f_blocks fn ! st_block \<sigma>) = arm taken (b_term (f_blocks fn ! q))))"

lemma find_hd: "find P xs = (case filter P xs of [] \<Rightarrow> None | x # _ \<Rightarrow> Some x)"
  by (induction xs) auto

lemma cut_phi_value:
  assumes wf: "branch_wf fn" and at: "instr_at fn p k = Some i" "i_op i = ''phi''"
    and \<sigma>: "took fn \<sigma>" "st_block \<sigma> = p" and x: "phi_value m \<sigma> i = Some x"
  shows "phi_value m \<sigma> (cut_instr fn (length (f_blocks fn)) (b_name (f_blocks fn ! p)) i) = Some x"
proof -
  let ?i = "cut_instr fn (length (f_blocks fn)) (b_name (f_blocks fn ! p)) i"
  have names: "block_names_ok fn" "strict fn" using wf by (simp_all add: branch_wf_def copy_wf_def)
  from x obtain inc where "find (\<lambda>inc. in_block inc = st_from \<sigma>) (i_incoming i) = Some inc"
    by (auto simp: phi_value_def split: option.splits)
  then have inc: "inc \<in> set (i_incoming i)" "in_block inc = st_from \<sigma>" by (auto simp: find_Some_iff)
  with at names(2) obtain r where "positions (f_blocks fn) (st_from \<sigma>) = Some r" unfolding strict_def by metis
  then have "st_from \<sigma> \<in> b_name ` set (f_blocks fn)" by (metis positions_dom domI)
  then have "st_from \<sigma> \<noteq> []" using names(1) by (auto simp: block_names_ok_def)
  with \<sigma> obtain q where q: "q < length (f_blocks fn)" "b_name (f_blocks fn ! q) = st_from \<sigma>"
    "\<And>taken. cut fn q = Some taken \<Longrightarrow> b_name (f_blocks fn ! p) = arm taken (b_term (f_blocks fn ! q))"
    unfolding took_def by blast
  note from_cut = incoming_from_cut[OF at(2) _ q(1) order_refl, of "b_name (f_blocks fn ! p)"]
  show ?thesis
  proof (cases "cuts_into fn q (b_name (f_blocks fn ! p))")
    case False
    then have "incoming_from ?i (st_from \<sigma>) = incoming_from i (st_from \<sigma>)"
      using from_cut names(1) q(1,2) by (simp add: block_names_ok_def)
    with x show ?thesis by (simp add: phi_value_def find_hd incoming_from_def)
  next
    case True
    let ?t = "b_term (f_blocks fn ! q)" and ?b = "b_name (f_blocks fn ! p)"
    from True obtain taken where taken: "cut fn q = Some taken" "arm (\<not> taken) ?t = ?b"
      by (auto simp: cuts_into_def split: option.splits)
    then have "t_target ?t = ?b" "t_else ?t = ?b" using q(3)[OF taken(1)] by (cases taken; simp add: arm_def)+
    moreover have "?b \<noteq> []"
      using names(1) instr_at_nth[OF at(1)] unfolding block_names_ok_def by (metis imageI nth_mem)
    ultimately have "filter (\<lambda>x. x = ?b) (successors ?t) = [?b, ?b]" by (simp add: successors_def)
    moreover have "length (incoming_from i (b_name (f_blocks fn ! q))) = length (filter (\<lambda>x. x = ?b) (successors ?t))"
      using wf at(2) q(1) instr_at_nth[OF at(1)] unfolding branch_wf_def phi_exact_def list_all_iff by (meson nth_mem)
    ultimately have "length (incoming_from i (st_from \<sigma>)) = 2" using q(2) by simp
    then obtain a b where ab: "incoming_from i (st_from \<sigma>) = [a, b]" by (auto simp: numeral_2_eq_2 length_Suc_conv)
    then have "incoming_from ?i (st_from \<sigma>) = [b]"
      using from_cut names(1) q(1,2) True by (simp add: block_names_ok_def)
    moreover have "in_value a = in_value b"
    proof -
      have "a \<in> set (incoming_from i (st_from \<sigma>))" "b \<in> set (incoming_from i (st_from \<sigma>))" using ab by auto
      then have "a \<in> set (i_incoming i)" "b \<in> set (i_incoming i)" "in_block a = in_block b"
        by (auto simp: incoming_from_def)
      then show ?thesis
        using wf at(2) instr_at_all[OF at(1)] unfolding branch_wf_def phi_agree_def list_all_iff by blast
    qed
    ultimately show ?thesis using x ab by (simp add: phi_value_def find_hd incoming_from_def)
  qed
qed

lemma fold_map_upd:
  "fold (\<lambda>i known. if P i then known(f i \<mapsto> g i) else known) xs known x = Some v \<Longrightarrow>
    (\<exists>i\<in>set xs. P i \<and> f i = x \<and> g i = v) \<or> known x = Some v"
proof (induction xs arbitrary: known)
  case (Cons a xs)
  from Cons.IH[of "if P a then known(f a \<mapsto> g a) else known"] Cons.prems show ?case
    by (auto split: if_splits)
qed simp

lemma known_condition:
  assumes wf: "copy_wf fn" and \<sigma>: "reach m fn (start (call_env fn vals) s) \<sigma>"
    and known: "known_conditions fn x = Some taken" and before: "defined_before fn x (point_of \<sigma>)"
  shows "st_env \<sigma> x = Some (BoolV taken)"
proof -
  have ssa: "ssa fn" using wf by (simp add: copy_wf_def)
  from fold_map_upd[of "\<lambda>i. i_op i = ''const'' \<and> v_type (i_result i) = ''bool''" _ _ _ _ x taken] known
  obtain i where i: "i \<in> set (all_instrs fn)" "i_op i = ''const''" "v_type (i_result i) = ''bool''"
    "v_name (i_result i) = x" "taken = (i_immediate i = ''true'')"
    by (force simp: known_conditions_def)
  then have named: "x \<noteq> []" using ssa by (auto simp: ssa_def)
  with i have "x \<in> set (results fn)" by (auto simp: results_def)
  from defined_before_bound[OF \<sigma> before this] obtain v where v: "st_env \<sigma> x = Some v" by blast
  from in_all_instrs[OF i(1)] obtain p k where at: "instr_at fn p k = Some i" by blast
  have "(call_env fn vals :: 'a env) x = None"
    using result_not_arg[OF ssa call_env_args_for at] i(4) named by simp
  with reach_origin[OF \<sigma>] v have "made m fn (start (call_env fn vals) s) x v" by fastforce
  with made_by[OF ssa at] i(4) obtain \<rho> s' where "exec m \<rho> i = Some (Yield v s')" by blast
  with i(2,3,5) have "v = BoolV taken"
    by (auto simp: exec_def fixed_value_def const_value_def split: option.splits)
  with v show ?thesis by simp
qed

definition doomed :: "func \<Rightarrow> ('v, 's) state \<Rightarrow> bool" where
  "doomed fn \<sigma> \<longleftrightarrow> st_block \<sigma> < length (f_blocks fn) \<and> b_name (f_blocks fn ! st_block \<sigma>) \<in> set (dead_blocks fn)"

lemma doomed_stuck:
  assumes "block_names_ok fn" "doomed fn \<sigma>"
  shows "step m fn \<sigma> = Stuck"
proof -
  from assms(2) obtain b where b: "b \<in> set (f_blocks fn)" "b_name b = b_name (f_blocks fn ! st_block \<sigma>)"
    "b_instrs b = []" "t_op (b_term b) = ''unreachable''" by (auto simp: doomed_def dead_blocks_def)
  then have "f_blocks fn ! st_block \<sigma> = b"
    using assms nth_mem[of "st_block \<sigma>" "f_blocks fn"]
    by (auto simp: block_names_ok_def doomed_def distinct_map dest: inj_onD)
  with b show ?thesis by (simp add: step_def end_block_def)
qed


definition cut_ok :: "('v, 's) machine \<Rightarrow> func \<Rightarrow> ('v, 's) state \<Rightarrow> bool" where
  "cut_ok m fn \<sigma> \<longleftrightarrow> branch_wf fn \<and> took fn \<sigma> \<and> (\<exists>vals s. reach m fn (start (call_env fn vals) s) \<sigma>)"

definition cut_sim :: "('v, 's) machine \<Rightarrow> func \<Rightarrow> ('v, 's) state \<Rightarrow> ('v, 's) state \<Rightarrow> bool" where
  "cut_sim m fn \<sigma> \<sigma>' \<longleftrightarrow> block_names_ok fn \<and> (doomed fn \<sigma> \<or> cut_ok m fn \<sigma> \<and> \<sigma>' = \<sigma>)"

lemma cut_step_instr:
  assumes ok: "cut_ok m fn \<sigma>" and i: "current_instr fn \<sigma> = Some i" and "step m fn \<sigma> \<noteq> Stuck"
  shows "step m (cut_function fn) \<sigma> = step m fn \<sigma>"
proof -
  let ?i = "cut_instr fn (length (f_blocks fn)) (b_name (f_blocks fn ! st_block \<sigma>)) i"
  have at: "instr_at fn (st_block \<sigma>) (st_step \<sigma>) = Some i" using i by (simp add: current_instr_def)
  have i': "current_instr (cut_function fn) \<sigma> = Some ?i" using at by (simp add: current_instr_def cut_instr_at)
  obtain out where out: "exec m \<sigma> i = Some out" using assms(3) by (auto simp: step_instr[OF i] after_def split: option.splits)
  have "exec m \<sigma> ?i = exec m \<sigma> i"
  proof (cases "i_op i = ''phi''")
    case True
    from out True obtain x where "phi_value m \<sigma> i = Some x" by (auto simp: exec_def)
    with cut_phi_value[OF _ at True _ refl this] ok True show ?thesis by (simp add: exec_def cut_ok_def)
  qed simp
  then show ?thesis by (simp add: step_instr[OF i] step_instr[OF i'] after_result[of ?i i])
qed

text \<open>Where the terminator leads: the arm that is cut off is not taken, or leads nowhere.\<close>

lemma cut_goto:
  assumes "st_block \<sigma> < length (f_blocks fn)"
  shows "goto (cut_function fn) \<sigma> x = goto fn \<sigma> x"
proof -
  have same: "b_name (f_blocks (cut_function fn) ! st_block \<sigma>) = b_name (f_blocks fn ! st_block \<sigma>)"
    using assms by (simp add: cut_upto_nth)
  show ?thesis unfolding goto_def same by simp
qed

lemma goto_took:
  assumes "goto fn \<sigma> x = Go \<tau>" and "st_block \<sigma> < length (f_blocks fn)"
    and "\<And>taken. cut fn (st_block \<sigma>) = Some taken \<Longrightarrow> x = arm taken (b_term (f_blocks fn ! st_block \<sigma>))"
  shows "took fn \<tau>"
proof -
  from assms(1) obtain p where p: "positions (f_blocks fn) x = Some p" "st_block \<tau> = p"
    "st_from \<tau> = b_name (f_blocks fn ! st_block \<sigma>)" by (auto simp: goto_Go)
  with positions_Some[OF p(1)] assms(2,3) show ?thesis unfolding took_def by (intro disjI2 exI[of _ "st_block \<sigma>"]) auto
qed

lemma cut_term_goes:
  assumes ok: "cut_ok m fn \<sigma>" and lt: "st_block \<sigma> < length (f_blocks fn)" and none: "current_instr fn \<sigma> = None"
    and taken: "cut fn (st_block \<sigma>) = Some taken" and c: "operand m (st_env \<sigma>) (t_cond (b_term (f_blocks fn ! st_block \<sigma>))) = Some (BoolV c)"
  shows "c = taken \<or> arm c (b_term (f_blocks fn ! st_block \<sigma>)) \<in> set (dead_blocks fn)"
proof -
  let ?t = "b_term (f_blocks fn ! st_block \<sigma>)"
  from ok obtain vals s where \<sigma>: "reach m fn (start (call_env fn vals) s) \<sigma>" and wf: "copy_wf fn"
    by (auto simp: cut_ok_def branch_wf_def)
  show ?thesis
  proof (cases "known_conditions fn (v_name (t_cond ?t))")
    case None
    with taken show ?thesis
      by (cases c) (auto simp: cut_def branch_taken_def arm_def split: if_splits)
  next
    case (Some known)
    with taken have known: "known = taken" by (auto simp: cut_def branch_taken_def split: if_splits)
    have "point_of \<sigma> = end_point fn (st_block \<sigma>)"
      using none lt reach_entered[OF \<sigma>]
      by (auto simp: current_instr_def instr_at_def point_of_def end_point_def split: if_splits)
    then have "defined_before fn (v_name (t_cond ?t)) (point_of \<sigma>)"
      using wf lt by (simp add: copy_wf_def strict_def term_reads_def)
    from known_condition[OF wf \<sigma> Some this] c known show ?thesis by (simp add: operand_bound)
  qed
qed

lemma cut_step_end:
  assumes ok: "cut_ok m fn \<sigma>" and lt: "st_block \<sigma> < length (f_blocks fn)" and none: "current_instr fn \<sigma> = None"
    and "step m fn \<sigma> \<noteq> Stuck"
  shows "(\<exists>\<tau>. step m fn \<sigma> = Go \<tau> \<and> doomed fn \<tau>) \<or>
    step m (cut_function fn) \<sigma> = step m fn \<sigma> \<and> (\<forall>\<tau>. step m fn \<sigma> = Go \<tau> \<longrightarrow> took fn \<tau>)"
proof -
  let ?t = "b_term (f_blocks fn ! st_block \<sigma>)"
  have step: "step m fn \<sigma> = end_block m fn \<sigma> ?t" using none lt by (simp add: step_end)
  have "current_instr (cut_function fn) \<sigma> = None"
    using none by (simp add: current_instr_def cut_instr_at)
  then have step': "step m (cut_function fn) \<sigma> = end_block m (cut_function fn) \<sigma> (cut_term fn (st_block \<sigma>))"
    using lt by (simp add: step_end cut_upto_nth)
  have goto: "goto (cut_function fn) \<sigma> = goto fn \<sigma>" using cut_goto[OF lt] by (rule ext)
  show ?thesis
  proof (cases "cut fn (st_block \<sigma>)")
    case None
    have "end_block m (cut_function fn) \<sigma> = end_block m fn \<sigma>" by (intro ext) (unfold end_block_def goto, rule refl)
    then have "step m (cut_function fn) \<sigma> = step m fn \<sigma>" using step step' None by (simp add: cut_term_def)
    moreover have "took fn \<tau>" if "step m fn \<sigma> = Go \<tau>" for \<tau>
      using end_block_Go[of m fn \<sigma> ?t \<tau>] that step goto_took[OF _ lt, of _ \<tau>] None by auto
    ultimately show ?thesis by blast
  next
    case (Some taken)
    have jump: "step m (cut_function fn) \<sigma> = goto fn \<sigma> (arm taken ?t)"
      using step' Some goto by (simp add: cut_term_def end_block_def new_term_def)
    have "t_op ?t = ''branch''" using Some by (auto simp: cut_def branch_taken_def split: if_splits)
    then obtain c where c: "operand m (st_env \<sigma>) (t_cond ?t) = Some (BoolV c)" "step m fn \<sigma> = goto fn \<sigma> (arm c ?t)"
      using assms(4) step by (auto simp: end_block_def arm_def split: option.splits val.splits)
    from cut_term_goes[OF ok lt none Some c(1)] show ?thesis
    proof
      assume "c = taken"
      then show ?thesis using jump c(2) goto_took[OF _ lt] Some by auto
    next
      assume dead: "arm c ?t \<in> set (dead_blocks fn)"
      from c(2) assms(4) obtain \<tau> where \<tau>: "step m fn \<sigma> = Go \<tau>" "goto fn \<sigma> (arm c ?t) = Go \<tau>"
        by (cases "goto fn \<sigma> (arm c ?t)") auto
      then obtain p where "positions (f_blocks fn) (arm c ?t) = Some p" "st_block \<tau> = p" by (auto simp: goto_Go)
      with positions_Some[of "f_blocks fn" "arm c ?t" p] dead have "doomed fn \<tau>" by (simp add: doomed_def)
      with \<tau>(1) show ?thesis by blast
    qed
  qed
qed

interpretation cuts: simulation m cut_function "cut_sim m" for m
proof
  fix fn \<sigma> \<sigma>'
  assume sim: "cut_sim m fn \<sigma> \<sigma>'"
  have stuck: "step m fn \<sigma> = Stuck" if "doomed fn \<sigma>" using doomed_stuck that sim by (simp add: cut_sim_def)
  have ok: "cut_ok m fn \<sigma>" "\<sigma>' = \<sigma>" if "step m fn \<sigma> \<noteq> Stuck" using sim stuck that by (auto simp: cut_sim_def)
  have next_ok: "cut_ok m fn \<tau>" if "step m fn \<sigma> = Go \<tau>" "took fn \<tau>" for \<tau>
    using ok(1) that by (auto simp: cut_ok_def intro: reach.further)
  have lt: "st_block \<sigma> < length (f_blocks fn)" if "step m fn \<sigma> \<noteq> Stuck"
    using that by (rule_tac ccontr) (simp add: step_def)
  show "cut_sim m fn \<tau> \<sigma>' \<or> (\<exists>\<tau>'. step m (cut_function fn) \<sigma>' = Go \<tau>' \<and> cut_sim m fn \<tau> \<tau>')"
    if go: "step m fn \<sigma> = Go \<tau>" for \<tau>
  proof (cases "current_instr fn \<sigma>")
    case (Some i)
    have "st_from \<tau> = st_from \<sigma>" "st_block \<tau> = st_block \<sigma>" using go Some by (auto simp: step_instr after_Go)
    moreover have "took fn \<sigma>" using ok(1) go by (simp add: cut_ok_def)
    ultimately have "took fn \<tau>" by (simp add: took_def)
    with cut_step_instr[OF ok(1) Some] go ok(2) next_ok[OF go] sim show ?thesis by (auto simp: cut_sim_def)
  next
    case None
    from cut_step_end[OF ok(1) lt None] go ok(2) next_ok[OF go] sim show ?thesis by (auto simp: cut_sim_def)
  qed
  show "step m (cut_function fn) \<sigma>' = Done x s" if d: "step m fn \<sigma> = Done x s" for x s
  proof (cases "current_instr fn \<sigma>")
    case (Some i)
    with cut_step_instr[OF ok(1) Some] d ok(2) show ?thesis by simp
  next
    case None
    with cut_step_end[OF ok(1) lt None] d ok(2) show ?thesis by auto
  qed
qed

lemma cut_preserves:
  assumes "branch_wf fn" and "call_for n m fn vals s = Some r"
  shows "call_for n m (cut_function fn) vals s = Some r"
proof -
  have "cut_ok m fn (start (call_env fn vals) s)"
    using assms(1) reach.here[of m fn] unfolding cut_ok_def by (auto simp: took_def start_def)
  moreover have "block_names_ok fn" using assms(1) by (simp add: branch_wf_def copy_wf_def)
  moreover have "call_env (cut_function fn) vals = (call_env fn vals :: 'a env)" by (simp add: call_env_def)
  ultimately show ?thesis
    using cuts.run_preserved[where fn = fn and \<sigma> = "start (call_env fn vals) s"] assms(2)
    by (simp add: call_for_def cut_sim_def)
qed

section \<open>Cutting branches keeps the function well formed\<close>

lemma cut_all_instrs:
  "i' \<in> set (all_instrs (cut_function fn)) \<longleftrightarrow>
    (\<exists>p k i. instr_at fn p k = Some i \<and> i' = cut_instr fn (length (f_blocks fn)) (b_name (f_blocks fn ! p)) i)"
proof
  assume "i' \<in> set (all_instrs (cut_function fn))"
  from in_all_instrs[OF this] show "\<exists>p k i. instr_at fn p k = Some i \<and> i' = cut_instr fn (length (f_blocks fn)) (b_name (f_blocks fn ! p)) i"
    by (auto simp: cut_instr_at)
next
  assume "\<exists>p k i. instr_at fn p k = Some i \<and> i' = cut_instr fn (length (f_blocks fn)) (b_name (f_blocks fn ! p)) i"
  then obtain p k where "instr_at (cut_function fn) p k = Some i'" by (auto simp: cut_instr_at)
  then show "i' \<in> set (all_instrs (cut_function fn))" by (rule instr_at_all)
qed

lemma cut_results: "results (cut_function fn) = results fn"
proof -
  have "map block_results (f_blocks (cut_function fn)) = map block_results (f_blocks fn)"
    by (rule nth_equalityI) (simp_all add: cut_upto_nth block_results_def comp_def)
  then show ?thesis by (simp only: results_concat)
qed

lemma cut_instr_reads: "set (instr_reads (cut_instr fn k x i)) \<subseteq> set (instr_reads i)"
proof -
  have "set (instr_reads j) = set (direct_reads j) \<union> in_value ` set (i_incoming j)" for j
    by (auto simp: instr_reads_def direct_reads_def)
  from this[of i] this[of "cut_instr fn k x i"] image_mono[OF cut_instr_simps(5)[of fn k x i], of in_value]
  show ?thesis by auto
qed

lemma cut_term_reads: "v \<in> set (term_reads (cut_term fn p)) \<Longrightarrow> v \<in> set (term_reads (b_term (f_blocks fn ! p))) \<or> v_name v = []"
  by (auto simp: cut_term_def term_reads_def new_term_def no_value_def split: option.splits)

lemma cut_edge: "block_names_ok fn \<Longrightarrow> edge (cut_function fn) u w \<Longrightarrow> edge fn u w"
proof -
  assume names: "block_names_ok fn" and e: "edge (cut_function fn) u w"
  have "positions (f_blocks fn) [] = None"
    using names positions_dom[of "[]" "f_blocks fn"] by (auto simp: block_names_ok_def)
  then show "edge fn u w" using e
    by (cases u) (auto simp: edge_def cut_upto_nth cut_term_def arm_def new_term_def split: if_splits option.splits)
qed

lemma cut_avoids:
  assumes "block_names_ok fn"
  shows "avoids (cut_function fn) d u \<Longrightarrow> avoids fn d u"
  by (induction rule: avoids.induct) (auto intro: avoids.intros cut_edge[OF assms])

lemma cut_before: "block_names_ok fn \<Longrightarrow> defined_before fn x u \<Longrightarrow> defined_before (cut_function fn) x u"
  unfolding defined_before_def
proof (intro allI impI)
  fix p k i'
  assume names: "block_names_ok fn" and x: "v_name (i_result i') = x" "x \<noteq> []"
    and before: "\<forall>p k i. instr_at fn p k = Some i \<longrightarrow> v_name (i_result i) = x \<longrightarrow> x \<noteq> [] \<longrightarrow> \<not> avoids fn (p, k) u"
    and "instr_at (cut_function fn) p k = Some i'"
  then obtain i where "instr_at fn p k = Some i" "v_name (i_result i) = x" by (auto simp: cut_instr_at)
  with before x cut_avoids[OF names, of "(p, k)" u] show "\<not> avoids (cut_function fn) (p, k) u" by blast
qed

lemma cut_strict:
  assumes names: "block_names_ok fn" and strict: "strict fn"
  shows "strict (cut_function fn)"
  unfolding strict_def
proof (intro conjI allI impI)
  fix p k i'
  assume "instr_at (cut_function fn) p k = Some i'"
  then obtain i where i: "instr_at fn p k = Some i" "i' = cut_instr fn (length (f_blocks fn)) (b_name (f_blocks fn ! p)) i"
    by (auto simp: cut_instr_at)
  have end_point: "end_point (cut_function fn) q = end_point fn q" if "q < length (f_blocks fn)" for q
    using that by (simp add: end_point_def cut_upto_nth)
  show "if i_op i' = ''phi''
       then \<forall>inc\<in>set (i_incoming i'). \<exists>q. positions (f_blocks (cut_function fn)) (in_block inc) = Some q \<and>
              defined_before (cut_function fn) (v_name (in_value inc)) (end_point (cut_function fn) q)
       else \<forall>v\<in>set (direct_reads i'). defined_before (cut_function fn) (v_name v) (p, k)"
  proof (cases "i_op i = ''phi''")
    case True
    have "\<exists>q. positions (f_blocks (cut_function fn)) (in_block inc) = Some q \<and>
          defined_before (cut_function fn) (v_name (in_value inc)) (end_point (cut_function fn) q)"
      if "inc \<in> set (i_incoming i')" for inc
    proof -
      have "inc \<in> set (i_incoming i)" using that i(2) cut_instr_simps(5) by blast
      with strict i(1) True obtain q where q: "positions (f_blocks fn) (in_block inc) = Some q"
        "defined_before fn (v_name (in_value inc)) (end_point fn q)" unfolding strict_def by metis
      with cut_before[OF names q(2)] end_point[of q] positions_Some[OF q(1)] show ?thesis by simp
    qed
    then show ?thesis using True i(2) by simp
  next
    case False
    then have "\<forall>v\<in>set (direct_reads i). defined_before fn (v_name v) (p, k)" using strict i(1) unfolding strict_def by metis
    then show ?thesis using cut_before[OF names] False i(2) by simp
  qed
next
  fix p
  assume p: "p < length (f_blocks (cut_function fn))"
  show "\<forall>v\<in>set (term_reads (b_term (f_blocks (cut_function fn) ! p))).
      defined_before (cut_function fn) (v_name v) (end_point (cut_function fn) p)"
  proof
    fix v
    assume "v \<in> set (term_reads (b_term (f_blocks (cut_function fn) ! p)))"
    then have "v \<in> set (term_reads (b_term (f_blocks fn ! p))) \<or> v_name v = []"
      using cut_term_reads p by (auto simp: cut_upto_nth)
    then have "defined_before fn (v_name v) (end_point fn p)"
      using strict p by (auto simp: strict_def) (simp add: defined_before_def)
    then show "defined_before (cut_function fn) (v_name v) (end_point (cut_function fn) p)"
      using cut_before[OF names] p by (simp add: end_point_def cut_upto_nth)
  qed
qed

lemma cut_exact:
  assumes names: "block_names_ok fn" and exact: "phi_exact fn"
  shows "phi_exact (cut_function fn)"
proof -
  let ?n = "length (f_blocks fn)"
  have "length (incoming_from (cut_instr fn ?n (b_name (f_blocks fn ! p)) i) (b_name (f_blocks fn ! q))) =
      length (filter (\<lambda>x. x = b_name (f_blocks fn ! p)) (successors (cut_term fn q)))"
    if p: "p < ?n" and i: "i \<in> set (b_instrs (f_blocks fn ! p))" "i_op i = ''phi''" and q: "q < ?n" for p i q
  proof -
    let ?b = "b_name (f_blocks fn ! p)" and ?t = "b_term (f_blocks fn ! q)"
    have before: "length (incoming_from i (b_name (f_blocks fn ! q))) = length (filter (\<lambda>x. x = ?b) (successors ?t))"
      using exact p i q unfolding phi_exact_def list_all_iff by (meson nth_mem)
    have "?b \<noteq> []" using names p unfolding block_names_ok_def by (metis imageI nth_mem)
    moreover have "length (incoming_from (cut_instr fn ?n ?b i) (b_name (f_blocks fn ! q))) =
        (if cuts_into fn q ?b then length (incoming_from i (b_name (f_blocks fn ! q))) - 1
         else length (incoming_from i (b_name (f_blocks fn ! q))))"
      using incoming_from_cut[OF i(2) _ q order_refl] names q by (simp add: block_names_ok_def)
    ultimately show ?thesis using before
      by (cases "cut fn q"; cases "the (cut fn q)")
        (auto simp: cuts_into_def cut_term_def arm_def successors_def new_term_def split: if_splits)
  qed
  then show ?thesis by (auto simp: phi_exact_def list_all_iff cut_upto_def Let_def)
qed

text \<open>Dropping incoming values keeps the rest as they should be.\<close>

lemma phi_subset:
  assumes "\<And>i'. i' \<in> set (all_instrs fn') \<Longrightarrow> i_op i' = ''phi'' \<Longrightarrow> \<exists>i\<in>set (all_instrs fn).
      i_op i = i_op i' \<and> i_result i = i_result i' \<and> set (i_incoming i') \<subseteq> set (i_incoming i)"
    and "branch_wf fn"
  shows "phi_types fn'" and "phi_agree fn'"
proof -
  have old: "\<forall>i\<in>set (all_instrs fn). i_op i = ''phi'' \<longrightarrow> (\<forall>inc\<in>set (i_incoming i). v_type (in_value inc) = v_type (i_result i))"
    "\<forall>i\<in>set (all_instrs fn). i_op i = ''phi'' \<longrightarrow>
       (\<forall>a\<in>set (i_incoming i). \<forall>b\<in>set (i_incoming i). in_block a = in_block b \<longrightarrow> in_value a = in_value b)"
    using assms(2) unfolding branch_wf_def phi_types_def phi_agree_def list_all_iff by blast+
  have "(\<forall>inc\<in>set (i_incoming i'). v_type (in_value inc) = v_type (i_result i')) \<and>
      (\<forall>a\<in>set (i_incoming i'). \<forall>b\<in>set (i_incoming i'). in_block a = in_block b \<longrightarrow> in_value a = in_value b)"
    if "i' \<in> set (all_instrs fn')" "i_op i' = ''phi''" for i'
  proof -
    from assms(1)[OF that] obtain i where i: "i \<in> set (all_instrs fn)" "i_op i = i_op i'" "i_result i = i_result i'"
      "set (i_incoming i') \<subseteq> set (i_incoming i)" by blast
    have "i_op i = ''phi''" using i(2) that(2) by simp
    then have "\<forall>inc\<in>set (i_incoming i). v_type (in_value inc) = v_type (i_result i')"
      "\<forall>a\<in>set (i_incoming i). \<forall>b\<in>set (i_incoming i). in_block a = in_block b \<longrightarrow> in_value a = in_value b"
      using old i(1) unfolding i(3)[symmetric] by blast+
    with i(4) show ?thesis by blast
  qed
  then show "phi_types fn'" "phi_agree fn'" unfolding phi_types_def phi_agree_def list_all_iff by blast+
qed

lemma consistent_subset:
  assumes "\<And>i'. i' \<in> set (all_instrs fn') \<Longrightarrow> \<exists>i\<in>set (all_instrs fn). i_result i = i_result i' \<and>
      set (instr_reads i') \<subseteq> set (instr_reads i) \<and> (i_op i' = ''id'' \<longrightarrow> i_op i = ''id'' \<and> i_args i = i_args i')"
    and "\<And>b v. b \<in> set (f_blocks fn') \<Longrightarrow> v \<in> set (term_reads (b_term b)) \<Longrightarrow>
      v_name v = [] \<or> (\<exists>b\<in>set (f_blocks fn). v \<in> set (term_reads (b_term b)))"
    and old: "consistent_types fn"
  shows "consistent_types fn'"
  unfolding consistent_types_def
proof (intro ballI impI conjI)
  fix i'
  assume "i' \<in> set (all_instrs fn')" and named: "v_name (i_result i') \<noteq> []"
  from assms(1)[OF this(1)] obtain i where i: "i \<in> set (all_instrs fn)" "i_result i = i_result i'"
    "i_op i' = ''id'' \<longrightarrow> i_op i = ''id'' \<and> i_args i = i_args i'" by blast
  show "v_type v = v_type (i_result i')"
    if "j' \<in> set (all_instrs fn')" "v \<in> set (instr_reads j')" "v_name v = v_name (i_result i')" for j' v
  proof -
    from assms(1)[OF that(1)] that(2) obtain j where "j \<in> set (all_instrs fn)" "v \<in> set (instr_reads j)" by blast
    from read_typed[OF old this] i(1,2) that(3) named show ?thesis by (simp add: typed_read_def)
  qed
  show "v_type v = v_type (i_result i')"
    if "b \<in> set (f_blocks fn')" "v \<in> set (term_reads (b_term b))" "v_name v = v_name (i_result i')" for b v
    using assms(2)[OF that(1,2)] old i(1,2) that(3) named unfolding consistent_types_def by metis
  show "v_type a = v_type (i_result i')" if "i_op i' = ''id''" "a \<in> set (i_args i')" for a
    using that i old named unfolding consistent_types_def by metis
qed

lemma cut_branch_wf:
  assumes wf: "branch_wf fn"
  shows "branch_wf (cut_function fn)"
proof -
  let ?fn = "cut_function fn"
  have old: "ssa fn" "strict fn" "consistent_types fn" "block_names_ok fn"
    using wf by (simp_all add: branch_wf_def copy_wf_def)
  have "ssa ?fn"
  proof -
    have "\<forall>i\<in>set (all_instrs ?fn). v_name (i_result i) = [] \<longrightarrow> i_op i = ''cond_fail''"
      using old(1) instr_at_all[of fn] by (fastforce simp: cut_all_instrs ssa_def)
    then show ?thesis using old(1) by (simp add: ssa_def cut_results param_names_def)
  qed
  moreover have "consistent_types ?fn"
  proof (rule consistent_subset[OF _ _ old(3)])
    fix i'
    assume "i' \<in> set (all_instrs ?fn)"
    then obtain p k i where i: "instr_at fn p k = Some i" "i' = cut_instr fn (length (f_blocks fn)) (b_name (f_blocks fn ! p)) i"
      by (auto simp: cut_all_instrs)
    with instr_at_all[OF i(1)] cut_instr_reads
    show "\<exists>i\<in>set (all_instrs fn). i_result i = i_result i' \<and> set (instr_reads i') \<subseteq> set (instr_reads i) \<and>
        (i_op i' = ''id'' \<longrightarrow> i_op i = ''id'' \<and> i_args i = i_args i')"
      by (intro bexI[of _ i]) (cases "i_op i = ''phi''"; simp)+
  next
    fix b v
    assume "b \<in> set (f_blocks ?fn)" "v \<in> set (term_reads (b_term b))"
    then obtain q where "q < length (f_blocks fn)" "v \<in> set (term_reads (cut_term fn q))"
      by (auto simp: cut_upto_def Let_def)
    with cut_term_reads[of v fn q] show "v_name v = [] \<or> (\<exists>b\<in>set (f_blocks fn). v \<in> set (term_reads (b_term b)))"
      by (metis nth_mem)
  qed
  moreover have "map b_name (f_blocks ?fn) = map b_name (f_blocks fn)"
    by (rule nth_equalityI) (simp_all add: cut_upto_nth)
  then have "block_names_ok ?fn" using old(4) by (metis block_names_ok_def list.set_map)
  moreover have "no_entry_phi ?fn"
  proof -
    obtain b bs where b: "f_blocks fn = b # bs" "\<forall>i\<in>set (b_instrs b). i_op i \<noteq> ''phi''"
      using wf by (cases "f_blocks fn") (auto simp: branch_wf_def no_entry_phi_def list_all_iff)
    then have "cut_upto fn (length (f_blocks fn)) ! 0 = b\<lparr>b_instrs := b_instrs b, b_term := cut_term fn 0\<rparr>"
      by (simp add: cut_upto_nth map_idI)
    then have "\<forall>i\<in>set (b_instrs (cut_upto fn (length (f_blocks fn)) ! 0)). i_op i \<noteq> ''phi''" using b by simp
    moreover have "cut_upto fn (length (f_blocks fn)) \<noteq> []" using b(1) by (simp flip: length_greater_0_conv)
    ultimately show ?thesis by (cases "cut_upto fn (length (f_blocks fn))") (simp_all add: no_entry_phi_def list_all_iff)
  qed
  moreover have sub: "\<exists>i\<in>set (all_instrs fn). i_op i = i_op i' \<and> i_result i = i_result i' \<and> set (i_incoming i') \<subseteq> set (i_incoming i)"
    if "i' \<in> set (all_instrs ?fn)" "i_op i' = ''phi''" for i'
  proof -
    from that(1) obtain p k i where i: "instr_at fn p k = Some i" "i' = cut_instr fn (length (f_blocks fn)) (b_name (f_blocks fn ! p)) i"
      by (auto simp: cut_all_instrs)
    then show ?thesis using cut_instr_simps(5) instr_at_all[OF i(1)]
      by (intro bexI[of _ i]) simp_all
  qed
  moreover have "phi_exact ?fn" using cut_exact[OF old(4)] wf by (simp add: branch_wf_def)
  ultimately show ?thesis using cut_strict[OF old(4,2)] phi_subset[OF sub wf] by (simp add: branch_wf_def copy_wf_def)
qed

section \<open>What the search finds\<close>

definition searched_all :: "nat \<Rightarrow> (nat \<Rightarrow> nat list) \<Rightarrow> (nat \<Rightarrow> bool) \<Rightarrow> nat list \<Rightarrow> nat list \<Rightarrow> nat set \<Rightarrow> bool" where
  "searched_all n succ P stack reached R \<longleftrightarrow> set reached \<subseteq> R \<and> (\<forall>p\<in>set stack. p < n \<longrightarrow> p \<in> R) \<and>
     (\<forall>p\<in>R. \<forall>q\<in>set (succ p). q < n \<longrightarrow> q \<in> R) \<and> (\<forall>p\<in>R. P p)"

lemma reach_blocks_result:
  assumes P: "\<forall>p q. P p \<longrightarrow> q \<in> set (succ p) \<longrightarrow> P q"
  shows "(\<forall>p\<in>set reached. \<forall>q\<in>set (succ p). q < n \<longrightarrow> q \<in> set reached \<union> set stack) \<Longrightarrow>
    (\<forall>p\<in>set stack \<union> set reached. P p) \<Longrightarrow>
    searched_all n succ P stack reached (set (reach_blocks n succ stack reached))"
  using P
proof (induction n succ stack reached rule: reach_blocks.induct)
  case (1 n succ reached)
  then show ?case by (simp add: searched_all_def)
next
  case (2 n succ p stack reached)
  show ?case
  proof (cases "p \<in> set reached \<or> n \<le> p")
    case True
    have "\<forall>p'\<in>set reached. \<forall>q\<in>set (succ p'). q < n \<longrightarrow> q \<in> set reached \<union> set stack" using 2(3) True by fastforce
    from 2(1)[OF True this _ 2(5)] 2(4)
    have s: "searched_all n succ P stack reached (set (reach_blocks n succ stack reached))" by simp
    have "reach_blocks n succ (p # stack) reached = reach_blocks n succ stack reached" using True by simp
    with s True show ?thesis unfolding searched_all_def by (metis leD set_ConsD subsetD)
  next
    case False
    let ?stack = "rev (filter (\<lambda>q. q \<notin> set (p # reached)) (succ p)) @ stack"
    have "\<forall>p'\<in>set (p # reached). \<forall>q\<in>set (succ p'). q < n \<longrightarrow> q \<in> set (p # reached) \<union> set ?stack"
      using 2(3) by auto
    moreover have "P p" using 2(4) by simp
    then have "\<forall>q\<in>set (succ p). P q" using 2(5) by blast
    then have "\<forall>p'\<in>set ?stack \<union> set (p # reached). P p'" using 2(4) by auto
    ultimately have "searched_all n succ P ?stack (p # reached) (set (reach_blocks n succ ?stack (p # reached)))"
      using 2(2)[OF False _ _ 2(5)] by blast
    with False show ?thesis by (simp add: searched_all_def)
  qed
qed

declare reach_blocks.simps [simp del]

text \<open>The positions reached are those of the paths of blocks.\<close>

lemma reached_exact:
  assumes "f_blocks fn \<noteq> []"
  shows "p \<in> set (reached_blocks fn) \<longleftrightarrow> (\<exists>ps. block_path fn ps p)"
proof -
  let ?R = "set (reached_blocks fn)" and ?n = "length (f_blocks fn)"
  have "searched_all ?n (succ_positions fn) (\<lambda>p. \<exists>ps. block_path fn ps p) [0] [] ?R"
    unfolding reached_blocks_def by (rule reach_blocks_result) (auto intro: block_path.intros)
  then have R: "0 \<in> ?R" "\<And>p q. p \<in> ?R \<Longrightarrow> q \<in> set (succ_positions fn p) \<Longrightarrow> q \<in> ?R" "\<And>p. p \<in> ?R \<Longrightarrow> \<exists>ps. block_path fn ps p"
    using assms succ_positions_bound[of fn] by (auto simp: searched_all_def)
  have "p \<in> ?R" if "block_path fn ps p" for ps
    using that by (induction rule: block_path.induct) (auto intro: R)
  with R(3) show ?thesis by blast
qed

lemma block_path_bound: "f_blocks fn \<noteq> [] \<Longrightarrow> block_path fn ps p \<Longrightarrow> p < length (f_blocks fn)"
  by (erule block_path.cases) (use succ_positions_bound in auto)

lemma kept_facts:
  assumes "f_blocks fn \<noteq> []"
  shows "distinct (kept_positions fn)" and "set (kept_positions fn) = set (reached_blocks fn)"
    and "kept_positions fn \<noteq> []" and "kept_positions fn ! 0 = 0"
proof -
  show "distinct (kept_positions fn)" by (simp add: kept_positions_def)
  show s: "set (kept_positions fn) = set (reached_blocks fn)"
    using block_path_bound[OF assms] by (auto simp: kept_positions_def reached_exact[OF assms])
  have zero: "0 \<in> set (reached_blocks fn)" using reached_exact[OF assms] path_entry by blast
  then show "kept_positions fn \<noteq> []" using s by auto
  have "[0..<length (f_blocks fn)] = 0 # [1..<length (f_blocks fn)]" using assms by (simp add: upt_conv_Cons)
  then show "kept_positions fn ! 0 = 0" using zero by (simp add: kept_positions_def)
qed

section \<open>Removing them preserves runs\<close>

definition live_names :: "func \<Rightarrow> name list" where
  "live_names fn = map (\<lambda>p. b_name (f_blocks fn ! p)) (kept_positions fn)"

lemma removed_blocks:
  "length (f_blocks (remove_unreachable_blocks fn)) = length (kept_positions fn)"
  "j < length (kept_positions fn) \<Longrightarrow> f_blocks (remove_unreachable_blocks fn) ! j =
     (f_blocks fn ! (kept_positions fn ! j))\<lparr>b_instrs := map (keep_incoming (live_names fn)) (b_instrs (f_blocks fn ! (kept_positions fn ! j)))\<rparr>"
  "f_params (remove_unreachable_blocks fn) = f_params fn"
  by (simp_all add: remove_unreachable_blocks_def Let_def live_names_def comp_def)

lemma kept_bound: "j < length (kept_positions fn) \<Longrightarrow> kept_positions fn ! j < length (f_blocks fn)"
  using nth_mem[of j "kept_positions fn"] by (auto simp: kept_positions_def)

lemma removed_names_distinct:
  assumes "block_names_ok fn"
  shows "distinct (map b_name (f_blocks (remove_unreachable_blocks fn)))"
proof -
  have "map b_name (f_blocks (remove_unreachable_blocks fn)) = map (\<lambda>p. map b_name (f_blocks fn) ! p) (kept_positions fn)"
    by (rule nth_equalityI) (simp_all add: removed_blocks kept_bound)
  moreover have "inj_on (\<lambda>p. map b_name (f_blocks fn) ! p) (set (kept_positions fn))"
    using assms by (intro inj_on_nth) (auto simp: block_names_ok_def kept_positions_def)
  ultimately show ?thesis by (simp add: distinct_map kept_positions_def)
qed

lemma removed_positions:
  assumes names: "block_names_ok fn"
  shows "positions (f_blocks (remove_unreachable_blocks fn)) x = Some j \<longleftrightarrow>
    j < length (kept_positions fn) \<and> positions (f_blocks fn) x = Some (kept_positions fn ! j)"
proof
  assume "positions (f_blocks (remove_unreachable_blocks fn)) x = Some j"
  from positions_Some[OF this] have j: "j < length (kept_positions fn)" "b_name (f_blocks fn ! (kept_positions fn ! j)) = x"
    by (auto simp: removed_blocks)
  with positions_distinct[OF _ kept_bound[OF j(1)]] names
  show "j < length (kept_positions fn) \<and> positions (f_blocks fn) x = Some (kept_positions fn ! j)"
    by (simp add: block_names_ok_def)
next
  assume j: "j < length (kept_positions fn) \<and> positions (f_blocks fn) x = Some (kept_positions fn ! j)"
  then have "b_name (f_blocks (remove_unreachable_blocks fn) ! j) = x"
    using positions_Some[of "f_blocks fn" x] by (auto simp: removed_blocks)
  with positions_distinct[OF removed_names_distinct[OF names], of j] j
  show "positions (f_blocks (remove_unreachable_blocks fn)) x = Some j" by (simp add: removed_blocks)
qed

lemma removed_instr_at:
  "j < length (kept_positions fn) \<Longrightarrow> instr_at (remove_unreachable_blocks fn) j k =
    map_option (keep_incoming (live_names fn)) (instr_at fn (kept_positions fn ! j) k)"
  using kept_bound[of j fn] by (simp add: instr_at_def removed_blocks)

lemma keep_incoming_simps [simp]:
  "i_op (keep_incoming live i) = i_op i" "i_result (keep_incoming live i) = i_result i" "i_args (keep_incoming live i) = i_args i"
  "direct_reads (keep_incoming live i) = direct_reads i"
  "i_op i \<noteq> ''phi'' \<Longrightarrow> keep_incoming live i = i"
  by (simp_all add: keep_incoming_def direct_reads_def)

lemma keep_incoming_subset: "set (i_incoming (keep_incoming live i)) \<subseteq> set (i_incoming i)"
  by (auto simp: keep_incoming_def)

lemma keep_incoming_from: "x \<in> set live \<Longrightarrow> incoming_from (keep_incoming live i) x = incoming_from i x"
  by (auto simp: incoming_from_def keep_incoming_def intro!: filter_cong)

lemma phi_value_incoming:
  "phi_value m \<sigma> i = (case incoming_from i (st_from \<sigma>) of [] \<Rightarrow> None | inc # _ \<Rightarrow> operand m (st_entry \<sigma>) (in_value inc))"
  by (simp add: phi_value_def find_hd incoming_from_def split: list.splits)

definition removed_sim :: "('v, 's) machine \<Rightarrow> func \<Rightarrow> ('v, 's) state \<Rightarrow> ('v, 's) state \<Rightarrow> bool" where
  "removed_sim m fn \<sigma> \<sigma>' \<longleftrightarrow> branch_wf fn \<and>
     (\<exists>j<length (kept_positions fn). st_block \<sigma> = kept_positions fn ! j \<and> \<sigma>' = \<sigma>\<lparr>st_block := j\<rparr>) \<and>
     (st_from \<sigma> = [] \<or> st_from \<sigma> \<in> set (live_names fn)) \<and>
     (st_step \<sigma> \<le> length (b_instrs (f_blocks fn ! st_block \<sigma>)))"

lemma branch_wf_names: "branch_wf fn \<Longrightarrow> block_names_ok fn" "branch_wf fn \<Longrightarrow> f_blocks fn \<noteq> []"
  by (auto simp: branch_wf_def copy_wf_def no_entry_phi_def split: list.splits)

lemma position_named: "block_names_ok fn \<Longrightarrow> positions (f_blocks fn) x = Some p \<Longrightarrow> x \<noteq> []"
  by (metis block_names_ok_def domI positions_dom)

text \<open>An edge from a kept block goes to a kept block.\<close>

lemma kept_successor:
  assumes names: "block_names_ok fn" and ne: "f_blocks fn \<noteq> []" and j: "j < length (kept_positions fn)"
    and x: "x \<in> {t_target (b_term (f_blocks fn ! (kept_positions fn ! j))), t_else (b_term (f_blocks fn ! (kept_positions fn ! j)))}"
    and p: "positions (f_blocks fn) x = Some p"
  shows "\<exists>l<length (kept_positions fn). kept_positions fn ! l = p \<and> positions (f_blocks (remove_unreachable_blocks fn)) x = Some l"
proof -
  let ?q = "kept_positions fn ! j"
  have "x \<noteq> []" by (rule position_named[OF names p])
  with x p have "p \<in> set (succ_positions fn ?q)" by (auto simp: succ_positions_def in_map_filter successors_def)
  moreover have "?q \<in> set (reached_blocks fn)" using nth_mem[OF j] kept_facts(2)[OF ne] by simp
  ultimately have "p \<in> set (kept_positions fn)"
    using kept_facts(2)[OF ne] reached_exact[OF ne] by (auto intro: path_step)
  then obtain l where "l < length (kept_positions fn)" "kept_positions fn ! l = p" by (auto simp: in_set_conv_nth)
  with removed_positions[OF names, of x l] p show ?thesis by auto
qed

lemma removed_goto:
  assumes names: "block_names_ok fn" and ne: "f_blocks fn \<noteq> []" and j: "j < length (kept_positions fn)"
    and \<sigma>: "st_block \<sigma> = kept_positions fn ! j"
    and x: "x \<in> {t_target (b_term (f_blocks fn ! st_block \<sigma>)), t_else (b_term (f_blocks fn ! st_block \<sigma>))}"
    and go: "goto fn \<sigma> x = Go \<tau>"
  shows "\<exists>l<length (kept_positions fn). st_block \<tau> = kept_positions fn ! l \<and>
    goto (remove_unreachable_blocks fn) (\<sigma>\<lparr>st_block := j\<rparr>) x = Go (\<tau>\<lparr>st_block := l\<rparr>) \<and>
    st_from \<tau> \<in> set (live_names fn) \<and> st_step \<tau> = 0"
proof -
  from go obtain p where p: "positions (f_blocks fn) x = Some p"
    "\<tau> = \<sigma>\<lparr>st_block := p, st_step := 0, st_from := b_name (f_blocks fn ! st_block \<sigma>), st_entry := st_env \<sigma>\<rparr>"
    by (auto simp: goto_Go)
  from kept_successor[OF names ne j x[unfolded \<sigma>] p(1)] obtain l where
    l: "l < length (kept_positions fn)" "kept_positions fn ! l = p"
    "positions (f_blocks (remove_unreachable_blocks fn)) x = Some l" by blast
  have "b_name (f_blocks fn ! st_block \<sigma>) \<in> set (live_names fn)"
    using nth_mem[OF j] \<sigma> by (auto simp: live_names_def)
  with l p \<sigma> j show ?thesis by (intro exI[of _ l]) (simp add: goto_def removed_blocks)
qed

interpretation removed: simulation m remove_unreachable_blocks "removed_sim m" for m
proof
  fix fn \<sigma> \<sigma>'
  let ?fn = "remove_unreachable_blocks fn"
  assume sim: "removed_sim m fn \<sigma> \<sigma>'"
  then obtain j where wf: "branch_wf fn" and j: "j < length (kept_positions fn)" "st_block \<sigma> = kept_positions fn ! j"
    "\<sigma>' = \<sigma>\<lparr>st_block := j\<rparr>" and from_live: "st_from \<sigma> = [] \<or> st_from \<sigma> \<in> set (live_names fn)"
    by (auto simp: removed_sim_def)
  note names = branch_wf_names(1)[OF wf] and ne = branch_wf_names(2)[OF wf]
  have lt: "st_block \<sigma> < length (f_blocks fn)" using kept_bound[OF j(1)] j(2) by simp
  have exec: "exec m \<sigma>' (keep_incoming (live_names fn) i) = exec m \<sigma> i"
    if i: "current_instr fn \<sigma> = Some i" "exec m \<sigma> i \<noteq> None" for i
  proof (cases "i_op i = ''phi''")
    case True
    with i(2) obtain x where x: "phi_value m \<sigma> i = Some x" by (auto simp: exec_def)
    then obtain inc where inc: "inc \<in> set (incoming_from i (st_from \<sigma>))"
      by (auto simp: phi_value_incoming split: list.splits)
    have "inc \<in> set (i_incoming i)" "in_block inc = st_from \<sigma>" using inc by (auto simp: incoming_from_def)
    moreover have "strict fn" using wf by (simp add: branch_wf_def copy_wf_def)
    ultimately obtain r where "positions (f_blocks fn) (st_from \<sigma>) = Some r"
      using i(1) True unfolding strict_def current_instr_def by metis
    then have "st_from \<sigma> \<noteq> []" by (rule position_named[OF names])
    with from_live have "incoming_from (keep_incoming (live_names fn) i) (st_from \<sigma>) = incoming_from i (st_from \<sigma>)"
      by (intro keep_incoming_from) simp
    moreover have "st_from \<sigma>' = st_from \<sigma>" "st_entry \<sigma>' = st_entry \<sigma>" using j(3) by simp_all
    ultimately have "phi_value m \<sigma>' (keep_incoming (live_names fn) i) = phi_value m \<sigma> i"
      by (simp only: phi_value_incoming)
    then show ?thesis using True j(3) by (simp add: exec_def)
  next
    case False
    moreover from this have "keep_incoming (live_names fn) i = i" by simp
    moreover have "st_env \<sigma>' = st_env \<sigma>" "st_mem \<sigma>' = st_mem \<sigma>" using j(3) by simp_all
    ultimately show ?thesis by (simp only: exec_def if_False)
  qed
  have cur: "current_instr ?fn \<sigma>' = map_option (keep_incoming (live_names fn)) (current_instr fn \<sigma>)"
    using removed_instr_at[OF j(1)] j(2,3) by (simp add: current_instr_def)
  have ended: "step m ?fn \<sigma>' = end_block m ?fn \<sigma>' (b_term (f_blocks fn ! st_block \<sigma>))"
    "step m fn \<sigma> = end_block m fn \<sigma> (b_term (f_blocks fn ! st_block \<sigma>))" if "current_instr fn \<sigma> = None"
    using that cur j lt by (simp_all add: step_end removed_blocks)
  show "removed_sim m fn \<tau> \<sigma>' \<or> (\<exists>\<tau>'. step m ?fn \<sigma>' = Go \<tau>' \<and> removed_sim m fn \<tau> \<tau>')"
    if go: "step m fn \<sigma> = Go \<tau>" for \<tau>
  proof (cases "current_instr fn \<sigma>")
    case (Some i)
    then obtain x s where x: "exec m \<sigma> i = Some (Yield x s)"
      and \<tau>: "\<tau> = \<sigma>\<lparr>st_step := Suc (st_step \<sigma>), st_env := bind_result i x (st_env \<sigma>), st_mem := s\<rparr>"
      using go by (auto simp: step_instr after_Go)
    have "step m ?fn \<sigma>' = Go (\<tau>\<lparr>st_block := j\<rparr>)"
      using cur Some exec[OF Some] x \<tau> j(3) by (simp add: step_instr after_def bind_result_def)
    moreover have "removed_sim m fn \<tau> (\<tau>\<lparr>st_block := j\<rparr>)"
      using sim j \<tau> Some by (auto simp: removed_sim_def current_instr_Some)
    ultimately show ?thesis by blast
  next
    case None
    from ended(2)[OF None] go have "end_block m fn \<sigma> (b_term (f_blocks fn ! st_block \<sigma>)) = Go \<tau>" by simp
    then obtain x where x: "x \<in> {t_target (b_term (f_blocks fn ! st_block \<sigma>)), t_else (b_term (f_blocks fn ! st_block \<sigma>))}"
      "goto fn \<sigma> x = Go \<tau>" "\<And>m' fn' \<sigma>'. st_env \<sigma>' = st_env \<sigma> \<Longrightarrow> end_block m fn' \<sigma>' (b_term (f_blocks fn ! st_block \<sigma>)) = goto fn' \<sigma>' x"
      by (auto simp: end_block_def split: if_splits option.splits val.splits)
    from removed_goto[OF names ne j(1,2) x(1,2)] obtain l where l: "l < length (kept_positions fn)" "st_block \<tau> = kept_positions fn ! l"
      "goto ?fn (\<sigma>\<lparr>st_block := j\<rparr>) x = Go (\<tau>\<lparr>st_block := l\<rparr>)" "st_from \<tau> \<in> set (live_names fn)" "st_step \<tau> = 0" by blast
    have "step m ?fn \<sigma>' = Go (\<tau>\<lparr>st_block := l\<rparr>)" using ended(1)[OF None] x(3)[of \<sigma>' ?fn] l(3) j(3) by simp
    moreover have "removed_sim m fn \<tau> (\<tau>\<lparr>st_block := l\<rparr>)" using wf l by (auto simp: removed_sim_def)
    ultimately show ?thesis by blast
  qed
  show "step m ?fn \<sigma>' = Done x s" if d: "step m fn \<sigma> = Done x s" for x s
  proof (cases "current_instr fn \<sigma>")
    case (Some i)
    with d have "exec m \<sigma> i = Some (Leave x s)" by (auto simp: step_instr after_def split: option.splits outcome.splits)
    with exec[OF Some] Some cur show ?thesis by (simp add: step_instr after_def)
  next
    case None
    have "end_block m fn \<sigma> (b_term (f_blocks fn ! st_block \<sigma>)) = Done x s" using ended(2)[OF None] d by simp
    then have "end_block m ?fn \<sigma>' (b_term (f_blocks fn ! st_block \<sigma>)) = Done x s"
      using j(3) by (auto simp: end_block_def split: if_splits option.splits val.splits)
    then show ?thesis using ended(1)[OF None] by simp
  qed
qed

lemma remove_preserves:
  assumes wf: "branch_wf fn" and "call_for n m fn vals s = Some r"
  shows "call_for n m (remove_unreachable_blocks fn) vals s = Some r"
proof -
  note kept = kept_facts[OF branch_wf_names(2)[OF wf]]
  let ?\<sigma> = "start (call_env fn vals) s"
  have "0 < length (kept_positions fn) \<and> st_block ?\<sigma> = kept_positions fn ! 0 \<and> ?\<sigma> = ?\<sigma>\<lparr>st_block := 0\<rparr>"
    using kept(3,4) by (simp add: start_def)
  then have "removed_sim m fn ?\<sigma> ?\<sigma>"
    using wf unfolding removed_sim_def by (intro conjI) (blast, simp_all add: start_def)
  moreover have "call_env (remove_unreachable_blocks fn) vals = (call_env fn vals :: 'a env)"
    by (simp add: call_env_def removed_blocks)
  ultimately show ?thesis
    using removed.run_preserved[where fn = fn and \<sigma> = ?\<sigma>] assms(2) by (simp add: call_for_def)
qed

section \<open>Removing them leaves a function whose blocks are all reached\<close>

definition old_point :: "func \<Rightarrow> point \<Rightarrow> point" where
  "old_point fn u = (kept_positions fn ! fst u, snd u)"

lemma removed_edge:
  assumes names: "block_names_ok fn" and e: "edge (remove_unreachable_blocks fn) u w"
  shows "fst u < length (kept_positions fn) \<and> fst w < length (kept_positions fn) \<and> edge fn (old_point fn u) (old_point fn w)"
proof -
  obtain j k where u: "u = (j, k)" by (cases u)
  with e have j: "j < length (kept_positions fn)" by (auto simp: edge_def removed_blocks)
  then show ?thesis
    using e u kept_bound[OF j] removed_positions[OF names]
    by (auto simp: edge_def old_point_def removed_blocks split: if_splits)
qed

lemma removed_avoids:
  assumes names: "block_names_ok fn" and ne: "f_blocks fn \<noteq> []" and d: "fst d < length (kept_positions fn)"
  shows "avoids (remove_unreachable_blocks fn) d u \<Longrightarrow> avoids fn (old_point fn d) (old_point fn u)"
proof (induction rule: avoids.induct)
  case entry
  show ?case using kept_facts(4)[OF ne] by (simp add: old_point_def avoids.entry)
next
  case (onward u w)
  note e = removed_edge[OF names onward.hyps(3)]
  have "old_point fn u \<noteq> old_point fn d"
    using onward.hyps(2) e d nth_eq_iff_index_eq[OF kept_facts(1)[OF ne], of "fst u" "fst d"]
    by (auto simp: old_point_def prod_eq_iff)
  with onward.IH e show ?case by (blast intro: avoids.onward)
qed

lemma removed_before:
  assumes names: "block_names_ok fn" and ne: "f_blocks fn \<noteq> []" and "defined_before fn x (old_point fn u)"
  shows "defined_before (remove_unreachable_blocks fn) x u"
  unfolding defined_before_def
proof (intro allI impI)
  fix p k i'
  assume i': "instr_at (remove_unreachable_blocks fn) p k = Some i'" "v_name (i_result i') = x" "x \<noteq> []"
  then have p: "p < length (kept_positions fn)" by (auto simp: instr_at_def removed_blocks split: if_splits)
  with i' obtain i where "instr_at fn (kept_positions fn ! p) k = Some i" "v_name (i_result i) = x"
    by (auto simp: removed_instr_at)
  with assms(3) i'(3) have "\<not> avoids fn (old_point fn (p, k)) (old_point fn u)" by (simp add: defined_before_def old_point_def)
  with removed_avoids[OF names ne, of "(p, k)" u] p show "\<not> avoids (remove_unreachable_blocks fn) (p, k) u" by auto
qed

lemma removed_end:
  "j < length (kept_positions fn) \<Longrightarrow>
    old_point fn (end_point (remove_unreachable_blocks fn) j) = end_point fn (kept_positions fn ! j)"
  by (simp add: end_point_def old_point_def removed_blocks)

lemma removed_strict:
  assumes names: "block_names_ok fn" and ne: "f_blocks fn \<noteq> []" and strict: "strict fn"
  shows "strict (remove_unreachable_blocks fn)"
  unfolding strict_def
proof (intro conjI allI impI)
  let ?fn = "remove_unreachable_blocks fn"
  note before = removed_before[OF names ne]
  fix p k i'
  assume i': "instr_at ?fn p k = Some i'"
  then have p: "p < length (kept_positions fn)" by (auto simp: instr_at_def removed_blocks split: if_splits)
  with i' obtain i where i: "instr_at fn (kept_positions fn ! p) k = Some i" "i' = keep_incoming (live_names fn) i"
    by (auto simp: removed_instr_at)
  show "if i_op i' = ''phi''
       then \<forall>inc\<in>set (i_incoming i'). \<exists>q. positions (f_blocks ?fn) (in_block inc) = Some q \<and>
              defined_before ?fn (v_name (in_value inc)) (end_point ?fn q)
       else \<forall>v\<in>set (direct_reads i'). defined_before ?fn (v_name v) (p, k)"
  proof (cases "i_op i = ''phi''")
    case True
    have "\<exists>q. positions (f_blocks ?fn) (in_block inc) = Some q \<and> defined_before ?fn (v_name (in_value inc)) (end_point ?fn q)"
      if "inc \<in> set (i_incoming i')" for inc
    proof -
      have inc: "inc \<in> set (i_incoming i)" "in_block inc \<in> set (live_names fn)"
        using that i(2) True by (auto simp: keep_incoming_def)
      with strict i(1) True obtain q where q: "positions (f_blocks fn) (in_block inc) = Some q"
        "defined_before fn (v_name (in_value inc)) (end_point fn q)" unfolding strict_def by metis
      from inc(2) obtain l where l: "l < length (kept_positions fn)" "in_block inc = b_name (f_blocks fn ! (kept_positions fn ! l))"
        by (auto simp: live_names_def in_set_conv_nth)
      with positions_distinct[OF _ kept_bound[OF l(1)]] q(1) names have "q = kept_positions fn ! l"
        by (simp add: block_names_ok_def)
      with l(1) q before[of "v_name (in_value inc)" "end_point ?fn l"] removed_positions[OF names, of "in_block inc" l]
      show ?thesis by (auto simp: removed_end)
    qed
    then show ?thesis using True i(2) by simp
  next
    case False
    then have "\<forall>v\<in>set (direct_reads i). defined_before fn (v_name v) (kept_positions fn ! p, k)"
      using strict i(1) unfolding strict_def by metis
    then show ?thesis using before[of _ "(p, k)"] False i(2) by (simp add: old_point_def)
  qed
next
  let ?fn = "remove_unreachable_blocks fn"
  fix p
  assume "p < length (f_blocks ?fn)"
  then have p: "p < length (kept_positions fn)" by (simp add: removed_blocks)
  have "\<forall>v\<in>set (term_reads (b_term (f_blocks fn ! (kept_positions fn ! p)))).
      defined_before fn (v_name v) (end_point fn (kept_positions fn ! p))"
    using strict kept_bound[OF p] by (simp add: strict_def)
  then show "\<forall>v\<in>set (term_reads (b_term (f_blocks ?fn ! p))). defined_before ?fn (v_name v) (end_point ?fn p)"
    using removed_before[OF names ne, of _ "end_point ?fn p"] p by (simp add: removed_end removed_blocks)
qed

lemma removed_all_instrs:
  assumes "i' \<in> set (all_instrs (remove_unreachable_blocks fn))"
  shows "\<exists>i\<in>set (all_instrs fn). i' = keep_incoming (live_names fn) i"
proof -
  from in_all_instrs[OF assms] obtain p k where i': "instr_at (remove_unreachable_blocks fn) p k = Some i'" by blast
  then have "p < length (kept_positions fn)" by (auto simp: instr_at_def removed_blocks split: if_splits)
  with i' show ?thesis by (auto simp: removed_instr_at dest: instr_at_all)
qed

lemma distinct_concat_filter: "distinct (concat (map f xs)) \<Longrightarrow> distinct (concat (map f (filter P xs)))"
  by (induction xs) auto

lemma removed_results:
  assumes "distinct (results fn)"
  shows "distinct (results (remove_unreachable_blocks fn))" and "set (results (remove_unreachable_blocks fn)) \<subseteq> set (results fn)"
proof -
  let ?named = "\<lambda>p. filter (\<lambda>x. x \<noteq> []) (block_results (f_blocks fn ! p))"
  have "map block_results (f_blocks (remove_unreachable_blocks fn)) = map (\<lambda>p. block_results (f_blocks fn ! p)) (kept_positions fn)"
    by (rule nth_equalityI) (simp_all add: removed_blocks block_results_def comp_def)
  then have new: "results (remove_unreachable_blocks fn) = concat (map ?named (kept_positions fn))"
    by (simp only: results_concat filter_concat map_map comp_def)
  have "map block_results (f_blocks fn) = map (\<lambda>p. block_results (f_blocks fn ! p)) [0..<length (f_blocks fn)]"
    by (rule nth_equalityI) simp_all
  then have old: "results fn = concat (map ?named [0..<length (f_blocks fn)])"
    by (simp only: results_concat filter_concat map_map comp_def)
  show "distinct (results (remove_unreachable_blocks fn))"
    using assms unfolding new old kept_positions_def by (rule distinct_concat_filter)
  show "set (results (remove_unreachable_blocks fn)) \<subseteq> set (results fn)"
    unfolding new old kept_positions_def by auto
qed

lemma removed_reachable:
  assumes names: "block_names_ok fn" and ne: "f_blocks fn \<noteq> []"
  shows "j < length (kept_positions fn) \<Longrightarrow> reachable_point (remove_unreachable_blocks fn) (j, 0)"
proof -
  let ?fn = "remove_unreachable_blocks fn"
  have "\<exists>j<length (kept_positions fn). kept_positions fn ! j = p \<and> reachable_point ?fn (j, 0)" if "block_path fn ps p" for ps p
    using that
  proof (induction rule: block_path.induct)
    case path_entry
    then show ?case using kept_facts(3,4)[OF ne] by (intro exI[of _ 0]) (auto intro: entry_point)
  next
    case (path_step ps q p)
    then obtain l where l: "l < length (kept_positions fn)" "kept_positions fn ! l = q" "reachable_point ?fn (l, 0)" by blast
    from path_step.hyps(2) l(2) obtain x where x:
      "x \<in> {t_target (b_term (f_blocks fn ! (kept_positions fn ! l))), t_else (b_term (f_blocks fn ! (kept_positions fn ! l)))}"
      "positions (f_blocks fn) x = Some p"
      by (auto simp: succ_positions_def in_map_filter successors_def split: if_splits)
    from kept_successor[OF names ne l(1) x] obtain j where j: "j < length (kept_positions fn)" "kept_positions fn ! j = p"
      "positions (f_blocks ?fn) x = Some j" by blast
    let ?e = "(l, length (b_instrs (f_blocks ?fn ! l)))"
    have "reachable_point ?fn ?e"
      by (rule reachable_instr[OF l(3)]) (simp_all add: removed_blocks(1) l(1))
    moreover have "edge ?fn ?e (j, 0)" using x j l(1) by (auto simp: edge_def removed_blocks)
    ultimately have "reachable_point ?fn (j, 0)" by (rule next_point)
    with j show ?case by blast
  qed
  note path = this
  assume j: "j < length (kept_positions fn)"
  then have "kept_positions fn ! j \<in> set (reached_blocks fn)" using nth_mem[OF j] kept_facts(2)[OF ne] by simp
  then obtain ps where "block_path fn ps (kept_positions fn ! j)" using reached_exact[OF ne] by blast
  from path[OF this] obtain l where "l < length (kept_positions fn)" "kept_positions fn ! l = kept_positions fn ! j"
    "reachable_point ?fn (l, 0)" by blast
  with j nth_eq_iff_index_eq[OF kept_facts(1)[OF ne]] show "reachable_point ?fn (j, 0)" by auto
qed

lemma removed_phi_wf:
  assumes wf: "branch_wf fn"
  shows "phi_wf (remove_unreachable_blocks fn)" and "phi_agree (remove_unreachable_blocks fn)"
proof -
  let ?fn = "remove_unreachable_blocks fn" and ?live = "live_names fn"
  have old: "ssa fn" "strict fn" "consistent_types fn" "block_names_ok fn"
    using wf by (simp_all add: branch_wf_def copy_wf_def)
  note ne = branch_wf_names(2)[OF wf]
  note kept = kept_facts[OF ne]
  have sub: "\<exists>i\<in>set (all_instrs fn). i_op i = i_op i' \<and> i_result i = i_result i' \<and> set (i_incoming i') \<subseteq> set (i_incoming i)"
    if "i' \<in> set (all_instrs ?fn)" "i_op i' = ''phi''" for i'
    using removed_all_instrs[OF that(1)] keep_incoming_subset[of ?live] by fastforce
  show "phi_agree ?fn" by (rule phi_subset(2)[OF sub wf])
  have "ssa ?fn"
  proof -
    have "\<forall>i\<in>set (all_instrs ?fn). v_name (i_result i) = [] \<longrightarrow> i_op i = ''cond_fail''"
      using old(1) removed_all_instrs[of _ fn] by (fastforce simp: ssa_def)
    moreover have "distinct (results ?fn)" "set (results ?fn) \<subseteq> set (results fn)"
      using removed_results[of fn] old(1) by (simp_all add: ssa_def)
    moreover have "param_names ?fn = param_names fn" by (simp add: param_names_def removed_blocks)
    moreover have "set (results fn) \<inter> set (param_names fn) = {}"
      "\<forall>x\<in>set (results fn) \<union> set (param_names fn). parse_int64 x = None \<and> x \<noteq> []"
      using old(1) unfolding ssa_def by blast+
    ultimately show ?thesis unfolding ssa_def by auto
  qed
  moreover have "consistent_types ?fn"
  proof (rule consistent_subset[OF _ _ old(3)])
    fix i'
    assume "i' \<in> set (all_instrs ?fn)"
    then obtain i where i: "i \<in> set (all_instrs fn)" "i' = keep_incoming ?live i" using removed_all_instrs by blast
    have "set (instr_reads i') \<subseteq> set (instr_reads i)"
      using i(2) by (auto simp: instr_reads_def keep_incoming_def)
    with i show "\<exists>i\<in>set (all_instrs fn). i_result i = i_result i' \<and> set (instr_reads i') \<subseteq> set (instr_reads i) \<and>
        (i_op i' = ''id'' \<longrightarrow> i_op i = ''id'' \<and> i_args i = i_args i')" by (intro bexI[of _ i]) simp_all
  next
    fix b v
    assume "b \<in> set (f_blocks ?fn)" "v \<in> set (term_reads (b_term b))"
    then show "v_name v = [] \<or> (\<exists>b\<in>set (f_blocks fn). v \<in> set (term_reads (b_term b)))"
      using kept_bound[of _ fn] by (fastforce simp: in_set_conv_nth[of b] removed_blocks)
  qed
  moreover have "block_names_ok ?fn"
  proof -
    have "b_name b \<noteq> []" if "b \<in> set (f_blocks ?fn)" for b
    proof -
      from that obtain j where j: "j < length (kept_positions fn)" "b = f_blocks ?fn ! j"
        by (auto simp: in_set_conv_nth removed_blocks)
      have "b_name (f_blocks fn ! (kept_positions fn ! j)) \<in> b_name ` set (f_blocks fn)" using nth_mem[OF kept_bound[OF j(1)]] by simp
      moreover have "b_name b = b_name (f_blocks fn ! (kept_positions fn ! j))" using j by (simp add: removed_blocks)
      ultimately show ?thesis using old(4) by (metis block_names_ok_def)
    qed
    then show ?thesis using removed_names_distinct[OF old(4)] unfolding block_names_ok_def by (metis image_iff)
  qed
  moreover have "no_entry_phi ?fn"
  proof -
    have len: "0 < length (kept_positions fn)" using kept(3) by simp
    then have "f_blocks ?fn ! 0 = (f_blocks fn ! 0)\<lparr>b_instrs := map (keep_incoming ?live) (b_instrs (f_blocks fn ! 0))\<rparr>"
      using kept(4) by (simp add: removed_blocks)
    moreover have "\<forall>i\<in>set (b_instrs (f_blocks fn ! 0)). i_op i \<noteq> ''phi''"
      using wf ne by (cases "f_blocks fn") (auto simp: branch_wf_def no_entry_phi_def list_all_iff)
    ultimately show ?thesis
      using len by (cases "f_blocks ?fn") (auto simp: no_entry_phi_def list_all_iff removed_blocks(1)[symmetric] simp del: removed_blocks)
  qed
  moreover have "phi_types ?fn" by (rule phi_subset(1)[OF sub wf])
  moreover have "phi_exact ?fn"
  proof -
    have "length (incoming_from (keep_incoming ?live i) (b_name (f_blocks fn ! q))) =
        length (filter (\<lambda>x. x = b_name (f_blocks fn ! p)) (successors (b_term (f_blocks fn ! q))))"
      if "p < length (f_blocks fn)" "i \<in> set (b_instrs (f_blocks fn ! p))" "i_op i = ''phi''" "q \<in> set (kept_positions fn)" for p i q
    proof -
      have "b_name (f_blocks fn ! q) \<in> set ?live" using that(4) by (auto simp: live_names_def)
      moreover have "q < length (f_blocks fn)" using that(4) by (auto simp: kept_positions_def)
      ultimately show ?thesis
        using wf that(1-3) unfolding branch_wf_def phi_exact_def list_all_iff by (metis keep_incoming_from nth_mem)
    qed
    then show ?thesis
      using kept_bound[of _ fn] by (auto simp: phi_exact_def list_all_iff in_set_conv_nth[of _ "f_blocks ?fn"] removed_blocks)
  qed
  moreover have "\<forall>p<length (f_blocks ?fn). reachable_point ?fn (p, 0)"
    using removed_reachable[OF old(4) ne] by (simp add: removed_blocks)
  ultimately show "phi_wf ?fn" using removed_strict[OF old(4) ne old(2)] by (simp add: phi_wf_def copy_wf_def)
qed

end
