(* ===== verification/Simplify.thy ===== *)
theory Simplify
  imports Branches Dead_Code Verify
begin

text \<open>
  SimplifyBranches as a whole (internal/ir/simplify.go): foldKnownResults answers the tests
  of error unions that are known to hold a success, then the branches are cut, the blocks no
  path reaches go, and trivial phis are folded. Each part keeps the function as the next one
  needs it, so the composition preserves every call that returns.
\<close>

section \<open>Known successes\<close>

definition succeeded :: "func \<Rightarrow> name list" where
  "succeeded fn = map (\<lambda>i. v_name (i_result i)) (filter (\<lambda>i. i_op i = ''error.ok'' \<and> i_args i = []) (all_instrs fn))"

definition asks_known :: "name list \<Rightarrow> instr \<Rightarrow> bool" where
  "asks_known ss i \<longleftrightarrow> length (i_args i) = 1 \<and> v_name (hd (i_args i)) \<in> set ss"

text \<open>What becomes of one instruction: a void \<^verbatim>\<open>error.try\<close> goes.\<close>

definition fold_known_result :: "name list \<Rightarrow> instr \<Rightarrow> instr option" where
  "fold_known_result ss i =
     (if asks_known ss i then
        (if i_op i = ''error.try'' \<and> v_type (i_result i) = ''void'' then None
         else if i_op i = ''error.has'' then Some (i\<lparr>i_op := ''const'', i_args := [], i_immediate := ''true''\<rparr>)
         else Some i)
      else Some i)"

definition fold_known_results :: "func \<Rightarrow> func" where
  "fold_known_results fn =
     (let ss = succeeded fn
      in if ss = [] then fn
         else fn\<lparr>f_blocks := map (\<lambda>b. b\<lparr>b_instrs := List.map_filter (fold_known_result ss) (b_instrs b)\<rparr>) (f_blocks fn)\<rparr>)"

section \<open>The pass\<close>

definition simplify_branches_in :: "func \<Rightarrow> func option" where
  "simplify_branches_in fn =
     (if f_blocks fn = [] then Some fn
      else let fn1 = fold_known_results fn; (fn2, changed) = cut_branches fn1
           in if \<not> changed then Some fn2
              else fold_trivial_phis (remove_unreachable_blocks fn2))"

section \<open>Thinning keeps definitions before their uses\<close>

lemma filter_count_between:
  assumes "length (filter P (take k xs)) = length (filter P (take l xs))" "k \<le> j" "j < l" "j < length xs"
  shows "\<not> P (xs ! j)"
proof
  assume "P (xs ! j)"
  have mono: "length (filter P (take a xs)) \<le> length (filter P (take b xs))" if "a \<le> b" for a b
    using that by (metis le_Suc_ex take_add filter_append length_append le_add1)
  have "length (filter P (take (Suc j) xs)) = Suc (length (filter P (take j xs)))"
    using filter_take_Suc[OF assms(4), of P] \<open>P (xs ! j)\<close> by simp
  with mono[of k j] mono[of "Suc j" l] assms show False by simp
qed

definition new_point :: "(instr \<Rightarrow> bool) \<Rightarrow> func \<Rightarrow> point \<Rightarrow> point" where
  "new_point keep fn u = (fst u, length (filter keep (take (snd u) (b_instrs (f_blocks fn ! fst u)))))"

lemma avoids_walk:
  assumes "avoids fn d (p, k)" "p < length (f_blocks fn)"
    and "\<And>j. k \<le> j \<Longrightarrow> j < l \<Longrightarrow> (p, j) \<noteq> d"
  shows "k \<le> l \<Longrightarrow> l \<le> length (b_instrs (f_blocks fn ! p)) \<Longrightarrow> avoids fn d (p, l)"
  using assms(3)
proof (induction l)
  case (Suc l)
  show ?case
  proof (cases "k = Suc l")
    case True
    with assms(1) show ?thesis by simp
  next
    case False
    with Suc have "avoids fn d (p, l)" "(p, l) \<noteq> d" by simp_all
    moreover have "edge fn (p, l) (p, Suc l)" using Suc.prems(2) assms(2) by (simp add: edge_def)
    ultimately show ?thesis by (rule avoids.onward)
  qed
qed (use assms(1) in simp)

lemma filter_index:
  "j < length (filter P xs) \<Longrightarrow>
    \<exists>k<length xs. P (xs ! k) \<and> length (filter P (take k xs)) = j \<and> filter P xs ! j = xs ! k"
proof (induction xs arbitrary: j)
  case (Cons x xs)
  show ?case
  proof (cases "P x \<and> j = 0")
    case True
    then show ?thesis by (intro exI[of _ 0]) simp
  next
    case False
    let ?j = "if P x then j - 1 else j"
    have "?j < length (filter P xs)" using Cons.prems False by auto
    from Cons.IH[OF this] obtain k where "k < length xs" "P (xs ! k)" "length (filter P (take k xs)) = ?j"
      "filter P xs ! ?j = xs ! k" by blast
    with False show ?thesis by (intro exI[of _ "Suc k"]) (auto simp: nth_Cons')
  qed
qed simp

lemma thin_avoids:
  assumes d: "instr_at fn (fst d) (snd d) = Some i" "keep i"
    and t: "\<And>x. t_target (t x) = t_target x \<and> t_else (t x) = t_else x"
  shows "avoids (thin keep g t fn) (new_point keep fn d) u' \<Longrightarrow>
    \<forall>u. new_point keep fn u = u' \<and> fst u < length (f_blocks fn) \<and> snd u \<le> length (b_instrs (f_blocks fn ! fst u)) \<longrightarrow>
      avoids fn d u"
proof (induction rule: avoids.induct)
  let ?is = "\<lambda>p. b_instrs (f_blocks fn ! p)"
  have dropped: "(p, j) \<noteq> d" if "length (filter keep (take k (?is p))) = length (filter keep (take l (?is p)))"
    "k \<le> j" "j < l" "l \<le> length (?is p)" for p j k l
  proof -
    have "\<not> keep (?is p ! j)" using filter_count_between[OF that(1-3)] that(3,4) by simp
    then show ?thesis using d by (auto simp: instr_at_def split: if_splits)
  qed
  have from_start: "avoids fn d u" if "avoids fn d (p, 0)" "new_point keep fn u = (p, 0)"
    "fst u < length (f_blocks fn)" "snd u \<le> length (?is (fst u))" for p u
  proof -
    from that(2) have u: "fst u = p" "length (filter keep (take (snd u) (?is p))) = 0" by (auto simp: new_point_def)
    have "(p, j) \<noteq> d" if "j < snd u" for j
      using dropped[of 0 p "snd u" j] u \<open>snd u \<le> length (?is (fst u))\<close> that by simp
    from avoids_walk[OF that(1) _ this, of "snd u"] that(3,4) u(1) show ?thesis by (metis le0 prod.collapse)
  qed
  {
    case entry
    show ?case using from_start[OF avoids.entry] by blast
  next
    case (onward v' u')
    obtain p j' where v': "v' = (p, j')" by (cases v')
    have p: "p < length (f_blocks fn)" using onward.hyps(3) v' by (simp add: edge_def)
    show ?case
    proof (cases "j' < length (filter keep (?is p))")
      case True
      then have u': "u' = (p, Suc j')" using onward.hyps(3) v' p by (simp add: edge_def)
      from filter_index[OF True] obtain k where k: "k < length (?is p)" "keep (?is p ! k)"
        "length (filter keep (take k (?is p))) = j'" by blast
      have "new_point keep fn (p, k) = v'" using k v' by (simp add: new_point_def)
      with onward.IH p k(1) have "avoids fn d (p, k)" by simp
      moreover have "(p, k) \<noteq> d" using onward.hyps(2) \<open>new_point keep fn (p, k) = v'\<close> by auto
      moreover have "edge fn (p, k) (p, Suc k)" using p k(1) by (simp add: edge_def)
      ultimately have next_point: "avoids fn d (p, Suc k)" by (rule avoids.onward)
      have count: "length (filter keep (take (Suc k) (?is p))) = Suc j'" using filter_take_Suc[OF k(1), of keep] k by simp
      have "avoids fn d u" if u: "new_point keep fn u = u'" "snd u \<le> length (?is (fst u))" for u
      proof -
        from u u' have u2: "fst u = p" "length (filter keep (take (snd u) (?is p))) = Suc j'" by (auto simp: new_point_def)
        have "Suc k \<le> snd u"
        proof (rule ccontr)
          assume "\<not> Suc k \<le> snd u"
          then have "length (filter keep (take (snd u) (?is p))) \<le> length (filter keep (take k (?is p)))"
            by (metis not_less_eq_eq le_Suc_ex take_add filter_append length_append le_add1)
          with u2(2) k(3) show False by simp
        qed
        moreover have "(p, j) \<noteq> d" if "Suc k \<le> j" "j < snd u" for j
          using dropped[of "Suc k" p "snd u" j] count u2 u(2) that by simp
        ultimately show ?thesis using avoids_walk[OF next_point p, of "snd u"] u(2) u2(1) by (metis prod.collapse)
      qed
      then show ?thesis by blast
    next
      case False
      let ?l = "length (?is p)"
      have bound: "j' \<le> length (filter keep (?is p))" using avoids_bound[OF onward.hyps(1)] v' p by simp
      with False have "new_point keep fn (p, ?l) = v'" using v' by (simp add: new_point_def)
      with onward.IH p have "avoids fn d (p, ?l)" by simp
      moreover have "(p, ?l) \<noteq> d" using d by (auto simp: instr_at_def split: if_splits)
      moreover from onward.hyps(3) v' p False t obtain q where q: "u' = (q, 0)" "edge fn (p, ?l) (q, 0)"
        by (auto simp: edge_def)
      ultimately have "avoids fn d (q, 0)" by (blast intro: avoids.onward)
      from from_start[OF this] q(1) show ?thesis by blast
    qed
  }
qed

lemma thin_instr_at:
  assumes "instr_at (thin keep g t fn) p k' = Some i'"
  shows "\<exists>k i. instr_at fn p k = Some i \<and> keep i \<and> i' = g i \<and> new_point keep fn (p, k) = (p, k')"
proof -
  from assms have p: "p < length (f_blocks fn)" "k' < length (filter keep (b_instrs (f_blocks fn ! p)))"
    "i' = g (filter keep (b_instrs (f_blocks fn ! p)) ! k')"
    by (auto simp: instr_at_def split: if_splits)
  from filter_index[OF p(2)] obtain k where k: "k < length (b_instrs (f_blocks fn ! p))" "keep (b_instrs (f_blocks fn ! p) ! k)"
    "length (filter keep (take k (b_instrs (f_blocks fn ! p)))) = k'"
    "filter keep (b_instrs (f_blocks fn ! p)) ! k' = b_instrs (f_blocks fn ! p) ! k" by blast
  then have "instr_at fn p k = Some (b_instrs (f_blocks fn ! p) ! k)" "i' = g (b_instrs (f_blocks fn ! p) ! k)"
    "new_point keep fn (p, k) = (p, k')" using p by (simp_all add: instr_at_def new_point_def)
  with k(2) show ?thesis by blast
qed

lemma thin_before:
  assumes g: "\<And>i. i_result (g i) = i_result i" and t: "\<And>x. t_target (t x) = t_target x \<and> t_else (t x) = t_else x"
    and before: "defined_before fn x u" and u: "fst u < length (f_blocks fn)" "snd u \<le> length (b_instrs (f_blocks fn ! fst u))"
  shows "defined_before (thin keep g t fn) x (new_point keep fn u)"
  unfolding defined_before_def
proof (intro allI impI)
  fix p k' i'
  assume "instr_at (thin keep g t fn) p k' = Some i'" and x: "v_name (i_result i') = x" "x \<noteq> []"
  from thin_instr_at[OF this(1)] obtain k i where i: "instr_at fn p k = Some i" "keep i" "i' = g i"
    "new_point keep fn (p, k) = (p, k')" by blast
  have "\<not> avoids fn (p, k) u" using before i(1,3) x g by (simp add: defined_before_def)
  moreover have "avoids fn (p, k) u" if "avoids (thin keep g t fn) (p, k') (new_point keep fn u)"
  proof -
    from thin_avoids[of fn "(p, k)" i keep t g "new_point keep fn u"] i(1,2,4) t that
    have "\<forall>v. new_point keep fn v = new_point keep fn u \<and> fst v < length (f_blocks fn) \<and>
        snd v \<le> length (b_instrs (f_blocks fn ! fst v)) \<longrightarrow> avoids fn (p, k) v" by simp
    with u show ?thesis by blast
  qed
  ultimately show "\<not> avoids (thin keep g t fn) (p, k') (new_point keep fn u)" by blast
qed

lemma thin_strict:
  assumes g: "\<And>i. i_result (g i) = i_result i"
      "\<And>i. keep i \<Longrightarrow> i_op i = ''phi'' \<Longrightarrow> g i = i" "\<And>i. keep i \<Longrightarrow> i_op (g i) = ''phi'' \<Longrightarrow> i_op i = ''phi''"
      "\<And>i. keep i \<Longrightarrow> set (direct_reads (g i)) \<subseteq> set (direct_reads i)"
    and strict: "strict fn"
  shows "strict (thin keep g (\<lambda>t. t) fn)"
  unfolding strict_def
proof (intro conjI allI impI)
  let ?fn = "thin keep g (\<lambda>t. t) fn"
  have before: "defined_before ?fn x (new_point keep fn u)"
    if "defined_before fn x u" "fst u < length (f_blocks fn)" "snd u \<le> length (b_instrs (f_blocks fn ! fst u))" for x u
    using thin_before[OF g(1) _ that, where t = "\<lambda>t. t"] by simp
  have ends: "new_point keep fn (end_point fn q) = end_point ?fn q" if "q < length (f_blocks fn)" for q
    using that by (simp add: new_point_def end_point_def)
  have at_end: "defined_before ?fn x (end_point ?fn q)" if "defined_before fn x (end_point fn q)" "q < length (f_blocks fn)" for x q
    using before[OF that(1)] ends[OF that(2)] that(2) by (simp add: end_point_def)
  fix p k' i'
  {
    assume "instr_at ?fn p k' = Some i'"
    from thin_instr_at[OF this] obtain k i where i: "instr_at fn p k = Some i" "keep i" "i' = g i"
      "new_point keep fn (p, k) = (p, k')" by blast
    show "if i_op i' = ''phi''
       then \<forall>inc\<in>set (i_incoming i'). \<exists>q. positions (f_blocks ?fn) (in_block inc) = Some q \<and>
              defined_before ?fn (v_name (in_value inc)) (end_point ?fn q)
       else \<forall>v\<in>set (direct_reads i'). defined_before ?fn (v_name v) (p, k')"
    proof (cases "i_op i' = ''phi''")
      case True
      then have phi: "i_op i = ''phi''" using g(3)[OF i(2)] i(3) by simp
      then have same: "i' = i" using g(2)[OF i(2)] i(3) by simp
      have "\<exists>q. positions (f_blocks ?fn) (in_block inc) = Some q \<and> defined_before ?fn (v_name (in_value inc)) (end_point ?fn q)"
        if "inc \<in> set (i_incoming i)" for inc
      proof -
        from strict i(1) phi that obtain q where q: "positions (f_blocks fn) (in_block inc) = Some q"
          "defined_before fn (v_name (in_value inc)) (end_point fn q)" unfolding strict_def by metis
        with at_end positions_Some[OF q(1)] show ?thesis by simp
      qed
      then show ?thesis using phi same by simp
    next
      case False
      then have "i_op i \<noteq> ''phi''" using g(2)[OF i(2)] i(3) by metis
      then have "\<forall>v\<in>set (direct_reads i). defined_before fn (v_name v) (p, k)"
        using strict i(1) unfolding strict_def by metis
      moreover have "p < length (f_blocks fn)" "k \<le> length (b_instrs (f_blocks fn ! p))"
        using i(1) by (auto simp: instr_at_def split: if_splits)
      ultimately have "\<forall>v\<in>set (direct_reads i). defined_before ?fn (v_name v) (p, k')"
        using before[of _ "(p, k)"] i(4) by simp
      then show ?thesis using False g(4)[OF i(2)] i(3) by auto
    qed
  }
  assume p: "p < length (f_blocks ?fn)"
  then have "\<forall>v\<in>set (term_reads (b_term (f_blocks fn ! p))). defined_before fn (v_name v) (end_point fn p)"
    using strict by (simp add: strict_def)
  then show "\<forall>v\<in>set (term_reads (b_term (f_blocks ?fn ! p))). defined_before ?fn (v_name v) (end_point ?fn p)"
    using at_end p by simp
qed

section \<open>Answering known results preserves runs\<close>

text \<open>
  What the operations on error unions promise: the value an \<^verbatim>\<open>error.ok\<close> without a payload
  makes holds a success, so an \<^verbatim>\<open>error.try\<close> of it goes on, leaving the memory alone, and an
  \<^verbatim>\<open>error.has\<close> answers true.
\<close>

definition holds_success :: "('v, 's) machine \<Rightarrow> 'v val \<Rightarrow> bool" where
  "holds_success m x \<longleftrightarrow>
     (\<forall>i vals s out. length (i_args i) = 1 \<longrightarrow> vals \<noteq> [] \<longrightarrow> hd vals = x \<longrightarrow> mc_op m i vals s = Some out \<longrightarrow>
        (i_op i = ''error.try'' \<longrightarrow> (\<exists>y. out = Yield y s)) \<and>
        (i_op i = ''error.has'' \<longrightarrow> out = Yield (BoolV True) s))"

definition error_machine :: "('v, 's) machine \<Rightarrow> bool" where
  "error_machine m \<longleftrightarrow>
     (\<forall>i vals s x s'. i_op i = ''error.ok'' \<longrightarrow> i_args i = [] \<longrightarrow> mc_op m i vals s = Some (Yield x s') \<longrightarrow> holds_success m x)"

text \<open>Tests are bools, and no instruction reads what a void one leaves.\<close>

definition results_wf :: "func \<Rightarrow> bool" where
  "results_wf fn \<longleftrightarrow>
     list_all (\<lambda>i. (i_op i = ''error.has'' \<longrightarrow> v_type (i_result i) = ''bool'') \<and>
       (i_op i = ''error.try'' \<longrightarrow> v_type (i_result i) = ''void'' \<longrightarrow> v_name (i_result i) \<notin> set (used_values fn))) (all_instrs fn)"

definition drops_known :: "name list \<Rightarrow> instr \<Rightarrow> bool" where
  "drops_known ss i \<longleftrightarrow> asks_known ss i \<and> i_op i = ''error.try'' \<and> v_type (i_result i) = ''void''"

definition answer_known :: "name list \<Rightarrow> instr \<Rightarrow> instr" where
  "answer_known ss i =
     (if asks_known ss i \<and> i_op i = ''error.has'' then i\<lparr>i_op := ''const'', i_args := [], i_immediate := ''true''\<rparr> else i)"

lemma fold_known_thin:
  "fold_known_results fn = thin (\<lambda>i. \<not> drops_known (succeeded fn) i) (answer_known (succeeded fn)) (\<lambda>t. t) fn"
proof -
  have "List.map_filter (fold_known_result ss) is = map (answer_known ss) (filter (\<lambda>i. \<not> drops_known ss i) is)" for ss "is"
    by (induction "is") (auto simp: List.map_filter_def fold_known_result_def answer_known_def drops_known_def)
  moreover have "\<not> drops_known [] i" "answer_known [] i = i" for i by (simp_all add: drops_known_def answer_known_def asks_known_def)
  ultimately show ?thesis by (simp add: fold_known_results_def thin_def Let_def map_idI)
qed

lemma success_value:
  assumes m: "error_machine m" and wf: "copy_wf fn" and \<sigma>: "reach m fn (start (call_env fn vals) s) \<sigma>"
    and i: "current_instr fn \<sigma> = Some i" "asks_known (succeeded fn) i" "i_op i \<noteq> ''phi''"
  shows "\<exists>x. st_env \<sigma> (v_name (hd (i_args i))) = Some x \<and> holds_success m x"
proof -
  let ?a = "hd (i_args i)"
  have ssa: "ssa fn" and strict: "strict fn" using wf by (simp_all add: copy_wf_def)
  from i(2) obtain j where j: "j \<in> set (all_instrs fn)" "i_op j = ''error.ok''" "i_args j = []" "v_name (i_result j) = v_name ?a"
    by (auto simp: asks_known_def succeeded_def)
  have named: "v_name ?a \<noteq> []" using ssa j by (auto simp: ssa_def)
  have "?a \<in> set (direct_reads i)" using i(2) by (cases "i_args i") (auto simp: asks_known_def direct_reads_def)
  then have before: "defined_before fn (v_name ?a) (point_of \<sigma>)"
    using strict i(1,3) unfolding strict_def current_instr_def point_of_def by metis
  have "v_name ?a \<in> set (results fn)" using j(1,4) named by (force simp: results_def)
  from defined_before_bound[OF \<sigma> before this] obtain x where x: "st_env \<sigma> (v_name ?a) = Some x" by blast
  from in_all_instrs[OF j(1)] obtain p k where at: "instr_at fn p k = Some j" by blast
  have "(call_env fn vals :: 'a env) (v_name ?a) = None"
    using result_not_arg[OF ssa call_env_args_for at] j(4) named by simp
  with reach_origin[OF \<sigma>] x have "made m fn (start (call_env fn vals) s) (v_name ?a) x" by fastforce
  with made_by[OF ssa at] j(4) obtain \<rho> s' where "exec m \<rho> j = Some (Yield x s')" by metis
  then obtain vs where "mc_op m (shape j) vs (st_mem \<rho>) = Some (Yield x s')"
    using j(2,3) by (auto simp: exec_def fixed_value_def split: option.splits)
  moreover have "i_args (shape j) = []" using j(3) by (simp add: shape_def map_reads_def)
  ultimately have "holds_success m x" using m j(2) unfolding error_machine_def by (metis shape_simps(2))
  with x show ?thesis by blast
qed

lemma asking_exec:
  assumes i: "current_instr fn \<sigma> = Some i" "length (i_args i) = 1" "i_op i = ''error.try'' \<or> i_op i = ''error.has''"
    and x: "st_env \<sigma> (v_name (hd (i_args i))) = Some x" and out: "exec m \<sigma> i = Some out"
  shows "\<exists>vals. vals \<noteq> [] \<and> hd vals = x \<and> mc_op m (shape i) vals (st_mem \<sigma>) = Some out"
proof -
  from i(2) obtain a where a: "i_args i = [a]" by (auto simp: length_Suc_conv)
  from out i(3) obtain vals where vals: "operands m (st_env \<sigma>) (direct_reads i) = Some vals" by (auto simp: exec_def split: option.splits)
  then obtain rest where "vals = x # rest"
    using a x by (auto simp: direct_reads_def operand_bound split: option.splits)
  moreover from this have "fixed_value i (take (length (i_args i)) vals) = (None :: 'a val option)"
    using i(3) a by (auto simp: fixed_value_def split: val.splits)
  ultimately show ?thesis using out vals i(3) by (auto simp: exec_def)
qed

definition known_ok :: "('v, 's) machine \<Rightarrow> func \<Rightarrow> ('v, 's) state \<Rightarrow> bool" where
  "known_ok m fn \<sigma> \<longleftrightarrow> error_machine m \<and> copy_wf fn \<and> results_wf fn \<and>
     (\<exists>vals s. reach m fn (start (call_env fn vals) s) \<sigma>)"

lemma answer_result [simp]: "i_result (answer_known ss i) = i_result i"
  by (simp add: answer_known_def)

interpretation known: thinning m fn "\<lambda>i. \<not> drops_known (succeeded fn) i" "answer_known (succeeded fn)" "\<lambda>t. t"
  "set (used_values fn)" "known_ok m fn" for m fn
proof
  fix \<sigma> :: "('a, 'b) state"
  assume ok: "known_ok m fn \<sigma>"
  then obtain vals s where m: "error_machine m" and wf: "copy_wf fn" and rwf: "results_wf fn"
    and \<sigma>: "reach m fn (start (call_env fn vals) s) \<sigma>" by (auto simp: known_ok_def)
  show "known_ok m fn \<tau>" if "step m fn \<sigma> = Go \<tau>" for \<tau>
    using m wf rwf \<sigma> that by (auto simp: known_ok_def intro: reach.further)
  show "(\<exists>x. out = Yield x (st_mem \<sigma>)) \<and> v_name (i_result i) \<notin> set (used_values fn)"
    if i: "current_instr fn \<sigma> = Some i" "\<not> \<not> drops_known (succeeded fn) i" and out: "exec m \<sigma> i = Some out" for i out
  proof
    from i(2) have ask: "asks_known (succeeded fn) i" "i_op i = ''error.try''" "v_type (i_result i) = ''void''"
      by (auto simp: drops_known_def)
    from success_value[OF m wf \<sigma> i(1) ask(1)] ask(2) obtain x where
      x: "st_env \<sigma> (v_name (hd (i_args i))) = Some x" "holds_success m x" by auto
    from asking_exec[OF i(1) _ _ x(1) out] ask obtain vs where
      vs: "vs \<noteq> []" "hd vs = x" "mc_op m (shape i) vs (st_mem \<sigma>) = Some out" by (auto simp: asks_known_def)
    have "length (i_args (shape i)) = 1" using ask(1) by (simp add: asks_known_def shape_def map_reads_def)
    with x(2) vs ask(2) show "\<exists>y. out = Yield y (st_mem \<sigma>)" unfolding holds_success_def by (metis shape_simps(2))
    have "i \<in> set (all_instrs fn)" using i(1) by (auto simp: current_instr_def dest: instr_at_all)
    with rwf ask show "v_name (i_result i) \<notin> set (used_values fn)" by (simp add: results_wf_def list_all_iff)
  qed
  show "exec m \<sigma>' (answer_known (succeeded fn) i) = Some out \<and> i_result (answer_known (succeeded fn) i) = i_result i"
    if i: "current_instr fn \<sigma> = Some i" and out: "exec m \<sigma> i = Some out" and alike: "alike (set (used_values fn)) \<sigma> \<sigma>'" for i out \<sigma>'
  proof (cases "asks_known (succeeded fn) i \<and> i_op i = ''error.has''")
    case False
    then have same: "answer_known (succeeded fn) i = i" by (simp only: answer_known_def if_False)
    have "exec m \<sigma>' i = exec m \<sigma> i"
      using alike used_values_instr[OF i] by (intro exec_agree) (auto simp: alike_def)
    with out same show ?thesis by simp
  next
    case True
    from success_value[OF m wf \<sigma> i] True obtain x where
      x: "st_env \<sigma> (v_name (hd (i_args i))) = Some x" "holds_success m x" by auto
    from asking_exec[OF i _ _ x(1) out] True obtain vs where
      vs: "vs \<noteq> []" "hd vs = x" "mc_op m (shape i) vs (st_mem \<sigma>) = Some out" by (auto simp: asks_known_def)
    have "length (i_args (shape i)) = 1" using True by (simp add: asks_known_def shape_def map_reads_def)
    with x(2) vs True have val: "out = Yield (BoolV True) (st_mem \<sigma>)" unfolding holds_success_def by (metis shape_simps(2))
    have "i \<in> set (all_instrs fn)" using i by (auto simp: current_instr_def dest: instr_at_all)
    with rwf True have "v_type (i_result i) = ''bool''" by (simp add: results_wf_def list_all_iff)
    let ?i = "answer_known (succeeded fn) i"
    have new: "i_op ?i = ''const''" "i_args ?i = []" "i_immediate ?i = ''true''" "i_fields ?i = i_fields i" "i_cleanups ?i = i_cleanups i"
      using True by (simp_all add: answer_known_def)
    then have fixed: "fixed_value ?i ws = (Some (BoolV True) :: 'a val option)" for ws
      using \<open>v_type (i_result i) = ''bool''\<close> by (simp add: fixed_value_def const_value_def)
    obtain a where "i_args i = [a]" using True by (auto simp: asks_known_def length_Suc_conv)
    then have reads: "direct_reads i = a # direct_reads ?i" using new by (simp add: direct_reads_def)
    from out True obtain ws where "operands m (st_env \<sigma>) (direct_reads i) = Some ws" by (auto simp: exec_def split: option.splits)
    with reads obtain rest where "operands m (st_env \<sigma>) (direct_reads ?i) = Some rest" by (auto split: option.splits)
    moreover have "operands m (st_env \<sigma>') (direct_reads ?i) = operands m (st_env \<sigma>) (direct_reads ?i)"
    proof (rule operands_agree)
      show "agree (set (used_values fn)) (st_env \<sigma>) (st_env \<sigma>')" using alike by (simp add: alike_def)
      have "set (direct_reads i) \<subseteq> set (instr_reads i)" by (auto simp: instr_reads_def direct_reads_def)
      then show "v_name ` set (direct_reads ?i) \<subseteq> set (used_values fn)"
        using used_values_instr[OF i] reads by auto
    qed
    ultimately show ?thesis using new fixed val alike by (simp add: exec_def alike_def)
  qed
  show "same_term m (st_env \<sigma>) env' (b_term (f_blocks fn ! st_block \<sigma>)) (b_term (f_blocks fn ! st_block \<sigma>))"
    if "st_block \<sigma> < length (f_blocks fn)" "agree (set (used_values fn)) (st_env \<sigma>) env'" for env'
    using used_values_block(2)[OF that(1)] operand_agree[OF that(2), of _ m] by (simp add: same_term_def term_reads_def)
qed

lemma known_preserves:
  assumes "error_machine m" "copy_wf fn" "results_wf fn" and "call_for n m fn vals s = Some r"
  shows "call_for n m (fold_known_results fn) vals s = Some r"
proof -
  have "known_ok m fn (start (call_env fn vals) s)"
    using assms(1-3) reach.here[of m fn] unfolding known_ok_def by blast
  from known.call_preserved[OF this assms(4)] show ?thesis unfolding fold_known_thin .
qed

section \<open>The function stays well formed\<close>

lemma answer_simps:
  "\<not> drops_known ss i \<Longrightarrow> i_op i = ''phi'' \<Longrightarrow> answer_known ss i = i"
  "i_op (answer_known ss i) = ''phi'' \<Longrightarrow> i_op i = ''phi''"
  "i_op (answer_known ss i) = ''id'' \<Longrightarrow> answer_known ss i = i"
  "i_op (answer_known ss i) = ''cond_fail'' \<longleftrightarrow> i_op i = ''cond_fail''"
  "i_incoming (answer_known ss i) = i_incoming i"
  "set (direct_reads (answer_known ss i)) \<subseteq> set (direct_reads i)"
  "set (instr_reads (answer_known ss i)) \<subseteq> set (instr_reads i)"
  by (auto simp: answer_known_def direct_reads_def instr_reads_def split: if_splits)

lemma thin_all_instrs: "all_instrs (thin keep g t fn) = map g (filter keep (all_instrs fn))"
  by (simp add: all_instrs_def thin_def map_concat filter_concat comp_def)

lemma known_branch_wf:
  assumes wf: "branch_wf fn"
  shows "branch_wf (fold_known_results fn)"
proof -
  let ?ss = "succeeded fn" and ?fn = "fold_known_results fn"
  let ?keep = "\<lambda>i. \<not> drops_known ?ss i"
  have fn': "?fn = thin ?keep (answer_known ?ss) (\<lambda>t. t) fn" by (rule fold_known_thin)
  have old: "ssa fn" "strict fn" "consistent_types fn" "block_names_ok fn"
    using wf by (simp_all add: branch_wf_def copy_wf_def)
  have instrs: "all_instrs ?fn = map (answer_known ?ss) (filter ?keep (all_instrs fn))" by (simp add: fn' thin_all_instrs)
  have names: "map b_name (f_blocks ?fn) = map b_name (f_blocks fn)" by (simp add: fn' thin_def comp_def)
  have sub: "\<exists>i\<in>set (all_instrs fn). i_op i = i_op i' \<and> i_result i = i_result i' \<and> set (i_incoming i') \<subseteq> set (i_incoming i)"
    if "i' \<in> set (all_instrs ?fn)" "i_op i' = ''phi''" for i'
  proof -
    from that(1) obtain i where i: "i \<in> set (all_instrs fn)" "?keep i" "i' = answer_known ?ss i" by (auto simp: instrs)
    have "i_op i = ''phi''" using answer_simps(2) that(2) unfolding i(3) .
    then have "i' = i" using answer_simps(1)[OF i(2)] i(3) by blast
    then show ?thesis using i(1) by blast
  qed
  have "ssa ?fn"
  proof -
    let ?name = "\<lambda>i. v_name (i_result i)" and ?named = "filter (\<lambda>i. v_name (i_result i) \<noteq> []) (all_instrs fn)"
    have "results ?fn = map ?name (filter ?keep ?named)"
      by (simp add: results_def instrs filter_map comp_def conj_commute)
    moreover have "results fn = map ?name ?named" by (simp add: results_def filter_map comp_def)
    moreover have "distinct (results fn)" using old(1) by (simp add: ssa_def)
    ultimately have "distinct (results ?fn)" "set (results ?fn) \<subseteq> set (results fn)"
      by (simp_all only: distinct_map_filter set_map set_filter image_mono Collect_mono) auto
    moreover have "param_names ?fn = param_names fn" by (simp add: param_names_def fn')
    moreover have "set (results fn) \<inter> set (param_names fn) = {}"
      "\<forall>x\<in>set (results fn) \<union> set (param_names fn). parse_int64 x = None \<and> x \<noteq> []"
      "\<forall>i\<in>set (all_instrs fn). v_name (i_result i) = [] \<longrightarrow> i_op i = ''cond_fail''"
      using old(1) unfolding ssa_def by blast+
    moreover from this(3) have "\<forall>i\<in>set (all_instrs ?fn). v_name (i_result i) = [] \<longrightarrow> i_op i = ''cond_fail''"
      by (auto simp: instrs answer_simps(4))
    ultimately show ?thesis unfolding ssa_def by auto
  qed
  moreover have "strict ?fn"
    unfolding fn' using answer_simps(1)[of ?ss] answer_simps(2,6) by (intro thin_strict[OF _ _ _ _ old(2)]) auto
  moreover have "consistent_types ?fn"
  proof (rule consistent_subset[OF _ _ old(3)])
    fix i'
    assume "i' \<in> set (all_instrs ?fn)"
    then obtain i where i: "i \<in> set (all_instrs fn)" "i' = answer_known ?ss i" by (auto simp: instrs)
    with answer_simps(3)[of ?ss i] answer_simps(7)[of ?ss i]
    show "\<exists>i\<in>set (all_instrs fn). i_result i = i_result i' \<and> set (instr_reads i') \<subseteq> set (instr_reads i) \<and>
        (i_op i' = ''id'' \<longrightarrow> i_op i = ''id'' \<and> i_args i = i_args i')" by (intro bexI[of _ i]) auto
  next
    fix b v
    assume "b \<in> set (f_blocks ?fn)" "v \<in> set (term_reads (b_term b))"
    then show "v_name v = [] \<or> (\<exists>b\<in>set (f_blocks fn). v \<in> set (term_reads (b_term b)))" by (auto simp: fn' thin_def)
  qed
  moreover have "block_names_ok ?fn" using old(4) names by (metis block_names_ok_def list.set_map)
  moreover have "no_entry_phi ?fn"
    using wf answer_simps(2) by (cases "f_blocks fn") (auto simp: branch_wf_def no_entry_phi_def list_all_iff fn' thin_def)
  moreover have "phi_exact ?fn"
    using wf answer_simps(2) answer_simps(1)[of ?ss]
    by (auto simp: branch_wf_def phi_exact_def list_all_iff fn' thin_def)
  moreover have "phi_types ?fn" "phi_agree ?fn" using phi_subset[OF sub wf] by blast+
  ultimately show ?thesis by (simp add: branch_wf_def copy_wf_def)
qed

lemma simplify_branches_result:
  assumes m: "error_machine m" and wf: "branch_wf fn" "results_wf fn" and call: "call_for n m fn vals s = Some r"
  shows "\<exists>fn'. simplify_branches_in fn = Some fn' \<and> call_for n m fn' vals s = Some r"
proof -
  let ?fn1 = "fold_known_results fn"
  let ?fn2 = "cut_function ?fn1"
  have "copy_wf fn" using wf(1) by (simp add: branch_wf_def)
  note call1 = known_preserves[OF m this wf(2) call]
  note wf1 = known_branch_wf[OF wf(1)]
  note wf2 = cut_branch_wf[OF wf1] and call2 = cut_preserves[OF wf1 call1]
  from phi_fold_preserves[OF removed_phi_wf(1)[OF wf2] remove_preserves[OF wf2 call2]] obtain fn' where
    "fold_trivial_phis (remove_unreachable_blocks ?fn2) = Some fn'" "call_for n m fn' vals s = Some r" by blast
  with call call2 show ?thesis
    by (cases "snd (cut_branches ?fn1)") (auto simp: simplify_branches_in_def cut_function_def Let_def split: prod.splits)
qed

text \<open>The pass over a module.\<close>

definition simplify_branches :: "module \<Rightarrow> module option" where
  "simplify_branches m = map_option (\<lambda>fs. m\<lparr>m_functions := fs\<rparr>) (those (map simplify_branches_in (m_functions m)))"


lemma reachable_path: "reachable_point fn u \<Longrightarrow> block_names_ok fn \<Longrightarrow> \<exists>ps. block_path fn ps (fst u)"
proof (induction rule: reachable_point.induct)
  case entry_point
  then show ?case by (auto intro: path_entry)
next
  case (next_point u w)
  then obtain ps where ps: "block_path fn ps (fst u)" by blast
  obtain p k where u: "u = (p, k)" by (cases u)
  show ?case
  proof (cases "k < length (b_instrs (f_blocks fn ! p))")
    case True
    with next_point.hyps(2) u ps show ?thesis by (auto simp: edge_def)
  next
    case False
    with edge_successor[OF _ False next_point.prems] next_point.hyps(2) u obtain q where
      "w = (q, 0)" "q \<in> set (succ_positions fn p)" by blast
    then show ?thesis using path_step[of fn ps p q] ps u by auto
  qed
qed

lemma thin_path:
  assumes t: "\<And>x. t_op (t x) = t_op x \<and> t_target (t x) = t_target x \<and> t_else (t x) = t_else x" and ne: "f_blocks fn \<noteq> []"
  shows "block_path fn ps p \<Longrightarrow> block_path (thin keep g t fn) ps p"
proof (induction rule: block_path.induct)
  case (path_step ps q p)
  have "q < length (f_blocks fn)" using block_path_bound[OF ne path_step.hyps(1)] .
  then have "succ_positions (thin keep g t fn) q = succ_positions fn q"
    using t by (simp add: succ_positions_def successors_def)
  with path_step show ?case by (simp add: block_path.path_step)
qed (rule path_entry)

lemma phi_fold_shape:
  assumes wf: "phi_wf fn" and ne: "f_blocks fn \<noteq> []"
  shows "\<exists>fn'. fold_trivial_phis fn = Some fn' \<and> trivial_phis fn' = [] \<and>
    (\<forall>p<length (f_blocks fn'). \<exists>ps. block_path fn' ps p)"
proof -
  have "settled_copies bare_machine fn (start Map.empty ()) Map.empty" by (simp add: settled_copies_def replacing_def)
  from phi_rounds[OF wf without_none[symmetric] this] obtain cs where
    cs: "fold_trivial_phis fn = Some (without cs fn)" "trivial_phis (without cs fn) = []" by blast
  have "\<exists>ps. block_path (without cs fn) ps p" if p: "p < length (f_blocks (without cs fn))" for p
  proof -
    have "reachable_point fn (p, 0)" "block_names_ok fn" using wf p by (simp_all add: phi_wf_def copy_wf_def without_def)
    from reachable_path[OF this] obtain ps where "block_path fn ps p" by auto
    then have "block_path (without cs fn) ps p"
      unfolding without_def by (intro thin_path ne) (simp_all add: replace_terminator_args_def map_term_reads_def)
    then show ?thesis by blast
  qed
  with cs show ?thesis by blast
qed

text \<open>
  C4: SimplifyBranches keeps what a function computes. For a well-formed function and
  operations on which an error.ok makes a success, the pass answers, and a call that returns
  a value and a memory returns the same after it: after the tests of known successes are
  answered, the branches with one possible arm cut, the blocks no path reaches removed
  with the values their edges gave to phis, and the phis left with one value replaced.
\<close>
theorem simplify_branches_preserves:
  assumes "error_machine m" "branch_wf fn" "results_wf fn" "call_for n m fn vals s = Some r"
  shows "\<exists>fn'. simplify_branches_in fn = Some fn' \<and> call_for n m fn' vals s = Some r"
  using assms by (rule simplify_branches_result)

definition match_example :: func where
  "match_example = function_of [\<lparr>p_name = ''a'', p_type = ''i64'', p_passing = PassValue\<rparr>] ''i64''
     [block_of ''entry'' [(new_instr (typed ''%0'' ''Err!void'') ''error.ok''),
         (new_instr (typed ''%1'' ''bool'') ''error.has'')\<lparr>i_args := [typed ''%0'' ''Err!void'']\<rparr>]
        ((new_term ''branch'')\<lparr>t_cond := typed ''%1'' ''bool'', t_target := ''left'', t_else := ''right''\<rparr>),
      block_of ''left'' [binary_i64 ''%2'' ''bool'' ''binary.<'' ''a'' ''a'']
        ((new_term ''branch'')\<lparr>t_cond := typed ''%2'' ''bool'', t_target := ''never'', t_else := ''join''\<rparr>),
      block_of ''right'' [const_i64 ''%3'' ''5''] ((new_term ''jump'')\<lparr>t_target := ''join''\<rparr>),
      block_of ''never'' [] (new_term ''unreachable''),
      block_of ''join''
        [(new_instr (typed ''%4'' ''i64'') ''phi'')\<lparr>i_incoming :=
           [\<lparr>in_block = ''left'', in_value = typed ''a'' ''i64''\<rparr>, \<lparr>in_block = ''right'', in_value = typed ''%3'' ''i64''\<rparr>]\<rparr>,
         binary_i64 ''%5'' ''i64'' ''binary.+'' ''%4'' ''a'']
        (return_of ''%5'' ''i64'')]"

definition success_machine :: "(unit, unit) machine" where
  "success_machine = \<lparr>mc_op = (\<lambda>i vals _.
     if i_op i = ''error.ok'' then Some (Yield (OtherV ()) ()) else if i_op i = ''error.has'' then Some (Yield (BoolV True) ())
      else if i_op i = ''error.try'' then Some (Yield (OtherV ()) ()) else None), mc_lit = (\<lambda>_. None)\<rparr>"

lemma match_example_wf: "branch_wf match_example"
proof -
  have "verify_function (one_function match_example) match_example = None" by code_simp
  moreover have "ssa match_example" "block_names_ok match_example" "consistent_types match_example" by code_simp+
  moreover have "no_entry_phi match_example" "phi_exact match_example" "phi_types match_example" "phi_agree match_example"
    by code_simp+
  ultimately show ?thesis using verify_strict by (simp add: branch_wf_def copy_wf_def)
qed

lemma success_machine_ok: "error_machine success_machine"
  by (simp add: error_machine_def holds_success_def success_machine_def)

theorem simplify_branches_preserves_witness:
  "\<exists>fn'. simplify_branches_in match_example = Some fn' \<and>
     call_for 9 success_machine fn' [IntV 21] () = Some (IntV 42, ())"
proof (rule simplify_branches_preserves[OF success_machine_ok match_example_wf])
  show "results_wf match_example" by code_simp
  show "call_for 9 success_machine match_example [IntV 21] () = Some (IntV 42, ())" by code_simp
qed

text \<open>
  C5: What SimplifyBranches leaves behind once it has cut a branch: it ends, every block of
  the function is reached from the entry by some path of control, and no phi is left whose
  incoming values are one value besides itself.
\<close>
theorem simplify_branches_shape:
  assumes "branch_wf fn" "f_blocks fn \<noteq> []" "snd (cut_branches (fold_known_results fn))"
  shows "\<exists>fn'. simplify_branches_in fn = Some fn' \<and> trivial_phis fn' = [] \<and>
    (\<forall>p<length (f_blocks fn'). \<exists>ps. block_path fn' ps p)"
proof -
  let ?fn2 = "cut_function (fold_known_results fn)"
  have wf2: "branch_wf ?fn2" using assms(1) by (intro cut_branch_wf known_branch_wf)
  have "f_blocks ?fn2 \<noteq> []" using assms(2) by (simp add: cut_upto_def fold_known_thin thin_def)
  then have "f_blocks (remove_unreachable_blocks ?fn2) \<noteq> []"
    using kept_facts(3) removed_blocks(1) by (metis length_0_conv)
  from phi_fold_shape[OF removed_phi_wf(1)[OF wf2] this] show ?thesis
    using assms(2,3) by (cases "cut_branches (fold_known_results fn)") (simp add: simplify_branches_in_def cut_function_def)
qed

theorem simplify_branches_shape_witness:
  "\<exists>fn'. simplify_branches_in match_example = Some fn' \<and> trivial_phis fn' = [] \<and>
    (\<forall>p<length (f_blocks fn'). \<exists>ps. block_path fn' ps p)"
  by (rule simplify_branches_shape[OF match_example_wf]) code_simp+

end
