(* ===== verification/Cse.thy ===== *)
theory Cse
  imports Simplify
begin

text \<open>
  EliminateCommonSubexpressions (internal/ir/cse.go): a walk over the dominator tree with the
  results that the dominators of a block computed, keyed by a spelling of the computation.
  A later instruction with an available key stays where it is; its reads become reads of the
  earlier result. What the walk keeps between blocks is its state: the blocks with their
  reads renamed so far, the replacements in the order they were found, and the available
  results. The recursion over the tree gets one unit of fuel for each block of the order.
\<close>

section \<open>The pass\<close>

text \<open>An operation whose result follows from its operands alone.\<close>

definition computes_from_operands :: "instr \<Rightarrow> bool" where
  "computes_from_operands i \<longleftrightarrow>
     (let op = i_op i in
      if op = ''const'' \<or> op = ''cast'' \<or> op = ''union.tag'' \<or> op = ''union.payload'' then True
      else if prefix ''binary.'' op then list_all (\<lambda>a. \<not> prefix ''[]'' (v_type a)) (i_args i)
      else if prefix ''unary.'' op then True
      else prefix ''field.'' op \<and> \<not> prefix ''field.ref'' op \<and> \<not> prefix ''field.addr.'' op \<and> \<not> prefix ''field.set.'' op)"

definition expression_text :: "instr \<Rightarrow> string" where
  "expression_text i =
     i_op i @ ''|'' @ i_immediate i @ ''|'' @ v_type (i_result i) @
     concat (map (\<lambda>a. ''|'' @ v_name a @ '':'' @ v_type a) (i_args i))"

definition expression_key :: "instr \<Rightarrow> string option" where
  "expression_key i =
     (if v_name (i_result i) = [] \<or> v_type (i_result i) = ''void'' \<or> 0 < length (i_cleanups i) \<or>
         \<not> computes_from_operands i then None
      else Some (expression_text i))"

text \<open>The reads that stand where the instruction does; those of a phi stand at its edges.\<close>

definition map_direct_reads :: "(ir_value \<Rightarrow> ir_value) \<Rightarrow> instr \<Rightarrow> instr" where
  "map_direct_reads f i = (map_reads f i)\<lparr>i_incoming := i_incoming i\<rparr>"

definition rename_instr_reads :: "replacements \<Rightarrow> instr \<Rightarrow> instr option" where
  "rename_instr_reads reps i =
     (let res = resolve (length reps) (lookup_last reps)
      in if list_all (\<lambda>v. res v \<noteq> None) (direct_reads i) then Some (map_direct_reads (\<lambda>v. the (res v)) i) else None)"

type_synonym available = "string \<rightharpoonup> ir_value"

primrec merge_instrs :: "instr list \<Rightarrow> replacements \<Rightarrow> available \<Rightarrow> (instr list \<times> replacements \<times> available \<times> string list) option" where
  "merge_instrs [] reps av = Some ([], reps, av, [])"
| "merge_instrs (i # is) reps av =
     Option.bind (rename_instr_reads reps i) (\<lambda>i'.
       case expression_key i' of
         None \<Rightarrow> map_option (\<lambda>(is', reps', av', added). (i' # is', reps', av', added)) (merge_instrs is reps av)
       | Some key \<Rightarrow>
           (case av key of
              Some prior \<Rightarrow>
                map_option (\<lambda>(is', reps', av', added). (i' # is', reps', av', added))
                  (merge_instrs is (reps @ [(v_name (i_result i'), prior)]) av)
            | None \<Rightarrow>
                map_option (\<lambda>(is', reps', av', added). (i' # is', reps', av', key # added))
                  (merge_instrs is reps (av(key \<mapsto> i_result i')))))"

type_synonym merge_state = "block list \<times> replacements \<times> available"

primrec seq_all :: "('a \<Rightarrow> 's \<Rightarrow> 's option) \<Rightarrow> 'a list \<Rightarrow> 's \<Rightarrow> 's option" where
  "seq_all f [] s = Some s"
| "seq_all f (x # xs) s = Option.bind (f x s) (seq_all f xs)"

primrec merge_visit :: "nat \<Rightarrow> (nat \<Rightarrow> nat list) \<Rightarrow> nat \<Rightarrow> merge_state \<Rightarrow> merge_state option" where
  "merge_visit 0 children p st = None"
| "merge_visit (Suc fuel) children p st =
     (case st of (bs, reps, av) \<Rightarrow>
        Option.bind (merge_instrs (b_instrs (bs ! p)) reps av) (\<lambda>(is', reps1, av1, added).
          map_option (\<lambda>(bs2, reps2, av2). (bs2, reps2, fold (\<lambda>key a. a(key := None)) added av2))
            (seq_all (merge_visit fuel children) (children p) (bs[p := (bs ! p)\<lparr>b_instrs := is'\<rparr>], reps1, av1))))"

definition tree_children :: "nat list \<Rightarrow> idoms \<Rightarrow> nat \<Rightarrow> nat list" where
  "tree_children order idom p =
     map (\<lambda>i. order ! i) (filter (\<lambda>i. map_option (\<lambda>d. order ! d) (idom_at idom i) = Some p) [1..<length order])"

definition eliminate_common_subexpressions_in :: "func \<Rightarrow> func option" where
  "eliminate_common_subexpressions_in fn =
     (if f_blocks fn = [] then Some fn
      else let order = reverse_postorder fn in
        Option.bind (build_dominator_tree fn) (\<lambda>tree.
        Option.bind (merge_visit (length order) (tree_children order (dt_idom tree)) (order ! 0) (f_blocks fn, [], Map.empty))
          (\<lambda>(bs, reps, av).
             if reps = [] then Some (fn\<lparr>f_blocks := bs\<rparr>)
             else replace_function_values reps (fn\<lparr>f_blocks := bs\<rparr>))))"

definition eliminate_common_subexpressions :: "module \<Rightarrow> module option" where
  "eliminate_common_subexpressions m =
     map_option (\<lambda>fs. m\<lparr>m_functions := fs\<rparr>) (those (map eliminate_common_subexpressions_in (m_functions m)))"

section \<open>Replacing reads preserves runs\<close>

definition reads_ok :: "('v, 's) machine \<Rightarrow> copies \<Rightarrow> func \<Rightarrow> ('v, 's) state \<Rightarrow> bool" where
  "reads_ok m cs fn \<sigma> \<longleftrightarrow> copy_wf fn \<and> (\<exists>args s. copy_sound m fn (start args s) cs \<and> reach m fn (start args s) \<sigma>)"

lemma replaced_copied:
  "copy_sound m fn \<sigma>0 cs \<Longrightarrow> copied m fn \<sigma>0 0 (f_blocks (map_function_reads (replace_value cs) fn))"
  by (auto simp: copied_def map_function_reads_def replace_args_def replace_terminator_args_def)

interpretation reads: lockstep m "map_function_reads (replace_value cs)" "reads_ok m cs" for m cs
proof
  fix fn \<sigma> \<tau>
  assume "reads_ok m cs fn \<sigma>"
  then obtain args s where a: "copy_wf fn" "copy_sound m fn (start args s) cs" "reach m fn (start args s) \<sigma>"
    by (auto simp: reads_ok_def)
  show "step m (map_function_reads (replace_value cs) fn) \<sigma> = step m fn \<sigma>" if "step m fn \<sigma> \<noteq> Stuck"
    by (rule copied_step[OF a(1,3) that _ replaced_copied[OF a(2)]]) (simp add: map_function_reads_def)
  show "reads_ok m cs fn \<tau>" if "step m fn \<sigma> = Go \<tau>"
    using a that by (auto simp: reads_ok_def intro: reach.further)
qed

lemma replaced_reads_preserve:
  assumes "copy_wf fn" "copy_sound m fn (start (call_env fn vals) s) cs" and "call_for n m fn vals s = Some r"
  shows "call_for n m (map_function_reads (replace_value cs) fn) vals s = Some r"
proof -
  have ok: "reads_ok m cs fn (start (call_env fn vals) s)"
    using assms(1,2) unfolding reads_ok_def by (blast intro: reach.here)
  have env: "call_env (map_function_reads (replace_value cs) fn) vals = (call_env fn vals :: 'a env)"
    by (simp add: call_env_def map_function_reads_def)
  have "run m fn n (start (call_env fn vals) s) = Some r" using assms(3) by (simp add: call_for_def)
  from reads.run_preserved[OF conjI[OF ok refl] this] show ?thesis by (simp add: call_for_def env)
qed

section \<open>What an executed instruction left\<close>

text \<open>Two instructions that compute the same from the same operands.\<close>

definition same_expression :: "instr \<Rightarrow> instr \<Rightarrow> bool" where
  "same_expression i j \<longleftrightarrow> i_op i = i_op j \<and> i_immediate i = i_immediate j \<and>
     v_type (i_result i) = v_type (i_result j) \<and> map v_type (i_args i) = map v_type (i_args j) \<and>
     i_fields i = [] \<and> i_fields j = [] \<and> i_cleanups i = [] \<and> i_cleanups j = []"

text \<open>
  What the machine promises of the operations the pass merges: whatever the memory, two of
  them with one spelling and the same operands do not yield different results.
\<close>

definition operand_machine :: "('v, 's) machine \<Rightarrow> bool" where
  "operand_machine m \<longleftrightarrow>
     (\<forall>i j vals s x s' t y t'. computes_from_operands i \<longrightarrow> same_expression i j \<longrightarrow>
        mc_op m i vals s = Some (Yield x s') \<longrightarrow> mc_op m j vals t = Some (Yield y t') \<longrightarrow> x = y)"

definition yields :: "('v, 's) machine \<Rightarrow> instr \<Rightarrow> 'v val list \<Rightarrow> 'v val \<Rightarrow> bool" where
  "yields m i vals x \<longleftrightarrow>
     (case fixed_value i (take (length (i_args i)) vals) of
        Some y \<Rightarrow> x = y
      | None \<Rightarrow> \<exists>s s'. mc_op m (shape i) vals s = Some (Yield x s'))"

lemma exec_yields:
  assumes "exec m \<sigma> i = Some (Yield x s)" "i_op i \<noteq> ''phi''"
  shows "\<exists>vals. operands m (st_env \<sigma>) (direct_reads i) = Some vals \<and> yields m i vals x"
proof -
  from assms obtain vals where vals: "operands m (st_env \<sigma>) (direct_reads i) = Some vals"
    by (auto simp: exec_def split: option.splits)
  with assms have "yields m i vals x"
    by (cases "fixed_value i (take (length (i_args i)) vals) :: 'a val option") (auto simp: exec_def yields_def)
  with vals show ?thesis by blast
qed

lemma yields_same:
  assumes m: "operand_machine m" and i: "computes_from_operands i" and same: "same_expression i j"
    and "yields m i vals x" "yields m j vals y"
  shows "x = y"
proof -
  have eqs: "i_op i = i_op j" "i_immediate i = i_immediate j" "v_type (i_result i) = v_type (i_result j)"
    "map v_type (i_args i) = map v_type (i_args j)"
    using same by (simp_all add: same_expression_def)
  have len: "length (i_args i) = length (i_args j)" using eqs(4) by (metis length_map)
  have "list_all (\<lambda>a. v_type a = ''i64'') as = list_all (\<lambda>t. t = ''i64'') (map v_type as)" for as
    by (simp add: list.pred_map comp_def)
  then have words: "list_all (\<lambda>a. v_type a = ''i64'') (i_args i) = list_all (\<lambda>a. v_type a = ''i64'') (i_args j)"
    using eqs(4) by metis
  have fixed: "fixed_value i (take (length (i_args i)) vals) = (fixed_value j (take (length (i_args j)) vals) :: 'a val option)"
    unfolding fixed_value_def const_value_def eqs(1-3) len words by (rule refl)
  have "computes_from_operands (shape i) \<and> same_expression (shape i) (shape j)"
    using i same
    by (auto simp: same_expression_def computes_from_operands_def shape_def map_reads_def anonymous_def list_all_iff comp_def Let_def)
  then have merged: "x = y" if "mc_op m (shape i) vals s = Some (Yield x s')" "mc_op m (shape j) vals t = Some (Yield y t')" for s s' t t'
    using m that unfolding operand_machine_def by blast
  show ?thesis
  proof (cases "fixed_value i (take (length (i_args i)) vals) :: 'a val option")
    case None
    with assms(4,5) fixed obtain s s' t t' where
      "mc_op m (shape i) vals s = Some (Yield x s')" "mc_op m (shape j) vals t = Some (Yield y t')"
      by (auto simp: yields_def)
    then show ?thesis by (rule merged)
  next
    case (Some z)
    moreover from this have "fixed_value j (take (length (i_args j)) vals) = Some z" using fixed by metis
    ultimately show ?thesis using assms(4,5) by (simp add: yields_def)
  qed
qed

text \<open>Wherever such an instruction has been passed, its result is what its operands give.\<close>

lemma operands_bind_other:
  "v_name (i_result i) = [] \<or> (\<forall>v\<in>set vs. v_name v \<noteq> v_name (i_result i)) \<Longrightarrow>
    operands m (bind_result i x env) vs = operands m env vs"
proof (cases "v_name (i_result i) = []")
  case True
  then show ?thesis by (simp add: bind_result_def)
next
  case False
  assume "v_name (i_result i) = [] \<or> (\<forall>v\<in>set vs. v_name v \<noteq> v_name (i_result i))"
  with False have "\<forall>v\<in>set vs. v_name v \<noteq> v_name (i_result i)" by blast
  then show ?thesis by (induction vs) (simp_all add: operand_bind_other split: option.split)
qed

lemma passed_value:
  assumes ssa: "ssa fn" and strict: "strict fn" and at: "instr_at fn p k = Some i"
    and op: "i_op i \<noteq> ''phi''" and named: "v_name (i_result i) \<noteq> []"
    and "reach m fn (start args s) \<sigma>" and "\<not> avoids fn (p, k) (point_of \<sigma>)"
  shows "\<exists>x vals. st_env \<sigma> (v_name (i_result i)) = Some x \<and>
    operands m (st_env \<sigma>) (direct_reads i) = Some vals \<and> yields m i vals x"
  using assms(6,7)
proof (induction rule: reach.induct)
  case here
  then show ?case by (simp add: point_of_def start_def avoids.entry)
next
  case (further \<sigma> \<tau>)
  have before: "defined_before fn (v_name v) (p, k)" if "v \<in> set (direct_reads i)" for v
    using strict at op that unfolding strict_def by metis
  have elsewhere: "v_name (i_result j) = [] \<or> (\<forall>v\<in>set (direct_reads i). v_name v \<noteq> v_name (i_result j))"
    if j: "current_instr fn \<sigma> = Some j" and "\<not> avoids fn (p, k) (point_of \<sigma>) \<or> point_of \<sigma> = (p, k)" for j
  proof (rule ccontr)
    assume "\<not> ?thesis"
    then obtain v where "v \<in> set (direct_reads i)" "v_name v = v_name (i_result j)" "v_name (i_result j) \<noteq> []" by auto
    with before[of v] j have "\<not> avoids fn (point_of \<sigma>) (p, k)"
      by (auto simp: defined_before_def current_instr_def point_of_def)
    with that(2) avoids_either[OF reach_point[OF further.hyps(1)], of "(p, k)"] show False by auto
  qed
  show ?case
  proof (cases "point_of \<sigma> = (p, k)")
    case True
    then have cur: "current_instr fn \<sigma> = Some i" using at by (simp add: point_of_def current_instr_def)
    with further.hyps(2) obtain x s' where x: "exec m \<sigma> i = Some (Yield x s')"
      and \<tau>: "\<tau> = \<sigma>\<lparr>st_step := Suc (st_step \<sigma>), st_env := bind_result i x (st_env \<sigma>), st_mem := s'\<rparr>"
      by (auto simp: step_instr after_Go)
    from exec_yields[OF x op] obtain vals where "operands m (st_env \<sigma>) (direct_reads i) = Some vals" "yields m i vals x" by blast
    moreover have "operands m (st_env \<tau>) (direct_reads i) = operands m (st_env \<sigma>) (direct_reads i)"
      unfolding \<tau> using True by (simp add: operands_bind_other[OF elsewhere[OF cur]])
    moreover have "st_env \<tau> (v_name (i_result i)) = Some x" using \<tau> named by (simp add: bind_result_def)
    ultimately show ?thesis by metis
  next
    case away: False
    with further have notav: "\<not> avoids fn (p, k) (point_of \<sigma>)" by (meson avoids.onward step_edge)
    from further.IH[OF this] obtain x vals where IH: "st_env \<sigma> (v_name (i_result i)) = Some x"
      "operands m (st_env \<sigma>) (direct_reads i) = Some vals" "yields m i vals x" by blast
    from further.hyps(2) show ?thesis
    proof (cases rule: step_cases)
      case (jump target q)
      with IH show ?thesis by auto
    next
      case (instr j y s')
      have "v_name (i_result j) \<noteq> v_name (i_result i)"
        using ssa_unique[OF ssa at, of "st_block \<sigma>" "st_step \<sigma>" j] instr(1) named away
        by (auto simp: point_of_def current_instr_def)
      then have "st_env \<tau> (v_name (i_result i)) = Some x" using IH(1) instr(3) by (simp add: bind_result_def)
      moreover have "operands m (st_env \<tau>) (direct_reads i) = Some vals"
        using notav IH(2) instr(3) by (simp add: operands_bind_other[OF elsewhere[OF instr(1)]])
      ultimately show ?thesis using IH(3) by blast
    qed
  qed
qed

section \<open>What the spelling of a computation tells\<close>

text \<open>
  Names hold neither separator and types no bar, and a bar in an operation is the one
  operation spelled with it. An immediate holds bars in constants only, which have no
  arguments after it.
\<close>

definition value_spelled :: "ir_value \<Rightarrow> bool" where
  "value_spelled v \<longleftrightarrow> CHR ''|'' \<notin> set (v_name v) \<and> CHR '':'' \<notin> set (v_name v) \<and> CHR ''|'' \<notin> set (v_type v)"

definition op_spelled :: "instr \<Rightarrow> bool" where
  "op_spelled i \<longleftrightarrow> i_fields i = [] \<and> (CHR ''|'' \<in> set (i_op i) \<longrightarrow> i_op i = ''binary.|'') \<and> i_op i \<noteq> ''binary.'' \<and>
     (CHR ''|'' \<in> set (i_immediate i) \<longrightarrow> i_op i = ''const'') \<and> (i_op i = ''const'' \<longrightarrow> i_args i = [])"

definition keys_ok :: "func \<Rightarrow> bool" where
  "keys_ok fn \<longleftrightarrow> list_all (\<lambda>i. (computes_from_operands i \<longrightarrow> op_spelled i) \<and>
     list_all value_spelled (i_result i # instr_reads i)) (all_instrs fn)"

lemma split_at_first: "a @ c # b = a' @ c # b' \<Longrightarrow> c \<notin> set a \<Longrightarrow> c \<notin> set a' \<Longrightarrow> a = a' \<and> b = b'"
  by (induction a arbitrary: a') (auto simp: Cons_eq_append_conv)

lemma split_at_last: "a @ c # b = a' @ c # b' \<Longrightarrow> c \<notin> set b \<Longrightarrow> c \<notin> set b' \<Longrightarrow> a = a' \<and> b = b'"
  using split_at_first[of "rev b" c "rev a" "rev b'" "rev a'"] by (metis append.assoc append_Cons append_Nil rev.simps(2) rev_append rev_rev_ident set_rev)

lemma split_before:
  assumes "a @ b = a' @ b'" "c \<notin> set a" "c \<notin> set a'" "b = [] \<or> hd b = c" "b' = [] \<or> hd b' = c"
  shows "a = a' \<and> b = b'"
proof -
  have "takeWhile (\<lambda>x. x \<noteq> c) (xs @ ys) = xs" if "c \<notin> set xs" "ys = [] \<or> hd ys = c" for xs ys
  proof -
    have "takeWhile (\<lambda>x. x \<noteq> c) (xs @ ys) = xs @ takeWhile (\<lambda>x. x \<noteq> c) ys"
      using that(1) by (intro takeWhile_append2) auto
    also have "takeWhile (\<lambda>x. x \<noteq> c) ys = []" using that(2) by (cases ys) auto
    finally show ?thesis by simp
  qed
  from this[OF assms(2,4)] this[OF assms(3,5)] assms(1) show ?thesis by (metis append_same_eq same_append_eq)
qed

definition args_text :: "ir_value list \<Rightarrow> string" where
  "args_text as = concat (map (\<lambda>a. ''|'' @ v_name a @ '':'' @ v_type a) as)"

lemma args_text_start: "args_text as = [] \<or> hd (args_text as) = CHR ''|''"
  by (cases as) (auto simp: args_text_def)

lemma args_text_inj:
  "args_text as = args_text bs \<Longrightarrow> list_all value_spelled as \<Longrightarrow> list_all value_spelled bs \<Longrightarrow> as = bs"
proof (induction as arbitrary: bs)
  case Nil
  then show ?case by (cases bs) (auto simp: args_text_def)
next
  case (Cons a as)
  then obtain b bs' where bs: "bs = b # bs'" by (cases bs) (auto simp: args_text_def)
  have eq: "v_name a @ CHR '':'' # (v_type a @ args_text as) = v_name b @ CHR '':'' # (v_type b @ args_text bs')"
    using Cons.prems(1) bs by (simp add: args_text_def)
  have spelled: "value_spelled a" "value_spelled b" using Cons.prems(2,3) bs by simp_all
  then have "v_name a = v_name b" "v_type a @ args_text as = v_type b @ args_text bs'"
    using split_at_first[OF eq] by (simp_all add: value_spelled_def)
  moreover from split_before[OF this(2) _ _ args_text_start args_text_start] spelled
  have "v_type a = v_type b" "args_text as = args_text bs'" by (simp_all add: value_spelled_def)
  ultimately show ?case using Cons.IH[of bs'] Cons.prems(2,3) bs by simp
qed

lemma expression_text_inj:
  assumes "expression_text i = expression_text j"
    and i: "op_spelled i" "list_all value_spelled (i_result i # i_args i)"
    and j: "op_spelled j" "list_all value_spelled (i_result j # i_args j)"
  shows "i_op i = i_op j \<and> i_immediate i = i_immediate j \<and> v_type (i_result i) = v_type (i_result j) \<and> i_args i = i_args j"
proof -
  let ?bar = "CHR ''|''"
  let ?rest = "\<lambda>i. i_immediate i @ ?bar # (v_type (i_result i) @ args_text (i_args i))"
  have eq: "i_op i @ ?bar # ?rest i = i_op j @ ?bar # ?rest j"
    using assms(1) by (simp add: expression_text_def args_text_def)
  have mixed: False if eq: "''binary.|'' @ ?bar # xs = op @ ?bar # ys" and "?bar \<notin> set op" "op \<noteq> ''binary.''" for op xs ys
  proof -
    have "''binary.'' @ ?bar # (?bar # xs) = op @ ?bar # ys" using eq by simp
    from split_at_first[OF this] that(2,3) show False by simp
  qed
  have ops: "i_op i = i_op j \<and> ?rest i = ?rest j"
  proof (cases "?bar \<in> set (i_op i)"; cases "?bar \<in> set (i_op j)")
    assume "?bar \<notin> set (i_op i)" "?bar \<notin> set (i_op j)"
    from split_at_first[OF eq this] show ?thesis .
  next
    assume "?bar \<in> set (i_op i)" "?bar \<in> set (i_op j)"
    then have "i_op i = ''binary.|''" "i_op j = ''binary.|''" using i(1) j(1) by (simp_all add: op_spelled_def)
    with eq show ?thesis by simp
  next
    assume "?bar \<in> set (i_op i)" "?bar \<notin> set (i_op j)"
    moreover from this have "i_op i = ''binary.|''" using i(1) by (simp add: op_spelled_def)
    ultimately show ?thesis using mixed[of "?rest i" "i_op j" "?rest j"] eq j(1) by (simp add: op_spelled_def)
  next
    assume "?bar \<notin> set (i_op i)" "?bar \<in> set (i_op j)"
    moreover from this have "i_op j = ''binary.|''" using j(1) by (simp add: op_spelled_def)
    ultimately show ?thesis using mixed[of "?rest j" "i_op i" "?rest i"] eq i(1) by (simp add: op_spelled_def)
  qed
  have types: "?bar \<notin> set (v_type (i_result i))" "?bar \<notin> set (v_type (i_result j))" using i(2) j(2) by (simp_all add: value_spelled_def)
  show ?thesis
  proof (cases "i_op i = ''const''")
    case True
    then have none: "i_args i = []" "i_args j = []" using ops i(1) j(1) by (simp_all add: op_spelled_def)
    with ops have "i_immediate i @ ?bar # v_type (i_result i) = i_immediate j @ ?bar # v_type (i_result j)"
      by (simp add: args_text_def)
    from split_at_last[OF this types] ops none show ?thesis by simp
  next
    case False
    then have "?bar \<notin> set (i_immediate i)" "?bar \<notin> set (i_immediate j)" using ops i(1) j(1) by (auto simp: op_spelled_def)
    from split_at_first[OF conjunct2[OF ops] this] have
      imm: "i_immediate i = i_immediate j" "v_type (i_result i) @ args_text (i_args i) = v_type (i_result j) @ args_text (i_args j)"
      by simp_all
    from split_before[OF imm(2) types args_text_start args_text_start] args_text_inj i(2) j(2) imm(1) ops show ?thesis by simp
  qed
qed

section \<open>Merging is right\<close>

definition flat :: "copies \<Rightarrow> bool" where
  "flat cs \<longleftrightarrow> (\<forall>w\<in>ran cs. v_name w \<notin> dom cs)"

definition merged :: "('v, 's) machine \<Rightarrow> func \<Rightarrow> ('v, 's) state \<Rightarrow> copies \<Rightarrow> bool" where
  "merged m fn \<sigma>0 cs \<longleftrightarrow> standing m fn \<sigma>0 cs \<and> ran cs \<subseteq> i_result ` set (all_instrs fn)"

definition available_ok :: "('v, 's) machine \<Rightarrow> func \<Rightarrow> ('v, 's) state \<Rightarrow> available \<Rightarrow> point \<Rightarrow> bool" where
  "available_ok m fn \<sigma>0 av u \<longleftrightarrow>
     (\<forall>key w. av key = Some w \<longrightarrow> (\<exists>q k j cs. instr_at fn q k = Some j \<and> i_result j = w \<and> merged m fn \<sigma>0 cs \<and>
        expression_key (map_direct_reads (replace_value cs) j) = Some key \<and> \<not> avoids fn (q, k) u))"

lemma map_direct_simps [simp]:
  "i_op (map_direct_reads f i) = i_op i" "i_result (map_direct_reads f i) = i_result i"
  "i_immediate (map_direct_reads f i) = i_immediate i" "i_args (map_direct_reads f i) = map f (i_args i)"
  "(i_cleanups (map_direct_reads f i) = []) = (i_cleanups i = [])" "(i_fields (map_direct_reads f i) = []) = (i_fields i = [])"
  "direct_reads (map_direct_reads f i) = map f (direct_reads i)"
  by (simp_all add: map_direct_reads_def map_reads_def direct_reads_def map_field_arg_def map_cleanup_def map_concat comp_def)

lemma expression_key_Some:
  assumes "expression_key i = Some key"
  shows "v_name (i_result i) \<noteq> []" "computes_from_operands i" "i_cleanups i = []" "key = expression_text i" "i_op i \<noteq> ''phi''"
  using assms by (auto simp: expression_key_def computes_from_operands_def Let_def split: if_splits)

lemma computes_types:
  "map v_type (i_args i) = map v_type (i_args j) \<Longrightarrow> i_op i = i_op j \<Longrightarrow> computes_from_operands i = computes_from_operands j"
proof -
  assume ty: "map v_type (i_args i) = map v_type (i_args j)" and op: "i_op i = i_op j"
  have "list_all (\<lambda>a. \<not> prefix ''[]'' (v_type a)) as = list_all (\<lambda>t. \<not> prefix ''[]'' t) (map v_type as)" for as
    by (simp add: list.pred_map comp_def)
  then have "list_all (\<lambda>a. \<not> prefix ''[]'' (v_type a)) (i_args i) = list_all (\<lambda>a. \<not> prefix ''[]'' (v_type a)) (i_args j)"
    using ty by metis
  then show ?thesis unfolding computes_from_operands_def op by (simp only:)
qed

lemma merged_instr:
  assumes wf: "copy_wf fn" and keys: "keys_ok fn" and cs: "merged m fn \<sigma>0 cs" and at: "instr_at fn p k = Some i"
    and key: "expression_key (map_direct_reads (replace_value cs) i) = Some key"
  shows "map v_type (map (replace_value cs) (i_args i)) = map v_type (i_args i)" (is ?types)
    and "computes_from_operands i" and "i_fields i = []" and "i_cleanups i = []" and "i_op i \<noteq> ''phi''"
    and "v_name (i_result i) \<noteq> []" and "op_spelled (map_direct_reads (replace_value cs) i)"
    and "list_all value_spelled (i_result i # map (replace_value cs) (i_args i))"
proof -
  let ?i = "map_direct_reads (replace_value cs) i"
  note k = expression_key_Some[OF key]
  have i: "i \<in> set (all_instrs fn)" using at by (rule instr_at_all)
  have sound: "copy_sound m fn \<sigma>0 cs" using cs standing_facts(1) by (auto simp: merged_def)
  have "v_type (replace_value cs v) = v_type v" if "v \<in> set (i_args i)" for v
    using replaced_type[OF sound read_typed[OF _ i]] that wf by (simp add: copy_wf_def instr_reads_def)
  then show types: ?types by simp
  show comp: "computes_from_operands i" using computes_types[of ?i i] types k(2) by simp
  have spelled: "op_spelled i" "list_all value_spelled (i_result i # instr_reads i)"
    using keys i comp by (auto simp: keys_ok_def list_all_iff)
  show fields: "i_fields i = []" using spelled(1) by (simp add: op_spelled_def)
  show "i_cleanups i = []" "i_op i \<noteq> ''phi''" "v_name (i_result i) \<noteq> []" using k by simp_all
  show "op_spelled ?i" using spelled(1) unfolding op_spelled_def by simp
  have "value_spelled (replace_value cs v)" if "v \<in> set (i_args i)" for v
  proof (cases "cs (v_name v)")
    case None
    with spelled(2) that show ?thesis by (simp add: replace_value_def list_all_iff instr_reads_def)
  next
    case (Some w)
    then obtain j where "j \<in> set (all_instrs fn)" "i_result j = w" using cs by (fastforce simp: merged_def ran_def)
    with keys Some show ?thesis by (auto simp: replace_value_def keys_ok_def list_all_iff)
  qed
  with spelled(2) show "list_all value_spelled (i_result i # map (replace_value cs) (i_args i))" by (auto simp: list_all_iff)
qed

lemma merge_stands:
  assumes wf: "copy_wf fn" and keys: "keys_ok fn" and m: "operand_machine m"
    and cs: "merged m fn (start args s) cs" and av: "available_ok m fn (start args s) av (p, k)"
    and at: "instr_at fn p k = Some i" and key: "expression_key (map_direct_reads (replace_value cs) i) = Some key"
    and w: "av key = Some w"
  shows "stands_in m fn (start args s) i (p, k) w" and "w \<in> i_result ` set (all_instrs fn)"
proof -
  have ssa: "ssa fn" and strict: "strict fn" using wf by (simp_all add: copy_wf_def)
  from av w obtain q l j cs' where j: "instr_at fn q l = Some j" "i_result j = w" "merged m fn (start args s) cs'"
    "expression_key (map_direct_reads (replace_value cs') j) = Some key" "\<not> avoids fn (q, l) (p, k)"
    unfolding available_ok_def by blast
  let ?i = "map_direct_reads (replace_value cs) i" and ?j = "map_direct_reads (replace_value cs') j"
  note ki = merged_instr[OF wf keys cs at key] and kj = merged_instr[OF wf keys j(3,1,4)]
  have "expression_text ?i = expression_text ?j" using expression_key_Some(4)[OF key] expression_key_Some(4)[OF j(4)] by simp
  from expression_text_inj[OF this ki(7) _ kj(7)] ki(8) kj(8)
  have same: "i_op i = i_op j" "i_immediate i = i_immediate j" "v_type (i_result i) = v_type (i_result j)"
    "map (replace_value cs) (i_args i) = map (replace_value cs') (i_args j)" by simp_all
  have "map v_type (i_args i) = map v_type (i_args j)" using ki(1) kj(1) same(4) by metis
  then have expr: "same_expression i j" using same(1-3) ki(3,4) kj(3,4) by (simp add: same_expression_def)
  have reads: "direct_reads i = i_args i" "direct_reads j = i_args j" using ki(3,4) kj(3,4) by (simp_all add: direct_reads_def)
  show "w \<in> i_result ` set (all_instrs fn)" using j(1,2) by (auto dest: instr_at_all)
  have unique: "i' = j \<and> (p', k') = (q, l)" if "instr_at fn p' k' = Some i'" "v_name (i_result i') = v_name w" for i' p' k'
    using ssa_unique[OF ssa j(1) that(1)] that(2) j(2) kj(6) by simp
  have moved: "operands m (st_env \<sigma>) (map (replace_value cs0) (direct_reads i0)) = Some vals"
    if "reach m fn (start args s) \<sigma>" "instr_at fn p0 k0 = Some i0" "i_op i0 \<noteq> ''phi''" "\<not> avoids fn (p0, k0) (point_of \<sigma>)"
      "merged m fn (start args s) cs0" "operands m (st_env \<sigma>) (direct_reads i0) = Some vals" for \<sigma> i0 p0 k0 cs0 vals
  proof (rule replace_operands[OF standing_facts(1) that(1) _ that(6)])
    show "standing m fn (start args s) cs0" using that(5) by (simp add: merged_def)
    fix v
    assume "v \<in> set (direct_reads i0)"
    then have "defined_before fn (v_name v) (p0, k0)" using strict that(2,3) unfolding strict_def by metis
    then show "defined_before fn (v_name v) (point_of \<sigma>)"
      using that(4) avoids_through unfolding defined_before_def by blast
  qed
  have "same_value m fn (start args s) i (p, k) w"
    unfolding same_value_def
  proof (intro allI impI)
    fix \<sigma>
    assume \<sigma>: "reach m fn (start args s) \<sigma>" "\<not> avoids fn (p, k) (point_of \<sigma>)"
    then have passed: "\<not> avoids fn (q, l) (point_of \<sigma>)" using j(5) avoids_through by blast
    from passed_value[OF ssa strict at ki(5,6) \<sigma>] obtain x vals where
      x: "st_env \<sigma> (v_name (i_result i)) = Some x" "operands m (st_env \<sigma>) (direct_reads i) = Some vals" "yields m i vals x" by blast
    from passed_value[OF ssa strict j(1) kj(5,6) \<sigma>(1) passed] obtain y vals' where
      y: "st_env \<sigma> (v_name (i_result j)) = Some y" "operands m (st_env \<sigma>) (direct_reads j) = Some vals'" "yields m j vals' y" by blast
    from moved[OF \<sigma>(1) at ki(5) \<sigma>(2) cs x(2)] moved[OF \<sigma>(1) j(1) kj(5) passed j(3) y(2)] same(4) reads
    have "vals = vals'" by simp
    with yields_same[OF m ki(2) expr x(3)] y(3) have "x = y" by simp
    with x(1) y(1) j(2) operand_bound[of "st_env \<sigma>" w y m]
    show "\<exists>v. st_env \<sigma> (v_name (i_result i)) = Some v \<and> operand m (st_env \<sigma>) w = Some v" by auto
  qed
  moreover have "defined_before fn (v_name w) (p, k)"
    unfolding defined_before_def using unique j(5) by blast
  moreover have "typed_read fn w"
    unfolding typed_read_def using unique j(2) by (metis in_all_instrs)
  ultimately show "stands_in m fn (start args s) i (p, k) w" using same(3) j(2) by (simp add: stands_in_def)
qed

section \<open>One block\<close>

definition merge_inv :: "('v, 's) machine \<Rightarrow> func \<Rightarrow> ('v, 's) state \<Rightarrow> name set \<Rightarrow> replacements \<Rightarrow> available \<Rightarrow> point \<Rightarrow> bool" where
  "merge_inv m fn \<sigma>0 N reps av u \<longleftrightarrow> merged m fn \<sigma>0 (lookup_last reps) \<and> available_ok m fn \<sigma>0 av u \<and>
     dom (lookup_last reps) \<subseteq> N \<and> v_name ` (ran (lookup_last reps) \<union> ran av) \<subseteq> N \<and>
     v_name ` (ran (lookup_last reps) \<union> ran av) \<inter> dom (lookup_last reps) = {}"

lemma lookup_last_append [simp]: "lookup_last (reps @ [(x, w)]) = (lookup_last reps)(x \<mapsto> w)"
  by (simp add: lookup_last_def)

lemma resolve_flat:
  assumes "flat cs" "card (dom cs) \<le> n" "finite (dom cs)"
  shows "resolve n cs v = Some (replace_value cs v)"
proof (cases "cs (v_name v)")
  case (Some w)
  then have "v_name w \<notin> dom cs" using assms(1) by (auto simp: flat_def ran_def)
  moreover have "0 < n" using assms(2,3) Some by (metis card_gt_0_iff domI empty_iff less_le_trans)
  ultimately show ?thesis using Some by (cases n) (simp_all add: resolve_stop replace_value_def)
qed (simp add: resolve_stop replace_value_def domIff)

lemma rename_flat:
  assumes "flat (lookup_last reps)"
  shows "rename_instr_reads reps i = Some (map_direct_reads (replace_value (lookup_last reps)) i)"
  using resolve_flat[OF assms lookup_last_dom(2,1)] by (simp add: rename_instr_reads_def Let_def list_all_iff)

text \<open>Renaming twice is renaming once, by the later replacements.\<close>

lemma replace_value_later:
  assumes "cs \<subseteq>\<^sub>m cs'" "flat cs'"
  shows "replace_value cs' (replace_value cs v) = replace_value cs' v"
proof (cases "cs (v_name v)")
  case None
  then show ?thesis by (simp add: replace_value_def)
next
  case (Some w)
  then have "cs' (v_name v) = Some w" using assms(1) by (metis map_le_def domI)
  moreover from this have "cs' (v_name w) = None" using assms(2) by (auto simp: flat_def ran_def domIff)
  ultimately show ?thesis using Some by (simp add: replace_value_def)
qed

lemma replace_args_later:
  assumes "cs \<subseteq>\<^sub>m cs'" "flat cs'"
  shows "replace_args cs' (map_direct_reads (replace_value cs) i) = replace_args cs' i"
  using replace_value_later[OF assms]
  by (simp add: replace_args_def map_direct_reads_def map_reads_def map_field_arg_def map_cleanup_def comp_def)

lemma avoids_back: "avoids fn e (p, Suc k) \<Longrightarrow> avoids fn e (p, k) \<and> e \<noteq> (p, k)"
proof (erule avoids.cases)
  fix u w
  assume "(p, Suc k) = w" "avoids fn e u" "u \<noteq> e" "edge fn u w"
  moreover from this have "u = (p, k)" by (cases u) (auto simp: edge_def split: if_splits)
  ultimately show ?thesis by blast
qed simp

lemma available_next: "available_ok m fn \<sigma>0 av (p, k) \<Longrightarrow> available_ok m fn \<sigma>0 av (p, Suc k)"
  using avoids_back unfolding available_ok_def by blast

lemma available_add:
  assumes "available_ok m fn \<sigma>0 av (p, k)" "instr_at fn p k = Some i" "merged m fn \<sigma>0 cs"
    and "expression_key (map_direct_reads (replace_value cs) i) = Some key"
  shows "available_ok m fn \<sigma>0 (av(key \<mapsto> i_result i)) (p, Suc k)"
  unfolding available_ok_def
proof (intro allI impI)
  fix key' w
  assume w: "(av(key \<mapsto> i_result i)) key' = Some w"
  show "\<exists>q l j cs. instr_at fn q l = Some j \<and> i_result j = w \<and> merged m fn \<sigma>0 cs \<and>
      expression_key (map_direct_reads (replace_value cs) j) = Some key' \<and> \<not> avoids fn (q, l) (p, Suc k)"
  proof (cases "key' = key")
    case True
    with w have "i_result i = w" by simp
    with assms(2-4) True avoids_back[of fn "(p, k)" p k] show ?thesis by blast
  next
    case False
    with w have "av key' = Some w" by simp
    with available_next[OF assms(1)] show ?thesis unfolding available_ok_def by blast
  qed
qed

definition result_names :: "instr list \<Rightarrow> name set" where
  "result_names is = (\<lambda>i. v_name (i_result i)) ` set is - {[]}"

definition forget :: "string list \<Rightarrow> available \<Rightarrow> available" where
  "forget added av = fold (\<lambda>key a. a(key := None)) added av"

lemma forget_Cons: "forget (key # added) av = (forget added av)(key := None)"
proof -
  have "fold (\<lambda>key a. a(key := None)) added (av(key := None)) = (fold (\<lambda>key a. a(key := None)) added av)(key := None)"
  proof (induction added arbitrary: av)
    case (Cons k ks)
    have "av(key := None, k := None) = av(k := None, key := None)" by (auto simp: fun_upd_def)
    with Cons[of "av(k := None)"] show ?case by (simp only: fold_simps)
  qed simp
  then show ?thesis by (simp add: forget_def)
qed

lemma flat_inv: "merge_inv m fn \<sigma>0 N reps av u \<Longrightarrow> flat (lookup_last reps)"
  unfolding merge_inv_def flat_def by blast

text \<open>A replacement found, and a result that becomes available.\<close>

lemma merge_inv_replace:
  assumes wf: "copy_wf fn" and keys: "keys_ok fn" and m: "operand_machine m"
    and inv: "merge_inv m fn (start args s) N reps av (p, k)" and at: "instr_at fn p k = Some i"
    and key: "expression_key (map_direct_reads (replace_value (lookup_last reps)) i) = Some key"
    and w: "av key = Some w" and fresh: "v_name (i_result i) \<notin> N"
  shows "merge_inv m fn (start args s) (insert (v_name (i_result i)) N) (reps @ [(v_name (i_result i), w)]) av (p, Suc k)"
proof -
  let ?x = "v_name (i_result i)" and ?cs = "lookup_last reps"
  have old: "merged m fn (start args s) ?cs" "available_ok m fn (start args s) av (p, k)" "dom ?cs \<subseteq> N"
    "v_name ` (ran ?cs \<union> ran av) \<subseteq> N" "v_name ` (ran ?cs \<union> ran av) \<inter> dom ?cs = {}"
    using inv by (simp_all add: merge_inv_def)
  have new: "?cs ?x = None" using fresh old(3) by blast
  then have ran: "ran (?cs(?x \<mapsto> w)) = insert w (ran ?cs)" by (rule ran_map_upd)
  have "w \<in> ran av" using w by (rule ranI)
  note st = merge_stands[OF wf keys m old(1,2) at key w]
  have "standing m fn (start args s) (?cs(?x \<mapsto> w))"
    using old(1) st(1) at expression_key_Some(1)[OF key] unfolding merged_def standing_def by (auto split: if_splits)
  then have "merged m fn (start args s) (?cs(?x \<mapsto> w))" using old(1) st(2) ran by (simp add: merged_def)
  moreover have "v_name ` (ran (?cs(?x \<mapsto> w)) \<union> ran av) \<subseteq> N" using ran old(4) \<open>w \<in> ran av\<close> by auto
  ultimately show ?thesis
    using available_next[OF old(2)] old(3-5) fresh ran \<open>w \<in> ran av\<close> unfolding merge_inv_def by auto
qed

lemma merge_inv_add:
  assumes inv: "merge_inv m fn (start args s) N reps av (p, k)" and at: "instr_at fn p k = Some i"
    and key: "expression_key (map_direct_reads (replace_value (lookup_last reps)) i) = Some key"
    and new: "av key = None" and fresh: "v_name (i_result i) \<notin> N"
  shows "merge_inv m fn (start args s) (insert (v_name (i_result i)) N) reps (av(key \<mapsto> i_result i)) (p, Suc k)"
proof -
  have ran: "ran (av(key \<mapsto> i_result i)) = insert (i_result i) (ran av)" using new by (rule ran_map_upd)
  have "available_ok m fn (start args s) (av(key \<mapsto> i_result i)) (p, Suc k)"
    by (rule available_add[OF _ at _ key]) (use inv in \<open>simp_all add: merge_inv_def\<close>)
  with inv fresh show ?thesis unfolding merge_inv_def ran by auto
qed

lemma merge_inv_mono: "merge_inv m fn \<sigma>0 N reps av u \<Longrightarrow> N \<subseteq> N' \<Longrightarrow> merge_inv m fn \<sigma>0 N' reps av u"
  unfolding merge_inv_def by blast

lemma merge_inv_next: "merge_inv m fn \<sigma>0 N reps av (p, k) \<Longrightarrow> merge_inv m fn \<sigma>0 N reps av (p, Suc k)"
  using available_next[of m fn \<sigma>0 av p k] by (simp add: merge_inv_def)

definition renamed_alike :: "replacements \<Rightarrow> instr list \<Rightarrow> instr list \<Rightarrow> bool" where
  "renamed_alike reps is' is \<longleftrightarrow>
     (\<forall>cs. lookup_last reps \<subseteq>\<^sub>m cs \<longrightarrow> flat cs \<longrightarrow> map (replace_args cs) is' = map (replace_args cs) is)"

lemma renamed_alike_Cons:
  assumes "renamed_alike reps' is' is" "lookup_last reps \<subseteq>\<^sub>m lookup_last reps'"
  shows "renamed_alike reps' (map_direct_reads (replace_value (lookup_last reps)) i # is') (i # is)"
  unfolding renamed_alike_def
proof (intro allI impI)
  fix cs
  assume cs: "lookup_last reps' \<subseteq>\<^sub>m cs" "flat cs"
  from replace_args_later[OF map_le_trans[OF assms(2) cs(1)] cs(2)] assms(1) cs
  show "map (replace_args cs) (map_direct_reads (replace_value (lookup_last reps)) i # is') = map (replace_args cs) (i # is)"
    by (simp add: renamed_alike_def)
qed

definition block_merged :: "('v, 's) machine \<Rightarrow> func \<Rightarrow> ('v, 's) state \<Rightarrow> name set \<Rightarrow> replacements \<Rightarrow> available \<Rightarrow> point \<Rightarrow>
    instr list \<Rightarrow> bool" where
  "block_merged m fn \<sigma>0 N reps av u is \<longleftrightarrow> (\<exists>is' reps' av' added. merge_instrs is reps av = Some (is', reps', av', added) \<and>
     merge_inv m fn \<sigma>0 N reps' av' u \<and> lookup_last reps \<subseteq>\<^sub>m lookup_last reps' \<and> forget added av' = av \<and> renamed_alike reps' is' is)"

lemma merge_instrs_ok:
  assumes wf: "copy_wf fn" and keys: "keys_ok fn" and m: "operand_machine m"
  shows "merge_inv m fn (start args s) N reps av (p, k) \<Longrightarrow> (\<And>j. j < length is \<Longrightarrow> instr_at fn p (k + j) = Some (is ! j)) \<Longrightarrow>
    result_names is \<inter> N = {} \<Longrightarrow> distinct (filter (\<lambda>x. x \<noteq> []) (map (\<lambda>i. v_name (i_result i)) is)) \<Longrightarrow>
    block_merged m fn (start args s) (N \<union> result_names is) reps av (p, k + length is) is"
proof (induction "is" arbitrary: N reps av k)
  case Nil
  then show ?case by (simp add: block_merged_def forget_def renamed_alike_def result_names_def)
next
  case (Cons i "is")
  let ?x = "v_name (i_result i)" and ?i = "map_direct_reads (replace_value (lookup_last reps)) i"
  have at: "instr_at fn p k = Some i" using Cons.prems(2)[of 0] by simp
  have rest: "instr_at fn p (Suc k + j) = Some (is ! j)" if "j < length is" for j
    using Cons.prems(2)[of "Suc j"] that by simp
  have dist: "distinct (filter (\<lambda>x. x \<noteq> []) (map (\<lambda>i. v_name (i_result i)) is))"
    using Cons.prems(4) by (simp split: if_splits)
  have disjoint: "result_names is \<inter> N = {}" using Cons.prems(3) by (auto simp: result_names_def)
  have rn: "rename_instr_reads reps i = Some ?i" by (rule rename_flat[OF flat_inv[OF Cons.prems(1)]])
  have sub: "N \<union> result_names is \<subseteq> N \<union> result_names (i # is)" by (auto simp: result_names_def)
  show ?case
  proof (cases "expression_key ?i")
    case None
    from Cons.IH[OF merge_inv_next[OF Cons.prems(1)] rest disjoint dist] obtain is' reps' av' added where
      IH: "merge_instrs is reps av = Some (is', reps', av', added)" "merge_inv m fn (start args s) (N \<union> result_names is) reps' av' (p, Suc k + length is)"
      "lookup_last reps \<subseteq>\<^sub>m lookup_last reps'" "forget added av' = av" "renamed_alike reps' is' is"
      unfolding block_merged_def by blast
    with rn None merge_inv_mono[OF IH(2) sub] renamed_alike_Cons[OF IH(5,3)] show ?thesis
      by (simp add: block_merged_def)
  next
    case (Some key)
    have named: "?x \<noteq> []" using expression_key_Some(1)[OF Some] by simp
    have fresh: "?x \<notin> N" "?x \<notin> result_names is"
      using Cons.prems(3,4) named by (auto simp: result_names_def)
    have names: "insert ?x N \<union> result_names is = N \<union> result_names (i # is)"
      using named by (auto simp: result_names_def)
    have disjoint': "result_names is \<inter> insert ?x N = {}" using disjoint fresh(2) by blast
    show ?thesis
    proof (cases "av key")
      case None
      note inv = merge_inv_add[OF Cons.prems(1) at Some None fresh(1)]
      from Cons.IH[OF inv rest disjoint' dist] obtain is' reps' av' added where
        IH: "merge_instrs is reps (av(key \<mapsto> i_result i)) = Some (is', reps', av', added)"
        "merge_inv m fn (start args s) (N \<union> result_names (i # is)) reps' av' (p, Suc k + length is)"
        "lookup_last reps \<subseteq>\<^sub>m lookup_last reps'" "forget added av' = av(key \<mapsto> i_result i)" "renamed_alike reps' is' is"
        unfolding block_merged_def names by blast
      moreover have "forget (key # added) av' = av" using IH(4) None by (auto simp: forget_Cons)
      ultimately show ?thesis using rn Some None renamed_alike_Cons[OF IH(5,3)] by (simp add: block_merged_def)
    next
      case prior: (Some w)
      note inv = merge_inv_replace[OF wf keys m Cons.prems(1) at Some prior fresh(1)]
      from Cons.IH[OF inv rest disjoint' dist] obtain is' reps' av' added where
        IH: "merge_instrs is (reps @ [(?x, w)]) av = Some (is', reps', av', added)"
        "merge_inv m fn (start args s) (N \<union> result_names (i # is)) reps' av' (p, Suc k + length is)"
        "lookup_last (reps @ [(?x, w)]) \<subseteq>\<^sub>m lookup_last reps'" "forget added av' = av" "renamed_alike reps' is' is"
        unfolding block_merged_def names by blast
      have "lookup_last reps ?x = None" using Cons.prems(1) fresh(1) unfolding merge_inv_def by blast
      then have "lookup_last reps \<subseteq>\<^sub>m lookup_last (reps @ [(?x, w)])" by (auto simp: map_le_def)
      from map_le_trans[OF this IH(3)] have le: "lookup_last reps \<subseteq>\<^sub>m lookup_last reps'" .
      with IH rn Some prior renamed_alike_Cons[OF IH(5) le] show ?thesis by (simp add: block_merged_def)
    qed
  qed
qed

section \<open>The tree\<close>

lemma avoids_outside:
  assumes "block_names_ok fn"
  shows "avoids fn e u \<Longrightarrow> avoids fn e (end_point fn p) \<or> (\<exists>ps. block_path fn ps (fst u) \<and> p \<notin> set ps)"
proof (induction rule: avoids.induct)
  case entry
  show ?case using path_entry[of fn] by (intro disjI2 exI[of _ "[]"]) simp
next
  case (onward u w)
  obtain b k where u: "u = (b, k)" by (cases u)
  show ?case
  proof (cases "k < length (b_instrs (f_blocks fn ! b))")
    case True
    with onward.hyps(3) u have "fst w = b" by (auto simp: edge_def)
    with onward.IH u show ?thesis by simp
  next
    case False
    with edge_successor[OF _ False assms] onward.hyps(3) u obtain q where
      q: "w = (q, 0)" "q \<in> set (succ_positions fn b)" by blast
    show ?thesis
    proof (cases "b = p")
      case True
      have "k \<le> length (b_instrs (f_blocks fn ! b))" using avoids_bound[OF onward.hyps(1)] u by simp
      with False u True onward.hyps(1) show ?thesis by (simp add: end_point_def)
    next
      case other: False
      with onward.IH u path_step[OF _ q(2)] q(1) show ?thesis by fastforce
    qed
  qed
qed

lemma on_tree_path:
  assumes ne: "f_blocks fn \<noteq> []" and settled: "doms.settled fn idom"
    and c: "c < length (reverse_postorder fn)" "idom_at idom c = Some d" "d < c"
    and ps: "block_path fn ps (reverse_postorder fn ! c)"
  shows "reverse_postorder fn ! d \<in> set ps"
proof -
  let ?order = "reverse_postorder fn"
  note order = postorder[OF ne]
  from block_path_flow[OF ne ps] obtain js i where js: "map (nth ?order) js = ps" "place_in ?order (?order ! c) = Some i"
    "doms.flow_path fn js i" by blast
  have "i = c" using js(2) place_in_Some[OF order(1)] c(1) order(1) by (auto simp: nth_eq_iff_index_eq)
  have "d \<in> ancestors idom c" using ancestors_step[OF c(2,3)] by simp
  moreover have "0 < length ?order" using c(1) by linarith
  ultimately have "d \<in> set (c # js)" using doms.settled_on_path[OF settled js(3)] \<open>i = c\<close> by auto
  with c(3) js(1) show ?thesis by auto
qed

lemma child_passes:
  assumes ne: "f_blocks fn \<noteq> []" and names: "block_names_ok fn" and settled: "doms.settled fn idom"
    and c: "c < length (reverse_postorder fn)" "idom_at idom c = Some d" "d < c"
    and "\<not> avoids fn e (end_point fn (reverse_postorder fn ! d))"
  shows "\<not> avoids fn e (reverse_postorder fn ! c, 0)"
  using avoids_outside[OF names, of e _ "reverse_postorder fn ! d"] on_tree_path[OF ne settled c] assms(7) by fastforce

definition subtree :: "func \<Rightarrow> idoms \<Rightarrow> nat \<Rightarrow> nat set" where
  "subtree fn idom i = (\<lambda>j. reverse_postorder fn ! j) ` {j. j < length (reverse_postorder fn) \<and> i \<in> ancestors idom j}"

definition names_in :: "func \<Rightarrow> nat set \<Rightarrow> name set" where
  "names_in fn P = (\<Union>p\<in>P. result_names (b_instrs (f_blocks fn ! p)))"

lemma subtree_child:
  assumes "idom_at idom c = Some i" "i < c"
  shows "subtree fn idom c \<subseteq> subtree fn idom i"
proof -
  have "i \<in> ancestors idom c" using ancestors_step[OF assms] by simp
  then show ?thesis unfolding subtree_def using ancestors_trans by blast
qed

lemma subtree_siblings:
  assumes ne: "f_blocks fn \<noteq> []" and c: "idom_at idom c = Some i" "i < c" and d: "idom_at idom d = Some i" "i < d" and "c \<noteq> d"
  shows "subtree fn idom c \<inter> subtree fn idom d = {}"
proof -
  have no: False if "c \<in> ancestors idom j" "d \<in> ancestors idom j" "c < d" "idom_at idom d = Some i" "i < c" "i < d" for c d j
  proof -
    from ancestors_chain[OF that(1,2)] that(3) have "c \<in> ancestors idom d" by simp
    then have "c = d \<or> c \<in> ancestors idom i" using ancestors_step[OF that(4,6)] by blast
    with ancestors_le[of c idom i] that(3,5) show False by auto
  qed
  have False if "j < length (reverse_postorder fn)" "c \<in> ancestors idom j" "d \<in> ancestors idom j" for j
    using no[OF that(2,3) _ d(1) c(2) d(2)] no[OF that(3,2) _ c(1) d(2) c(2)] \<open>c \<noteq> d\<close> by (meson linorder_neqE_nat)
  moreover have "distinct (reverse_postorder fn)" using postorder(1)[OF ne] .
  ultimately show ?thesis unfolding subtree_def by (auto simp: nth_eq_iff_index_eq)
qed

lemma subtree_root:
  assumes ne: "f_blocks fn \<noteq> []" and c: "idom_at idom c = Some i" "i < c" and "i < length (reverse_postorder fn)"
  shows "reverse_postorder fn ! i \<notin> subtree fn idom c"
proof
  assume "reverse_postorder fn ! i \<in> subtree fn idom c"
  then have "c \<in> ancestors idom i" using assms(4) postorder(1)[OF ne] by (auto simp: subtree_def nth_eq_iff_index_eq)
  with ancestors_le[of c idom i] c(2) show False by simp
qed

lemma names_disjoint:
  assumes "ssa fn" "P \<inter> Q = {}" "P \<subseteq> {..<length (f_blocks fn)}" "Q \<subseteq> {..<length (f_blocks fn)}"
  shows "names_in fn P \<inter> names_in fn Q = {}"
proof -
  have False if "p \<in> P" "q \<in> Q" "x \<in> result_names (b_instrs (f_blocks fn ! p))" "x \<in> result_names (b_instrs (f_blocks fn ! q))" for p q x
  proof -
    have lt: "p < length (f_blocks fn)" "q < length (f_blocks fn)" using that(1,2) assms(3,4) by blast+
    from that(3,4) obtain k l where at: "k < length (b_instrs (f_blocks fn ! p))" "l < length (b_instrs (f_blocks fn ! q))"
      "v_name (i_result (b_instrs (f_blocks fn ! p) ! k)) = x" "v_name (i_result (b_instrs (f_blocks fn ! q) ! l)) = x" "x \<noteq> []"
      by (auto simp: result_names_def in_set_conv_nth)
    then have "instr_at fn p k = Some (b_instrs (f_blocks fn ! p) ! k)" "instr_at fn q l = Some (b_instrs (f_blocks fn ! q) ! l)"
      using lt by (simp_all add: instr_at_def)
    from ssa_unique[OF assms(1) this] at have "p = q" by simp
    with that(1,2) assms(2) show False by blast
  qed
  then show ?thesis unfolding names_in_def by blast
qed

definition blocks_alike :: "func \<Rightarrow> replacements \<Rightarrow> block list \<Rightarrow> bool" where
  "blocks_alike fn reps bs \<longleftrightarrow> length bs = length (f_blocks fn) \<and>
     (\<forall>q<length bs. bs ! q = (f_blocks fn ! q)\<lparr>b_instrs := b_instrs (bs ! q)\<rparr> \<and>
        renamed_alike reps (b_instrs (bs ! q)) (b_instrs (f_blocks fn ! q)))"

text \<open>What the walk over some blocks leaves: the state for the next ones, and the rest as it was.\<close>

definition visited :: "('v, 's) machine \<Rightarrow> func \<Rightarrow> ('v, 's) state \<Rightarrow> nat set \<Rightarrow> name set \<Rightarrow> point \<Rightarrow>
    merge_state \<Rightarrow> merge_state option \<Rightarrow> bool" where
  "visited m fn \<sigma>0 P N u st out \<longleftrightarrow> (case st of (bs, reps, av) \<Rightarrow> \<exists>bs' reps'. out = Some (bs', reps', av) \<and>
     merge_inv m fn \<sigma>0 (N \<union> names_in fn P) reps' av u \<and> lookup_last reps \<subseteq>\<^sub>m lookup_last reps' \<and>
     blocks_alike fn reps' bs' \<and> (\<forall>q. q \<notin> P \<longrightarrow> bs' ! q = bs ! q))"

definition before_visit :: "('v, 's) machine \<Rightarrow> func \<Rightarrow> ('v, 's) state \<Rightarrow> nat set \<Rightarrow> name set \<Rightarrow> point \<Rightarrow> merge_state \<Rightarrow> bool" where
  "before_visit m fn \<sigma>0 P N u st \<longleftrightarrow> (case st of (bs, reps, av) \<Rightarrow>
     merge_inv m fn \<sigma>0 N reps av u \<and> blocks_alike fn reps bs \<and> (\<forall>q\<in>P. bs ! q = f_blocks fn ! q) \<and> names_in fn P \<inter> N = {})"

lemma merge_inv_at: "merge_inv m fn \<sigma>0 N reps av u \<Longrightarrow> available_ok m fn \<sigma>0 av w \<Longrightarrow> merge_inv m fn \<sigma>0 N reps av w"
  by (simp add: merge_inv_def)

lemma blocks_alike_more:
  "blocks_alike fn reps bs \<Longrightarrow> lookup_last reps \<subseteq>\<^sub>m lookup_last reps' \<Longrightarrow> blocks_alike fn reps' bs"
  unfolding blocks_alike_def renamed_alike_def using map_le_trans by blast

text \<open>The blocks below the children, one child after the other.\<close>

lemma visit_children:
  assumes ssa: "ssa fn" and each: "\<And>c N st. c \<in> set cs \<Longrightarrow> before_visit m fn \<sigma>0 (S c) N (w c) st \<Longrightarrow> visited m fn \<sigma>0 (S c) N (w c) st (f c st)"
    and bound: "\<And>c. c \<in> set cs \<Longrightarrow> S c \<subseteq> {..<length (f_blocks fn)}"
    and disjoint: "distinct cs" "\<And>c d. c \<in> set cs \<Longrightarrow> d \<in> set cs \<Longrightarrow> c \<noteq> d \<Longrightarrow> S c \<inter> S d = {}"
    and pass: "\<And>c av. c \<in> set cs \<Longrightarrow> available_ok m fn \<sigma>0 av u \<Longrightarrow> available_ok m fn \<sigma>0 av (w c)"
  shows "before_visit m fn \<sigma>0 (\<Union>c\<in>set cs. S c) N u st \<Longrightarrow> visited m fn \<sigma>0 (\<Union>c\<in>set cs. S c) N u st (seq_all f cs st)"
  using each bound disjoint pass
proof (induction cs arbitrary: N st)
  case Nil
  then show ?case by (auto simp: visited_def before_visit_def names_in_def)
next
  case (Cons c cs)
  obtain bs reps av where st: "st = (bs, reps, av)" by (cases st)
  let ?U = "\<Union>c\<in>set cs. S c"
  have here: "merge_inv m fn \<sigma>0 N reps av u" "blocks_alike fn reps bs" "\<forall>q\<in>S c \<union> ?U. bs ! q = f_blocks fn ! q"
    "names_in fn (S c \<union> ?U) \<inter> N = {}" using Cons.prems(1) st by (simp_all add: before_visit_def)
  have av: "available_ok m fn \<sigma>0 av u" using here(1) by (simp add: merge_inv_def)
  have split: "names_in fn (S c \<union> ?U) = names_in fn (S c) \<union> names_in fn ?U" by (auto simp: names_in_def)
  have "merge_inv m fn \<sigma>0 N reps av (w c)" using merge_inv_at[OF here(1)] Cons.prems(6)[of c] av by simp
  then have "before_visit m fn \<sigma>0 (S c) N (w c) st" using here(2-4) st split by (auto simp: before_visit_def)
  from Cons.prems(2)[OF _ this] obtain bs1 reps1 where one: "f c st = Some (bs1, reps1, av)"
    "merge_inv m fn \<sigma>0 (N \<union> names_in fn (S c)) reps1 av (w c)" "lookup_last reps \<subseteq>\<^sub>m lookup_last reps1"
    "blocks_alike fn reps1 bs1" "\<forall>q. q \<notin> S c \<longrightarrow> bs1 ! q = bs ! q"
    unfolding visited_def st by auto
  have apart: "S c \<inter> ?U = {}" using Cons.prems(4,5) by fastforce
  have "names_in fn (S c) \<inter> names_in fn ?U = {}"
    using Cons.prems(3) by (intro names_disjoint[OF ssa apart]) auto
  then have "names_in fn ?U \<inter> (N \<union> names_in fn (S c)) = {}" using here(4) split by auto
  moreover have "\<forall>q\<in>?U. bs1 ! q = f_blocks fn ! q" using one(5) here(3) apart by fastforce
  moreover have "merge_inv m fn \<sigma>0 (N \<union> names_in fn (S c)) reps1 av u" using merge_inv_at[OF one(2) av] .
  ultimately have "before_visit m fn \<sigma>0 ?U (N \<union> names_in fn (S c)) u (bs1, reps1, av)"
    using one(4) by (simp add: before_visit_def)
  from Cons.IH[OF this Cons.prems(2,3)] Cons.prems(4-6) have
    "visited m fn \<sigma>0 ?U (N \<union> names_in fn (S c)) u (bs1, reps1, av) (seq_all f cs (bs1, reps1, av))" by simp
  then obtain bs2 reps2 where two: "seq_all f cs (bs1, reps1, av) = Some (bs2, reps2, av)"
    "merge_inv m fn \<sigma>0 (N \<union> names_in fn (S c \<union> ?U)) reps2 av u" "lookup_last reps1 \<subseteq>\<^sub>m lookup_last reps2"
    "blocks_alike fn reps2 bs2" "\<forall>q. q \<notin> ?U \<longrightarrow> bs2 ! q = bs1 ! q"
    unfolding visited_def split by (auto simp: Un_assoc)
  from one(1,5) two(1,2,4,5) map_le_trans[OF one(3) two(3)] show ?case
    by (simp add: visited_def st)
qed

lemma block_distinct:
  assumes "ssa fn" "b \<in> set (f_blocks fn)"
  shows "distinct (filter (\<lambda>x. x \<noteq> []) (map (\<lambda>i. v_name (i_result i)) (b_instrs b)))"
proof -
  have "distinct (filter P (concat xss)) \<Longrightarrow> xs \<in> set xss \<Longrightarrow> distinct (filter P xs)" for P and xs :: "name list" and xss
    by (induction xss) auto
  moreover have "distinct (filter (\<lambda>x. x \<noteq> []) (concat (map block_results (f_blocks fn))))"
    using assms(1) by (simp add: ssa_def flip: results_concat)
  ultimately show ?thesis using assms(2) by (auto simp: block_results_def)
qed

lemma seq_all_map: "seq_all f (map g xs) = seq_all (\<lambda>x. f (g x)) xs"
proof
  show "seq_all f (map g xs) s = seq_all (\<lambda>x. f (g x)) xs s" for s
    by (induction xs arbitrary: s) (simp_all split: Option.bind_split)
qed

lemma forget_ran: "ran (forget added av) \<subseteq> ran av"
proof (induction added)
  case (Cons key added)
  then show ?case by (auto simp: forget_Cons ran_def split: if_splits)
qed (simp add: forget_def)

lemma merge_inv_fewer:
  assumes "merge_inv m fn \<sigma>0 N reps av u" "ran av' \<subseteq> ran av" "available_ok m fn \<sigma>0 av' w"
  shows "merge_inv m fn \<sigma>0 N reps av' w"
proof -
  have "v_name ` (ran (lookup_last reps) \<union> ran av') \<subseteq> v_name ` (ran (lookup_last reps) \<union> ran av)"
    using assms(2) by blast
  with assms(1,3) show ?thesis unfolding merge_inv_def by (meson disjoint_iff subset_iff)
qed

lemma tree_children_indices:
  assumes "distinct order" "i < length order" "tree_upto (length order) idom"
  shows "tree_children order idom (order ! i) = map (nth order) (filter (\<lambda>j. idom_at idom j = Some i) [1..<length order])"
proof -
  have "(map_option (\<lambda>d. order ! d) (idom_at idom j) = Some (order ! i)) = (idom_at idom j = Some i)"
    if j: "j \<in> set [1..<length order]" for j
  proof -
    from j tree_upto_parent[OF assms(3), of j] obtain d where "d < j" "idom_at idom j = Some d" by auto
    with j assms(1,2) show ?thesis by (auto simp: nth_eq_iff_index_eq)
  qed
  then show ?thesis unfolding tree_children_def by (intro arg_cong[where f = "map _"] filter_cong) simp_all
qed

lemma merge_visit_ok:
  assumes wf: "copy_wf fn" and keys: "keys_ok fn" and m: "operand_machine m"
    and ne: "f_blocks fn \<noteq> []" and settled: "doms.settled fn idom"
  shows "i < length (reverse_postorder fn) \<Longrightarrow> length (reverse_postorder fn) - i \<le> fuel \<Longrightarrow>
    before_visit m fn (start args s) (subtree fn idom i) N (reverse_postorder fn ! i, 0) st \<Longrightarrow>
    visited m fn (start args s) (subtree fn idom i) N (reverse_postorder fn ! i, 0) st
      (merge_visit fuel (tree_children (reverse_postorder fn) idom) (reverse_postorder fn ! i) st)"
proof (induction fuel arbitrary: i N st)
  case 0
  then show ?case by simp
next
  case (Suc fuel)
  let ?order = "reverse_postorder fn" and ?\<sigma>0 = "start args s"
  let ?p = "?order ! i" and ?S = "subtree fn idom"
  obtain bs reps av where st: "st = (bs, reps, av)" by (cases st)
  have ssa: "ssa fn" and names: "block_names_ok fn" using wf by (simp_all add: copy_wf_def)
  note order = postorder[OF ne]
  have tree: "tree_upto (length ?order) idom" using settled by (simp add: doms.settled_def)
  have p: "?p < length (f_blocks fn)" using order(2) Suc.prems(1) nth_mem by blast
  have root: "?p \<in> ?S i" using Suc.prems(1) by (auto simp: subtree_def)
  have here: "merge_inv m fn ?\<sigma>0 N reps av (?p, 0)" "blocks_alike fn reps bs" "\<forall>q\<in>?S i. bs ! q = f_blocks fn ! q"
    "names_in fn (?S i) \<inter> N = {}" using Suc.prems(3) st by (simp_all add: before_visit_def)
  let ?b = "f_blocks fn ! ?p"
  have block: "bs ! ?p = ?b" using here(3) root by blast
  have fresh: "result_names (b_instrs ?b) \<inter> N = {}" using here(4) root by (auto simp: names_in_def)
  have "block_merged m fn ?\<sigma>0 (N \<union> result_names (b_instrs ?b)) reps av (?p, 0 + length (b_instrs ?b)) (b_instrs ?b)"
    by (rule merge_instrs_ok[OF wf keys m here(1) _ fresh block_distinct[OF ssa]]) (use p in \<open>simp_all add: instr_at_def\<close>)
  then obtain is' reps1 av1 added where one: "merge_instrs (b_instrs ?b) reps av = Some (is', reps1, av1, added)"
    "merge_inv m fn ?\<sigma>0 (N \<union> names_in fn {?p}) reps1 av1 (end_point fn ?p)" "lookup_last reps \<subseteq>\<^sub>m lookup_last reps1"
    "forget added av1 = av" "renamed_alike reps1 is' (b_instrs ?b)"
    unfolding block_merged_def by (auto simp: end_point_def names_in_def)
  let ?bs1 = "bs[?p := (bs ! ?p)\<lparr>b_instrs := is'\<rparr>]"
  have alike1: "blocks_alike fn reps1 ?bs1"
    using blocks_alike_more[OF here(2) one(3)] one(5) p block
    by (auto simp: blocks_alike_def nth_list_update)
  define js where "js = filter (\<lambda>j. idom_at idom j = Some i) [1..<length ?order]"
  have child: "idom_at idom c = Some i" "i < c" "c < length ?order" if "c \<in> set js" for c
    using that tree_upto_parent[OF tree, of c] by (auto simp: js_def)
  have parts: "?S i = {?p} \<union> (\<Union>c\<in>set js. ?S c)"
  proof -
    have "j = i \<or> (\<exists>c\<in>set js. c \<in> ancestors idom j)" if "j < length ?order" "i \<in> ancestors idom j" for j
      using that
    proof (induction j rule: less_induct)
      case (less j)
      show ?case
      proof (cases "j = i")
        case False
        with less.prems ancestors_entry[OF tree] have "0 < j" by (cases "j = 0") auto
        from tree_upto_parent[OF tree this less.prems(1)] obtain d where d: "d < j" "idom_at idom j = Some d" by blast
        with False less.prems(2) ancestors_step[OF d(2,1)] have "i \<in> ancestors idom d" by auto
        with less.IH[OF d(1)] d(1) less.prems(1) have "d = i \<or> (\<exists>c\<in>set js. c \<in> ancestors idom d)" by simp
        then show ?thesis
        proof
          assume "d = i"
          then have "j \<in> set js" using d(2) \<open>0 < j\<close> less.prems(1) by (simp add: js_def)
          then show ?thesis by (metis ancestors_self)
        next
          assume "\<exists>c\<in>set js. c \<in> ancestors idom d"
          then show ?thesis using ancestors_step[OF d(2,1)] by auto
        qed
      qed simp
    qed
    moreover have "?S c \<subseteq> ?S i" if "c \<in> set js" for c using subtree_child[OF child(1,2)[OF that]] .
    ultimately show ?thesis using root unfolding subtree_def by blast
  qed
  let ?U = "\<Union>c\<in>set js. ?S c"
  have bound: "?S c \<subseteq> {..<length (f_blocks fn)}" for c using order(2) nth_mem by (fastforce simp: subtree_def)
  have apart: "?p \<notin> ?U" using subtree_root[OF ne child(1,2)] Suc.prems(1) by blast
  have "names_in fn {?p} \<inter> names_in fn ?U = {}"
    using apart bound p by (intro names_disjoint[OF ssa]) auto
  moreover have split: "names_in fn (?S i) = names_in fn {?p} \<union> names_in fn ?U" unfolding parts by (auto simp: names_in_def)
  ultimately have "names_in fn ?U \<inter> (N \<union> names_in fn {?p}) = {}" using here(4) by auto
  moreover have "\<forall>q\<in>?U. ?bs1 ! q = f_blocks fn ! q" using here(3) apart parts by (metis UnI2 nth_list_update_neq)
  ultimately have start: "before_visit m fn ?\<sigma>0 ?U (N \<union> names_in fn {?p}) (end_point fn ?p) (?bs1, reps1, av1)"
    using one(2) alike1 by (simp add: before_visit_def)
  have pass: "available_ok m fn ?\<sigma>0 av' (?order ! c, 0)" if "c \<in> set js" "available_ok m fn ?\<sigma>0 av' (end_point fn ?p)" for c av'
    using that(2) child_passes[OF ne names settled child(3,1,2)[OF that(1)]] unfolding available_ok_def by blast
  have dist: "distinct js" by (simp add: js_def)
  have each: "visited m fn ?\<sigma>0 (?S c) M (?order ! c, 0) st'
      (merge_visit fuel (tree_children ?order idom) (?order ! c) st')"
    if "c \<in> set js" "before_visit m fn ?\<sigma>0 (?S c) M (?order ! c, 0) st'" for c M st'
    using Suc.IH[OF child(3)[OF that(1)] _ that(2)] child(2)[OF that(1)] Suc.prems(2) by linarith
  have disjoint: "?S c \<inter> ?S d = {}" if "c \<in> set js" "d \<in> set js" "c \<noteq> d" for c d
    by (rule subtree_siblings[OF ne child(1,2)[OF that(1)] child(1,2)[OF that(2)] that(3)])
  from visit_children[where S = ?S and w = "\<lambda>c. (?order ! c, 0)" and cs = js and
      f = "\<lambda>c. merge_visit fuel (tree_children ?order idom) (?order ! c)", OF ssa each bound dist disjoint pass start]
  have "visited m fn ?\<sigma>0 ?U (N \<union> names_in fn {?p}) (end_point fn ?p) (?bs1, reps1, av1)
      (seq_all (\<lambda>c. merge_visit fuel (tree_children ?order idom) (?order ! c)) js (?bs1, reps1, av1))" .
  moreover have "N \<union> names_in fn {?p} \<union> names_in fn ?U = N \<union> names_in fn (?S i)" by (simp only: split Un_assoc)
  ultimately obtain bs2 reps2 where two: "seq_all (\<lambda>c. merge_visit fuel (tree_children ?order idom) (?order ! c)) js (?bs1, reps1, av1) =
      Some (bs2, reps2, av1)" "merge_inv m fn ?\<sigma>0 (N \<union> names_in fn (?S i)) reps2 av1 (end_point fn ?p)"
    "lookup_last reps1 \<subseteq>\<^sub>m lookup_last reps2" "blocks_alike fn reps2 bs2" "\<forall>q. q \<notin> ?U \<longrightarrow> bs2 ! q = ?bs1 ! q"
    unfolding visited_def prod.case by metis
  have "merge_inv m fn ?\<sigma>0 (N \<union> names_in fn (?S i)) reps2 av (?p, 0)"
    by (rule merge_inv_fewer[OF two(2)]) (use here(1) forget_ran[of added av1] one(4) in \<open>simp_all add: merge_inv_def\<close>)
  moreover have "merge_visit (Suc fuel) (tree_children ?order idom) ?p st = Some (bs2, reps2, av)"
    using one(1,4) two(1) block st tree_children_indices[OF order(1) Suc.prems(1) tree]
    by (simp add: seq_all_map js_def forget_def)
  moreover have "bs2 ! q = bs ! q" if "q \<notin> ?S i" for q using two(5) that parts by auto
  ultimately show ?case using two(4) map_le_trans[OF one(3) two(3)] by (simp add: visited_def st)
qed

section \<open>The whole pass\<close>

lemma replace_value_empty [simp]: "replace_value Map.empty v = v"
  by (simp add: replace_value_def)

lemma replace_args_empty [simp]: "replace_args Map.empty i = i"
  by (simp add: replace_args_def map_reads_id)

lemma map_reads_function_id: "(\<And>v. f v = v) \<Longrightarrow> map_function_reads f fn = fn"
  by (simp add: map_function_reads_def map_reads_id map_term_reads_def map_idI)

lemma alike_function:
  assumes alike: "blocks_alike fn reps bs" and flat: "flat (lookup_last reps)"
  shows "map_function_reads (replace_value (lookup_last reps)) (fn\<lparr>f_blocks := bs\<rparr>) =
    map_function_reads (replace_value (lookup_last reps)) fn"
proof -
  let ?f = "replace_value (lookup_last reps)"
  let ?g = "\<lambda>b. b\<lparr>b_instrs := map (map_reads ?f) (b_instrs b), b_term := map_term_reads ?f (b_term b)\<rparr>"
  have "?g (bs ! q) = ?g (f_blocks fn ! q)" if "q < length bs" for q
  proof -
    have q: "bs ! q = (f_blocks fn ! q)\<lparr>b_instrs := b_instrs (bs ! q)\<rparr>"
      "renamed_alike reps (b_instrs (bs ! q)) (b_instrs (f_blocks fn ! q))"
      using alike that by (simp_all add: blocks_alike_def)
    then have "map (map_reads ?f) (b_instrs (bs ! q)) = map (map_reads ?f) (b_instrs (f_blocks fn ! q))"
      using flat by (auto simp: renamed_alike_def replace_args_def[abs_def])
    with q(1) show ?thesis by (metis block.select_convs(3) block.surjective block.update_convs(2,3))
  qed
  then have "map ?g bs = map ?g (f_blocks fn)"
    using alike by (intro nth_equalityI) (simp_all add: blocks_alike_def)
  then show ?thesis by (simp add: map_function_reads_def)
qed

lemma eliminate_result:
  assumes wf: "copy_wf fn" and keys: "keys_ok fn" and m: "operand_machine m"
  shows "\<exists>cs. eliminate_common_subexpressions_in fn = Some (map_function_reads (replace_value cs) fn) \<and>
    merged m fn (start args s) cs"
proof (cases "f_blocks fn = []")
  case True
  have "merged m fn (start args s) Map.empty" by (simp add: merged_def standing_def)
  with True show ?thesis
    by (intro exI[of _ Map.empty]) (simp add: eliminate_common_subexpressions_in_def map_reads_function_id)
next
  case False
  let ?order = "reverse_postorder fn"
  note order = postorder[OF False]
  have n: "0 < length ?order" using order(3) by (cases ?order) simp_all
  obtain idom where idom: "doms.settled fn idom" "build_dominator_tree fn =
      Some \<lparr>dt_place = map (place_in ?order) [0..<length (f_blocks fn)], dt_idom = idom\<rparr>"
    using build_dominator_tree_total[OF False] by blast
  have "before_visit m fn (start args s) (subtree fn idom 0) {} (?order ! 0, 0) (f_blocks fn, [], Map.empty)"
    by (simp add: before_visit_def merge_inv_def merged_def standing_def available_ok_def blocks_alike_def renamed_alike_def lookup_last_def)
  from merge_visit_ok[OF wf keys m False idom(1) n diff_le_self this]
  have "visited m fn (start args s) (subtree fn idom 0) {} (?order ! 0, 0) (f_blocks fn, [], Map.empty)
      (merge_visit (length ?order) (tree_children ?order idom) (?order ! 0) (f_blocks fn, [], Map.empty))" by simp
  then obtain bs reps where r: "merge_visit (length ?order) (tree_children ?order idom) (?order ! 0) (f_blocks fn, [], Map.empty) =
      Some (bs, reps, Map.empty)" "merge_inv m fn (start args s) (names_in fn (subtree fn idom 0)) reps Map.empty (?order ! 0, 0)"
    "blocks_alike fn reps bs" unfolding visited_def by auto
  let ?cs = "lookup_last reps"
  have flat: "flat ?cs" using flat_inv[OF r(2)] .
  have res: "resolve (length reps) ?cs v = Some (replace_value ?cs v)" for v
    using resolve_flat[OF flat lookup_last_dom(2,1)] .
  have "eliminate_common_subexpressions_in fn = Some (map_function_reads (replace_value ?cs) fn)"
  proof (cases "reps = []")
    case True
    then have "?cs = Map.empty" by (simp add: lookup_last_def)
    with alike_function[OF r(3) flat] True have "fn\<lparr>f_blocks := bs\<rparr> = map_function_reads (replace_value ?cs) fn"
      by (simp add: map_reads_function_id)
    with False True idom(2) r(1) show ?thesis by (simp add: eliminate_common_subexpressions_in_def Let_def)
  next
    case False
    have "replace_function_values reps (fn\<lparr>f_blocks := bs\<rparr>) = Some (map_function_reads (replace_value ?cs) fn)"
      using alike_function[OF r(3) flat] by (simp add: replace_function_values_def Let_def res list_all_iff)
    with False \<open>f_blocks fn \<noteq> []\<close> idom(2) r(1) show ?thesis by (simp add: eliminate_common_subexpressions_in_def Let_def)
  qed
  with r(2) show ?thesis unfolding merge_inv_def by blast
qed

lemma eliminate_preserves:
  assumes "operand_machine m" "copy_wf fn" "keys_ok fn" and "call_for n m fn vals s = Some r"
  shows "\<exists>fn'. eliminate_common_subexpressions_in fn = Some fn' \<and> call_for n m fn' vals s = Some r"
proof -
  from eliminate_result[OF assms(2,3,1), of "call_env fn vals" s] obtain cs where
    cs: "eliminate_common_subexpressions_in fn = Some (map_function_reads (replace_value cs) fn)"
    "merged m fn (start (call_env fn vals) s) cs" by blast
  from replaced_reads_preserve[OF assms(2) _ assms(4)] standing_facts(1) cs show ?thesis unfolding merged_def by blast
qed

section \<open>The function stays well formed\<close>

lemma edge_same:
  assumes "\<And>q. q < length (f_blocks fn) \<Longrightarrow> length (b_instrs (f_blocks fn' ! q)) = length (b_instrs (f_blocks fn ! q)) \<and>
      t_target (b_term (f_blocks fn' ! q)) = t_target (b_term (f_blocks fn ! q)) \<and>
      t_else (b_term (f_blocks fn' ! q)) = t_else (b_term (f_blocks fn ! q))"
    and "map b_name (f_blocks fn') = map b_name (f_blocks fn)"
  shows "edge fn' u w \<longleftrightarrow> edge fn u w"
proof -
  have "length (f_blocks fn') = length (f_blocks fn)" using assms(2) by (metis length_map)
  moreover from this have "positions (f_blocks fn') = positions (f_blocks fn)" using assms(2) by (simp add: positions_def)
  ultimately show ?thesis using assms(1)[of "fst u"] by (cases u) (auto simp: edge_def)
qed

lemma avoids_same: "(\<And>u w. edge fn' u w \<longleftrightarrow> edge fn u w) \<Longrightarrow> avoids fn' d u \<longleftrightarrow> avoids fn d u"
proof -
  have half: "avoids fn1 d u \<Longrightarrow> (\<And>u w. edge fn2 u w \<longleftrightarrow> edge fn1 u w) \<Longrightarrow> avoids fn2 d u" for fn1 fn2
    by (induction rule: avoids.induct) (auto intro: avoids.intros)
  show "(\<And>u w. edge fn' u w \<longleftrightarrow> edge fn u w) \<Longrightarrow> avoids fn' d u \<longleftrightarrow> avoids fn d u"
    using half[of fn' fn] half[of fn fn'] by blast
qed

lemma mapped_blocks [simp]:
  "length (f_blocks (map_function_reads f fn)) = length (f_blocks fn)"
  "map b_name (f_blocks (map_function_reads f fn)) = map b_name (f_blocks fn)"
  "q < length (f_blocks fn) \<Longrightarrow> f_blocks (map_function_reads f fn) ! q =
     (f_blocks fn ! q)\<lparr>b_instrs := map (map_reads f) (b_instrs (f_blocks fn ! q)), b_term := map_term_reads f (b_term (f_blocks fn ! q))\<rparr>"
  by (simp_all add: map_function_reads_def comp_def)

lemma map_reads_simps [simp]:
  "i_op (map_reads f i) = i_op i" "i_result (map_reads f i) = i_result i" "i_args (map_reads f i) = map f (i_args i)"
  "i_incoming (map_reads f i) = map (map_incoming f) (i_incoming i)" "instr_reads (map_reads f i) = map f (instr_reads i)"
  "direct_reads (map_reads f i) = map f (direct_reads i)"
  by (simp_all add: map_reads_def instr_reads_def direct_reads_def map_field_arg_def map_cleanup_def map_incoming_def map_concat comp_def)

lemma mapped_instr_at: "instr_at (map_function_reads f fn) p k = map_option (map_reads f) (instr_at fn p k)"
  by (simp add: instr_at_def)

lemma mapped_positions: "positions (f_blocks (map_function_reads f fn)) = positions (f_blocks fn)"
  by (simp add: positions_def flip: map_map)

lemma mapped_defined: "defined_before (map_function_reads f fn) x u \<longleftrightarrow> defined_before fn x u"
proof -
  have "edge (map_function_reads f fn) u w \<longleftrightarrow> edge fn u w" for u w
    by (rule edge_same) (simp_all add: map_term_reads_def)
  from avoids_same[OF this] show ?thesis
    unfolding defined_before_def mapped_instr_at by (auto simp: map_option_case split: option.splits)
qed

lemma mapped_strict:
  assumes "strict fn" and before: "\<And>v u. defined_before fn (v_name v) u \<Longrightarrow> defined_before fn (v_name (f v)) u"
  shows "strict (map_function_reads f fn)"
  unfolding strict_def
proof (intro conjI allI impI)
  let ?fn = "map_function_reads f fn"
  have ends: "end_point ?fn q = end_point fn q" if "q < length (f_blocks fn)" for q
    using that by (simp add: end_point_def)
  fix p k i'
  {
    assume "instr_at ?fn p k = Some i'"
    then obtain i where i: "instr_at fn p k = Some i" "i' = map_reads f i" by (auto simp: mapped_instr_at)
    show "if i_op i' = ''phi''
       then \<forall>inc\<in>set (i_incoming i'). \<exists>q. positions (f_blocks ?fn) (in_block inc) = Some q \<and>
              defined_before ?fn (v_name (in_value inc)) (end_point ?fn q)
       else \<forall>v\<in>set (direct_reads i'). defined_before ?fn (v_name v) (p, k)"
    proof (cases "i_op i = ''phi''")
      case True
      have "\<exists>q. positions (f_blocks ?fn) (in_block inc) = Some q \<and>
          defined_before ?fn (v_name (f (in_value inc))) (end_point ?fn q)" if "inc \<in> set (i_incoming i)" for inc
      proof -
        from assms(1) i(1) True that obtain q where q: "positions (f_blocks fn) (in_block inc) = Some q"
          "defined_before fn (v_name (in_value inc)) (end_point fn q)" unfolding strict_def by metis
        with before positions_Some[OF q(1)] show ?thesis by (simp add: mapped_positions mapped_defined ends)
      qed
      with True i(2) show ?thesis by (auto simp: map_incoming_def)
    next
      case False
      then have "\<forall>v\<in>set (direct_reads i). defined_before fn (v_name v) (p, k)"
        using assms(1) i(1) unfolding strict_def by metis
      with False i(2) before show ?thesis by (simp add: mapped_defined)
    qed
  }
  assume p: "p < length (f_blocks ?fn)"
  then have "\<forall>v\<in>set (term_reads (b_term (f_blocks fn ! p))). defined_before fn (v_name v) (end_point fn p)"
    using assms(1) by (simp add: strict_def)
  then show "\<forall>v\<in>set (term_reads (b_term (f_blocks ?fn ! p))). defined_before ?fn (v_name v) (end_point ?fn p)"
    using before p by (simp add: mapped_defined ends term_reads_def map_term_reads_def)
qed

lemma term_typed: "consistent_types fn \<Longrightarrow> b \<in> set (f_blocks fn) \<Longrightarrow> v \<in> set (term_reads (b_term b)) \<Longrightarrow> typed_read fn v"
  unfolding consistent_types_def typed_read_def by metis

lemma standing_branch_wf:
  assumes wf: "branch_wf fn" and cs: "standing m fn \<sigma>0 cs"
  shows "branch_wf (map_function_reads (replace_value cs) fn)"
proof -
  let ?f = "replace_value cs"
  let ?fn = "map_function_reads ?f fn"
  note facts = standing_facts[OF cs]
  have old: "ssa fn" "strict fn" "consistent_types fn" "block_names_ok fn"
    using wf by (simp_all add: branch_wf_def copy_wf_def)
  have instrs: "all_instrs ?fn = map (map_reads ?f) (all_instrs fn)" by (rule map_reads_all_instrs)
  have results: "results ?fn = results fn" by (simp add: results_def instrs comp_def)
  have params: "param_names ?fn = param_names fn" by (simp add: param_names_def map_function_reads_def)
  have "ssa ?fn" using old(1) unfolding ssa_def results params by (auto simp: instrs)
  moreover have "strict ?fn" using mapped_strict[OF old(2) replaced_before[OF facts(2)]] .
  moreover have "consistent_types ?fn"
    unfolding consistent_types_def
  proof (intro ballI impI conjI)
    fix i'
    assume "i' \<in> set (all_instrs ?fn)" and named: "v_name (i_result i') \<noteq> []"
    then obtain i where i: "i \<in> set (all_instrs fn)" "i' = map_reads ?f i" by (auto simp: instrs)
    have typed: "v_type v = v_type (i_result i')" if "typed_read fn w" "v = ?f w" "v_name v = v_name (i_result i')" for v w
      using replaced_typed[OF facts(3) that(1)] that(2,3) i named by (auto simp: typed_read_def)
    show "v_type v = v_type (i_result i')" if "j' \<in> set (all_instrs ?fn)" "v \<in> set (instr_reads j')" "v_name v = v_name (i_result i')" for j' v
      using that typed read_typed[OF old(3)] by (auto simp: instrs)
    show "v_type v = v_type (i_result i')" if "b \<in> set (f_blocks ?fn)" "v \<in> set (term_reads (b_term b))" "v_name v = v_name (i_result i')" for b v
      using that typed term_typed[OF old(3)] by (auto simp: map_function_reads_def term_reads_def map_term_reads_def)
    show "v_type a = v_type (i_result i')" if "i_op i' = ''id''" "a \<in> set (i_args i')" for a
    proof -
      from that i obtain w where w: "w \<in> set (i_args i)" "a = ?f w" "i_op i = ''id''" by auto
      have "typed_read fn w" using read_typed[OF old(3) i(1)] w(1) by (simp add: instr_reads_def)
      from replaced_type[OF facts(1) this] w old(3) i named show ?thesis unfolding consistent_types_def by auto
    qed
  qed
  moreover have "block_names_ok ?fn" using old(4) unfolding block_names_ok_def by (metis list.set_map mapped_blocks(2))
  moreover have "no_entry_phi ?fn"
    using wf by (cases "f_blocks fn") (auto simp: branch_wf_def no_entry_phi_def list_all_iff map_function_reads_def)
  moreover have "phi_exact ?fn"
  proof -
    have "length (incoming_from (map_reads ?f i) x) = length (incoming_from i x)" for i x
      by (simp add: incoming_from_def filter_map comp_def map_incoming_def)
    then show ?thesis using wf by (simp add: branch_wf_def phi_exact_def list_all_iff map_function_reads_def successors_def map_term_reads_def)
  qed
  moreover have "phi_types ?fn"
  proof -
    have "v_type (?f (in_value inc)) = v_type (i_result i)" if "i \<in> set (all_instrs fn)" "i_op i = ''phi''" "inc \<in> set (i_incoming i)" for i inc
    proof -
      have "typed_read fn (in_value inc)" using read_typed[OF old(3) that(1)] that(3) by (simp add: instr_reads_def)
      from replaced_type[OF facts(1) this] wf that show ?thesis by (auto simp: branch_wf_def phi_types_def list_all_iff)
    qed
    then show ?thesis by (auto simp: phi_types_def list_all_iff instrs map_incoming_def)
  qed
  moreover have "phi_agree ?fn"
    unfolding phi_agree_def list_all_iff
  proof (intro ballI impI)
    fix i' a b
    assume "i' \<in> set (all_instrs ?fn)" "i_op i' = ''phi''" "a \<in> set (i_incoming i')" "b \<in> set (i_incoming i')" "in_block a = in_block b"
    then obtain i a0 b0 where i: "i \<in> set (all_instrs fn)" "i_op i = ''phi''" "a0 \<in> set (i_incoming i)" "b0 \<in> set (i_incoming i)"
      "a = map_incoming ?f a0" "b = map_incoming ?f b0" "in_block a0 = in_block b0"
      by (auto simp: instrs map_incoming_def)
    then have "in_value a0 = in_value b0" using wf unfolding branch_wf_def phi_agree_def list_all_iff by blast
    with i show "in_value a = in_value b" by (simp add: map_incoming_def)
  qed
  ultimately show ?thesis by (simp add: branch_wf_def copy_wf_def)
qed

text \<open>
  C6: Merging repeated computations keeps what a function computes. For a well-formed
  function, and operations on values that yield the same result for one spelling and the same
  operands whatever the memory, the pass answers, and a call that returns a value and a
  memory returns the same after it. The walk over the dominator tree and every chain of
  replacements end.
\<close>
theorem common_subexpressions_preserved:
  assumes "operand_machine m" "copy_wf fn" "keys_ok fn" and "call_for n m fn vals s = Some r"
  shows "\<exists>fn'. eliminate_common_subexpressions_in fn = Some fn' \<and> call_for n m fn' vals s = Some r"
  using assms by (rule eliminate_preserves)

definition repeat_example :: func where
  "repeat_example = function_of
     [\<lparr>p_name = ''a'', p_type = ''i64'', p_passing = PassValue\<rparr>, \<lparr>p_name = ''b'', p_type = ''i64'', p_passing = PassValue\<rparr>] ''i64''
     [block_of ''entry'' [binary_i64 ''%1'' ''i64'' ''binary.+'' ''a'' ''b'', binary_i64 ''%2'' ''bool'' ''binary.<'' ''a'' ''b'']
        ((new_term ''branch'')\<lparr>t_cond := typed ''%2'' ''bool'', t_target := ''left'', t_else := ''right''\<rparr>),
      block_of ''left'' [binary_i64 ''%3'' ''i64'' ''binary.+'' ''a'' ''b'', binary_i64 ''%4'' ''i64'' ''binary.*'' ''%3'' ''%1'']
        ((new_term ''jump'')\<lparr>t_target := ''join''\<rparr>),
      block_of ''right'' [binary_i64 ''%5'' ''i64'' ''binary.*'' ''%1'' ''%1'', binary_i64 ''%6'' ''i64'' ''binary.+'' ''%5'' ''%1'']
        ((new_term ''jump'')\<lparr>t_target := ''join''\<rparr>),
      block_of ''join''
        [(new_instr (typed ''%7'' ''i64'') ''phi'')\<lparr>i_incoming :=
           [\<lparr>in_block = ''left'', in_value = typed ''%4'' ''i64''\<rparr>, \<lparr>in_block = ''right'', in_value = typed ''%6'' ''i64''\<rparr>]\<rparr>,
         binary_i64 ''%8'' ''i64'' ''binary.*'' ''%1'' ''%1'', binary_i64 ''%9'' ''i64'' ''binary.+'' ''%8'' ''%7'']
        (return_of ''%9'' ''i64'')]"

lemma repeat_example_wf: "branch_wf repeat_example"
proof -
  have "verify_function (one_function repeat_example) repeat_example = None" by code_simp
  moreover have "ssa repeat_example" "block_names_ok repeat_example" "consistent_types repeat_example" by code_simp+
  moreover have "no_entry_phi repeat_example" "phi_exact repeat_example" "phi_types repeat_example" "phi_agree repeat_example"
    by code_simp+
  ultimately show ?thesis using verify_strict by (simp add: branch_wf_def copy_wf_def)
qed

lemma bare_operands: "operand_machine bare_machine"
  by (simp add: operand_machine_def bare_machine_def)

theorem common_subexpressions_preserved_witness:
  "\<exists>fn'. eliminate_common_subexpressions_in repeat_example = Some fn' \<and>
     call_for 20 bare_machine fn' [IntV 2, IntV 3] () = Some (IntV 50, ())"
proof (rule common_subexpressions_preserved[OF bare_operands])
  show "copy_wf repeat_example" using repeat_example_wf by (simp add: branch_wf_def)
  show "keys_ok repeat_example" by code_simp
  show "call_for 20 bare_machine repeat_example [IntV 2, IntV 3] () = Some (IntV 50, ())" by code_simp
qed

text \<open>
  C7: The function keeps its form: each name still has one definition, which is on every path
  to its uses, every read carries the type of its definition, and each phi has one value, of
  its own type, for each edge.
\<close>
theorem common_subexpressions_typed:
  assumes "branch_wf fn" "keys_ok fn"
  shows "\<exists>fn'. eliminate_common_subexpressions_in fn = Some fn' \<and> branch_wf fn'"
proof -
  have "copy_wf fn" using assms(1) by (simp add: branch_wf_def)
  from eliminate_result[OF this assms(2) bare_operands, of Map.empty "()"] obtain cs where
    "eliminate_common_subexpressions_in fn = Some (map_function_reads (replace_value cs) fn)"
    "standing bare_machine fn (start Map.empty ()) cs" by (auto simp: merged_def)
  with standing_branch_wf[OF assms(1)] show ?thesis by blast
qed

theorem common_subexpressions_typed_witness:
  "\<exists>fn'. eliminate_common_subexpressions_in repeat_example = Some fn' \<and> branch_wf fn'"
  by (rule common_subexpressions_typed[OF repeat_example_wf]) code_simp

end
