(* ===== verification/Bounds.thy ===== *)
theory Bounds
  imports Cse
begin

text \<open>
  EliminateBoundsChecks (internal/ir/bounds.go): the index checks a function has already
  answered. An instruction is named by its block and its place in it, where the code keeps
  its pointer. A walk goes over the blocks in reverse postorder with the facts of each
  block's immediate dominator, and records a plan; a walk that took a step of a loop counter
  for safe without a bound is repeated without the counter.

  Following the length aliases is a loop in the code; \<open>resolved_name\<close> takes one step for
  each alias, which is enough because no alias leads to another (\<open>aliases_flat\<close> in theory Bounds_Pass).
\<close>

section \<open>Constants and counters\<close>

type_synonym defs = "name \<rightharpoonup> instr"

definition defs_of :: "func \<Rightarrow> defs" where
  "defs_of fn = fold (\<lambda>i d. if v_name (i_result i) \<noteq> [] then d(v_name (i_result i) \<mapsto> i) else d) (all_instrs fn) Map.empty"

definition constant_of :: "defs \<Rightarrow> ir_value \<Rightarrow> i64 option" where
  "constant_of defs v =
     (if v_type v \<noteq> ''i64'' then None
      else (case defs (v_name v) of
              Some i \<Rightarrow> if i_op i \<noteq> ''const'' then None else parse_int64 (i_immediate i)
            | None \<Rightarrow> parse_int64 (v_name v)))"

definition nonneg_constant :: "defs \<Rightarrow> ir_value \<Rightarrow> bool" where
  "nonneg_constant defs v = (case constant_of defs v of Some c \<Rightarrow> 0 \<le> sint c | None \<Rightarrow> False)"

text \<open>The name a step of one adds to.\<close>

definition step_of :: "defs \<Rightarrow> name \<Rightarrow> name option" where
  "step_of defs x =
     (case defs x of
        None \<Rightarrow> None
      | Some i \<Rightarrow>
          if i_op i \<noteq> ''binary.+'' \<or> length (i_args i) \<noteq> 2 \<or> v_type (i_result i) \<noteq> ''i64'' then None
          else if constant_of defs (i_args i ! 1) = Some 1 then Some (v_name (i_args i ! 0))
          else if constant_of defs (i_args i ! 0) = Some 1 then Some (v_name (i_args i ! 1))
          else None)"

definition counts_up :: "defs \<Rightarrow> name list \<Rightarrow> instr \<Rightarrow> bool" where
  "counts_up defs counters phi =
     list_all (\<lambda>inc. nonneg_constant defs (in_value inc) \<or>
       (case step_of defs (v_name (in_value inc)) of Some from \<Rightarrow> from \<in> set counters | None \<Rightarrow> False)) (i_incoming phi)"

definition drop_counters :: "func \<Rightarrow> name list \<Rightarrow> name list \<times> bool" where
  "drop_counters fn counters =
     fold (\<lambda>i (counters, changed).
         if v_name (i_result i) \<in> set counters \<and> \<not> counts_up (defs_of fn) counters i
         then (removeAll (v_name (i_result i)) counters, True) else (counters, changed))
       (all_instrs fn) (counters, False)"

lemma drop_counters_fold:
  "fold (\<lambda>i (counters, changed).
         if v_name (i_result i) \<in> set counters \<and> \<not> counts_up d counters i
         then (removeAll (v_name (i_result i)) counters, True) else (counters, changed)) is (cs, c) = (cs', c') \<Longrightarrow>
    length cs' \<le> length cs \<and> set cs' \<subseteq> set cs \<and> (c' \<longrightarrow> c \<or> length cs' < length cs) \<and> (c \<longrightarrow> c') \<and> (\<not> c' \<longrightarrow> cs' = cs)"
proof (induction "is" arbitrary: cs c)
  case (Cons i "is")
  show ?case
  proof (cases "v_name (i_result i) \<in> set cs \<and> \<not> counts_up d cs i")
    case True
    then have "length (removeAll (v_name (i_result i)) cs) < length cs" by (simp add: length_removeAll_less)
    with Cons.IH[of "removeAll (v_name (i_result i)) cs" True] Cons.prems True show ?thesis
      by (auto dest: order_less_le_trans)
  next
    case False
    with Cons.IH[of cs c] Cons.prems show ?thesis by auto
  qed
qed simp

function drop_all_counters :: "func \<Rightarrow> name list \<Rightarrow> name list" where
  "drop_all_counters fn counters =
     (case drop_counters fn counters of (counters', changed) \<Rightarrow>
        if changed then drop_all_counters fn counters' else counters')"
  by pat_completeness auto
termination
  by (relation "measure (\<lambda>(fn, counters). length counters)")
    (auto simp: drop_counters_def dest: drop_counters_fold[OF sym])

declare drop_all_counters.simps [simp del]

definition candidate_counters :: "func \<Rightarrow> name list \<Rightarrow> name list" where
  "candidate_counters fn excluded =
     map (\<lambda>i. v_name (i_result i))
       (filter (\<lambda>i. i_op i = ''phi'' \<and> v_type (i_result i) = ''i64'' \<and> v_name (i_result i) \<notin> set excluded) (all_instrs fn))"

definition loop_counters :: "func \<Rightarrow> name list \<Rightarrow> name list" where
  "loop_counters fn excluded = drop_all_counters fn (candidate_counters fn excluded)"

text \<open>The counters that a step feeds.\<close>

definition steps_into :: "func \<Rightarrow> name list \<Rightarrow> name \<Rightarrow> name list" where
  "steps_into fn counters x =
     concat (map (\<lambda>i. if v_name (i_result i) \<notin> set counters then []
                      else map (\<lambda>inc. v_name (i_result i))
                             (filter (\<lambda>inc. v_name (in_value inc) = x \<and> step_of (defs_of fn) x \<noteq> None) (i_incoming i)))
       (all_instrs fn))"

section \<open>What a walk knows and decides\<close>

record bounds_facts =
  bf_less :: "(name \<times> name) set"
  bf_nonneg :: "name set"
  bf_length :: "name \<rightharpoonup> ir_value"
  bf_view :: "name \<rightharpoonup> ir_value"
  bf_checked :: "(name \<times> name) set"

definition no_facts :: bounds_facts where
  "no_facts = \<lparr>bf_less = {}, bf_nonneg = {}, bf_length = Map.empty, bf_view = Map.empty, bf_checked = {}\<rparr>"

definition forget_headers :: "bounds_facts \<Rightarrow> bounds_facts" where
  "forget_headers f = f\<lparr>bf_length := Map.empty, bf_checked := {}\<rparr>"

record bounds_plan =
  bp_drops :: "point list"
  bp_answered :: "point list"
  bp_aliases :: replacements
  bp_unsafe :: "name list"

definition no_plan :: bounds_plan where
  "no_plan = \<lparr>bp_drops = [], bp_answered = [], bp_aliases = [], bp_unsafe = []\<rparr>"

definition resolved_name :: "replacements \<Rightarrow> name \<Rightarrow> name" where
  "resolved_name al x =
     (case resolve (length al) (lookup_last al) \<lparr>v_name = x, v_type = []\<rparr> of Some v \<Rightarrow> v_name v | None \<Rightarrow> x)"

text \<open>The tables one walk reads.\<close>

record walker =
  wk_fn :: func
  wk_defs :: defs
  wk_counters :: "name list"

definition leaves_headers :: "string \<Rightarrow> bool" where
  "leaves_headers op \<longleftrightarrow>
     op \<in> set [''cond_fail'', ''array.set'', ''array.swap'', ''array.get_or_panic'', ''slice.store''] \<or>
     is_pure_op op \<or> prefix ''field.ref.set.'' op"

definition forward_visit_limit :: nat where
  "forward_visit_limit = 64"

text \<open>The top of the stack comes first.\<close>

function paths_may_write_headers :: "func \<Rightarrow> nat \<Rightarrow> nat \<Rightarrow> nat list \<Rightarrow> nat list \<Rightarrow> bool" where
  "paths_may_write_headers fn position idom seen [] = False"
| "paths_may_write_headers fn position idom seen (b # stack) =
     (if b = idom \<or> b \<in> set seen then paths_may_write_headers fn position idom seen stack
      else if forward_visit_limit < Suc (length seen) then True
      else if \<not> list_all (\<lambda>i. leaves_headers (i_op i)) (b_instrs (f_blocks fn ! b)) then True
      else paths_may_write_headers fn position idom (b # seen)
             (if b = position then stack else rev (block_predecessors fn ! b) @ stack))"
  by pat_completeness auto
termination
  by (relation "measures [\<lambda>(fn, position, idom, seen, stack). Suc forward_visit_limit - length seen,
      \<lambda>(fn, position, idom, seen, stack). length stack]") auto

declare paths_may_write_headers.simps(2) [simp del]

definition negated_comparison :: "string \<Rightarrow> string" where
  "negated_comparison op =
     (if op = ''binary.<'' then ''binary.>=''
      else if op = ''binary.>='' then ''binary.<''
      else if op = ''binary.>'' then ''binary.<=''
      else if op = ''binary.<='' then ''binary.>'' else [])"

definition learn_condition :: "walker \<Rightarrow> bounds_plan \<Rightarrow> ir_value \<Rightarrow> bool \<Rightarrow> bounds_facts \<Rightarrow> bounds_facts" where
  "learn_condition w pl c holds f =
     (case wk_defs w (v_name c) of
        None \<Rightarrow> f
      | Some i \<Rightarrow>
          if length (i_args i) \<noteq> 2 \<or> v_type (i_args i ! 0) \<noteq> ''i64'' then f
          else let left = resolved_name (bp_aliases pl) (v_name (i_args i ! 0));
                   right = resolved_name (bp_aliases pl) (v_name (i_args i ! 1));
                   op = (if holds then i_op i else negated_comparison (i_op i))
               in if op = ''binary.<'' then f\<lparr>bf_less := insert (left, right) (bf_less f)\<rparr>
                  else if op = ''binary.>'' then f\<lparr>bf_less := insert (right, left) (bf_less f)\<rparr>
                  else if op = ''binary.>='' then
                    (if nonneg_constant (wk_defs w) (i_args i ! 1) then f\<lparr>bf_nonneg := insert left (bf_nonneg f)\<rparr> else f)
                  else if op = ''binary.<='' then
                    (if nonneg_constant (wk_defs w) (i_args i ! 0) then f\<lparr>bf_nonneg := insert right (bf_nonneg f)\<rparr> else f)
                  else f)"

definition learn_edge :: "walker \<Rightarrow> bounds_plan \<Rightarrow> terminator \<Rightarrow> name \<Rightarrow> bounds_facts \<Rightarrow> bounds_facts" where
  "learn_edge w pl t target f =
     (if t_op t \<noteq> ''branch'' \<or> t_target t = t_else t then f
      else learn_condition w pl (t_cond t) (t_target t = target) f)"

definition has_upper_bound :: "bounds_facts \<Rightarrow> name \<Rightarrow> bool" where
  "has_upper_bound f x \<longleftrightarrow> (\<exists>pair\<in>bf_less f. fst pair = x)"

definition non_negative :: "walker \<Rightarrow> bounds_plan \<Rightarrow> bounds_facts \<Rightarrow> ir_value \<Rightarrow> bool" where
  "non_negative w pl f v =
     (let x = resolved_name (bp_aliases pl) (v_name v)
      in x \<in> bf_nonneg f \<or> x \<in> set (wk_counters w) \<or> nonneg_constant (wk_defs w) v \<or>
         (case wk_defs w x of Some i \<Rightarrow> i_op i = ''array.len'' \<or> i_op i = ''slice.len'' | None \<Rightarrow> False))"

text \<open>The condition of a check that cannot fail: an index below zero, or one not below the length.\<close>

definition check_answered :: "walker \<Rightarrow> bounds_plan \<Rightarrow> bounds_facts \<Rightarrow> ir_value \<Rightarrow> bool" where
  "check_answered w pl f c =
     (case wk_defs w (v_name c) of
        None \<Rightarrow> False
      | Some i \<Rightarrow>
          length (i_args i) = 2 \<and> v_type (i_args i ! 0) = ''i64'' \<and>
          (let left = i_args i ! 0; right = i_args i ! 1 in
           if i_op i = ''binary.<'' then constant_of (wk_defs w) right = Some 0 \<and> non_negative w pl f left
           else if i_op i = ''binary.>='' then
             (resolved_name (bp_aliases pl) (v_name left), resolved_name (bp_aliases pl) (v_name right)) \<in> bf_less f
           else False))"

definition visit_cond_fail :: "walker \<Rightarrow> point \<Rightarrow> instr \<Rightarrow> bounds_facts \<times> bounds_plan \<Rightarrow> bounds_facts \<times> bounds_plan" where
  "visit_cond_fail w u i st =
     (case st of (f, pl) \<Rightarrow>
        if i_args i = [] then (f, pl)
        else if check_answered w pl f (hd (i_args i)) then (f, pl\<lparr>bp_drops := u # bp_drops pl\<rparr>)
        else (learn_condition w pl (hd (i_args i)) False f, pl))"

definition visit_length :: "instr \<Rightarrow> bounds_facts \<times> bounds_plan \<Rightarrow> bounds_facts \<times> bounds_plan" where
  "visit_length i st =
     (case st of (f, pl) \<Rightarrow>
        if length (i_args i) \<noteq> 1 then (f, pl)
        else let container = v_name (hd (i_args i));
                 lengths = (if i_op i = ''slice.len'' then bf_view f else bf_length f);
                 learnt = (if i_op i = ''slice.len'' then f\<lparr>bf_view := (bf_view f)(container \<mapsto> i_result i)\<rparr>
                           else f\<lparr>bf_length := (bf_length f)(container \<mapsto> i_result i)\<rparr>)
             in (case lengths container of
                   Some known \<Rightarrow>
                     if v_type known = v_type (i_result i)
                     then (f, pl\<lparr>bp_aliases := bp_aliases pl @ [(v_name (i_result i), known)]\<rparr>)
                     else (learnt, pl)
                 | None \<Rightarrow> (learnt, pl)))"

definition access_answered :: "walker \<Rightarrow> bounds_plan \<Rightarrow> bounds_facts \<Rightarrow> ir_value \<Rightarrow> ir_value \<Rightarrow> bool" where
  "access_answered w pl f array idx \<longleftrightarrow>
     (v_name array, v_name idx) \<in> bf_checked f \<or>
     non_negative w pl f idx \<and>
     (case bf_length f (v_name array) of
        Some len \<Rightarrow> (resolved_name (bp_aliases pl) (v_name idx), resolved_name (bp_aliases pl) (v_name len)) \<in> bf_less f
      | None \<Rightarrow> False)"

definition visit_array_check :: "walker \<Rightarrow> point \<Rightarrow> instr \<Rightarrow> bounds_facts \<times> bounds_plan \<Rightarrow> bounds_facts \<times> bounds_plan" where
  "visit_array_check w u i st =
     (case st of (f, pl) \<Rightarrow>
        if length (i_args i) < 2 then (f, pl)
        else let array = i_args i ! 0; idx = i_args i ! 1;
                 pl' = (if access_answered w pl f array idx \<and> prefix ''&'' (v_type array)
                        then pl\<lparr>bp_answered := u # bp_answered pl\<rparr> else pl)
             in (if i_op i = ''array.get_or_panic'' \<or> i_op i = ''array.set''
                 then f\<lparr>bf_checked := insert (v_name array, v_name idx) (bf_checked f)\<rparr> else f, pl'))"

definition visit_other :: "walker \<Rightarrow> instr \<Rightarrow> bounds_facts \<times> bounds_plan \<Rightarrow> bounds_facts \<times> bounds_plan" where
  "visit_other w i st =
     (case st of (f, pl) \<Rightarrow>
        let fed = (if i_op i = ''binary.+'' then steps_into (wk_fn w) (wk_counters w) (v_name (i_result i)) else []);
            from = (case step_of (wk_defs w) (v_name (i_result i)) of Some x \<Rightarrow> x | None \<Rightarrow> []);
            pl' = (if fed \<noteq> [] \<and> \<not> has_upper_bound f from then pl\<lparr>bp_unsafe := fed @ bp_unsafe pl\<rparr> else pl)
        in (if leaves_headers (i_op i) then f else forget_headers f, pl'))"

definition visit_instr :: "walker \<Rightarrow> point \<Rightarrow> instr \<Rightarrow> bounds_facts \<times> bounds_plan \<Rightarrow> bounds_facts \<times> bounds_plan" where
  "visit_instr w u i st =
     (if i_op i = ''cond_fail'' then visit_cond_fail w u i st
      else if i_op i = ''array.len'' \<or> i_op i = ''slice.len'' then visit_length i st
      else if i_op i \<in> set [''array.get_or_panic'', ''array.set'', ''array.at'', ''array.at_mut''] then visit_array_check w u i st
      else visit_other w i st)"

primrec visit_instrs :: "walker \<Rightarrow> nat \<Rightarrow> nat \<Rightarrow> instr list \<Rightarrow> bounds_facts \<times> bounds_plan \<Rightarrow> bounds_facts \<times> bounds_plan" where
  "visit_instrs w p k [] st = st"
| "visit_instrs w p k (i # is) st = visit_instrs w p (Suc k) is (visit_instr w (p, k) i st)"

section \<open>The walk\<close>

type_synonym walk_state = "(nat \<rightharpoonup> bounds_facts) \<times> bounds_plan"

text \<open>What a block starts with.\<close>

definition block_facts :: "walker \<Rightarrow> nat list \<Rightarrow> idoms \<Rightarrow> walk_state \<Rightarrow> nat \<Rightarrow> bounds_facts" where
  "block_facts w order idom st index =
     (case (if index = 0 then None else idom_at idom index) of
        None \<Rightarrow> no_facts
      | Some d \<Rightarrow>
          let fn = wk_fn w; p = order ! index; q = order ! d;
              preds = block_predecessors fn ! p;
              f = (case fst st q of Some f \<Rightarrow> f | None \<Rightarrow> no_facts)
          in if preds = [q] then learn_edge w (snd st) (b_term (f_blocks fn ! q)) (b_name (f_blocks fn ! p)) f
             else if paths_may_write_headers fn p q [] (rev preds) then forget_headers f else f)"

definition walk_block :: "walker \<Rightarrow> nat list \<Rightarrow> idoms \<Rightarrow> nat \<Rightarrow> walk_state \<Rightarrow> walk_state" where
  "walk_block w order idom index st =
     (let p = order ! index;
          (f, pl) = visit_instrs w p 0 (b_instrs (f_blocks (wk_fn w) ! p)) (block_facts w order idom st index, snd st)
      in ((fst st)(p \<mapsto> f), pl))"

definition bounds_walk :: "walker \<Rightarrow> nat list \<Rightarrow> idoms \<Rightarrow> bounds_plan" where
  "bounds_walk w order idom = snd (fold (walk_block w order idom) [0..<length order] (Map.empty, no_plan))"

definition walker_for :: "func \<Rightarrow> name list \<Rightarrow> walker" where
  "walker_for fn excluded = \<lparr>wk_fn = fn, wk_defs = defs_of fn, wk_counters = loop_counters fn excluded\<rparr>"

text \<open>Only counters are found unsafe.\<close>

lemma drop_all_counters_subset: "set (drop_all_counters fn cs) \<subseteq> set cs"
proof (induction fn cs rule: drop_all_counters.induct)
  case (1 fn cs)
  obtain cs' changed where d: "drop_counters fn cs = (cs', changed)" by (cases "drop_counters fn cs")
  have "set cs' \<subseteq> set cs" using drop_counters_fold[of "defs_of fn" "all_instrs fn" cs False cs' changed] d
    by (simp add: drop_counters_def)
  with 1[OF d[symmetric]] d show ?case by (auto simp: drop_all_counters.simps[of fn cs] split: if_splits)
qed

lemma visit_unsafe: "set (bp_unsafe (snd (visit_instr w u i (f, pl)))) \<subseteq> set (bp_unsafe pl) \<union> set (wk_counters w)"
  by (auto simp: visit_instr_def visit_cond_fail_def visit_length_def visit_array_check_def visit_other_def Let_def
      steps_into_def split: option.splits if_splits)

lemma visits_unsafe: "set (bp_unsafe (snd (visit_instrs w p k is st))) \<subseteq> set (bp_unsafe (snd st)) \<union> set (wk_counters w)"
proof (induction "is" arbitrary: k st)
  case (Cons i "is")
  show ?case using Cons.IH[of "Suc k" "visit_instr w (p, k) i st"] visit_unsafe[of w "(p, k)" i "fst st" "snd st"] by auto
qed simp

lemma walk_unsafe: "set (bp_unsafe (bounds_walk w order idom)) \<subseteq> set (wk_counters w)"
proof -
  have "set (bp_unsafe (snd (fold (walk_block w order idom) ns st))) \<subseteq> set (bp_unsafe (snd st)) \<union> set (wk_counters w)" for ns st
  proof (induction ns arbitrary: st)
    case (Cons n ns)
    have "set (bp_unsafe (snd (walk_block w order idom n st))) \<subseteq> set (bp_unsafe (snd st)) \<union> set (wk_counters w)"
      using visits_unsafe[of w "order ! n" 0 "b_instrs (f_blocks (wk_fn w) ! (order ! n))" "(block_facts w order idom st n, snd st)"]
      by (simp add: walk_block_def Let_def case_prod_beta)
    with Cons.IH[of "walk_block w order idom n st"] show ?case by auto
  qed simp
  from this[of "[0..<length order]" "(Map.empty, no_plan)"] show ?thesis by (simp add: bounds_walk_def no_plan_def)
qed

lemma excluding_fewer:
  assumes "xs \<noteq> []" "set xs \<subseteq> set (candidate_counters fn excluded)"
  shows "length (candidate_counters fn (xs @ excluded)) < length (candidate_counters fn excluded)"
proof -
  from assms obtain x where "x \<in> set xs" "x \<in> set (candidate_counters fn excluded)" by (cases xs) auto
  then obtain i where i: "i \<in> set (all_instrs fn)" "i_op i = ''phi'' \<and> v_type (i_result i) = ''i64'' \<and> v_name (i_result i) \<notin> set excluded"
    "v_name (i_result i) \<in> set xs" by (auto simp: candidate_counters_def)
  let ?P = "\<lambda>i. i_op i = ''phi'' \<and> v_type (i_result i) = ''i64'' \<and> v_name (i_result i) \<notin> set excluded"
  have "filter (\<lambda>i. i_op i = ''phi'' \<and> v_type (i_result i) = ''i64'' \<and> v_name (i_result i) \<notin> set (xs @ excluded)) (all_instrs fn) =
      filter (\<lambda>i. v_name (i_result i) \<notin> set xs) (filter ?P (all_instrs fn))"
    by (simp add: conj_commute conj_left_commute)
  moreover have "length (filter (\<lambda>i. v_name (i_result i) \<notin> set xs) (filter ?P (all_instrs fn))) < length (filter ?P (all_instrs fn))"
    using i by (intro length_filter_less[of i]) simp_all
  ultimately show ?thesis by (simp only: candidate_counters_def length_map)
qed

function settled_plan :: "func \<Rightarrow> nat list \<Rightarrow> idoms \<Rightarrow> name list \<Rightarrow> name list \<times> bounds_plan" where
  "settled_plan fn order idom excluded =
     (let pl = bounds_walk (walker_for fn excluded) order idom
      in if bp_unsafe pl = [] then (excluded, pl) else settled_plan fn order idom (bp_unsafe pl @ excluded))"
  by pat_completeness auto
termination
proof (relation "measure (\<lambda>(fn, order, idom, excluded). length (candidate_counters fn excluded))", simp)
  fix fn order idom excluded pl
  assume "pl = bounds_walk (walker_for fn excluded) order idom" "bp_unsafe pl \<noteq> []"
  moreover have "set (loop_counters fn excluded) \<subseteq> set (candidate_counters fn excluded)"
    by (simp add: loop_counters_def drop_all_counters_subset)
  ultimately have "length (candidate_counters fn (bp_unsafe pl @ excluded)) < length (candidate_counters fn excluded)"
    using walk_unsafe[of "walker_for fn excluded" order idom] by (intro excluding_fewer) (auto simp: walker_for_def)
  then show "((fn, order, idom, bp_unsafe pl @ excluded), (fn, order, idom, excluded))
      \<in> measure (\<lambda>(fn, order, idom, excluded). length (candidate_counters fn excluded))" by simp
qed

declare settled_plan.simps [simp del]

section \<open>The rewriting\<close>

definition answered_access :: "instr \<Rightarrow> string \<Rightarrow> instr list" where
  "answered_access i pre =
     (let array = i_args i ! 0; idx = i_args i ! 1;
          elem = trim_suffix (trim_prefix (deref_type (v_type array)) ''std::array::Array<'') ''>''
      in if i_op i = ''array.at'' \<or> i_op i = ''array.at_mut'' then [i]
         else if i_op i = ''array.get_or_panic'' then
           (let borrow = \<lparr>v_name = pre @ ''at'', v_type = ''?&'' @ elem\<rparr>; ref = \<lparr>v_name = pre @ ''ref'', v_type = ''&'' @ elem\<rparr>
            in [(new_instr borrow ''array.at'')\<lparr>i_args := [array, idx]\<rparr>,
                (new_instr ref ''opt.value'')\<lparr>i_args := [borrow]\<rparr>,
                (new_instr (i_result i) ''ref.load'')\<lparr>i_args := [ref]\<rparr>])
         else
           (let borrow = \<lparr>v_name = pre @ ''at'', v_type = ''?&var '' @ elem\<rparr>; ref = \<lparr>v_name = pre @ ''ref'', v_type = ''&var '' @ elem\<rparr>
            in [(new_instr borrow ''array.at_mut'')\<lparr>i_args := [array, idx]\<rparr>,
                (new_instr ref ''opt.value'')\<lparr>i_args := [borrow]\<rparr>,
                (new_instr \<lparr>v_name = [], v_type = ''void''\<rparr> ''ref.store'')\<lparr>i_args := [ref, i_args i ! 2]\<rparr>,
                new_instr (i_result i) ''error.ok'']))"

text \<open>The number of the last site, and the borrows known to be present.\<close>

primrec apply_to_instrs :: "bounds_plan \<Rightarrow> nat \<Rightarrow> nat \<Rightarrow> instr list \<Rightarrow> nat \<times> name list \<Rightarrow> instr list \<times> nat \<times> name list" where
  "apply_to_instrs pl p k [] st = ([], st)"
| "apply_to_instrs pl p k (i # is) st =
     (if (p, k) \<in> set (bp_drops pl) then apply_to_instrs pl p (Suc k) is st
      else if (p, k) \<notin> set (bp_answered pl) then
        (case apply_to_instrs pl p (Suc k) is st of (is', st') \<Rightarrow> (i # is', st'))
      else (case st of (site, present) \<Rightarrow>
        let present' = (if i_op i = ''array.at'' \<or> i_op i = ''array.at_mut'' then v_name (i_result i) # present else present)
        in (case apply_to_instrs pl p (Suc k) is (Suc site, present') of
              (is', st') \<Rightarrow> (answered_access i (''%bce'' @ format_nat (Suc site) @ ''.'') @ is', st'))))"

primrec apply_to_blocks :: "bounds_plan \<Rightarrow> nat \<Rightarrow> block list \<Rightarrow> nat \<times> name list \<Rightarrow> block list \<times> nat \<times> name list" where
  "apply_to_blocks pl p [] st = ([], st)"
| "apply_to_blocks pl p (b # bs) st =
     (case apply_to_instrs pl p 0 (b_instrs b) st of (is', st1) \<Rightarrow>
        (case apply_to_blocks pl (Suc p) bs st1 of (bs', st2) \<Rightarrow> (b\<lparr>b_instrs := is'\<rparr> # bs', st2)))"

definition answer_presence :: "name list \<Rightarrow> instr \<Rightarrow> instr" where
  "answer_presence present i =
     (if i_op i = ''opt.has'' \<and> length (i_args i) = 1 \<and> v_name (hd (i_args i)) \<in> set present
      then i\<lparr>i_op := ''const'', i_args := [], i_immediate := ''true''\<rparr> else i)"

definition apply_bounds_plan :: "func \<Rightarrow> bounds_plan \<Rightarrow> func option" where
  "apply_bounds_plan fn pl =
     map_option (\<lambda>fn1.
       case apply_to_blocks pl 0 (f_blocks fn1) (0, []) of (bs, site, present) \<Rightarrow>
         if present = [] then fn1\<lparr>f_blocks := bs\<rparr>
         else fn1\<lparr>f_blocks := map (\<lambda>b. b\<lparr>b_instrs := map (answer_presence present) (b_instrs b)\<rparr>) bs\<rparr>)
       (if bp_aliases pl = [] then Some fn else replace_function_values (bp_aliases pl) fn)"

definition plan_for :: "func \<Rightarrow> bounds_plan option" where
  "plan_for fn = map_option (\<lambda>tree. snd (settled_plan fn (reverse_postorder fn) (dt_idom tree) [])) (build_dominator_tree fn)"

definition eliminate_bounds_checks_in :: "func \<Rightarrow> func option" where
  "eliminate_bounds_checks_in fn =
     (if f_blocks fn = [] then Some fn
      else Option.bind (plan_for fn) (\<lambda>pl.
        if bp_drops pl = [] \<and> bp_answered pl = [] \<and> bp_aliases pl = [] then Some fn else apply_bounds_plan fn pl))"

definition eliminate_bounds_checks :: "module \<Rightarrow> module option" where
  "eliminate_bounds_checks m =
     map_option (\<lambda>fs. m\<lparr>m_functions := fs\<rparr>) (those (map eliminate_bounds_checks_in (m_functions m)))"

section \<open>A store that loses its check\<close>

text \<open>
  One array in the memory. \<^verbatim>\<open>array.set\<close> outside it yields an error and changes nothing;
  \<^verbatim>\<open>array.at\<close> yields an optional element, and taking the element out of an empty optional
  has no meaning; \<^verbatim>\<open>array.get_or_panic\<close> outside it and a \<^verbatim>\<open>cond_fail\<close> that fails leave the function.
\<close>

datatype array_value = TheArray | Success | Failure | Element "nat option" | Slot nat

definition element_at :: "i64 \<Rightarrow> i64 list \<Rightarrow> nat option" where
  "element_at i xs = (if 0 \<le> sint i \<and> sint i < int (length xs) then Some (nat (sint i)) else None)"

definition array_step :: "string \<Rightarrow> array_value val list \<Rightarrow> i64 list \<Rightarrow> (array_value, i64 list) outcome option" where
  "array_step op vals xs =
     (case vals of
        [] \<Rightarrow> if op = ''error.ok'' then Some (Yield (OtherV Success) xs) else None
      | [BoolV c] \<Rightarrow>
          if op = ''cond_fail'' then Some (if c then Leave (OtherV Failure) xs else Yield (OtherV Success) xs) else None
      | [OtherV TheArray] \<Rightarrow>
          if op = ''array.len'' \<and> int (length xs) < 2 ^ 63 then Some (Yield (IntV (word_of_int (int (length xs)))) xs) else None
      | [OtherV (Element e)] \<Rightarrow>
          if op = ''opt.has'' then Some (Yield (BoolV (e \<noteq> None)) xs)
          else if op = ''opt.value'' then map_option (\<lambda>n. Yield (OtherV (Slot n)) xs) e else None
      | [OtherV (Slot n)] \<Rightarrow> if op = ''ref.load'' \<and> n < length xs then Some (Yield (IntV (xs ! n)) xs) else None
      | [OtherV TheArray, IntV i] \<Rightarrow>
          if op = ''array.at'' \<or> op = ''array.at_mut'' then Some (Yield (OtherV (Element (element_at i xs))) xs)
          else if op = ''array.get_or_panic'' then
            Some (case element_at i xs of None \<Rightarrow> Leave (OtherV Failure) xs | Some n \<Rightarrow> Yield (IntV (xs ! n)) xs)
          else None
      | [OtherV (Slot n), IntV x] \<Rightarrow> if op = ''ref.store'' then Some (Yield (OtherV Success) (xs[n := x])) else None
      | [OtherV TheArray, IntV i, IntV x] \<Rightarrow>
          if op = ''array.set'' then
            (case element_at i xs of None \<Rightarrow> Some (Yield (OtherV Failure) xs) | Some n \<Rightarrow> Some (Yield (OtherV Success) (xs[n := x])))
          else None
      | _ \<Rightarrow> None)"

definition array_machine :: "(array_value, i64 list) machine" where
  "array_machine = \<lparr>mc_op = (\<lambda>i. array_step (i_op i)), mc_lit = (\<lambda>_. None)\<rparr>"

definition array_type :: string where
  "array_type = ''&var std::array::Array<i64>''"

definition set_i64 :: "name \<Rightarrow> name \<Rightarrow> name \<Rightarrow> name \<Rightarrow> instr" where
  "set_i64 r xs i v = (new_instr (typed r ''std::array::Error!void'') ''array.set'')\<lparr>i_args := [typed xs array_type, typed i ''i64'', typed v ''i64'']\<rparr>"

definition set_twice :: func where
  "set_twice = function_of
     [\<lparr>p_name = ''xs'', p_type = array_type, p_passing = PassValue\<rparr>, \<lparr>p_name = ''i'', p_type = ''i64'', p_passing = PassValue\<rparr>] ''i64''
     [block_of ''entry'' [set_i64 ''%1'' ''xs'' ''i'' ''7'', set_i64 ''%2'' ''xs'' ''i'' ''9''] (return_of ''0'' ''i64'')]"

lemma run_stuck: "step m fn (steps k m fn \<sigma>) = Stuck \<Longrightarrow> run m fn n \<sigma> = None"
proof (induction n arbitrary: k \<sigma>)
  case (Suc n)
  show ?case
  proof (cases "step m fn \<sigma>")
    case (Go \<tau>)
    with Suc.prems obtain k' where "k = Suc k'" by (cases k) auto
    with Suc.prems Go Suc.IH[of k' \<tau>] show ?thesis by simp
  next
    case (Done x s)
    with Suc.prems show ?thesis by (cases k) auto
  qed simp
qed simp

text \<open>
  An array.set takes the check of a later one away although it may have failed. Two
  stores at one index outside the array: as written, both yield an error and the function
  returns; after the pass the second one takes the element out of an empty optional, and no
  number of steps lets the call return.
\<close>
theorem failed_set_answers:
  "call_for 3 array_machine set_twice [OtherV TheArray, IntV 5] [1, 2] = Some (IntV 0, [1, 2]) \<and>
   (\<exists>fn'. eliminate_bounds_checks_in set_twice = Some fn' \<and>
      (\<forall>n. call_for n array_machine fn' [OtherV TheArray, IntV 5] [1, 2] = None))"
proof
  show "call_for 3 array_machine set_twice [OtherV TheArray, IntV 5] [1, 2] = Some (IntV 0, [1, 2])" by code_simp
  let ?fn = "the (eliminate_bounds_checks_in set_twice)"
  have "eliminate_bounds_checks_in set_twice = Some ?fn" by code_simp
  moreover have "call_for n array_machine ?fn [OtherV TheArray, IntV 5] [1, 2] = None" for n
  proof -
    have "(case step array_machine ?fn (steps 2 array_machine ?fn (start (call_env ?fn [OtherV TheArray, IntV 5]) [1, 2])) of
        Stuck \<Rightarrow> True | _ \<Rightarrow> False)" by code_simp
    then have "step array_machine ?fn (steps 2 array_machine ?fn (start (call_env ?fn [OtherV TheArray, IntV 5]) [1, 2])) = Stuck"
      by (simp split: progress.splits)
    from run_stuck[OF this] show ?thesis by (simp add: call_for_def)
  qed
  ultimately show "\<exists>fn'. eliminate_bounds_checks_in set_twice = Some fn' \<and>
      (\<forall>n. call_for n array_machine fn' [OtherV TheArray, IntV 5] [1, 2] = None)" by blast
qed

end
