(* ===== verification/Bounds_Walk.thy ===== *)
theory Bounds_Walk
  imports Bounds
begin

text \<open>
  The walk of theory Bounds point by point: the facts and the plan it holds before each
  instruction of each block of the order. Plans only grow; whatever a plan holds was put
  there by one visit; and the names the facts of a point speak of are defined on every path
  to it.
\<close>

section \<open>The walk, point by point\<close>

text \<open>The state before a block of the order, and inside it before an instruction.\<close>

definition walk_upto :: "walker \<Rightarrow> nat list \<Rightarrow> idoms \<Rightarrow> nat \<Rightarrow> walk_state" where
  "walk_upto w order idom n = fold (walk_block w order idom) [0..<n] (Map.empty, no_plan)"

definition walk_at :: "walker \<Rightarrow> nat list \<Rightarrow> idoms \<Rightarrow> nat \<Rightarrow> nat \<Rightarrow> bounds_facts \<times> bounds_plan" where
  "walk_at w order idom n k =
     visit_instrs w (order ! n) 0 (take k (b_instrs (f_blocks (wk_fn w) ! (order ! n))))
       (block_facts w order idom (walk_upto w order idom n) n, snd (walk_upto w order idom n))"

lemma visit_instrs_append: "visit_instrs w p k (is @ js) st = visit_instrs w p (k + length is) js (visit_instrs w p k is st)"
  by (induction "is" arbitrary: k st) simp_all

lemma walk_at_Suc:
  assumes "k < length (b_instrs (f_blocks (wk_fn w) ! (order ! n)))"
  shows "walk_at w order idom n (Suc k) =
    visit_instr w (order ! n, k) (b_instrs (f_blocks (wk_fn w) ! (order ! n)) ! k) (walk_at w order idom n k)"
  using assms by (simp add: walk_at_def take_Suc_conv_app_nth visit_instrs_append)

lemma walk_at_0: "walk_at w order idom n 0 = (block_facts w order idom (walk_upto w order idom n) n, snd (walk_upto w order idom n))"
  by (simp add: walk_at_def)

lemma walk_upto_Suc:
  "walk_upto w order idom (Suc n) =
    (let (f, pl) = walk_at w order idom n (length (b_instrs (f_blocks (wk_fn w) ! (order ! n))))
     in ((fst (walk_upto w order idom n))(order ! n \<mapsto> f), pl))"
  by (simp add: walk_upto_def walk_at_def walk_block_def Let_def)

lemma walk_plan: "bounds_walk w order idom = snd (walk_upto w order idom (length order))"
  by (simp add: bounds_walk_def walk_upto_def)

text \<open>The facts at the end of the blocks walked so far.\<close>

lemma walk_ends:
  assumes "distinct order" "n \<le> length order" "d < n"
  shows "fst (walk_upto w order idom n) (order ! d) =
    Some (fst (walk_at w order idom d (length (b_instrs (f_blocks (wk_fn w) ! (order ! d))))))"
  using assms(2,3)
proof (induction n)
  case (Suc n)
  have "order ! n \<noteq> order ! d" if "d \<noteq> n" using that assms(1) Suc.prems by (simp add: nth_eq_iff_index_eq)
  with Suc show ?case by (cases "d = n") (auto simp: walk_upto_Suc Let_def less_Suc_eq split: prod.splits)
qed simp

section \<open>Plans only grow\<close>

definition plan_le :: "bounds_plan \<Rightarrow> bounds_plan \<Rightarrow> bool" where
  "plan_le a b \<longleftrightarrow> set (bp_drops a) \<subseteq> set (bp_drops b) \<and> set (bp_answered a) \<subseteq> set (bp_answered b) \<and>
     prefix (bp_aliases a) (bp_aliases b) \<and> set (bp_unsafe a) \<subseteq> set (bp_unsafe b)"

lemma plan_le_refl [simp]: "plan_le a a"
  by (simp add: plan_le_def)

lemma plan_le_trans: "plan_le a b \<Longrightarrow> plan_le b c \<Longrightarrow> plan_le a c"
  unfolding plan_le_def using prefix_order.trans by blast

lemma visit_plan_le: "plan_le (snd st) (snd (visit_instr w u i st))"
  by (cases st) (auto simp: visit_instr_def visit_cond_fail_def visit_length_def visit_array_check_def visit_other_def Let_def
      plan_le_def split: option.splits)

lemma visits_plan_le: "plan_le (snd st) (snd (visit_instrs w p k is st))"
proof (induction "is" arbitrary: k st)
  case (Cons i "is")
  from plan_le_trans[OF visit_plan_le Cons.IH] show ?case by simp
qed simp

lemma walk_at_start_le: "plan_le (snd (walk_upto w order idom n)) (snd (walk_at w order idom n k))"
  using visits_plan_le[of "(block_facts w order idom (walk_upto w order idom n) n, snd (walk_upto w order idom n))"]
  by (simp add: walk_at_def)

lemma walk_at_le_end:
  "plan_le (snd (walk_at w order idom n k)) (snd (walk_upto w order idom (Suc n)))"
proof -
  let ?is = "b_instrs (f_blocks (wk_fn w) ! (order ! n))"
  have "walk_at w order idom n (length ?is) = visit_instrs w (order ! n) (0 + length (take k ?is)) (drop k ?is) (walk_at w order idom n k)"
    using visit_instrs_append[of w "order ! n" 0 "take k ?is" "drop k ?is"
        "(block_facts w order idom (walk_upto w order idom n) n, snd (walk_upto w order idom n))"]
    by (simp add: walk_at_def)
  then have "plan_le (snd (walk_at w order idom n k)) (snd (walk_at w order idom n (length ?is)))"
    using visits_plan_le by metis
  then show ?thesis by (simp add: walk_upto_Suc Let_def case_prod_beta)
qed

lemma walk_upto_le: "n \<le> l \<Longrightarrow> plan_le (snd (walk_upto w order idom n)) (snd (walk_upto w order idom l))"
proof (induction l rule: dec_induct)
  case (step l)
  from plan_le_trans[OF step.IH plan_le_trans[OF walk_at_start_le walk_at_le_end]] show ?case .
qed simp

lemma walk_at_le_plan:
  assumes "n < length order"
  shows "plan_le (snd (walk_at w order idom n k)) (bounds_walk w order idom)"
  using plan_le_trans[OF walk_at_le_end walk_upto_le[of "Suc n" "length order"]] assms by (simp add: walk_plan)

text \<open>Whatever a plan holds was put there at some point.\<close>

lemma walk_induct:
  assumes start: "P no_plan"
    and step: "\<And>n k. n < length order \<Longrightarrow> k < length (b_instrs (f_blocks (wk_fn w) ! (order ! n))) \<Longrightarrow>
      P (snd (walk_at w order idom n k)) \<Longrightarrow> P (snd (walk_at w order idom n (Suc k)))"
  shows "P (bounds_walk w order idom)"
proof -
  have "P (snd (walk_upto w order idom n))" if "n \<le> length order" for n
    using that
  proof (induction n)
    case 0
    then show ?case using start by (simp add: walk_upto_def)
  next
    case (Suc n)
    let ?is = "b_instrs (f_blocks (wk_fn w) ! (order ! n))"
    have "P (snd (walk_at w order idom n k))" if "k \<le> length ?is" for k
      using that
    proof (induction k)
      case 0
      then show ?case using Suc by (simp add: walk_at_0)
    next
      case (Suc k)
      then show ?case using step[of n k] \<open>Suc n \<le> length order\<close> by simp
    qed
    then show ?case by (simp add: walk_upto_Suc Let_def case_prod_beta)
  qed
  then show ?thesis by (simp add: walk_plan)
qed

section \<open>Names of facts are defined before their points\<close>

definition fact_names :: "bounds_facts \<Rightarrow> name set" where
  "fact_names f = fst ` bf_less f \<union> snd ` bf_less f \<union> bf_nonneg f \<union> dom (bf_length f) \<union> v_name ` ran (bf_length f) \<union>
     dom (bf_view f) \<union> v_name ` ran (bf_view f) \<union> fst ` bf_checked f \<union> snd ` bf_checked f"

definition known_before :: "func \<Rightarrow> bounds_facts \<Rightarrow> point \<Rightarrow> bool" where
  "known_before fn f u \<longleftrightarrow> (\<forall>x\<in>fact_names f. defined_before fn x u)"

lemma defs_of_Some:
  assumes "defs_of fn x = Some i"
  shows "i \<in> set (all_instrs fn) \<and> v_name (i_result i) = x \<and> x \<noteq> []"
proof -
  have "fold (\<lambda>i d. if v_name (i_result i) \<noteq> [] then d(v_name (i_result i) \<mapsto> i) else d) is d x = Some i \<Longrightarrow>
      d x = Some i \<or> i \<in> set is \<and> v_name (i_result i) = x \<and> x \<noteq> []" for "is" d
  proof (induction "is" arbitrary: d)
    case (Cons j "is")
    from Cons.IH[of "if v_name (i_result j) \<noteq> [] then d(v_name (i_result j) \<mapsto> j) else d"] Cons.prems
    have "(if v_name (i_result j) \<noteq> [] then d(v_name (i_result j) \<mapsto> j) else d) x = Some i \<or>
      i \<in> set is \<and> v_name (i_result i) = x \<and> x \<noteq> []" by simp
    then show ?case by (cases "v_name (i_result j) \<noteq> [] \<and> v_name (i_result j) = x") (auto split: if_splits)
  qed simp
  from this[of "all_instrs fn" Map.empty] assms show ?thesis by (simp add: defs_of_def)
qed

lemma defs_of_instr:
  assumes "ssa fn" "instr_at fn p k = Some i" "v_name (i_result i) \<noteq> []"
  shows "defs_of fn (v_name (i_result i)) = Some i"
proof -
  let ?x = "v_name (i_result i)"
  have one: "j = i" if "j \<in> set (all_instrs fn)" "v_name (i_result j) = ?x" for j
    using in_all_instrs[OF that(1)] ssa_unique[OF assms(1,2)] that(2) assms(3) by metis
  have "fold (\<lambda>i d. if v_name (i_result i) \<noteq> [] then d(v_name (i_result i) \<mapsto> i) else d) is d ?x = Some i"
    if "set is \<subseteq> set (all_instrs fn)" "d ?x = Some i \<or> i \<in> set is" for "is" d
    using that
  proof (induction "is" arbitrary: d)
    case (Cons j "is")
    show ?case
    proof (cases "v_name (i_result j) = ?x")
      case True
      then have "j = i" using one Cons.prems(1) by simp
      moreover have "fold (\<lambda>i d. if v_name (i_result i) \<noteq> [] then d(v_name (i_result i) \<mapsto> i) else d) is (d(?x \<mapsto> i)) ?x = Some i"
        using Cons.prems(1) by (intro Cons.IH) simp_all
      ultimately show ?thesis using assms(3) by (simp del: fun_upd_apply)
    next
      case False
      with Cons.prems(2) have "d ?x = Some i \<or> i \<in> set is" by auto
      with False Cons.IH[of "if v_name (i_result j) \<noteq> [] then d(v_name (i_result j) \<mapsto> j) else d"] Cons.prems(1)
      show ?thesis by (simp add: fun_upd_def)
    qed
  qed simp
  from this[of "all_instrs fn" Map.empty] instr_at_all[OF assms(2)] show ?thesis by (simp add: defs_of_def)
qed

lemma defined_through: "defined_before fn x d \<Longrightarrow> \<not> avoids fn d u \<Longrightarrow> defined_before fn x u"
  unfolding defined_before_def using avoids_through by blast

lemma defined_next: "defined_before fn x (p, k) \<Longrightarrow> defined_before fn x (p, Suc k)"
  unfolding defined_before_def using avoids_back by blast

lemma defined_at_next:
  assumes "ssa fn" "instr_at fn p k = Some i"
  shows "defined_before fn (v_name (i_result i)) (p, Suc k)"
  unfolding defined_before_def
proof (intro allI impI)
  fix q l j
  assume j: "instr_at fn q l = Some j" "v_name (i_result j) = v_name (i_result i)" "v_name (i_result i) \<noteq> []"
  then have "q = p \<and> l = k" using ssa_unique[OF assms(1) j(1) assms(2)] by simp
  then show "\<not> avoids fn (q, l) (p, Suc k)" using avoids_back by blast
qed

lemma known_next: "known_before fn f (p, k) \<Longrightarrow> known_before fn f (p, Suc k)"
  using defined_next unfolding known_before_def by blast

lemma resolved_before:
  assumes "copy_before fn (lookup_last al)" "defined_before fn x u"
  shows "defined_before fn (resolved_name al x) u"
proof -
  have chain: "resolve n cs v = Some w \<Longrightarrow> copy_before fn cs \<Longrightarrow> defined_before fn (v_name v) u \<Longrightarrow> defined_before fn (v_name w) u" for n cs v w
  proof (induction n arbitrary: v)
    case (Suc n)
    show ?case
    proof (cases "cs (v_name v)")
      case (Some a)
      with replaced_before[OF Suc.prems(2,3)] Suc.IH[of a] Suc.prems show ?thesis by (simp add: replace_value_def)
    qed (use Suc.prems in simp)
  qed (auto split: option.splits)
  show ?thesis using assms chain[OF _ assms(1)] by (auto simp: resolved_name_def split: option.splits)
qed

text \<open>
  What a condition tells: nothing, or that one operand of the comparison is below the other,
  or not below a constant that is not negative.
\<close>

definition ordering :: "string \<Rightarrow> int \<Rightarrow> int \<Rightarrow> bool" where
  "ordering op l r = (if op = ''binary.<'' then l < r else if op = ''binary.<='' then l \<le> r
     else if op = ''binary.>'' then l > r else l \<ge> r)"

definition orderings :: "string list" where
  "orderings = [''binary.<'', ''binary.<='', ''binary.>'', ''binary.>='']"

lemma learn_cases:
  obtains (same) "learn_condition w pl c holds f = f"
  | (below) i j k where "wk_defs w (v_name c) = Some i" "length (i_args i) = 2" "v_type (i_args i ! 0) = ''i64''" "i_op i \<in> set orderings"
      "j < 2" "k < 2" "learn_condition w pl c holds f = f\<lparr>bf_less := insert (resolved_name (bp_aliases pl) (v_name (i_args i ! j)),
         resolved_name (bp_aliases pl) (v_name (i_args i ! k))) (bf_less f)\<rparr>"
      "\<And>v. ordering (i_op i) (v 0) (v 1) = holds \<Longrightarrow> v j < v k"
  | (above) i j k where "wk_defs w (v_name c) = Some i" "length (i_args i) = 2" "v_type (i_args i ! 0) = ''i64''" "i_op i \<in> set orderings"
      "j < 2" "k < 2" "nonneg_constant (wk_defs w) (i_args i ! k)"
      "learn_condition w pl c holds f = f\<lparr>bf_nonneg := insert (resolved_name (bp_aliases pl) (v_name (i_args i ! j))) (bf_nonneg f)\<rparr>"
      "\<And>v. ordering (i_op i) (v 0) (v 1) = holds \<Longrightarrow> v k \<le> v j"
proof (cases "wk_defs w (v_name c)")
  case None
  then show thesis by (intro same) (simp add: learn_condition_def)
next
  case (Some i)
  show thesis
  proof (cases "length (i_args i) \<noteq> 2 \<or> v_type (i_args i ! 0) \<noteq> ''i64''")
    case True
    with Some show thesis by (intro same) (auto simp: learn_condition_def)
  next
    case False
    let ?op = "if holds then i_op i else negated_comparison (i_op i)"
    have lt: "(0::nat) < 2" "(1::nat) < 2" by simp_all
    have args: "length (i_args i) = 2" "v_type (i_args i ! 0) = ''i64''" using False by auto
    have learn: "learn_condition w pl c holds f = (let left = resolved_name (bp_aliases pl) (v_name (i_args i ! 0));
                   right = resolved_name (bp_aliases pl) (v_name (i_args i ! 1))
               in if ?op = ''binary.<'' then f\<lparr>bf_less := insert (left, right) (bf_less f)\<rparr>
                  else if ?op = ''binary.>'' then f\<lparr>bf_less := insert (right, left) (bf_less f)\<rparr>
                  else if ?op = ''binary.>='' then
                    (if nonneg_constant (wk_defs w) (i_args i ! 1) then f\<lparr>bf_nonneg := insert left (bf_nonneg f)\<rparr> else f)
                  else if ?op = ''binary.<='' then
                    (if nonneg_constant (wk_defs w) (i_args i ! 0) then f\<lparr>bf_nonneg := insert right (bf_nonneg f)\<rparr> else f)
                  else f)"
      using Some False by (simp add: learn_condition_def Let_def)
    consider "?op = ''binary.<''" | "?op = ''binary.>''" | "?op = ''binary.>=''" | "?op = ''binary.<=''"
      | "?op \<notin> set orderings" by (fastforce simp: orderings_def)
    then show thesis
    proof cases
      case 1
      then have "i_op i = (if holds then ''binary.<'' else ''binary.>='')"
        by (auto simp: negated_comparison_def split: if_splits)
      with learn 1 show thesis by (intro below[OF Some args _ lt]) (auto simp: Let_def orderings_def ordering_def)
    next
      case 2
      then have "i_op i = (if holds then ''binary.>'' else ''binary.<='')"
        by (auto simp: negated_comparison_def split: if_splits)
      with learn 2 show thesis by (intro below[OF Some args _ lt(2,1)]) (auto simp: Let_def orderings_def ordering_def)
    next
      case 3
      then have op: "i_op i = (if holds then ''binary.>='' else ''binary.<'')"
        by (auto simp: negated_comparison_def split: if_splits)
      show thesis
      proof (cases "nonneg_constant (wk_defs w) (i_args i ! 1)")
        case True
        with learn 3 op show thesis by (intro above[OF Some args _ lt True]) (auto simp: Let_def orderings_def ordering_def)
      next
        case False
        with learn 3 show thesis by (intro same) (simp add: Let_def)
      qed
    next
      case 4
      then have op: "i_op i = (if holds then ''binary.<='' else ''binary.>'')"
        by (auto simp: negated_comparison_def split: if_splits)
      show thesis
      proof (cases "nonneg_constant (wk_defs w) (i_args i ! 0)")
        case True
        with learn 4 op show thesis by (intro above[OF Some args _ lt(2,1) True]) (auto simp: Let_def orderings_def ordering_def)
      next
        case False
        with learn 4 show thesis by (intro same) (simp add: Let_def)
      qed
    next
      case 5
      then have no: "?op \<noteq> ''binary.<''" "?op \<noteq> ''binary.>''" "?op \<noteq> ''binary.>=''" "?op \<noteq> ''binary.<=''"
        unfolding orderings_def by auto
      show thesis by (rule same) (simp only: learn Let_def no if_False)
    qed
  qed
qed

lemma less_names: "fact_names (f\<lparr>bf_less := insert (x, y) (bf_less f)\<rparr>) = insert x (insert y (fact_names f))"
  "fact_names (f\<lparr>bf_nonneg := insert x (bf_nonneg f)\<rparr>) = insert x (fact_names f)"
  by (auto simp: fact_names_def)

lemma learn_names:
  assumes "wk_defs w (v_name c) = Some i"
  shows "fact_names (learn_condition w pl c holds f) \<subseteq> fact_names f \<union>
    (if i_op i \<noteq> ''phi'' then (\<lambda>a. resolved_name (bp_aliases pl) (v_name a)) ` set (i_args i) else {})"
proof -
  have op: "i_op j \<noteq> ''phi''" if "i_op j \<in> set orderings" for j using that by (auto simp: orderings_def)
  show ?thesis
    by (cases rule: learn_cases[of w pl c holds f]) (use assms op in \<open>auto simp: less_names\<close>)
qed

lemma learn_none: "wk_defs w (v_name c) = None \<Longrightarrow> learn_condition w pl c holds f = f"
  by (simp add: learn_condition_def)

lemma learn_known:
  assumes wf: "copy_wf fn" and w: "wk_defs w = defs_of fn" and al: "copy_before fn (lookup_last (bp_aliases pl))"
    and f: "known_before fn f u" and c: "defined_before fn (v_name c) u"
  shows "known_before fn (learn_condition w pl c holds f) u"
proof (cases "wk_defs w (v_name c)")
  case None
  with f show ?thesis by (simp add: learn_none)
next
  case (Some i)
  then have i: "i \<in> set (all_instrs fn)" "v_name (i_result i) = v_name c" "v_name c \<noteq> []"
    using defs_of_Some[of fn "v_name c" i] w by simp_all
  from in_all_instrs[OF i(1)] obtain q l where at: "instr_at fn q l = Some i" by blast
  have passed: "\<not> avoids fn (q, l) u" using c at i(2,3) unfolding defined_before_def by blast
  have "defined_before fn (resolved_name (bp_aliases pl) (v_name a)) u" if "a \<in> set (i_args i)" "i_op i \<noteq> ''phi''" for a
  proof -
    have "a \<in> set (direct_reads i)" using that(1) by (simp add: direct_reads_def)
    then have "defined_before fn (v_name a) (q, l)" using wf at that(2) unfolding copy_wf_def strict_def by metis
    from resolved_before[OF al defined_through[OF this passed]] show ?thesis .
  qed
  with learn_names[OF Some, of pl holds f] f show ?thesis
    unfolding known_before_def by (auto split: if_splits)
qed

lemma known_subset: "known_before fn f u \<Longrightarrow> fact_names g \<subseteq> fact_names f \<Longrightarrow> known_before fn g u"
  unfolding known_before_def by blast

lemma forget_names: "fact_names (forget_headers f) \<subseteq> fact_names f"
  by (auto simp: fact_names_def forget_headers_def)

lemma no_names: "fact_names no_facts = {}"
  by (simp add: fact_names_def no_facts_def)

lemma read_before:
  assumes "copy_wf fn" "instr_at fn p k = Some i" "i_op i \<noteq> ''phi''" "v \<in> set (i_args i)"
  shows "defined_before fn (v_name v) (p, k)"
proof -
  have "v \<in> set (direct_reads i)" using assms(4) by (simp add: direct_reads_def)
  with assms(1-3) show ?thesis unfolding copy_wf_def strict_def by metis
qed

lemma named_result: "ssa fn \<Longrightarrow> instr_at fn p k = Some i \<Longrightarrow> i_op i \<noteq> ''cond_fail'' \<Longrightarrow> v_name (i_result i) \<noteq> []"
  using instr_at_all[of fn p k i] by (auto simp: ssa_def)

lemma length_names:
  "fact_names (f\<lparr>bf_length := (bf_length f)(a \<mapsto> r)\<rparr>) \<subseteq> fact_names f \<union> {a, v_name r}"
  "fact_names (f\<lparr>bf_view := (bf_view f)(a \<mapsto> r)\<rparr>) \<subseteq> fact_names f \<union> {a, v_name r}"
  "fact_names (f\<lparr>bf_checked := insert (a, b) (bf_checked f)\<rparr>) \<subseteq> fact_names f \<union> {a, b}"
  by (auto simp: fact_names_def ran_def split: if_splits)

lemma visit_length_cases:
  assumes "length (i_args i) = 1"
  obtains (aliased) known where "visit_length i (f, pl) = (f, pl\<lparr>bp_aliases := bp_aliases pl @ [(v_name (i_result i), known)]\<rparr>)"
      and "(if i_op i = ''slice.len'' then bf_view f else bf_length f) (v_name (hd (i_args i))) = Some known"
      and "v_type known = v_type (i_result i)"
  | (learnt) "visit_length i (f, pl) = ((if i_op i = ''slice.len'' then f\<lparr>bf_view := (bf_view f)(v_name (hd (i_args i)) \<mapsto> i_result i)\<rparr>
      else f\<lparr>bf_length := (bf_length f)(v_name (hd (i_args i)) \<mapsto> i_result i)\<rparr>), pl)"
proof (cases "(if i_op i = ''slice.len'' then bf_view f else bf_length f) (v_name (hd (i_args i)))")
  case None
  then show ?thesis using assms by (intro learnt) (simp add: visit_length_def Let_def)
next
  case (Some known)
  show ?thesis
  proof (cases "v_type known = v_type (i_result i)")
    case True
    then show ?thesis using assms Some by (intro aliased[OF _ Some]) (simp_all add: visit_length_def Let_def)
  next
    case False
    then show ?thesis using assms Some by (intro learnt) (simp add: visit_length_def Let_def)
  qed
qed

lemma visit_known:
  assumes wf: "copy_wf fn" and w: "wk_defs w = defs_of fn" and at: "instr_at fn p k = Some i"
    and f: "known_before fn f (p, k)" and al: "copy_before fn (lookup_last (bp_aliases pl))"
    and r: "visit_instr w (p, k) i (f, pl) = (f', pl')"
  shows "known_before fn f' (p, Suc k) \<and> copy_before fn (lookup_last (bp_aliases pl'))"
proof -
  have ssa: "ssa fn" using wf by (simp add: copy_wf_def)
  note next_f = known_next[OF f]
  have arg: "defined_before fn (v_name v) (p, Suc k)" if "v \<in> set (i_args i)" "i_op i \<noteq> ''phi''" for v
    using defined_next[OF read_before[OF wf at that(2,1)]] .
  consider (check) "i_op i = ''cond_fail''" | (len) "i_op i = ''array.len'' \<or> i_op i = ''slice.len''"
    | (access) "i_op i \<in> set [''array.get_or_panic'', ''array.set'', ''array.at'', ''array.at_mut'']"
    | (other) "visit_instr w (p, k) i (f, pl) = visit_other w i (f, pl)"
    unfolding visit_instr_def by meson
  then show ?thesis
  proof cases
    case check
    then have v: "visit_cond_fail w (p, k) i (f, pl) = (f', pl')" using r by (simp add: visit_instr_def)
    have "known_before fn (learn_condition w pl (hd (i_args i)) False f) (p, Suc k)" if "i_args i \<noteq> []"
      using that check by (intro learn_known[OF wf w al next_f] arg) auto
    with v next_f al show ?thesis by (auto simp: visit_cond_fail_def split: if_splits)
  next
    case len
    then have v: "visit_length i (f, pl) = (f', pl')" using r by (auto simp: visit_instr_def)
    show ?thesis
    proof (cases "length (i_args i) = 1")
      case False
      with v next_f al show ?thesis by (simp add: visit_length_def)
    next
      case True
      let ?a = "v_name (hd (i_args i))"
      have a: "defined_before fn ?a (p, Suc k)" using True len by (intro arg) (cases "i_args i", auto)
      have named: "v_name (i_result i) \<noteq> []" using named_result[OF ssa at] len by auto
      from True show ?thesis
      proof (cases rule: visit_length_cases[where f = f and pl = pl])
        case (aliased known)
        have "known \<in> ran (bf_length f) \<union> ran (bf_view f)" using aliased(2) by (auto split: if_splits intro: ranI)
        then have "v_name known \<in> fact_names f" unfolding fact_names_def by blast
        then have "defined_before fn (v_name known) (p, k)" using f unfolding known_before_def by blast
        then have "copy_before fn ((lookup_last (bp_aliases pl))(v_name (i_result i) \<mapsto> known))"
          using al at named unfolding copy_before_def by (auto split: if_splits)
        with v aliased(1) next_f show ?thesis by auto
      next
        case learnt
        have "fact_names f' \<subseteq> fact_names f \<union> {?a, v_name (i_result i)}"
          using v learnt length_names(1,2)[where f = f and a = ?a and r = "i_result i"] by (auto split: if_splits)
        with v learnt next_f a defined_at_next[OF ssa at] al show ?thesis unfolding known_before_def by auto
      qed
    qed
  next
    case access
    then have v: "visit_array_check w (p, k) i (f, pl) = (f', pl')" using r by (auto simp: visit_instr_def)
    show ?thesis
    proof (cases "length (i_args i) < 2")
      case True
      with v next_f al show ?thesis by (simp add: visit_array_check_def)
    next
      case False
      then have "i_args i ! 0 \<in> set (i_args i)" "i_args i ! 1 \<in> set (i_args i)" by (intro nth_mem; linarith)+
      then have ai: "defined_before fn (v_name (i_args i ! 0)) (p, Suc k)" "defined_before fn (v_name (i_args i ! 1)) (p, Suc k)"
        using arg access by auto
      have "bp_aliases pl' = bp_aliases pl" "fact_names f' \<subseteq> fact_names f \<union> {v_name (i_args i ! 0), v_name (i_args i ! 1)}"
        using v False length_names(3)[where f = f and a = "v_name (i_args i ! 0)" and b = "v_name (i_args i ! 1)"]
        by (auto simp: visit_array_check_def Let_def split: if_splits)
      with next_f ai al show ?thesis unfolding known_before_def by auto
    qed
  next
    case other
    then have "bp_aliases pl' = bp_aliases pl" "fact_names f' \<subseteq> fact_names f"
      using r forget_names[of f] by (auto simp: visit_other_def Let_def split: if_splits)
    with known_subset[OF next_f] al show ?thesis by simp
  qed
qed

section \<open>The facts of a block\<close>

text \<open>A walk over a well-formed function along its dominator tree.\<close>

definition walks :: "walker \<Rightarrow> func \<Rightarrow> idoms \<Rightarrow> bool" where
  "walks w fn idom \<longleftrightarrow> copy_wf fn \<and> f_blocks fn \<noteq> [] \<and> doms.settled fn idom \<and> wk_fn w = fn \<and> wk_defs w = defs_of fn"

abbreviation facts_at :: "walker \<Rightarrow> idoms \<Rightarrow> nat \<Rightarrow> nat \<Rightarrow> bounds_facts" where
  "facts_at w idom n k \<equiv> fst (walk_at w (reverse_postorder (wk_fn w)) idom n k)"

abbreviation plan_at :: "walker \<Rightarrow> idoms \<Rightarrow> nat \<Rightarrow> nat \<Rightarrow> bounds_plan" where
  "plan_at w idom n k \<equiv> snd (walk_at w (reverse_postorder (wk_fn w)) idom n k)"

definition block_end :: "func \<Rightarrow> nat \<Rightarrow> nat" where
  "block_end fn n = length (b_instrs (f_blocks fn ! (reverse_postorder fn ! n)))"

lemma walks_facts:
  assumes "walks w fn idom"
  shows "wk_fn w = fn" "wk_defs w = defs_of fn" "copy_wf fn" "ssa fn" "strict fn" "block_names_ok fn" "consistent_types fn"
    "f_blocks fn \<noteq> []" "doms.settled fn idom" "tree_upto (length (reverse_postorder fn)) idom" "distinct (reverse_postorder fn)"
  using assms postorder(1)[of fn] by (auto simp: walks_def copy_wf_def doms.settled_def)

text \<open>What a block starts with: nothing, or what its immediate dominator ended with.\<close>

lemma entry_facts: "fst (walk_at w order idom 0 0) = no_facts"
  by (simp add: walk_at_0 block_facts_def)

lemma inner_facts:
  assumes w: "walks w fn idom" and n: "0 < n" "n < length (reverse_postorder fn)"
  obtains d where "d < n" "idom_at idom n = Some d"
    "(let p = reverse_postorder fn ! n; q = reverse_postorder fn ! d; f = facts_at w idom d (block_end fn d);
          preds = block_predecessors fn ! p
      in facts_at w idom n 0 =
        (if preds = [q] then learn_edge w (plan_at w idom n 0) (b_term (f_blocks fn ! q)) (b_name (f_blocks fn ! p)) f
         else if paths_may_write_headers fn p q [] (rev preds) then forget_headers f else f))"
proof -
  note f = walks_facts[OF w]
  from tree_upto_parent[OF f(10) n] obtain d where d: "d < n" "idom_at idom n = Some d" by blast
  have ends: "fst (walk_upto w (reverse_postorder fn) idom n) (reverse_postorder fn ! d) = Some (facts_at w idom d (block_end fn d))"
    using walk_ends[OF f(11) _ d(1), of w idom] n(2) f(1) by (simp add: block_end_def)
  have "0 \<noteq> n" using n(1) by simp
  then show thesis using d ends f(1) by (intro that[OF d]) (simp add: walk_at_0 block_facts_def Let_def)
qed

lemma child_defined:
  assumes w: "walks w fn idom" and n: "n < length (reverse_postorder fn)" "idom_at idom n = Some d" "d < n"
    and "defined_before fn x (end_point fn (reverse_postorder fn ! d))"
  shows "defined_before fn x (reverse_postorder fn ! n, 0)"
  using assms(5) child_passes[OF walks_facts(8,6,9)[OF w] n] unfolding defined_before_def by blast

lemma condition_defined:
  assumes "strict fn" "q < length (f_blocks fn)" "t_op (b_term (f_blocks fn ! q)) = ''branch''"
  shows "defined_before fn (v_name (t_cond (b_term (f_blocks fn ! q)))) (end_point fn q)"
  using assms unfolding strict_def by (simp add: term_reads_def)

lemma block_known:
  assumes w: "walks w fn idom" and n: "n < length (reverse_postorder fn)"
    and al: "copy_before fn (lookup_last (bp_aliases (plan_at w idom n 0)))"
    and ends: "\<And>d. d < n \<Longrightarrow> known_before fn (facts_at w idom d (block_end fn d)) (end_point fn (reverse_postorder fn ! d))"
  shows "known_before fn (facts_at w idom n 0) (reverse_postorder fn ! n, 0)"
proof (cases "n = 0")
  case True
  then show ?thesis by (simp add: entry_facts known_before_def no_names)
next
  case False
  note f = walks_facts[OF w]
  let ?q = "\<lambda>d. reverse_postorder fn ! d"
  obtain d where d: "d < n" "idom_at idom n = Some d" and facts: "(let p = ?q n; q = ?q d; f = facts_at w idom d (block_end fn d);
          preds = block_predecessors fn ! p
      in facts_at w idom n 0 =
        (if preds = [q] then learn_edge w (plan_at w idom n 0) (b_term (f_blocks fn ! q)) (b_name (f_blocks fn ! p)) f
         else if paths_may_write_headers fn p q [] (rev preds) then forget_headers f else f))"
    using inner_facts[OF w _ n] False by blast
  note passed = child_defined[OF w n d(2,1)]
  have known: "known_before fn (facts_at w idom d (block_end fn d)) (?q n, 0)"
    using ends[OF d(1)] passed unfolding known_before_def by blast
  have q: "?q d < length (f_blocks fn)" using postorder(2)[OF f(8)] d(1) n by (meson lessThan_iff nth_mem order.strict_trans subsetD)
  have "known_before fn (learn_edge w (plan_at w idom n 0) (b_term (f_blocks fn ! ?q d)) x (facts_at w idom d (block_end fn d))) (?q n, 0)" for x
    using known learn_known[OF f(3,2) al known passed[OF condition_defined[OF f(5) q]]] by (simp add: learn_edge_def)
  with facts known known_subset[OF known forget_names] show ?thesis by (auto simp: Let_def split: if_splits)
qed

lemma walk_known_upto:
  assumes w: "walks w fn idom"
  shows "n \<le> length (reverse_postorder fn) \<Longrightarrow> copy_before fn (lookup_last (bp_aliases (snd (walk_upto w (reverse_postorder fn) idom n)))) \<and>
    (\<forall>j<n. \<forall>k\<le>block_end fn j. known_before fn (facts_at w idom j k) (reverse_postorder fn ! j, k) \<and>
       copy_before fn (lookup_last (bp_aliases (plan_at w idom j k))))"
proof (induction n)
  case 0
  then show ?case by (simp add: walk_upto_def no_plan_def copy_before_def lookup_last_def)
next
  case (Suc n)
  note f = walks_facts[OF w]
  let ?p = "reverse_postorder fn ! n"
  have p: "?p < length (f_blocks fn)" using postorder(2)[OF f(8)] Suc.prems by (meson Suc_le_lessD lessThan_iff nth_mem subsetD)
  have start: "copy_before fn (lookup_last (bp_aliases (plan_at w idom n 0)))"
    using Suc f(1) by (simp add: walk_at_0)
  have "known_before fn (facts_at w idom d (block_end fn d)) (end_point fn (reverse_postorder fn ! d))" if "d < n" for d
    using Suc that by (simp add: end_point_def block_end_def)
  from block_known[OF w _ start this] have first: "known_before fn (facts_at w idom n 0) (?p, 0)" using Suc.prems by simp
  have here: "known_before fn (facts_at w idom n k) (?p, k) \<and> copy_before fn (lookup_last (bp_aliases (plan_at w idom n k)))"
    if "k \<le> block_end fn n" for k
    using that
  proof (induction k)
    case (Suc k)
    then have k: "k < length (b_instrs (f_blocks fn ! ?p))" by (simp add: block_end_def)
    then have at: "instr_at fn ?p k = Some (b_instrs (f_blocks fn ! ?p) ! k)" using p by (simp add: instr_at_def)
    obtain g pl where g: "walk_at w (reverse_postorder fn) idom n k = (g, pl)" by fastforce
    obtain g' pl' where g': "walk_at w (reverse_postorder fn) idom n (Suc k) = (g', pl')" by fastforce
    have "visit_instr w (?p, k) (b_instrs (f_blocks fn ! ?p) ! k) (g, pl) = (g', pl')"
      using walk_at_Suc[of k w "reverse_postorder fn" n idom] k f(1) g g' by simp
    from visit_known[OF f(3,2) at _ _ this] Suc g g' f(1) show ?case by simp
  qed (use first start in simp)
  moreover have "snd (walk_upto w (reverse_postorder fn) idom (Suc n)) = plan_at w idom n (block_end fn n)"
    using f(1) by (simp add: walk_upto_Suc Let_def case_prod_beta block_end_def)
  ultimately show ?case using Suc f(1) by (auto simp: less_Suc_eq)
qed

lemma walk_known:
  assumes "walks w fn idom" "n < length (reverse_postorder fn)" "k \<le> block_end fn n"
  shows "known_before fn (facts_at w idom n k) (reverse_postorder fn ! n, k)"
    and "copy_before fn (lookup_last (bp_aliases (plan_at w idom n k)))"
    and "copy_before fn (lookup_last (bp_aliases (bounds_walk w (reverse_postorder fn) idom)))"
  using walk_known_upto[OF assms(1), of "length (reverse_postorder fn)"] assms(2,3) by (simp_all add: walk_plan)

section \<open>Paths that leave headers alone\<close>

text \<open>\<open>leads fn d u w\<close>: one or more edges lead from \<open>w\<close> to \<open>u\<close>, and none of the points they come to is \<open>d\<close>.\<close>

inductive leads :: "func \<Rightarrow> point \<Rightarrow> point \<Rightarrow> point \<Rightarrow> bool" for fn d u where
  last_edge: "edge fn w u \<Longrightarrow> u \<noteq> d \<Longrightarrow> leads fn d u w"
| edge_before: "leads fn d u v \<Longrightarrow> v \<noteq> d \<Longrightarrow> edge fn w v \<Longrightarrow> leads fn d u w"

definition quiet :: "func \<Rightarrow> point \<Rightarrow> point \<Rightarrow> bool" where
  "quiet fn d u \<longleftrightarrow> (\<forall>p k i. leads fn d u (p, k) \<longrightarrow> instr_at fn p k = Some i \<longrightarrow> leaves_headers (i_op i))"

lemma leads_further: "leads fn d u w \<Longrightarrow> u \<noteq> d \<Longrightarrow> edge fn u v \<Longrightarrow> v \<noteq> d \<Longrightarrow> leads fn d v w"
  by (induction rule: leads.induct) (auto intro: leads.intros)

lemma quiet_back:
  assumes "quiet fn d v" "edge fn u v" "v \<noteq> d" "u \<noteq> d"
  shows "quiet fn d u"
  using assms leads_further unfolding quiet_def by blast

lemma quiet_here: "quiet fn d v \<Longrightarrow> edge fn (p, k) v \<Longrightarrow> v \<noteq> d \<Longrightarrow> instr_at fn p k = Some i \<Longrightarrow> leaves_headers (i_op i)"
  unfolding quiet_def using last_edge by blast

text \<open>What the search backwards has found when it found no write.\<close>

lemma paths_closed:
  assumes "\<not> paths_may_write_headers fn p q seen stack"
  shows "\<exists>S. set seen \<subseteq> S \<and> set stack \<subseteq> insert q S \<and>
    (\<forall>b\<in>S - set seen. b \<noteq> q \<and> list_all (\<lambda>i. leaves_headers (i_op i)) (b_instrs (f_blocks fn ! b)) \<and>
       (b \<noteq> p \<longrightarrow> set (block_predecessors fn ! b) \<subseteq> insert q S))"
  using assms
proof (induction fn p q seen stack rule: paths_may_write_headers.induct)
  case (1 fn p q seen)
  then show ?case by (intro exI[of _ "set seen"]) simp
next
  case (2 fn p q seen b stack)
  show ?case
  proof (cases "b = q \<or> b \<in> set seen")
    case True
    with 2 obtain S where "set seen \<subseteq> S" "set stack \<subseteq> insert q S"
      "\<forall>b\<in>S - set seen. b \<noteq> q \<and> list_all (\<lambda>i. leaves_headers (i_op i)) (b_instrs (f_blocks fn ! b)) \<and>
         (b \<noteq> p \<longrightarrow> set (block_predecessors fn ! b) \<subseteq> insert q S)"
      by (auto simp: paths_may_write_headers.simps(2))
    with True show ?thesis by (intro exI[of _ S]) auto
  next
    case False
    with 2(3) have lim: "\<not> forward_visit_limit < Suc (length seen)"
      and ok: "list_all (\<lambda>i. leaves_headers (i_op i)) (b_instrs (f_blocks fn ! b))"
      and rest: "\<not> paths_may_write_headers fn p q (b # seen) (if b = p then stack else rev (block_predecessors fn ! b) @ stack)"
      by (auto simp: paths_may_write_headers.simps(2) split: if_splits)
    from 2(2)[OF False lim _ rest] ok obtain S where S: "set (b # seen) \<subseteq> S"
      "set (if b = p then stack else rev (block_predecessors fn ! b) @ stack) \<subseteq> insert q S"
      "\<forall>c\<in>S - set (b # seen). c \<noteq> q \<and> list_all (\<lambda>i. leaves_headers (i_op i)) (b_instrs (f_blocks fn ! c)) \<and>
         (c \<noteq> p \<longrightarrow> set (block_predecessors fn ! c) \<subseteq> insert q S)" by auto
    have "set stack \<subseteq> insert q S" "b \<noteq> p \<longrightarrow> set (block_predecessors fn ! b) \<subseteq> insert q S"
      using S(2) by (auto split: if_splits)
    with S(1,3) ok False show ?thesis by (intro exI[of _ S]) auto
  qed
qed

lemma predecessor_edge:
  assumes "edge fn (b, k) (p, 0)" "\<not> k < length (b_instrs (f_blocks fn ! b))" "block_names_ok fn"
  shows "b \<in> set (block_predecessors fn ! p)"
proof -
  from edge_successor[OF assms] have s: "p \<in> set (succ_positions fn b)" by auto
  have "b < length (f_blocks fn)" using assms(1) by (simp add: edge_def)
  moreover from this have "p < length (f_blocks fn)" using succ_positions_bound[of fn b] s by auto
  ultimately show ?thesis using predecessors_iff s by blast
qed

lemma leads_inside:
  assumes names: "block_names_ok fn" and "leads fn (end_point fn q) (p, 0) w"
    and "set (block_predecessors fn ! p) \<subseteq> insert q S"
    and "\<And>b. b \<in> S \<Longrightarrow> b \<noteq> p \<Longrightarrow> set (block_predecessors fn ! b) \<subseteq> insert q S"
    and "q \<notin> S" and "snd w \<le> length (b_instrs (f_blocks fn ! fst w))"
  shows "w = end_point fn q \<or> fst w \<in> S"
  using assms(2,6)
proof (induction rule: leads.induct)
  case (last_edge w)
  obtain b k where w: "w = (b, k)" by (cases w)
  have k: "\<not> k < length (b_instrs (f_blocks fn ! b))" using last_edge(1) w by (auto simp: edge_def split: if_splits)
  from predecessor_edge[OF _ k names] last_edge(1) w assms(3) have "b = q \<or> b \<in> S" by blast
  then show ?case using w k last_edge(3) by (auto simp: end_point_def)
next
  case (edge_before v w)
  obtain b k where w: "w = (b, k)" by (cases w)
  have v: "snd v \<le> length (b_instrs (f_blocks fn ! fst v))"
    using edge_before(3) w by (auto simp: edge_def split: if_splits)
  with edge_before(2,4) have S: "fst v \<in> S" by blast
  show ?case
  proof (cases "k < length (b_instrs (f_blocks fn ! b))")
    case True
    with edge_before(3) w S show ?thesis by (auto simp: edge_def)
  next
    case False
    with edge_before(3) w obtain c where c: "v = (c, 0)" by (auto simp: edge_def split: if_splits)
    have "b \<in> set (block_predecessors fn ! c)" using predecessor_edge[OF _ False names] edge_before(3) w c by simp
    then have "b = q \<or> b \<in> S" using assms(3) assms(4)[of c] S c by (cases "c = p") auto
    then show ?thesis using w False edge_before(5) by (auto simp: end_point_def)
  qed
qed

lemma avoids_end:
  assumes "block_names_ok fn"
  shows "avoids fn (end_point fn q) u \<Longrightarrow> fst u = q \<or> (\<exists>ps. block_path fn ps (fst u) \<and> q \<notin> set ps)"
proof (induction rule: avoids.induct)
  case entry
  show ?case using path_entry[of fn] by (intro disjI2 exI[of _ "[]"]) simp
next
  case (onward u w)
  obtain b k where u: "u = (b, k)" by (cases u)
  show ?case
  proof (cases "k < length (b_instrs (f_blocks fn ! b))")
    case True
    with onward.hyps(3) u have "fst w = b" by (auto simp: edge_def)
    with onward.IH u show ?thesis by simp
  next
    case False
    have "k \<le> length (b_instrs (f_blocks fn ! b))" using avoids_bound[OF onward.hyps(1)] u by simp
    with False u onward.hyps(2) have "b \<noteq> q" by (auto simp: end_point_def)
    with onward.IH u obtain ps where ps: "block_path fn ps b" "q \<notin> set ps" by auto
    from edge_successor[OF _ False assms] onward.hyps(3) u obtain c where "w = (c, 0)" "c \<in> set (succ_positions fn b)" by blast
    with path_step[OF ps(1)] ps(2) \<open>b \<noteq> q\<close> show ?thesis by (intro disjI2 exI[of _ "b # ps"]) simp
  qed
qed

text \<open>Control comes to a block over the end of its immediate dominator.\<close>

lemma child_after:
  assumes w: "walks w fn idom" and c: "c < length (reverse_postorder fn)" "idom_at idom c = Some d" "d < c"
  shows "\<not> avoids fn (end_point fn (reverse_postorder fn ! d)) (reverse_postorder fn ! c, 0)"
proof
  note f = walks_facts[OF w]
  assume "avoids fn (end_point fn (reverse_postorder fn ! d)) (reverse_postorder fn ! c, 0)"
  moreover have "reverse_postorder fn ! c \<noteq> reverse_postorder fn ! d" using f(11) c by (simp add: nth_eq_iff_index_eq)
  ultimately obtain ps where "block_path fn ps (reverse_postorder fn ! c)" "reverse_postorder fn ! d \<notin> set ps"
    using avoids_end[OF f(6)] by force
  with on_tree_path[OF f(8,9) c] show False by blast
qed

lemma child_quiet:
  assumes w: "walks w fn idom" and n: "0 < n" "n < length (reverse_postorder fn)"
    and clean: "block_predecessors fn ! (reverse_postorder fn ! n) = [q] \<or>
      \<not> paths_may_write_headers fn (reverse_postorder fn ! n) q [] (rev (block_predecessors fn ! (reverse_postorder fn ! n)))"
  shows "quiet fn (end_point fn q) (reverse_postorder fn ! n, 0)"
proof -
  let ?p = "reverse_postorder fn ! n"
  note f = walks_facts[OF w]
  obtain S where S: "set (block_predecessors fn ! ?p) \<subseteq> insert q S"
    "\<forall>b\<in>S. b \<noteq> q \<and> list_all (\<lambda>i. leaves_headers (i_op i)) (b_instrs (f_blocks fn ! b)) \<and>
       (b \<noteq> ?p \<longrightarrow> set (block_predecessors fn ! b) \<subseteq> insert q S)"
  proof (cases "block_predecessors fn ! ?p = [q]")
    case True
    then show thesis by (intro that[of "{}"]) simp_all
  next
    case False
    with clean paths_closed[of fn ?p q "[]" "rev (block_predecessors fn ! ?p)"] that show thesis by auto
  qed
  show ?thesis unfolding quiet_def
  proof (intro allI impI)
    fix b k i
    assume leads: "leads fn (end_point fn q) (?p, 0) (b, k)" and at: "instr_at fn b k = Some i"
    have k: "b < length (f_blocks fn)" "k < length (b_instrs (f_blocks fn ! b))" "i = b_instrs (f_blocks fn ! b) ! k"
      using at by (auto simp: instr_at_def split: if_splits)
    have "(b, k) = end_point fn q \<or> fst (b, k) \<in> S"
      using S k by (intro leads_inside[OF f(6) leads]) auto
    with k(2) have "b \<in> S" by (auto simp: end_point_def)
    with S(2) k show "leaves_headers (i_op i)" by (auto simp: list_all_iff)
  qed
qed

section \<open>Where a plan comes from\<close>

definition visited_at :: "walker \<Rightarrow> idoms \<Rightarrow> nat \<Rightarrow> nat \<Rightarrow> instr \<Rightarrow> bool" where
  "visited_at w idom n k i \<longleftrightarrow> n < length (reverse_postorder (wk_fn w)) \<and>
     instr_at (wk_fn w) (reverse_postorder (wk_fn w) ! n) k = Some i"

lemma visited_Suc:
  assumes "visited_at w idom n k i"
  shows "walk_at w (reverse_postorder (wk_fn w)) idom n (Suc k) =
    visit_instr w (reverse_postorder (wk_fn w) ! n, k) i (walk_at w (reverse_postorder (wk_fn w)) idom n k)"
  using assms by (auto simp: visited_at_def instr_at_def walk_at_Suc split: if_splits)

lemma plan_induct:
  assumes w: "walks w fn idom" and start: "P no_plan"
    and step: "\<And>n k i. visited_at w idom n k i \<Longrightarrow> P (plan_at w idom n k) \<Longrightarrow>
      P (snd (visit_instr w (reverse_postorder fn ! n, k) i (walk_at w (reverse_postorder (wk_fn w)) idom n k)))"
  shows "P (bounds_walk w (reverse_postorder fn) idom)"
proof (rule walk_induct[where P = P, OF start])
  note f = walks_facts[OF w]
  fix n k
  assume n: "n < length (reverse_postorder fn)" and k: "k < length (b_instrs (f_blocks (wk_fn w) ! (reverse_postorder fn ! n)))"
    and P: "P (snd (walk_at w (reverse_postorder fn) idom n k))"
  have "reverse_postorder fn ! n < length (f_blocks fn)" using postorder(2)[OF f(8)] n by (meson lessThan_iff nth_mem subsetD)
  then have v: "visited_at w idom n k (b_instrs (f_blocks fn ! (reverse_postorder fn ! n)) ! k)"
    using n k f(1) by (simp add: visited_at_def instr_at_def)
  from step[OF v] P visited_Suc[OF v] f(1) show "P (snd (walk_at w (reverse_postorder fn) idom n (Suc k)))" by simp
qed

lemma visit_plan:
  "bp_drops (snd (visit_instr w u i st)) =
     (if i_op i = ''cond_fail'' \<and> i_args i \<noteq> [] \<and> check_answered w (snd st) (fst st) (hd (i_args i)) then u # bp_drops (snd st) else bp_drops (snd st))"
  "bp_answered (snd (visit_instr w u i st)) =
     (if i_op i \<in> set [''array.get_or_panic'', ''array.set'', ''array.at'', ''array.at_mut''] \<and> 2 \<le> length (i_args i) \<and>
         access_answered w (snd st) (fst st) (i_args i ! 0) (i_args i ! 1) \<and> prefix ''&'' (v_type (i_args i ! 0))
      then u # bp_answered (snd st) else bp_answered (snd st))"
  "bp_aliases (snd (visit_instr w u i st)) =
     (if i_op i \<in> set [''array.len'', ''slice.len''] then bp_aliases (snd (visit_length i st)) else bp_aliases (snd st))"
  by (cases st; simp add: visit_instr_def visit_cond_fail_def visit_length_def visit_array_check_def visit_other_def Let_def split: option.splits)+

lemma drops_origin:
  assumes w: "walks w fn idom" and "u \<in> set (bp_drops (bounds_walk w (reverse_postorder fn) idom))"
  shows "\<exists>n k i. visited_at w idom n k i \<and> u = (reverse_postorder fn ! n, k) \<and> i_op i = ''cond_fail'' \<and> i_args i \<noteq> [] \<and>
    check_answered w (plan_at w idom n k) (facts_at w idom n k) (hd (i_args i))"
proof -
  let ?P = "\<lambda>pl. u \<in> set (bp_drops pl) \<longrightarrow> (\<exists>n k i. visited_at w idom n k i \<and> u = (reverse_postorder fn ! n, k) \<and>
    i_op i = ''cond_fail'' \<and> i_args i \<noteq> [] \<and> check_answered w (plan_at w idom n k) (facts_at w idom n k) (hd (i_args i)))"
  have "?P (bounds_walk w (reverse_postorder fn) idom)"
    by (rule plan_induct[OF w]) (auto simp: no_plan_def visit_plan)
  with assms(2) show ?thesis by blast
qed

lemma answered_origin:
  assumes w: "walks w fn idom" and "u \<in> set (bp_answered (bounds_walk w (reverse_postorder fn) idom))"
  shows "\<exists>n k i. visited_at w idom n k i \<and> u = (reverse_postorder fn ! n, k) \<and> 2 \<le> length (i_args i) \<and>
    i_op i \<in> set [''array.get_or_panic'', ''array.set'', ''array.at'', ''array.at_mut''] \<and>
    access_answered w (plan_at w idom n k) (facts_at w idom n k) (i_args i ! 0) (i_args i ! 1)"
proof -
  let ?P = "\<lambda>pl. u \<in> set (bp_answered pl) \<longrightarrow> (\<exists>n k i. visited_at w idom n k i \<and> u = (reverse_postorder fn ! n, k) \<and>
    2 \<le> length (i_args i) \<and> i_op i \<in> set [''array.get_or_panic'', ''array.set'', ''array.at'', ''array.at_mut''] \<and>
    access_answered w (plan_at w idom n k) (facts_at w idom n k) (i_args i ! 0) (i_args i ! 1))"
  have "?P (bounds_walk w (reverse_postorder fn) idom)"
    by (rule plan_induct[OF w]) (auto simp: no_plan_def visit_plan)
  with assms(2) show ?thesis by blast
qed

definition length_known :: "instr \<Rightarrow> bounds_facts \<Rightarrow> ir_value \<Rightarrow> bool" where
  "length_known i f known \<longleftrightarrow> i_op i \<in> set [''array.len'', ''slice.len''] \<and> length (i_args i) = 1 \<and> v_type known = v_type (i_result i) \<and>
     (if i_op i = ''slice.len'' then bf_view f else bf_length f) (v_name (hd (i_args i))) = Some known"

lemma visit_aliases:
  "bp_aliases (snd (visit_instr w u i st)) = bp_aliases (snd st) \<or>
   (\<exists>known. length_known i (fst st) known \<and> bp_aliases (snd (visit_instr w u i st)) = bp_aliases (snd st) @ [(v_name (i_result i), known)])"
proof (cases "i_op i \<in> set [''array.len'', ''slice.len''] \<and> length (i_args i) = 1")
  case True
  then have one: "length (i_args i) = 1" by simp
  show ?thesis
  proof (cases rule: visit_length_cases[OF one, of "fst st" "snd st"])
    case (1 known)
    with True show ?thesis by (intro disjI2 exI[of _ known]) (simp add: length_known_def visit_plan)
  next
    case 2
    with True show ?thesis by (intro disjI1) (simp add: visit_plan)
  qed
next
  case False
  then show ?thesis by (cases st; intro disjI1) (auto simp: visit_plan visit_length_def)
qed

lemma aliases_origin:
  assumes w: "walks w fn idom" and "(x, known) \<in> set (bp_aliases (bounds_walk w (reverse_postorder fn) idom))"
  shows "\<exists>n k i. visited_at w idom n k i \<and> v_name (i_result i) = x \<and> length_known i (facts_at w idom n k) known"
proof -
  let ?P = "\<lambda>pl. (x, known) \<in> set (bp_aliases pl) \<longrightarrow>
    (\<exists>n k i. visited_at w idom n k i \<and> v_name (i_result i) = x \<and> length_known i (facts_at w idom n k) known)"
  have "?P (bounds_walk w (reverse_postorder fn) idom)"
  proof (rule plan_induct[OF w])
    fix n k i
    assume v: "visited_at w idom n k i" and P: "?P (plan_at w idom n k)"
    show "?P (snd (visit_instr w (reverse_postorder fn ! n, k) i (walk_at w (reverse_postorder (wk_fn w)) idom n k)))"
    proof (cases "(x, known) \<in> set (bp_aliases (plan_at w idom n k))")
      case True
      with P show ?thesis by simp
    next
      case False
      with visit_aliases[of w "(reverse_postorder fn ! n, k)" i "walk_at w (reverse_postorder (wk_fn w)) idom n k"]
      have "length_known i (facts_at w idom n k) known \<and> x = v_name (i_result i)"
        if "(x, known) \<in> set (bp_aliases (snd (visit_instr w (reverse_postorder fn ! n, k) i (walk_at w (reverse_postorder (wk_fn w)) idom n k))))"
        using that by auto
      with v show ?thesis by blast
    qed
  qed (simp add: no_plan_def)
  with assms(2) show ?thesis by blast
qed

text \<open>The plan of a point is part of the plan of the walk.\<close>

lemma plan_at_le:
  assumes "walks w fn idom" "n < length (reverse_postorder fn)"
  shows "set (bp_aliases (plan_at w idom n k)) \<subseteq> set (bp_aliases (bounds_walk w (reverse_postorder fn) idom))"
  using walk_at_le_plan[OF assms(2), of w idom k] walks_facts(1)[OF assms(1)] by (auto simp: plan_le_def dest: set_mono_prefix)

text \<open>In the plan that stands every step that feeds a counter has a bound above it.\<close>

lemma step_bounded:
  assumes w: "walks w fn idom" and v: "visited_at w idom n k i" and i: "i_op i = ''binary.+''"
    and fed: "steps_into fn (wk_counters w) (v_name (i_result i)) \<noteq> []" and stp: "step_of (defs_of fn) (v_name (i_result i)) = Some x"
    and settled: "bp_unsafe (bounds_walk w (reverse_postorder fn) idom) = []"
  shows "has_upper_bound (facts_at w idom n k) x"
proof (rule ccontr)
  assume no: "\<not> ?thesis"
  note f = walks_facts[OF w]
  have n: "n < length (reverse_postorder fn)" using v f(1) by (simp add: visited_at_def)
  have "set (bp_unsafe (plan_at w idom n (Suc k))) = {}"
    using walk_at_le_plan[OF n, of w idom "Suc k"] settled f(1) by (auto simp: plan_le_def)
  moreover have "bp_unsafe (plan_at w idom n (Suc k)) = steps_into fn (wk_counters w) (v_name (i_result i)) @ bp_unsafe (plan_at w idom n k)"
    using visited_Suc[OF v] no fed stp i f(1,2) by (cases "walk_at w (reverse_postorder fn) idom n k") (simp add: visit_instr_def visit_other_def)
  ultimately show False using fed by simp
qed

end
