(* ===== verification/Bounds_Sound.thy ===== *)
theory Bounds_Sound
  imports Bounds_Walk
begin

text \<open>
  What the walk of theory Bounds knows holds: in every state a call reaches, the facts of the
  point it has reached are true of its values and its memory, so a dropped check cannot fail
  and an answered access is in bounds. Facts about values stay true once their point has been
  passed, since definitions are on every path to their uses; facts about array headers stay
  true along the paths that leave headers alone.
\<close>


section \<open>What the machine promises of arrays and views\<close>

text \<open>
  \<open>hdr\<close> reads the length of the array a reference names out of the memory, and \<open>vlen\<close> the
  length of a view, which no memory changes. A length read yields it; a checked read yields
  only inside it; a failing check does not yield; and the operations the code lists as
  leaving headers alone do. The orderings of two i64 have a fixed meaning, so the machine has
  none of its own for them, nor for their sum.
\<close>

definition array_laws :: "('v, 's) machine \<Rightarrow> ('s \<Rightarrow> 'v val \<Rightarrow> int) \<Rightarrow> ('v val \<Rightarrow> int) \<Rightarrow> bool" where
  "array_laws m hdr vlen \<longleftrightarrow>
     (\<forall>i vals s x s'. mc_op m i vals s = Some (Yield x s') \<longrightarrow>
        (leaves_headers (i_op i) \<longrightarrow> (\<forall>v. hdr s' v = hdr s v)) \<and>
        (i_op i = ''array.len'' \<longrightarrow> (\<forall>v. vals = [v] \<longrightarrow> (\<exists>a. x = IntV a \<and> sint a = hdr s v \<and> 0 \<le> sint a))) \<and>
        (i_op i = ''slice.len'' \<longrightarrow> (\<forall>v. vals = [v] \<longrightarrow> (\<exists>a. x = IntV a \<and> sint a = vlen v \<and> 0 \<le> sint a))) \<and>
        (i_op i = ''array.get_or_panic'' \<longrightarrow> (\<forall>v z vs. vals = v # z # vs \<longrightarrow> (\<exists>a. z = IntV a \<and> 0 \<le> sint a \<and> sint a < hdr s v))) \<and>
        (i_op i = ''cond_fail'' \<longrightarrow> (\<forall>c vs. vals = c # vs \<longrightarrow> c = BoolV False)) \<and>
        \<not> (i_op i \<in> set (''binary.+'' # orderings) \<and> list_all (\<lambda>a. v_type a = ''i64'') (i_args i)))"

section \<open>Functions the walk is meant for\<close>

text \<open>The arrays and views whose lengths and elements a function reads.\<close>

definition container_ops :: "string list" where
  "container_ops = [''array.len'', ''slice.len'', ''array.get_or_panic'', ''array.set'', ''array.at'', ''array.at_mut'']"

definition containers :: "func \<Rightarrow> ir_value list" where
  "containers fn = map (\<lambda>i. hd (i_args i)) (filter (\<lambda>i. i_op i \<in> set container_ops \<and> i_args i \<noteq> []) (all_instrs fn))"

text \<open>
  A comparison of an i64 is one of two i64, a sum that is an i64 is one of two i64, an index
  is an i64, a length has one operand, an access has no cleanups, a container is read with
  one type, and no instruction is an \<^verbatim>\<open>array.set\<close>, whose failure the pass overlooks (\<open>failed_set_answers\<close>).
\<close>

definition index_wf :: "instr \<Rightarrow> bool" where
  "index_wf i \<longleftrightarrow>
     i_op i \<noteq> ''array.set'' \<and>
     (i_op i \<in> set orderings \<and> i_args i \<noteq> [] \<and> v_type (hd (i_args i)) = ''i64'' \<longrightarrow>
        list_all (\<lambda>a. v_type a = ''i64'') (i_args i) \<and> v_type (i_result i) = ''bool'') \<and>
     (i_op i = ''binary.+'' \<and> v_type (i_result i) = ''i64'' \<longrightarrow> list_all (\<lambda>a. v_type a = ''i64'') (i_args i)) \<and>
     (i_op i = ''array.len'' \<or> i_op i = ''slice.len'' \<longrightarrow> length (i_args i) = 1) \<and>
     (i_op i \<in> set container_ops \<longrightarrow> i_fields i = [] \<and> i_cleanups i = [] \<and> list_all (\<lambda>a. v_type a = ''i64'') (take 1 (drop 1 (i_args i))))"

definition bounds_wf :: "func \<Rightarrow> bool" where
  "bounds_wf fn \<longleftrightarrow> copy_wf fn \<and> list_all index_wf (all_instrs fn) \<and>
     (\<forall>c\<in>set (containers fn). \<forall>d\<in>set (containers fn). v_name c = v_name d \<longrightarrow> c = d)"

section \<open>Facts that hold in a state\<close>

definition int_of :: "('v, 's) machine \<Rightarrow> 'v env \<Rightarrow> name \<Rightarrow> int option" where
  "int_of m env x = (case operand m env \<lparr>v_name = x, v_type = ''i64''\<rparr> of Some (IntV a) \<Rightarrow> Some (sint a) | _ \<Rightarrow> None)"

definition holds_int :: "'v env \<Rightarrow> name \<Rightarrow> int \<Rightarrow> bool" where
  "holds_int env x n \<longleftrightarrow> (\<exists>a. env x = Some (IntV a) \<and> sint a = n)"

definition values_hold :: "('v, 's) machine \<Rightarrow> func \<Rightarrow> ('v val \<Rightarrow> int) \<Rightarrow> bounds_facts \<Rightarrow> 'v env \<Rightarrow> bool" where
  "values_hold m fn vlen f env \<longleftrightarrow>
     (\<forall>(x, y)\<in>bf_less f. \<exists>a b. int_of m env x = Some a \<and> int_of m env y = Some b \<and> a < b) \<and>
     (\<forall>x\<in>bf_nonneg f. \<exists>a. int_of m env x = Some a \<and> 0 \<le> a) \<and>
     (\<forall>c\<in>set (containers fn). \<forall>r. bf_view f (v_name c) = Some r \<longrightarrow>
        (\<exists>v. operand m env c = Some v \<and> holds_int env (v_name r) (vlen v)))"

definition headers_hold :: "('v, 's) machine \<Rightarrow> func \<Rightarrow> ('s \<Rightarrow> 'v val \<Rightarrow> int) \<Rightarrow> bounds_facts \<Rightarrow> 'v env \<Rightarrow> 's \<Rightarrow> bool" where
  "headers_hold m fn hdr f env s \<longleftrightarrow>
     (\<forall>c\<in>set (containers fn). \<forall>r. bf_length f (v_name c) = Some r \<longrightarrow>
        (\<exists>v. operand m env c = Some v \<and> holds_int env (v_name r) (hdr s v))) \<and>
     (\<forall>c\<in>set (containers fn). \<forall>x. (v_name c, x) \<in> bf_checked f \<longrightarrow>
        (\<exists>v a. operand m env c = Some v \<and> int_of m env x = Some a \<and> 0 \<le> a \<and> a < hdr s v))"

lemma no_facts_hold: "values_hold m fn vlen no_facts env" "headers_hold m fn hdr no_facts env s"
  by (simp_all add: values_hold_def headers_hold_def no_facts_def)

lemma forgotten_hold: "headers_hold m fn hdr (forget_headers f) env s" "values_hold m fn vlen (forget_headers f) env = values_hold m fn vlen f env"
  by (simp_all add: values_hold_def headers_hold_def forget_headers_def)

text \<open>Facts speak of their names only.\<close>

lemma operand_name: "env' (v_name v) = env (v_name v) \<Longrightarrow> operand m env' v = operand m env v"
  by (simp add: operand_def)

lemma int_of_name: "env' x = env x \<Longrightarrow> int_of m env' x = int_of m env x"
  by (simp add: int_of_def operand_def)

lemma fact_names_in:
  shows "(x, y) \<in> bf_less f \<Longrightarrow> x \<in> fact_names f \<and> y \<in> fact_names f" and "x \<in> bf_nonneg f \<Longrightarrow> x \<in> fact_names f"
    and "bf_view f x = Some r \<Longrightarrow> x \<in> fact_names f \<and> v_name r \<in> fact_names f"
    and "bf_length f x = Some r \<Longrightarrow> x \<in> fact_names f \<and> v_name r \<in> fact_names f"
    and "(x, y) \<in> bf_checked f \<Longrightarrow> x \<in> fact_names f \<and> y \<in> fact_names f"
proof -
  have pair: "x \<in> fst ` A \<and> y \<in> snd ` A" if "(x, y) \<in> A" for A :: "(name \<times> name) set"
    using that by (metis fst_conv snd_conv imageI)
  have map: "x \<in> dom g \<and> v_name r \<in> v_name ` ran g" if "g x = Some r" for g :: "name \<rightharpoonup> ir_value"
    using that ranI[of g x r] by blast
  show "(x, y) \<in> bf_less f \<Longrightarrow> x \<in> fact_names f \<and> y \<in> fact_names f" "(x, y) \<in> bf_checked f \<Longrightarrow> x \<in> fact_names f \<and> y \<in> fact_names f"
    unfolding fact_names_def using pair by blast+
  show "bf_view f x = Some r \<Longrightarrow> x \<in> fact_names f \<and> v_name r \<in> fact_names f"
    "bf_length f x = Some r \<Longrightarrow> x \<in> fact_names f \<and> v_name r \<in> fact_names f"
    unfolding fact_names_def using map by blast+
  show "x \<in> bf_nonneg f \<Longrightarrow> x \<in> fact_names f" unfolding fact_names_def by blast
qed

lemma values_kept:
  assumes same: "\<And>x. x \<in> fact_names f \<Longrightarrow> env' x = env x" and hold: "values_hold m fn vlen f env"
  shows "values_hold m fn vlen f env'"
proof -
  note int = int_of_name[of env' _ env, OF same] and op = operand_name[of env' _ env, OF same]
  show ?thesis unfolding values_hold_def
  proof (intro conjI ballI allI impI; (clarify)?)
    fix x y assume "(x, y) \<in> bf_less f"
    moreover from this hold have "\<exists>a b. int_of m env x = Some a \<and> int_of m env y = Some b \<and> a < b"
      unfolding values_hold_def by blast
    ultimately show "\<exists>a b. int_of m env' x = Some a \<and> int_of m env' y = Some b \<and> a < b"
      using int fact_names_in(1)[of x y f] by metis
  next
    fix x assume "x \<in> bf_nonneg f"
    with hold int fact_names_in(2)[of x f] show "\<exists>a. int_of m env' x = Some a \<and> 0 \<le> a"
      unfolding values_hold_def by metis
  next
    fix c r assume c: "c \<in> set (containers fn)" "bf_view f (v_name c) = Some r"
    with hold obtain v where "operand m env c = Some v" "holds_int env (v_name r) (vlen v)" unfolding values_hold_def by blast
    with op[of c m] same[of "v_name r"] fact_names_in(3)[OF c(2)]
    show "\<exists>v. operand m env' c = Some v \<and> holds_int env' (v_name r) (vlen v)" by (simp add: holds_int_def)
  qed
qed

lemma headers_kept:
  assumes same: "\<And>x. x \<in> fact_names f \<Longrightarrow> env' x = env x" and hdr: "\<And>v. hdr s' v = hdr s v"
    and hold: "headers_hold m fn hdr f env s"
  shows "headers_hold m fn hdr f env' s'"
proof -
  note int = int_of_name[of env' _ env, OF same] and op = operand_name[of env' _ env, OF same]
  show ?thesis unfolding headers_hold_def
  proof (intro conjI ballI allI impI)
    fix c r assume c: "c \<in> set (containers fn)" "bf_length f (v_name c) = Some r"
    with hold obtain v where "operand m env c = Some v" "holds_int env (v_name r) (hdr s v)" unfolding headers_hold_def by blast
    with op[of c m] same[of "v_name r"] hdr[of v] fact_names_in(4)[OF c(2)]
    show "\<exists>v. operand m env' c = Some v \<and> holds_int env' (v_name r) (hdr s' v)" by (simp add: holds_int_def)
  next
    fix c x assume c: "c \<in> set (containers fn)" "(v_name c, x) \<in> bf_checked f"
    with hold obtain v a where "operand m env c = Some v" "int_of m env x = Some a" "0 \<le> a" "a < hdr s v"
      unfolding headers_hold_def by blast
    with op[of c m] int[of x m] hdr[of v] fact_names_in(5)[OF c(2)]
    show "\<exists>v a. operand m env' c = Some v \<and> int_of m env' x = Some a \<and> 0 \<le> a \<and> a < hdr s' v" by auto
  qed
qed

section \<open>Reading values in a state\<close>

definition aliases_hold :: "func \<Rightarrow> replacements \<Rightarrow> point \<Rightarrow> 'v env \<Rightarrow> bool" where
  "aliases_hold fn al u env \<longleftrightarrow>
     (\<forall>(x, known)\<in>set al. defined_before fn x u \<longrightarrow> (\<exists>v. env x = Some v \<and> env (v_name known) = Some v))"

lemma resolved_value:
  assumes "aliases_hold fn al u env" "copy_before fn (lookup_last al)" "defined_before fn x u"
  shows "env (resolved_name al x) = env x"
proof -
  have in_al: "(y, known) \<in> set al" if "lookup_last al y = Some known" for y known
    using that by (auto simp: lookup_last_def dest: map_of_SomeD)
  have chain: "resolve n (lookup_last al) v = Some w \<Longrightarrow> defined_before fn (v_name v) u \<Longrightarrow> env (v_name w) = env (v_name v)" for n v w
  proof (induction n arbitrary: v)
    case (Suc n)
    show ?case
    proof (cases "lookup_last al (v_name v)")
      case (Some a)
      from replaced_before[OF assms(2) Suc.prems(2)] Some have "defined_before fn (v_name a) u" by (simp add: replace_value_def)
      moreover have "env (v_name a) = env (v_name v)"
        using assms(1) in_al[OF Some] Suc.prems(2) unfolding aliases_hold_def by fastforce
      ultimately show ?thesis using Suc.IH[of a] Suc.prems Some by simp
    qed (use Suc.prems in simp)
  qed (auto split: option.splits)
  show ?thesis using chain[of "length al" "\<lparr>v_name = x, v_type = []\<rparr>"] assms(3)
    by (auto simp: resolved_name_def split: option.splits)
qed

lemma resolved_int:
  assumes "aliases_hold fn al u env" "copy_before fn (lookup_last al)" "defined_before fn x u"
  shows "int_of m env (resolved_name al x) = int_of m env x"
proof (cases "env x")
  case (Some v)
  with resolved_value[OF assms] show ?thesis by (simp add: int_of_def operand_def)
next
  case None
  have "lookup_last al x = None"
  proof (rule ccontr)
    assume "lookup_last al x \<noteq> None"
    then obtain known where "(x, known) \<in> set al" by (auto simp: lookup_last_def dest: map_of_SomeD)
    with assms(1,3) None show False unfolding aliases_hold_def by fastforce
  qed
  then have "resolved_name al x = x" by (cases "length al") (simp_all add: resolved_name_def)
  then show ?thesis by simp
qed

lemma int_of_i64: "v_type v = ''i64'' \<Longrightarrow> int_of m env (v_name v) = (case operand m env v of Some (IntV a) \<Rightarrow> Some (sint a) | _ \<Rightarrow> None)"
  by (cases v) (simp add: int_of_def)

lemma two_operands:
  assumes "operands m env (direct_reads i) = Some vals" "length (i_args i) = 2"
  obtains x y rest where "vals = x # y # rest" "operand m env (i_args i ! 0) = Some x" "operand m env (i_args i ! 1) = Some y"
    "take (length (i_args i)) vals = [x, y]" "i_args i = [i_args i ! 0, i_args i ! 1]"
proof -
  obtain a b where ab: "i_args i = [a, b]" using assms(2) by (auto simp: numeral_2_eq_2 length_Suc_conv)
  with assms(1) obtain x y rest where "vals = x # y # rest" "operand m env a = Some x" "operand m env b = Some y"
    by (auto simp: direct_reads_def split: option.splits)
  with ab show thesis by (intro that[of x y rest]) simp_all
qed

lemma shape_args: "list_all (\<lambda>a. v_type a = ''i64'') (i_args (shape i)) = list_all (\<lambda>a. v_type a = ''i64'') (i_args i)"
  by (simp add: shape_def map_reads_def anonymous_def list.pred_map comp_def)

text \<open>Such an instruction has no result but the fixed one.\<close>

lemma integer_yields:
  assumes laws: "array_laws m hdr vlen" and op: "i_op i \<in> set (''binary.+'' # orderings)"
    and types: "list_all (\<lambda>a. v_type a = ''i64'') (i_args i)" "length (i_args i) = 2"
    and y: "yields m i vals z" "take (length (i_args i)) vals = [x, y]"
  shows "\<exists>a b. x = IntV a \<and> y = IntV b \<and> int_op (v_type (i_result i)) (i_op i) a b = Some z"
proof -
  have no: "mc_op m (shape i) vs s \<noteq> Some (Yield z' s')" for vs s z' s'
    using laws op types(1) shape_args[of i] unfolding array_laws_def by (metis shape_simps(2))
  then have f: "fixed_value i [x, y] = Some z"
    using y by (auto simp: yields_def split: option.splits)
  have "i_op i \<noteq> ''const''" "i_op i \<noteq> ''id''" using op by (auto simp: orderings_def)
  with f types(1) show ?thesis by (auto simp: fixed_value_def split: val.splits)
qed

lemma ordering_known:
  assumes wf: "bounds_wf fn" and laws: "array_laws m hdr vlen" and \<sigma>: "reach m fn (start args s) \<sigma>"
    and c: "defs_of fn (v_name c) = Some i" "length (i_args i) = 2" "v_type (i_args i ! 0) = ''i64''" "i_op i \<in> set orderings"
    and before: "defined_before fn (v_name c) (point_of \<sigma>)"
  shows "\<exists>l r. int_of m (st_env \<sigma>) (v_name (i_args i ! 0)) = Some l \<and> int_of m (st_env \<sigma>) (v_name (i_args i ! 1)) = Some r \<and>
    operand m (st_env \<sigma>) c = Some (BoolV (ordering (i_op i) l r))"
proof -
  note d = defs_of_Some[OF c(1)]
  from in_all_instrs d obtain q k where at: "instr_at fn q k = Some i" by blast
  have op: "i_op i \<noteq> ''phi''" using c(4) by (auto simp: orderings_def)
  have passed: "\<not> avoids fn (q, k) (point_of \<sigma>)" using before at d unfolding defined_before_def by auto
  have "index_wf i" using wf d by (auto simp: bounds_wf_def list_all_iff)
  moreover have "i_args i \<noteq> []" "v_type (hd (i_args i)) = ''i64''" using c(2,3) by (cases "i_args i"; auto)+
  ultimately have types: "list_all (\<lambda>a. v_type a = ''i64'') (i_args i)" "v_type (i_result i) = ''bool''"
    using c(4) by (auto simp: index_wf_def)
  from passed_value[OF _ _ at op _ \<sigma> passed] wf d obtain x vals where x: "st_env \<sigma> (v_name c) = Some x"
    "operands m (st_env \<sigma>) (direct_reads i) = Some vals" "yields m i vals x"
    by (auto simp: bounds_wf_def copy_wf_def)
  from two_operands[OF x(2) c(2)] obtain y z rest where v: "operand m (st_env \<sigma>) (i_args i ! 0) = Some y"
    "operand m (st_env \<sigma>) (i_args i ! 1) = Some z" "take (length (i_args i)) vals = [y, z]" by metis
  have "i_op i \<in> set (''binary.+'' # orderings)" using c(4) by simp
  from integer_yields[OF laws this types(1) c(2) x(3) v(3)] obtain l r where
    lr: "y = IntV l" "z = IntV r" "int_op (v_type (i_result i)) (i_op i) l r = Some x" by blast
  have "v_type (i_args i ! 0) = ''i64''" "v_type (i_args i ! 1) = ''i64''" using types(1) c(2) by (simp_all add: list_all_length)
  with v(1,2) lr have "int_of m (st_env \<sigma>) (v_name (i_args i ! 0)) = Some (sint l)" "int_of m (st_env \<sigma>) (v_name (i_args i ! 1)) = Some (sint r)"
    by (simp_all add: int_of_i64)
  moreover have "x = BoolV (ordering (i_op i) (sint l) (sint r))"
    using lr(3) types(2) c(4) by (auto simp: int_op_def ordering_def orderings_def)
  moreover have "operand m (st_env \<sigma>) c = Some x" using x(1) by (simp add: operand_def)
  ultimately show ?thesis by blast
qed

lemma constant_holds:
  assumes wf: "bounds_wf fn" and \<sigma>: "reach m fn (start args s) \<sigma>" and args: "args_for fn args"
    and c: "constant_of (defs_of fn) v = Some c" and env: "env \<in> {st_env \<sigma>, st_entry \<sigma>}" and x: "operand m env v = Some x"
    and typed: "\<And>i. i \<in> set (all_instrs fn) \<Longrightarrow> v_name (i_result i) = v_name v \<Longrightarrow> v_name v \<noteq> [] \<Longrightarrow> v_type v = v_type (i_result i)"
  shows "x = IntV c"
proof -
  have ssa: "ssa fn" using wf by (simp add: bounds_wf_def copy_wf_def)
  have i64: "v_type v = ''i64''" using c by (auto simp: constant_of_def split: if_splits)
  have origin: "args (v_name v) = Some y \<or> made m fn (start args s) (v_name v) y" if "env (v_name v) = Some y" for y
    using reach_origin[OF \<sigma>] env that by auto
  show ?thesis
  proof (cases "defs_of fn (v_name v)")
    case None
    have "env (v_name v) = None"
    proof (rule ccontr)
      assume "env (v_name v) \<noteq> None"
      then obtain y where "args (v_name v) = Some y \<or> made m fn (start args s) (v_name v) y" using origin by blast
      then show False
      proof
        assume "args (v_name v) = Some y"
        then have "v_name v \<in> set (param_names fn)" using args unfolding args_for_def by blast
        then have "parse_int64 (v_name v) = None" using ssa unfolding ssa_def by blast
        with c None i64 show False by (simp add: constant_of_def)
      next
        assume "made m fn (start args s) (v_name v) y"
        then obtain q k i where "instr_at fn q k = Some i" "v_name (i_result i) = v_name v" "v_name v \<noteq> []"
          by (auto simp: made_def current_instr_def)
        with defs_of_instr[OF ssa] None show False by (metis option.distinct(1))
      qed
    qed
    with c None i64 x show ?thesis by (simp add: constant_of_def operand_def)
  next
    case (Some i)
    note d = defs_of_Some[OF Some]
    from c Some i64 have i: "i_op i = ''const''" "parse_int64 (i_immediate i) = Some c" by (auto simp: constant_of_def split: if_splits)
    from in_all_instrs d obtain q k where at: "instr_at fn q k = Some i" by blast
    have "v_name v \<in> set (results fn)" using instr_at_result[OF at] d by simp
    then have "parse_int64 (v_name v) = None" using ssa unfolding ssa_def by blast
    with x i64 have ev: "env (v_name v) = Some x" by (auto simp: operand_def split: option.splits)
    have "args (v_name v) = None" using result_not_arg[OF ssa args at] d by simp
    with origin[OF ev] have "made m fn (start args s) (v_name v) x" by simp
    with made_by[OF ssa at, of m "start args s" x] d obtain \<rho> t where "exec m \<rho> i = Some (Yield x t)" by auto
    moreover have "v_type (i_result i) = ''i64''" using typed[of i] d i64 by simp
    ultimately show ?thesis using i by (auto simp: exec_def fixed_value_def const_value_def split: option.splits)
  qed
qed

section \<open>Counters\<close>

lemma drop_counters_none:
  assumes "fold (\<lambda>i (counters, changed).
         if v_name (i_result i) \<in> set counters \<and> \<not> counts_up d counters i
         then (removeAll (v_name (i_result i)) counters, True) else (counters, changed)) is (cs, False) = (cs', False)"
  shows "cs' = cs \<and> (\<forall>i\<in>set is. v_name (i_result i) \<in> set cs \<longrightarrow> counts_up d cs i)"
  using assms
proof (induction "is")
  case (Cons i "is")
  show ?case
  proof (cases "v_name (i_result i) \<in> set cs \<and> \<not> counts_up d cs i")
    case True
    with Cons.prems drop_counters_fold[of d "is" "removeAll (v_name (i_result i)) cs" True cs' False] show ?thesis by simp
  next
    case False
    with Cons show ?thesis by auto
  qed
qed simp

lemma counters_settled:
  "i \<in> set (all_instrs fn) \<Longrightarrow> v_name (i_result i) \<in> set (drop_all_counters fn cs) \<Longrightarrow>
    counts_up (defs_of fn) (drop_all_counters fn cs) i"
proof (induction fn cs rule: drop_all_counters.induct)
  case (1 fn cs)
  obtain cs' changed where d: "drop_counters fn cs = (cs', changed)" by (cases "drop_counters fn cs")
  show ?case
  proof (cases changed)
    case True
    with 1 d show ?thesis by (simp add: drop_all_counters.simps[of fn cs])
  next
    case False
    with d drop_counters_none[of "defs_of fn" "all_instrs fn" cs cs'] 1(2,3) show ?thesis
      by (simp add: drop_counters_def drop_all_counters.simps[of fn cs])
  qed
qed

definition nonneg_value :: "'v val \<Rightarrow> bool" where
  "nonneg_value v \<longleftrightarrow> (\<exists>a. v = IntV a \<and> 0 \<le> sint a)"

text \<open>The counters of a walk and the steps that feed them.\<close>

definition counted :: "walker \<Rightarrow> name \<Rightarrow> bool" where
  "counted w x \<longleftrightarrow> x \<in> set (wk_counters w) \<or>
     steps_into (wk_fn w) (wk_counters w) x \<noteq> [] \<and> (\<exists>y\<in>set (wk_counters w). step_of (wk_defs w) x = Some y)"

definition counters_hold :: "walker \<Rightarrow> 'v env \<Rightarrow> bool" where
  "counters_hold w env \<longleftrightarrow> (\<forall>x v. counted w x \<longrightarrow> env x = Some v \<longrightarrow> nonneg_value v)"

section \<open>The state of a run\<close>

definition run_of_walk :: "('v, 's) machine \<Rightarrow> func \<Rightarrow> walker \<Rightarrow> idoms \<Rightarrow> ('s \<Rightarrow> 'v val \<Rightarrow> int) \<Rightarrow> ('v val \<Rightarrow> int) \<Rightarrow> 'v env \<Rightarrow> bool" where
  "run_of_walk m fn w idom hdr vlen args \<longleftrightarrow> bounds_wf fn \<and> walks w fn idom \<and> array_laws m hdr vlen \<and> args_for fn args \<and>
     (\<exists>excluded. wk_counters w = loop_counters fn excluded) \<and> bp_unsafe (bounds_walk w (reverse_postorder fn) idom) = []"

abbreviation final_aliases :: "walker \<Rightarrow> idoms \<Rightarrow> replacements" where
  "final_aliases w idom \<equiv> bp_aliases (bounds_walk w (reverse_postorder (wk_fn w)) idom)"

lemma run_facts:
  assumes "run_of_walk m fn w idom hdr vlen args"
  shows "bounds_wf fn" "walks w fn idom" "array_laws m hdr vlen" "args_for fn args" "copy_wf fn" "ssa fn" "strict fn"
    "consistent_types fn" "block_names_ok fn" "wk_fn w = fn" "wk_defs w = defs_of fn" "f_blocks fn \<noteq> []"
  using assms by (auto simp: run_of_walk_def bounds_wf_def copy_wf_def walks_def)

lemma counter_is_phi:
  assumes run: "run_of_walk m fn w idom hdr vlen args" and i: "i \<in> set (all_instrs fn)" "v_name (i_result i) \<in> set (wk_counters w)"
  shows "i_op i = ''phi'' \<and> v_type (i_result i) = ''i64'' \<and> v_name (i_result i) \<noteq> [] \<and> counts_up (defs_of fn) (wk_counters w) i"
proof -
  obtain excluded where c: "wk_counters w = drop_all_counters fn (candidate_counters fn excluded)"
    using run by (auto simp: run_of_walk_def loop_counters_def)
  with i(2) drop_all_counters_subset[of fn "candidate_counters fn excluded"] obtain j where
    j: "j \<in> set (all_instrs fn)" "i_op j = ''phi''" "v_type (i_result j) = ''i64''" "v_name (i_result j) = v_name (i_result i)"
    by (auto simp: candidate_counters_def)
  have named: "v_name (i_result j) \<noteq> []" using run_facts(6)[OF run] j(1,2) by (auto simp: ssa_def)
  from in_all_instrs[OF i(1)] in_all_instrs[OF j(1)] obtain p k q l where "instr_at fn p k = Some i" "instr_at fn q l = Some j" by blast
  from ssa_unique[OF run_facts(6)[OF run] this(2,1) j(4) named] have "i = j" by simp
  with j named counters_settled[OF i(1), of "candidate_counters fn excluded"] c i(2) show ?thesis by simp
qed

text \<open>A name keeps its value once a point after its definition has been passed.\<close>

lemma kept_from:
  assumes \<sigma>: "reach m fn (start args s) \<sigma>" "step m fn \<sigma> = Go \<tau>" and d: "d = point_of \<sigma> \<or> \<not> avoids fn d (point_of \<sigma>)"
    and x: "defined_before fn x d"
  shows "st_env \<tau> x = st_env \<sigma> x"
  using \<sigma>(2)
proof (cases rule: step_cases)
  case (instr i y s')
  note reachable = reach_point[OF \<sigma>(1)]
  have "\<not> (x = v_name (i_result i) \<and> x \<noteq> [])"
  proof
    assume "x = v_name (i_result i) \<and> x \<noteq> []"
    with x instr(1) have "\<not> avoids fn (point_of \<sigma>) d" by (auto simp: defined_before_def current_instr_def point_of_def)
    with d avoids_either[OF reachable, of d] reachable_avoids[OF reachable] show False by blast
  qed
  with instr(3) show ?thesis by (auto simp: bind_result_def)
qed simp

lemma operand_before:
  assumes "strict fn" "defs_of fn x = Some i" "i_op i \<noteq> ''phi''" "a \<in> set (i_args i)" "defined_before fn x u"
  shows "defined_before fn (v_name a) u"
proof -
  note d = defs_of_Some[OF assms(2)]
  from in_all_instrs d obtain q l where at: "instr_at fn q l = Some i" by blast
  have "\<not> avoids fn (q, l) u" using assms(5) at d unfolding defined_before_def by blast
  moreover have "a \<in> set (direct_reads i)" using assms(4) by (simp add: direct_reads_def)
  then have "defined_before fn (v_name a) (q, l)" using assms(1) at assms(3) unfolding strict_def by metis
  ultimately show ?thesis using defined_through by blast
qed

lemma less_hold:
  "values_hold m fn vlen f env \<Longrightarrow> int_of m env x = Some a \<Longrightarrow> int_of m env y = Some b \<Longrightarrow> a < b \<Longrightarrow>
    values_hold m fn vlen (f\<lparr>bf_less := insert (x, y) (bf_less f)\<rparr>) env"
  "values_hold m fn vlen f env \<Longrightarrow> int_of m env x = Some a \<Longrightarrow> 0 \<le> a \<Longrightarrow>
    values_hold m fn vlen (f\<lparr>bf_nonneg := insert x (bf_nonneg f)\<rparr>) env"
  unfolding values_hold_def by auto

lemma learn_headers: "headers_hold m fn hdr (learn_condition w pl c holds f) env s = headers_hold m fn hdr f env s"
  by (cases rule: learn_cases[of w pl c holds f]) (simp_all add: headers_hold_def)

lemma learn_holds:
  assumes run: "run_of_walk m fn w idom hdr vlen args" and \<sigma>: "reach m fn (start args s) \<sigma>"
    and al: "aliases_hold fn (bp_aliases pl) (point_of \<sigma>) (st_env \<sigma>)" "copy_before fn (lookup_last (bp_aliases pl))"
    and f: "values_hold m fn vlen f (st_env \<sigma>)"
    and c: "defined_before fn (v_name c) (point_of \<sigma>)" "operand m (st_env \<sigma>) c = Some (BoolV holds)"
  shows "values_hold m fn vlen (learn_condition w pl c holds f) (st_env \<sigma>)"
proof -
  note r = run_facts[OF run]
  let ?int = "int_of m (st_env \<sigma>)"
  have known: "\<exists>v. (\<forall>j<2. ?int (v_name (i_args i ! j)) = Some (v j) \<and> ?int (resolved_name (bp_aliases pl) (v_name (i_args i ! j))) = Some (v j)) \<and>
      ordering (i_op i) (v 0) (v 1) = holds"
    if i: "wk_defs w (v_name c) = Some i" "length (i_args i) = 2" "v_type (i_args i ! 0) = ''i64''" "i_op i \<in> set orderings" for i
  proof -
    from ordering_known[OF r(1,3) \<sigma> _ i(2-4) c(1)] i(1) r(11) c(2) obtain l u where
      lu: "?int (v_name (i_args i ! 0)) = Some l" "?int (v_name (i_args i ! 1)) = Some u" "ordering (i_op i) l u = holds" by auto
    have op: "i_op i \<noteq> ''phi''" using i(4) by (auto simp: orderings_def)
    have "?int (resolved_name (bp_aliases pl) (v_name (i_args i ! j))) = ?int (v_name (i_args i ! j))" if "j < 2" for j
      using that i(1,2) r(11) by (intro resolved_int[OF al] operand_before[OF r(7) _ op _ c(1)]) auto
    with lu show ?thesis by (intro exI[of _ "\<lambda>j. if j = 0 then l else u"]) (auto simp: less_2_cases_iff)
  qed
  show ?thesis
  proof (cases rule: learn_cases[of w pl c holds f])
    case same
    with f show ?thesis by simp
  next
    case (below i j k)
    from known[OF below(1-4)] obtain v where
      v: "\<forall>j<2. ?int (resolved_name (bp_aliases pl) (v_name (i_args i ! j))) = Some (v j)" "ordering (i_op i) (v 0) (v 1) = holds" by blast
    with below(5-8) less_hold(1)[OF f, of _ "v j" _ "v k"] show ?thesis by simp
  next
    case (above i j k)
    from known[OF above(1-4)] obtain v where
      v: "\<forall>j<2. ?int (v_name (i_args i ! j)) = Some (v j) \<and> ?int (resolved_name (bp_aliases pl) (v_name (i_args i ! j))) = Some (v j)"
      "ordering (i_op i) (v 0) (v 1) = holds" by blast
    from above(7) r(11) obtain cc where cc: "constant_of (defs_of fn) (i_args i ! k) = Some cc" "0 \<le> sint cc"
      by (auto simp: nonneg_constant_def split: option.splits)
    have i64: "v_type (i_args i ! k) = ''i64''" using cc(1) by (auto simp: constant_of_def split: if_splits)
    have vk: "?int (v_name (i_args i ! k)) = Some (v k)" using v(1) above(6) by simp
    then obtain x where x: "operand m (st_env \<sigma>) (i_args i ! k) = Some x"
      using int_of_i64[OF i64, of m "st_env \<sigma>"] by (cases "operand m (st_env \<sigma>) (i_args i ! k)") simp_all
    have d: "i \<in> set (all_instrs fn)" using defs_of_Some above(1) r(11) by metis
    from in_all_instrs[OF d] obtain q l where at: "instr_at fn q l = Some i" by blast
    have "i_args i ! k \<in> set (instr_reads i)" using above(2,6) by (simp add: instr_reads_def)
    with constant_holds[OF r(1) \<sigma> r(4) cc(1) _ x] consistent_read[OF r(8) at] have "x = IntV cc" by auto
    with vk x int_of_i64[OF i64, of m "st_env \<sigma>"] cc(2) have "0 \<le> v k" by simp
    then have "0 \<le> v j" using above(9)[OF v(2)] by simp
    with above(5,8) v(1) less_hold(2)[OF f, of _ "v j"] show ?thesis by simp
  qed
qed

section \<open>One instruction\<close>

lemma law:
  assumes "array_laws m hdr vlen" "mc_op m (shape i) vals s = Some (Yield x s')"
  shows "leaves_headers (i_op i) \<Longrightarrow> hdr s' v = hdr s v"
    and "i_op i = ''array.len'' \<Longrightarrow> vals = [v] \<Longrightarrow> \<exists>a. x = IntV a \<and> sint a = hdr s v \<and> 0 \<le> sint a"
    and "i_op i = ''slice.len'' \<Longrightarrow> vals = [v] \<Longrightarrow> \<exists>a. x = IntV a \<and> sint a = vlen v \<and> 0 \<le> sint a"
    and "i_op i = ''array.get_or_panic'' \<Longrightarrow> vals = v # z # vs \<Longrightarrow> \<exists>a. z = IntV a \<and> 0 \<le> sint a \<and> sint a < hdr s v"
    and "i_op i = ''cond_fail'' \<Longrightarrow> vals = c # vs \<Longrightarrow> c = BoolV False"
proof -
  note l = assms(1)[unfolded array_laws_def, rule_format, OF assms(2), unfolded shape_simps]
  show "leaves_headers (i_op i) \<Longrightarrow> hdr s' v = hdr s v" by (rule l[THEN conjunct1, rule_format])
  show "i_op i = ''array.len'' \<Longrightarrow> vals = [v] \<Longrightarrow> \<exists>a. x = IntV a \<and> sint a = hdr s v \<and> 0 \<le> sint a" by (rule l[THEN conjunct2, THEN conjunct1, rule_format])
  show "i_op i = ''slice.len'' \<Longrightarrow> vals = [v] \<Longrightarrow> \<exists>a. x = IntV a \<and> sint a = vlen v \<and> 0 \<le> sint a" by (rule l[THEN conjunct2, THEN conjunct2, THEN conjunct1, rule_format])
  show "i_op i = ''array.get_or_panic'' \<Longrightarrow> vals = v # z # vs \<Longrightarrow> \<exists>a. z = IntV a \<and> 0 \<le> sint a \<and> sint a < hdr s v" by (rule l[THEN conjunct2, THEN conjunct2, THEN conjunct2, THEN conjunct1, rule_format])
  show "i_op i = ''cond_fail'' \<Longrightarrow> vals = c # vs \<Longrightarrow> c = BoolV False" by (rule l[THEN conjunct2, THEN conjunct2, THEN conjunct2, THEN conjunct2, THEN conjunct1, rule_format])
qed

lemma exec_headers:
  assumes "array_laws m hdr vlen" "exec m \<sigma> i = Some (Yield x s')" "leaves_headers (i_op i)"
  shows "hdr s' v = hdr (st_mem \<sigma>) v"
proof -
  note same = law(1)[OF assms(1) _ assms(3)]
  show ?thesis using assms(2) by (auto simp: exec_def split: if_splits option.splits intro: same)
qed

lemma int_op_other:
  assumes "\<not> prefix ''binary.'' op"
  shows "int_op t op l r = None"
proof -
  have ne: "op \<noteq> ''binary.'' @ x" for x using assms by auto
  note n = ne[of "''+''"] ne[of "''-''"] ne[of "''*''"] ne[of "''&''"] ne[of "''|''"] ne[of "''^''"] ne[of "''<''"] ne[of "''<=''"] ne[of "''>''"] ne[of "''>=''"] ne[of "''==''"] ne[of "''!=''"]
  from n show ?thesis by (simp add: int_op_def)
qed

lemma fixed_other: "i_op i \<noteq> ''const'' \<Longrightarrow> i_op i \<noteq> ''id'' \<Longrightarrow> \<not> prefix ''binary.'' (i_op i) \<Longrightarrow> fixed_value i vals = None"
  by (simp add: fixed_value_def int_op_other split: list.splits val.splits)

lemma own_exec:
  assumes "i_op i \<in> set (''cond_fail'' # container_ops)" "exec m \<sigma> i = Some (Yield x s')"
  shows "\<exists>vals. operands m (st_env \<sigma>) (direct_reads i) = Some vals \<and> mc_op m (shape i) vals (st_mem \<sigma>) = Some (Yield x s')"
proof -
  have no: "i_op i \<noteq> ''const''" "i_op i \<noteq> ''id''" "i_op i \<noteq> ''phi''" using assms(1) by (auto simp: container_ops_def)
  have "\<not> prefix ''binary.'' (i_op i)" using assms(1) by (auto simp: container_ops_def)
  note none = fixed_other[OF no(1,2) this]
  show ?thesis using assms(2) no by (auto simp: none exec_def split: option.splits)
qed

text \<open>An instruction the walk comes to, and the state after it.\<close>

definition executes :: "('v, 's) machine \<Rightarrow> func \<Rightarrow> walker \<Rightarrow> idoms \<Rightarrow> 'v env \<Rightarrow> ('v, 's) state \<Rightarrow> nat \<Rightarrow> nat \<Rightarrow> instr \<Rightarrow> 'v val \<Rightarrow> ('v, 's) state \<Rightarrow> bool" where
  "executes m fn w idom args \<sigma> n k i x \<tau> \<longleftrightarrow> (\<exists>s. reach m fn (start args s) \<sigma>) \<and> visited_at w idom n k i \<and>
     point_of \<sigma> = (reverse_postorder fn ! n, k) \<and> exec m \<sigma> i = Some (Yield x (st_mem \<tau>)) \<and>
     step m fn \<sigma> = Go \<tau> \<and> \<tau> = \<sigma>\<lparr>st_step := Suc (st_step \<sigma>), st_env := bind_result i x (st_env \<sigma>), st_mem := st_mem \<tau>\<rparr>"

lemma executes_facts:
  assumes run: "run_of_walk m fn w idom hdr vlen args" and ex: "executes m fn w idom args \<sigma> n k i x \<tau>"
  shows "n < length (reverse_postorder fn)" "k < block_end fn n" "instr_at fn (reverse_postorder fn ! n) k = Some i"
    "i \<in> set (all_instrs fn)" "index_wf i" "point_of \<tau> = (reverse_postorder fn ! n, Suc k)" "\<exists>s. reach m fn (start args s) \<tau>"
    "v_name (i_result i) \<noteq> [] \<Longrightarrow> st_env \<tau> (v_name (i_result i)) = Some x" "st_entry \<tau> = st_entry \<sigma>"
    "\<And>y. y \<noteq> v_name (i_result i) \<Longrightarrow> st_env \<tau> y = st_env \<sigma> y"
proof -
  note r = run_facts[OF run]
  show at: "n < length (reverse_postorder fn)" "instr_at fn (reverse_postorder fn ! n) k = Some i"
    using ex r(10) by (auto simp: executes_def visited_at_def)
  then show "k < block_end fn n" by (auto simp: instr_at_def block_end_def split: if_splits)
  show "i \<in> set (all_instrs fn)" using instr_at_all[OF at(2)] .
  with r(1) show "index_wf i" by (auto simp: bounds_wf_def list_all_iff)
  have t: "\<tau> = \<sigma>\<lparr>st_step := Suc (st_step \<sigma>), st_env := bind_result i x (st_env \<sigma>), st_mem := st_mem \<tau>\<rparr>"
    using ex by (simp add: executes_def)
  have p: "point_of \<sigma> = (reverse_postorder fn ! n, k)" using ex by (simp add: executes_def)
  show "point_of \<tau> = (reverse_postorder fn ! n, Suc k)" using p by (subst t) (simp add: point_of_def)
  show "\<exists>s. reach m fn (start args s) \<tau>" using ex unfolding executes_def by (blast intro: reach.further)
  show "st_entry \<tau> = st_entry \<sigma>" by (subst t) simp
  show "v_name (i_result i) \<noteq> [] \<Longrightarrow> st_env \<tau> (v_name (i_result i)) = Some x" by (subst t) (simp add: bind_result_def)
  show "\<And>y. y \<noteq> v_name (i_result i) \<Longrightarrow> st_env \<tau> y = st_env \<sigma> y" by (subst t) (simp add: bind_result_def)
qed

lemma kept_names:
  assumes "run_of_walk m fn w idom hdr vlen args" "executes m fn w idom args \<sigma> n k i x \<tau>"
    and "defined_before fn y (reverse_postorder fn ! n, k)"
  shows "st_env \<tau> y = st_env \<sigma> y"
  using assms(2) kept_from[of m fn args _ \<sigma> \<tau> "point_of \<sigma>" y] assms(3) unfolding executes_def by auto

lemma kept_facts_at:
  assumes run: "run_of_walk m fn w idom hdr vlen args" and ex: "executes m fn w idom args \<sigma> n k i x \<tau>"
    and "y \<in> fact_names (facts_at w idom n k)"
  shows "st_env \<tau> y = st_env \<sigma> y"
proof -
  note e = executes_facts[OF run ex]
  have "known_before fn (facts_at w idom n k) (reverse_postorder fn ! n, k)"
    using walk_known(1)[OF run_facts(2)[OF run] e(1)] e(2) by simp
  with assms(3) show ?thesis by (intro kept_names[OF run ex]) (auto simp: known_before_def)
qed

lemma kept_read:
  assumes run: "run_of_walk m fn w idom hdr vlen args" and ex: "executes m fn w idom args \<sigma> n k i x \<tau>"
    and "i_op i \<noteq> ''phi''" "v \<in> set (i_args i)"
  shows "operand m (st_env \<tau>) v = operand m (st_env \<sigma>) v" "int_of m (st_env \<tau>) (v_name v) = int_of m (st_env \<sigma>) (v_name v)"
proof -
  note k = kept_names[OF run ex read_before[OF run_facts(5)[OF run] executes_facts(3)[OF run ex] assms(3,4)]]
  show "operand m (st_env \<tau>) v = operand m (st_env \<sigma>) v" by (rule operand_name) (rule k)
  show "int_of m (st_env \<tau>) (v_name v) = int_of m (st_env \<sigma>) (v_name v)" by (rule int_of_name) (rule k)
qed

lemma container_same:
  assumes "bounds_wf fn" "i \<in> set (all_instrs fn)" "i_op i \<in> set container_ops" "i_args i \<noteq> []"
    and "c \<in> set (containers fn)" "v_name c = v_name (hd (i_args i))"
  shows "c = hd (i_args i)"
proof -
  have "hd (i_args i) \<in> set (containers fn)" using assms(2-4) by (auto simp: containers_def)
  with assms(1,5,6) show ?thesis unfolding bounds_wf_def by blast
qed

lemma length_yields:
  assumes run: "run_of_walk m fn w idom hdr vlen args" and ex: "executes m fn w idom args \<sigma> n k i x \<tau>"
    and op: "i_op i = ''array.len'' \<or> i_op i = ''slice.len''" and one: "length (i_args i) = 1"
  shows "\<exists>v. operand m (st_env \<sigma>) (hd (i_args i)) = Some v \<and> v_name (i_result i) \<noteq> [] \<and>
    (i_op i = ''slice.len'' \<longrightarrow> holds_int (st_env \<tau>) (v_name (i_result i)) (vlen v)) \<and>
    (i_op i = ''array.len'' \<longrightarrow> holds_int (st_env \<tau>) (v_name (i_result i)) (hdr (st_mem \<sigma>) v)) \<and> nonneg_value x"
proof -
  note r = run_facts[OF run] and e = executes_facts[OF run ex]
  have named: "v_name (i_result i) \<noteq> []" using named_result[OF r(6) e(3)] op by auto
  have c: "i_op i \<in> set container_ops" using op by (auto simp: container_ops_def)
  have x: "exec m \<sigma> i = Some (Yield x (st_mem \<tau>))" using ex by (simp add: executes_def)
  from own_exec[OF _ x] c obtain vals where vals: "operands m (st_env \<sigma>) (direct_reads i) = Some vals"
    "mc_op m (shape i) vals (st_mem \<sigma>) = Some (Yield x (st_mem \<tau>))" by auto
  obtain a where a: "i_args i = [a]" using one by (cases "i_args i") auto
  have "direct_reads i = [a]" using e(5) c a by (simp add: index_wf_def direct_reads_def)
  with vals(1) obtain v where v: "operand m (st_env \<sigma>) a = Some v" "vals = [v]" by (auto split: option.splits)
  from law(2)[OF r(3) vals(2) _ v(2)] law(3)[OF r(3) vals(2) _ v(2)] e(8)[OF named] v(1) a named op show ?thesis by (auto simp: holds_int_def nonneg_value_def)
qed

lemma executes_parts:
  assumes "executes m fn w idom args \<sigma> n k i x \<tau>"
  shows "visited_at w idom n k i" "point_of \<sigma> = (reverse_postorder fn ! n, k)" "exec m \<sigma> i = Some (Yield x (st_mem \<tau>))"
    "step m fn \<sigma> = Go \<tau>" "\<exists>s. reach m fn (start args s) \<sigma>"
  using assms unfolding executes_def by blast+

lemma access_facts:
  "fst (visit_array_check w u i st) =
     (if 2 \<le> length (i_args i) \<and> (i_op i = ''array.get_or_panic'' \<or> i_op i = ''array.set'')
      then (fst st)\<lparr>bf_checked := insert (v_name (i_args i ! 0), v_name (i_args i ! 1)) (bf_checked (fst st))\<rparr> else fst st)"
  by (cases st) (simp add: visit_array_check_def Let_def)

lemma other_facts: "fst (visit_other w i st) = (if leaves_headers (i_op i) then fst st else forget_headers (fst st))"
  by (cases st) (simp add: visit_other_def Let_def)

lemma aliases_mono: "aliases_hold fn al u env \<Longrightarrow> set al' \<subseteq> set al \<Longrightarrow> aliases_hold fn al' u env"
  unfolding aliases_hold_def by blast

lemma holds_int_same: "holds_int env x n \<Longrightarrow> holds_int env y n \<Longrightarrow> \<exists>v. env x = Some v \<and> env y = Some v"
  by (auto simp: holds_int_def intro: signed_word_eqI)

lemma check_facts:
  "fst (visit_cond_fail w u i st) =
     (if i_args i = [] \<or> check_answered w (snd st) (fst st) (hd (i_args i)) then fst st
      else learn_condition w (snd st) (hd (i_args i)) False (fst st))"
  by (cases st) (simp add: visit_cond_fail_def)

text \<open>The aliases hold after an instruction when its facts hold before it.\<close>

lemma aliases_step:
  assumes run: "run_of_walk m fn w idom hdr vlen args" and ex: "executes m fn w idom args \<sigma> n k i x \<tau>"
    and f: "values_hold m fn vlen (facts_at w idom n k) (st_env \<sigma>)" "headers_hold m fn hdr (facts_at w idom n k) (st_env \<sigma>) (st_mem \<sigma>)"
    and al: "aliases_hold fn (final_aliases w idom) (point_of \<sigma>) (st_env \<sigma>)"
  shows "aliases_hold fn (final_aliases w idom) (point_of \<tau>) (st_env \<tau>)"
  unfolding aliases_hold_def
proof (intro ballI, clarify)
  fix y known
  assume y: "(y, known) \<in> set (final_aliases w idom)" and before: "defined_before fn y (point_of \<tau>)"
  note r = run_facts[OF run] and e = executes_facts[OF run ex]
  have y': "(y, known) \<in> set (bp_aliases (bounds_walk w (reverse_postorder fn) idom))" using y r(10) by simp
  from aliases_origin[OF r(2) y'] obtain n' k' j where
    j: "visited_at w idom n' k' j" "v_name (i_result j) = y" "length_known j (facts_at w idom n' k') known" by blast
  have nk: "n' < length (reverse_postorder fn)" "instr_at fn (reverse_postorder fn ! n') k' = Some j"
    using j(1) r(10) by (simp_all add: visited_at_def)
  have op: "i_op j = ''array.len'' \<or> i_op j = ''slice.len''" and one: "length (i_args j) = 1"
    and fact: "(if i_op j = ''slice.len'' then bf_view (facts_at w idom n' k') else bf_length (facts_at w idom n' k')) (v_name (hd (i_args j))) = Some known"
    using j(3) by (auto simp: length_known_def)
  have named: "y \<noteq> []" using named_result[OF r(6) nk(2)] op j(2) by auto
  have k': "k' \<le> block_end fn n'" using nk(2) by (auto simp: instr_at_def block_end_def split: if_splits)
  have kn: "v_name known \<in> fact_names (facts_at w idom n' k')"
    using fact fact_names_in(3,4)[of "facts_at w idom n' k'" "v_name (hd (i_args j))" known] by (auto split: if_splits)
  show "\<exists>v. st_env \<tau> y = Some v \<and> st_env \<tau> (v_name known) = Some v"
  proof (cases "v_name (i_result i) = y")
    case True
    with ssa_unique[OF r(6) e(3) nk(2)] j(2) named have eq: "reverse_postorder fn ! n = reverse_postorder fn ! n'" "k' = k" "j = i" by auto
    have "n' = n" using eq(1) e(1) nk(1) walks_facts(11)[OF r(2)] by (simp add: nth_eq_iff_index_eq)
    note here = this eq(2,3)
    from length_yields[OF run ex] op one here obtain v where v: "operand m (st_env \<sigma>) (hd (i_args i)) = Some v"
      "i_op i = ''slice.len'' \<longrightarrow> holds_int (st_env \<tau>) y (vlen v)" "i_op i = ''array.len'' \<longrightarrow> holds_int (st_env \<tau>) y (hdr (st_mem \<sigma>) v)"
      using True by auto
    have con: "hd (i_args i) \<in> set (containers fn)"
      using e(4) op one here by (auto simp: containers_def container_ops_def)
    have same: "st_env \<tau> (v_name known) = st_env \<sigma> (v_name known)" using kept_facts_at[OF run ex] kn here by simp
    have "holds_int (st_env \<sigma>) (v_name known) (if i_op i = ''slice.len'' then vlen v else hdr (st_mem \<sigma>) v)"
    proof (cases "i_op i = ''slice.len''")
      case True
      with fact here have "bf_view (facts_at w idom n k) (v_name (hd (i_args i))) = Some known" by simp
      with f(1) con obtain v' where "operand m (st_env \<sigma>) (hd (i_args i)) = Some v'" "holds_int (st_env \<sigma>) (v_name known) (vlen v')"
        unfolding values_hold_def by blast
      with v(1) True show ?thesis by simp
    next
      case False
      with fact here have "bf_length (facts_at w idom n k) (v_name (hd (i_args i))) = Some known" by simp
      with f(2) con obtain v' where "operand m (st_env \<sigma>) (hd (i_args i)) = Some v'" "holds_int (st_env \<sigma>) (v_name known) (hdr (st_mem \<sigma>) v')"
        unfolding headers_hold_def by blast
      with v(1) False show ?thesis by simp
    qed
    then have "holds_int (st_env \<tau>) (v_name known) (if i_op i = ''slice.len'' then vlen v else hdr (st_mem \<sigma>) v)"
      using same by (simp add: holds_int_def)
    moreover have "holds_int (st_env \<tau>) y (if i_op i = ''slice.len'' then vlen v else hdr (st_mem \<sigma>) v)"
      using v(2,3) op here by auto
    ultimately show ?thesis using holds_int_same by blast
  next
    case False
    let ?d = "(reverse_postorder fn ! n', k')"
    have "\<not> avoids fn ?d (point_of \<tau>)" using before nk(2) j(2) named unfolding defined_before_def by blast
    moreover have edge: "edge fn (point_of \<sigma>) (point_of \<tau>)" by (rule step_edge[OF executes_parts(4)[OF ex]])
    moreover have "point_of \<sigma> \<noteq> ?d" using False nk(2) e(3) executes_parts(2)[OF ex] j(2) by auto
    ultimately have d: "\<not> avoids fn ?d (point_of \<sigma>)" using avoids.onward by blast
    have "defined_before fn y (point_of \<sigma>)"
      unfolding defined_before_def
    proof (intro allI impI)
      fix q l u assume "instr_at fn q l = Some u" "v_name (i_result u) = y" "y \<noteq> []"
      with ssa_unique[OF r(6) nk(2)] j(2) have "(q, l) = ?d" by auto
      with d show "\<not> avoids fn (q, l) (point_of \<sigma>)" by simp
    qed
    with al y obtain v where v: "st_env \<sigma> y = Some v" "st_env \<sigma> (v_name known) = Some v" unfolding aliases_hold_def by blast
    have kb: "known_before fn (facts_at w idom n' k') ?d" using walk_known(1)[OF r(2) nk(1) k'] .
    obtain s where \<sigma>: "reach m fn (start args s) \<sigma>" using executes_parts(5)[OF ex] by blast
    have "defined_before fn (v_name known) ?d" using kb kn unfolding known_before_def by blast
    from kept_from[OF \<sigma> executes_parts(4)[OF ex] disjI2[OF d] this]
    have "st_env \<tau> (v_name known) = st_env \<sigma> (v_name known)" .
    moreover have "st_env \<tau> y = st_env \<sigma> y" using e(10) False by metis
    ultimately show ?thesis using v by simp
  qed
qed

text \<open>The facts after an instruction hold after it.\<close>

lemma visit_holds:
  assumes run: "run_of_walk m fn w idom hdr vlen args" and ex: "executes m fn w idom args \<sigma> n k i x \<tau>"
    and f: "values_hold m fn vlen (facts_at w idom n k) (st_env \<sigma>)" "headers_hold m fn hdr (facts_at w idom n k) (st_env \<sigma>) (st_mem \<sigma>)"
    and al: "aliases_hold fn (final_aliases w idom) (point_of \<tau>) (st_env \<tau>)"
  shows "values_hold m fn vlen (facts_at w idom n (Suc k)) (st_env \<tau>) \<and>
    headers_hold m fn hdr (facts_at w idom n (Suc k)) (st_env \<tau>) (st_mem \<tau>)"
proof -
  note r = run_facts[OF run] and e = executes_facts[OF run ex]
  let ?f = "facts_at w idom n k" and ?pl = "plan_at w idom n k" and ?u = "(reverse_postorder fn ! n, k)"
  have vis: "visited_at w idom n k i" and x: "exec m \<sigma> i = Some (Yield x (st_mem \<tau>))" by (rule executes_parts[OF ex])+
  have next_facts: "facts_at w idom n (Suc k) = fst (visit_instr w ?u i (?f, ?pl))"
    using visited_Suc[OF vis] r(10) by simp
  have v: "values_hold m fn vlen ?f (st_env \<tau>)" by (rule values_kept[OF kept_facts_at[OF run ex] f(1)])
  have h: "headers_hold m fn hdr ?f (st_env \<tau>) (st_mem \<tau>)" if "leaves_headers (i_op i)"
    by (rule headers_kept[OF kept_facts_at[OF run ex] exec_headers[OF r(3) x that] f(2)])
  consider (check) "i_op i = ''cond_fail''" | (len) "i_op i = ''array.len'' \<or> i_op i = ''slice.len''"
    | (access) "i_op i \<in> set [''array.get_or_panic'', ''array.set'', ''array.at'', ''array.at_mut'']"
    | (other) "visit_instr w ?u i (?f, ?pl) = visit_other w i (?f, ?pl)"
    unfolding visit_instr_def by meson
  then show ?thesis
  proof cases
    case check
    have leaves: "leaves_headers (i_op i)" using check by (simp add: leaves_headers_def)
    show ?thesis
    proof (cases "i_args i = [] \<or> check_answered w ?pl ?f (hd (i_args i))")
      case True
      then have "facts_at w idom n (Suc k) = ?f" using next_facts check by (simp add: visit_instr_def check_facts)
      with v h[OF leaves] show ?thesis by simp
    next
      case False
      then obtain c as where c: "i_args i = c # as" by (cases "i_args i") auto
      have learn: "facts_at w idom n (Suc k) = learn_condition w ?pl c False ?f"
        using next_facts check False c by (simp add: visit_instr_def check_facts)
      from own_exec[OF _ x] check obtain vals where vals: "operands m (st_env \<sigma>) (direct_reads i) = Some vals"
        "mc_op m (shape i) vals (st_mem \<sigma>) = Some (Yield x (st_mem \<tau>))" by auto
      from vals(1) c obtain y ys where y: "operand m (st_env \<sigma>) c = Some y" "vals = y # ys"
        by (auto simp: direct_reads_def split: option.splits)
      have "y = BoolV False" using law(5)[OF r(3) vals(2) check y(2)] .
      moreover have ca: "c \<in> set (i_args i)" "i_op i \<noteq> ''phi''" using c check by auto
      ultimately have now: "operand m (st_env \<tau>) c = Some (BoolV False)" using kept_read(1)[OF run ex ca(2,1)] y(1) by simp
      have "defined_before fn (v_name c) (point_of \<tau>)"
        using defined_next[OF read_before[OF r(5) e(3) ca(2,1)]] e(6) by simp
      moreover have "set (bp_aliases ?pl) \<subseteq> set (final_aliases w idom)" using plan_at_le[OF r(2) e(1)] r(10) by simp
      moreover have "copy_before fn (lookup_last (bp_aliases ?pl))" using walk_known(2)[OF r(2) e(1)] e(2) by simp
      moreover obtain s where "reach m fn (start args s) \<tau>" using e(7) by blast
      ultimately have "values_hold m fn vlen (learn_condition w ?pl c False ?f) (st_env \<tau>)"
        using learn_holds[OF run _ aliases_mono[OF al] _ v _ now] by blast
      with learn h[OF leaves] show ?thesis by (simp add: learn_headers)
    qed
  next
    case len
    then have leaves: "leaves_headers (i_op i)" by (auto simp: leaves_headers_def is_pure_op_def pure_ops_def)
    note old = v h[OF leaves]
    have vl: "facts_at w idom n (Suc k) = fst (visit_length i (?f, ?pl))" using next_facts len by (auto simp: visit_instr_def)
    show ?thesis
    proof (cases "length (i_args i) = 1")
      case False
      with vl have "facts_at w idom n (Suc k) = ?f" by (simp add: visit_length_def)
      with old show ?thesis by simp
    next
      case True
      let ?c = "hd (i_args i)"
      from length_yields[OF run ex len True] obtain z where z: "operand m (st_env \<sigma>) ?c = Some z"
        "i_op i = ''slice.len'' \<longrightarrow> holds_int (st_env \<tau>) (v_name (i_result i)) (vlen z)"
        "i_op i = ''array.len'' \<longrightarrow> holds_int (st_env \<tau>) (v_name (i_result i)) (hdr (st_mem \<sigma>) z)" by blast
      have co: "i_op i \<in> set container_ops" "i_args i \<noteq> []" "?c \<in> set (i_args i)" "i_op i \<noteq> ''phi''"
        using len True by (auto simp: container_ops_def intro!: list.set_sel(1))
      have now: "operand m (st_env \<tau>) ?c = Some z" using kept_read(1)[OF run ex co(4,3)] z(1) by simp
      note same = container_same[OF r(1) e(4) co(1,2)]
      have hdr: "hdr (st_mem \<tau>) z = hdr (st_mem \<sigma>) z" by (rule exec_headers[OF r(3) x leaves])
      show ?thesis
      proof (cases rule: visit_length_cases[OF True, of ?f ?pl])
        case (1 known)
        with vl old show ?thesis by simp
      next
        case 2
        show ?thesis
        proof (cases "i_op i = ''slice.len''")
          case slice: True
          then have g: "facts_at w idom n (Suc k) = ?f\<lparr>bf_view := (bf_view ?f)(v_name ?c \<mapsto> i_result i)\<rparr>" using vl 2 by simp
          have "\<exists>y. operand m (st_env \<tau>) d = Some y \<and> holds_int (st_env \<tau>) (v_name t) (vlen y)"
            if "d \<in> set (containers fn)" "((bf_view ?f)(v_name ?c \<mapsto> i_result i)) (v_name d) = Some t" for d t
            using that same[of d] now z(2) slice v unfolding values_hold_def by (cases "v_name d = v_name ?c") auto
          with old show ?thesis unfolding g values_hold_def headers_hold_def by simp
        next
          case array: False
          then have g: "facts_at w idom n (Suc k) = ?f\<lparr>bf_length := (bf_length ?f)(v_name ?c \<mapsto> i_result i)\<rparr>" using vl 2 by simp
          have "\<exists>y. operand m (st_env \<tau>) d = Some y \<and> holds_int (st_env \<tau>) (v_name t) (hdr (st_mem \<tau>) y)"
            if "d \<in> set (containers fn)" "((bf_length ?f)(v_name ?c \<mapsto> i_result i)) (v_name d) = Some t" for d t
            using that same[of d] now z(3) array len hdr old(2) unfolding headers_hold_def by (cases "v_name d = v_name ?c") auto
          with old show ?thesis unfolding g values_hold_def headers_hold_def by simp
        qed
      qed
    qed
  next
    case access
    then have op: "i_op i \<in> set [''array.get_or_panic'', ''array.at'', ''array.at_mut'']" using e(5) by (auto simp: index_wf_def)
    then have leaves: "leaves_headers (i_op i)" by (auto simp: leaves_headers_def is_pure_op_def pure_ops_def)
    note old = v h[OF leaves]
    have vl: "facts_at w idom n (Suc k) = fst (visit_array_check w ?u i (?f, ?pl))" using next_facts access by (auto simp: visit_instr_def)
    show ?thesis
    proof (cases "2 \<le> length (i_args i) \<and> i_op i = ''array.get_or_panic''")
      case False
      with vl op have "facts_at w idom n (Suc k) = ?f" by (auto simp: access_facts)
      with old show ?thesis by simp
    next
      case True
      then obtain c idx as where c: "i_args i = c # idx # as" by (cases "i_args i"; cases "tl (i_args i)") auto
      have g: "facts_at w idom n (Suc k) = ?f\<lparr>bf_checked := insert (v_name c, v_name idx) (bf_checked ?f)\<rparr>"
        using vl True c by (simp add: access_facts)
      have co: "i_op i \<in> set container_ops" "i_args i \<noteq> []" "i_op i \<noteq> ''phi''" using True c by (auto simp: container_ops_def)
      from own_exec[OF _ x] co(1) obtain vals where vals: "operands m (st_env \<sigma>) (direct_reads i) = Some vals"
        "mc_op m (shape i) vals (st_mem \<sigma>) = Some (Yield x (st_mem \<tau>))" by auto
      from vals(1) c obtain y z ys where y: "operand m (st_env \<sigma>) c = Some y" "operand m (st_env \<sigma>) idx = Some z" "vals = y # z # ys"
        by (auto simp: direct_reads_def split: option.splits)
      from law(4)[OF r(3) vals(2) _ y(3)] True obtain a where a: "z = IntV a" "0 \<le> sint a" "sint a < hdr (st_mem \<sigma>) y" by blast
      have i64: "v_type idx = ''i64''" using e(5) co(1) c by (simp add: index_wf_def)
      have "int_of m (st_env \<tau>) (v_name idx) = Some (sint a)"
        using kept_read(2)[OF run ex co(3), of idx] c int_of_i64[OF i64, of m "st_env \<sigma>"] y(2) a(1) by simp
      moreover have "operand m (st_env \<tau>) c = Some y" using kept_read(1)[OF run ex co(3), of c] c y(1) by simp
      moreover have "hdr (st_mem \<tau>) y = hdr (st_mem \<sigma>) y" by (rule exec_headers[OF r(3) x leaves])
      ultimately have "\<exists>v a. operand m (st_env \<tau>) d = Some v \<and> int_of m (st_env \<tau>) t = Some a \<and> 0 \<le> a \<and> a < hdr (st_mem \<tau>) v"
        if "d \<in> set (containers fn)" "(v_name d, t) \<in> insert (v_name c, v_name idx) (bf_checked ?f)" for d t
        using that container_same[OF r(1) e(4) co(1,2), of d] c a old(2) unfolding headers_hold_def by auto
      with old show ?thesis unfolding g values_hold_def headers_hold_def by simp
    qed
  next
    case other
    then have g: "facts_at w idom n (Suc k) = (if leaves_headers (i_op i) then ?f else forget_headers ?f)"
      using next_facts by (simp add: other_facts)
    show ?thesis using v h by (cases "leaves_headers (i_op i)") (simp_all add: g forgotten_hold)
  qed
qed

section \<open>Counters stay not negative\<close>

lemma result_unparsed: "ssa fn \<Longrightarrow> defs_of fn x = Some i \<Longrightarrow> parse_int64 x = None"
proof -
  assume ssa: "ssa fn" and d: "defs_of fn x = Some i"
  note i = defs_of_Some[OF d]
  from in_all_instrs i obtain p k where "instr_at fn p k = Some i" by blast
  from instr_at_result[OF this] i have "x \<in> set (results fn)" by simp
  with ssa show ?thesis unfolding ssa_def by blast
qed

lemma int_of_result:
  assumes "ssa fn" "defs_of fn x = Some i" "int_of m env x = Some a"
  shows "\<exists>b. env x = Some (IntV b) \<and> sint b = a"
  using assms result_unparsed[OF assms(1,2)] by (auto simp: int_of_def operand_def split: option.splits val.splits)

lemma step_arg:
  assumes "step_of d x = Some y" "d x = Some i"
  obtains j where "j < 2" "i_op i = ''binary.+''" "length (i_args i) = 2" "v_type (i_result i) = ''i64''"
    "v_name (i_args i ! j) = y" "constant_of d (i_args i ! (1 - j)) = Some 1"
proof (cases "constant_of d (i_args i ! 1) = Some 1")
  case True
  with assms show thesis by (intro that[of 0]) (auto simp: step_of_def split: if_splits)
next
  case False
  with assms show thesis by (intro that[of 1]) (auto simp: step_of_def split: if_splits)
qed

lemma feeds:
  assumes "i \<in> set (all_instrs fn)" "v_name (i_result i) \<in> set counters" "inc \<in> set (i_incoming i)" "v_name (in_value inc) = x"
    "step_of (defs_of fn) x \<noteq> None"
  shows "steps_into fn counters x \<noteq> []"
proof -
  have "v_name (i_result i) \<in> set (steps_into fn counters x)"
    unfolding steps_into_def using assms by (auto intro!: bexI[of _ i] bexI[of _ inc])
  then show ?thesis by auto
qed

lemma phi_counts:
  assumes run: "run_of_walk m fn w idom hdr vlen args" and ex: "executes m fn w idom args \<sigma> n k i x \<tau>"
    and cnt: "counters_hold w (st_entry \<sigma>)" and c: "v_name (i_result i) \<in> set (wk_counters w)"
  shows "nonneg_value x"
proof -
  note r = run_facts[OF run] and e = executes_facts[OF run ex]
  note phi = counter_is_phi[OF run e(4) c]
  from executes_parts(3)[OF ex] phi obtain inc where found: "find (\<lambda>inc. in_block inc = st_from \<sigma>) (i_incoming i) = Some inc"
    "operand m (st_entry \<sigma>) (in_value inc) = Some x"
    by (auto simp: exec_def phi_value_def split: option.splits)
  have inc: "inc \<in> set (i_incoming i)" "operand m (st_entry \<sigma>) (in_value inc) = Some x"
    using found by (auto simp: find_Some_iff)
  let ?v = "in_value inc"
  have reads: "?v \<in> set (instr_reads i)" using inc(1) by (simp add: instr_reads_def)
  note typed = consistent_read[OF r(8) e(3) reads]
  obtain s where \<sigma>: "reach m fn (start args s) \<sigma>" using executes_parts(5)[OF ex] by blast
  consider (const) "nonneg_constant (defs_of fn) ?v"
    | (step) y where "step_of (defs_of fn) (v_name ?v) = Some y" "y \<in> set (wk_counters w)"
    using phi inc(1) by (fastforce simp: counts_up_def list_all_iff split: option.splits)
  then show ?thesis
  proof cases
    case const
    then obtain a where a: "constant_of (defs_of fn) ?v = Some a" "0 \<le> sint a" by (auto simp: nonneg_constant_def split: option.splits)
    from constant_holds[OF r(1) \<sigma> r(4) a(1) _ inc(2)] typed have "x = IntV a" by blast
    with a(2) show ?thesis by (simp add: nonneg_value_def)
  next
    case step
    then obtain j where j: "defs_of fn (v_name ?v) = Some j" "v_type (i_result j) = ''i64''"
      by (auto simp: step_of_def split: option.splits if_splits)
    note d = defs_of_Some[OF j(1)]
    have "v_type ?v = ''i64''" using typed[of j] d j(2) by simp
    with inc(2) result_unparsed[OF r(6) j(1)] have "st_entry \<sigma> (v_name ?v) = Some x" by (auto simp: operand_def split: option.splits)
    moreover have "counted w (v_name ?v)"
      using feeds[OF e(4) c inc(1) refl] step r(10,11) by (auto simp: counted_def)
    ultimately show ?thesis using cnt unfolding counters_hold_def by blast
  qed
qed

lemma sint_succ: "0 \<le> sint (a :: i64) \<Longrightarrow> sint a < sint (b :: i64) \<Longrightarrow> sint (word_of_int (sint a + 1) :: i64) = sint a + 1"
proof -
  assume a: "0 \<le> sint a" "sint a < sint b"
  have "sint (word_of_int (sint a + 1) :: i64) = signed_take_bit 63 (sint a + 1)" by (simp only: signed_of_int) simp
  also have "\<dots> = sint a + 1" using a sint_lt[of b] by (intro signed_take_bit_int_eq_self) simp_all
  finally show ?thesis .
qed

lemma step_counts:
  assumes run: "run_of_walk m fn w idom hdr vlen args" and ex: "executes m fn w idom args \<sigma> n k i x \<tau>"
    and f: "values_hold m fn vlen (facts_at w idom n k) (st_env \<sigma>)" and cnt: "counters_hold w (st_env \<sigma>)"
    and c: "steps_into fn (wk_counters w) (v_name (i_result i)) \<noteq> []" "step_of (defs_of fn) (v_name (i_result i)) = Some y"
      "y \<in> set (wk_counters w)" and named: "v_name (i_result i) \<noteq> []"
  shows "nonneg_value x"
proof -
  note r = run_facts[OF run] and e = executes_facts[OF run ex]
  note d = defs_of_instr[OF r(6) e(3) named]
  from step_arg[OF c(2) d] obtain j where j: "j < 2" "i_op i = ''binary.+''" "length (i_args i) = 2" "v_type (i_result i) = ''i64''"
    "v_name (i_args i ! j) = y" "constant_of (defs_of fn) (i_args i ! (1 - j)) = Some 1" by blast
  have types: "list_all (\<lambda>a. v_type a = ''i64'') (i_args i)" using e(5) j(2,4) by (simp add: index_wf_def)
  obtain s where \<sigma>: "reach m fn (start args s) \<sigma>" using executes_parts(5)[OF ex] by blast
  have settled: "bp_unsafe (bounds_walk w (reverse_postorder fn) idom) = []" using run by (simp add: run_of_walk_def)
  from step_bounded[OF r(2) executes_parts(1)[OF ex] j(2) c(1,2) settled] obtain z where
    "(y, z) \<in> bf_less (facts_at w idom n k)" by (auto simp: has_upper_bound_def)
  with f obtain a b where ab: "int_of m (st_env \<sigma>) y = Some a" "int_of m (st_env \<sigma>) z = Some b" "a < b"
    unfolding values_hold_def by blast
  from ab(2) obtain b' :: i64 where b': "b = sint b'" by (auto simp: int_of_def split: option.splits val.splits)
  have op: "i_op i \<noteq> ''phi''" "i_op i \<in> set (''binary.+'' # orderings)" using j(2) by simp_all
  from exec_yields[OF executes_parts(3)[OF ex] op(1)] obtain vals where
    vals: "operands m (st_env \<sigma>) (direct_reads i) = Some vals" "yields m i vals x" by blast
  from two_operands[OF vals(1) j(3)] obtain p q where pq: "operand m (st_env \<sigma>) (i_args i ! 0) = Some p"
    "operand m (st_env \<sigma>) (i_args i ! 1) = Some q" "take (length (i_args i)) vals = [p, q]" by metis
  from integer_yields[OF r(3) op(2) types j(3) vals(2) pq(3)] obtain l u where
    lu: "p = IntV l" "q = IntV u" "int_op (v_type (i_result i)) (i_op i) l u = Some x" by blast
  have x: "x = IntV (word_of_int (sint l + sint u))" using lu(3) j(2,4) by (simp add: int_op_def)
  have one: "\<And>v. operand m (st_env \<sigma>) (i_args i ! (1 - j)) = Some v \<Longrightarrow> v = IntV 1"
  proof -
    fix v assume v: "operand m (st_env \<sigma>) (i_args i ! (1 - j)) = Some v"
    have "i_args i ! (1 - j) \<in> set (instr_reads i)" using j(3) by (auto simp: instr_reads_def intro!: disjI1 nth_mem)
    note typed = consistent_read[OF r(8) e(3) this]
    from constant_holds[OF r(1) \<sigma> r(4) j(6) _ v] typed show "v = IntV 1" by blast
  qed
  have i64: "v_type (i_args i ! j) = ''i64''" using types j(1,3) by (simp add: list_all_length)
  have y: "int_of m (st_env \<sigma>) y = (case operand m (st_env \<sigma>) (i_args i ! j) of Some (IntV a) \<Rightarrow> Some (sint a) | _ \<Rightarrow> None)"
    using int_of_i64[OF i64, of m "st_env \<sigma>"] j(5) by simp
  obtain t :: i64 where t: "sint t = a" "sint l + sint u = sint t + 1"
  proof (cases "j = 0")
    case True
    then show thesis using that[of l] y ab(1) one pq lu by simp
  next
    case False
    then have "j = 1" using j(1) by simp
    then show thesis using that[of u] y ab(1) one pq lu by simp
  qed
  have "y \<noteq> []" "defs_of fn y \<noteq> None"
  proof -
    obtain excluded where "wk_counters w = drop_all_counters fn (candidate_counters fn excluded)"
      using run by (auto simp: run_of_walk_def loop_counters_def)
    with c(3) drop_all_counters_subset[of fn "candidate_counters fn excluded"] obtain h where
      h: "h \<in> set (all_instrs fn)" "v_name (i_result h) = y" by (auto simp: candidate_counters_def)
    then have "v_name (i_result h) \<noteq> []" using counter_is_phi[OF run h(1)] c(3) by simp
    with h in_all_instrs[OF h(1)] defs_of_instr[OF r(6)] show "y \<noteq> []" "defs_of fn y \<noteq> None" by force+
  qed
  then obtain g where "defs_of fn y = Some g" by blast
  from int_of_result[OF r(6) this ab(1)] obtain a' where a': "st_env \<sigma> y = Some (IntV a')" "sint a' = a" by blast
  have "counted w y" using c(3) by (simp add: counted_def)
  with cnt a'(1) have "nonneg_value (IntV a' :: 'a val)" unfolding counters_hold_def by blast
  then have "0 \<le> a" using a'(2) by (simp add: nonneg_value_def)
  then show ?thesis using sint_succ[of t b'] t ab(3) b' x by (simp add: nonneg_value_def)
qed

lemma counters_step:
  assumes run: "run_of_walk m fn w idom hdr vlen args" and ex: "executes m fn w idom args \<sigma> n k i x \<tau>"
    and f: "values_hold m fn vlen (facts_at w idom n k) (st_env \<sigma>)"
    and cnt: "counters_hold w (st_env \<sigma>)" "counters_hold w (st_entry \<sigma>)"
  shows "counters_hold w (st_env \<tau>)"
  unfolding counters_hold_def
proof (intro allI impI)
  fix y v
  assume y: "counted w y" "st_env \<tau> y = Some v"
  note r = run_facts[OF run] and e = executes_facts[OF run ex]
  show "nonneg_value v"
  proof (cases "y = v_name (i_result i) \<and> y \<noteq> []")
    case False
    have "st_env \<tau> y = st_env \<sigma> y"
      using False e(10)[of y] kept_names[OF run ex, of "[]"] by (cases "y = []") (auto simp: defined_before_def)
    with y cnt(1) show ?thesis unfolding counters_hold_def by metis
  next
    case True
    have v: "v = x" using e(8) y(2) True by auto
    from y(1) True r(10,11) show ?thesis unfolding counted_def v
      using phi_counts[OF run ex cnt(2)] step_counts[OF run ex f cnt(1)] by metis
  qed
qed

section \<open>Every reached state is sound\<close>

definition passed :: "func \<Rightarrow> point \<Rightarrow> point \<Rightarrow> bool" where
  "passed fn d u \<longleftrightarrow> d = u \<or> \<not> avoids fn d u"

definition sound_at :: "('v, 's) machine \<Rightarrow> func \<Rightarrow> walker \<Rightarrow> idoms \<Rightarrow> ('s \<Rightarrow> 'v val \<Rightarrow> int) \<Rightarrow> ('v val \<Rightarrow> int) \<Rightarrow> ('v, 's) state \<Rightarrow> bool" where
  "sound_at m fn w idom hdr vlen \<sigma> \<longleftrightarrow>
     (\<forall>n k. n < length (reverse_postorder fn) \<longrightarrow> k \<le> block_end fn n \<longrightarrow> passed fn (reverse_postorder fn ! n, k) (point_of \<sigma>) \<longrightarrow>
        values_hold m fn vlen (facts_at w idom n k) (st_env \<sigma>) \<and>
        ((reverse_postorder fn ! n, k) = point_of \<sigma> \<or> quiet fn (reverse_postorder fn ! n, k) (point_of \<sigma>) \<longrightarrow>
           headers_hold m fn hdr (facts_at w idom n k) (st_env \<sigma>) (st_mem \<sigma>))) \<and>
     aliases_hold fn (final_aliases w idom) (point_of \<sigma>) (st_env \<sigma>) \<and> counters_hold w (st_env \<sigma>) \<and> counters_hold w (st_entry \<sigma>)"

lemma sound_facts:
  assumes "sound_at m fn w idom hdr vlen \<sigma>" "n < length (reverse_postorder fn)" "k \<le> block_end fn n"
  shows "passed fn (reverse_postorder fn ! n, k) (point_of \<sigma>) \<Longrightarrow> values_hold m fn vlen (facts_at w idom n k) (st_env \<sigma>)"
    and "passed fn (reverse_postorder fn ! n, k) (point_of \<sigma>) \<Longrightarrow> (reverse_postorder fn ! n, k) = point_of \<sigma> \<or> quiet fn (reverse_postorder fn ! n, k) (point_of \<sigma>) \<Longrightarrow>
      headers_hold m fn hdr (facts_at w idom n k) (st_env \<sigma>) (st_mem \<sigma>)"
  using assms unfolding sound_at_def by blast+

lemma passed_back: "passed fn d v \<Longrightarrow> v \<noteq> d \<Longrightarrow> edge fn u v \<Longrightarrow> passed fn d u"
  unfolding passed_def using avoids.onward by blast

lemma reached_place:
  assumes "walks w fn idom" "reach m fn (start args s) \<sigma>"
  obtains n where "n < length (reverse_postorder fn)" "reverse_postorder fn ! n = st_block \<sigma>"
proof -
  note f = walks_facts[OF assms(1)]
  from reachable_path[OF reach_point[OF assms(2)] f(6)] obtain ps where "block_path fn ps (st_block \<sigma>)" by (auto simp: point_of_def)
  from block_path_flow[OF f(8) this] obtain i where "place_in (reverse_postorder fn) (st_block \<sigma>) = Some i" by blast
  with place_in_Some[OF f(11)] that show thesis by blast
qed

lemma same_place:
  assumes "walks w fn idom" "n < length (reverse_postorder fn)" "n' < length (reverse_postorder fn)"
    "reverse_postorder fn ! n = reverse_postorder fn ! n'"
  shows "n = n'"
  using assms(2-4) walks_facts(11)[OF assms(1)] by (simp add: nth_eq_iff_index_eq)

lemma counted_result:
  assumes run: "run_of_walk m fn w idom hdr vlen args" and y: "counted w y"
  shows "args y = None"
proof -
  note r = run_facts[OF run]
  have "\<exists>i. i \<in> set (all_instrs fn) \<and> v_name (i_result i) = y \<and> y \<noteq> []"
  proof (cases "y \<in> set (wk_counters w)")
    case True
    obtain excluded where "wk_counters w = drop_all_counters fn (candidate_counters fn excluded)"
      using run by (auto simp: run_of_walk_def loop_counters_def)
    with True drop_all_counters_subset[of fn "candidate_counters fn excluded"] obtain h where
      "h \<in> set (all_instrs fn)" "v_name (i_result h) = y" by (auto simp: candidate_counters_def)
    with counter_is_phi[OF run, of h] True show ?thesis by blast
  next
    case False
    with y r(11) obtain i where "defs_of fn y = Some i" by (auto simp: counted_def step_of_def split: option.splits)
    from defs_of_Some[OF this] show ?thesis by blast
  qed
  then obtain i p k where "instr_at fn p k = Some i" "v_name (i_result i) = y" "y \<noteq> []" using in_all_instrs by blast
  with result_not_arg[OF r(6,4)] show ?thesis by metis
qed

lemma sound_start:
  assumes run: "run_of_walk m fn w idom hdr vlen args"
  shows "sound_at m fn w idom hdr vlen (start args s)"
proof -
  note r = run_facts[OF run]
  note order = postorder[OF r(12)]
  have n0: "0 < length (reverse_postorder fn)" using order(3) by (cases "reverse_postorder fn") simp_all
  have zero: "reverse_postorder fn ! 0 = 0" using order(5)[OF n0] by simp
  have pt: "point_of (start args s :: ('a, 'b) state) = (0, 0)" by (simp add: point_of_def start_def)
  have here: "n = 0 \<and> k = 0" if "n < length (reverse_postorder fn)" "passed fn (reverse_postorder fn ! n, k) (0, 0)" for n k
    using that avoids.entry[of fn "(reverse_postorder fn ! n, k)"] same_place[OF r(2) that(1) n0] zero by (auto simp: passed_def)
  have "args y = None" if "counted w y" for y using counted_result[OF run that] .
  then have cnt: "counters_hold w args" by (auto simp: counters_hold_def)
  have "\<not> defined_before fn y (0, 0)" if y: "(y, known) \<in> set (final_aliases w idom)" for y known
  proof -
    have "(y, known) \<in> set (bp_aliases (bounds_walk w (reverse_postorder fn) idom))" using y r(10) by simp
    from aliases_origin[OF r(2) this] r(10) obtain n k i where i: "instr_at fn (reverse_postorder fn ! n) k = Some i" "v_name (i_result i) = y"
      "i_op i = ''array.len'' \<or> i_op i = ''slice.len''" by (auto simp: visited_at_def length_known_def)
    with named_result[OF r(6) i(1)] avoids.entry show ?thesis unfolding defined_before_def by fastforce
  qed
  then have al: "aliases_hold fn (final_aliases w idom) (0, 0) args" unfolding aliases_hold_def by blast
  have "facts_at w idom n k = no_facts" if "n < length (reverse_postorder fn)" "passed fn (reverse_postorder fn ! n, k) (0, 0)" for n k
    using here[OF that] entry_facts by simp
  with cnt al show ?thesis unfolding sound_at_def pt by (simp add: start_def no_facts_hold)
qed

lemma sound_parts:
  assumes "sound_at m fn w idom hdr vlen \<sigma>"
  shows "aliases_hold fn (final_aliases w idom) (point_of \<sigma>) (st_env \<sigma>)" "counters_hold w (st_env \<sigma>)" "counters_hold w (st_entry \<sigma>)"
  using assms unfolding sound_at_def by blast+

lemma sound_instr:
  assumes run: "run_of_walk m fn w idom hdr vlen args" and ex: "executes m fn w idom args \<sigma> n k i x \<tau>"
    and so: "sound_at m fn w idom hdr vlen \<sigma>"
  shows "sound_at m fn w idom hdr vlen \<tau>"
proof -
  note r = run_facts[OF run] and e = executes_facts[OF run ex] and parts = executes_parts[OF ex]
  let ?order = "reverse_postorder fn"
  have k: "k \<le> block_end fn n" using e(2) by simp
  have here: "passed fn (?order ! n, k) (point_of \<sigma>)" using parts(2) by (simp add: passed_def)
  have f: "values_hold m fn vlen (facts_at w idom n k) (st_env \<sigma>)" "headers_hold m fn hdr (facts_at w idom n k) (st_env \<sigma>) (st_mem \<sigma>)"
    using sound_facts[OF so e(1) k here] parts(2) by simp_all
  note al = aliases_step[OF run ex f sound_parts(1)[OF so]]
  note cnt = counters_step[OF run ex f(1) sound_parts(2,3)[OF so]]
  note new = visit_holds[OF run ex f al]
  have edge: "edge fn (point_of \<sigma>) (point_of \<tau>)" by (rule step_edge[OF parts(4)])
  obtain s where reach: "reach m fn (start args s) \<sigma>" using parts(5) by blast
  show ?thesis unfolding sound_at_def
  proof (intro conjI allI impI)
    fix l j
    assume l: "l < length ?order" "j \<le> block_end fn l" and p: "passed fn (?order ! l, j) (point_of \<tau>)"
    let ?d = "(?order ! l, j)"
    have both: "values_hold m fn vlen (facts_at w idom l j) (st_env \<tau>) \<and>
      (?d = point_of \<tau> \<or> quiet fn ?d (point_of \<tau>) \<longrightarrow> headers_hold m fn hdr (facts_at w idom l j) (st_env \<tau>) (st_mem \<tau>))"
    proof (cases "?d = point_of \<tau>")
      case True
      with e(6) same_place[OF r(2) l(1) e(1)] have "l = n" "j = Suc k" by simp_all
      with new show ?thesis by simp
    next
      case False
      have came: "passed fn ?d (point_of \<sigma>)" using passed_back[OF p False[symmetric] edge] .
      have same: "st_env \<tau> y = st_env \<sigma> y" if "y \<in> fact_names (facts_at w idom l j)" for y
        using that walk_known(1)[OF r(2) l] came kept_from[OF reach parts(4), of ?d y] unfolding known_before_def passed_def by blast
      have v: "values_hold m fn vlen (facts_at w idom l j) (st_env \<tau>)"
        by (rule values_kept[OF same sound_facts(1)[OF so l came]])
      have "headers_hold m fn hdr (facts_at w idom l j) (st_env \<tau>) (st_mem \<tau>)" if q: "quiet fn ?d (point_of \<tau>)"
      proof -
        note tau = False[symmetric]
        have "?d = point_of \<sigma> \<or> quiet fn ?d (point_of \<sigma>)" using quiet_back[OF q edge tau] by metis
        note h = sound_facts(2)[OF so l came this]
        have "leaves_headers (i_op i)" using quiet_here[OF q _ tau e(3)] edge parts(2) by simp
        note hdr = exec_headers[OF r(3) parts(3) this]
        show ?thesis by (rule headers_kept[OF same hdr h])
      qed
      with v False show ?thesis by blast
    qed
    then show "values_hold m fn vlen (facts_at w idom l j) (st_env \<tau>)" by blast
    show "headers_hold m fn hdr (facts_at w idom l j) (st_env \<tau>) (st_mem \<tau>)" if "?d = point_of \<tau> \<or> quiet fn ?d (point_of \<tau>)"
      using both that by blast
  next
    show "aliases_hold fn (final_aliases w idom) (point_of \<tau>) (st_env \<tau>)" by (rule al)
    show "counters_hold w (st_env \<tau>)" by (rule cnt)
    show "counters_hold w (st_entry \<tau>)" using sound_parts(3)[OF so] e(9) by simp
  qed
qed

text \<open>The condition of a branch is true on the edge to its target.\<close>

lemma branch_taken_value:
  assumes "step m fn \<sigma> = Go \<tau>" "current_instr fn \<sigma> = None" "st_block \<sigma> < length (f_blocks fn)"
    and t: "t = b_term (f_blocks fn ! st_block \<sigma>)" "t_op t = ''branch''" "t_target t \<noteq> t_else t"
  shows "operand m (st_env \<sigma>) (t_cond t) = Some (BoolV (t_target t = b_name (f_blocks fn ! st_block \<tau>)))"
proof -
  have "end_block m fn \<sigma> t = Go \<tau>" using assms by (simp add: step_end)
  then obtain c where c: "operand m (st_env \<sigma>) (t_cond t) = Some (BoolV c)" "goto fn \<sigma> (if c then t_target t else t_else t) = Go \<tau>"
    using t(2) by (auto simp: end_block_def split: option.splits val.splits)
  from c(2) obtain p where p: "positions (f_blocks fn) (if c then t_target t else t_else t) = Some p" "st_block \<tau> = p"
    by (auto simp: goto_Go)
  from positions_Some[OF p(1)] p(2) have "b_name (f_blocks fn ! st_block \<tau>) = (if c then t_target t else t_else t)" by simp
  with c(1) t(3) show ?thesis by (cases c) auto
qed

lemma sound_jump:
  assumes run: "run_of_walk m fn w idom hdr vlen args" and reach: "reach m fn (start args s) \<sigma>" and go: "step m fn \<sigma> = Go \<tau>"
    and jump: "current_instr fn \<sigma> = None" "st_block \<sigma> < length (f_blocks fn)"
      "\<tau> = \<sigma>\<lparr>st_block := p, st_step := 0, st_from := b_name (f_blocks fn ! st_block \<sigma>), st_entry := st_env \<sigma>\<rparr>"
    and so: "sound_at m fn w idom hdr vlen \<sigma>"
  shows "sound_at m fn w idom hdr vlen \<tau>"
proof -
  note r = run_facts[OF run]
  let ?order = "reverse_postorder fn"
  have \<tau>: "st_env \<tau> = st_env \<sigma>" "st_mem \<tau> = st_mem \<sigma>" "st_entry \<tau> = st_env \<sigma>" "point_of \<tau> = (p, 0)" "st_block \<tau> = p"
    using jump(3) by (simp_all add: point_of_def)
  have edge: "edge fn (point_of \<sigma>) (point_of \<tau>)" by (rule step_edge[OF go])
  have over: "\<not> st_step \<sigma> < length (b_instrs (f_blocks fn ! st_block \<sigma>))"
    using jump(1,2) by (auto simp: current_instr_def instr_at_def split: if_splits)
  have pred: "st_block \<sigma> \<in> set (block_predecessors fn ! p)"
    using predecessor_edge[OF _ over r(9)] edge \<tau>(4) by (simp add: point_of_def)
  have "snd (point_of \<sigma>) \<le> length (b_instrs (f_blocks fn ! fst (point_of \<sigma>)))"
    using avoids_bound reachable_avoids[OF reach_point[OF reach]] by blast
  with over have end_p: "point_of \<sigma> = end_point fn (st_block \<sigma>)" by (simp add: point_of_def end_point_def)
  have al: "aliases_hold fn (final_aliases w idom) (point_of \<tau>) (st_env \<tau>)"
  proof -
    have "defined_before fn y (point_of \<sigma>)" if y: "defined_before fn y (point_of \<tau>)" for y
      unfolding defined_before_def
    proof (intro allI impI)
      fix q l i assume i: "instr_at fn q l = Some i" "v_name (i_result i) = y" "y \<noteq> []"
      have "point_of \<sigma> \<noteq> (q, l)" using i(1) jump(1) by (auto simp: current_instr_def point_of_def)
      moreover have "\<not> avoids fn (q, l) (point_of \<tau>)" using y i unfolding defined_before_def by blast
      ultimately show "\<not> avoids fn (q, l) (point_of \<sigma>)" using avoids.onward[OF _ _ edge] by blast
    qed
    with sound_parts(1)[OF so] show ?thesis unfolding \<tau>(1) aliases_hold_def by blast
  qed
  have new: "values_hold m fn vlen (facts_at w idom n 0) (st_env \<sigma>) \<and> headers_hold m fn hdr (facts_at w idom n 0) (st_env \<sigma>) (st_mem \<sigma>)"
    if n: "n < length ?order" "?order ! n = p" for n
  proof (cases "n = 0")
    case True
    then show ?thesis by (simp add: entry_facts no_facts_hold)
  next
    case False
    then have n0: "0 < n" by simp
    obtain d where d: "d < n" "idom_at idom n = Some d" and facts: "(let p = ?order ! n; q = ?order ! d; f = facts_at w idom d (block_end fn d);
          preds = block_predecessors fn ! p
      in facts_at w idom n 0 =
        (if preds = [q] then learn_edge w (plan_at w idom n 0) (b_term (f_blocks fn ! q)) (b_name (f_blocks fn ! p)) f
         else if paths_may_write_headers fn p q [] (rev preds) then forget_headers f else f))"
      using inner_facts[OF r(2) n0 n(1)] by blast
    let ?q = "?order ! d" and ?f = "facts_at w idom d (block_end fn d)"
    have dl: "d < length ?order" using d(1) n(1) by simp
    have e: "end_point fn ?q = (?q, block_end fn d)" by (simp add: end_point_def block_end_def)
    have "?q \<noteq> p" using same_place[OF r(2) dl n(1)] d(1) n(2) by auto
    then have ne: "point_of \<tau> \<noteq> end_point fn ?q" using \<tau>(4) by (simp add: end_point_def)
    have "passed fn (end_point fn ?q) (point_of \<tau>)"
      using child_after[OF r(2) n(1) d(2,1)] n(2) \<tau>(4) by (simp add: passed_def)
    from passed_back[OF this ne edge] have came: "passed fn (?q, block_end fn d) (point_of \<sigma>)" using e by simp
    note v = sound_facts(1)[OF so dl order_refl came]
    have h: "headers_hold m fn hdr ?f (st_env \<sigma>) (st_mem \<sigma>)"
      if "block_predecessors fn ! p = [?q] \<or> \<not> paths_may_write_headers fn p ?q [] (rev (block_predecessors fn ! p))"
    proof -
      have "quiet fn (end_point fn ?q) (point_of \<tau>)" using child_quiet[OF r(2) n0 n(1), of ?q] that n(2) \<tau>(4) by simp
      with quiet_back[OF _ edge ne] have "end_point fn ?q = point_of \<sigma> \<or> quiet fn (end_point fn ?q) (point_of \<sigma>)" by metis
      then have "(?q, block_end fn d) = point_of \<sigma> \<or> quiet fn (?q, block_end fn d) (point_of \<sigma>)" unfolding e .
      from sound_facts(2)[OF so dl order_refl came this] show ?thesis .
    qed
    show ?thesis
    proof (cases "block_predecessors fn ! p = [?q]")
      case False
      with facts v h n(2) show ?thesis by (auto simp: Let_def forgotten_hold)
    next
      case True
      let ?t = "b_term (f_blocks fn ! ?q)"
      have q: "st_block \<sigma> = ?q" using pred True by simp
      have g: "facts_at w idom n 0 = learn_edge w (plan_at w idom n 0) ?t (b_name (f_blocks fn ! p)) ?f"
        using facts True n(2) by (simp add: Let_def)
      show ?thesis
      proof (cases "t_op ?t \<noteq> ''branch'' \<or> t_target ?t = t_else ?t")
        case True
        with g v h[OF disjI1[OF \<open>block_predecessors fn ! p = [?q]\<close>]] show ?thesis by (auto simp: learn_edge_def)
      next
        case False
        have learn: "facts_at w idom n 0 = learn_condition w (plan_at w idom n 0) (t_cond ?t) (t_target ?t = b_name (f_blocks fn ! p)) ?f"
          using g False by (simp add: learn_edge_def)
        have c: "operand m (st_env \<sigma>) (t_cond ?t) = Some (BoolV (t_target ?t = b_name (f_blocks fn ! p)))"
          using branch_taken_value[OF go jump(1,2), of ?t] False q \<tau>(5) by simp
        have "defined_before fn (v_name (t_cond ?t)) (point_of \<sigma>)"
          using condition_defined[OF r(7), of ?q] False jump(2) q end_p by simp
        moreover have "set (bp_aliases (plan_at w idom n 0)) \<subseteq> set (final_aliases w idom)" using plan_at_le[OF r(2) n(1)] r(10) by simp
        moreover have "copy_before fn (lookup_last (bp_aliases (plan_at w idom n 0)))" using walk_known(2)[OF r(2) n(1)] by simp
        ultimately have "values_hold m fn vlen (facts_at w idom n 0) (st_env \<sigma>)"
          unfolding learn using learn_holds[OF run reach aliases_mono[OF sound_parts(1)[OF so]] _ v _ c] by blast
        with h[OF disjI1[OF True]] learn show ?thesis by (simp add: learn_headers)
      qed
    qed
  qed
  show ?thesis unfolding sound_at_def
  proof (intro conjI allI impI)
    fix l j
    assume l: "l < length ?order" "j \<le> block_end fn l" and p: "passed fn (?order ! l, j) (point_of \<tau>)"
    let ?d = "(?order ! l, j)"
    have both: "values_hold m fn vlen (facts_at w idom l j) (st_env \<tau>) \<and>
      (?d = point_of \<tau> \<or> quiet fn ?d (point_of \<tau>) \<longrightarrow> headers_hold m fn hdr (facts_at w idom l j) (st_env \<tau>) (st_mem \<tau>))"
    proof (cases "?d = point_of \<tau>")
      case True
      with \<tau>(4) have "?order ! l = p" "j = 0" by simp_all
      with new[OF l(1)] \<tau>(1,2) show ?thesis by simp
    next
      case False
      note tau = False[symmetric]
      note came = passed_back[OF p tau edge]
      have "?d = point_of \<sigma> \<or> quiet fn ?d (point_of \<sigma>)" if "quiet fn ?d (point_of \<tau>)"
        using quiet_back[OF that edge tau] by metis
      with sound_facts[OF so l came] False show ?thesis unfolding \<tau>(1,2) by blast
    qed
    then show "values_hold m fn vlen (facts_at w idom l j) (st_env \<tau>)" by blast
    show "headers_hold m fn hdr (facts_at w idom l j) (st_env \<tau>) (st_mem \<tau>)" if "?d = point_of \<tau> \<or> quiet fn ?d (point_of \<tau>)"
      using both that by blast
  qed (use al sound_parts[OF so] \<tau> in simp_all)
qed

lemma sound_reach:
  assumes run: "run_of_walk m fn w idom hdr vlen args" and "reach m fn (start args s) \<sigma>"
  shows "sound_at m fn w idom hdr vlen \<sigma>"
  using assms(2)
proof (induction rule: reach.induct)
  case here
  show ?case by (rule sound_start[OF run])
next
  case (further \<sigma> \<tau>)
  from further.hyps(2) show ?case
  proof (cases rule: step_cases)
    case (instr i x s')
    obtain n where n: "n < length (reverse_postorder fn)" "reverse_postorder fn ! n = st_block \<sigma>"
      using reached_place[OF run_facts(2)[OF run] further.hyps(1)] by blast
    have "executes m fn w idom args \<sigma> n (st_step \<sigma>) i x \<tau>"
      unfolding executes_def
    proof (intro conjI)
      show "visited_at w idom n (st_step \<sigma>) i"
        using n instr(1) run_facts(10)[OF run] by (simp add: visited_at_def current_instr_def)
      show "\<exists>s. reach m fn (start args s) \<sigma>" using further.hyps(1) by blast
    qed (use further.hyps(2) instr n in \<open>simp_all add: point_of_def\<close>)
    from sound_instr[OF run this further.IH] show ?thesis .
  next
    case (jump target p)
    from sound_jump[OF run further.hyps jump(1,2,5) further.IH] show ?thesis .
  qed
qed

section \<open>What the plan says is true\<close>

lemma less_fact:
  "values_hold m fn vlen f env \<Longrightarrow> (x, y) \<in> bf_less f \<Longrightarrow> \<exists>a b. int_of m env x = Some a \<and> int_of m env y = Some b \<and> a < b"
  unfolding values_hold_def by blast

lemma int_operand: "v_type v = ''i64'' \<Longrightarrow> int_of m env (v_name v) = Some a \<Longrightarrow> \<exists>b. operand m env v = Some (IntV b) \<and> sint b = a"
  by (auto simp: int_of_i64 split: option.splits val.splits)

lemma length_nonneg:
  assumes run: "run_of_walk m fn w idom hdr vlen args" and reach: "reach m fn (start args s) \<sigma>"
    and i: "defs_of fn x = Some i" "i_op i = ''array.len'' \<or> i_op i = ''slice.len''" and v: "st_env \<sigma> x = Some v"
  shows "nonneg_value v"
proof -
  note r = run_facts[OF run]
  note d = defs_of_Some[OF i(1)]
  from in_all_instrs d obtain p k where at: "instr_at fn p k = Some i" by blast
  have "args x = None" using result_not_arg[OF r(6,4) at] d by simp
  with reach_origin[OF reach, THEN conjunct1, rule_format, OF v] have "made m fn (start args s) x v" by simp
  with made_by[OF r(6) at, of m "start args s" v] d obtain \<rho> t where x: "exec m \<rho> i = Some (Yield v t)" by auto
  have "index_wf i" using r(1) d by (auto simp: bounds_wf_def list_all_iff)
  moreover have op: "i_op i \<in> set container_ops" using i(2) by (auto simp: container_ops_def)
  ultimately obtain a where a: "direct_reads i = [a]" using i(2) by (cases "i_args i") (auto simp: index_wf_def direct_reads_def)
  from own_exec[OF _ x] op obtain vals where vals: "operands m (st_env \<rho>) (direct_reads i) = Some vals"
    "mc_op m (shape i) vals (st_mem \<rho>) = Some (Yield v t)" by auto
  from vals(1) a obtain z where z: "vals = [z]" by (auto split: option.splits)
  from i(2) law(2)[OF r(3) vals(2) _ z] law(3)[OF r(3) vals(2) _ z] show ?thesis by (auto simp: nonneg_value_def)
qed

text \<open>A value the walk takes for not negative is not.\<close>

lemma non_negative_holds:
  assumes run: "run_of_walk m fn w idom hdr vlen args" and reach: "reach m fn (start args s) \<sigma>"
    and al: "aliases_hold fn (bp_aliases pl) (point_of \<sigma>) (st_env \<sigma>)" "copy_before fn (lookup_last (bp_aliases pl))"
    and f: "values_hold m fn vlen f (st_env \<sigma>)" and cnt: "counters_hold w (st_env \<sigma>)"
    and v: "non_negative w pl f v" "defined_before fn (v_name v) (point_of \<sigma>)" "int_of m (st_env \<sigma>) (v_name v) = Some a"
    and typed: "\<And>i. i \<in> set (all_instrs fn) \<Longrightarrow> v_name (i_result i) = v_name v \<Longrightarrow> v_name v \<noteq> [] \<Longrightarrow> v_type v = v_type (i_result i)"
  shows "0 \<le> a"
proof -
  note r = run_facts[OF run]
  let ?x = "resolved_name (bp_aliases pl) (v_name v)"
  have x: "int_of m (st_env \<sigma>) ?x = Some a" using resolved_int[OF al v(2), of m] v(3) by simp
  have named: "0 \<le> a" if "defs_of fn ?x = Some i" "\<And>y. st_env \<sigma> ?x = Some y \<Longrightarrow> nonneg_value y" for i
    using int_of_result[OF r(6) that(1) x] that(2) by (auto simp: nonneg_value_def)
  consider (fact) "?x \<in> bf_nonneg f" | (counter) "?x \<in> set (wk_counters w)" | (const) "nonneg_constant (defs_of fn) v"
    | (len) i where "defs_of fn ?x = Some i" "i_op i = ''array.len'' \<or> i_op i = ''slice.len''"
    using v(1) r(11) by (auto simp: non_negative_def Let_def split: option.splits)
  then show ?thesis
  proof cases
    case fact
    with f x show ?thesis unfolding values_hold_def by fastforce
  next
    case counter
    obtain excluded where "wk_counters w = drop_all_counters fn (candidate_counters fn excluded)"
      using run by (auto simp: run_of_walk_def loop_counters_def)
    with counter drop_all_counters_subset[of fn "candidate_counters fn excluded"] obtain h where
      h: "h \<in> set (all_instrs fn)" "v_name (i_result h) = ?x" by (auto simp: candidate_counters_def)
    then have ne: "v_name (i_result h) \<noteq> []" using counter_is_phi[OF run h(1)] counter by simp
    from in_all_instrs[OF h(1)] obtain p k where "instr_at fn p k = Some h" by blast
    from defs_of_instr[OF r(6) this ne] h(2) have "defs_of fn ?x = Some h" by simp
    then show ?thesis using cnt counter by (intro named) (auto simp: counters_hold_def counted_def)
  next
    case const
    then obtain c where c: "constant_of (defs_of fn) v = Some c" "0 \<le> sint c" by (auto simp: nonneg_constant_def split: option.splits)
    have i64: "v_type v = ''i64''" using c(1) by (auto simp: constant_of_def split: if_splits)
    obtain y where y: "operand m (st_env \<sigma>) v = Some y" using v(3) int_of_i64[OF i64, of m "st_env \<sigma>"]
      by (cases "operand m (st_env \<sigma>) v") simp_all
    have "y = IntV c" using constant_holds[OF r(1) reach r(4) c(1) _ y typed] by blast
    with y v(3) int_of_i64[OF i64, of m "st_env \<sigma>"] c(2) show ?thesis by simp
  next
    case len
    then show ?thesis using length_nonneg[OF run reach len] by (intro named[OF len(1)]) blast
  qed
qed

text \<open>The state at a point of the walk.\<close>

lemma at_point:
  assumes run: "run_of_walk m fn w idom hdr vlen args" and reach: "reach m fn (start args s) \<sigma>"
    and v: "visited_at w idom n k i" "point_of \<sigma> = (reverse_postorder fn ! n, k)"
  shows "n < length (reverse_postorder fn)" "instr_at fn (reverse_postorder fn ! n) k = Some i" "k \<le> block_end fn n"
    "values_hold m fn vlen (facts_at w idom n k) (st_env \<sigma>)" "headers_hold m fn hdr (facts_at w idom n k) (st_env \<sigma>) (st_mem \<sigma>)"
    "aliases_hold fn (bp_aliases (plan_at w idom n k)) (point_of \<sigma>) (st_env \<sigma>)"
    "copy_before fn (lookup_last (bp_aliases (plan_at w idom n k)))" "counters_hold w (st_env \<sigma>)"
proof -
  note r = run_facts[OF run]
  note so = sound_reach[OF run reach]
  show n: "n < length (reverse_postorder fn)" "instr_at fn (reverse_postorder fn ! n) k = Some i"
    using v(1) r(10) by (simp_all add: visited_at_def)
  then show k: "k \<le> block_end fn n" by (auto simp: instr_at_def block_end_def split: if_splits)
  have p: "passed fn (reverse_postorder fn ! n, k) (point_of \<sigma>)" using v(2) by (simp add: passed_def)
  show "values_hold m fn vlen (facts_at w idom n k) (st_env \<sigma>)" "headers_hold m fn hdr (facts_at w idom n k) (st_env \<sigma>) (st_mem \<sigma>)"
    using sound_facts[OF so n(1) k p] v(2) by simp_all
  show "aliases_hold fn (bp_aliases (plan_at w idom n k)) (point_of \<sigma>) (st_env \<sigma>)"
    using aliases_mono[OF sound_parts(1)[OF so]] plan_at_le[OF r(2) n(1), of k] r(10) by simp
  show "copy_before fn (lookup_last (bp_aliases (plan_at w idom n k)))" by (rule walk_known(2)[OF r(2) n(1) k])
  show "counters_hold w (st_env \<sigma>)" by (rule sound_parts(2)[OF so])
qed

lemma dropped_holds:
  assumes run: "run_of_walk m fn w idom hdr vlen args" and reach: "reach m fn (start args s) \<sigma>"
    and "point_of \<sigma> \<in> set (bp_drops (bounds_walk w (reverse_postorder fn) idom))"
  shows "\<exists>i. current_instr fn \<sigma> = Some i \<and> i_op i = ''cond_fail'' \<and> i_args i \<noteq> [] \<and>
    operand m (st_env \<sigma>) (hd (i_args i)) = Some (BoolV False)"
proof -
  note r = run_facts[OF run]
  from drops_origin[OF r(2) assms(3)] obtain n k i where v: "visited_at w idom n k i" "point_of \<sigma> = (reverse_postorder fn ! n, k)"
    and i: "i_op i = ''cond_fail''" "i_args i \<noteq> []" and ans: "check_answered w (plan_at w idom n k) (facts_at w idom n k) (hd (i_args i))" by blast
  note at = at_point[OF run reach v]
  let ?c = "hd (i_args i)" and ?al = "bp_aliases (plan_at w idom n k)" and ?int = "int_of m (st_env \<sigma>)"
  have before: "defined_before fn (v_name ?c) (point_of \<sigma>)" using read_before[OF r(5) at(2), of ?c] i v(2) by simp
  from ans r(11) obtain j where j: "defs_of fn (v_name ?c) = Some j" "length (i_args j) = 2" "v_type (i_args j ! 0) = ''i64''"
    "i_op j = ''binary.<'' \<and> constant_of (defs_of fn) (i_args j ! 1) = Some 0 \<and> non_negative w (plan_at w idom n k) (facts_at w idom n k) (i_args j ! 0) \<or>
     i_op j = ''binary.>='' \<and> (resolved_name ?al (v_name (i_args j ! 0)), resolved_name ?al (v_name (i_args j ! 1))) \<in> bf_less (facts_at w idom n k)"
    by (auto simp: check_answered_def Let_def split: option.splits if_splits)
  have op: "i_op j \<in> set orderings" "i_op j \<noteq> ''phi''" using j(4) by (auto simp: orderings_def)
  from ordering_known[OF r(1,3) reach j(1-3) op(1) before] obtain l u where
    lu: "?int (v_name (i_args j ! 0)) = Some l" "?int (v_name (i_args j ! 1)) = Some u"
    "operand m (st_env \<sigma>) ?c = Some (BoolV (ordering (i_op j) l u))" by blast
  have args: "i_args j ! 0 \<in> set (i_args j)" "i_args j ! 1 \<in> set (i_args j)" using j(2) by simp_all
  note ab = operand_before[OF r(7) j(1) op(2) args(1) before] operand_before[OF r(7) j(1) op(2) args(2) before]
  from defs_of_Some[OF j(1)] in_all_instrs obtain q h where jat: "instr_at fn q h = Some j" by blast
  have typed: "\<And>v i. v \<in> set (i_args j) \<Longrightarrow> i \<in> set (all_instrs fn) \<Longrightarrow> v_name (i_result i) = v_name v \<Longrightarrow> v_name v \<noteq> [] \<Longrightarrow> v_type v = v_type (i_result i)"
    using consistent_read[OF r(8) jat] by (auto simp: instr_reads_def)
  have "\<not> ordering (i_op j) l u"
    using j(4)
  proof (elim disjE conjE)
    assume lt: "i_op j = ''binary.<''" and c: "constant_of (defs_of fn) (i_args j ! 1) = Some 0"
      and nn: "non_negative w (plan_at w idom n k) (facts_at w idom n k) (i_args j ! 0)"
    have l: "0 \<le> l" using non_negative_holds[OF run reach at(6,7,4,8) nn ab(1) lu(1) typed[OF args(1)]] by blast
    have i64: "v_type (i_args j ! 1) = ''i64''" using c by (auto simp: constant_of_def split: if_splits)
    obtain y where y: "operand m (st_env \<sigma>) (i_args j ! 1) = Some y" using lu(2) int_of_i64[OF i64, of m "st_env \<sigma>"]
      by (cases "operand m (st_env \<sigma>) (i_args j ! 1)") simp_all
    have "y = IntV 0" using constant_holds[OF r(1) reach r(4) c _ y typed[OF args(2)]] by blast
    with y lu(2) int_of_i64[OF i64, of m "st_env \<sigma>"] have "u = 0" by simp
    with l lt show ?thesis by (simp add: ordering_def)
  next
    assume ge: "i_op j = ''binary.>=''" and fact: "(resolved_name ?al (v_name (i_args j ! 0)), resolved_name ?al (v_name (i_args j ! 1))) \<in> bf_less (facts_at w idom n k)"
    from less_fact[OF at(4) fact] resolved_int[OF at(6,7) ab(1), of m] resolved_int[OF at(6,7) ab(2), of m] lu(1,2)
    have "l < u" by simp
    with ge show ?thesis by (simp add: ordering_def)
  qed
  with lu(3) i at(2) v(2) show ?thesis by (auto simp: current_instr_def point_of_def)
qed

lemma answered_holds:
  assumes run: "run_of_walk m fn w idom hdr vlen args" and reach: "reach m fn (start args s) \<sigma>"
    and "point_of \<sigma> \<in> set (bp_answered (bounds_walk w (reverse_postorder fn) idom))"
  shows "\<exists>i v a. current_instr fn \<sigma> = Some i \<and> i_op i \<in> set [''array.get_or_panic'', ''array.at'', ''array.at_mut''] \<and> 2 \<le> length (i_args i) \<and>
    operand m (st_env \<sigma>) (i_args i ! 0) = Some v \<and> operand m (st_env \<sigma>) (i_args i ! 1) = Some (IntV a) \<and>
    0 \<le> sint a \<and> sint a < hdr (st_mem \<sigma>) v"
proof -
  note r = run_facts[OF run]
  from answered_origin[OF r(2) assms(3)] obtain n k i where v: "visited_at w idom n k i" "point_of \<sigma> = (reverse_postorder fn ! n, k)"
    and len: "2 \<le> length (i_args i)" and op: "i_op i \<in> set [''array.get_or_panic'', ''array.set'', ''array.at'', ''array.at_mut'']"
    and ans: "access_answered w (plan_at w idom n k) (facts_at w idom n k) (i_args i ! 0) (i_args i ! 1)" by blast
  note at = at_point[OF run reach v]
  let ?al = "bp_aliases (plan_at w idom n k)" and ?int = "int_of m (st_env \<sigma>)" and ?arr = "i_args i ! 0" and ?idx = "i_args i ! 1"
  have all: "i \<in> set (all_instrs fn)" by (rule instr_at_all[OF at(2)])
  then have wf: "index_wf i" using r(1) by (auto simp: bounds_wf_def list_all_iff)
  have op': "i_op i \<in> set [''array.get_or_panic'', ''array.at'', ''array.at_mut'']" "i_op i \<noteq> ''phi''" "i_op i \<in> set container_ops"
    using op wf by (auto simp: index_wf_def container_ops_def)
  obtain c d as where args: "i_args i = c # d # as" using len by (cases "i_args i"; cases "tl (i_args i)") auto
  have cd: "?arr = c" "?idx = d" "c \<in> set (containers fn)" using args op'(3) all by (auto simp: containers_def intro!: image_eqI[of _ _ i])
  have i64: "v_type d = ''i64''" using wf op'(3) args by (simp add: index_wf_def)
  have before: "defined_before fn (v_name d) (point_of \<sigma>)" using read_before[OF r(5) at(2) op'(2), of d] args v(2) by simp
  have typed: "\<And>i. i \<in> set (all_instrs fn) \<Longrightarrow> v_name (i_result i) = v_name d \<Longrightarrow> v_name d \<noteq> [] \<Longrightarrow> v_type d = v_type (i_result i)"
    using consistent_read[OF r(8) at(2), of d] args by (auto simp: instr_reads_def)
  have "\<exists>y a. operand m (st_env \<sigma>) c = Some y \<and> ?int (v_name d) = Some a \<and> 0 \<le> a \<and> a < hdr (st_mem \<sigma>) y"
  proof (cases "(v_name c, v_name d) \<in> bf_checked (facts_at w idom n k)")
    case True
    with at(5) cd(3) show ?thesis unfolding headers_hold_def by blast
  next
    case False
    with ans cd obtain known where nn: "non_negative w (plan_at w idom n k) (facts_at w idom n k) d"
      and known: "bf_length (facts_at w idom n k) (v_name c) = Some known"
      and less: "(resolved_name ?al (v_name d), resolved_name ?al (v_name known)) \<in> bf_less (facts_at w idom n k)"
      by (auto simp: access_answered_def split: option.splits)
    from at(5) cd(3) known obtain y where y: "operand m (st_env \<sigma>) c = Some y" "holds_int (st_env \<sigma>) (v_name known) (hdr (st_mem \<sigma>) y)"
      unfolding headers_hold_def by blast
    have "v_name known \<in> fact_names (facts_at w idom n k)" using fact_names_in(4)[OF known] by blast
    then have kb: "defined_before fn (v_name known) (point_of \<sigma>)"
      using walk_known(1)[OF r(2) at(1,3)] v(2) unfolding known_before_def by simp
    from less_fact[OF at(4) less] resolved_int[OF at(6,7) before, of m] resolved_int[OF at(6,7) kb, of m] obtain a b where
      ab: "?int (v_name d) = Some a" "?int (v_name known) = Some b" "a < b" by auto
    have "b = hdr (st_mem \<sigma>) y" using ab(2) y(2) by (auto simp: holds_int_def int_of_def operand_def)
    moreover have "0 \<le> a" using non_negative_holds[OF run reach at(6,7,4,8) nn before ab(1) typed] by blast
    ultimately show ?thesis using y(1) ab by blast
  qed
  then obtain y a where ya: "operand m (st_env \<sigma>) c = Some y" "?int (v_name d) = Some a" "0 \<le> a" "a < hdr (st_mem \<sigma>) y" by blast
  from int_operand[OF i64 ya(2)] obtain b where "operand m (st_env \<sigma>) d = Some (IntV b)" "sint b = a" by blast
  moreover have "current_instr fn \<sigma> = Some i" using at(2) v(2) by (simp add: current_instr_def point_of_def)
  ultimately show ?thesis using ya op'(1) len cd by blast
qed

lemma settled_plan_walk:
  "settled_plan fn order idom ex = (ex', pl) \<Longrightarrow> pl = bounds_walk (walker_for fn ex') order idom \<and> bp_unsafe pl = []"
proof (induction fn order idom ex rule: settled_plan.induct)
  case (1 fn order idom ex)
  show ?case
  proof (cases "bp_unsafe (bounds_walk (walker_for fn ex) order idom) = []")
    case True
    with 1(2) show ?thesis by (auto simp: settled_plan.simps[of fn order idom ex] Let_def)
  next
    case False
    then have "settled_plan fn order idom (bp_unsafe (bounds_walk (walker_for fn ex) order idom) @ ex) = (ex', pl)"
      using 1(2) by (simp add: settled_plan.simps[of fn order idom ex] Let_def)
    from 1(1)[OF refl False this] show ?thesis .
  qed
qed

text \<open>The plan of a function is the plan of a walk that found every counter safe.\<close>

lemma plan_run:
  assumes "bounds_wf fn" "f_blocks fn \<noteq> []" "array_laws m hdr vlen" "args_for fn args" "plan_for fn = Some pl"
  obtains w idom where "run_of_walk m fn w idom hdr vlen args" "pl = bounds_walk w (reverse_postorder fn) idom"
proof -
  from build_dominator_tree_total[OF assms(2)] obtain idom where tree: "build_dominator_tree fn =
      Some \<lparr>dt_place = map (place_in (reverse_postorder fn)) [0..<length (f_blocks fn)], dt_idom = idom\<rparr>" "doms.settled fn idom" by blast
  obtain ex pl' where s: "settled_plan fn (reverse_postorder fn) idom [] = (ex, pl')" by fastforce
  have pl: "pl = pl'" using assms(5) tree(1) s by (simp add: plan_for_def)
  note walk = settled_plan_walk[OF s]
  have "run_of_walk m fn (walker_for fn ex) idom hdr vlen args"
    using assms(1,2,3,4) tree(2) walk
    by (auto simp: run_of_walk_def walks_def walker_for_def bounds_wf_def)
  with walk pl show thesis by (intro that[of "walker_for fn ex" idom]) auto
qed

text \<open>
  C9: For a function in SSA form with strict definitions and typed reads that holds no
  array.set (\<open>bounds_wf\<close>), on a machine whose arrays keep the stated laws (\<open>array_laws\<close>: array.len
  and slice.len answer the length, a get_or_panic or a cond_fail that returns has passed its
  check, and the operations the pass takes for harmless leave every length as it is): in every
  state a call reaches, a check the plan drops cannot fail, and an access the plan answers reads an index that is not negative and below the length the array has in that
  state. The walk takes both for granted from comparisons on the way in, from earlier checks
  of the same index, from lengths read before, and from loop counters whose steps it found
  bounded.
\<close>
theorem bounds_plan_sound:
  assumes "bounds_wf fn" "f_blocks fn \<noteq> []" "array_laws m hdr vlen" and "plan_for fn = Some pl"
    and "reach m fn (start (call_env fn vals) s) \<sigma>"
  shows "(point_of \<sigma> \<in> set (bp_drops pl) \<longrightarrow> (\<exists>i. current_instr fn \<sigma> = Some i \<and> i_op i = ''cond_fail'' \<and>
       operand m (st_env \<sigma>) (hd (i_args i)) = Some (BoolV False))) \<and>
    (point_of \<sigma> \<in> set (bp_answered pl) \<longrightarrow> (\<exists>i v a. current_instr fn \<sigma> = Some i \<and>
       operand m (st_env \<sigma>) (i_args i ! 0) = Some v \<and> operand m (st_env \<sigma>) (i_args i ! 1) = Some (IntV a) \<and>
       0 \<le> sint a \<and> sint a < hdr (st_mem \<sigma>) v))"
proof -
  from plan_run[OF assms(1,2,3) call_env_args_for assms(4)] obtain w idom where
    w: "run_of_walk m fn w idom hdr vlen (call_env fn vals)" "pl = bounds_walk w (reverse_postorder fn) idom" by blast
  show ?thesis using dropped_holds[OF w(1) assms(5)] answered_holds[OF w(1) assms(5)] unfolding w(2) by blast
qed

definition sum_example :: func where
  "sum_example = function_of [\<lparr>p_name = ''xs'', p_type = ''&std::array::Array<i64>'', p_passing = PassValue\<rparr>] ''i64''
     [block_of ''entry'' [] ((new_term ''jump'')\<lparr>t_target := ''head''\<rparr>),
      block_of ''head''
        [(new_instr (typed ''%i'' ''i64'') ''phi'')\<lparr>i_incoming :=
           [\<lparr>in_block = ''entry'', in_value = typed ''0'' ''i64''\<rparr>, \<lparr>in_block = ''body'', in_value = typed ''%n'' ''i64''\<rparr>]\<rparr>,
         (new_instr (typed ''%s'' ''i64'') ''phi'')\<lparr>i_incoming :=
           [\<lparr>in_block = ''entry'', in_value = typed ''0'' ''i64''\<rparr>, \<lparr>in_block = ''body'', in_value = typed ''%t'' ''i64''\<rparr>]\<rparr>,
         (new_instr (typed ''%l'' ''i64'') ''array.len'')\<lparr>i_args := [typed ''xs'' ''&std::array::Array<i64>'']\<rparr>,
         binary_i64 ''%c'' ''bool'' ''binary.<'' ''%i'' ''%l'']
        ((new_term ''branch'')\<lparr>t_cond := typed ''%c'' ''bool'', t_target := ''body'', t_else := ''exit''\<rparr>),
      block_of ''body''
        [binary_i64 ''%z'' ''bool'' ''binary.<'' ''%i'' ''0'',
         (new_instr (typed [] ''void'') ''cond_fail'')\<lparr>i_args := [typed ''%z'' ''bool'']\<rparr>,
         (new_instr (typed ''%m'' ''i64'') ''array.len'')\<lparr>i_args := [typed ''xs'' ''&std::array::Array<i64>'']\<rparr>,
         binary_i64 ''%g'' ''bool'' ''binary.>='' ''%i'' ''%m'',
         (new_instr (typed [] ''void'') ''cond_fail'')\<lparr>i_args := [typed ''%g'' ''bool'']\<rparr>,
         (new_instr (typed ''%v'' ''i64'') ''array.get_or_panic'')\<lparr>i_args := [typed ''xs'' ''&std::array::Array<i64>'', typed ''%i'' ''i64'']\<rparr>,
         binary_i64 ''%t'' ''i64'' ''binary.+'' ''%s'' ''%v'',
         binary_i64 ''%n'' ''i64'' ''binary.+'' ''%i'' ''1'']
        ((new_term ''jump'')\<lparr>t_target := ''head''\<rparr>),
      block_of ''exit'' [] (return_of ''%s'' ''i64'')]"

lemma sum_example_wf: "bounds_wf sum_example"
proof -
  have "verify_function (one_function sum_example) sum_example = None" by code_simp
  moreover have "ssa sum_example" "block_names_ok sum_example" "consistent_types sum_example" by code_simp+
  ultimately have "copy_wf sum_example" using verify_strict by (simp add: copy_wf_def)
  moreover have "list_all index_wf (all_instrs sum_example)" by code_simp
  moreover have "\<forall>c\<in>set (containers sum_example). \<forall>d\<in>set (containers sum_example). v_name c = v_name d \<longrightarrow> c = d" by code_simp
  ultimately show ?thesis by (simp add: bounds_wf_def)
qed

definition array_length :: "i64 list \<Rightarrow> array_value val \<Rightarrow> int" where
  "array_length xs v = int (length xs)"

lemma array_machine_laws: "array_laws array_machine array_length (\<lambda>_. 0)"
proof -
  have len: "sint (word_of_int (int n) :: i64) = int n" if "int n < 2 ^ 63" for n using sint64_of_nat[of n] that by simp
  have op: "array_step op vals xs = Some (Yield x ys) \<Longrightarrow>
      length ys = length xs \<and> op \<notin> set (''binary.+'' # ''slice.len'' # orderings) \<and>
      (op = ''array.len'' \<longrightarrow> (\<forall>v. vals = [v] \<longrightarrow> x = IntV (word_of_int (int (length xs))) \<and> int (length xs) < 2 ^ 63)) \<and>
      (op = ''array.get_or_panic'' \<longrightarrow> (\<forall>v z vs. vals = v # z # vs \<longrightarrow> (\<exists>a. z = IntV a \<and> 0 \<le> sint a \<and> sint a < int (length xs)))) \<and>
      (op = ''cond_fail'' \<longrightarrow> (\<forall>c vs. vals = c # vs \<longrightarrow> c = BoolV False))" for op vals xs x ys
    by (auto simp: array_step_def element_at_def orderings_def split: list.splits val.splits array_value.splits option.splits if_splits)
  show ?thesis unfolding array_laws_def array_machine_def machine.simps
  proof (intro allI impI)
    fix i :: instr and vals s x s'
    assume "array_step (i_op i) vals s = Some (Yield x s')"
    from op[OF this] len show "(leaves_headers (i_op i) \<longrightarrow> (\<forall>v. array_length s' v = array_length s v)) \<and>
       (i_op i = ''array.len'' \<longrightarrow> (\<forall>v. vals = [v] \<longrightarrow> (\<exists>a. x = IntV a \<and> sint a = array_length s v \<and> 0 \<le> sint a))) \<and>
       (i_op i = ''slice.len'' \<longrightarrow> (\<forall>v. vals = [v] \<longrightarrow> (\<exists>a. x = IntV a \<and> sint a = 0 \<and> 0 \<le> sint a))) \<and>
       (i_op i = ''array.get_or_panic'' \<longrightarrow> (\<forall>v z vs. vals = v # z # vs \<longrightarrow> (\<exists>a. z = IntV a \<and> 0 \<le> sint a \<and> sint a < array_length s v))) \<and>
       (i_op i = ''cond_fail'' \<longrightarrow> (\<forall>c vs. vals = c # vs \<longrightarrow> c = BoolV False)) \<and>
       \<not> (i_op i \<in> set (''binary.+'' # orderings) \<and> list_all (\<lambda>a. v_type a = ''i64'') (i_args i))"
      by (simp add: array_length_def)
  qed
qed

lemma sum_example_order: "reverse_postorder sum_example = [0, 1, 3, 2]"
  by code_simp

lemma sum_example_tree: "map_option dt_idom (build_dominator_tree sum_example) = Some [Some 0, Some 0, Some 1, Some 1]"
  by code_simp

lemma sum_example_settled: "settled_plan sum_example [0, 1, 3, 2] [Some 0, Some 0, Some 1, Some 1] [] =
    ([], \<lparr>bp_drops = [(2, 4), (2, 1)], bp_answered = [(2, 5)], bp_aliases = [(''%m'', typed ''%l'' ''i64'')], bp_unsafe = []\<rparr>)"
  by code_simp

lemma sum_example_plan: "plan_for sum_example =
    Some \<lparr>bp_drops = [(2, 4), (2, 1)], bp_answered = [(2, 5)], bp_aliases = [(''%m'', typed ''%l'' ''i64'')], bp_unsafe = []\<rparr>"
proof -
  have "plan_for sum_example = map_option (\<lambda>idom. snd (settled_plan sum_example (reverse_postorder sum_example) idom []))
      (map_option dt_idom (build_dominator_tree sum_example))"
    by (simp add: plan_for_def option.map_comp comp_def)
  then show ?thesis by (simp only: sum_example_order sum_example_tree sum_example_settled option.map snd_conv)
qed

definition sum_example_access :: "(array_value, i64 list) state" where
  "sum_example_access = steps 11 array_machine sum_example (start (call_env sum_example [OtherV TheArray]) [4, 5])"

theorem bounds_plan_sound_witness:
  "\<exists>i v a. current_instr sum_example sum_example_access = Some i \<and> i_op i = ''array.get_or_panic'' \<and>
     operand array_machine (st_env sum_example_access) (i_args i ! 0) = Some v \<and>
     operand array_machine (st_env sum_example_access) (i_args i ! 1) = Some (IntV a) \<and>
     0 \<le> sint a \<and> sint a < array_length (st_mem sum_example_access) v"
proof -
  let ?\<sigma> = sum_example_access
  have reach: "reach array_machine sum_example (start (call_env sum_example [OtherV TheArray]) [4, 5]) ?\<sigma>"
    unfolding sum_example_access_def by (rule reach_steps[OF reach.here])
  have ne: "f_blocks sum_example \<noteq> []" by (simp add: sum_example_def function_of_def)
  have pt: "point_of ?\<sigma> = (2, 5)" unfolding sum_example_access_def by code_simp
  have cur: "map_option i_op (current_instr sum_example ?\<sigma>) = Some ''array.get_or_panic''"
    using pt unfolding current_instr_def point_of_def prod.inject by (elim conjE) (simp only:, code_simp)
  have "point_of ?\<sigma> \<in> set [(2, 5)]" by (simp add: pt)
  with bounds_plan_sound[OF sum_example_wf ne array_machine_laws sum_example_plan reach] obtain i v a where
    "current_instr sum_example ?\<sigma> = Some i" "operand array_machine (st_env ?\<sigma>) (i_args i ! 0) = Some v"
    "operand array_machine (st_env ?\<sigma>) (i_args i ! 1) = Some (IntV a)" "0 \<le> sint a" "sint a < array_length (st_mem ?\<sigma>) v"
    unfolding bounds_plan.simps by blast
  moreover from this(1) cur have "i_op i = ''array.get_or_panic''" by simp
  ultimately show ?thesis by blast
qed

end
