(* ===== verification/Expand.thy ===== *)
theory Expand
  imports Thin
begin

text \<open>
  Passes that write a few instructions, or none, in the place of one. The locale \<open>expansion\<close>
  says when the result does what the original did, in as many steps as it takes.
\<close>

section \<open>A few instructions in a row\<close>

primrec perform :: "('v, 's) machine \<Rightarrow> instr list \<Rightarrow> ('v, 's) state \<Rightarrow> ('v, 's) progress" where
  "perform m [] \<sigma> = Go \<sigma>"
| "perform m (j # js) \<sigma> =
     (case after \<sigma> j (exec m \<sigma> j) of Go \<tau> \<Rightarrow> perform m js \<tau> | Done x s \<Rightarrow> Done x s | Stuck \<Rightarrow> Stuck)"

lemma drop_current:
  assumes "st_block \<sigma> < length (f_blocks fn)" "drop (st_step \<sigma>) (b_instrs (f_blocks fn ! st_block \<sigma>)) = j # js"
  shows "current_instr fn \<sigma> = Some j"
    and "drop (Suc (st_step \<sigma>)) (b_instrs (f_blocks fn ! st_block \<sigma>)) = js"
proof -
  let ?is = "b_instrs (f_blocks fn ! st_block \<sigma>)"
  have lt: "st_step \<sigma> < length ?is" using assms(2) by (rule_tac ccontr) simp
  then have "?is ! st_step \<sigma> = j" using assms(2) by (simp add: Cons_nth_drop_Suc[symmetric])
  with lt assms(1) show "current_instr fn \<sigma> = Some j" by (simp add: current_instr_def instr_at_def)
  show "drop (Suc (st_step \<sigma>)) ?is = js" using assms(2) lt by (simp add: Cons_nth_drop_Suc[symmetric])
qed

lemma perform_runs:
  assumes "st_block \<sigma> < length (f_blocks fn)" "drop (st_step \<sigma>) (b_instrs (f_blocks fn ! st_block \<sigma>)) = js @ is"
  shows "perform m js \<sigma> = Go \<tau> \<Longrightarrow> reach m fn \<sigma> \<tau> \<and> st_block \<tau> = st_block \<sigma> \<and> st_from \<tau> = st_from \<sigma> \<and> st_entry \<tau> = st_entry \<sigma> \<and>
      drop (st_step \<tau>) (b_instrs (f_blocks fn ! st_block \<sigma>)) = is"
    and "perform m js \<sigma> = Done x s \<Longrightarrow> \<exists>n. run m fn n \<sigma> = Some (x, s)"
  using assms
proof (induction js arbitrary: \<sigma>)
  case Nil
  {
    case 1
    then show ?case by (simp add: reach.here)
  next
    case 2
    then show ?case by simp
  }
next
  case (Cons j js)
  {
    case 1
    note cur = drop_current[OF 1(2), of j "js @ is"]
    from 1(1) obtain \<rho> where \<rho>: "after \<sigma> j (exec m \<sigma> j) = Go \<rho>" "perform m js \<rho> = Go \<tau>" by (auto split: progress.splits)
    have step: "step m fn \<sigma> = Go \<rho>" using cur(1) 1(3) \<rho>(1) by (simp add: step_instr)
    have at: "st_block \<rho> = st_block \<sigma>" "st_step \<rho> = Suc (st_step \<sigma>)" "st_from \<rho> = st_from \<sigma>" "st_entry \<rho> = st_entry \<sigma>"
      using \<rho>(1) by (auto simp: after_Go)
    have "reach m fn \<rho> \<tau> \<and> st_block \<tau> = st_block \<rho> \<and> st_from \<tau> = st_from \<rho> \<and> st_entry \<tau> = st_entry \<rho> \<and>
        drop (st_step \<tau>) (b_instrs (f_blocks fn ! st_block \<rho>)) = is"
      using cur(2) 1(2,3) at by (intro Cons.IH(1)[OF \<rho>(2)]) simp_all
    with at reach_trans[OF reach.further[OF reach.here step]] show ?case by simp
  next
    case 2
    note cur = drop_current[OF 2(2), of j "js @ is"]
    show ?case
    proof (cases "after \<sigma> j (exec m \<sigma> j)")
      case (Go \<rho>)
      then have at: "st_block \<rho> = st_block \<sigma>" "st_step \<rho> = Suc (st_step \<sigma>)" by (auto simp: after_Go)
      have "\<exists>n. run m fn n \<rho> = Some (x, s)" using cur(2) 2 at Go by (intro Cons.IH(2)) simp_all
      then obtain n where "run m fn n \<rho> = Some (x, s)" by blast
      then have "run m fn (Suc n) \<sigma> = Some (x, s)" using cur(1) 2(3) Go by (simp add: step_instr)
      then show ?thesis by blast
    next
      case (Done y t)
      then have "run m fn 1 \<sigma> = Some (x, s)" using cur(1) 2 by (simp add: step_instr)
      then show ?thesis by blast
    qed (use 2 in simp)
  }
qed

lemma run_after_reach: "reach m fn \<sigma> \<tau> \<Longrightarrow> run m fn n \<tau> = Some r \<Longrightarrow> \<exists>n'. run m fn n' \<sigma> = Some r"
proof (induction arbitrary: n rule: reach.induct)
  case (further \<rho> \<tau>)
  have "run m fn (Suc n) \<rho> = Some r" using further.hyps(2) further.prems by simp
  then show ?case by (rule further.IH)
qed blast

section \<open>Expanded functions\<close>

text \<open>
  \<open>left p k is\<close>: the instructions \<open>is\<close> are what the result still has to do in block \<open>p\<close> when
  the original is at its instruction \<open>k\<close>.
\<close>

locale expansion =
  fixes m :: "('v, 's) machine" and fn fn' :: func
    and left :: "nat \<Rightarrow> nat \<Rightarrow> instr list \<Rightarrow> bool" and X :: "name set" and ok :: "('v, 's) state \<Rightarrow> bool"
  assumes ok_step: "ok \<sigma> \<Longrightarrow> step m fn \<sigma> = Go \<tau> \<Longrightarrow> ok \<tau>"
    and same_blocks: "length (f_blocks fn') = length (f_blocks fn)" "positions (f_blocks fn') = positions (f_blocks fn)"
      "p < length (f_blocks fn) \<Longrightarrow> b_term (f_blocks fn' ! p) = b_term (f_blocks fn ! p) \<and> b_name (f_blocks fn' ! p) = b_name (f_blocks fn ! p)"
    and terms_read: "ok \<sigma> \<Longrightarrow> p < length (f_blocks fn) \<Longrightarrow> v_name ` set (term_reads (b_term (f_blocks fn ! p))) \<subseteq> X"
    and left_start: "p < length (f_blocks fn) \<Longrightarrow> left p 0 (b_instrs (f_blocks fn' ! p))"
    and left_end: "p < length (f_blocks fn) \<Longrightarrow> left p k is \<Longrightarrow> length (b_instrs (f_blocks fn ! p)) \<le> k \<Longrightarrow> is = []"
    and left_step: "ok \<sigma> \<Longrightarrow> alike X \<sigma> \<sigma>' \<Longrightarrow> current_instr fn \<sigma> = Some i \<Longrightarrow> exec m \<sigma> i = Some out \<Longrightarrow>
      left (st_block \<sigma>) (st_step \<sigma>) is \<Longrightarrow> \<exists>js is'. is = js @ is' \<and> left (st_block \<sigma>) (Suc (st_step \<sigma>)) is' \<and>
        (case out of
           Yield x s \<Rightarrow> \<exists>\<tau>'. perform m js \<sigma>' = Go \<tau>' \<and> st_mem \<tau>' = s \<and> agree X (bind_result i x (st_env \<sigma>)) (st_env \<tau>')
         | Leave x s \<Rightarrow> perform m js \<sigma>' = Done x s)"
begin

definition expanded :: "('v, 's) state \<Rightarrow> ('v, 's) state \<Rightarrow> bool" where
  "expanded \<sigma> \<sigma>' \<longleftrightarrow> ok \<sigma> \<and> alike X \<sigma> \<sigma>' \<and>
     (st_block \<sigma> < length (f_blocks fn) \<longrightarrow> left (st_block \<sigma>) (st_step \<sigma>) (drop (st_step \<sigma>') (b_instrs (f_blocks fn' ! st_block \<sigma>))))"

lemma expanded_end:
  assumes "expanded \<sigma> \<sigma>'" "st_block \<sigma> < length (f_blocks fn)" "current_instr fn \<sigma> = None"
  shows "step m fn' \<sigma>' = (case step m fn \<sigma> of Go \<tau> \<Rightarrow> Go (\<tau>\<lparr>st_entry := st_env \<sigma>', st_env := st_env \<sigma>'\<rparr>) | r \<Rightarrow> r)"
proof -
  let ?p = "st_block \<sigma>"
  have e: "alike X \<sigma> \<sigma>'" "left ?p (st_step \<sigma>) (drop (st_step \<sigma>') (b_instrs (f_blocks fn' ! ?p)))" "ok \<sigma>"
    using assms(1,2) by (simp_all add: expanded_def)
  then have s: "st_block \<sigma>' = ?p" "st_mem \<sigma>' = st_mem \<sigma>" "agree X (st_env \<sigma>) (st_env \<sigma>')" by (simp_all add: alike_def)
  have over: "length (b_instrs (f_blocks fn ! ?p)) \<le> st_step \<sigma>"
    using assms(2,3) by (auto simp: current_instr_def instr_at_def split: if_splits)
  from left_end[OF assms(2) e(2) over] have "current_instr fn' \<sigma>' = None"
    by (auto simp: current_instr_def instr_at_def s(1))
  then have new: "step m fn' \<sigma>' = end_block m fn' \<sigma>' (b_term (f_blocks fn ! ?p))"
    using assms(2) s(1) same_blocks(1,3) by (simp add: step_end)
  have old: "step m fn \<sigma> = end_block m fn \<sigma> (b_term (f_blocks fn ! ?p))" using assms(2,3) by (simp add: step_end)
  have goto: "goto fn' \<sigma>' x = (case goto fn \<sigma> x of Go \<tau> \<Rightarrow> Go (\<tau>\<lparr>st_entry := st_env \<sigma>', st_env := st_env \<sigma>'\<rparr>) | r \<Rightarrow> r)" for x
    using e(1) assms(2) same_blocks by (auto simp: goto_def alike_def split: option.splits)
  have ops: "operand m (st_env \<sigma>') v = operand m (st_env \<sigma>) v" if "v \<in> set (term_reads (b_term (f_blocks fn ! ?p)))" for v
    using operand_agree[OF s(3), of v m] that terms_read[OF e(3) assms(2)] by blast
  have "operand m (st_env \<sigma>') (t_cond (b_term (f_blocks fn ! ?p))) = operand m (st_env \<sigma>) (t_cond (b_term (f_blocks fn ! ?p)))"
    "operand m (st_env \<sigma>') (t_value (b_term (f_blocks fn ! ?p))) = operand m (st_env \<sigma>) (t_value (b_term (f_blocks fn ! ?p)))"
    by (rule ops, simp add: term_reads_def)+
  then show ?thesis unfolding new old by (auto simp: end_block_def goto s(2) split: option.splits val.splits)
qed

lemma expanded_run:
  assumes "expanded \<sigma> \<sigma>'" "run m fn n \<sigma> = Some r"
  shows "\<exists>n'. run m fn' n' \<sigma>' = Some r"
  using assms
proof (induction n arbitrary: \<sigma> \<sigma>')
  case (Suc n)
  let ?p = "st_block \<sigma>"
  have lt: "?p < length (f_blocks fn)" using Suc.prems(2) by (auto simp: step_def split: if_splits)
  have e: "ok \<sigma>" "alike X \<sigma> \<sigma>'" "left ?p (st_step \<sigma>) (drop (st_step \<sigma>') (b_instrs (f_blocks fn' ! ?p)))"
    using Suc.prems(1) lt by (simp_all add: expanded_def)
  have s: "st_block \<sigma>' = ?p" using e(2) by (simp add: alike_def)
  show ?case
  proof (cases "current_instr fn \<sigma>")
    case None
    note new = expanded_end[OF Suc.prems(1) lt None]
    show ?thesis
    proof (cases "step m fn \<sigma>")
      case (Go \<tau>)
      let ?\<tau>' = "\<tau>\<lparr>st_entry := st_env \<sigma>', st_env := st_env \<sigma>'\<rparr>"
      from Go obtain target p where jump: "positions (f_blocks fn) target = Some p"
        "\<tau> = \<sigma>\<lparr>st_block := p, st_step := 0, st_from := b_name (f_blocks fn ! st_block \<sigma>), st_entry := st_env \<sigma>\<rparr>"
        using None by (cases rule: step_cases) auto
      have "expanded \<tau> ?\<tau>'"
        using ok_step[OF e(1) Go] e(2) jump left_start positions_Some[OF jump(1)] by (auto simp: expanded_def alike_def)
      moreover have "run m fn n \<tau> = Some r" using Suc.prems(2) Go by simp
      ultimately obtain n' where "run m fn' n' ?\<tau>' = Some r" using Suc.IH by blast
      then have "run m fn' (Suc n') \<sigma>' = Some r" using new Go by simp
      then show ?thesis by blast
    next
      case (Done x t)
      then have "run m fn' 1 \<sigma>' = Some r" using new Suc.prems(2) by simp
      then show ?thesis by blast
    next
      case Stuck
      with Suc.prems(2) show ?thesis by simp
    qed
  next
    case (Some i)
    obtain out where out: "exec m \<sigma> i = Some out" using Suc.prems(2) Some by (cases "exec m \<sigma> i") (auto simp: step_instr after_def)
    from left_step[OF e(1,2) Some out e(3)] obtain js "is" where js: "drop (st_step \<sigma>') (b_instrs (f_blocks fn' ! ?p)) = js @ is"
      "left ?p (Suc (st_step \<sigma>)) is"
      "case out of Yield x s \<Rightarrow> \<exists>\<tau>'. perform m js \<sigma>' = Go \<tau>' \<and> st_mem \<tau>' = s \<and> agree X (bind_result i x (st_env \<sigma>)) (st_env \<tau>')
         | Leave x s \<Rightarrow> perform m js \<sigma>' = Done x s" by blast
    have at: "st_block \<sigma>' < length (f_blocks fn')" "drop (st_step \<sigma>') (b_instrs (f_blocks fn' ! st_block \<sigma>')) = js @ is"
      using lt s same_blocks(1) js(1) by simp_all
    note runs = perform_runs[OF at, of m]
    show ?thesis
    proof (cases out)
      case (Yield x t)
      let ?\<tau> = "\<sigma>\<lparr>st_step := Suc (st_step \<sigma>), st_env := bind_result i x (st_env \<sigma>), st_mem := t\<rparr>"
      have go: "step m fn \<sigma> = Go ?\<tau>" using Some out Yield by (simp add: step_instr after_def)
      from js(3) Yield obtain \<tau>' where \<tau>': "perform m js \<sigma>' = Go \<tau>'" "st_mem \<tau>' = t" "agree X (bind_result i x (st_env \<sigma>)) (st_env \<tau>')" by auto
      note r = runs(1)[OF \<tau>'(1)]
      have "expanded ?\<tau> \<tau>'" using ok_step[OF e(1) go] e(2) r \<tau>'(2,3) js(2) s by (simp add: expanded_def alike_def)
      moreover have "run m fn n ?\<tau> = Some r" using Suc.prems(2) go by simp
      ultimately obtain n' where "run m fn' n' \<tau>' = Some r" using Suc.IH by blast
      with r run_after_reach show ?thesis by blast
    next
      case (Leave x t)
      then have "r = (x, t)" using Suc.prems(2) Some out by (simp add: step_instr after_def)
      with js(3) Leave runs(2) show ?thesis by auto
    qed
  qed
qed simp

lemma call_expanded:
  assumes "ok (start (call_env fn vals) s)" "f_params fn' = f_params fn" and "call_for n m fn vals s = Some r"
  shows "\<exists>n'. call_for n' m fn' vals s = Some r"
proof -
  have env: "call_env fn' vals = (call_env fn vals :: 'v env)" using assms(2) by (simp add: call_env_def)
  have "expanded (start (call_env fn vals) s) (start (call_env fn vals) s)"
    using assms(1) left_start by (auto simp: expanded_def alike_def start_def agree_def)
  from expanded_run[OF this] assms(3) show ?thesis unfolding call_for_def env by blast
qed

end

end
