(* ===== verification/Bounds_Pass.thy ===== *)
theory Bounds_Pass
  imports Bounds_Sound Expand
begin

text \<open>
  EliminateBoundsChecks keeps what a function computes. The length aliases form no chains, so
  replacing them ends and leaves every run alone; then each dropped check is a step that
  changes nothing, and each answered access is the borrow, the read and the presence test its
  check would have given.
\<close>


section \<open>No alias leads to another\<close>

lemma facts_induct:
  assumes w: "walks w fn idom" and n: "n < length (reverse_postorder fn)" "k \<le> block_end fn n"
    and none: "P no_facts" and learn: "\<And>f pl c b. P f \<Longrightarrow> P (learn_condition w pl c b f)" and forget: "\<And>f. P f \<Longrightarrow> P (forget_headers f)"
    and visit: "\<And>n k i. visited_at w idom n k i \<Longrightarrow> P (facts_at w idom n k) \<Longrightarrow> P (facts_at w idom n (Suc k))"
  shows "P (facts_at w idom n k)"
  using n
proof (induction n arbitrary: k rule: less_induct)
  case (less n)
  note f = walks_facts[OF w]
  have start: "P (facts_at w idom n 0)"
  proof (cases "n = 0")
    case True
    then show ?thesis using none by (simp add: entry_facts)
  next
    case False
    then obtain d where d: "d < n" "idom_at idom n = Some d" and facts: "(let p = reverse_postorder fn ! n; q = reverse_postorder fn ! d; f = facts_at w idom d (block_end fn d);
          preds = block_predecessors fn ! p
      in facts_at w idom n 0 =
        (if preds = [q] then learn_edge w (plan_at w idom n 0) (b_term (f_blocks fn ! q)) (b_name (f_blocks fn ! p)) f
         else if paths_may_write_headers fn p q [] (rev preds) then forget_headers f else f))"
      using inner_facts[OF w _ less.prems(1)] by blast
    have "P (facts_at w idom d (block_end fn d))" using less.IH[OF d(1)] d(1) less.prems(1) by simp
    then show ?thesis using facts learn forget by (auto simp: Let_def learn_edge_def split: if_splits)
  qed
  show ?case using less.prems(2)
  proof (induction k)
    case (Suc k)
    have "reverse_postorder fn ! n < length (f_blocks fn)" using postorder(2)[OF f(8)] less.prems(1) by (meson lessThan_iff nth_mem subsetD)
    with Suc.prems less.prems(1) f(1) have "visited_at w idom n k (b_instrs (f_blocks fn ! (reverse_postorder fn ! n)) ! k)"
      by (simp add: visited_at_def instr_at_def block_end_def)
    from visit[OF this] Suc show ?case by simp
  qed (use start in simp)
qed

text \<open>A length in the facts is the result of a read that stays.\<close>

definition length_stays :: "walker \<Rightarrow> idoms \<Rightarrow> ir_value \<Rightarrow> bool" where
  "length_stays w idom r \<longleftrightarrow> (\<exists>n k i. visited_at w idom n k i \<and> i_result i = r \<and> v_name r \<noteq> [] \<and>
     (\<forall>known. \<not> length_known i (facts_at w idom n k) known))"

lemma lengths_stay:
  assumes w: "walks w fn idom" and n: "n < length (reverse_postorder fn)" "k \<le> block_end fn n"
  shows "\<forall>r\<in>ran (bf_length (facts_at w idom n k)) \<union> ran (bf_view (facts_at w idom n k)). length_stays w idom r"
proof -
  let ?P = "\<lambda>f. \<forall>r\<in>ran (bf_length f) \<union> ran (bf_view f). length_stays w idom r"
  have "?P (facts_at w idom n k)"
  proof (rule facts_induct[OF w n, where P = ?P])
    show "?P no_facts" by (simp add: no_facts_def)
    show "?P (learn_condition w pl c b f)" if "?P f" for f pl c b
      by (cases rule: learn_cases[of w pl c b f]) (use that in simp_all)
    show "?P (forget_headers f)" if "?P f" for f using that by (simp add: forget_headers_def)
  next
    fix n k i
    assume v: "visited_at w idom n k i" and P: "?P (facts_at w idom n k)"
    let ?st = "walk_at w (reverse_postorder (wk_fn w)) idom n k" and ?u = "(reverse_postorder (wk_fn w) ! n, k)"
    have eq: "facts_at w idom n (Suc k) = fst (visit_instr w ?u i ?st)" using visited_Suc[OF v] by simp
    consider (check) "i_op i = ''cond_fail''" | (len) "i_op i = ''array.len'' \<or> i_op i = ''slice.len''"
      | (access) "visit_instr w ?u i ?st = visit_array_check w ?u i ?st"
      | (other) "visit_instr w ?u i ?st = visit_other w i ?st"
      unfolding visit_instr_def by meson
    then show "?P (facts_at w idom n (Suc k))"
    proof cases
      case check
      then have "facts_at w idom n (Suc k) = fst ?st \<or> (\<exists>pl c. facts_at w idom n (Suc k) = learn_condition w pl c False (fst ?st))"
        using eq by (auto simp: visit_instr_def check_facts)
      then show ?thesis
      proof (elim disjE exE)
        fix pl c assume l: "facts_at w idom n (Suc k) = learn_condition w pl c False (fst ?st)"
        show ?thesis unfolding l by (cases rule: learn_cases[of w pl c False "fst ?st"]) (use P in simp_all)
      qed (use P in simp)
    next
      case access
      with eq P show ?thesis by (auto simp: access_facts)
    next
      case other
      with eq P show ?thesis by (auto simp: other_facts forget_headers_def)
    next
      case len
      have vl: "facts_at w idom n (Suc k) = fst (visit_length i ?st)" using eq len by (auto simp: visit_instr_def)
      have at: "instr_at fn (reverse_postorder fn ! n) k = Some i" using v walks_facts(1)[OF w] by (simp add: visited_at_def)
      have named: "v_name (i_result i) \<noteq> []" using named_result[OF walks_facts(4)[OF w] at] len by auto
      show ?thesis
      proof (cases "length (i_args i) = 1")
        case False
        then have "fst (visit_length i ?st) = fst ?st" by (cases ?st) (simp add: visit_length_def)
        with vl P show ?thesis by simp
      next
        case True
        show ?thesis
        proof (cases "\<exists>known. length_known i (fst ?st) known")
          case known: True
          then have "fst (visit_length i ?st) = fst ?st"
            using len by (cases ?st) (auto simp: visit_length_def length_known_def Let_def)
          with vl P show ?thesis by simp
        next
          case False
          then have "length_stays w idom (i_result i)" using v named unfolding length_stays_def by blast
          moreover have "ran (bf_length (fst (visit_length i ?st))) \<union> ran (bf_view (fst (visit_length i ?st))) \<subseteq>
              insert (i_result i) (ran (bf_length (fst ?st)) \<union> ran (bf_view (fst ?st)))"
            by (cases rule: visit_length_cases[OF True, of "fst ?st" "snd ?st"]) (auto simp: ran_def split: if_splits)
          ultimately show ?thesis unfolding vl using P by blast
        qed
      qed
    qed
  qed
  then show ?thesis .
qed

lemma aliases_flat:
  assumes w: "walks w fn idom"
  shows "flat (lookup_last (bp_aliases (bounds_walk w (reverse_postorder fn) idom)))"
proof -
  let ?al = "bp_aliases (bounds_walk w (reverse_postorder fn) idom)"
  have in_al: "(y, known) \<in> set ?al" if "lookup_last ?al y = Some known" for y known
    using that by (auto simp: lookup_last_def dest: map_of_SomeD)
  have "v_name known \<noteq> y" if y: "(x, known) \<in> set ?al" "(y, other) \<in> set ?al" for x known y other
  proof
    assume eq: "v_name known = y"
    from aliases_origin[OF w y(1)] obtain n k i where i: "visited_at w idom n k i" "length_known i (facts_at w idom n k) known" by blast
    have "n < length (reverse_postorder fn)" "k \<le> block_end fn n"
      using i(1) walks_facts(1)[OF w] by (auto simp: visited_at_def instr_at_def block_end_def split: if_splits)
    note stay = lengths_stay[OF w this]
    have "known \<in> ran (bf_length (facts_at w idom n k)) \<union> ran (bf_view (facts_at w idom n k))"
      using i(2) by (auto simp: length_known_def split: if_splits intro: ranI)
    with stay obtain n1 k1 j where j: "visited_at w idom n1 k1 j" "i_result j = known" "v_name known \<noteq> []"
      "\<And>known. \<not> length_known j (facts_at w idom n1 k1) known" unfolding length_stays_def by blast
    from aliases_origin[OF w y(2)] obtain n2 k2 h where h: "visited_at w idom n2 k2 h" "v_name (i_result h) = y"
      "length_known h (facts_at w idom n2 k2) other" by blast
    have at: "instr_at fn (reverse_postorder fn ! n1) k1 = Some j" "instr_at fn (reverse_postorder fn ! n2) k2 = Some h"
      "n1 < length (reverse_postorder fn)" "n2 < length (reverse_postorder fn)"
      using j(1) h(1) walks_facts(1)[OF w] by (simp_all add: visited_at_def)
    from ssa_unique[OF walks_facts(4)[OF w] at(1,2)] j(2,3) h(2) eq
    have same: "reverse_postorder fn ! n1 = reverse_postorder fn ! n2" "k1 = k2" "j = h" by auto
    have "n1 = n2" using same_place[OF w at(3,4) same(1)] .
    with same j(4) h(3) show False by blast
  qed
  then show ?thesis unfolding flat_def ran_def using in_al by blast
qed

section \<open>The rewritten function\<close>

text \<open>Replacing the aliases reads the value a length has already been given.\<close>

lemma aliases_copy_sound:
  assumes run: "run_of_walk m fn w idom hdr vlen args"
  shows "copy_sound m fn (start args s) (lookup_last (bp_aliases (bounds_walk w (reverse_postorder fn) idom)))"
  unfolding copy_sound_def
proof (intro allI impI)
  fix x known
  note r = run_facts[OF run]
  let ?al = "bp_aliases (bounds_walk w (reverse_postorder fn) idom)"
  assume "lookup_last ?al x = Some known"
  then have al: "(x, known) \<in> set ?al" by (auto simp: lookup_last_def dest: map_of_SomeD)
  from aliases_origin[OF r(2) al] obtain n k i where
    i: "visited_at w idom n k i" "v_name (i_result i) = x" "length_known i (facts_at w idom n k) known" by blast
  have at: "instr_at fn (reverse_postorder fn ! n) k = Some i" using i(1) r(10) by (simp add: visited_at_def)
  have op: "i_op i = ''array.len'' \<or> i_op i = ''slice.len''" and ty: "v_type known = v_type (i_result i)"
    using i(3) by (auto simp: length_known_def)
  have named: "x \<noteq> []" using named_result[OF r(6) at] op i(2) by auto
  have "same_value m fn (start args s) i (reverse_postorder fn ! n, k) known"
    unfolding same_value_def
  proof (intro allI impI)
    fix \<sigma> assume \<sigma>: "reach m fn (start args s) \<sigma>" "\<not> avoids fn (reverse_postorder fn ! n, k) (point_of \<sigma>)"
    have "defined_before fn x (point_of \<sigma>)" unfolding defined_before_def
    proof (intro allI impI)
      fix q l j assume "instr_at fn q l = Some j" "v_name (i_result j) = x" "x \<noteq> []"
      with ssa_unique[OF r(6) at] i(2) have "q = reverse_postorder fn ! n \<and> l = k" by metis
      with \<sigma>(2) show "\<not> avoids fn (q, l) (point_of \<sigma>)" by simp
    qed
    with sound_parts(1)[OF sound_reach[OF run \<sigma>(1)]] al r(10) obtain v where
      "st_env \<sigma> x = Some v" "st_env \<sigma> (v_name known) = Some v" unfolding aliases_hold_def by fastforce
    with i(2) show "\<exists>v. st_env \<sigma> (v_name (i_result i)) = Some v \<and> operand m (st_env \<sigma>) known = Some v"
      by (simp add: operand_def)
  qed
  with at i(2) named ty show "\<exists>p k i. instr_at fn p k = Some i \<and> v_name (i_result i) = x \<and> x \<noteq> [] \<and>
      v_type known = v_type (i_result i) \<and> same_value m fn (start args s) i (p, k) known" by blast
qed

lemma replaced_aliases:
  assumes "walks w fn idom" and al: "al = bp_aliases (bounds_walk w (reverse_postorder fn) idom)"
  shows "(if al = [] then Some fn else replace_function_values al fn) = Some (map_function_reads (replace_value (lookup_last al)) fn)"
proof (cases "al = []")
  case True
  then have "lookup_last al = Map.empty" by (simp add: lookup_last_def)
  with True show ?thesis by (simp add: map_reads_function_id)
next
  case False
  have "flat (lookup_last al)" unfolding al by (rule aliases_flat[OF assms(1)])
  then have "resolve (length al) (lookup_last al) v = Some (replace_value (lookup_last al) v)" for v
    using resolve_flat lookup_last_dom(2,1) by blast
  with False show ?thesis by (simp add: replace_function_values_def Let_def list_all_iff)
qed

text \<open>Block by block.\<close>

lemma apply_instrs_present:
  "apply_to_instrs pl p k is st = (is', st') \<Longrightarrow>
    set (snd st) \<subseteq> set (snd st') \<and>
    (\<forall>x\<in>set (snd st'). x \<in> set (snd st) \<or> (\<exists>j<length is. (p, k + j) \<in> set (bp_answered pl) \<and>
       v_name (i_result (is ! j)) = x \<and> i_op (is ! j) \<in> set [''array.at'', ''array.at_mut'']))"
proof (induction "is" arbitrary: k st is' st')
  case (Cons i "is")
  have later: "\<exists>j<length (i # is). (p, k + j) \<in> set (bp_answered pl) \<and> v_name (i_result ((i # is) ! j)) = x \<and> i_op ((i # is) ! j) \<in> set [''array.at'', ''array.at_mut'']"
    if "\<exists>j<length is. (p, Suc k + j) \<in> set (bp_answered pl) \<and> v_name (i_result (is ! j)) = x \<and> i_op (is ! j) \<in> set [''array.at'', ''array.at_mut'']" for x
  proof -
    from that obtain j where "j < length is" "(p, Suc k + j) \<in> set (bp_answered pl)" "v_name (i_result (is ! j)) = x"
      "i_op (is ! j) \<in> set [''array.at'', ''array.at_mut'']" by blast
    then show ?thesis by (intro exI[of _ "Suc j"]) simp
  qed
  show ?case
  proof (cases "(p, k) \<in> set (bp_drops pl) \<or> (p, k) \<notin> set (bp_answered pl)")
    case True
    then obtain js where "apply_to_instrs pl p (Suc k) is st = (js, st')"
      using Cons.prems by (auto split: if_splits prod.splits)
    from Cons.IH[OF this] later show ?thesis by blast
  next
    case False
    obtain site present where st: "st = (site, present)" by (cases st)
    let ?more = "i_op i = ''array.at'' \<or> i_op i = ''array.at_mut''"
    let ?present = "if ?more then v_name (i_result i) # present else present"
    from Cons.prems False st obtain js where "apply_to_instrs pl p (Suc k) is (Suc site, ?present) = (js, st')"
      by (auto simp: Let_def split: prod.splits)
    note IH = Cons.IH[OF this]
    have here: "\<exists>j<length (i # is). (p, k + j) \<in> set (bp_answered pl) \<and> v_name (i_result ((i # is) ! j)) = v_name (i_result i) \<and>
        i_op ((i # is) ! j) \<in> set [''array.at'', ''array.at_mut'']" if ?more
      using that False by (intro exI[of _ 0]) auto
    have "set (snd st) \<subseteq> set (snd st')" using IH st by auto
    moreover have "x \<in> set (snd st) \<or> (\<exists>j<length (i # is). (p, k + j) \<in> set (bp_answered pl) \<and> v_name (i_result ((i # is) ! j)) = x \<and>
        i_op ((i # is) ! j) \<in> set [''array.at'', ''array.at_mut''])" if x: "x \<in> set (snd st')" for x
    proof -
      from IH x consider "x \<in> set ?present" | "\<exists>j<length is. (p, Suc k + j) \<in> set (bp_answered pl) \<and> v_name (i_result (is ! j)) = x \<and>
          i_op (is ! j) \<in> set [''array.at'', ''array.at_mut'']" by auto
      then show ?thesis
      proof cases
        case 1
        then show ?thesis using here st by (auto split: if_splits)
      next
        case 2
        from later[OF this] show ?thesis by blast
      qed
    qed
    ultimately show ?thesis by blast
  qed
qed simp

lemma apply_blocks_nth:
  "apply_to_blocks pl p bs st = (bs', st') \<Longrightarrow> length bs' = length bs \<and> set (snd st) \<subseteq> set (snd st') \<and>
    (\<forall>q<length bs. \<exists>s0 s1. apply_to_instrs pl (p + q) 0 (b_instrs (bs ! q)) s0 = (b_instrs (bs' ! q), s1) \<and>
       bs' ! q = (bs ! q)\<lparr>b_instrs := b_instrs (bs' ! q)\<rparr>) \<and>
    (\<forall>x\<in>set (snd st'). x \<in> set (snd st) \<or> (\<exists>q<length bs. \<exists>j<length (b_instrs (bs ! q)). (p + q, j) \<in> set (bp_answered pl) \<and>
       v_name (i_result (b_instrs (bs ! q) ! j)) = x \<and> i_op (b_instrs (bs ! q) ! j) \<in> set [''array.at'', ''array.at_mut'']))"
proof (induction bs arbitrary: p st bs' st')
  case (Cons b bs)
  obtain is1 st1 where a: "apply_to_instrs pl p 0 (b_instrs b) st = (is1, st1)" by (meson surj_pair)
  obtain bs2 st2 where r: "apply_to_blocks pl (Suc p) bs st1 = (bs2, st2)" by (meson surj_pair)
  have eq: "bs' = b\<lparr>b_instrs := is1\<rparr> # bs2" "st' = st2" using Cons.prems a r by simp_all
  note IH = Cons.IH[OF r] and A = apply_instrs_present[OF a]
  have blocks: "\<exists>s0 s1. apply_to_instrs pl (p + q) 0 (b_instrs ((b # bs) ! q)) s0 = (b_instrs (bs' ! q), s1) \<and>
      bs' ! q = ((b # bs) ! q)\<lparr>b_instrs := b_instrs (bs' ! q)\<rparr>" if "q < length (b # bs)" for q
  proof (cases q)
    case 0
    then show ?thesis using a eq(1) by (intro exI[of _ st] exI[of _ st1]) simp
  next
    case (Suc j)
    with IH that eq(1) show ?thesis by auto
  qed
  have names: "x \<in> set (snd st) \<or> (\<exists>q<length (b # bs). \<exists>j<length (b_instrs ((b # bs) ! q)). (p + q, j) \<in> set (bp_answered pl) \<and>
       v_name (i_result (b_instrs ((b # bs) ! q) ! j)) = x \<and> i_op (b_instrs ((b # bs) ! q) ! j) \<in> set [''array.at'', ''array.at_mut''])"
    if "x \<in> set (snd st2)" for x
  proof -
    from IH that consider "x \<in> set (snd st1)" | q j where "q < length bs" "j < length (b_instrs (bs ! q))" "(Suc p + q, j) \<in> set (bp_answered pl)"
      "v_name (i_result (b_instrs (bs ! q) ! j)) = x" "i_op (b_instrs (bs ! q) ! j) \<in> set [''array.at'', ''array.at_mut'']" by blast
    then show ?thesis
    proof cases
      case 1
      with A consider "x \<in> set (snd st)" | j where "j < length (b_instrs b)" "(p, j) \<in> set (bp_answered pl)"
        "v_name (i_result (b_instrs b ! j)) = x" "i_op (b_instrs b ! j) \<in> set [''array.at'', ''array.at_mut'']" by auto
      then show ?thesis
      proof cases
        case 2
        then show ?thesis by (intro disjI2 exI[of _ 0]) auto
      qed simp
    next
      case 2
      then show ?thesis by (intro disjI2 exI[of _ "Suc q"]) auto
    qed
  qed
  show ?case unfolding eq(2) using blocks names IH A eq(1) by auto
qed simp

section \<open>What the machine promises of the rewritten accesses\<close>

text \<open>
  Inside an array, a checked read does what the borrow, the element of the borrow and the load
  do one after another, and leaves the memory alone; the borrows of an index inside an array
  are \<open>present\<close>, and a present borrow is found present; a check that does not fail leaves the
  memory alone.
\<close>

definition access_laws :: "('v, 's) machine \<Rightarrow> ('s \<Rightarrow> 'v val \<Rightarrow> int) \<Rightarrow> ('v val \<Rightarrow> bool) \<Rightarrow> bool" where
  "access_laws m hdr present \<longleftrightarrow>
     (\<forall>i s out. i_op i = ''cond_fail'' \<longrightarrow> mc_op m (shape i) [BoolV False] s = Some out \<longrightarrow> (\<exists>x. out = Yield x s)) \<and>
     (\<forall>i v s out. i_op i = ''opt.has'' \<longrightarrow> present v \<longrightarrow> mc_op m (shape i) [v] s = Some out \<longrightarrow> out = Yield (BoolV True) s) \<and>
     (\<forall>i v a s b s'. i_op i \<in> set [''array.at'', ''array.at_mut''] \<longrightarrow> 0 \<le> sint a \<longrightarrow> sint a < hdr s v \<longrightarrow>
        mc_op m (shape i) [v, IntV a] s = Some (Yield b s') \<longrightarrow> present b) \<and>
     (\<forall>i v a s out. i_op i = ''array.get_or_panic'' \<longrightarrow> 0 \<le> sint a \<longrightarrow> sint a < hdr s v \<longrightarrow>
        mc_op m (shape i) [v, IntV a] s = Some out \<longrightarrow>
        (\<exists>x b r. out = Yield x s \<and> mc_op m (shape (answered_access i [] ! 0)) [v, IntV a] s = Some (Yield b s) \<and>
           mc_op m (shape (answered_access i [] ! 1)) [b] s = Some (Yield r s) \<and>
           mc_op m (shape (answered_access i [] ! 2)) [r] s = Some (Yield x s)))"

text \<open>The names the pass makes are not in use, and the instructions it rewrites have the operands they should.\<close>

definition access_wf :: "instr \<Rightarrow> bool" where
  "access_wf i \<longleftrightarrow>
     (i_op i = ''cond_fail'' \<longrightarrow> length (i_args i) = 1 \<and> i_fields i = [] \<and> i_cleanups i = [] \<and> v_name (i_result i) = []) \<and>
     (i_op i = ''opt.has'' \<longrightarrow> length (i_args i) = 1 \<and> i_fields i = [] \<and> i_cleanups i = [] \<and> v_type (i_result i) = ''bool'') \<and>
     (i_op i \<in> set [''array.get_or_panic'', ''array.at'', ''array.at_mut''] \<longrightarrow> length (i_args i) = 2)"

definition old_names :: "name set" where
  "old_names = {x. \<not> prefix ''%bce'' x}"

definition pass_wf :: "func \<Rightarrow> bool" where
  "pass_wf fn \<longleftrightarrow> bounds_wf fn \<and> list_all access_wf (all_instrs fn) \<and>
     list_all (\<lambda>x. \<not> prefix ''%bce'' x) (results fn @ map v_name (function_reads fn))"

section \<open>The pass as an expansion\<close>

definition replaced :: "func \<Rightarrow> bounds_plan \<Rightarrow> func" where
  "replaced fn pl = map_function_reads (replace_value (lookup_last (bp_aliases pl))) fn"

definition present_names :: "func \<Rightarrow> bounds_plan \<Rightarrow> name list" where
  "present_names fn pl = snd (snd (apply_to_blocks pl 0 (f_blocks fn) (0, [])))"

definition answered_function :: "func \<Rightarrow> bounds_plan \<Rightarrow> func" where
  "answered_function fn pl = fn\<lparr>f_blocks := map (\<lambda>b. b\<lparr>b_instrs := map (answer_presence (present_names fn pl)) (b_instrs b)\<rparr>)
     (fst (apply_to_blocks pl 0 (f_blocks fn) (0, [])))\<rparr>"

lemma answered_function_result:
  "(case apply_to_blocks pl 0 (f_blocks fn) (0, []) of (bs, site, present) \<Rightarrow>
      if present = [] then fn\<lparr>f_blocks := bs\<rparr>
      else fn\<lparr>f_blocks := map (\<lambda>b. b\<lparr>b_instrs := map (answer_presence present) (b_instrs b)\<rparr>) bs\<rparr>) = answered_function fn pl"
proof -
  have none: "answer_presence [] = (\<lambda>i. i)" by (rule ext) (simp add: answer_presence_def)
  obtain bs site present where a: "apply_to_blocks pl 0 (f_blocks fn) (0, []) = (bs, site, present)" by (metis prod_cases3)
  then have p: "present_names fn pl = present" by (simp add: present_names_def)
  show ?thesis by (cases "present = []") (simp_all add: a p answered_function_def none map_idI)
qed

lemma answered_blocks:
  assumes "p < length (f_blocks fn)"
  shows "\<exists>st is' st'. apply_to_instrs pl p 0 (b_instrs (f_blocks fn ! p)) st = (is', st') \<and>
    f_blocks (answered_function fn pl) ! p = (f_blocks fn ! p)\<lparr>b_instrs := map (answer_presence (present_names fn pl)) is'\<rparr>"
proof -
  obtain bs st1 where a: "apply_to_blocks pl 0 (f_blocks fn) (0, []) = (bs, st1)" by (meson surj_pair)
  note nth = apply_blocks_nth[OF a]
  then obtain s0 s1 where s: "apply_to_instrs pl p 0 (b_instrs (f_blocks fn ! p)) s0 = (b_instrs (bs ! p), s1)"
    "bs ! p = (f_blocks fn ! p)\<lparr>b_instrs := b_instrs (bs ! p)\<rparr>" using assms by auto
  from s(2) have "(bs ! p)\<lparr>b_instrs := js\<rparr> = (f_blocks fn ! p)\<lparr>b_instrs := js\<rparr>" for js
    by (metis block.surjective block.update_convs(2))
  with s(1) a assms nth show ?thesis
    by (intro exI[of _ s0] exI[of _ "b_instrs (bs ! p)"] exI[of _ s1]) (simp add: answered_function_def)
qed

lemma answered_shape:
  "length (f_blocks (answered_function fn pl)) = length (f_blocks fn)"
  "positions (f_blocks (answered_function fn pl)) = positions (f_blocks fn)"
  "f_params (answered_function fn pl) = f_params fn"
proof -
  obtain bs st1 where a: "apply_to_blocks pl 0 (f_blocks fn) (0, []) = (bs, st1)" by (meson surj_pair)
  note nth = apply_blocks_nth[OF a]
  show len: "length (f_blocks (answered_function fn pl)) = length (f_blocks fn)" using a nth by (simp add: answered_function_def)
  have "b_name (f_blocks (answered_function fn pl) ! p) = b_name (f_blocks fn ! p)" if "p < length (f_blocks fn)" for p
    using answered_blocks[OF that, of pl] by auto
  then have "map b_name (f_blocks (answered_function fn pl)) = map b_name (f_blocks fn)" using len by (intro nth_equalityI) simp_all
  with len show "positions (f_blocks (answered_function fn pl)) = positions (f_blocks fn)" by (simp add: positions_def)
  show "f_params (answered_function fn pl) = f_params fn" by (simp add: answered_function_def)
qed

definition answers_left :: "func \<Rightarrow> bounds_plan \<Rightarrow> nat \<Rightarrow> nat \<Rightarrow> instr list \<Rightarrow> bool" where
  "answers_left fn pl p k is \<longleftrightarrow> (\<exists>st. is = map (answer_presence (present_names fn pl))
     (fst (apply_to_instrs pl p k (drop k (b_instrs (f_blocks fn ! p))) st)))"

lemma present_origin:
  assumes "x \<in> set (present_names fn pl)"
  shows "\<exists>p k i. instr_at fn p k = Some i \<and> (p, k) \<in> set (bp_answered pl) \<and> v_name (i_result i) = x \<and>
    i_op i \<in> set [''array.at'', ''array.at_mut'']"
proof -
  obtain bs st1 where a: "apply_to_blocks pl 0 (f_blocks fn) (0, []) = (bs, st1)" by (meson surj_pair)
  have "x \<in> set (snd st1)" using assms a by (simp add: present_names_def)
  with apply_blocks_nth[OF a] obtain q j where "q < length (f_blocks fn)" "j < length (b_instrs (f_blocks fn ! q))"
    "(q, j) \<in> set (bp_answered pl)" "v_name (i_result (b_instrs (f_blocks fn ! q) ! j)) = x"
    "i_op (b_instrs (f_blocks fn ! q) ! j) \<in> set [''array.at'', ''array.at_mut'']" by fastforce
  then show ?thesis by (intro exI[of _ q] exI[of _ j]) (simp add: instr_at_def)
qed

definition checks_ok :: "('v, 's) machine \<Rightarrow> ('s \<Rightarrow> 'v val \<Rightarrow> int) \<Rightarrow> ('v val \<Rightarrow> int) \<Rightarrow> ('v val \<Rightarrow> bool) \<Rightarrow> func \<Rightarrow> bounds_plan \<Rightarrow> ('v, 's) state \<Rightarrow> bool" where
  "checks_ok m hdr vlen present fn pl \<sigma> \<longleftrightarrow> pass_wf fn \<and> access_laws m hdr present \<and>
     (\<exists>w idom args s. run_of_walk m fn w idom hdr vlen args \<and> pl = bounds_walk w (reverse_postorder fn) idom \<and>
        reach m fn (start args s) \<sigma> \<and> (\<exists>n r. run m fn n \<sigma> = Some r))"


lemma checks_parts:
  assumes "checks_ok m hdr vlen present fn pl \<sigma>"
  obtains w idom args s n r where "pass_wf fn" "bounds_wf fn" "access_laws m hdr present" "run_of_walk m fn w idom hdr vlen args"
    "pl = bounds_walk w (reverse_postorder fn) idom" "reach m fn (start args s) \<sigma>" "run m fn n \<sigma> = Some r"
    "copy_sound m fn (start args s) (lookup_last (bp_aliases pl))"
proof -
  from assms obtain w idom args s n r where "run_of_walk m fn w idom hdr vlen args" "pl = bounds_walk w (reverse_postorder fn) idom"
    "reach m fn (start args s) \<sigma>" "run m fn n \<sigma> = Some r" unfolding checks_ok_def by auto
  moreover have "pass_wf fn" "bounds_wf fn" "access_laws m hdr present" using assms by (simp_all add: checks_ok_def pass_wf_def)
  ultimately show thesis using aliases_copy_sound[of m fn w idom hdr vlen args s] by (intro that) simp_all
qed

lemma replaced_shape:
  "length (f_blocks (replaced fn pl)) = length (f_blocks fn)" "positions (f_blocks (replaced fn pl)) = positions (f_blocks fn)"
  "f_params (replaced fn pl) = f_params fn"
  "instr_at (replaced fn pl) p k = map_option (replace_args (lookup_last (bp_aliases pl))) (instr_at fn p k)"
  unfolding replaced_def mapped_positions mapped_instr_at by (simp_all add: map_function_reads_def replace_args_def[abs_def])

lemma running_exec:
  assumes ok: "checks_ok m hdr vlen present fn pl \<sigma>" and cur: "current_instr (replaced fn pl) \<sigma> = Some i'"
  shows "\<exists>i out. current_instr fn \<sigma> = Some i \<and> i' = replace_args (lookup_last (bp_aliases pl)) i \<and> access_wf i \<and> i \<in> set (all_instrs fn) \<and>
    exec m \<sigma> i = Some out \<and> exec m \<sigma> i' = Some out"
proof -
  from ok obtain w idom args s n r where o: "pass_wf fn" "run_of_walk m fn w idom hdr vlen args" "reach m fn (start args s) \<sigma>"
    "run m fn n \<sigma> = Some r" "copy_sound m fn (start args s) (lookup_last (bp_aliases pl))" by (rule checks_parts)
  from cur obtain i where i: "current_instr fn \<sigma> = Some i" "i' = replace_args (lookup_last (bp_aliases pl)) i"
    by (auto simp: current_instr_def replaced_shape)
  have "exec m \<sigma> i \<noteq> None"
  proof
    assume "exec m \<sigma> i = None"
    then have "step m fn \<sigma> = Stuck" using i(1) by (simp add: step_instr after_def)
    with o(4) show False by (cases n) simp_all
  qed
  then obtain out where out: "exec m \<sigma> i = Some out" by blast
  have all: "i \<in> set (all_instrs fn)" using i(1) instr_at_all by (auto simp: current_instr_def)
  then have "access_wf i" using o(1) by (auto simp: pass_wf_def list_all_iff)
  with i out all replace_exec[OF run_facts(5)[OF o(2)] i(1) o(5,3) out] show ?thesis by blast
qed

lemma checks_step:
  assumes ok: "checks_ok m hdr vlen present fn pl \<sigma>" and go: "step m (replaced fn pl) \<sigma> = Go \<tau>"
  shows "checks_ok m hdr vlen present fn pl \<tau>"
proof -
  from ok obtain w idom args s n r where o: "pass_wf fn" "access_laws m hdr present" "run_of_walk m fn w idom hdr vlen args"
    "pl = bounds_walk w (reverse_postorder fn) idom" "reach m fn (start args s) \<sigma>"
    "run m fn n \<sigma> = Some r" "copy_sound m fn (start args s) (lookup_last (bp_aliases pl))" by (rule checks_parts)
  have "reads_ok m (lookup_last (bp_aliases pl)) fn \<sigma>" using run_facts(5)[OF o(3)] o(5,7) by (auto simp: reads_ok_def)
  moreover have "step m fn \<sigma> \<noteq> Stuck" using o(6) by (cases n) auto
  ultimately have step: "step m fn \<sigma> = Go \<tau>" using reads.same_step go unfolding replaced_def by metis
  from o(6) step have "run m fn (n - 1) \<tau> = Some r" by (cases n) simp_all
  with o step show ?thesis unfolding checks_ok_def by (blast intro: reach.further)
qed

text \<open>What the rewritten function reads has a name the pass does not make.\<close>

lemma alias_target:
  assumes "run_of_walk m fn w idom hdr vlen args" "pl = bounds_walk w (reverse_postorder fn) idom" "lookup_last (bp_aliases pl) x = Some known"
  shows "v_name known \<in> set (results fn)"
proof -
  note w = run_facts(2)[OF assms(1)]
  have "(x, known) \<in> set (bp_aliases (bounds_walk w (reverse_postorder fn) idom))"
    using assms(2,3) by (auto simp: lookup_last_def dest: map_of_SomeD)
  from aliases_origin[OF w this] obtain n k i where i: "visited_at w idom n k i" "length_known i (facts_at w idom n k) known" by blast
  have "n < length (reverse_postorder fn)" "k \<le> block_end fn n"
    using i(1) walks_facts(1)[OF w] by (auto simp: visited_at_def instr_at_def block_end_def split: if_splits)
  note stay = lengths_stay[OF w this]
  have "known \<in> ran (bf_length (facts_at w idom n k)) \<union> ran (bf_view (facts_at w idom n k))"
    using i(2) by (auto simp: length_known_def split: if_splits intro: ranI)
  with stay obtain n1 k1 j where "visited_at w idom n1 k1 j" "i_result j = known" "v_name known \<noteq> []"
    unfolding length_stays_def by blast
  then show ?thesis using instr_at_result[of fn _ _ j] walks_facts(1)[OF w] by (auto simp: visited_at_def)
qed

lemma replaced_reads:
  assumes ok: "checks_ok m hdr vlen present fn pl \<sigma>"
  shows "v \<in> set (function_reads fn) \<Longrightarrow> v_name (replace_value (lookup_last (bp_aliases pl)) v) \<in> old_names"
proof -
  assume v: "v \<in> set (function_reads fn)"
  from ok obtain w idom args s n r where o: "pass_wf fn" "run_of_walk m fn w idom hdr vlen args"
    "pl = bounds_walk w (reverse_postorder fn) idom" by (rule checks_parts)
  from o(1) have old: "v_name v \<in> old_names" "set (results fn) \<subseteq> old_names" using v by (auto simp: pass_wf_def old_names_def list_all_iff)
  show ?thesis
  proof (cases "lookup_last (bp_aliases pl) (v_name v)")
    case (Some known)
    from alias_target[OF o(2,3) Some] old(2) Some show ?thesis by (auto simp: replace_value_def)
  qed (use old in \<open>simp add: replace_value_def\<close>)
qed

text \<open>A name a run has come past is bound.\<close>

lemma defined_present:
  assumes "instr_at fn p k = Some i" "v_name (i_result i) \<noteq> []"
  shows "reach m fn (start args s) \<sigma> \<Longrightarrow> \<not> avoids fn (p, k) (point_of \<sigma>) \<Longrightarrow> \<exists>v. st_env \<sigma> (v_name (i_result i)) = Some v"
proof (induction rule: reach.induct)
  case here
  then show ?case by (simp add: point_of_def start_def avoids.entry)
next
  case (further \<sigma> \<tau>)
  have "\<exists>v. st_env \<sigma> (v_name (i_result i)) = Some v" if "point_of \<sigma> \<noteq> (p, k)"
    using further that by (meson avoids.onward step_edge)
  moreover from further.hyps(2) have "\<exists>v. st_env \<tau> y = Some v" if "st_env \<sigma> y = Some u" for y u
    by (cases rule: step_cases) (use that in \<open>auto simp: bind_result_def\<close>)
  moreover have "\<exists>v. st_env \<tau> (v_name (i_result i)) = Some v" if "point_of \<sigma> = (p, k)"
    using further.hyps(2) that assms by (cases rule: step_cases) (auto simp: bind_result_def current_instr_def point_of_def)
  ultimately show ?case by blast
qed

lemma replaced_bound:
  assumes run: "run_of_walk m fn w idom hdr vlen args" and reach: "reach m fn (start args s) \<sigma>"
    and pl: "pl = bounds_walk w (reverse_postorder fn) idom"
    and i: "current_instr fn \<sigma> = Some i" "i_op i \<noteq> ''phi''" "a \<in> set (i_args i)"
    and x: "v_name (replace_value (lookup_last (bp_aliases pl)) a) \<in> set (results fn)"
  shows "\<exists>v. st_env \<sigma> (v_name (replace_value (lookup_last (bp_aliases pl)) a)) = Some v"
proof -
  note r = run_facts[OF run]
  have before: "defined_before fn (v_name a) (point_of \<sigma>)"
    using read_before[OF r(5) i(1)[unfolded current_instr_def] i(2,3)] by (simp add: point_of_def)
  show ?thesis
  proof (cases "lookup_last (bp_aliases pl) (v_name a)")
    case (Some known)
    then have "(v_name a, known) \<in> set (bp_aliases pl)" by (auto simp: lookup_last_def dest: map_of_SomeD)
    with sound_parts(1)[OF sound_reach[OF run reach]] before pl r(10) Some show ?thesis
      unfolding aliases_hold_def by (fastforce simp: replace_value_def)
  next
    case None
    with x obtain j where j: "j \<in> set (all_instrs fn)" "v_name (i_result j) = v_name a" "v_name a \<noteq> []"
      by (auto simp: replace_value_def results_def)
    from in_all_instrs[OF j(1)] obtain p k where at: "instr_at fn p k = Some j" by blast
    with before j have "\<not> avoids fn (p, k) (point_of \<sigma>)" unfolding defined_before_def by blast
    from defined_present[OF at _ reach this] j None show ?thesis by (simp add: replace_value_def)
  qed
qed

lemma read_instr: "instr_at fn p k = Some i \<Longrightarrow> v \<in> set (instr_reads i) \<Longrightarrow> v \<in> set (function_reads fn)"
  by (auto simp: function_reads_def instr_at_def split: if_splits intro!: bexI[of _ "f_blocks fn ! p"] bexI[of _ i])

lemma replaced_read_origin: "v \<in> set (instr_reads (replace_args cs i)) \<Longrightarrow> \<exists>u\<in>set (instr_reads i). v = replace_value cs u"
  by (auto simp: instr_reads_def replace_args_def map_reads_def map_field_arg_def map_cleanup_def map_incoming_def)

lemma replaced_instr_reads:
  assumes ok: "checks_ok m hdr vlen present fn pl \<sigma>" and cur: "current_instr fn \<sigma> = Some i"
  shows "v_name ` set (instr_reads (replace_args (lookup_last (bp_aliases pl)) i)) \<subseteq> old_names"
  using replaced_reads[OF ok] read_instr[OF cur[unfolded current_instr_def]] replaced_read_origin by blast

section \<open>What is left to do\<close>

lemma answers_left_next:
  assumes at: "instr_at fn p k = Some i" and left: "answers_left fn pl p k is"
  shows "(p, k) \<in> set (bp_drops pl) \<Longrightarrow> answers_left fn pl p (Suc k) is"
    and "(p, k) \<notin> set (bp_drops pl) \<Longrightarrow> (p, k) \<notin> set (bp_answered pl) \<Longrightarrow>
      \<exists>is'. is = answer_presence (present_names fn pl) i # is' \<and> answers_left fn pl p (Suc k) is'"
    and "(p, k) \<notin> set (bp_drops pl) \<Longrightarrow> (p, k) \<in> set (bp_answered pl) \<Longrightarrow>
      \<exists>t is'. is = map (answer_presence (present_names fn pl)) (answered_access i (''%bce'' @ t)) @ is' \<and> answers_left fn pl p (Suc k) is'"
proof -
  have d: "drop k (b_instrs (f_blocks fn ! p)) = i # drop (Suc k) (b_instrs (f_blocks fn ! p))"
    using at by (auto simp: instr_at_def Cons_nth_drop_Suc split: if_splits)
  from left obtain st where st: "is = map (answer_presence (present_names fn pl))
     (fst (apply_to_instrs pl p k (i # drop (Suc k) (b_instrs (f_blocks fn ! p))) st))" unfolding answers_left_def d by blast
  have rest: "answers_left fn pl p (Suc k) (map (answer_presence (present_names fn pl)) (fst (apply_to_instrs pl p (Suc k) (drop (Suc k) (b_instrs (f_blocks fn ! p))) s)))" for s
    unfolding answers_left_def by blast
  show "answers_left fn pl p (Suc k) is" if "(p, k) \<in> set (bp_drops pl)" using st rest that by simp
  show "\<exists>is'. is = answer_presence (present_names fn pl) i # is' \<and> answers_left fn pl p (Suc k) is'"
    if "(p, k) \<notin> set (bp_drops pl)" "(p, k) \<notin> set (bp_answered pl)"
    using st rest[of st] that by (simp add: case_prod_beta)
  show "\<exists>t is'. is = map (answer_presence (present_names fn pl)) (answered_access i (''%bce'' @ t)) @ is' \<and> answers_left fn pl p (Suc k) is'"
    if "(p, k) \<notin> set (bp_drops pl)" "(p, k) \<in> set (bp_answered pl)"
    using st rest that by (cases st) (simp add: case_prod_beta Let_def, blast)
qed

lemma perform_one:
  "exec m \<sigma>' j = Some out \<Longrightarrow> i_result j = i_result i \<Longrightarrow> agree X (st_env \<sigma>) (st_env \<sigma>') \<Longrightarrow>
    (case out of Yield x s \<Rightarrow> \<exists>\<tau>'. perform m [j] \<sigma>' = Go \<tau>' \<and> st_mem \<tau>' = s \<and> agree X (bind_result i x (st_env \<sigma>)) (st_env \<tau>')
     | Leave x s \<Rightarrow> perform m [j] \<sigma>' = Done x s)"
  by (cases out) (auto simp: after_def intro: agree_bind)

lemma exec_own:
  "i_op j \<notin> set [''const'', ''id'', ''phi''] \<Longrightarrow> \<not> prefix ''binary.'' (i_op j) \<Longrightarrow> operands m (st_env \<sigma>) (direct_reads j) = Some vals \<Longrightarrow>
    exec m \<sigma> j = mc_op m (shape j) vals (st_mem \<sigma>)"
  by (simp add: exec_def fixed_other)

lemma perform_access:
  assumes op: "i_op i = ''array.get_or_panic''" and args: "i_args i = [c, d]"
    and vals: "operand m (st_env \<sigma>) c = Some v" "operand m (st_env \<sigma>) d = Some (IntV a)"
    and mc: "mc_op m (shape (answered_access i [] ! 0)) [v, IntV a] (st_mem \<sigma>) = Some (Yield b (st_mem \<sigma>))"
      "mc_op m (shape (answered_access i [] ! 1)) [b] (st_mem \<sigma>) = Some (Yield r (st_mem \<sigma>))"
      "mc_op m (shape (answered_access i [] ! 2)) [r] (st_mem \<sigma>) = Some (Yield x (st_mem \<sigma>))"
    and X: "pre = ''%bce'' @ t"
  shows "\<exists>\<tau>. perform m (answered_access i pre) \<sigma> = Go \<tau> \<and> st_mem \<tau> = st_mem \<sigma> \<and>
    st_env \<tau> = bind_result i x ((st_env \<sigma>)(pre @ ''at'' \<mapsto> b, pre @ ''ref'' \<mapsto> r))"
proof -
  have len: "answered_access i pre = [answered_access i pre ! 0, answered_access i pre ! 1, answered_access i pre ! 2]" for pre
    using op by (simp add: answered_access_def Let_def)
  have shapes: "shape (answered_access i pre ! 0) = shape (answered_access i [] ! 0)" "shape (answered_access i pre ! 1) = shape (answered_access i [] ! 1)"
    "shape (answered_access i pre ! 2) = shape (answered_access i [] ! 2)"
    using op by (simp_all add: answered_access_def Let_def shape_def map_reads_def anonymous_def new_instr_def)
  have ops: "i_op (answered_access i pre ! 0) = ''array.at''" "i_op (answered_access i pre ! 1) = ''opt.value''" "i_op (answered_access i pre ! 2) = ''ref.load''"
    using op by (simp_all add: answered_access_def Let_def new_instr_def)
  have reads: "direct_reads (answered_access i pre ! 0) = [c, d]" "map v_name (direct_reads (answered_access i pre ! 1)) = [pre @ ''at'']"
    "map v_name (direct_reads (answered_access i pre ! 2)) = [pre @ ''ref'']"
    using op args by (simp_all add: answered_access_def Let_def new_instr_def direct_reads_def)
  have res: "v_name (i_result (answered_access i pre ! 0)) = pre @ ''at''" "v_name (i_result (answered_access i pre ! 1)) = pre @ ''ref''"
    "i_result (answered_access i pre ! 2) = i_result i"
    using op by (simp_all add: answered_access_def Let_def new_instr_def)
  have named: "operands m env vs = Some [y]" if "map v_name vs = [z]" "env z = Some y" for env :: "'a env" and vs z y
    using that by (auto simp: operand_def)
  let ?\<sigma>1 = "\<sigma>\<lparr>st_step := Suc (st_step \<sigma>), st_env := (st_env \<sigma>)(pre @ ''at'' \<mapsto> b)\<rparr>"
  let ?\<sigma>2 = "?\<sigma>1\<lparr>st_step := Suc (st_step ?\<sigma>1), st_env := (st_env ?\<sigma>1)(pre @ ''ref'' \<mapsto> r)\<rparr>"
  have e0: "exec m \<sigma> (answered_access i pre ! 0) = Some (Yield b (st_mem \<sigma>))"
    using exec_own[of "answered_access i pre ! 0" m \<sigma> "[v, IntV a]"] ops(1) reads(1) vals mc(1) shapes(1) by simp
  have "operands m (st_env ?\<sigma>1) (direct_reads (answered_access i pre ! 1)) = Some [b]" by (rule named[OF reads(2)]) simp
  from exec_own[OF _ _ this] have e1: "exec m ?\<sigma>1 (answered_access i pre ! 1) = Some (Yield r (st_mem \<sigma>))"
    using ops(2) mc(2) shapes(2) by simp
  have "operands m (st_env ?\<sigma>2) (direct_reads (answered_access i pre ! 2)) = Some [r]" by (rule named[OF reads(3)]) simp
  from exec_own[OF _ _ this] have e2: "exec m ?\<sigma>2 (answered_access i pre ! 2) = Some (Yield x (st_mem \<sigma>))"
    using ops(3) mc(3) shapes(3) by simp
  have a0: "after \<sigma> (answered_access i pre ! 0) (Some (Yield b (st_mem \<sigma>))) = Go ?\<sigma>1" using res(1) X by (simp add: after_def bind_result_def)
  have a1: "after ?\<sigma>1 (answered_access i pre ! 1) (Some (Yield r (st_mem \<sigma>))) = Go ?\<sigma>2" using res(2) X by (simp add: after_def bind_result_def)
  show ?thesis
    by (subst len) (simp only: perform.simps e0 a0 progress.case e1 a1 e2, simp add: after_def bind_result_def res(3))
qed

section \<open>Each instruction, expanded\<close>

text \<open>A name the pass takes for a present borrow holds one.\<close>

lemma present_result:
  assumes run: "run_of_walk m fn w idom hdr vlen args" and x: "x \<in> set (present_names (replaced fn pl) pl)"
  obtains p k i where "instr_at fn p k = Some i" "(p, k) \<in> set (bp_answered pl)" "v_name (i_result i) = x" "x \<in> set (results fn)"
    "i_op i \<in> set [''array.at'', ''array.at_mut'']"
proof -
  from present_origin[OF x] obtain p k i where i: "instr_at fn p k = Some i" "(p, k) \<in> set (bp_answered pl)" "v_name (i_result i) = x"
    "i_op i \<in> set [''array.at'', ''array.at_mut'']" by (auto simp: replaced_shape)
  have "v_name (i_result i) \<noteq> []" using named_result[OF run_facts(6)[OF run] i(1)] i(4) by auto
  from instr_at_result[OF i(1) this] i show thesis by (intro that) auto
qed

lemma present_value:
  assumes run: "run_of_walk m fn w idom hdr vlen args" and reach: "reach m fn (start args s) \<sigma>" and laws: "access_laws m hdr present"
    and pl: "pl = bounds_walk w (reverse_postorder fn) idom" and wf: "list_all access_wf (all_instrs fn)"
    and x: "x \<in> set (present_names (replaced fn pl) pl)" "st_env \<sigma> x = Some v"
  shows "present v"
proof -
  note r = run_facts[OF run]
  from present_result[OF run x(1)] obtain p k i where i: "instr_at fn p k = Some i" "(p, k) \<in> set (bp_answered pl)" "v_name (i_result i) = x"
    "x \<in> set (results fn)" "i_op i \<in> set [''array.at'', ''array.at_mut'']" .
  have named: "v_name (i_result i) \<noteq> []" using i(3,4) by (auto simp: results_def)
  have "args x = None" using result_not_arg[OF r(6,4) i(1) named] i(3) by simp
  with reach_origin[OF reach] x(2) have "made m fn (start args s) (v_name (i_result i)) v" using i(3) by fastforce
  from made_by[OF r(6) i(1) this] obtain \<rho> s' where \<rho>: "reach m fn (start args s) \<rho>" "st_block \<rho> = p" "st_step \<rho> = k"
    "exec m \<rho> i = Some (Yield v s')" by blast
  have pt: "point_of \<rho> \<in> set (bp_answered pl)" and cur: "current_instr fn \<rho> = Some i"
    using i(1,2) \<rho>(2,3) by (simp_all add: point_of_def current_instr_def)
  from answered_holds[OF run \<rho>(1)] pt pl cur obtain y a where ya: "operand m (st_env \<rho>) (i_args i ! 0) = Some y"
    "operand m (st_env \<rho>) (i_args i ! 1) = Some (IntV a)" "0 \<le> sint a" "sint a < hdr (st_mem \<rho>) y" by auto
  have all: "i \<in> set (all_instrs fn)" by (rule instr_at_all[OF i(1)])
  have "i_op i \<in> set container_ops" using i(5) by (auto simp: container_ops_def)
  then have plain: "i_fields i = []" "i_cleanups i = []" using r(1) all by (auto simp: bounds_wf_def list_all_iff index_wf_def)
  have "length (i_args i) = 2" using wf all i(5) by (auto simp: list_all_iff access_wf_def)
  then obtain c d where cd: "i_args i = [c, d]" by (auto simp: length_Suc_conv numeral_2_eq_2)
  have "operands m (st_env \<rho>) (direct_reads i) = Some [y, IntV a]" using ya cd plain by (simp add: direct_reads_def)
  with own_exec[OF _ \<rho>(4)] \<open>i_op i \<in> set container_ops\<close> have "mc_op m (shape i) [y, IntV a] (st_mem \<rho>) = Some (Yield v s')" by auto
  with laws i(5) ya(3,4) show ?thesis unfolding access_laws_def by blast
qed

lemma expand_dropped:
  assumes ok: "checks_ok m hdr vlen present fn pl \<sigma>" and cur: "current_instr (replaced fn pl) \<sigma> = Some i'" and out: "exec m \<sigma> i' = Some out"
    and drop: "point_of \<sigma> \<in> set (bp_drops pl)"
  shows "\<exists>x. out = Yield x (st_mem \<sigma>) \<and> v_name (i_result i') = []"
proof -
  from ok obtain w idom args s n r where o: "pass_wf fn" "bounds_wf fn" "access_laws m hdr present" "run_of_walk m fn w idom hdr vlen args"
    "pl = bounds_walk w (reverse_postorder fn) idom" "reach m fn (start args s) \<sigma>" by (rule checks_parts)
  from running_exec[OF ok cur] out obtain i where i: "current_instr fn \<sigma> = Some i" "i' = replace_args (lookup_last (bp_aliases pl)) i"
    "access_wf i" "exec m \<sigma> i = Some out" by auto
  from dropped_holds[OF o(4,6)] drop o(5) i(1) have c: "i_op i = ''cond_fail''" "operand m (st_env \<sigma>) (hd (i_args i)) = Some (BoolV False)" by auto
  from i(3) c(1) obtain a where a: "i_args i = [a]" "i_fields i = []" "i_cleanups i = []" "v_name (i_result i) = []"
    by (auto simp: access_wf_def length_Suc_conv)
  have "operands m (st_env \<sigma>) (direct_reads i) = Some [BoolV False]" using a c by (simp add: direct_reads_def)
  from exec_own[OF _ _ this] c(1) i(4) have "mc_op m (shape i) [BoolV False] (st_mem \<sigma>) = Some out" by simp
  with o(3) c(1) have "\<exists>x. out = Yield x (st_mem \<sigma>)" unfolding access_laws_def by blast
  with a(4) i(2) show ?thesis by simp
qed

lemma expand_presence:
  assumes ok: "checks_ok m hdr vlen present fn pl \<sigma>" and cur: "current_instr (replaced fn pl) \<sigma> = Some i'" and out: "exec m \<sigma> i' = Some out"
    and same: "exec m \<sigma>' i' = exec m \<sigma> i'" "st_mem \<sigma>' = st_mem \<sigma>"
  shows "exec m \<sigma>' (answer_presence (present_names (replaced fn pl) pl) i') = Some out"
proof (cases "i_op i' = ''opt.has'' \<and> length (i_args i') = 1 \<and> v_name (hd (i_args i')) \<in> set (present_names (replaced fn pl) pl)")
  case True
  from ok obtain w idom args s n r where o: "pass_wf fn" "bounds_wf fn" "access_laws m hdr present" "run_of_walk m fn w idom hdr vlen args"
    "pl = bounds_walk w (reverse_postorder fn) idom" "reach m fn (start args s) \<sigma>" by (rule checks_parts)
  from running_exec[OF ok cur] out obtain i where i: "current_instr fn \<sigma> = Some i" "i' = replace_args (lookup_last (bp_aliases pl)) i"
    "access_wf i" "exec m \<sigma> i = Some out" by auto
  let ?cs = "lookup_last (bp_aliases pl)"
  from i(2,3) True obtain a where a: "i_args i = [a]" "i_fields i = []" "i_cleanups i = []" "v_type (i_result i) = ''bool''" "i_op i = ''opt.has''"
    by (auto simp: access_wf_def length_Suc_conv)
  have x: "v_name (replace_value ?cs a) \<in> set (present_names (replaced fn pl) pl)" using True i(2) a(1) by simp
  from present_result[OF o(4) x] have "v_name (replace_value ?cs a) \<in> set (results fn)" by blast
  from replaced_bound[OF o(4,6,5) i(1) _ _ this] a obtain v where v: "st_env \<sigma> (v_name (replace_value ?cs a)) = Some v" by auto
  have "list_all access_wf (all_instrs fn)" using o(1) by (simp add: pass_wf_def)
  from present_value[OF o(4,6,3,5) this x v] have pv: "present v" .
  have reads: "direct_reads i' = [replace_value ?cs a]" "i_fields i' = []" "i_cleanups i' = []" using i(2) a by (simp_all add: direct_reads_replace direct_reads_def replace_args_def map_reads_def)
  have "operands m (st_env \<sigma>) (direct_reads i') = Some [v]" using v reads by (simp add: operand_def)
  from exec_own[OF _ _ this] True out have "mc_op m (shape i') [v] (st_mem \<sigma>) = Some out" by simp
  with o(3) pv True have "out = Yield (BoolV True) (st_mem \<sigma>)" unfolding access_laws_def by blast
  with True same(2) reads(2,3) a(4) i(2) show ?thesis
    by (simp add: answer_presence_def exec_def direct_reads_def fixed_value_def const_value_def)
next
  case False
  then show ?thesis using out same by (auto simp: answer_presence_def)
qed

lemma answered_values:
  assumes ok: "checks_ok m hdr vlen present fn pl \<sigma>" and cur: "current_instr (replaced fn pl) \<sigma> = Some i'"
    and ans: "point_of \<sigma> \<in> set (bp_answered pl)"
  shows "\<exists>c d v a. i_op i' \<in> set [''array.get_or_panic'', ''array.at'', ''array.at_mut''] \<and> i_args i' = [c, d] \<and> direct_reads i' = [c, d] \<and>
    operand m (st_env \<sigma>) c = Some v \<and> operand m (st_env \<sigma>) d = Some (IntV a) \<and> 0 \<le> sint a \<and> sint a < hdr (st_mem \<sigma>) v"
proof -
  from ok obtain w idom args s n r where o: "pass_wf fn" "bounds_wf fn" "access_laws m hdr present" "run_of_walk m fn w idom hdr vlen args"
    "pl = bounds_walk w (reverse_postorder fn) idom" "reach m fn (start args s) \<sigma>" "run m fn n \<sigma> = Some r"
    "copy_sound m fn (start args s) (lookup_last (bp_aliases pl))" by (rule checks_parts)
  from running_exec[OF ok cur] obtain i where i: "current_instr fn \<sigma> = Some i" "i' = replace_args (lookup_last (bp_aliases pl)) i"
    "access_wf i" "i \<in> set (all_instrs fn)" by auto
  from answered_holds[OF o(4,6)] ans o(5) i(1) obtain v a where va: "i_op i \<in> set [''array.get_or_panic'', ''array.at'', ''array.at_mut'']"
    "operand m (st_env \<sigma>) (i_args i ! 0) = Some v" "operand m (st_env \<sigma>) (i_args i ! 1) = Some (IntV a)" "0 \<le> sint a" "sint a < hdr (st_mem \<sigma>) v" by auto
  have c: "i_op i \<in> set container_ops" "i_op i \<noteq> ''phi''" using va(1) by (auto simp: container_ops_def)
  then have plain: "i_fields i = []" "i_cleanups i = []" using o(2) i(4) by (auto simp: bounds_wf_def list_all_iff index_wf_def)
  have "length (i_args i) = 2" using i(3) va(1) by (auto simp: access_wf_def)
  then obtain c d where cd: "i_args i = [c, d]" by (auto simp: length_Suc_conv numeral_2_eq_2)
  have before: "defined_before fn (v_name u) (point_of \<sigma>)" if "u \<in> set (i_args i)" for u
    using read_before[OF run_facts(5)[OF o(4)] i(1)[unfolded current_instr_def] c(2) that] by (simp add: point_of_def)
  from replace_value_operand[OF o(8,6) before[of c]] replace_value_operand[OF o(8,6) before[of d]] va cd i(2) plain
  show ?thesis by (simp add: direct_reads_replace) (simp add: direct_reads_def)
qed

lemma checks_left_step:
  assumes ok: "checks_ok m hdr vlen present fn pl \<sigma>" and alike: "alike old_names \<sigma> \<sigma>'" and cur: "current_instr (replaced fn pl) \<sigma> = Some i'"
    and out: "exec m \<sigma> i' = Some out" and left: "answers_left (replaced fn pl) pl (st_block \<sigma>) (st_step \<sigma>) is"
  shows "\<exists>js is'. is = js @ is' \<and> answers_left (replaced fn pl) pl (st_block \<sigma>) (Suc (st_step \<sigma>)) is' \<and>
    (case out of
       Yield x s \<Rightarrow> \<exists>\<tau>'. perform m js \<sigma>' = Go \<tau>' \<and> st_mem \<tau>' = s \<and> agree old_names (bind_result i' x (st_env \<sigma>)) (st_env \<tau>')
     | Leave x s \<Rightarrow> perform m js \<sigma>' = Done x s)"
proof -
  note steps = answers_left_next[OF cur[unfolded current_instr_def] left]
  have \<sigma>': "agree old_names (st_env \<sigma>) (st_env \<sigma>')" "agree old_names (st_entry \<sigma>) (st_entry \<sigma>')" "st_from \<sigma>' = st_from \<sigma>" "st_mem \<sigma>' = st_mem \<sigma>"
    using alike by (simp_all add: alike_def)
  from running_exec[OF ok cur] replaced_instr_reads[OF ok] have reads: "v_name ` set (instr_reads i') \<subseteq> old_names" by blast
  note same = exec_agree[OF \<sigma>' reads, of m]
  have single: "?thesis" if "is = j # is'" "answers_left (replaced fn pl) pl (st_block \<sigma>) (Suc (st_step \<sigma>)) is'" "exec m \<sigma>' j = Some out"
    "i_result j = i_result i'" for j is'
    using that(1,2) perform_one[OF that(3,4) \<sigma>'(1)] by (intro exI[of _ "[j]"] exI[of _ is']) simp
  consider (drop) "point_of \<sigma> \<in> set (bp_drops pl)" | (keep) "point_of \<sigma> \<notin> set (bp_drops pl)" "point_of \<sigma> \<notin> set (bp_answered pl)"
    | (answered) "point_of \<sigma> \<notin> set (bp_drops pl)" "point_of \<sigma> \<in> set (bp_answered pl)" by blast
  then show ?thesis
  proof cases
    case drop
    from expand_dropped[OF ok cur out drop] obtain x where "out = Yield x (st_mem \<sigma>)" "v_name (i_result i') = []" by blast
    with steps(1) drop \<sigma>' show ?thesis by (intro exI[of _ "[]"] exI[of _ "is"]) (simp add: bind_result_def point_of_def)
  next
    case keep
    with steps(2) obtain is' where "is = answer_presence (present_names (replaced fn pl) pl) i' # is'"
      "answers_left (replaced fn pl) pl (st_block \<sigma>) (Suc (st_step \<sigma>)) is'" by (auto simp: point_of_def)
    from single[OF this expand_presence[OF ok cur out same \<sigma>'(4)]] show ?thesis by (simp add: answer_presence_def)
  next
    case answered
    let ?ap = "answer_presence (present_names (replaced fn pl) pl)"
    from steps(3) answered obtain t is' where split: "is = map ?ap (answered_access i' (''%bce'' @ t)) @ is'"
      "answers_left (replaced fn pl) pl (st_block \<sigma>) (Suc (st_step \<sigma>)) is'" by (auto simp: point_of_def)
    from answered_values[OF ok cur answered(2)] obtain c d v a where va: "i_op i' \<in> set [''array.get_or_panic'', ''array.at'', ''array.at_mut'']"
      "i_args i' = [c, d]" "direct_reads i' = [c, d]" "operand m (st_env \<sigma>) c = Some v" "operand m (st_env \<sigma>) d = Some (IntV a)"
      "0 \<le> sint a" "sint a < hdr (st_mem \<sigma>) v" by blast
    show ?thesis
    proof (cases "i_op i' = ''array.get_or_panic''")
      case False
      with va(1) have "map ?ap (answered_access i' (''%bce'' @ t)) = [i']" by (auto simp: answered_access_def answer_presence_def)
      with split single[of i' is'] same out show ?thesis by simp
    next
      case True
      have ap: "map ?ap (answered_access i' (''%bce'' @ t)) = answered_access i' (''%bce'' @ t)"
        using True by (simp add: answered_access_def answer_presence_def new_instr_def Let_def)
      have "operands m (st_env \<sigma>) (direct_reads i') = Some [v, IntV a]" using va by simp
      from exec_own[OF _ _ this] True out have mc: "mc_op m (shape i') [v, IntV a] (st_mem \<sigma>) = Some out" by simp
      have "access_laws m hdr present" using ok by (simp add: checks_ok_def)
      with mc True va(6,7) obtain x b r where law: "out = Yield x (st_mem \<sigma>)"
        "mc_op m (shape (answered_access i' [] ! 0)) [v, IntV a] (st_mem \<sigma>) = Some (Yield b (st_mem \<sigma>))"
        "mc_op m (shape (answered_access i' [] ! 1)) [b] (st_mem \<sigma>) = Some (Yield r (st_mem \<sigma>))"
        "mc_op m (shape (answered_access i' [] ! 2)) [r] (st_mem \<sigma>) = Some (Yield x (st_mem \<sigma>))"
        unfolding access_laws_def by blast
      have "c \<in> set (instr_reads i')" "d \<in> set (instr_reads i')" using va(2) by (simp_all add: instr_reads_def)
      then have "operand m (st_env \<sigma>') c = Some v" "operand m (st_env \<sigma>') d = Some (IntV a)"
        using operand_agree[OF \<sigma>'(1), of c m] operand_agree[OF \<sigma>'(1), of d m] reads va(4,5) by auto
      from perform_access[OF True va(2) this law(2-4)[folded \<sigma>'(4)] refl, of t] obtain \<tau> where \<tau>:
        "perform m (answered_access i' (''%bce'' @ t)) \<sigma>' = Go \<tau>" "st_mem \<tau> = st_mem \<sigma>'"
        "st_env \<tau> = bind_result i' x ((st_env \<sigma>')((''%bce'' @ t) @ ''at'' \<mapsto> b, (''%bce'' @ t) @ ''ref'' \<mapsto> r))" by blast
      have "agree old_names (st_env \<sigma>) ((st_env \<sigma>')((''%bce'' @ t) @ ''at'' \<mapsto> b, (''%bce'' @ t) @ ''ref'' \<mapsto> r))"
        using \<sigma>'(1) by (auto simp: agree_def old_names_def)
      from agree_bind[OF this, of i' i' x] \<tau> law(1) \<sigma>'(4) split ap show ?thesis
        by (intro exI[of _ "answered_access i' (''%bce'' @ t)"] exI[of _ is']) simp
    qed
  qed
qed

interpretation checks: expansion m "replaced fn pl" "answered_function (replaced fn pl) pl" "answers_left (replaced fn pl) pl" old_names
    "checks_ok m hdr vlen present fn pl"
  for m :: "('v, 's) machine" and hdr vlen present fn pl
proof
  fix \<sigma> \<tau> :: "('v, 's) state"
  assume ok: "checks_ok m hdr vlen present fn pl \<sigma>"
  show "checks_ok m hdr vlen present fn pl \<tau>" if "step m (replaced fn pl) \<sigma> = Go \<tau>" by (rule checks_step[OF ok that])
  fix p assume p: "p < length (f_blocks (replaced fn pl))"
  let ?cs = "lookup_last (bp_aliases pl)"
  have "v_name (replace_value ?cs v) \<in> old_names" if "v \<in> set (term_reads (b_term (f_blocks fn ! p)))" for v
    by (rule replaced_reads[OF ok]) (use that p in \<open>auto simp: function_reads_def replaced_shape intro!: bexI[of _ "f_blocks fn ! p"]\<close>)
  then show "v_name ` set (term_reads (b_term (f_blocks (replaced fn pl) ! p))) \<subseteq> old_names"
    using p by (auto simp: replaced_def map_function_reads_def map_term_reads_def term_reads_def)
next
  fix p k "is"
  show "length (f_blocks (answered_function (replaced fn pl) pl)) = length (f_blocks (replaced fn pl))"
    "positions (f_blocks (answered_function (replaced fn pl) pl)) = positions (f_blocks (replaced fn pl))"
    by (rule answered_shape)+
  assume p: "p < length (f_blocks (replaced fn pl))"
  from answered_blocks[OF p, of pl] obtain st is' st' where b: "apply_to_instrs pl p 0 (b_instrs (f_blocks (replaced fn pl) ! p)) st = (is', st')"
    "f_blocks (answered_function (replaced fn pl) pl) ! p =
      (f_blocks (replaced fn pl) ! p)\<lparr>b_instrs := map (answer_presence (present_names (replaced fn pl) pl)) is'\<rparr>" by blast
  then show "b_term (f_blocks (answered_function (replaced fn pl) pl) ! p) = b_term (f_blocks (replaced fn pl) ! p) \<and>
      b_name (f_blocks (answered_function (replaced fn pl) pl) ! p) = b_name (f_blocks (replaced fn pl) ! p)" by simp
  show "answers_left (replaced fn pl) pl p 0 (b_instrs (f_blocks (answered_function (replaced fn pl) pl) ! p))"
    unfolding answers_left_def using b by (intro exI[of _ st]) simp
  show "is = []" if "answers_left (replaced fn pl) pl p k is" "length (b_instrs (f_blocks (replaced fn pl) ! p)) \<le> k"
    using that by (auto simp: answers_left_def)
next
  fix \<sigma> \<sigma>' :: "('v, 's) state" and i out "is"
  assume "checks_ok m hdr vlen present fn pl \<sigma>" "alike old_names \<sigma> \<sigma>'" "current_instr (replaced fn pl) \<sigma> = Some i" "exec m \<sigma> i = Some out"
    "answers_left (replaced fn pl) pl (st_block \<sigma>) (st_step \<sigma>) is"
  then show "\<exists>js is'. is = js @ is' \<and> answers_left (replaced fn pl) pl (st_block \<sigma>) (Suc (st_step \<sigma>)) is' \<and>
      (case out of Yield x s \<Rightarrow> \<exists>\<tau>'. perform m js \<sigma>' = Go \<tau>' \<and> st_mem \<tau>' = s \<and> agree old_names (bind_result i x (st_env \<sigma>)) (st_env \<tau>')
       | Leave x s \<Rightarrow> perform m js \<sigma>' = Done x s)" by (rule checks_left_step)
qed

lemma pass_result:
  assumes "f_blocks fn \<noteq> []" "plan_for fn = Some pl" "walks w fn idom" "pl = bounds_walk w (reverse_postorder fn) idom"
  shows "eliminate_bounds_checks_in fn = Some fn \<or> eliminate_bounds_checks_in fn = Some (answered_function (replaced fn pl) pl)"
  using assms(1,2) replaced_aliases[OF assms(3), of "bp_aliases pl"] assms(4)
  by (auto simp: eliminate_bounds_checks_in_def apply_bounds_plan_def answered_function_result replaced_def)

text \<open>
  C8: EliminateBoundsChecks keeps what a function computes. Whatever a call returned and left in
  the memory before the pass it returns and leaves after it, on any machine whose arrays keep
  the stated laws: dropped checks could not fail, reused lengths are the lengths the array
  has, and an answered access borrows an element that is there. The pass succeeds on every
  such function.
\<close>
theorem bounds_checks_preserved:
  assumes "pass_wf fn" "array_laws m hdr vlen" "access_laws m hdr present" and "call_for n m fn vals s = Some r"
  shows "\<exists>fn' n'. eliminate_bounds_checks_in fn = Some fn' \<and> call_for n' m fn' vals s = Some r"
proof -
  have wf: "bounds_wf fn" using assms(1) by (simp add: pass_wf_def)
  have ne: "f_blocks fn \<noteq> []" using assms(4) by (cases n) (auto simp: call_for_def step_def start_def)
  from build_dominator_tree_total[OF ne] obtain pl where plan: "plan_for fn = Some pl" by (auto simp: plan_for_def)
  from plan_run[OF wf ne assms(2) call_env_args_for plan] obtain w idom where
    w: "run_of_walk m fn w idom hdr vlen (call_env fn vals)" "pl = bounds_walk w (reverse_postorder fn) idom" by blast
  note r = run_facts[OF w(1)]
  from aliases_copy_sound[OF w(1)] have cs: "copy_sound m fn (start (call_env fn vals) s) (lookup_last (bp_aliases pl))" using w(2) by blast
  have env: "call_env (replaced fn pl) vals = (call_env fn vals :: 'a env)" by (simp add: call_env_def replaced_shape)
  from replaced_reads_preserve[OF r(5) cs assms(4)] have same: "call_for n m (replaced fn pl) vals s = Some r" by (simp add: replaced_def)
  have "\<exists>n r. run m fn n (start (call_env fn vals) s) = Some r" using assms(4) unfolding call_for_def by blast
  then have "checks_ok m hdr vlen present fn pl (start (call_env (replaced fn pl) vals) s)"
    unfolding checks_ok_def env using assms(1,3) w reach.here by blast
  from checks.call_expanded[OF this _ same] obtain n' where "call_for n' m (answered_function (replaced fn pl) pl) vals s = Some r"
    by (auto simp: answered_shape)
  with pass_result[OF ne plan r(2) w(2)] assms(4) show ?thesis by blast
qed

definition element_present :: "array_value val \<Rightarrow> bool" where
  "element_present v \<longleftrightarrow> (\<exists>n. v = OtherV (Element (Some n)))"

lemma array_machine_accesses: "access_laws array_machine array_length element_present"
proof -
  have access: "op = ''array.get_or_panic'' \<Longrightarrow> 0 \<le> sint a \<Longrightarrow> sint a < int (length xs) \<Longrightarrow> array_step op [v, IntV a] xs = Some out \<Longrightarrow>
     \<exists>b r. out = Yield (IntV (xs ! nat (sint a))) xs \<and> array_step ''array.at'' [v, IntV a] xs = Some (Yield b xs) \<and>
        array_step ''opt.value'' [b] xs = Some (Yield r xs) \<and> array_step ''ref.load'' [r] xs = Some (Yield (IntV (xs ! nat (sint a))) xs)" for op v a xs out
    by (rule exI[of _ "OtherV (Element (Some (nat (sint a))))"], rule exI[of _ "OtherV (Slot (nat (sint a)))"])
      (auto simp: array_step_def element_at_def split: val.splits array_value.splits)
  have ops: "i_op i = ''array.get_or_panic'' \<Longrightarrow> i_op (answered_access i [] ! 0) = ''array.at''"
    "i_op i = ''array.get_or_panic'' \<Longrightarrow> i_op (answered_access i [] ! 1) = ''opt.value''"
    "i_op i = ''array.get_or_panic'' \<Longrightarrow> i_op (answered_access i [] ! 2) = ''ref.load''" for i
    by (simp_all add: answered_access_def Let_def new_instr_def)
  show ?thesis unfolding access_laws_def array_machine_def machine.simps shape_simps
  proof (intro conjI allI impI)
    fix i :: instr and v :: "array_value val" and a s out
    assume h: "i_op i = ''array.get_or_panic''" "0 \<le> sint a" "sint a < array_length s v" "array_step (i_op i) [v, IntV a] s = Some out"
    then show "\<exists>x b r. out = Yield x s \<and> array_step (i_op (answered_access i [] ! 0)) [v, IntV a] s = Some (Yield b s) \<and>
        array_step (i_op (answered_access i [] ! 1)) [b] s = Some (Yield r s) \<and>
        array_step (i_op (answered_access i [] ! 2)) [r] s = Some (Yield x s)"
      using access[OF h(1,2) _ h(4)] unfolding ops[OF h(1)] array_length_def by blast
  qed (auto simp: array_step_def element_at_def element_present_def array_length_def split: val.splits array_value.splits if_splits option.splits)
qed

theorem bounds_checks_preserved_witness:
  "\<exists>fn' n'. eliminate_bounds_checks_in sum_example = Some fn' \<and>
     call_for n' array_machine fn' [OtherV TheArray] [4, 5] = Some (IntV 9, [4, 5])"
proof -
  have "list_all access_wf (all_instrs sum_example)" by code_simp
  moreover have "list_all (\<lambda>x. \<not> prefix ''%bce'' x) (results sum_example @ map v_name (function_reads sum_example))" by code_simp
  ultimately have "pass_wf sum_example" using sum_example_wf by (simp add: pass_wf_def)
  moreover have "call_for 40 array_machine sum_example [OtherV TheArray] [4, 5] = Some (IntV 9, [4, 5])" by code_simp
  ultimately show ?thesis by (intro bounds_checks_preserved[OF _ array_machine_laws array_machine_accesses])
qed

end
