(* ===== verification/Wat.thy ===== *)
theory Wat
  imports Prelude
begin

text \<open>
  The parsed WebAssembly text of internal/wasm/module.go and the escapes of generated byte
  strings (internal/wasm/types.go). The code keeps nodes in a slice and names them by index;
  a node is a tree here. A node keeps where its text starts; the code records no place for a
  list, so a list starts at 0. The parser's position and the text from it on go together. Its
  recursion takes fuel, two units for each byte and one more, which is always enough
  (\<open>wat_node_no_fuel\<close>).
\<close>

section \<open>Nodes\<close>

datatype wat = WAtom nat string | WString nat string | WList "wat list"

definition wat_start :: "wat \<Rightarrow> nat" where
  "wat_start t = (case t of WAtom p _ \<Rightarrow> p | WString p _ \<Rightarrow> p | WList _ \<Rightarrow> 0)"

definition node_text :: "wat \<Rightarrow> string" where
  "node_text t = (case t of WAtom _ s \<Rightarrow> s | WString _ s \<Rightarrow> s | WList _ \<Rightarrow> [])"

definition is_atom :: "wat \<Rightarrow> bool" where
  "is_atom t = (case t of WAtom _ _ \<Rightarrow> True | _ \<Rightarrow> False)"

definition is_wstring :: "wat \<Rightarrow> bool" where
  "is_wstring t = (case t of WString _ _ \<Rightarrow> True | _ \<Rightarrow> False)"

definition is_wlist :: "wat \<Rightarrow> bool" where
  "is_wlist t = (case t of WList _ \<Rightarrow> True | _ \<Rightarrow> False)"

definition children :: "wat \<Rightarrow> wat list" where
  "children t = (case t of WList ts \<Rightarrow> ts | _ \<Rightarrow> [])"

definition list_head :: "wat \<Rightarrow> string" where
  "list_head t = (case t of WList (WAtom _ s # _) \<Rightarrow> s | _ \<Rightarrow> [])"

section \<open>The parser\<close>

datatype wat_error = ExpectedNode nat | UnexpectedClose nat | UnclosedList | UnclosedString
  | ExpectedAtom nat | TrailingText nat | ExpectedModule | WatFuel

definition module_space :: "char \<Rightarrow> bool" where
  "module_space c \<longleftrightarrow> c \<in> {CHR '' '', CHR 0x09, CHR 0x0D, CHR 0x0A}"

definition wat_skip :: "nat \<Rightarrow> string \<Rightarrow> nat \<times> string" where
  "wat_skip p s = (p + length (takeWhile module_space s), dropWhile module_space s)"

text \<open>How many bytes stand before the closing quote; an escape takes the byte after it too.\<close>

fun string_end :: "string \<Rightarrow> nat option" where
  "string_end [] = None"
| "string_end (c # s) =
     (if c = CHR 0x22 then Some 0
      else if c = CHR 0x5C then (case s of [] \<Rightarrow> None | d # r \<Rightarrow> map_option (\<lambda>n. n + 2) (string_end r))
      else map_option Suc (string_end s))"

definition atom_byte :: "char \<Rightarrow> bool" where
  "atom_byte c \<longleftrightarrow> \<not> module_space c \<and> c \<noteq> CHR ''('' \<and> c \<noteq> CHR '')''"

definition wat_string_at :: "nat \<Rightarrow> string \<Rightarrow> wat_error + wat \<times> nat \<times> string" where
  "wat_string_at p s =
     (case string_end s of
        None \<Rightarrow> Inl UnclosedString
      | Some n \<Rightarrow> Inr (WString p (take n s), p + n + 1, drop (Suc n) s))"

definition wat_atom_at :: "nat \<Rightarrow> string \<Rightarrow> wat_error + wat \<times> nat \<times> string" where
  "wat_atom_at p s =
     (let t = takeWhile atom_byte s
      in if t = [] then Inl (ExpectedAtom p) else Inr (WAtom p t, p + length t, dropWhile atom_byte s))"

fun wat_node :: "nat \<Rightarrow> nat \<Rightarrow> string \<Rightarrow> wat_error + wat \<times> nat \<times> string"
and wat_items :: "nat \<Rightarrow> nat \<Rightarrow> string \<Rightarrow> wat_error + wat list \<times> nat \<times> string" where
  "wat_node 0 p s = Inl WatFuel"
| "wat_node (Suc f) p s =
     (case wat_skip p s of (q, r) \<Rightarrow>
        (case r of
           [] \<Rightarrow> Inl (ExpectedNode q)
         | c # r' \<Rightarrow>
             if c = CHR ''('' then bind_res (wat_items f (Suc q) r') (\<lambda>(ts, q', s'). Inr (WList ts, q', s'))
             else if c = CHR '')'' then Inl (UnexpectedClose q)
             else if c = CHR 0x22 then wat_string_at (Suc q) r'
             else wat_atom_at q r))"
| "wat_items 0 p s = Inl WatFuel"
| "wat_items (Suc f) p s =
     (case wat_skip p s of (q, r) \<Rightarrow>
        (case r of
           [] \<Rightarrow> Inl UnclosedList
         | c # r' \<Rightarrow>
             if c = CHR '')'' then Inr ([], Suc q, r')
             else bind_res (wat_node f q r) (\<lambda>(t, q1, r1).
               bind_res (wat_items f q1 r1) (\<lambda>(ts, q2, r2). Inr (t # ts, q2, r2)))))"

definition parse_wat :: "string \<Rightarrow> wat_error + wat" where
  "parse_wat text =
     bind_res (wat_node (2 * length text + 1) 0 text) (\<lambda>(root, p, rest).
       case wat_skip p rest of (q, rest') \<Rightarrow>
         if rest' \<noteq> [] then Inl (TrailingText q)
         else if list_head root = ''module'' then Inr root else Inl ExpectedModule)"

section \<open>Byte strings\<close>

datatype string_error = UnclosedEscape | InvalidEscape | ExpectedString

definition hex_nibble :: "char \<Rightarrow> nat option" where
  "hex_nibble c =
     (if 48 \<le> byte c \<and> byte c \<le> 57 then Some (byte c - 48)
      else if 97 \<le> byte c \<and> byte c \<le> 102 then Some (byte c - 97 + 10)
      else if 65 \<le> byte c \<and> byte c \<le> 70 then Some (byte c - 65 + 10)
      else None)"

text \<open>Two hexadecimal digits after a backslash, and what follows them.\<close>

definition hex_escape :: "string \<Rightarrow> (char \<times> string) option" where
  "hex_escape s =
     (case s of
        d # e # r \<Rightarrow>
          (case (hex_nibble d, hex_nibble e) of
             (Some h, Some l) \<Rightarrow> Some (char_of (16 * h + l), r)
           | _ \<Rightarrow> None)
      | _ \<Rightarrow> None)"

definition plain_escape :: "string \<Rightarrow> string_error + char \<times> string" where
  "plain_escape s =
     (case s of
        [] \<Rightarrow> Inl UnclosedEscape
      | d # r \<Rightarrow>
          if d = CHR ''n'' then Inr (CHR 0x0A, r)
          else if d = CHR ''r'' then Inr (CHR 0x0D, r)
          else if d = CHR ''t'' then Inr (CHR 0x09, r)
          else if d = CHR 0x5C \<or> d = CHR 0x22 then Inr (d, r)
          else Inl InvalidEscape)"

lemma escape_shorter:
  "hex_escape s = Some (b, r) \<Longrightarrow> length r < length s"
  "plain_escape s = Inr (b, r) \<Longrightarrow> length r < length s"
  by (auto simp: hex_escape_def plain_escape_def split: list.splits option.splits if_splits)

function decode_string :: "string \<Rightarrow> string_error + string" where
  "decode_string [] = Inr []"
| "decode_string (c # s) =
     (if c \<noteq> CHR 0x5C then bind_res (decode_string s) (\<lambda>bs. Inr (c # bs))
      else
        (case hex_escape s of
           Some (b, r) \<Rightarrow> bind_res (decode_string r) (\<lambda>bs. Inr (b # bs))
         | None \<Rightarrow> bind_res (plain_escape s) (\<lambda>(b, r). bind_res (decode_string r) (\<lambda>bs. Inr (b # bs)))))"
  by pat_completeness auto
termination
  by (relation "measure length") (auto dest: escape_shorter)

definition string_bytes :: "wat \<Rightarrow> string_error + string" where
  "string_bytes t = (if is_wstring t then decode_string (node_text t) else Inl ExpectedString)"

text \<open>The escapes the emitter writes.\<close>

definition hex_digit :: "nat \<Rightarrow> char" where
  "hex_digit n = char_of (if n < 10 then 48 + n else 87 + n)"

definition hex_byte :: "char \<Rightarrow> string" where
  "hex_byte c = [hex_digit (byte c div 16), hex_digit (byte c mod 16)]"

definition escape_byte :: "char \<Rightarrow> string" where
  "escape_byte c =
     (if c = CHR 0x5C \<or> c = CHR 0x22 then CHR 0x5C # hex_byte c
      else if c = CHR 0x0A then CHR 0x5C # ''0a''
      else if c = CHR 0x09 then CHR 0x5C # ''09''
      else if byte c < 32 \<or> 127 \<le> byte c then CHR 0x5C # hex_byte c
      else [c])"

definition escape_string :: "string \<Rightarrow> string" where
  "escape_string s = concat (map escape_byte s)"

section \<open>Escapes are read back\<close>

lemma byte_less: "byte c < 256"
  by simp

lemma hex_digits: "n < 16 \<Longrightarrow> hex_nibble (hex_digit n) = Some n" "n < 16 \<Longrightarrow> hex_digit n \<noteq> CHR 0x22 \<and> hex_digit n \<noteq> CHR 0x5C"
proof -
  have "n < 16 \<Longrightarrow> byte (hex_digit n) = (if n < 10 then 48 + n else 87 + n)" by (auto simp: hex_digit_def)
  then show "n < 16 \<Longrightarrow> hex_nibble (hex_digit n) = Some n" "n < 16 \<Longrightarrow> hex_digit n \<noteq> CHR 0x22 \<and> hex_digit n \<noteq> CHR 0x5C"
    by (auto simp: hex_nibble_def split: if_splits)
qed

lemma hex_byte_read: "hex_escape (hex_byte c @ r) = Some (c, r)"
proof -
  have "byte c div 16 < 16" "byte c mod 16 < 16" using byte_less[of c] by (auto simp: div_less_iff_less_mult)
  then show ?thesis by (simp add: hex_escape_def hex_byte_def hex_digits)
qed

lemma escape_byte_cases:
  "escape_byte c = [c] \<and> c \<noteq> CHR 0x5C \<and> c \<noteq> CHR 0x22 \<or> escape_byte c = CHR 0x5C # hex_byte c"
proof -
  have "hex_byte (CHR 0x0A) = ''0a''" "hex_byte (CHR 0x09) = ''09''" by code_simp+
  then show ?thesis by (auto simp: escape_byte_def)
qed

lemma escape_byte_read: "decode_string (escape_byte c @ r) = bind_res (decode_string r) (\<lambda>bs. Inr (c # bs))"
  using escape_byte_cases[of c] by (auto simp: hex_byte_read)

lemma string_end_plain: "c \<noteq> CHR 0x22 \<Longrightarrow> c \<noteq> CHR 0x5C \<Longrightarrow> string_end (c # r) = map_option Suc (string_end r)"
  by simp

lemma string_end_escape: "string_end (CHR 0x5C # d # r) = map_option (\<lambda>n. n + 2) (string_end r)"
  by simp

lemma escape_byte_end: "string_end (escape_byte c @ r) = map_option (\<lambda>n. n + length (escape_byte c)) (string_end r)"
proof -
  have "byte c div 16 < 16" "byte c mod 16 < 16" using byte_less[of c] by (auto simp: div_less_iff_less_mult)
  note d = hex_digits(2)[OF this(2)]
  have "string_end (CHR 0x5C # hex_byte c @ r) = map_option (\<lambda>n. Suc (Suc (Suc n))) (string_end r)"
    by (simp only: hex_byte_def append_Cons append_Nil string_end_escape string_end_plain[OF conjunct1[OF d] conjunct2[OF d]])
      (simp add: option.map_comp comp_def)
  with escape_byte_cases[of c] show ?thesis by (auto simp: string_end_plain hex_byte_def)
qed

text \<open>
  C26: Byte strings survive the text form. What the emitter escapes decodes to the bytes it was
  given, and the parser finds the closing quote right after it, whatever the bytes are.
\<close>
theorem escaped_string_roundtrip:
  "decode_string (escape_string s) = Inr s \<and>
   wat_string_at p (escape_string s @ CHR 0x22 # rest) =
     Inr (WString p (escape_string s), p + length (escape_string s) + 1, rest)"
proof -
  have "decode_string (escape_string s) = Inr s"
    by (induction s) (simp_all add: escape_string_def escape_byte_read)
  moreover have "string_end (escape_string s @ CHR 0x22 # rest) = Some (length (escape_string s))"
    by (induction s) (simp_all add: escape_string_def escape_byte_end)
  ultimately show ?thesis by (simp add: wat_string_at_def)
qed

section \<open>Where the parser stops\<close>

definition took :: "nat \<Rightarrow> string \<Rightarrow> nat \<Rightarrow> string \<Rightarrow> bool" where
  "took p s q r \<longleftrightarrow> (\<exists>u. s = u @ r \<and> q = p + length u)"

lemma took_trans: "took p s q r \<Longrightarrow> took q r q' r' \<Longrightarrow> took p s q' r'"
  unfolding took_def by (metis add.assoc append.assoc length_append)

lemma took_one: "took p (c # s) (Suc p) s"
  unfolding took_def by (intro exI[of _ "[c]"]) simp

lemma took_length: "took p s q r \<Longrightarrow> length s = q - p + length r \<and> p \<le> q \<and> q + length r = p + length s"
  unfolding took_def by auto

lemma wat_skip_facts:
  assumes "wat_skip p s = (q, r)"
  shows "took p s q r" "r = [] \<or> \<not> module_space (hd r)"
proof -
  have r: "r = dropWhile module_space s" and q: "q = p + length (takeWhile module_space s)" using assms by (auto simp: wat_skip_def)
  show "took p s q r" unfolding took_def using r q by (intro exI[of _ "takeWhile module_space s"]) simp
  show "r = [] \<or> \<not> module_space (hd r)" using r hd_dropWhile by blast
qed

lemma string_end_bound: "string_end s = Some n \<Longrightarrow> n < length s \<and> s ! n = CHR 0x22"
  by (induction s arbitrary: n rule: string_end.induct) (auto split: if_splits list.splits)

lemma wat_string_took: "wat_string_at p s = Inr (t, q, r) \<Longrightarrow> took p s q r"
proof -
  assume "wat_string_at p s = Inr (t, q, r)"
  then obtain n where n: "string_end s = Some n" "q = p + n + 1" "r = drop (Suc n) s"
    by (auto simp: wat_string_at_def split: option.splits)
  with string_end_bound[OF n(1)] show ?thesis unfolding took_def by (intro exI[of _ "take (Suc n) s"]) simp
qed

lemma wat_atom_took: "wat_atom_at p s = Inr (t, q, r) \<Longrightarrow> took p s q r \<and> p < q"
  unfolding took_def wat_atom_at_def
  by (auto simp: Let_def split: if_splits intro!: exI[of _ "takeWhile atom_byte s"])

text \<open>What a parse took off the text, and that the place it ends at counts it.\<close>

lemma wat_took:
  "wat_node f p s = Inr (t, q, r) \<Longrightarrow> took p s q r \<and> p < q"
  "wat_items f p s = Inr (ts, q, r) \<Longrightarrow> took p s q r \<and> p < q"
proof (induction f p s and f p s arbitrary: t q r and ts q r rule: wat_node_wat_items.induct)
  case (2 f p s)
  obtain q0 r0 where sk: "wat_skip p s = (q0, r0)" by (meson surj_pair)
  note w = wat_skip_facts(1)[OF sk]
  then have le: "p \<le> q0" using took_length by blast
  from "2.prems" sk obtain c r' where r0: "r0 = c # r'" by (cases r0) auto
  have w1: "took p s (Suc q0) r'" using took_trans[OF w] took_one r0 by simp
  show ?case
  proof (cases "c = CHR ''(''")
    case True
    with "2.prems" sk r0 obtain ts where ts: "wat_items f (Suc q0) r' = Inr (ts, q, r)" by (auto simp: bind_res_eq_Inr)
    from "2.IH"[OF sk[symmetric] r0 True ts] took_trans[OF w1] le show ?thesis by auto
  next
    case False
    then consider (str) "wat_string_at (Suc q0) r' = Inr (t, q, r)" | (atom) "wat_atom_at q0 r0 = Inr (t, q, r)"
      using "2.prems" sk r0 by (auto split: if_splits)
    then show ?thesis
    proof cases
      case str
      from wat_string_took[OF str] took_trans[OF w1] took_length[OF wat_string_took[OF str]] le show ?thesis by auto
    next
      case atom
      from wat_atom_took[OF atom] took_trans[OF w] le show ?thesis by auto
    qed
  qed
next
  case (4 f p s)
  obtain q0 r0 where sk: "wat_skip p s = (q0, r0)" by (meson surj_pair)
  note w = wat_skip_facts(1)[OF sk]
  then have le: "p \<le> q0" using took_length by blast
  from "4.prems" sk obtain c r' where r0: "r0 = c # r'" by (cases r0) auto
  show ?case
  proof (cases "c = CHR '')''")
    case True
    with "4.prems" sk r0 took_trans[OF w] took_one[of q0 c r'] le show ?thesis by auto
  next
    case False
    with "4.prems" sk r0 obtain t q1 r1 ts' where n: "wat_node f q0 r0 = Inr (t, q1, r1)" "wat_items f q1 r1 = Inr (ts', q, r)"
      by (auto simp: bind_res_eq_Inr)
    have "took q0 r0 q1 r1 \<and> q0 < q1" using "4.IH"(1)[OF sk[symmetric] r0 False] n(1) r0 by simp
    moreover have "took q1 r1 q r \<and> q1 < q" by (rule "4.IH"(2)[OF sk[symmetric] r0 False n(1) refl refl n(2)])
    ultimately show ?thesis using took_trans[OF took_trans[OF w]] le by auto
  qed
qed simp_all


lemma wat_node_no_fuel:
  "2 * length s + 1 \<le> f \<Longrightarrow> wat_node f p s \<noteq> Inl WatFuel"
  "2 * length s + 2 \<le> f \<Longrightarrow> wat_items f p s \<noteq> Inl WatFuel"
proof (induction f p s and f p s rule: wat_node_wat_items.induct)
  case (2 f p s)
  obtain q0 r0 where sk: "wat_skip p s = (q0, r0)" by (meson surj_pair)
  have le: "length r0 \<le> length s" using took_length[OF wat_skip_facts(1)[OF sk]] by linarith
  show ?case
  proof (cases r0)
    case (Cons c r')
    have "wat_items f (Suc q0) r' \<noteq> Inl WatFuel" if "c = CHR ''(''"
      using "2.IH"[OF sk[symmetric] Cons that] "2.prems" le Cons by simp
    moreover have "wat_string_at p' s' \<noteq> Inl WatFuel" "wat_atom_at p' s' \<noteq> Inl WatFuel" for p' s'
      by (simp_all add: wat_string_at_def wat_atom_at_def Let_def split: option.split)
    ultimately show ?thesis using sk Cons by (cases "wat_items f (Suc q0) r'") (simp_all split: prod.split)
  qed (simp add: sk)
next
  case (4 f p s)
  obtain q0 r0 where sk: "wat_skip p s = (q0, r0)" by (meson surj_pair)
  have le: "length r0 \<le> length s" using took_length[OF wat_skip_facts(1)[OF sk]] by linarith
  show ?case
  proof (cases r0)
    case (Cons c r')
    show ?thesis
    proof (cases "c = CHR '')''")
      case False
      have "wat_node f q0 r0 \<noteq> Inl WatFuel" using "4.IH"(1)[OF sk[symmetric] Cons False] "4.prems" le Cons by simp
      moreover have "wat_items f q1 r1 \<noteq> Inl WatFuel" if n: "wat_node f q0 r0 = Inr (t, q1, r1)" for t q1 r1
      proof -
        have "length r1 < length r0" using took_length[OF conjunct1[OF wat_took(1)[OF n]]] conjunct2[OF wat_took(1)[OF n]] by linarith
        with "4.IH"(2)[OF sk[symmetric] Cons False n refl refl] "4.prems" le show ?thesis by simp
      qed
      ultimately show ?thesis using sk Cons False by (auto simp: bind_res_def split: sum.splits)
    qed (simp add: sk Cons)
  qed (simp add: sk)
qed simp_all

section \<open>Printing\<close>

fun wat_print :: "wat \<Rightarrow> string" where
  "wat_print (WAtom p s) = s"
| "wat_print (WString p s) = CHR 0x22 # s @ [CHR 0x22]"
| "wat_print (WList ts) = CHR ''('' # join '' '' (map wat_print ts) @ '')''"

text \<open>A node without its places.\<close>

fun wat_shape :: "wat \<Rightarrow> wat" where
  "wat_shape (WAtom p s) = WAtom 0 s"
| "wat_shape (WString p s) = WString 0 s"
| "wat_shape (WList ts) = WList (map wat_shape ts)"

fun wat_spelled :: "wat \<Rightarrow> bool" where
  "wat_spelled (WAtom p s) \<longleftrightarrow> s \<noteq> [] \<and> hd s \<noteq> CHR 0x22 \<and> list_all atom_byte s"
| "wat_spelled (WString p s) \<longleftrightarrow> string_end (s @ [CHR 0x22]) = Some (length s)"
| "wat_spelled (WList ts) \<longleftrightarrow> list_all wat_spelled ts"

text \<open>Every atom and string stands in the text at the place it names.\<close>

fun wat_places :: "string \<Rightarrow> wat \<Rightarrow> bool" where
  "wat_places text (WAtom p s) \<longleftrightarrow> take (length s) (drop p text) = s"
| "wat_places text (WString p s) \<longleftrightarrow> take (length s) (drop p text) = s"
| "wat_places text (WList ts) \<longleftrightarrow> list_all (wat_places text) ts"

lemma string_end_more: "string_end s = Some n \<Longrightarrow> string_end (s @ r) = Some n"
  by (induction s arbitrary: n rule: string_end.induct) (auto split: if_splits list.splits)

lemma string_end_take: "string_end s = Some n \<Longrightarrow> string_end (take n s @ [CHR 0x22]) = Some n"
  by (induction s arbitrary: n rule: string_end.induct) (auto split: if_splits list.splits)

lemma wat_string_spelled: "wat_string_at p s = Inr (t, q, r) \<Longrightarrow> wat_spelled t"
  using string_end_bound[of s] by (auto simp: wat_string_at_def string_end_take min_absorb2 split: option.splits)

lemma wat_atom_spelled: "wat_atom_at p s = Inr (t, q, r) \<Longrightarrow> s \<noteq> [] \<Longrightarrow> hd s \<noteq> CHR 0x22 \<Longrightarrow> wat_spelled t"
  by (cases s) (auto simp: wat_atom_at_def Let_def list_all_iff split: if_splits dest: set_takeWhileD)

lemma wat_parsed_spelled:
  "wat_node f p s = Inr (t, q, r) \<Longrightarrow> wat_spelled t"
  "wat_items f p s = Inr (ts, q, r) \<Longrightarrow> list_all wat_spelled ts"
proof (induction f p s and f p s arbitrary: t q r and ts q r rule: wat_node_wat_items.induct)
  case (2 f p s)
  obtain q0 r0 where sk: "wat_skip p s = (q0, r0)" by (meson surj_pair)
  from "2.prems" sk obtain c r' where r0: "r0 = c # r'" by (cases r0) auto
  with "2.prems" sk "2.IH"[OF sk[symmetric] r0] show ?case
    by (auto simp: bind_res_eq_Inr wat_string_spelled split: if_splits dest!: wat_atom_spelled)
next
  case (4 f p s)
  obtain q0 r0 where sk: "wat_skip p s = (q0, r0)" by (meson surj_pair)
  from "4.prems" sk obtain c r' where r0: "r0 = c # r'" by (cases r0) auto
  show ?case
  proof (cases "c = CHR '')''")
    case False
    with "4.prems" sk r0 obtain t q1 r1 ts' where n: "wat_node f q0 r0 = Inr (t, q1, r1)" "wat_items f q1 r1 = Inr (ts', q, r)" "ts = t # ts'"
      by (auto simp: bind_res_eq_Inr)
    from "4.IH"(1)[OF sk[symmetric] r0 False n(1)] "4.IH"(2)[OF sk[symmetric] r0 False n(1) refl refl n(2)] n(3) show ?thesis by simp
  qed (use "4.prems" sk r0 in auto)
qed simp_all


lemma wat_string_places: "wat_string_at p s = Inr (t, q, r) \<Longrightarrow> took 0 text p s \<Longrightarrow> wat_places text t"
  using string_end_bound[of s] by (auto simp: took_def wat_string_at_def split: option.splits)

lemma wat_atom_places: "wat_atom_at p s = Inr (t, q, r) \<Longrightarrow> took 0 text p s \<Longrightarrow> wat_places text t"
  by (auto simp: took_def wat_atom_at_def Let_def takeWhile_eq_take[symmetric] split: if_splits)

lemma wat_parsed_places:
  "wat_node f p s = Inr (t, q, r) \<Longrightarrow> took 0 text p s \<Longrightarrow> wat_places text t"
  "wat_items f p s = Inr (ts, q, r) \<Longrightarrow> took 0 text p s \<Longrightarrow> list_all (wat_places text) ts"
proof (induction f p s and f p s arbitrary: t q r and ts q r rule: wat_node_wat_items.induct)
  case (2 f p s)
  obtain q0 r0 where sk: "wat_skip p s = (q0, r0)" by (meson surj_pair)
  from "2.prems" sk obtain c r' where r0: "r0 = c # r'" by (cases r0) auto
  have at: "took 0 text q0 (c # r')" using took_trans[OF "2.prems"(2) wat_skip_facts(1)[OF sk]] r0 by simp
  note at' = took_trans[OF at took_one]
  show ?case
  proof (cases "c = CHR ''(''")
    case True
    with "2.prems" sk r0 obtain ts where ts: "wat_items f (Suc q0) r' = Inr (ts, q, r)" "t = WList ts" by (auto simp: bind_res_eq_Inr)
    from "2.IH"[OF sk[symmetric] r0 True ts(1) at'] ts(2) show ?thesis by simp
  next
    case False
    then consider "wat_string_at (Suc q0) r' = Inr (t, q, r)" | "wat_atom_at q0 (c # r') = Inr (t, q, r)"
      using "2.prems" sk r0 by (auto split: if_splits)
    then show ?thesis by cases (rule wat_string_places[OF _ at'], assumption, rule wat_atom_places[OF _ at], assumption)
  qed
next
  case (4 f p s)
  obtain q0 r0 where sk: "wat_skip p s = (q0, r0)" by (meson surj_pair)
  from "4.prems" sk obtain c r' where r0: "r0 = c # r'" by (cases r0) auto
  have at: "took 0 text q0 r0" using took_trans[OF "4.prems"(2) wat_skip_facts(1)[OF sk]] by simp
  show ?case
  proof (cases "c = CHR '')''")
    case False
    with "4.prems" sk r0 obtain t q1 r1 ts' where n: "wat_node f q0 r0 = Inr (t, q1, r1)" "wat_items f q1 r1 = Inr (ts', q, r)" "ts = t # ts'"
      by (auto simp: bind_res_eq_Inr)
    have "took 0 text q1 r1" using took_trans[OF at] wat_took(1)[OF n(1)] by blast
    from "4.IH"(1)[OF sk[symmetric] r0 False n(1) at] "4.IH"(2)[OF sk[symmetric] r0 False n(1) refl refl n(2) this] n(3) show ?thesis by simp
  qed (use "4.prems" sk r0 in auto)
qed simp_all

section \<open>Printed nodes are read back\<close>

fun items_text :: "string \<Rightarrow> wat list \<Rightarrow> string" where
  "items_text w [] = []"
| "items_text w (t # ts) = w @ wat_print t @ items_text '' '' ts"

lemma items_join: "join '' '' (map wat_print ts) = items_text [] ts"
proof -
  have sep: "items_text '' '' (t # ts) = '' '' @ join '' '' (map wat_print (t # ts))" for t ts
    by (induction ts arbitrary: t) simp_all
  show ?thesis by (cases ts; cases "tl ts") (simp_all add: sep[simplified])
qed

lemma print_head:
  assumes "wat_spelled t"
  shows "wat_print t \<noteq> []" "\<not> module_space (hd (wat_print t))" "hd (wat_print t) \<noteq> CHR '')''"
  using assms by (cases t; cases "wat_print t"; force simp: atom_byte_def module_space_def)+

lemma skip_to: "x \<noteq> [] \<Longrightarrow> \<not> module_space (hd x) \<Longrightarrow> list_all module_space w \<Longrightarrow> wat_skip p (w @ x) = (p + length w, x)"
  by (cases x) (auto simp: wat_skip_def list_all_iff takeWhile_append2 dropWhile_append2)

definition stands_apart :: "string \<Rightarrow> bool" where
  "stands_apart rest \<longleftrightarrow> rest = [] \<or> \<not> atom_byte (hd rest)"

lemma atom_reads:
  assumes "list_all atom_byte s" "s \<noteq> []" "stands_apart rest"
  shows "wat_atom_at p (s @ rest) = Inr (WAtom p s, p + length s, rest)"
proof -
  have "takeWhile atom_byte (s @ rest) = s" "dropWhile atom_byte (s @ rest) = rest"
    using assms by (cases rest; simp add: stands_apart_def list_all_iff takeWhile_append2 dropWhile_append2)+
  then show ?thesis using assms(2) by (simp add: wat_atom_at_def)
qed

lemma string_reads:
  "string_end (s @ [CHR 0x22]) = Some (length s) \<Longrightarrow>
    wat_string_at p (s @ CHR 0x22 # rest) = Inr (WString p s, p + length s + 1, rest)"
  using string_end_more[of "s @ [CHR 0x22]" "length s" rest] by (simp add: wat_string_at_def)

lemma printed_reads:
  "wat_spelled t \<Longrightarrow> stands_apart rest \<Longrightarrow> 2 * length (wat_print t @ rest) + 1 \<le> f \<Longrightarrow>
    \<exists>t'. wat_node f p (wat_print t @ rest) = Inr (t', p + length (wat_print t), rest) \<and> wat_shape t' = wat_shape t"
proof (induction t arbitrary: p rest f)
  case (WAtom k s)
  have hd: "hd s \<noteq> CHR '')'' \<and> hd s \<noteq> CHR ''(''" using WAtom.prems(1) by (cases s) (auto simp: atom_byte_def)
  have "wat_skip p (s @ rest) = (p, s @ rest)" using skip_to[of "s @ rest" "[]" p] print_head[OF WAtom.prems(1)] by simp
  moreover obtain g where "f = Suc g" using WAtom.prems(3) by (cases f) auto
  moreover obtain c s' where "s = c # s'" using WAtom.prems(1) by (cases s) auto
  ultimately show ?case using hd WAtom.prems atom_reads[of s rest p] by simp
next
  case (WString k s)
  obtain g where "f = Suc g" using WString.prems(3) by (cases f) auto
  moreover have "wat_skip p (CHR 0x22 # s @ CHR 0x22 # rest) = (p, CHR 0x22 # s @ CHR 0x22 # rest)"
    by (simp add: wat_skip_def module_space_def)
  ultimately show ?case using string_reads[of s "Suc p" rest] WString.prems(1) by simp
next
  case (WList ts)
  have items: "list_all wat_spelled ys \<Longrightarrow> set ys \<subseteq> set ts \<Longrightarrow> w = [] \<or> w = '' '' \<Longrightarrow> 2 * length (items_text w ys @ '')'' @ rest) + 2 \<le> f \<Longrightarrow>
      \<exists>ts'. wat_items f p (items_text w ys @ '')'' @ rest) = Inr (ts', p + length (items_text w ys) + 1, rest) \<and> map wat_shape ts' = map wat_shape ys"
    for ys w f p
  proof (induction ys arbitrary: w f p)
    case Nil
    then obtain g where "f = Suc g" by (cases f) auto
    then show ?case by (simp add: wat_skip_def module_space_def)
  next
    case (Cons y ys)
    let ?more = "items_text '' '' ys @ '')'' @ rest"
    obtain g where g: "f = Suc g" using Cons.prems(4) by (cases f) auto
    have y: "wat_spelled y" using Cons.prems(1) by simp
    have "wat_skip p (w @ wat_print y @ ?more) = (p + length w, wat_print y @ ?more)"
      using skip_to[of "wat_print y @ ?more" w p] print_head[OF y] Cons.prems(3) by (auto simp: module_space_def)
    moreover obtain c r where c: "wat_print y = c # r" "c \<noteq> CHR '')''" using print_head[OF y] by (cases "wat_print y") auto
    moreover have "stands_apart ?more" by (cases ys) (simp_all add: stands_apart_def atom_byte_def module_space_def)
    with WList.IH[of y ?more g "p + length w"] y Cons.prems(2,4) g obtain y' where y':
      "wat_node g (p + length w) (wat_print y @ ?more) = Inr (y', p + length w + length (wat_print y), ?more)" "wat_shape y' = wat_shape y" by auto
    moreover from Cons.IH[of "'' ''" g "p + length w + length (wat_print y)"] Cons.prems g c obtain ts' where
      "wat_items g (p + length w + length (wat_print y)) ?more = Inr (ts', p + length w + length (wat_print y) + length (items_text '' '' ys) + 1, rest)"
      "map wat_shape ts' = map wat_shape ys" by auto
    ultimately show ?case using g by (simp add: add.assoc)
  qed
  obtain g where g: "f = Suc g" using WList.prems(3) by (cases f) auto
  have "wat_skip p (CHR ''('' # items_text [] ts @ '')'' @ rest) = (p, CHR ''('' # items_text [] ts @ '')'' @ rest)"
    by (simp add: wat_skip_def module_space_def)
  moreover from items[of ts "[]" g "Suc p"] WList.prems g obtain ts' where
    "wat_items g (Suc p) (items_text [] ts @ '')'' @ rest) = Inr (ts', Suc p + length (items_text [] ts) + 1, rest)" "map wat_shape ts' = map wat_shape ts"
    by (auto simp: items_join)
  ultimately show ?case using g by (simp add: items_join)
qed

lemma shape_head: "wat_shape t = wat_shape t' \<Longrightarrow> list_head t = list_head t'"
proof -
  have "list_head (wat_shape t) = list_head t" for t
    by (cases t; cases "children t"; cases "hd (children t)") (auto simp: list_head_def children_def)
  then show "wat_shape t = wat_shape t' \<Longrightarrow> list_head t = list_head t'" by metis
qed

text \<open>
  C20: The parser of the WebAssembly text. It answers on every text; a module it returns has
  each atom and string at the place in the text that the node names; and printing the module
  again, whatever its spacing was, parses to the same nodes.
\<close>
theorem parse_wat_roundtrip:
  "parse_wat text \<noteq> Inl WatFuel \<and>
   (\<forall>t. parse_wat text = Inr t \<longrightarrow> wat_places text t \<and>
      (\<exists>t'. parse_wat (wat_print t) = Inr t' \<and> wat_shape t' = wat_shape t))"
proof (intro conjI allI impI)
  have "wat_node (2 * length text + 1) 0 text \<noteq> Inl WatFuel" by (rule wat_node_no_fuel) simp
  then show "parse_wat text \<noteq> Inl WatFuel"
    by (cases "wat_node (2 * length text + 1) 0 text") (auto simp: parse_wat_def split: prod.split)
next
  fix t
  assume "parse_wat text = Inr t"
  then obtain root p r where node: "wat_node (2 * length text + 1) 0 text = Inr (root, p, r)"
    and rest: "(case wat_skip p r of (q, rest') \<Rightarrow> if rest' \<noteq> [] then Inl (TrailingText q)
         else if list_head root = ''module'' then Inr root else Inl ExpectedModule) = Inr t"
    unfolding parse_wat_def bind_res_eq_Inr by fastforce
  obtain q r' where "wat_skip p r = (q, r')" by (meson surj_pair)
  with rest have "root = t" "list_head t = ''module''" by (auto split: if_splits)
  with node have n: "wat_node (2 * length text + 1) 0 text = Inr (t, p, r)" "list_head t = ''module''" by simp_all
  show "wat_places text t" using wat_parsed_places(1)[OF n(1)] by (simp add: took_def)
  have "stands_apart []" by (simp add: stands_apart_def)
  from printed_reads[OF wat_parsed_spelled(1)[OF n(1)] this, of "2 * length (wat_print t) + 1" 0] obtain t' where t':
    "wat_node (2 * length (wat_print t) + 1) 0 (wat_print t) = Inr (t', length (wat_print t), [])" "wat_shape t' = wat_shape t" by auto
  then have "parse_wat (wat_print t) = Inr t'" using shape_head[OF t'(2)] n(2) by (simp add: parse_wat_def wat_skip_def)
  with t'(2) show "\<exists>t'. parse_wat (wat_print t) = Inr t' \<and> wat_shape t' = wat_shape t" by blast
qed

definition wat_example :: string where
  "wat_example = ''(module (memory 1) (data (i32.const 16) '' @ [CHR 0x22] @ ''a b'' @ [CHR 0x22] @ '' ))''"

theorem parse_wat_roundtrip_witness:
  "\<exists>t. parse_wat wat_example = Inr t \<and> (\<exists>t'. parse_wat (wat_print t) = Inr t' \<and> wat_shape t' = wat_shape t)"
proof -
  have "case parse_wat wat_example of Inr t \<Rightarrow> True | Inl e \<Rightarrow> False" by code_simp
  then obtain t where "parse_wat wat_example = Inr t" by (cases "parse_wat wat_example") auto
  with parse_wat_roundtrip[of wat_example] show ?thesis by blast
qed

end
