(* ===== verification/Leb.thy ===== *)
theory Leb
  imports Prelude
begin

text \<open>
  The LEB128 numbers of the WebAssembly encoder (the end of internal/wasm/binary.go). The code
  appends to a slice; a function here gives what it appends. The readers follow the binary
  format and know nothing of the writers.
\<close>

section \<open>LEB128\<close>

type_synonym bytes = "8 word list"
type_synonym u32 = "32 word"

text \<open>The loop shifts seven bits out of the value until none is left.\<close>

function u32_bytes :: "u32 \<Rightarrow> bytes" where
  "u32_bytes v =
     (let current = ucast (v AND 0x7f); w = drop_bit 7 v
      in if w \<noteq> 0 then (current OR 0x80) # u32_bytes w else [current])"
  by pat_completeness auto
termination
proof (relation "measure unat", simp)
  fix v w :: u32 and current :: "8 word"
  assume w: "w = drop_bit 7 v" "w \<noteq> 0"
  have "unat v \<noteq> 0" using w by (auto simp: unat_eq_0)
  then have "unat v div 128 < unat v" by (intro div_less_dividend) auto
  then show "(w, v) \<in> measure unat" using w(1) by (simp only: unat_drop_bit_eq in_measure) (simp add: drop_bit_eq_div)
qed

declare u32_bytes.simps [simp del]

definition signed_done :: "i64 \<Rightarrow> 8 word \<Rightarrow> bool" where
  "signed_done remaining current \<longleftrightarrow>
     remaining = 0 \<and> current AND 0x40 = 0 \<or> remaining = - 1 \<and> current AND 0x40 \<noteq> 0"

function signed_bytes :: "i64 \<Rightarrow> int \<Rightarrow> bytes" where
  "signed_bytes v bits =
     (let current = ucast (v AND 0x7f); remaining = signed_drop_bit 7 v
      in if signed_done remaining current then [current]
         else if bits - 7 \<le> 0 then [current OR 0x80]
         else (current OR 0x80) # signed_bytes remaining (bits - 7))"
  by pat_completeness auto
termination
  by (relation "measure (\<lambda>(v, bits). nat bits)") auto

declare signed_bytes.simps [simp del]

definition i32_bytes :: "u32 \<Rightarrow> bytes" where
  "i32_bytes v = signed_bytes (scast v) 32"

definition i64_bytes :: "i64 \<Rightarrow> bytes" where
  "i64_bytes v = signed_bytes v 64"

text \<open>The numbers the format gives a run of bytes.\<close>

fun leb_unsigned :: "bytes \<Rightarrow> (nat \<times> bytes) option" where
  "leb_unsigned [] = None"
| "leb_unsigned (b # bs) =
     (if unat b < 128 then Some (unat b, bs)
      else map_option (\<lambda>(n, r). (unat b - 128 + 128 * n, r)) (leb_unsigned bs))"

fun leb_signed :: "bytes \<Rightarrow> (int \<times> bytes) option" where
  "leb_signed [] = None"
| "leb_signed (b # bs) =
     (if uint b < 64 then Some (uint b, bs)
      else if uint b < 128 then Some (uint b - 128, bs)
      else map_option (\<lambda>(n, r). (uint b - 128 + 128 * n, r)) (leb_signed bs))"

lemma low_bits:
  assumes "7 \<le> LENGTH('a :: len)"
  shows "unat (ucast ((v :: 'a word) AND 0x7f) :: 8 word) = unat v mod 128"
proof -
  have "(0x7f :: 'a word) = mask 7" by (simp add: mask_eq_exp_minus_1)
  then have "v AND 0x7f = take_bit 7 v" by (simp only: take_bit_eq_mask)
  moreover have "unat (take_bit 7 v) = take_bit 7 (unat v)" by (rule unsigned_take_bit_eq)
  ultimately have "unat (v AND 0x7f) = unat v mod 128" by (simp only: take_bit_eq_mod) simp
  moreover have "unat v mod 128 < 256" by (rule less_trans[of _ 128]) auto
  ultimately show ?thesis by (simp add: unsigned_ucast_eq take_bit_eq_mod)
qed

lemma set_high_bit:
  assumes "unat (b :: 8 word) < 128"
  shows "unat (b OR 0x80) = unat b + 128"
proof -
  have "list_all (\<lambda>n :: nat. n OR 128 = n + 128) [0..<128]" by code_simp
  then have "n OR 128 = n + 128" if "n < 128" for n :: nat using that by (simp add: list_all_iff)
  with assms show ?thesis by (simp add: unsigned_or_eq)
qed

lemma u32_bytes_step:
  assumes "current = (ucast (v AND 0x7f) :: 8 word)"
  shows "unat current = unat v mod 128" "unat (drop_bit 7 v :: u32) = unat v div 128"
    "unat (current OR 0x80) = unat v mod 128 + 128"
proof -
  show c: "unat current = unat v mod 128" unfolding assms by (rule low_bits) simp
  show "unat (drop_bit 7 v) = unat v div 128" by (simp only: unat_drop_bit_eq) (simp add: drop_bit_eq_div)
  show "unat (current OR 0x80) = unat v mod 128 + 128" using set_high_bit[of current] c by simp
qed

lemma u32_read: "leb_unsigned (u32_bytes v @ rest) = Some (unat v, rest)"
proof (induction v rule: u32_bytes.induct)
  case (1 v)
  note s = u32_bytes_step[OF refl, of v]
  show ?case
  proof (cases "drop_bit 7 v = 0")
    case True
    then have "unat v div 128 = 0" using s(2) by simp
    then have "unat v < 128" by (simp add: div_eq_0_iff)
    with s(1) True show ?thesis by (subst u32_bytes.simps) (simp add: Let_def)
  next
    case False
    from 1[OF refl refl False] s False show ?thesis
      by (subst u32_bytes.simps) (simp add: Let_def)
  qed
qed


lemma u32_short: "unat v < 128 ^ n \<Longrightarrow> 0 < n \<Longrightarrow> length (u32_bytes v) \<le> n"
proof (induction v arbitrary: n rule: u32_bytes.induct)
  case (1 v)
  show ?case
  proof (cases "drop_bit 7 v = 0")
    case True
    with "1.prems"(2) show ?thesis by (subst u32_bytes.simps) (simp add: Let_def)
  next
    case False
    then have d: "unat v div 128 \<noteq> 0" using u32_bytes_step(2)[OF refl, of v] by (metis unat_eq_0)
    then have "128 \<le> unat v" by (simp add: div_eq_0_iff)
    with "1.prems" have "1 < n" by (cases "n = 1") auto
    then obtain k where k: "n = Suc k" "0 < k" by (cases n) auto
    have "unat (drop_bit 7 v) < 128 ^ k" using "1.prems"(1) u32_bytes_step(2)[OF refl, of v] k(1)
      by (simp add: less_mult_imp_div_less mult.commute)
    from "1.IH"[OF refl refl False this k(2)] False k(1) show ?thesis by (subst u32_bytes.simps) (simp add: Let_def)
  qed
qed

text \<open>The last byte of more than one is not a zero that could be left out.\<close>

lemma u32_canonical: "last (u32_bytes v) = 0 \<Longrightarrow> u32_bytes v = [0]"
proof (induction v rule: u32_bytes.induct)
  case (1 v)
  show ?case
  proof (cases "drop_bit 7 v = 0")
    case True
    with "1.prems" show ?thesis by (subst u32_bytes.simps, subst (asm) (2) u32_bytes.simps) (simp add: Let_def)
  next
    case False
    let ?w = "drop_bit 7 v"
    have ne: "u32_bytes ?w \<noteq> []" by (subst u32_bytes.simps) (simp add: Let_def)
    have "u32_bytes v = (ucast (v AND 0x7f) OR 0x80) # u32_bytes ?w" using False by (subst u32_bytes.simps) (simp add: Let_def)
    with "1.prems" ne have "last (u32_bytes ?w) = 0" by simp
    from "1.IH"[OF refl refl False this] have "u32_bytes ?w = [0]" .
    with u32_read[of ?w "[]"] have "unat ?w = 0" by simp
    with False show ?thesis by (simp add: unat_eq_0)
  qed
qed


text \<open>The same for signed numbers.\<close>

lemma sign_bit:
  assumes "unat (b :: 8 word) < 128"
  shows "b AND 0x40 = 0 \<longleftrightarrow> unat b < 64"
proof -
  have "list_all (\<lambda>n :: nat. (n AND 64 = 0) = (n < 64)) [0..<128]" by code_simp
  then have "n AND 64 = 0 \<longleftrightarrow> n < 64" if "n < 128" for n :: nat using that by (simp add: list_all_iff)
  with assms have "unat b AND 64 = 0 \<longleftrightarrow> unat b < 64" by simp
  moreover have "unat (b AND 0x40) = unat b AND 64" by (simp add: unsigned_and_eq)
  ultimately show ?thesis by (metis unsigned_eq_0_iff)
qed

lemma signed_step:
  assumes c: "current = (ucast ((v :: i64) AND 0x7f) :: 8 word)" and w: "w = signed_drop_bit 7 v"
  shows "uint current = sint v mod 128" "sint w = sint v div 128" "uint (current OR 0x80) = sint v mod 128 + 128"
    "signed_done w current \<longleftrightarrow> sint v div 128 = 0 \<and> sint v mod 128 < 64 \<or> sint v div 128 = - 1 \<and> 64 \<le> sint v mod 128"
proof -
  have lt: "unat current < 128" and nat: "unat current = unat v mod 128" using low_bits[of v] unfolding c by simp_all
  have "sint v mod 128 = uint v mod 128"
  proof -
    have "uint v = take_bit LENGTH(64) (sint v)" by (rule uint_sint)
    then have "uint v mod 128 = sint v mod 2 ^ 64 mod 128" by (simp only: take_bit_eq_mod len_num0) simp
    also have "\<dots> = sint v mod 128" by (rule mod_mod_cancel) simp
    finally show ?thesis by simp
  qed
  moreover have u: "uint current = int (unat current)" by simp
  ultimately show cu: "uint current = sint v mod 128" using nat by (metis of_nat_mod of_nat_numeral uint_nat)
  show sw: "sint w = sint v div 128" unfolding w by (simp add: sint_signed_drop_bit_eq drop_bit_eq_div)
  show "uint (current OR 0x80) = sint v mod 128 + 128" 
  proof -
    have "uint (current OR 0x80) = int (unat (current OR 0x80))" by simp
    also have "\<dots> = uint current + 128" unfolding set_high_bit[OF lt] by simp
    finally show ?thesis unfolding cu .
  qed
  have "w = 0 \<longleftrightarrow> sint v div 128 = 0" "w = - 1 \<longleftrightarrow> sint v div 128 = - 1"
    unfolding sw[symmetric] by (metis signed_eq_0_iff, metis sint_n1 signed_word_eqI)
  moreover have "unat current < 64 \<longleftrightarrow> uint current < 64" using u by linarith
  then have "current AND 0x40 = 0 \<longleftrightarrow> sint v mod 128 < 64" unfolding sign_bit[OF lt] cu .
  ultimately show "signed_done w current \<longleftrightarrow> sint v div 128 = 0 \<and> sint v mod 128 < 64 \<or> sint v div 128 = - 1 \<and> 64 \<le> sint v mod 128"
    unfolding signed_done_def by (simp only: not_less)
qed

lemma signed_read:
  "- (2 ^ n) \<le> sint v \<Longrightarrow> sint v < 2 ^ n \<Longrightarrow> bits = int (Suc n) \<Longrightarrow>
    leb_signed (signed_bytes v bits @ rest) = Some (sint v, rest)"
proof (induction v bits arbitrary: n rule: signed_bytes.induct)
  case (1 v bits)
  let ?c = "ucast (v AND 0x7f) :: 8 word" and ?w = "signed_drop_bit 7 v"
  note s = signed_step[OF refl refl, of v]
  have split: "sint v = 128 * (sint v div 128) + sint v mod 128" "0 \<le> sint v mod 128" "sint v mod 128 < 128" by simp_all
  show ?case
  proof (cases "signed_done ?w ?c")
    case True
    have neg: "sint v = sint v mod 128 - 128" if "sint v div 128 = - 1" using split(1) that by linarith
    have pos: "sint v = sint v mod 128" if "sint v div 128 = 0" using split(1) that by linarith
    from True s(4) consider "sint v div 128 = 0" "sint v mod 128 < 64" | "sint v div 128 = - 1" "64 \<le> sint v mod 128" by blast
    then show ?thesis
    proof cases
      case 1
      then show ?thesis using True s(1) pos[OF 1(1)] by (subst signed_bytes.simps) (simp add: Let_def)
    next
      case 2
      then show ?thesis using True s(1) neg[OF 2(1)] split(3) by (subst signed_bytes.simps) (simp add: Let_def)
    qed
  next
    case False
    have "6 < n"
    proof (rule ccontr)
      assume "\<not> 6 < n"
      then have "(2 :: int) ^ n \<le> 2 ^ 6" by (intro power_increasing) auto
      with "1.prems"(1,2) have "- 64 \<le> sint v" "sint v < 64" by simp_all
      with False s(4) show False by presburger
    qed
    then obtain k where k: "n = k + 7" by (intro that[of "n - 7"]) simp
    have range: "- (2 ^ k) \<le> sint ?w" "sint ?w < 2 ^ k" using "1.prems"(1,2) s(2) k by (simp_all add: power_add)
    have b: "\<not> bits - 7 \<le> 0" "bits - 7 = int (Suc k)" using "1.prems"(3) k by simp_all
    from "1.IH"[OF refl refl False b(1) range b(2)] s(2,3) split False b(1) show ?thesis
      by (subst signed_bytes.simps) (simp add: Let_def, presburger)
  qed
qed


lemma i32_read: "leb_signed (i32_bytes v @ rest) = Some (sint v, rest)"
proof -
  have v: "sint (scast v :: i64) = sint v" by (rule sint_up_scast) (simp add: is_up)
  moreover have "- (2 ^ 31) \<le> sint v" "sint v < 2 ^ 31" using sint_range_size[of v] by (simp_all add: word_size)
  ultimately show ?thesis using signed_read[of 31 "scast v" 32 rest] by (simp add: i32_bytes_def)
qed

lemma i64_read: "leb_signed (i64_bytes v @ rest) = Some (sint v, rest)"
  using signed_read[of 63 v 64 rest] sint64_range[of v] by (simp add: i64_bytes_def)

lemma signed_short: "0 < bits \<Longrightarrow> length (signed_bytes v bits) \<le> nat ((bits + 6) div 7)"
proof (induction v bits rule: signed_bytes.induct)
  case (1 v bits)
  have one: "1 \<le> nat ((bits + 6) div 7)" using "1.prems" by simp
  show ?case
  proof (cases "signed_done (signed_drop_bit 7 v) (ucast (v AND 0x7f)) \<or> bits - 7 \<le> 0")
    case True
    with one show ?thesis by (subst signed_bytes.simps) (auto simp: Let_def)
  next
    case False
    then have "length (signed_bytes (signed_drop_bit 7 v) (bits - 7)) \<le> nat ((bits - 7 + 6) div 7)" using "1.IH"[OF refl refl] by simp
    moreover have "nat ((bits + 6) div 7) = Suc (nat ((bits - 7 + 6) div 7))"
    proof -
      have "(bits + 6) div 7 = (bits - 7 + 6) div 7 + 1" by presburger
      moreover have "0 \<le> (bits - 7 + 6) div 7" using False by (intro pos_imp_zdiv_nonneg_iff[THEN iffD2]) auto
      ultimately show ?thesis by simp
    qed
    ultimately show ?thesis using False by (subst signed_bytes.simps) (simp add: Let_def)
  qed
qed

text \<open>A run of bytes reads as a number its length can hold.\<close>

lemma unsigned_capacity: "leb_unsigned bs = Some (k, []) \<Longrightarrow> k < 128 ^ length bs \<and> 0 < length bs"
proof (induction bs arbitrary: k)
  case (Cons b bs)
  show ?case
  proof (cases "unat b < 128")
    case True
    with Cons.prems show ?thesis by auto
  next
    case False
    with Cons.prems obtain n where n: "leb_unsigned bs = Some (n, [])" "k = unat b - 128 + 128 * n" by auto
    have "unat b < 256" using unsigned_less[where 'a = nat, of b] by simp
    moreover have "Suc n \<le> 128 ^ length bs" using Cons.IH[OF n(1)] by simp
    then have "128 * Suc n \<le> 128 * 128 ^ length bs" by (rule mult_le_mono2)
    ultimately show ?thesis using n(2) False by simp
  qed
qed simp

lemma signed_capacity:
  "leb_signed bs = Some (k, []) \<Longrightarrow>
    \<exists>n. length bs = Suc n \<and> - (64 * 128 ^ n) \<le> k \<and> k < 64 * 128 ^ n"
proof (induction bs arbitrary: k)
  case (Cons b bs)
  have b: "0 \<le> uint b" "uint b < 256" "- 64 \<le> uint b" using uint_lt2p[of b] order_trans[of "- 64" 0 "uint b"] by simp_all
  show ?case
  proof (cases "uint b < 128")
    case True
    with Cons.prems b show ?thesis by (auto split: if_splits)
  next
    case False
    with Cons.prems obtain n where n: "leb_signed bs = Some (n, [])" "k = uint b - 128 + 128 * n" by auto
    from Cons.IH[OF n(1)] obtain m where m: "length bs = Suc m" "- (64 * 128 ^ m) \<le> n" "n < 64 * 128 ^ m" by blast
    have "128 * (- (64 * 128 ^ m)) \<le> 128 * n" "128 * (n + 1) \<le> 128 * (64 * 128 ^ m)"
      using m(2,3) by (intro mult_left_mono; simp)+
    then show ?thesis using m(1) n(2) False b by (intro exI[of _ "Suc m"]) simp
  qed
qed simp

lemma signed_least:
  "- (64 * 128 ^ n) \<le> sint v \<Longrightarrow> sint v < 64 * 128 ^ n \<Longrightarrow> length (signed_bytes v bits) \<le> Suc n"
proof (induction v bits arbitrary: n rule: signed_bytes.induct)
  case (1 v bits)
  let ?c = "ucast (v AND 0x7f) :: 8 word" and ?w = "signed_drop_bit 7 v"
  note s = signed_step[OF refl refl, of v]
  show ?case
  proof (cases "signed_done ?w ?c \<or> bits - 7 \<le> 0")
    case True
    then show ?thesis by (subst signed_bytes.simps) (auto simp: Let_def)
  next
    case False
    have "n \<noteq> 0"
    proof
      assume "n = 0"
      with "1.prems" have "- 64 \<le> sint v" "sint v < 64" by simp_all
      with False s(4) show False by presburger
    qed
    then obtain k where k: "n = Suc k" by (cases n) auto
    have "- (64 * 128 ^ k) \<le> sint ?w" "sint ?w < 64 * 128 ^ k"
      using "1.prems" unfolding s(2) k by simp_all
    from "1.IH"[OF refl refl _ _ this] False k show ?thesis by (subst signed_bytes.simps) (simp add: Let_def)
  qed
qed

text \<open>
  C25: LEB128 numbers are read back as the format defines them, whatever follows: an unsigned
  number of 32 bits in at most five bytes, a signed one of 32 bits in at most five and of 64 bits
  in at most ten. They are the shortest: no run of bytes that reads as the same number is shorter,
  for unsigned and for signed numbers alike.
\<close>
theorem leb_roundtrip:
  "leb_unsigned (u32_bytes n @ rest) = Some (unat n, rest) \<and> length (u32_bytes n) \<le> 5 \<and>
   (last (u32_bytes n) = 0 \<longrightarrow> u32_bytes n = [0]) \<and>
   leb_signed (i32_bytes n @ rest) = Some (sint n, rest) \<and> length (i32_bytes n) \<le> 5 \<and>
   leb_signed (i64_bytes v @ rest) = Some (sint v, rest) \<and> length (i64_bytes v) \<le> 10 \<and>
   (leb_unsigned bs = Some (unat n, []) \<longrightarrow> length (u32_bytes n) \<le> length bs) \<and>
   (leb_signed bs = Some (sint n, []) \<longrightarrow> length (i32_bytes n) \<le> length bs) \<and>
   (leb_signed bs = Some (sint v, []) \<longrightarrow> length (i64_bytes v) \<le> length bs)"
proof -
  have "unat n < 128 ^ 5" using unsigned_less[where 'a = nat, of n] by simp
  then have "length (u32_bytes n) \<le> 5" by (rule u32_short) simp
  moreover have "length (i32_bytes n) \<le> 5" "length (i64_bytes v) \<le> 10"
    using signed_short[of 32 "scast n"] signed_short[of 64 v] by (simp_all add: i32_bytes_def i64_bytes_def)
  moreover have "length (u32_bytes n) \<le> length bs" if "leb_unsigned bs = Some (unat n, [])"
    using unsigned_capacity[OF that] u32_short by blast
  moreover have "length (i32_bytes n) \<le> length bs" if "leb_signed bs = Some (sint n, [])"
    using signed_capacity[OF that] signed_least[of _ "scast n" 32] sint_up_scast[of n, where ?'b = 64]
    by (auto simp: i32_bytes_def is_up)
  moreover have "length (i64_bytes v) \<le> length bs" if "leb_signed bs = Some (sint v, [])"
    using signed_capacity[OF that] signed_least[of _ v 64] by (auto simp: i64_bytes_def)
  ultimately show ?thesis using u32_read u32_canonical i32_read i64_read by blast
qed

theorem leb_roundtrip_witness:
  "u32_bytes 0 = [0] \<and> leb_unsigned (u32_bytes 624485) = Some (624485, []) \<and> length (i64_bytes (- 65)) \<le> 2"
proof -
  have "last (u32_bytes 0) = 0" by code_simp
  moreover have "leb_signed [0xBF, 0x7F] = Some (- 65, [])" by code_simp
  ultimately show ?thesis
    using leb_roundtrip[of 0 "[]" 0] leb_roundtrip[of 624485 "[]" 0] leb_roundtrip[of 0 "[]" "- 65" "[0xBF, 0x7F]"] by simp
qed

end
