(* ===== verification/Opcodes.thy ===== *)
theory Opcodes
  imports Leb
begin

text \<open>
  The opcode tables of internal/wasm/binary_instruction.go. A switch over mnemonics is a
  list of pairs; a switch that misses is None, which the code reports with a false second result.
\<close>

section \<open>The tables\<close>

definition float_comparison_table :: "(string \<times> 8 word) list" where
  "float_comparison_table =
     [(''f32.eq'', 0x5b), (''f32.ne'', 0x5c), (''f32.lt'', 0x5d), (''f32.gt'', 0x5e),
      (''f32.le'', 0x5f), (''f32.ge'', 0x60), (''f64.eq'', 0x61), (''f64.ne'', 0x62),
      (''f64.lt'', 0x63), (''f64.gt'', 0x64), (''f64.le'', 0x65), (''f64.ge'', 0x66)]"

definition float_comparison_opcode :: "string \<Rightarrow> 8 word option" where
  "float_comparison_opcode op = map_of float_comparison_table op"

definition float_arithmetic_table :: "(string \<times> 8 word) list" where
  "float_arithmetic_table =
     [(''f32.neg'', 0x8c), (''f32.add'', 0x92), (''f32.sub'', 0x93), (''f32.mul'', 0x94),
      (''f32.div'', 0x95), (''f64.neg'', 0x9a), (''f64.ceil'', 0x9b), (''f64.floor'', 0x9c),
      (''f64.trunc'', 0x9d), (''f64.sqrt'', 0x9f), (''f64.add'', 0xa0), (''f64.sub'', 0xa1),
      (''f64.mul'', 0xa2), (''f64.div'', 0xa3)]"

definition float_arithmetic_opcode :: "string \<Rightarrow> 8 word option" where
  "float_arithmetic_opcode op = map_of float_arithmetic_table op"

definition float_conversion_table :: "(string \<times> 8 word) list" where
  "float_conversion_table =
     [(''f32.convert_i64_s'', 0xb4), (''f32.convert_i64_u'', 0xb5), (''f32.demote_f64'', 0xb6),
      (''f64.convert_i64_s'', 0xb9), (''f64.convert_i64_u'', 0xba), (''f64.promote_f32'', 0xbb),
      (''i32.reinterpret_f32'', 0xbc), (''i64.reinterpret_f64'', 0xbd),
      (''f32.reinterpret_i32'', 0xbe), (''f64.reinterpret_i64'', 0xbf)]"

definition float_conversion_opcode :: "string \<Rightarrow> 8 word option" where
  "float_conversion_opcode op = map_of float_conversion_table op"

definition basic_table :: "(string \<times> 8 word) list" where
  "basic_table =
     [(''unreachable'', 0x00), (''nop'', 0x01), (''drop'', 0x1a), (''select'', 0x1b)]"

definition basic_instruction_opcode :: "string \<Rightarrow> 8 word option" where
  "basic_instruction_opcode op = map_of basic_table op"

definition i32_comparison_table :: "(string \<times> 8 word) list" where
  "i32_comparison_table =
     [(''i32.eqz'', 0x45), (''i32.eq'', 0x46), (''i32.ne'', 0x47), (''i32.lt_s'', 0x48),
      (''i32.lt_u'', 0x49), (''i32.gt_s'', 0x4a), (''i32.gt_u'', 0x4b), (''i32.le_s'', 0x4c),
      (''i32.le_u'', 0x4d), (''i32.ge_s'', 0x4e), (''i32.ge_u'', 0x4f)]"

definition i32_comparison_opcode :: "string \<Rightarrow> 8 word option" where
  "i32_comparison_opcode op = map_of i32_comparison_table op"

definition i64_comparison_table :: "(string \<times> 8 word) list" where
  "i64_comparison_table =
     [(''i64.eqz'', 0x50), (''i64.eq'', 0x51), (''i64.ne'', 0x52), (''i64.lt_s'', 0x53),
      (''i64.lt_u'', 0x54), (''i64.gt_s'', 0x55), (''i64.gt_u'', 0x56), (''i64.le_s'', 0x57),
      (''i64.le_u'', 0x58), (''i64.ge_s'', 0x59), (''i64.ge_u'', 0x5a)]"

definition i64_comparison_opcode :: "string \<Rightarrow> 8 word option" where
  "i64_comparison_opcode op = map_of i64_comparison_table op"

definition i32_arithmetic_table :: "(string \<times> 8 word) list" where
  "i32_arithmetic_table =
     [(''i32.add'', 0x6a), (''i32.sub'', 0x6b), (''i32.mul'', 0x6c), (''i32.div_s'', 0x6d),
      (''i32.div_u'', 0x6e), (''i32.rem_s'', 0x6f), (''i32.rem_u'', 0x70)]"

definition i32_arithmetic_opcode :: "string \<Rightarrow> 8 word option" where
  "i32_arithmetic_opcode op = map_of i32_arithmetic_table op"

definition i32_bit_table :: "(string \<times> 8 word) list" where
  "i32_bit_table =
     [(''i32.and'', 0x71), (''i32.or'', 0x72), (''i32.xor'', 0x73), (''i32.shl'', 0x74),
      (''i32.shr_s'', 0x75), (''i32.shr_u'', 0x76), (''i32.rotl'', 0x77), (''i32.rotr'', 0x78)]"

definition i32_bit_opcode :: "string \<Rightarrow> 8 word option" where
  "i32_bit_opcode op = map_of i32_bit_table op"

definition i64_arithmetic_table :: "(string \<times> 8 word) list" where
  "i64_arithmetic_table =
     [(''i64.add'', 0x7c), (''i64.sub'', 0x7d), (''i64.mul'', 0x7e), (''i64.div_s'', 0x7f),
      (''i64.div_u'', 0x80), (''i64.rem_s'', 0x81), (''i64.rem_u'', 0x82)]"

definition i64_arithmetic_opcode :: "string \<Rightarrow> 8 word option" where
  "i64_arithmetic_opcode op = map_of i64_arithmetic_table op"

definition i64_bit_table :: "(string \<times> 8 word) list" where
  "i64_bit_table =
     [(''i64.and'', 0x83), (''i64.or'', 0x84), (''i64.xor'', 0x85), (''i64.shl'', 0x86),
      (''i64.shr_s'', 0x87), (''i64.shr_u'', 0x88), (''i64.rotl'', 0x89), (''i64.rotr'', 0x8a),
      (''i64.ctz'', 0x7a)]"

definition i64_bit_opcode :: "string \<Rightarrow> 8 word option" where
  "i64_bit_opcode op = map_of i64_bit_table op"

definition conversion_table :: "(string \<times> 8 word) list" where
  "conversion_table =
     [(''i32.wrap_i64'', 0xa7), (''i64.extend_i32_s'', 0xac), (''i64.extend8_s'', 0xc2),
      (''i64.extend16_s'', 0xc3), (''i64.extend32_s'', 0xc4), (''i64.extend_i32_u'', 0xad)]"

definition conversion_opcode :: "string \<Rightarrow> 8 word option" where
  "conversion_opcode op = map_of conversion_table op"

definition wide_memory_table :: "(string \<times> 8 word \<times> u32) list" where
  "wide_memory_table =
     [(''i32.load'', (0x28, 2)), (''i64.load'', (0x29, 3)), (''i32.load8_u'', (0x2d, 0)),
      (''i64.load8_u'', (0x31, 0)), (''i32.store'', (0x36, 2)), (''i64.store'', (0x37, 3)),
      (''i32.store8'', (0x3a, 0)), (''i64.store8'', (0x3c, 0))]"

definition wide_memory_instruction :: "string \<Rightarrow> (8 word \<times> u32) option" where
  "wide_memory_instruction op = map_of wide_memory_table op"

definition narrow_memory_table :: "(string \<times> 8 word \<times> u32) list" where
  "narrow_memory_table =
     [(''i64.load8_s'', (0x30, 0)), (''i64.load16_s'', (0x32, 1)), (''i64.load16_u'', (0x33, 1)),
      (''i64.load32_s'', (0x34, 2)), (''i64.load32_u'', (0x35, 2)), (''i64.store16'', (0x3d, 1)),
      (''i64.store32'', (0x3e, 2))]"

definition narrow_memory_instruction :: "string \<Rightarrow> (8 word \<times> u32) option" where
  "narrow_memory_instruction op = map_of narrow_memory_table op"

definition float_memory_table :: "(string \<times> 8 word \<times> u32) list" where
  "float_memory_table =
     [(''f32.load'', (0x2a, 2)), (''f64.load'', (0x2b, 3)), (''f32.store'', (0x38, 2)),
      (''f64.store'', (0x39, 3))]"

definition float_memory_instruction :: "string \<Rightarrow> 8 word \<times> u32" where
  "float_memory_instruction op =
     (case map_of float_memory_table op of
        Some x \<Rightarrow> x | None \<Rightarrow> (0, 0))"

definition simd_lane_table :: "(string \<times> u32) list" where
  "simd_lane_table =
     [(''i16x8.extract_lane_s'', 24), (''i16x8.extract_lane_u'', 25), (''i16x8.replace_lane'', 26),
      (''i32x4.extract_lane'', 27), (''i32x4.replace_lane'', 28), (''i64x2.extract_lane'', 29),
      (''i64x2.replace_lane'', 30), (''f32x4.extract_lane'', 31), (''f32x4.replace_lane'', 32),
      (''f64x2.extract_lane'', 33), (''f64x2.replace_lane'', 34)]"

definition simd_lane_opcode :: "string \<Rightarrow> u32 option" where
  "simd_lane_opcode op = map_of simd_lane_table op"

definition simd_table :: "(string \<times> u32) list" where
  "simd_table =
     [(''i16x8.splat'', 16), (''i32x4.splat'', 17), (''i64x2.splat'', 18), (''f32x4.splat'', 19),
      (''f64x2.splat'', 20), (''i16x8.neg'', 129), (''i16x8.add'', 142), (''i16x8.sub'', 145),
      (''i16x8.mul'', 149), (''i32x4.neg'', 161), (''i32x4.add'', 174), (''i32x4.sub'', 177),
      (''i32x4.mul'', 181), (''i64x2.neg'', 193), (''i64x2.add'', 206), (''i64x2.sub'', 209),
      (''i64x2.mul'', 213), (''f32x4.neg'', 225), (''f32x4.add'', 228), (''f32x4.sub'', 229),
      (''f32x4.mul'', 230), (''f32x4.div'', 231), (''f64x2.neg'', 237), (''f64x2.add'', 240),
      (''f64x2.sub'', 241), (''f64x2.mul'', 242), (''f64x2.div'', 243)]"

definition simd_opcode :: "string \<Rightarrow> u32 option" where
  "simd_opcode op = map_of simd_table op"

section \<open>The lookups\<close>

definition or_else :: "'a option \<Rightarrow> 'a option \<Rightarrow> 'a option" where
  "or_else a b = (case a of Some x \<Rightarrow> Some x | None \<Rightarrow> b)"

definition float_opcode :: "string \<Rightarrow> 8 word option" where
  "float_opcode op =
     or_else (float_comparison_opcode op) (or_else (float_arithmetic_opcode op) (float_conversion_opcode op))"

definition i32_numeric_opcode :: "string \<Rightarrow> 8 word option" where
  "i32_numeric_opcode op = or_else (i32_arithmetic_opcode op) (i32_bit_opcode op)"

definition i64_numeric_opcode :: "string \<Rightarrow> 8 word option" where
  "i64_numeric_opcode op = or_else (i64_arithmetic_opcode op) (i64_bit_opcode op)"

definition simple_instruction_opcode :: "string \<Rightarrow> 8 word option" where
  "simple_instruction_opcode op =
     or_else (basic_instruction_opcode op) (or_else (i32_comparison_opcode op) (or_else (i64_comparison_opcode op)
       (or_else (i32_numeric_opcode op) (or_else (i64_numeric_opcode op) (or_else (float_opcode op) (conversion_opcode op))))))"

definition memory_instruction :: "string \<Rightarrow> 8 word \<times> u32" where
  "memory_instruction op =
     (case or_else (wide_memory_instruction op) (narrow_memory_instruction op) of
        Some x \<Rightarrow> x | None \<Rightarrow> float_memory_instruction op)"

datatype instruction_kind = SimpleInstruction | ControlInstruction | ReferenceInstruction | ImmediateInstruction

definition memory_ops :: "string list" where
  "memory_ops = [''i32.load'', ''i64.load'', ''i32.load8_u'', ''i64.load8_u'',
     ''i64.load8_s'', ''i64.load16_s'', ''i64.load16_u'', ''i64.load32_s'', ''i64.load32_u'',
     ''f32.load'', ''f64.load'', ''i32.store'', ''i64.store'', ''i32.store8'', ''i64.store8'',
     ''i64.store16'', ''i64.store32'', ''f32.store'', ''f64.store'']"

definition truncation_ops :: "string list" where
  "truncation_ops = [''i64.trunc_sat_f32_s'', ''i64.trunc_sat_f32_u'', ''i64.trunc_sat_f64_s'', ''i64.trunc_sat_f64_u'']"

definition classify_instruction :: "string \<Rightarrow> instruction_kind" where
  "classify_instruction op =
     (if op \<in> set [''block'', ''loop'', ''if'', ''br'', ''br_if'', ''return'', ''then'', ''else''] then ControlInstruction
      else if op \<in> set [''call'', ''call_indirect'', ''local.get'', ''local.set'', ''local.tee'', ''global.get'', ''global.set'']
      then ReferenceInstruction
      else if op \<in> set [''i32.const'', ''i64.const''] \<or> op \<in> set truncation_ops \<or> op \<in> set memory_ops \<or>
        op \<in> set [''memory.size'', ''memory.grow'', ''memory.copy'', ''memory.fill''] \<or>
        op \<in> set [''v128.load'', ''v128.store''] \<or> simd_lane_opcode op \<noteq> None
      then ImmediateInstruction
      else SimpleInstruction)"

section \<open>No two mnemonics share an opcode\<close>

lemma map_of_same_image:
  assumes "distinct (map snd l)" and "map_of l x = Some v" and "map_of l y = Some v"
  shows "x = y"
proof -
  have "(x, v) \<in> set l" "(y, v) \<in> set l" using assms(2,3) by (auto dest: map_of_SomeD)
  moreover have "inj_on snd (set l)" using assms(1) by (simp add: distinct_map)
  ultimately have "(x, v) = (y, v)" using inj_onD [of snd "set l" "(x, v)" "(y, v)"] by simp
  then show ?thesis by simp
qed

lemma map_of_inj: "distinct (map snd l) \<Longrightarrow> inj_on (map_of l) (dom (map_of l))"
  by (rule inj_onI) (auto intro: map_of_same_image)

lemma or_else_map_of: "or_else (map_of l x) (map_of k x) = map_of (l @ k) x"
  by (simp add: or_else_def map_add_def)

text \<open>The switches that give a plain opcode are one table.\<close>

definition plain_table :: "(string \<times> 8 word) list" where
  "plain_table = basic_table @ i32_comparison_table @ i64_comparison_table @ i32_arithmetic_table @ i32_bit_table @
     i64_arithmetic_table @ i64_bit_table @ float_comparison_table @ float_arithmetic_table @ float_conversion_table @
     conversion_table"

lemmas plain_tables = plain_table_def basic_table_def i32_comparison_table_def i64_comparison_table_def
  i32_arithmetic_table_def i32_bit_table_def i64_arithmetic_table_def i64_bit_table_def
  float_comparison_table_def float_arithmetic_table_def float_conversion_table_def conversion_table_def

lemma simple_is_plain: "simple_instruction_opcode = map_of plain_table"
  by (rule ext) (simp only: simple_instruction_opcode_def i32_numeric_opcode_def i64_numeric_opcode_def float_opcode_def
    basic_instruction_opcode_def i32_comparison_opcode_def i64_comparison_opcode_def i32_arithmetic_opcode_def
    i32_bit_opcode_def i64_arithmetic_opcode_def i64_bit_opcode_def float_comparison_opcode_def
    float_arithmetic_opcode_def float_conversion_opcode_def conversion_opcode_def or_else_map_of plain_table_def append_assoc)

lemma plain_distinct: "distinct (map snd plain_table)"
  by (simp add: plain_tables)

text \<open>The bytes that open, divide or end a structure, or that immediates follow.\<close>

definition index_bytes :: "8 word list" where
  "index_bytes = [0x0c, 0x0d, 0x10, 0x20, 0x21, 0x22, 0x23, 0x24]"

definition access_bytes :: "8 word list" where
  "access_bytes = [0x28, 0x29, 0x2a, 0x2b, 0x2c, 0x2d, 0x2e, 0x2f, 0x30, 0x31, 0x32, 0x33, 0x34, 0x35, 0x36, 0x37, 0x38,
     0x39, 0x3a, 0x3b, 0x3c, 0x3d, 0x3e]"

definition structured_bytes :: "8 word list" where
  "structured_bytes = [0x02, 0x03, 0x04, 0x05, 0x0b, 0x11, 0x3f, 0x40, 0x41, 0x42, 0xfc, 0xfd] @ index_bytes @ access_bytes"

lemma memory_access: "op \<in> set memory_ops \<Longrightarrow> fst (memory_instruction op) \<in> set access_bytes"
proof -
  have "list_all (\<lambda>op. fst (memory_instruction op) \<in> set access_bytes) memory_ops" by code_simp
  then show "op \<in> set memory_ops \<Longrightarrow> fst (memory_instruction op) \<in> set access_bytes" by (simp add: list_all_iff)
qed

lemma plain_not_structured: "simple_instruction_opcode op = Some b \<Longrightarrow> b \<notin> set structured_bytes"
proof -
  assume "simple_instruction_opcode op = Some b"
  then have "b \<in> set (map snd plain_table)" by (auto simp: simple_is_plain dest!: map_of_SomeD intro: rev_image_eqI)
  moreover have "list_all (\<lambda>b. b \<notin> set structured_bytes) (map snd plain_table)"
    by (simp add: plain_tables structured_bytes_def index_bytes_def access_bytes_def)
  ultimately show ?thesis by (auto simp: list_all_iff)
qed

lemma plain_classified:
  "list_all (\<lambda>op. classify_instruction op = SimpleInstruction \<and> Option.is_none (simd_opcode op)) (map fst plain_table)"
  by code_simp

lemma memory_distinct: "distinct (map (fst \<circ> memory_instruction) memory_ops)"
  by code_simp

lemma simd_distinct: "distinct (map snd (simd_table @ simd_lane_table))"
  by (simp add: simd_table_def simd_lane_table_def)

text \<open>
  An opcode names one instruction. Two mnemonics never share a plain opcode, a load or store
  opcode or a vector operation, and a vector operation is never a lane operation. No plain opcode
  opens or ends a block or announces an immediate. A mnemonic of the plain tables is classified
  as a plain instruction and is not taken for a vector operation, so each of its entries is used.
\<close>
theorem opcodes_unambiguous:
  "inj_on simple_instruction_opcode (dom simple_instruction_opcode) \<and>
   ran simple_instruction_opcode \<inter> set structured_bytes = {} \<and>
   inj_on (\<lambda>op. fst (memory_instruction op)) (set memory_ops) \<and>
   inj_on simd_opcode (dom simd_opcode) \<and> inj_on simd_lane_opcode (dom simd_lane_opcode) \<and>
   ran simd_opcode \<inter> ran simd_lane_opcode = {} \<and>
   dom simple_instruction_opcode \<subseteq> {op. classify_instruction op = SimpleInstruction \<and> simd_opcode op = None}"
proof (intro conjI)
  show "inj_on simple_instruction_opcode (dom simple_instruction_opcode)"
    unfolding simple_is_plain by (rule map_of_inj[OF plain_distinct])
  show "ran simple_instruction_opcode \<inter> set structured_bytes = {}"
    using plain_not_structured by (auto simp: ran_def)
  show "inj_on (\<lambda>op. fst (memory_instruction op)) (set memory_ops)"
    using memory_distinct by (simp add: distinct_map comp_def)
  have simd: "simd_opcode = map_of simd_table" and lane: "simd_lane_opcode = map_of simd_lane_table"
    by (rule ext, simp add: simd_opcode_def simd_lane_opcode_def)+
  have d: "distinct (map snd simd_table)" "distinct (map snd simd_lane_table)"
    and apart: "set (map snd simd_table) \<inter> set (map snd simd_lane_table) = {}"
    using simd_distinct by simp_all
  show "inj_on simd_opcode (dom simd_opcode)" unfolding simd by (rule map_of_inj[OF d(1)])
  show "inj_on simd_lane_opcode (dom simd_lane_opcode)" unfolding lane by (rule map_of_inj[OF d(2)])
  have "ran simd_opcode \<subseteq> set (map snd simd_table)" "ran simd_lane_opcode \<subseteq> set (map snd simd_lane_table)"
    unfolding simd lane by (auto simp: ran_def dest!: map_of_SomeD intro: rev_image_eqI)
  with apart show "ran simd_opcode \<inter> ran simd_lane_opcode = {}" by blast
  show "dom simple_instruction_opcode \<subseteq> {op. classify_instruction op = SimpleInstruction \<and> simd_opcode op = None}"
    using plain_classified by (auto simp: simple_is_plain list_all_iff Option.is_none_def dest!: map_of_SomeD)
qed

end
