(* ===== verification/Wasm_Module.thy ===== *)
theory Wasm_Module
  imports Wat Leb
begin

text \<open>
  The module-wide index spaces of the WebAssembly encoder (internal/wasm/binary.go,
  lowerBinaryModule and the functions it calls): types, imported and defined functions,
  globals, exports and segments, and the references resolved against them. The maps of the code
  are partial functions, an error holds the place, the format and the arguments of its message.
  A declaration the code names by its node index is the node itself. Text numbers follow
  package strconv.
\<close>

section \<open>Numbers in the text\<close>

definition parse_uint32 :: "string \<Rightarrow> u32 option" where
  "parse_uint32 s = (case parse_nat s of None \<Rightarrow> None | Some n \<Rightarrow> if n < 2 ^ 32 then Some (word_of_nat n) else None)"

text \<open>Base 0 of strconv: the prefix of the text chooses the base, and underscores may stand between digits.\<close>

definition lower_byte :: "char \<Rightarrow> nat" where
  "lower_byte c = byte c OR 32"

definition digit_of :: "char \<Rightarrow> nat option" where
  "digit_of c =
     (if is_digit c then Some (byte c - 48)
      else if 97 \<le> lower_byte c \<and> lower_byte c \<le> 122 then Some (lower_byte c - 97 + 10)
      else None)"

definition base_prefix :: "string \<Rightarrow> nat \<times> string" where
  "base_prefix s =
     (case s of
        c # r \<Rightarrow>
          if c \<noteq> CHR ''0'' then (10, s)
          else (case r of
             x # y # r' \<Rightarrow>
               if lower_byte x = 98 then (2, y # r')
               else if lower_byte x = 111 then (8, y # r')
               else if lower_byte x = 120 then (16, y # r')
               else (8, r)
           | _ \<Rightarrow> (8, r))
      | [] \<Rightarrow> (10, s))"

fun digits_value :: "nat \<Rightarrow> nat \<Rightarrow> string \<Rightarrow> nat option" where
  "digits_value b n [] = Some n"
| "digits_value b n (c # s) =
     (if c = CHR ''_'' then digits_value b n s
      else (case digit_of c of
         None \<Rightarrow> None
       | Some d \<Rightarrow> if b \<le> d then None else digits_value b (n * b + d) s))"

fun underscores_stand :: "bool \<Rightarrow> char \<Rightarrow> string \<Rightarrow> bool" where
  "underscores_stand hex saw [] \<longleftrightarrow> saw \<noteq> CHR ''_''"
| "underscores_stand hex saw (c # s) \<longleftrightarrow>
     (if is_digit c \<or> hex \<and> 97 \<le> lower_byte c \<and> lower_byte c \<le> 102 then underscores_stand hex (CHR ''0'') s
      else if c = CHR ''_'' then saw = CHR ''0'' \<and> underscores_stand hex (CHR ''_'') s
      else saw \<noteq> CHR ''_'' \<and> underscores_stand hex (CHR ''!'') s)"

definition underscore_ok :: "string \<Rightarrow> bool" where
  "underscore_ok s =
     (let r = (case s of c # r \<Rightarrow> if c = CHR ''-'' \<or> c = CHR ''+'' then r else s | [] \<Rightarrow> s)
      in case r of
           c # x # r' \<Rightarrow>
             if c = CHR ''0'' \<and> lower_byte x \<in> {98, 111, 120} then underscores_stand (lower_byte x = 120) (CHR ''0'') r'
             else underscores_stand False (CHR ''^'') r
         | _ \<Rightarrow> underscores_stand False (CHR ''^'') r)"

definition parse_uint_base0 :: "string \<Rightarrow> nat option" where
  "parse_uint_base0 s =
     (if s = [] then None
      else case base_prefix s of (b, r) \<Rightarrow>
        (case digits_value b 0 r of
           None \<Rightarrow> None
         | Some n \<Rightarrow> if n < 2 ^ 64 \<and> (CHR ''_'' \<in> set r \<longrightarrow> underscore_ok s) then Some n else None))"

definition parse_int_base0 :: "string \<Rightarrow> i64 option" where
  "parse_int_base0 s =
     (case s of
        [] \<Rightarrow> None
      | c # r \<Rightarrow>
          let neg = (c = CHR ''-''); digits = (if neg \<or> c = CHR ''+'' then r else s)
          in (case parse_uint_base0 digits of
                None \<Rightarrow> None
              | Some n \<Rightarrow>
                  if \<not> neg \<and> 2 ^ 63 \<le> n then None
                  else if neg \<and> 2 ^ 63 < n then None
                  else Some (if neg then - word_of_nat n else word_of_nat n)))"

section \<open>The lowered module\<close>

datatype asm_error = AsmAt nat string "string list" | AsmString string_error

record func_type =
  ft_params :: bytes
  ft_results :: bytes

record wasm_import =
  im_module :: string
  im_name :: string
  im_type :: u32

record named_type =
  nt_name :: string
  nt_code :: "8 word"

record wasm_function =
  wf_node :: wat
  wf_name :: string
  wf_type :: u32
  wf_params :: "named_type list"
  wf_locals :: "named_type list"

record wasm_global =
  wg_name :: string
  wg_code :: "8 word"
  wg_mutable :: bool
  wg_init :: wat

record wasm_export =
  we_name :: string
  we_kind :: "8 word"
  we_index :: u32

record wasm_element =
  el_offset :: wat
  el_functions :: "u32 list"

record wasm_data =
  wd_offset :: wat
  wd_bytes :: string

text \<open>A table and a memory are their minimum.\<close>

record wasm_module =
  wm_types :: "func_type list"
  wm_type_names :: "string \<rightharpoonup> u32"
  wm_imports :: "wasm_import list"
  wm_functions :: "wasm_function list"
  wm_function_names :: "string \<rightharpoonup> u32"
  wm_tables :: "u32 list"
  wm_memories :: "u32 list"
  wm_globals :: "wasm_global list"
  wm_global_names :: "string \<rightharpoonup> u32"
  wm_exports :: "wasm_export list"
  wm_elements :: "wasm_element list"
  wm_data :: "wasm_data list"

definition empty_module :: wasm_module where
  "empty_module =
     \<lparr>wm_types = [], wm_type_names = Map.empty, wm_imports = [], wm_functions = [], wm_function_names = Map.empty,
      wm_tables = [], wm_memories = [], wm_globals = [], wm_global_names = Map.empty, wm_exports = [],
      wm_elements = [], wm_data = []\<rparr>"

definition errorf :: "wat \<Rightarrow> string \<Rightarrow> string list \<Rightarrow> asm_error + 'a" where
  "errorf t message args = Inl (AsmAt (wat_start t) message args)"

definition lift_string :: "string_error + 'a \<Rightarrow> asm_error + 'a" where
  "lift_string r = (case r of Inl e \<Rightarrow> Inl (AsmString e) | Inr a \<Rightarrow> Inr a)"

text \<open>A loop over declarations that threads a state and stops at the first error.\<close>

fun fold_res :: "('s \<Rightarrow> 'a \<Rightarrow> 'e + 's) \<Rightarrow> 's \<Rightarrow> 'a list \<Rightarrow> 'e + 's" where
  "fold_res f s [] = Inr s"
| "fold_res f s (x # xs) = bind_res (f s x) (\<lambda>s'. fold_res f s' xs)"

section \<open>References\<close>

definition is_symbol :: "string \<Rightarrow> bool" where
  "is_symbol s \<longleftrightarrow> prefix ''$'' s"

definition unsigned_atom :: "wat \<Rightarrow> asm_error + u32" where
  "unsigned_atom t =
     (if \<not> is_atom t then errorf t ''expected unsigned integer'' []
      else case parse_uint32 (node_text t) of
        None \<Rightarrow> errorf t ''invalid unsigned integer'' []
      | Some v \<Rightarrow> Inr v)"

definition signed_atom :: "wat \<Rightarrow> asm_error + i64" where
  "signed_atom t =
     (if \<not> is_atom t then errorf t ''expected signed integer'' []
      else case parse_int_base0 (node_text t) of
        Some v \<Rightarrow> Inr v
      | None \<Rightarrow>
          (case parse_uint_base0 (node_text t) of
             None \<Rightarrow> errorf t ''invalid signed integer %q'' [node_text t]
           | Some n \<Rightarrow> Inr (word_of_nat n)))"

definition value_type :: "wat \<Rightarrow> asm_error + 8 word" where
  "value_type t =
     (if \<not> is_atom t then errorf t ''expected value type'' []
      else if node_text t = ''i32'' then Inr 0x7f
      else if node_text t = ''i64'' then Inr 0x7e
      else if node_text t = ''f32'' then Inr 0x7d
      else if node_text t = ''f64'' then Inr 0x7c
      else if node_text t = ''v128'' then Inr 0x7b
      else errorf t ''unsupported value type'' [])"

text \<open>The three resolvers differ in the map and the words of the message.\<close>

definition function_index :: "wasm_module \<Rightarrow> wat \<Rightarrow> asm_error + u32" where
  "function_index m t =
     (if \<not> is_atom t then errorf t ''expected function reference'' []
      else if is_symbol (node_text t) then
        (case wm_function_names m (node_text t) of
           None \<Rightarrow> errorf t ''unknown function %s'' [node_text t]
         | Some v \<Rightarrow> Inr v)
      else unsigned_atom t)"

definition global_index :: "wasm_module \<Rightarrow> wat \<Rightarrow> asm_error + u32" where
  "global_index m t =
     (if \<not> is_atom t then errorf t ''expected global reference'' []
      else if is_symbol (node_text t) then
        (case wm_global_names m (node_text t) of
           None \<Rightarrow> errorf t ''unknown global %s'' [node_text t]
         | Some v \<Rightarrow> Inr v)
      else unsigned_atom t)"

definition type_index :: "wasm_module \<Rightarrow> wat \<Rightarrow> asm_error + u32" where
  "type_index m t =
     (if \<not> is_atom t then errorf t ''expected type reference'' []
      else if is_symbol (node_text t) then
        (case wm_type_names m (node_text t) of
           None \<Rightarrow> errorf t ''unknown type %s'' [node_text t]
         | Some v \<Rightarrow> Inr v)
      else unsigned_atom t)"

section \<open>Function types\<close>

definition value_types :: "wat list \<Rightarrow> string \<Rightarrow> asm_error + named_type list" where
  "value_types ts nm = map_res (\<lambda>t. bind_res (value_type t) (\<lambda>c. Inr \<lparr>nt_name = nm, nt_code = c\<rparr>)) ts"

definition parse_named_types :: "bool \<Rightarrow> wat \<Rightarrow> asm_error + named_type list" where
  "parse_named_types allow_name t =
     (case children t of
        _ # a # rest \<Rightarrow>
          if allow_name \<and> is_atom a \<and> is_symbol (node_text a) then
            if length rest \<noteq> 1 then errorf t ''named value must have one type'' []
            else value_types rest (node_text a)
          else value_types (a # rest) []
      | _ \<Rightarrow> errorf t ''empty %s declaration'' [list_head t])"

definition add_type_part ::
  "named_type list \<times> bytes \<times> named_type list \<Rightarrow> wat \<Rightarrow> asm_error + named_type list \<times> bytes \<times> named_type list" where
  "add_type_part acc t =
     (case acc of (params, results, locals) \<Rightarrow>
        if list_head t = ''param'' then bind_res (parse_named_types True t) (\<lambda>l. Inr (params @ l, results, locals))
        else if list_head t = ''result'' then
          bind_res (parse_named_types False t) (\<lambda>l. Inr (params, results @ map nt_code l, locals))
        else if list_head t = ''local'' then bind_res (parse_named_types True t) (\<lambda>l. Inr (params, results, locals @ l))
        else Inr (params, results, locals))"

definition parse_function_type :: "wat \<Rightarrow> asm_error + func_type \<times> named_type list \<times> named_type list" where
  "parse_function_type t =
     (if list_head t \<noteq> ''func'' then errorf t ''expected func'' []
      else bind_res (fold_res add_type_part ([], [], []) (tl (children t))) (\<lambda>(params, results, locals).
        Inr (\<lparr>ft_params = map nt_code params, ft_results = results\<rparr>, params, locals)))"

text \<open>The index of the first signature that is structurally the same, or of a new one.\<close>

fun type_position :: "func_type \<Rightarrow> func_type list \<Rightarrow> nat option" where
  "type_position ft [] = None"
| "type_position ft (x # xs) = (if x = ft then Some 0 else map_option Suc (type_position ft xs))"

definition intern_type :: "func_type \<Rightarrow> func_type list \<Rightarrow> u32 \<times> func_type list" where
  "intern_type ft types =
     (case type_position ft types of
        Some i \<Rightarrow> (word_of_nat i, types)
      | None \<Rightarrow> (word_of_nat (length types), types @ [ft]))"

section \<open>Declarations\<close>

definition add_type_declaration :: "wasm_module \<Rightarrow> wat \<Rightarrow> asm_error + wasm_module" where
  "add_type_declaration m t =
     (case children t of
        [_, n, f] \<Rightarrow>
          if \<not> is_atom n \<or> \<not> is_wlist f \<or> list_head f \<noteq> ''func'' then errorf t ''invalid type declaration'' []
          else if \<not> is_symbol (node_text n) then errorf n ''type name must start with `$`'' []
          else if wm_type_names m (node_text n) \<noteq> None then errorf n ''duplicate type %s'' [node_text n]
          else bind_res (parse_function_type f) (\<lambda>(ft, _, _).
            Inr (m\<lparr>wm_type_names := (wm_type_names m)(node_text n \<mapsto> word_of_nat (length (wm_types m))),
                   wm_types := wm_types m @ [ft]\<rparr>))
      | _ \<Rightarrow> errorf t ''invalid type declaration'' [])"

definition add_import :: "wasm_module \<Rightarrow> wat \<Rightarrow> asm_error + wasm_module" where
  "add_import m t =
     (case children t of
        [_, a, b, f] \<Rightarrow>
          if \<not> is_wstring a \<or> \<not> is_wstring b \<or> list_head f \<noteq> ''func'' then errorf t ''invalid function import'' []
          else
            bind_res (lift_string (string_bytes a)) (\<lambda>module_name.
            bind_res (lift_string (string_bytes b)) (\<lambda>field_name.
            bind_res (parse_function_type f) (\<lambda>(ft, params, _).
              (case children f of
                 _ # n # _ \<Rightarrow>
                   if \<not> is_atom n then errorf f ''imported function needs a name'' []
                   else if \<not> is_symbol (node_text n) then errorf n ''function name must start with `$`'' []
                   else if length params \<noteq> length (ft_params ft) then
                     errorf f ''invalid imported function parameters'' []
                   else if wm_function_names m (node_text n) \<noteq> None then
                     errorf n ''duplicate function %s'' [node_text n]
                   else
                     (case intern_type ft (wm_types m) of (w, types) \<Rightarrow>
                        Inr (m\<lparr>wm_types := types,
                          wm_function_names := (wm_function_names m)(node_text n \<mapsto> word_of_nat (length (wm_imports m))),
                          wm_imports := wm_imports m @ [\<lparr>im_module = module_name, im_name = field_name, im_type = w\<rparr>]\<rparr>))
               | _ \<Rightarrow> errorf f ''imported function needs a name'' []))))
      | _ \<Rightarrow> errorf t ''invalid function import'' [])"

definition add_function :: "wasm_module \<Rightarrow> wat \<Rightarrow> asm_error + wasm_module" where
  "add_function m t =
     (case children t of
        _ # n # _ \<Rightarrow>
          if \<not> is_atom n then errorf t ''defined function needs a name'' []
          else if \<not> is_symbol (node_text n) then errorf n ''function name must start with `$`'' []
          else if wm_function_names m (node_text n) \<noteq> None then errorf n ''duplicate function %s'' [node_text n]
          else bind_res (parse_function_type t) (\<lambda>(ft, params, locals).
            (case intern_type ft (wm_types m) of (w, types) \<Rightarrow>
               Inr (m\<lparr>wm_types := types,
                 wm_function_names :=
                   (wm_function_names m)(node_text n \<mapsto> word_of_nat (length (wm_imports m) + length (wm_functions m))),
                 wm_functions := wm_functions m @
                   [\<lparr>wf_node = t, wf_name = node_text n, wf_type = w, wf_params = params, wf_locals = locals\<rparr>]\<rparr>)))
      | _ \<Rightarrow> errorf t ''defined function needs a name'' [])"

definition inline_export_name :: "wat \<Rightarrow> asm_error + string" where
  "inline_export_name t =
     (case children t of
        [_, s] \<Rightarrow> if is_wstring s then lift_string (string_bytes s) else errorf t ''invalid inline export'' []
      | _ \<Rightarrow> errorf t ''invalid inline export'' [])"

definition export_field :: "u32 \<Rightarrow> wasm_module \<Rightarrow> wat \<Rightarrow> asm_error + wasm_module" where
  "export_field v m t =
     (if list_head t \<noteq> ''export'' then Inr m
      else bind_res (inline_export_name t) (\<lambda>s.
        Inr (m\<lparr>wm_exports := wm_exports m @ [\<lparr>we_name = s, we_kind = 0x00, we_index = v\<rparr>]\<rparr>)))"

definition add_function_exports :: "wasm_module \<Rightarrow> wat \<Rightarrow> asm_error + wasm_module" where
  "add_function_exports m t =
     (case children t of
        _ # n # rest \<Rightarrow> bind_res (function_index m n) (\<lambda>v. fold_res (export_field v) m rest)
      | _ \<Rightarrow> errorf t ''defined function needs a name'' [])"

definition add_table :: "wasm_module \<Rightarrow> wat \<Rightarrow> asm_error + wasm_module" where
  "add_table m t =
     (case children t of
        [_, n, r] \<Rightarrow>
          if node_text r \<noteq> ''funcref'' then errorf t ''invalid table declaration'' []
          else bind_res (unsigned_atom n) (\<lambda>v. Inr (m\<lparr>wm_tables := wm_tables m @ [v]\<rparr>))
      | _ \<Rightarrow> errorf t ''invalid table declaration'' [])"

text \<open>The module and the minimum, once one was read.\<close>

definition memory_field :: "wasm_module \<times> u32 option \<Rightarrow> wat \<Rightarrow> asm_error + wasm_module \<times> u32 option" where
  "memory_field acc t =
     (case acc of (m, minimum) \<Rightarrow>
        if list_head t = ''export'' then
          bind_res (inline_export_name t) (\<lambda>s.
            Inr (m\<lparr>wm_exports := wm_exports m @
              [\<lparr>we_name = s, we_kind = 0x02, we_index = word_of_nat (length (wm_memories m))\<rparr>]\<rparr>, minimum))
        else if \<not> is_atom t \<or> minimum \<noteq> None then errorf t ''invalid memory declaration'' []
        else bind_res (unsigned_atom t) (\<lambda>v. Inr (m, Some v)))"

definition add_memory :: "wasm_module \<Rightarrow> wat \<Rightarrow> asm_error + wasm_module" where
  "add_memory m t =
     bind_res (fold_res memory_field (m, None) (tl (children t))) (\<lambda>(m, minimum).
       (case minimum of
          None \<Rightarrow> errorf t ''memory needs a minimum'' []
        | Some v \<Rightarrow> Inr (m\<lparr>wm_memories := wm_memories m @ [v]\<rparr>)))"

definition add_global :: "wasm_module \<Rightarrow> wat \<Rightarrow> asm_error + wasm_module" where
  "add_global m t =
     (case children t of
        [_, n, ty, e] \<Rightarrow>
          if \<not> is_atom n \<or> \<not> is_wlist e then errorf t ''invalid global declaration'' []
          else if \<not> is_symbol (node_text n) then errorf n ''global name must start with `$`'' []
          else if wm_global_names m (node_text n) \<noteq> None then errorf n ''duplicate global %s'' [node_text n]
          else
            let mutable = (is_wlist ty \<and> list_head ty = ''mut'')
            in if mutable \<and> length (children ty) \<noteq> 2 then errorf ty ''invalid mutable global type'' []
               else bind_res (value_type (if mutable then children ty ! 1 else ty)) (\<lambda>c.
                 Inr (m\<lparr>wm_global_names := (wm_global_names m)(node_text n \<mapsto> word_of_nat (length (wm_globals m))),
                   wm_globals := wm_globals m @
                     [\<lparr>wg_name = node_text n, wg_code = c, wg_mutable = mutable, wg_init = e\<rparr>]\<rparr>))
      | _ \<Rightarrow> errorf t ''invalid global declaration'' [])"

definition export_target :: "wasm_module \<Rightarrow> wat \<Rightarrow> string \<Rightarrow> wat \<Rightarrow> asm_error + 8 word \<times> u32" where
  "export_target m t kind r =
     (if kind = ''func'' then bind_res (function_index m r) (\<lambda>v. Inr (0x00, v))
      else if kind = ''table'' then bind_res (unsigned_atom r) (\<lambda>v. Inr (0x01, v))
      else if kind = ''memory'' then bind_res (unsigned_atom r) (\<lambda>v. Inr (0x02, v))
      else if kind = ''global'' then bind_res (global_index m r) (\<lambda>v. Inr (0x03, v))
      else errorf t ''unsupported export kind'' [])"

definition add_export :: "wasm_module \<Rightarrow> wat \<Rightarrow> asm_error + wasm_module" where
  "add_export m t =
     (case children t of
        [_, s, ref] \<Rightarrow>
          if \<not> is_wstring s \<or> \<not> is_wlist ref then errorf t ''invalid export declaration'' []
          else bind_res (lift_string (string_bytes s)) (\<lambda>nm.
            (case children ref of
               [k, r] \<Rightarrow>
                 if \<not> is_atom r then errorf ref ''invalid export reference'' []
                 else bind_res (export_target m ref (node_text k) r) (\<lambda>(kind, v).
                   Inr (m\<lparr>wm_exports := wm_exports m @ [\<lparr>we_name = nm, we_kind = kind, we_index = v\<rparr>]\<rparr>))
             | _ \<Rightarrow> errorf ref ''invalid export reference'' []))
      | _ \<Rightarrow> errorf t ''invalid export declaration'' [])"

definition add_element :: "wasm_module \<Rightarrow> wat \<Rightarrow> asm_error + wasm_module" where
  "add_element m t =
     (case children t of
        _ # offset # rest \<Rightarrow>
          if \<not> is_wlist offset then errorf t ''invalid element segment'' []
          else bind_res (map_res (function_index m) rest) (\<lambda>fs.
            Inr (m\<lparr>wm_elements := wm_elements m @ [\<lparr>el_offset = offset, el_functions = fs\<rparr>]\<rparr>))
      | _ \<Rightarrow> errorf t ''invalid element segment'' [])"

definition data_part :: "wat \<Rightarrow> asm_error + string" where
  "data_part t = (if is_wstring t then lift_string (string_bytes t) else errorf t ''data segment expects byte strings'' [])"

definition add_data :: "wasm_module \<Rightarrow> wat \<Rightarrow> asm_error + wasm_module" where
  "add_data m t =
     (case children t of
        _ # offset # s # rest \<Rightarrow>
          if \<not> is_wlist offset then errorf t ''invalid data segment'' []
          else bind_res (map_res data_part (s # rest)) (\<lambda>parts.
            Inr (m\<lparr>wm_data := wm_data m @ [\<lparr>wd_offset = offset, wd_bytes = concat parts\<rparr>]\<rparr>))
      | _ \<Rightarrow> errorf t ''invalid data segment'' [])"

definition add_declaration :: "wasm_module \<Rightarrow> wat \<Rightarrow> asm_error + wasm_module" where
  "add_declaration m t =
     (let head = list_head t
      in if head = ''type'' \<or> head = ''import'' then Inr m
         else if head = ''func'' then add_function_exports m t
         else if head = ''table'' then add_table m t
         else if head = ''memory'' then add_memory m t
         else if head = ''global'' then add_global m t
         else if head = ''export'' then add_export m t
         else if head = ''elem'' then add_element m t
         else if head = ''data'' then add_data m t
         else errorf t ''unsupported module declaration'' [])"

text \<open>The four passes over the declarations, in the order the index spaces need.\<close>

definition add_all :: "(wasm_module \<Rightarrow> wat \<Rightarrow> asm_error + wasm_module) \<Rightarrow> string \<Rightarrow> wasm_module \<Rightarrow> wat list \<Rightarrow> asm_error + wasm_module" where
  "add_all add head m ts = fold_res (\<lambda>m t. if list_head t = head then add m t else Inr m) m ts"

definition lower_module :: "wat \<Rightarrow> asm_error + wasm_module" where
  "lower_module root =
     (let ts = tl (children root)
      in bind_res (add_all add_type_declaration ''type'' empty_module ts) (\<lambda>m.
         bind_res (add_all add_import ''import'' m ts) (\<lambda>m.
         bind_res (add_all add_function ''func'' m ts) (\<lambda>m.
         fold_res add_declaration m ts))))"

end
