(* ===== verification/Wasm_Code.thy ===== *)
theory Wasm_Code
  imports Wasm_Module Opcodes
begin

text \<open>
  The instruction encoder (internal/wasm/binary_instruction.go) over folded instructions. Every
  method is a definition; those that encode operands take the encoder \<open>enc\<close> for them as an
  argument, and \<open>encode\<close> ties the knot: it goes from a node to its children. The code appends to
  a slice, a definition gives what is appended. The labels of the open blocks are in the record
  of the encoder, the innermost last.
\<close>

section \<open>The encoder\<close>

record encoder =
  en_module :: wasm_module
  en_locals :: "string \<rightharpoonup> u32"
  en_count :: u32
  en_labels :: "string list"

type_synonym encoding = "encoder \<Rightarrow> wat \<Rightarrow> asm_error + bytes"

definition encode_sequence :: "encoding \<Rightarrow> encoder \<Rightarrow> wat list \<Rightarrow> asm_error + bytes" where
  "encode_sequence enc e ts = bind_res (map_res (enc e) ts) (\<lambda>l. Inr (concat l))"

definition encode_with_opcode :: "encoding \<Rightarrow> encoder \<Rightarrow> wat list \<Rightarrow> 8 word \<Rightarrow> asm_error + bytes" where
  "encode_with_opcode enc e ts opcode = bind_res (encode_sequence enc e ts) (\<lambda>bs. Inr (bs @ [opcode]))"

definition encode_with_simd :: "encoding \<Rightarrow> encoder \<Rightarrow> wat list \<Rightarrow> u32 \<Rightarrow> asm_error + bytes" where
  "encode_with_simd enc e ts sub = bind_res (encode_sequence enc e ts) (\<lambda>bs. Inr (bs @ 0xfd # u32_bytes sub))"

subsection \<open>References\<close>

definition local_index :: "encoder \<Rightarrow> wat \<Rightarrow> asm_error + u32" where
  "local_index e t =
     (if \<not> is_atom t then errorf t ''expected local reference'' []
      else if is_symbol (node_text t) then
        (case en_locals e (node_text t) of
           None \<Rightarrow> errorf t ''unknown local %s'' [node_text t]
         | Some v \<Rightarrow> Inr v)
      else unsigned_atom t)"

fun label_place :: "string \<Rightarrow> string list \<Rightarrow> nat option" where
  "label_place s [] = None"
| "label_place s (x # xs) = (if x = s then Some 0 else map_option Suc (label_place s xs))"

definition label_depth :: "encoder \<Rightarrow> wat \<Rightarrow> asm_error + u32" where
  "label_depth e t =
     (if \<not> is_atom t then errorf t ''expected branch label'' []
      else if \<not> is_symbol (node_text t) then unsigned_atom t
      else (case label_place (node_text t) (rev (en_labels e)) of
          None \<Rightarrow> errorf t ''unknown branch label %s'' [node_text t]
        | Some n \<Rightarrow> Inr (word_of_nat n)))"

subsection \<open>Control\<close>

definition block_label :: "wat list \<Rightarrow> string \<times> wat list" where
  "block_label ts =
     (case ts of
        t # rest \<Rightarrow> if is_atom t \<and> is_symbol (node_text t) then (node_text t, rest) else ([], ts)
      | [] \<Rightarrow> ([], []))"

definition block_type :: "wat list \<Rightarrow> asm_error + 8 word \<times> wat list" where
  "block_type ts =
     (case ts of
        [] \<Rightarrow> Inr (0x40, [])
      | t # rest \<Rightarrow>
          if list_head t \<noteq> ''result'' then Inr (0x40, ts)
          else (case children t of
             [_, ty] \<Rightarrow> bind_res (value_type ty) (\<lambda>b. Inr (b, rest))
           | _ \<Rightarrow> errorf t ''invalid block result'' []))"

abbreviation inside :: "string \<Rightarrow> encoder \<Rightarrow> encoder" where
  "inside label e \<equiv> e\<lparr>en_labels := en_labels e @ [label]\<rparr>"

definition encode_block :: "encoding \<Rightarrow> encoder \<Rightarrow> wat \<Rightarrow> 8 word \<Rightarrow> asm_error + bytes" where
  "encode_block enc e t opcode =
     (case block_label (tl (children t)) of (label, ts) \<Rightarrow>
        bind_res (block_type ts) (\<lambda>(ty, body).
        bind_res (encode_sequence enc (inside label e) body) (\<lambda>bs.
        Inr (opcode # ty # bs @ [0x0b]))))"

definition encode_else :: "encoding \<Rightarrow> encoder \<Rightarrow> wat \<Rightarrow> wat list \<Rightarrow> asm_error + bytes" where
  "encode_else enc e t ts =
     (case ts of
        [] \<Rightarrow> Inr []
      | [el] \<Rightarrow>
          if list_head el \<noteq> ''else'' then errorf el ''invalid else instruction'' []
          else bind_res (enc e el) (\<lambda>bs. Inr (0x05 # bs))
      | _ \<Rightarrow> errorf t ''invalid if instruction'' [])"

definition encode_if :: "encoding \<Rightarrow> encoder \<Rightarrow> wat \<Rightarrow> asm_error + bytes" where
  "encode_if enc e t =
     (case block_type (tl (children t)) of
        Inr (ty, c # th # rest) \<Rightarrow>
          if list_head th \<noteq> ''then'' then errorf t ''invalid if instruction'' []
          else
            bind_res (enc e c) (\<lambda>cond.
            bind_res (enc (inside [] e) th) (\<lambda>yes.
            bind_res (encode_else enc (inside [] e) t rest) (\<lambda>no.
            Inr (cond @ 0x04 # ty # yes @ no @ [0x0b]))))
      | _ \<Rightarrow> errorf t ''invalid if instruction'' [])"

definition encode_branch :: "encoding \<Rightarrow> encoder \<Rightarrow> wat \<Rightarrow> bool \<Rightarrow> asm_error + bytes" where
  "encode_branch enc e t conditional =
     (if length (children t) \<noteq> (if conditional then 3 else 2) then errorf t ''invalid branch instruction'' []
      else
        bind_res (if conditional then enc e (children t ! 2) else Inr []) (\<lambda>bs.
        bind_res (label_depth e (children t ! 1)) (\<lambda>depth.
        Inr (bs @ (if conditional then 0x0d else 0x0c) # u32_bytes depth))))"

definition encode_control :: "encoding \<Rightarrow> encoder \<Rightarrow> wat \<Rightarrow> string \<Rightarrow> asm_error + bytes" where
  "encode_control enc e t op =
     (if op = ''block'' then encode_block enc e t 0x02
      else if op = ''loop'' then encode_block enc e t 0x03
      else if op = ''if'' then encode_if enc e t
      else if op = ''br'' \<or> op = ''br_if'' then encode_branch enc e t (op = ''br_if'')
      else if op = ''return'' then encode_with_opcode enc e (tl (children t)) 0x0f
      else encode_sequence enc e (tl (children t)))"

subsection \<open>Calls and variables\<close>

definition encode_call :: "encoding \<Rightarrow> encoder \<Rightarrow> wat \<Rightarrow> asm_error + bytes" where
  "encode_call enc e t =
     (if length (children t) < 2 then errorf t ''call needs a function'' []
      else
        bind_res (encode_sequence enc e (drop 2 (children t))) (\<lambda>bs.
        bind_res (function_index (en_module e) (children t ! 1)) (\<lambda>v.
        Inr (bs @ 0x10 # u32_bytes v))))"

definition encode_call_indirect :: "encoding \<Rightarrow> encoder \<Rightarrow> wat \<Rightarrow> asm_error + bytes" where
  "encode_call_indirect enc e t =
     (if length (children t) < 3 \<or> list_head (children t ! 1) \<noteq> ''type'' then
        errorf t ''call_indirect needs a type and table index'' []
      else if length (children (children t ! 1)) \<noteq> 2 then
        errorf (children t ! 1) ''invalid call_indirect type'' []
      else
        bind_res (encode_sequence enc e (drop 2 (children t))) (\<lambda>bs.
        bind_res (type_index (en_module e) (children (children t ! 1) ! 1)) (\<lambda>v.
        Inr (bs @ 0x11 # u32_bytes v @ u32_bytes 0))))"

definition local_opcode :: "string \<Rightarrow> 8 word" where
  "local_opcode op = (if op = ''local.get'' then 0x20 else if op = ''local.set'' then 0x21 else 0x22)"

definition encode_local :: "encoding \<Rightarrow> encoder \<Rightarrow> wat \<Rightarrow> string \<Rightarrow> asm_error + bytes" where
  "encode_local enc e t op =
     (if length (children t) \<noteq> (if op \<noteq> ''local.get'' then 3 else 2) then errorf t ''invalid %s instruction'' [op]
      else
        bind_res (if op \<noteq> ''local.get'' then enc e (children t ! 2) else Inr []) (\<lambda>bs.
        bind_res (local_index e (children t ! 1)) (\<lambda>v.
        Inr (bs @ local_opcode op # u32_bytes v))))"

definition encode_global :: "encoding \<Rightarrow> encoder \<Rightarrow> wat \<Rightarrow> string \<Rightarrow> asm_error + bytes" where
  "encode_global enc e t op =
     (if length (children t) \<noteq> (if op = ''global.set'' then 3 else 2) then errorf t ''invalid %s instruction'' [op]
      else
        bind_res (if op = ''global.set'' then enc e (children t ! 2) else Inr []) (\<lambda>bs.
        bind_res (global_index (en_module e) (children t ! 1)) (\<lambda>v.
        Inr (bs @ (if op = ''global.get'' then 0x23 else 0x24) # u32_bytes v))))"

definition encode_reference :: "encoding \<Rightarrow> encoder \<Rightarrow> wat \<Rightarrow> string \<Rightarrow> asm_error + bytes" where
  "encode_reference enc e t op =
     (if op = ''call'' then encode_call enc e t
      else if op = ''call_indirect'' then encode_call_indirect enc e t
      else if op = ''local.get'' \<or> op = ''local.set'' \<or> op = ''local.tee'' then encode_local enc e t op
      else encode_global enc e t op)"

subsection \<open>Immediates\<close>

definition encode_constant :: "wat \<Rightarrow> string \<Rightarrow> asm_error + bytes" where
  "encode_constant t op =
     (if length (children t) \<noteq> 2 then errorf t ''invalid %s instruction'' [op]
      else
        bind_res (signed_atom (children t ! 1)) (\<lambda>v.
        if op = ''i32.const'' then Inr (0x41 # i32_bytes (ucast v)) else Inr (0x42 # i64_bytes v)))"

fun log_steps :: "nat \<Rightarrow> nat" where
  "log_steps n = (if 1 < n then Suc (log_steps (n div 2)) else 0)"

declare log_steps.simps [simp del]

definition memory_part :: "u32 \<times> u32 \<times> wat list \<Rightarrow> wat \<Rightarrow> asm_error + u32 \<times> u32 \<times> wat list" where
  "memory_part acc t =
     (case acc of (offset, alignment, operands) \<Rightarrow>
        if is_atom t \<and> prefix ''offset='' (node_text t) then
          (case parse_uint32 (drop 7 (node_text t)) of
             None \<Rightarrow> errorf t ''invalid memory offset'' []
           | Some v \<Rightarrow> Inr (v, alignment, operands))
        else if is_atom t \<and> prefix ''align='' (node_text t) then
          (case parse_uint32 (drop 6 (node_text t)) of
             None \<Rightarrow> errorf t ''invalid memory alignment'' []
           | Some v \<Rightarrow>
               if v = 0 \<or> v AND (v - 1) \<noteq> 0 then errorf t ''invalid memory alignment'' []
               else Inr (offset, word_of_nat (log_steps (unat v)), operands))
        else Inr (offset, alignment, operands @ [t]))"

definition memory_parts :: "string \<Rightarrow> wat \<Rightarrow> asm_error + u32 \<times> u32 \<times> wat list" where
  "memory_parts op t = fold_res memory_part (0, snd (memory_instruction op), []) (tl (children t))"

definition encode_memory :: "encoding \<Rightarrow> encoder \<Rightarrow> wat \<Rightarrow> string \<Rightarrow> asm_error + bytes" where
  "encode_memory enc e t op =
     bind_res (memory_parts op t) (\<lambda>(offset, alignment, operands).
     bind_res (encode_sequence enc e operands) (\<lambda>bs.
     Inr (bs @ fst (memory_instruction op) # u32_bytes alignment @ u32_bytes offset)))"

definition encode_vector_memory :: "encoding \<Rightarrow> encoder \<Rightarrow> wat \<Rightarrow> string \<Rightarrow> asm_error + bytes" where
  "encode_vector_memory enc e t op =
     bind_res (encode_sequence enc e (tl (children t))) (\<lambda>bs.
     Inr (bs @ 0xfd # u32_bytes (if op = ''v128.store'' then 11 else 0) @ u32_bytes 4 @ u32_bytes 0))"

definition encode_simd_lane :: "encoding \<Rightarrow> encoder \<Rightarrow> wat \<Rightarrow> u32 \<Rightarrow> asm_error + bytes" where
  "encode_simd_lane enc e t sub =
     (if length (children t) < 3 then errorf t ''lane instruction expects a lane and operands'' []
      else
        bind_res (unsigned_atom (children t ! 1)) (\<lambda>lane.
        bind_res (encode_sequence enc e (drop 2 (children t))) (\<lambda>bs.
        Inr (bs @ 0xfd # u32_bytes sub @ [ucast lane]))))"

definition encode_memory_size :: "encoding \<Rightarrow> encoder \<Rightarrow> wat \<Rightarrow> string \<Rightarrow> asm_error + bytes" where
  "encode_memory_size enc e t op =
     (if op = ''memory.size'' then
        if length (children t) \<noteq> 1 then errorf t ''invalid memory.size instruction'' [] else Inr [0x3f, 0x00]
      else if length (children t) \<noteq> 2 then errorf t ''invalid memory.grow instruction'' []
      else bind_res (enc e (children t ! 1)) (\<lambda>bs. Inr (bs @ [0x40, 0x00])))"

definition truncation_number :: "string \<Rightarrow> u32" where
  "truncation_number op =
     (if op = ''i64.trunc_sat_f32_s'' then 4 else if op = ''i64.trunc_sat_f32_u'' then 5
      else if op = ''i64.trunc_sat_f64_s'' then 6 else 7)"

definition encode_saturating_truncation :: "encoding \<Rightarrow> encoder \<Rightarrow> wat \<Rightarrow> string \<Rightarrow> asm_error + bytes" where
  "encode_saturating_truncation enc e t op =
     (if length (children t) \<noteq> 2 then errorf t ''invalid %s instruction'' [op]
      else bind_res (encode_sequence enc e (tl (children t))) (\<lambda>bs. Inr (bs @ 0xfc # u32_bytes (truncation_number op))))"

definition encode_bulk_memory :: "encoding \<Rightarrow> encoder \<Rightarrow> wat \<Rightarrow> string \<Rightarrow> asm_error + bytes" where
  "encode_bulk_memory enc e t op =
     (if length (children t) \<noteq> 4 then errorf t ''invalid %s instruction'' [op]
      else
        bind_res (encode_sequence enc e (tl (children t))) (\<lambda>bs.
        Inr (bs @ 0xfc # (if op = ''memory.copy'' then u32_bytes 10 @ [0x00, 0x00] else u32_bytes 11 @ [0x00]))))"

definition encode_immediate_operation :: "encoding \<Rightarrow> encoder \<Rightarrow> wat \<Rightarrow> string \<Rightarrow> asm_error + bytes" where
  "encode_immediate_operation enc e t op =
     (if op = ''i32.const'' \<or> op = ''i64.const'' then encode_constant t op
      else if op \<in> set memory_ops then encode_memory enc e t op
      else if op = ''v128.load'' \<or> op = ''v128.store'' then encode_vector_memory enc e t op
      else (case simd_lane_opcode op of
          Some sub \<Rightarrow> encode_simd_lane enc e t sub
        | None \<Rightarrow>
            if op = ''memory.size'' \<or> op = ''memory.grow'' then encode_memory_size enc e t op
            else if op \<in> set truncation_ops then encode_saturating_truncation enc e t op
            else encode_bulk_memory enc e t op))"

subsection \<open>One instruction\<close>

definition encode_step :: "encoding \<Rightarrow> encoder \<Rightarrow> wat \<Rightarrow> asm_error + bytes" where
  "encode_step enc e t =
     (if \<not> is_wlist t then errorf t ''instruction must be a list'' []
      else (case children t of
          [] \<Rightarrow> errorf t ''instruction cannot be empty'' []
        | h # args \<Rightarrow>
            (let op = node_text h
             in case classify_instruction op of
                  ControlInstruction \<Rightarrow> encode_control enc e t op
                | ReferenceInstruction \<Rightarrow> encode_reference enc e t op
                | ImmediateInstruction \<Rightarrow> encode_immediate_operation enc e t op
                | SimpleInstruction \<Rightarrow>
                    (case simd_opcode op of
                       Some sub \<Rightarrow> encode_with_simd enc e args sub
                     | None \<Rightarrow>
                         (case simple_instruction_opcode op of
                            None \<Rightarrow> errorf t ''unsupported instruction %s'' [op]
                          | Some opcode \<Rightarrow> encode_with_opcode enc e args opcode)))))"

text \<open>What a step does is settled by how it encodes the children of its node.\<close>

lemma encode_sequence_cong:
  "(\<And>x. x \<in> set ts \<Longrightarrow> enc e x = enc' e x) \<Longrightarrow> encode_sequence enc e ts = encode_sequence enc' e ts"
  unfolding encode_sequence_def by (metis map_res_cong)

lemma block_label_rest: "block_label ts = (l, rest) \<Longrightarrow> set rest \<subseteq> set ts"
  by (auto simp: block_label_def split: list.splits if_splits)

lemma block_type_rest: "block_type ts = Inr (ty, rest) \<Longrightarrow> set rest \<subseteq> set ts"
  by (auto simp: block_type_def errorf_def bind_res_eq_Inr split: list.splits if_splits)

lemma memory_part_rest:
  "memory_part (off, al, ops) t = Inr (off', al', ops') \<Longrightarrow> set ops' \<subseteq> insert t (set ops)"
  by (auto simp: memory_part_def errorf_def split: if_splits option.splits)

lemma fold_res_invariant:
  "fold_res f s xs = Inr s' \<Longrightarrow> P s \<Longrightarrow> (\<And>s x s'. x \<in> set xs \<Longrightarrow> f s x = Inr s' \<Longrightarrow> P s \<Longrightarrow> P s') \<Longrightarrow> P s'"
  by (induction xs arbitrary: s) (auto simp: bind_res_eq_Inr)

lemma memory_parts_rest:
  assumes "memory_parts op t = Inr (off, al, ops)"
  shows "set ops \<subseteq> set (tl (children t))"
proof -
  have "(case (off, al, ops) of (_, _, o') \<Rightarrow> set o' \<subseteq> set (tl (children t)))"
    by (rule fold_res_invariant[OF assms[unfolded memory_parts_def]]) (auto dest!: memory_part_rest)
  then show ?thesis by simp
qed

lemma encode_step_cong [fundef_cong]:
  assumes "t = t'" and same: "\<And>e x. x \<in> set (children t') \<Longrightarrow> enc e x = enc' e x"
  shows "encode_step enc e t = encode_step enc' e t'"
proof -
  have seq: "encode_sequence enc e ts = encode_sequence enc' e ts" if "set ts \<subseteq> set (children t')" for e ts
    using that same by (intro encode_sequence_cong) auto
  have tl: "set (tl (children t')) \<subseteq> set (children t')" by (cases "children t'") auto
  have drop: "set (drop n (children t')) \<subseteq> set (children t')" for n by (rule set_drop_subset)
  have nth: "enc e (children t' ! n) = enc' e (children t' ! n)" if "n < length (children t')" for e n
    using that by (intro same) simp
  have block: "encode_block enc e t' opcode = encode_block enc' e t' opcode" for e opcode
    unfolding encode_block_def
    by (auto intro!: bind_res_cong seq split: prod.split dest!: block_type_rest block_label_rest subsetD[OF tl])
  have else: "encode_else enc e t' ts = encode_else enc' e t' ts" if "set ts \<subseteq> set (children t')" for e ts
    using that unfolding encode_else_def by (auto split: list.split simp: same)
  have cond: "encode_if enc e t' = encode_if enc' e t'" for e
    unfolding encode_if_def
    by (auto intro!: bind_res_cong else same split: sum.split prod.split list.split dest!: block_type_rest subsetD[OF tl])
  have branch: "encode_branch enc e t' c = encode_branch enc' e t' c"
    "encode_local enc e t' op = encode_local enc' e t' op" "encode_global enc e t' op = encode_global enc' e t' op"
    "encode_memory_size enc e t' op = encode_memory_size enc' e t' op" for e c op
    by (auto simp: encode_branch_def encode_local_def encode_global_def encode_memory_size_def nth)
  have plain: "encode_call enc e t' = encode_call enc' e t'" "encode_call_indirect enc e t' = encode_call_indirect enc' e t'"
    "encode_with_opcode enc e (tl (children t')) b = encode_with_opcode enc' e (tl (children t')) b"
    "encode_with_simd enc e (tl (children t')) sub = encode_with_simd enc' e (tl (children t')) sub"
    "encode_vector_memory enc e t' op = encode_vector_memory enc' e t' op"
    "encode_simd_lane enc e t' sub = encode_simd_lane enc' e t' sub"
    "encode_saturating_truncation enc e t' op = encode_saturating_truncation enc' e t' op"
    "encode_bulk_memory enc e t' op = encode_bulk_memory enc' e t' op" for e b sub op
    by (simp_all add: encode_call_def encode_call_indirect_def encode_with_opcode_def encode_with_simd_def
      encode_vector_memory_def encode_simd_lane_def encode_saturating_truncation_def encode_bulk_memory_def seq tl drop)
  have memory: "encode_memory enc e t' op = encode_memory enc' e t' op" for e op
    unfolding encode_memory_def by (auto intro!: bind_res_cong seq dest!: memory_parts_rest subsetD[OF tl])
  have control: "encode_control enc e t' op = encode_control enc' e t' op" for e op
    by (simp add: encode_control_def block cond branch plain seq tl)
  have reference: "encode_reference enc e t' op = encode_reference enc' e t' op" for e op
    by (simp add: encode_reference_def plain branch)
  have immediate: "encode_immediate_operation enc e t' op = encode_immediate_operation enc' e t' op" for e op
    by (simp add: encode_immediate_operation_def plain branch memory split: option.split)
  show ?thesis
  proof (cases "children t'")
    case (Cons h args)
    then have "args = tl (children t')" by simp
    note p = plain[folded this]
    show ?thesis unfolding assms(1) encode_step_def
      by (simp add: Cons Let_def control reference immediate p split: instruction_kind.split option.split)
  qed (simp add: assms(1) encode_step_def)
qed

lemma child_smaller: "x \<in> set (children t) \<Longrightarrow> size x < size t"
  by (cases t) (auto simp: children_def dest: size_list_estimation'[OF _ order_refl, where f = size])

function encode :: "encoder \<Rightarrow> wat \<Rightarrow> asm_error + bytes" where
  "encode e t = encode_step encode e t"
  by pat_completeness auto
termination
  by (relation "measure (\<lambda>(e, t). size t)") (auto simp: child_smaller)

declare encode.simps [simp del]

end
