(* ===== verification/Wasm_Format.thy ===== *)
theory Wasm_Format
  imports Opcodes
begin

text \<open>
  The WebAssembly binary format, as far as the encoder uses it, from the reader's side: an
  instruction with its immediates, a sequence of instructions up to the byte that ends it, a
  vector, a function body, the sections of a module. Nothing here looks at the encoder; the
  instructions are trees, so a sequence that reads has every block closed.
\<close>

section \<open>Instructions\<close>

datatype inst =
    Plain "8 word"
  | Indexed "8 word" u32
  | Indirect u32 u32
  | Const32 u32
  | Const64 i64
  | Access "8 word" u32 u32
  | Sized "8 word"
  | Prefixed u32
  | MemoryCopy
  | MemoryFill
  | Vector u32
  | VectorAccess u32 u32 u32
  | Lane u32 "8 word"
  | Block "8 word" "8 word" "inst list"
  | Cond "8 word" "inst list" "inst list option"

definition read_u32 :: "bytes \<Rightarrow> (u32 \<times> bytes) option" where
  "read_u32 bs = map_option (\<lambda>(n, r). (word_of_nat n, r)) (leb_unsigned bs)"

definition read_two :: "(u32 \<Rightarrow> u32 \<Rightarrow> inst) \<Rightarrow> bytes \<Rightarrow> (inst \<times> bytes) option" where
  "read_two f bs =
     Option.bind (read_u32 bs) (\<lambda>(a, r). Option.bind (read_u32 r) (\<lambda>(b, r'). Some (f a b, r')))"

definition read_zeros :: "nat \<Rightarrow> inst \<Rightarrow> bytes \<Rightarrow> (inst \<times> bytes) option" where
  "read_zeros n i bs = (if take n bs = replicate n 0 then Some (i, drop n bs) else None)"

definition read_prefixed :: "bytes \<Rightarrow> (inst \<times> bytes) option" where
  "read_prefixed bs =
     Option.bind (read_u32 bs) (\<lambda>(sub, r).
       if sub \<le> 7 then Some (Prefixed sub, r)
       else if sub = 10 then read_zeros 2 MemoryCopy r
       else if sub = 11 then read_zeros 1 MemoryFill r
       else None)"

definition read_vector :: "bytes \<Rightarrow> (inst \<times> bytes) option" where
  "read_vector bs =
     Option.bind (read_u32 bs) (\<lambda>(sub, r).
       if sub \<le> 11 then read_two (VectorAccess sub) r
       else if 21 \<le> sub \<and> sub \<le> 34 then (case r of [] \<Rightarrow> None | b # r' \<Rightarrow> Some (Lane sub b, r'))
       else Some (Vector sub, r))"

definition read_plain :: "8 word \<Rightarrow> bytes \<Rightarrow> (inst \<times> bytes) option" where
  "read_plain b bs =
     (if b \<in> set index_bytes then map_option (\<lambda>(v, r). (Indexed b v, r)) (read_u32 bs)
      else if b \<in> set access_bytes then read_two (Access b) bs
      else if b = 0x11 then read_two Indirect bs
      else if b = 0x41 then map_option (\<lambda>(v, r). (Const32 (word_of_int v), r)) (leb_signed bs)
      else if b = 0x42 then map_option (\<lambda>(v, r). (Const64 (word_of_int v), r)) (leb_signed bs)
      else if b = 0x3f \<or> b = 0x40 then read_zeros 1 (Sized b) bs
      else if b = 0xfc then read_prefixed bs
      else if b = 0xfd then read_vector bs
      else if b \<in> set structured_bytes then None
      else Some (Plain b, bs))"

text \<open>
  A sequence, the byte that ended it (the end of a block or \<^verbatim>\<open>else\<close>), and the rest. One unit of
  fuel for each byte is enough.
\<close>

fun read_body :: "nat \<Rightarrow> bytes \<Rightarrow> (inst list \<times> 8 word \<times> bytes) option"
and read_inst :: "nat \<Rightarrow> 8 word \<Rightarrow> bytes \<Rightarrow> (inst \<times> bytes) option" where
  "read_body 0 bs = None"
| "read_body (Suc f) bs =
     (case bs of
        [] \<Rightarrow> None
      | b # r \<Rightarrow>
          if b = 0x0b \<or> b = 0x05 then Some ([], b, r)
          else Option.bind (read_inst f b r) (\<lambda>(i, r').
            Option.bind (read_body f r') (\<lambda>(is, e, r''). Some (i # is, e, r''))))"
| "read_inst 0 b bs = None"
| "read_inst (Suc f) b bs =
     (if b = 0x02 \<or> b = 0x03 then
        (case bs of
           [] \<Rightarrow> None
         | ty # r \<Rightarrow> Option.bind (read_body f r) (\<lambda>(is, e, r').
             if e = 0x0b then Some (Block b ty is, r') else None))
      else if b = 0x04 then
        (case bs of
           [] \<Rightarrow> None
         | ty # r \<Rightarrow> Option.bind (read_body f r) (\<lambda>(is, e, r').
             if e = 0x0b then Some (Cond ty is None, r')
             else Option.bind (read_body f r') (\<lambda>(js, e', r'').
               if e' = 0x0b then Some (Cond ty is (Some js), r'') else None)))
      else read_plain b bs)"

section \<open>The names of the standard\<close>

text \<open>
  The instructions by their bytes, as the tables of the WebAssembly standard list them, those the
  encoder never writes included where they stand between others. They were written down from the
  standard, not from the encoder.
\<close>

definition integer_comparisons :: "string list" where
  "integer_comparisons =
     [''eqz'', ''eq'', ''ne'', ''lt_s'', ''lt_u'', ''gt_s'', ''gt_u'', ''le_s'', ''le_u'', ''ge_s'', ''ge_u'']"

definition float_comparisons :: "string list" where
  "float_comparisons = [''eq'', ''ne'', ''lt'', ''gt'', ''le'', ''ge'']"

definition integer_operations :: "string list" where
  "integer_operations =
     [''clz'', ''ctz'', ''popcnt'', ''add'', ''sub'', ''mul'', ''div_s'', ''div_u'', ''rem_s'', ''rem_u'', ''and'', ''or'', ''xor'',
      ''shl'', ''shr_s'', ''shr_u'', ''rotl'', ''rotr'']"

definition float_operations :: "string list" where
  "float_operations =
     [''abs'', ''neg'', ''ceil'', ''floor'', ''trunc'', ''nearest'', ''sqrt'', ''add'', ''sub'', ''mul'', ''div'', ''min'', ''max'',
      ''copysign'']"

definition conversions :: "string list" where
  "conversions =
     [''i32.wrap_i64'', ''i32.trunc_f32_s'', ''i32.trunc_f32_u'', ''i32.trunc_f64_s'', ''i32.trunc_f64_u'',
      ''i64.extend_i32_s'', ''i64.extend_i32_u'', ''i64.trunc_f32_s'', ''i64.trunc_f32_u'', ''i64.trunc_f64_s'',
      ''i64.trunc_f64_u'', ''f32.convert_i32_s'', ''f32.convert_i32_u'', ''f32.convert_i64_s'', ''f32.convert_i64_u'',
      ''f32.demote_f64'', ''f64.convert_i32_s'', ''f64.convert_i32_u'', ''f64.convert_i64_s'', ''f64.convert_i64_u'',
      ''f64.promote_f32'', ''i32.reinterpret_f32'', ''i64.reinterpret_f64'', ''f32.reinterpret_i32'',
      ''f64.reinterpret_i64'', ''i32.extend8_s'', ''i32.extend16_s'', ''i64.extend8_s'', ''i64.extend16_s'',
      ''i64.extend32_s'']"

text \<open>The plain instructions in runs: the first byte, what their names begin with, the names.\<close>

definition name_runs :: "(int \<times> string \<times> string list) list" where
  "name_runs =
     [(0x00, [], [''unreachable'', ''nop'']), (0x0f, [], [''return'']), (0x1a, [], [''drop'', ''select'']),
      (0x45, ''i32.'', integer_comparisons), (0x50, ''i64.'', integer_comparisons), (0x5b, ''f32.'', float_comparisons),
      (0x61, ''f64.'', float_comparisons), (0x67, ''i32.'', integer_operations), (0x79, ''i64.'', integer_operations),
      (0x8b, ''f32.'', float_operations), (0x99, ''f64.'', float_operations), (0xa7, [], conversions)]"

fun name_at :: "(int \<times> string \<times> string list) list \<Rightarrow> int \<Rightarrow> string option" where
  "name_at [] k = None"
| "name_at ((start, begin_with, names) # runs) k =
     (if start \<le> k \<and> k < start + int (length names) then Some (begin_with @ names ! nat (k - start)) else name_at runs k)"

definition indexed_names :: "(8 word \<times> string) list" where
  "indexed_names =
     [(0x0c, ''br''), (0x0d, ''br_if''), (0x10, ''call''), (0x20, ''local.get''), (0x21, ''local.set''),
      (0x22, ''local.tee''), (0x23, ''global.get''), (0x24, ''global.set'')]"

text \<open>A load or store with the binary logarithm of the bytes it touches, its natural alignment.\<close>

definition access_names :: "(8 word \<times> string \<times> u32) list" where
  "access_names =
     [(0x28, ''i32.load'', 2), (0x29, ''i64.load'', 3), (0x2a, ''f32.load'', 2), (0x2b, ''f64.load'', 3),
      (0x2c, ''i32.load8_s'', 0), (0x2d, ''i32.load8_u'', 0), (0x2e, ''i32.load16_s'', 1),
      (0x2f, ''i32.load16_u'', 1), (0x30, ''i64.load8_s'', 0), (0x31, ''i64.load8_u'', 0),
      (0x32, ''i64.load16_s'', 1), (0x33, ''i64.load16_u'', 1), (0x34, ''i64.load32_s'', 2),
      (0x35, ''i64.load32_u'', 2), (0x36, ''i32.store'', 2), (0x37, ''i64.store'', 3),
      (0x38, ''f32.store'', 2), (0x39, ''f64.store'', 3), (0x3a, ''i32.store8'', 0),
      (0x3b, ''i32.store16'', 1), (0x3c, ''i64.store8'', 0), (0x3d, ''i64.store16'', 1),
      (0x3e, ''i64.store32'', 2)]"

definition prefixed_names :: "(u32 \<times> string) list" where
  "prefixed_names =
     [(0, ''i32.trunc_sat_f32_s''), (1, ''i32.trunc_sat_f32_u''), (2, ''i32.trunc_sat_f64_s''),
      (3, ''i32.trunc_sat_f64_u''), (4, ''i64.trunc_sat_f32_s''), (5, ''i64.trunc_sat_f32_u''),
      (6, ''i64.trunc_sat_f64_s''), (7, ''i64.trunc_sat_f64_u'')]"

definition vector_names :: "(u32 \<times> string) list" where
  "vector_names =
     [(15, ''i8x16.splat''), (16, ''i16x8.splat''), (17, ''i32x4.splat''), (18, ''i64x2.splat''),
      (19, ''f32x4.splat''), (20, ''f64x2.splat''), (128, ''i16x8.abs''), (129, ''i16x8.neg''),
      (142, ''i16x8.add''), (145, ''i16x8.sub''), (149, ''i16x8.mul''), (160, ''i32x4.abs''),
      (161, ''i32x4.neg''), (174, ''i32x4.add''), (177, ''i32x4.sub''), (181, ''i32x4.mul''),
      (192, ''i64x2.abs''), (193, ''i64x2.neg''), (206, ''i64x2.add''), (209, ''i64x2.sub''),
      (213, ''i64x2.mul''), (224, ''f32x4.abs''), (225, ''f32x4.neg''), (227, ''f32x4.sqrt''),
      (228, ''f32x4.add''), (229, ''f32x4.sub''), (230, ''f32x4.mul''), (231, ''f32x4.div''),
      (236, ''f64x2.abs''), (237, ''f64x2.neg''), (239, ''f64x2.sqrt''), (240, ''f64x2.add''),
      (241, ''f64x2.sub''), (242, ''f64x2.mul''), (243, ''f64x2.div'')]"

definition lane_names :: "(u32 \<times> string) list" where
  "lane_names =
     [(21, ''i8x16.extract_lane_s''), (22, ''i8x16.extract_lane_u''), (23, ''i8x16.replace_lane''),
      (24, ''i16x8.extract_lane_s''), (25, ''i16x8.extract_lane_u''), (26, ''i16x8.replace_lane''),
      (27, ''i32x4.extract_lane''), (28, ''i32x4.replace_lane''), (29, ''i64x2.extract_lane''),
      (30, ''i64x2.replace_lane''), (31, ''f32x4.extract_lane''), (32, ''f32x4.replace_lane''),
      (33, ''f64x2.extract_lane''), (34, ''f64x2.replace_lane'')]"

definition value_names :: "(8 word \<times> string) list" where
  "value_names = [(0x7f, ''i32''), (0x7e, ''i64''), (0x7d, ''f32''), (0x7c, ''f64''), (0x7b, ''v128'')]"

fun mnemonic :: "inst \<Rightarrow> string option" where
  "mnemonic (Plain b) = name_at name_runs (uint b)"
| "mnemonic (Indexed b v) = map_of indexed_names b"
| "mnemonic (Indirect ty tb) = Some ''call_indirect''"
| "mnemonic (Const32 v) = Some ''i32.const''"
| "mnemonic (Const64 v) = Some ''i64.const''"
| "mnemonic (Access b al off) = map_option fst (map_of access_names b)"
| "mnemonic (Sized b) = (if b = 0x3f then Some ''memory.size'' else if b = 0x40 then Some ''memory.grow'' else None)"
| "mnemonic (Prefixed sub) = map_of prefixed_names sub"
| "mnemonic MemoryCopy = Some ''memory.copy''"
| "mnemonic MemoryFill = Some ''memory.fill''"
| "mnemonic (Vector sub) = map_of vector_names sub"
| "mnemonic (VectorAccess sub al off) = (if sub = 0 then Some ''v128.load'' else if sub = 11 then Some ''v128.store'' else None)"
| "mnemonic (Lane sub lane) = map_of lane_names sub"
| "mnemonic (Block b ty is) = (if b = 0x02 then Some ''block'' else if b = 0x03 then Some ''loop'' else None)"
| "mnemonic (Cond ty is js) = Some ''if''"

section \<open>What an instruction is written as\<close>

fun put :: "inst \<Rightarrow> bytes" where
  "put (Plain b) = [b]"
| "put (Indexed b v) = b # u32_bytes v"
| "put (Indirect ty tb) = 0x11 # u32_bytes ty @ u32_bytes tb"
| "put (Const32 v) = 0x41 # i32_bytes v"
| "put (Const64 v) = 0x42 # i64_bytes v"
| "put (Access b al off) = b # u32_bytes al @ u32_bytes off"
| "put (Sized b) = [b, 0x00]"
| "put (Prefixed sub) = 0xfc # u32_bytes sub"
| "put MemoryCopy = 0xfc # u32_bytes 10 @ [0x00, 0x00]"
| "put MemoryFill = 0xfc # u32_bytes 11 @ [0x00]"
| "put (Vector sub) = 0xfd # u32_bytes sub"
| "put (VectorAccess sub al off) = 0xfd # u32_bytes sub @ u32_bytes al @ u32_bytes off"
| "put (Lane sub lane) = 0xfd # u32_bytes sub @ [lane]"
| "put (Block b ty is) = b # ty # concat (map put is) @ [0x0b]"
| "put (Cond ty is None) = 0x04 # ty # concat (map put is) @ [0x0b]"
| "put (Cond ty is (Some js)) = 0x04 # ty # concat (map put is) @ 0x05 # concat (map put js) @ [0x0b]"

abbreviation puts :: "inst list \<Rightarrow> bytes" where
  "puts is \<equiv> concat (map put is)"

text \<open>The opcode of a tree belongs to its kind.\<close>

fun proper :: "inst \<Rightarrow> bool" where
  "proper (Plain b) \<longleftrightarrow> b \<notin> set structured_bytes"
| "proper (Indexed b v) \<longleftrightarrow> b \<in> set index_bytes"
| "proper (Access b al off) \<longleftrightarrow> b \<in> set access_bytes"
| "proper (Sized b) \<longleftrightarrow> b = 0x3f \<or> b = 0x40"
| "proper (Prefixed sub) \<longleftrightarrow> sub \<le> 7"
| "proper (Vector sub) \<longleftrightarrow> \<not> sub \<le> 11 \<and> \<not> (21 \<le> sub \<and> sub \<le> 34)"
| "proper (VectorAccess sub al off) \<longleftrightarrow> sub \<le> 11"
| "proper (Lane sub lane) \<longleftrightarrow> 21 \<le> sub \<and> sub \<le> 34"
| "proper (Block b ty is) \<longleftrightarrow> (b = 0x02 \<or> b = 0x03) \<and> list_all proper is"
| "proper (Cond ty is None) \<longleftrightarrow> list_all proper is"
| "proper (Cond ty is (Some js)) \<longleftrightarrow> list_all proper is \<and> list_all proper js"
| "proper _ \<longleftrightarrow> True"

section \<open>Written instructions are read back\<close>

lemma read_u32_bytes [simp]: "read_u32 (u32_bytes v @ r) = Some (v, r)"
  by (simp add: read_u32_def u32_read)

lemma read_two_bytes [simp]: "read_two f (u32_bytes a @ u32_bytes b @ r) = Some (f a b, r)"
  by (simp add: read_two_def)

lemma read_zeros_here [simp]: "read_zeros 1 i (0 # r) = Some (i, r)" "read_zeros (Suc 0) i (0 # r) = Some (i, r)"
  "read_zeros 2 i (0 # 0 # r) = Some (i, r)"
  by (simp_all add: read_zeros_def numeral_2_eq_2)

lemma structured_classes:
  "set index_bytes \<inter> set access_bytes = {}" "set index_bytes \<subseteq> set structured_bytes" "set access_bytes \<subseteq> set structured_bytes"
  "{0x02, 0x03, 0x04, 0x05, 0x0b, 0x11, 0x3f, 0x40, 0x41, 0x42, 0xfc, 0xfd} \<inter> (set index_bytes \<union> set access_bytes) = {}"
  "{0x02, 0x03, 0x04, 0x05, 0x0b, 0x11, 0x3f, 0x40, 0x41, 0x42, 0xfc, 0xfd} \<subseteq> set structured_bytes"
  by (simp_all add: index_bytes_def access_bytes_def structured_bytes_def)

fun nested :: "inst \<Rightarrow> bool" where
  "nested (Block _ _ _) = True"
| "nested (Cond _ _ _) = True"
| "nested _ = False"

lemma special_bytes:
  "b \<in> {0x11, 0x41, 0x42, 0x3f, 0x40, 0xfc, 0xfd} \<Longrightarrow> b \<notin> set index_bytes \<and> b \<notin> set access_bytes"
  using structured_classes(4) by blast

definition reads_as :: "inst \<Rightarrow> bool" where
  "reads_as i \<longleftrightarrow> (\<exists>b bs. put i = b # bs \<and> b \<notin> {0x02, 0x03, 0x04, 0x05, 0x0b} \<and> (\<forall>r. read_plain b (bs @ r) = Some (i, r)))"

lemma reads_asI:
  "put i = b # bs \<Longrightarrow> b \<notin> {0x02, 0x03, 0x04, 0x05, 0x0b} \<Longrightarrow> (\<And>r. read_plain b (bs @ r) = Some (i, r)) \<Longrightarrow> reads_as i"
  unfolding reads_as_def by blast

lemma read_plain_put: "proper i \<Longrightarrow> \<not> nested i \<Longrightarrow> reads_as i"
proof (cases i)
  case (Plain b)
  assume "proper i"
  with Plain have b: "b \<notin> set structured_bytes" by simp
  with structured_classes(2,3,5) show ?thesis
    by (intro reads_asI[of _ b "[]"]) (auto simp: Plain read_plain_def)
next
  case (Indexed b v)
  assume "proper i"
  with Indexed structured_classes(4) show ?thesis
    by (intro reads_asI[of _ b "u32_bytes v"]) (auto simp: read_plain_def)
next
  case (Access b al off)
  assume "proper i"
  with Access structured_classes(1,4) show ?thesis
    by (intro reads_asI[of _ b "u32_bytes al @ u32_bytes off"]) (auto simp: read_plain_def)
next
  case (Indirect ty tb)
  show ?thesis by (rule reads_asI[of _ "0x11" "u32_bytes ty @ u32_bytes tb"]) (simp_all add: Indirect read_plain_def special_bytes)
next
  case (Const32 v)
  show ?thesis by (rule reads_asI[of _ "0x41" "i32_bytes v"]) (simp_all add: Const32 read_plain_def special_bytes i32_read)
next
  case (Const64 v)
  show ?thesis by (rule reads_asI[of _ "0x42" "i64_bytes v"]) (simp_all add: Const64 read_plain_def special_bytes i64_read)
next
  case (Sized b)
  assume "proper i"
  with Sized show ?thesis by (intro reads_asI[of _ b "[0]"]) (auto simp: read_plain_def special_bytes read_zeros_def)
next
  case (Prefixed sub)
  assume "proper i"
  with Prefixed show ?thesis
    by (intro reads_asI[of _ "0xfc" "u32_bytes sub"]) (auto simp: read_plain_def special_bytes read_prefixed_def)
next
  case MemoryCopy
  show ?thesis by (rule reads_asI[of _ "0xfc" "u32_bytes 10 @ [0, 0]"]) (simp_all add: MemoryCopy read_plain_def special_bytes read_prefixed_def)
next
  case MemoryFill
  show ?thesis by (rule reads_asI[of _ "0xfc" "u32_bytes 11 @ [0]"]) (simp_all add: MemoryFill read_plain_def special_bytes read_prefixed_def)
next
  case (Vector sub)
  assume "proper i"
  with Vector show ?thesis
    by (intro reads_asI[of _ "0xfd" "u32_bytes sub"]) (auto simp: read_plain_def special_bytes read_vector_def)
next
  case (VectorAccess sub al off)
  assume "proper i"
  with VectorAccess show ?thesis
    by (intro reads_asI[of _ "0xfd" "u32_bytes sub @ u32_bytes al @ u32_bytes off"])
      (auto simp: read_plain_def special_bytes read_vector_def)
next
  case (Lane sub lane)
  assume "proper i"
  then have "\<not> sub \<le> 11" "21 \<le> sub" "sub \<le> 34" using Lane by (auto dest: order_trans)
  with Lane show ?thesis
    by (intro reads_asI[of _ "0xfd" "u32_bytes sub @ [lane]"]) (auto simp: read_plain_def special_bytes read_vector_def)
qed simp_all

lemma put_not_Nil: "put i \<noteq> []"
  by (cases i rule: put.cases) simp_all

text \<open>A sequence reads with one unit of fuel for each of its bytes and of the byte that ends it.\<close>

lemma puts_read:
  "list_all proper is \<Longrightarrow> e = 0x0b \<or> e = 0x05 \<Longrightarrow> length (puts is) < f \<Longrightarrow>
    read_body f (puts is @ e # rest) = Some (is, e, rest)"
  "proper i \<Longrightarrow> put i = b # bs \<Longrightarrow> length bs < f \<Longrightarrow> read_inst f b (bs @ rest) = Some (i, rest)"
proof (induction f arbitrary: "is" e rest i b bs)
  case (Suc f)
  {
    case 1
    show ?case
    proof (cases "is")
      case Nil
      with 1 show ?thesis by simp
    next
      case (Cons i is')
      obtain b bs where put: "put i = b # bs" using put_not_Nil by (cases "put i") auto
      have stop: "b \<noteq> 0x0b \<and> b \<noteq> 0x05"
      proof (cases "nested i")
        case True
        then show ?thesis using put 1 Cons by (cases i rule: put.cases) auto
      next
        case False
        with read_plain_put[of i] 1 Cons put show ?thesis by (auto simp: reads_as_def)
      qed
      have "read_inst f b (bs @ puts is' @ e # rest) = Some (i, puts is' @ e # rest)"
        by (rule Suc.IH(2)[OF _ put]) (use 1 Cons put in auto)
      moreover have "read_body f (puts is' @ e # rest) = Some (is', e, rest)"
        by (rule Suc.IH(1)) (use 1 Cons put in auto)
      ultimately show ?thesis using Cons put stop by simp
    qed
  next
    case 2
    show ?case
    proof (cases "nested i")
      case False
      with read_plain_put[of i] 2 show ?thesis by (auto simp: reads_as_def)
    next
      case True
      then show ?thesis using 2 by (cases i rule: put.cases) (auto simp: Suc.IH(1))
    qed
  }
qed simp_all

end
