(* ===== verification/Wasm_Assemble.thy ===== *)
theory Wasm_Assemble
  imports Wasm_Code Wasm_Format
begin

text \<open>
  What the instruction encoder writes, told without bytes: a folded instruction stands for its
  operands, in order, and then its operator; a block for the instructions in it. The relation
  \<open>unfolds\<close> is that reading of the text, and the theorem says the reader of the binary format
  finds exactly it in the bytes of \<open>encode\<close>.
\<close>

section \<open>Folded instructions\<close>

definition op_name :: "wat \<Rightarrow> string" where
  "op_name t = (case children t of [] \<Rightarrow> [] | h # _ \<Rightarrow> node_text h)"

definition result_of :: "'e + 'a \<Rightarrow> 'a option" where
  "result_of r = (case r of Inl _ \<Rightarrow> None | Inr a \<Rightarrow> Some a)"

lemma result_of_simps [simp]: "result_of (Inr a) = Some a" "result_of (Inl e) = None"
  by (simp_all add: result_of_def)

definition attribute :: "wat \<Rightarrow> bool" where
  "attribute t \<longleftrightarrow> is_atom t \<and> (prefix ''offset='' (node_text t) \<or> prefix ''align='' (node_text t))"

section \<open>What an instruction says\<close>

text \<open>A reference: a name of the space or an index. A branch: the innermost open block of that name, or a depth.\<close>

definition refers :: "(string \<rightharpoonup> u32) \<Rightarrow> wat \<Rightarrow> u32 \<Rightarrow> bool" where
  "refers names a v \<longleftrightarrow>
     is_atom a \<and> (if is_symbol (node_text a) then names (node_text a) else parse_uint32 (node_text a)) = Some v"

definition branches_to :: "string list \<Rightarrow> wat \<Rightarrow> u32 \<Rightarrow> bool" where
  "branches_to labels a v \<longleftrightarrow>
     is_atom a \<and>
     (if is_symbol (node_text a) then
        \<exists>n < length labels. rev labels ! n = node_text a \<and> node_text a \<notin> set (take n (rev labels)) \<and> v = word_of_nat n
      else parse_uint32 (node_text a) = Some v)"

text \<open>The last attribute of a key among the operands, or the value it has when it is not written.\<close>

definition stated :: "string \<Rightarrow> wat list \<Rightarrow> u32 \<Rightarrow> u32 \<Rightarrow> bool" where
  "stated key ts usual v \<longleftrightarrow>
     (let cs = filter (\<lambda>c. is_atom c \<and> prefix key (node_text c)) ts
      in if cs = [] then v = usual else parse_uint32 (drop (length key) (node_text (last cs))) = Some v)"

fun immediates_of :: "encoder \<Rightarrow> wat \<Rightarrow> inst \<Rightarrow> bool" where
  "immediates_of e t (Indexed b v) \<longleftrightarrow>
     (let a = children t ! 1; m = en_module e
      in if b = 0x0c \<or> b = 0x0d then branches_to (en_labels e) a v
         else if b = 0x10 then refers (wm_function_names m) a v
         else if b = 0x23 \<or> b = 0x24 then refers (wm_global_names m) a v
         else refers (en_locals e) a v)"
| "immediates_of e t (Indirect ty tb) \<longleftrightarrow> tb = 0 \<and> refers (wm_type_names (en_module e)) (children (children t ! 1) ! 1) ty"
| "immediates_of e t (Const32 v) \<longleftrightarrow> (\<exists>w. signed_atom (children t ! 1) = Inr w \<and> v = ucast w)"
| "immediates_of e t (Const64 v) \<longleftrightarrow> signed_atom (children t ! 1) = Inr v"
| "immediates_of e t (Access b al off) \<longleftrightarrow>
     stated ''offset='' (tl (children t)) 0 off \<and>
     (\<exists>w. stated ''align='' (tl (children t)) (2 ^ unat (snd (the (map_of access_names b)))) w \<and> unat w = 2 ^ unat al)"
| "immediates_of e t (VectorAccess sub al off) \<longleftrightarrow> al = 4 \<and> off = 0"
| "immediates_of e t (Lane sub lane) \<longleftrightarrow> (\<exists>v. parse_uint32 (node_text (children t ! 1)) = Some v \<and> lane = ucast v)"
| "immediates_of e t i \<longleftrightarrow> True"

text \<open>The instruction bears the name of the node and says what its immediates say.\<close>

definition denotes :: "encoder \<Rightarrow> wat \<Rightarrow> inst \<Rightarrow> bool" where
  "denotes e t i \<longleftrightarrow> mnemonic i = Some (op_name t) \<and> immediates_of e t i"

fun operand_nodes :: "inst \<Rightarrow> wat \<Rightarrow> wat list" where
  "operand_nodes (Indexed _ _) t = drop 2 (children t)"
| "operand_nodes (Indirect _ _) t = drop 2 (children t)"
| "operand_nodes (Lane _ _) t = drop 2 (children t)"
| "operand_nodes (Const32 _) t = []"
| "operand_nodes (Const64 _) t = []"
| "operand_nodes (Access _ _ _) t = filter (\<lambda>c. \<not> attribute c) (tl (children t))"
| "operand_nodes _ t = tl (children t)"

text \<open>The type of a block: the one of its \<^verbatim>\<open>result\<close>, or the byte for none.\<close>

definition opens :: "wat list \<Rightarrow> 8 word \<Rightarrow> wat list \<Rightarrow> bool" where
  "opens ts ty body \<longleftrightarrow>
     (if ts \<noteq> [] \<and> list_head (hd ts) = ''result'' then
        body = tl ts \<and> length (children (hd ts)) = 2 \<and> map_of value_names ty = Some (node_text (children (hd ts) ! 1))
      else ty = 0x40 \<and> body = ts)"

lemma block_type_opens: "block_type ts = Inr (ty, body) \<Longrightarrow> opens ts ty body"
  by (auto simp: block_type_def value_type_def opens_def value_names_def errorf_def bind_res_eq_Inr split: list.splits if_splits)

lemma opens_rest: "opens ts ty body \<Longrightarrow> set body \<subseteq> set ts"
  by (cases ts) (auto simp: opens_def split: if_splits)

section \<open>What a node unfolds to\<close>

definition structured_ops :: "string list" where
  "structured_ops = [''block'', ''loop'', ''if'', ''then'', ''else'']"

inductive unfolds :: "encoder \<Rightarrow> wat \<Rightarrow> inst list \<Rightarrow> bool" where
  operation: "op_name t \<notin> set structured_ops \<Longrightarrow> denotes e t i \<Longrightarrow> list_all2 (unfolds e) (operand_nodes i t) l \<Longrightarrow>
    unfolds e t (concat l @ [i])"
| group: "op_name t = ''then'' \<or> op_name t = ''else'' \<Longrightarrow> list_all2 (unfolds e) (tl (children t)) l \<Longrightarrow>
    unfolds e t (concat l)"
| block: "op_name t = ''block'' \<and> opcode = 0x02 \<or> op_name t = ''loop'' \<and> opcode = 0x03 \<Longrightarrow>
    block_label (tl (children t)) = (label, ts) \<Longrightarrow> opens ts ty body \<Longrightarrow>
    list_all2 (unfolds (inside label e)) body l \<Longrightarrow> unfolds e t [Block opcode ty (concat l)]"
| cond: "op_name t = ''if'' \<Longrightarrow> opens (tl (children t)) ty [c, yes] \<Longrightarrow>
    unfolds e c cs \<Longrightarrow> unfolds (inside [] e) yes ys \<Longrightarrow> unfolds e t (cs @ [Cond ty ys None])"
| cond_else: "op_name t = ''if'' \<Longrightarrow> opens (tl (children t)) ty [c, yes, no] \<Longrightarrow>
    unfolds e c cs \<Longrightarrow> unfolds (inside [] e) yes ys \<Longrightarrow> unfolds (inside [] e) no ns \<Longrightarrow>
    unfolds e t (cs @ [Cond ty ys (Some ns)])"

section \<open>What the encoder writes unfolds\<close>

definition produces :: "encoder \<Rightarrow> wat \<Rightarrow> bytes \<Rightarrow> bool" where
  "produces e t bs \<longleftrightarrow> (\<exists>is. unfolds e t is \<and> bs = puts is \<and> list_all proper is)"

lemma sequence_produces:
  assumes "encode_sequence enc e ts = Inr bs" and "\<And>x bs. x \<in> set ts \<Longrightarrow> enc e x = Inr bs \<Longrightarrow> produces e x bs"
  shows "\<exists>l. list_all2 (unfolds e) ts l \<and> bs = puts (concat l) \<and> list_all proper (concat l)"
  using assms
proof (induction ts arbitrary: bs)
  case Nil
  then show ?case by (simp add: encode_sequence_def)
next
  case (Cons t ts)
  then obtain b bs' where b: "enc e t = Inr b" "encode_sequence enc e ts = Inr bs'" "bs = b @ bs'"
    by (auto simp: encode_sequence_def bind_res_eq_Inr)
  from Cons.prems(2)[OF _ b(1)] obtain "is" where i: "unfolds e t is" "b = puts is" "list_all proper is"
    by (auto simp: produces_def)
  from Cons.IH[OF b(2) Cons.prems(2)] obtain l where
    l: "list_all2 (unfolds e) ts l" "bs' = puts (concat l)" "list_all proper (concat l)" by auto
  show ?case using i l b(3) by (intro exI[of _ "is # l"]) (auto simp: list_all_iff)
qed

section \<open>The operator of a node, from the tables of the code\<close>

text \<open>The nodes that are operands: not the name, the index or the other immediates.\<close>

definition operand_list :: "wat \<Rightarrow> wat list" where
  "operand_list t =
     (let op = op_name t
      in if op \<in> set [''br'', ''br_if'', ''call'', ''call_indirect'', ''local.get'', ''local.set'', ''local.tee'',
           ''global.get'', ''global.set''] \<or> simd_lane_opcode op \<noteq> None
         then drop 2 (children t)
         else if op = ''i32.const'' \<or> op = ''i64.const'' then []
         else if op \<in> set memory_ops then filter (\<lambda>c. \<not> attribute c) (tl (children t))
         else tl (children t))"

text \<open>The instruction left when the operands are gone.\<close>

definition control_operator :: "encoder \<Rightarrow> wat \<Rightarrow> inst option" where
  "control_operator e t =
     (let op = op_name t; a = children t ! 1; m = en_module e
      in if op = ''br'' then map_option (Indexed 0x0c) (result_of (label_depth e a))
         else if op = ''br_if'' then map_option (Indexed 0x0d) (result_of (label_depth e a))
         else if op = ''return'' then Some (Plain 0x0f)
         else if op = ''call'' then map_option (Indexed 0x10) (result_of (function_index m a))
         else if op = ''call_indirect'' then
           map_option (\<lambda>v. Indirect v 0) (result_of (type_index m (children a ! 1)))
         else if op = ''local.get'' then map_option (Indexed 0x20) (result_of (local_index e a))
         else if op = ''local.set'' then map_option (Indexed 0x21) (result_of (local_index e a))
         else if op = ''local.tee'' then map_option (Indexed 0x22) (result_of (local_index e a))
         else if op = ''global.get'' then map_option (Indexed 0x23) (result_of (global_index m a))
         else if op = ''global.set'' then map_option (Indexed 0x24) (result_of (global_index m a))
         else None)"

definition immediate_operator :: "wat \<Rightarrow> inst option" where
  "immediate_operator t =
     (let op = op_name t; a = children t ! 1
      in if op = ''i32.const'' then map_option (\<lambda>v. Const32 (ucast v)) (result_of (signed_atom a))
         else if op = ''i64.const'' then map_option Const64 (result_of (signed_atom a))
         else if op \<in> set memory_ops then
           map_option (\<lambda>(offset, alignment, _). Access (fst (memory_instruction op)) alignment offset)
             (result_of (memory_parts op t))
         else if op = ''v128.load'' then Some (VectorAccess 0 4 0)
         else if op = ''v128.store'' then Some (VectorAccess 11 4 0)
         else if op = ''memory.size'' then Some (Sized 0x3f)
         else if op = ''memory.grow'' then Some (Sized 0x40)
         else if op = ''memory.copy'' then Some MemoryCopy
         else if op = ''memory.fill'' then Some MemoryFill
         else if op \<in> set truncation_ops then Some (Prefixed (truncation_number op))
         else (case simd_lane_opcode op of
             Some sub \<Rightarrow> map_option (\<lambda>v. Lane sub (ucast v)) (result_of (unsigned_atom a))
           | None \<Rightarrow>
               (case simd_opcode op of
                  Some sub \<Rightarrow> Some (Vector sub)
                | None \<Rightarrow> map_option Plain (simple_instruction_opcode op))))"

definition operator :: "encoder \<Rightarrow> wat \<Rightarrow> inst option" where
  "operator e t = or_else (control_operator e t) (immediate_operator t)"

section \<open>The classes of names\<close>

definition reference_ops :: "string list" where
  "reference_ops = [''br'', ''br_if'', ''return'', ''call'', ''call_indirect'', ''local.get'', ''local.set'', ''local.tee'',
     ''global.get'', ''global.set'']"

definition immediate_ops :: "string list" where
  "immediate_ops = [''i32.const'', ''i64.const'', ''v128.load'', ''v128.store'', ''memory.size'', ''memory.grow'',
     ''memory.copy'', ''memory.fill''] @ truncation_ops @ memory_ops"

lemma not_reference: "op_name t \<notin> set reference_ops \<Longrightarrow> operator e t = immediate_operator t"
  by (simp add: operator_def or_else_def control_operator_def reference_ops_def Let_def)

lemma classified:
  "classify_instruction op = ControlInstruction \<Longrightarrow> op \<in> set [''block'', ''loop'', ''if'', ''br'', ''br_if'', ''return'', ''then'', ''else'']"
  "classify_instruction op = ReferenceInstruction \<Longrightarrow>
    op \<in> set [''call'', ''call_indirect'', ''local.get'', ''local.set'', ''local.tee'', ''global.get'', ''global.set'']"
  "classify_instruction op = ImmediateInstruction \<Longrightarrow> op \<in> set immediate_ops \<or> simd_lane_opcode op \<noteq> None"
  "classify_instruction op = SimpleInstruction \<Longrightarrow>
    op \<notin> set (reference_ops @ immediate_ops @ structured_ops) \<and> simd_lane_opcode op = None"
  unfolding classify_instruction_def immediate_ops_def reference_ops_def structured_ops_def
  by (force split: if_splits)+

lemma immediates_apart:
  "op \<in> set immediate_ops \<Longrightarrow> op \<notin> set reference_ops \<and> op \<notin> set structured_ops \<and> simd_lane_opcode op = None"
proof -
  have "list_all (\<lambda>op. op \<notin> set reference_ops \<and> op \<notin> set structured_ops \<and> Option.is_none (simd_lane_opcode op)) immediate_ops"
    by code_simp
  then show "op \<in> set immediate_ops \<Longrightarrow> op \<notin> set reference_ops \<and> op \<notin> set structured_ops \<and> simd_lane_opcode op = None"
    by (simp add: list_all_iff Option.is_none_def)
qed

lemma memory_apart:
  "op \<in> set memory_ops \<Longrightarrow> op \<notin> {''i32.const'', ''i64.const''} \<and> op \<in> set immediate_ops"
proof -
  have "list_all (\<lambda>op. op \<notin> {''i32.const'', ''i64.const''} \<and> op \<in> set immediate_ops) memory_ops" by code_simp
  then show "op \<in> set memory_ops \<Longrightarrow> op \<notin> {''i32.const'', ''i64.const''} \<and> op \<in> set immediate_ops" by (simp add: list_all_iff)
qed

lemma truncation_apart:
  "op \<in> set truncation_ops \<Longrightarrow> op \<in> set immediate_ops \<and> op \<notin> set memory_ops \<and>
    op \<notin> {''i32.const'', ''i64.const'', ''v128.load'', ''v128.store'', ''memory.size'', ''memory.grow'', ''memory.copy'', ''memory.fill''}"
proof -
  have "list_all (\<lambda>op. op \<in> set immediate_ops \<and> op \<notin> set memory_ops \<and>
    op \<notin> {''i32.const'', ''i64.const'', ''v128.load'', ''v128.store'', ''memory.size'', ''memory.grow'', ''memory.copy'', ''memory.fill''})
    truncation_ops" by code_simp
  then show "op \<in> set truncation_ops \<Longrightarrow> op \<in> set immediate_ops \<and> op \<notin> set memory_ops \<and>
    op \<notin> {''i32.const'', ''i64.const'', ''v128.load'', ''v128.store'', ''memory.size'', ''memory.grow'', ''memory.copy'', ''memory.fill''}"
    by (simp add: list_all_iff)
qed

lemma lane_apart:
  "simd_lane_opcode op = Some sub \<Longrightarrow> 21 \<le> sub \<and> sub \<le> 34 \<and> op \<notin> set (reference_ops @ immediate_ops @ structured_ops)"
proof -
  assume "simd_lane_opcode op = Some sub"
  then have "(op, sub) \<in> set simd_lane_table" by (simp add: simd_lane_opcode_def map_of_SomeD)
  moreover have "list_all (\<lambda>(op, sub). 21 \<le> sub \<and> sub \<le> 34 \<and> op \<notin> set (reference_ops @ immediate_ops @ structured_ops)) simd_lane_table"
    by code_simp
  ultimately show ?thesis by (auto simp: list_all_iff)
qed

lemma simd_number: "simd_opcode op = Some sub \<Longrightarrow> \<not> sub \<le> 11 \<and> \<not> (21 \<le> sub \<and> sub \<le> 34)"
proof -
  assume "simd_opcode op = Some sub"
  then have "(op, sub) \<in> set simd_table" by (simp add: simd_opcode_def map_of_SomeD)
  moreover have "list_all (\<lambda>(op, sub). \<not> sub \<le> 11 \<and> \<not> (21 \<le> sub \<and> sub \<le> 34)) simd_table" by code_simp
  ultimately show ?thesis by (auto simp: list_all_iff)
qed

section \<open>The tables agree with the standard\<close>

lemma plain_named: "simple_instruction_opcode op = Some b \<Longrightarrow> name_at name_runs (uint b) = Some op"
proof -
  assume "simple_instruction_opcode op = Some b"
  then have "(op, b) \<in> set plain_table" by (simp add: simple_is_plain map_of_SomeD)
  moreover have "list_all (\<lambda>(op, b). name_at name_runs (uint b) = Some op) plain_table" by code_simp
  ultimately show ?thesis by (auto simp: list_all_iff)
qed

lemma simd_named: "simd_opcode op = Some sub \<Longrightarrow> map_of vector_names sub = Some op"
proof -
  assume "simd_opcode op = Some sub"
  then have "(op, sub) \<in> set simd_table" by (simp add: simd_opcode_def map_of_SomeD)
  moreover have "list_all (\<lambda>(op, sub). map_of vector_names sub = Some op) simd_table" by code_simp
  ultimately show ?thesis by (auto simp: list_all_iff)
qed

lemma lane_named: "simd_lane_opcode op = Some sub \<Longrightarrow> map_of lane_names sub = Some op"
proof -
  assume "simd_lane_opcode op = Some sub"
  then have "(op, sub) \<in> set simd_lane_table" by (simp add: simd_lane_opcode_def map_of_SomeD)
  moreover have "list_all (\<lambda>(op, sub). map_of lane_names sub = Some op) simd_lane_table" by code_simp
  ultimately show ?thesis by (auto simp: list_all_iff)
qed

lemma access_named:
  "op \<in> set memory_ops \<Longrightarrow> map_of access_names (fst (memory_instruction op)) = Some (op, snd (memory_instruction op))"
proof -
  have "list_all (\<lambda>op. map_of access_names (fst (memory_instruction op)) = Some (op, snd (memory_instruction op))) memory_ops"
    by code_simp
  then show "op \<in> set memory_ops \<Longrightarrow> map_of access_names (fst (memory_instruction op)) = Some (op, snd (memory_instruction op))"
    by (simp add: list_all_iff)
qed

lemma natural_alignment: "op \<in> set memory_ops \<Longrightarrow> snd (memory_instruction op) \<in> {0, 1, 2, 3}"
proof -
  have "list_all (\<lambda>op. snd (memory_instruction op) \<in> {0, 1, 2, 3}) memory_ops" by code_simp
  then show "op \<in> set memory_ops \<Longrightarrow> snd (memory_instruction op) \<in> {0, 1, 2, 3}" by (simp add: list_all_iff)
qed

lemma truncation_named: "op \<in> set truncation_ops \<Longrightarrow> map_of prefixed_names (truncation_number op) = Some op"
proof -
  have "list_all (\<lambda>op. map_of prefixed_names (truncation_number op) = Some op) truncation_ops" by code_simp
  then show "op \<in> set truncation_ops \<Longrightarrow> map_of prefixed_names (truncation_number op) = Some op" by (simp add: list_all_iff)
qed

section \<open>Alignments\<close>

lemma power_of_two: "0 < n \<Longrightarrow> n AND (n - 1) = 0 \<Longrightarrow> \<exists>k. n = 2 ^ k" for n :: nat
proof (induction n rule: less_induct)
  case (less n)
  show ?case
  proof (cases "odd n")
    case True
    then have "(n - 1) div 2 = n div 2" by presburger
    with less.prems(2) have "n div 2 = 0" using and_rec[of n "n - 1"] by simp
    with True have "n = 1" by presburger
    then show ?thesis by (metis power_0)
  next
    case False
    then have "(n - 1) div 2 = n div 2 - 1" "n div 2 < n" "0 < n div 2" using less.prems(1) by presburger+
    moreover have "n div 2 AND (n div 2 - 1) = 0"
      using less.prems(2) and_rec[of n "n - 1"] False calculation(1) by simp
    ultimately obtain k where "n div 2 = 2 ^ k" using less.IH by blast
    then have "2 * (n div 2) = 2 ^ Suc k" by simp
    with False show ?thesis by (metis dvd_mult_div_cancel)
  qed
qed

lemma log_steps_power: "log_steps (2 ^ k) = k"
proof (induction k)
  case (Suc k)
  have "(1 :: nat) < 2 ^ Suc k" using one_less_power[of "2 :: nat" "Suc k"] by simp
  with Suc show ?case by (subst log_steps.simps) simp
qed (subst log_steps.simps, simp)

lemma alignment_power:
  fixes v :: u32
  assumes "v \<noteq> 0" "v AND (v - 1) = 0"
  shows "unat v = 2 ^ unat (word_of_nat (log_steps (unat v)) :: u32)"
proof -
  have "0 < unat v" "unat v AND (unat v - 1) = 0"
    using assms by (simp add: unat_gt_0, metis unsigned_and_eq unat_minus_one unsigned_0)
  then obtain k where k: "unat v = 2 ^ k" using power_of_two by blast
  have "k < 32"
  proof (rule ccontr)
    assume "\<not> k < 32"
    then have "(2 :: nat) ^ 32 \<le> 2 ^ k" by (intro power_increasing) auto
    with k unsigned_less[where 'a = nat, of v] show False by simp
  qed
  then have "unat (word_of_nat k :: u32) = k" by (simp add: unat_of_nat take_bit_nat_eq_self)
  with k show ?thesis by (simp add: log_steps_power)
qed

section \<open>The operator of a node is what it denotes\<close>

lemma fold_res_snoc:
  "fold_res f s xs = Inr s' \<Longrightarrow> P [] s \<Longrightarrow> (\<And>ys s x s'. f s x = Inr s' \<Longrightarrow> P ys s \<Longrightarrow> P (ys @ [x]) s') \<Longrightarrow> P xs s'"
proof (induction xs arbitrary: s' rule: rev_induct)
  case (snoc x xs)
  have "fold_res f s (xs @ ys) = bind_res (fold_res f s xs) (\<lambda>s. fold_res f s ys)" for ys
    by (induction xs arbitrary: s) (auto simp: bind_res_def split: sum.split)
  with snoc.prems(1) obtain s1 where "fold_res f s xs = Inr s1" "f s1 x = Inr s'" by (auto simp: bind_res_eq_Inr)
  with snoc show ?case by blast
qed simp

lemma stated_snoc:
  "stated key (ts @ [t]) usual v \<longleftrightarrow>
     (if is_atom t \<and> prefix key (node_text t) then parse_uint32 (drop (length key) (node_text t)) = Some v
      else stated key ts usual v)"
  by (simp add: stated_def Let_def)

lemma key_lengths: "length ''offset='' = 7" "length ''align='' = 6"
  by simp_all

lemma keys_apart: "prefix ''offset='' s \<Longrightarrow> \<not> prefix ''align='' s"
  by (cases s) auto

lemma memory_stated:
  assumes "memory_parts op t = Inr (off, al, ops)" "op \<in> set memory_ops"
  shows "stated ''offset='' (tl (children t)) 0 off \<and>
    (\<exists>w. stated ''align='' (tl (children t)) (2 ^ unat (snd (memory_instruction op))) w \<and> unat w = 2 ^ unat al)"
proof -
  let ?n = "snd (memory_instruction op)"
  let ?P = "\<lambda>ts acc. case acc of (off, al, ops) \<Rightarrow> stated ''offset='' ts 0 off \<and>
    (\<exists>w. stated ''align='' ts (2 ^ unat ?n) w \<and> unat w = 2 ^ unat al)"
  from natural_alignment[OF assms(2)] have n: "unat (2 ^ unat ?n :: u32) = 2 ^ unat ?n" by auto
  have "?P (tl (children t)) (off, al, ops)"
  proof (rule fold_res_snoc[OF assms(1)[unfolded memory_parts_def], where P = ?P])
    show "?P [] (0, ?n, [])" using n by (auto simp: stated_def)
    fix ts acc x acc' assume step: "memory_part acc x = Inr acc'" and P: "?P ts acc"
    obtain o1 a1 p1 o2 a2 p2 where acc: "acc = (o1, a1, p1)" "acc' = (o2, a2, p2)" by (metis prod_cases3)
    consider "is_atom x" "prefix ''offset='' (node_text x)" | "is_atom x" "prefix ''align='' (node_text x)" "\<not> prefix ''offset='' (node_text x)"
      | "\<not> attribute x" by (auto simp: attribute_def)
    then show "?P (ts @ [x]) acc'"
    proof cases
      case 1
      with step P acc keys_apart[OF 1(2)] show ?thesis
        by (auto simp: memory_part_def errorf_def stated_snoc key_lengths simp del: list.size split: option.splits)
    next
      case 2
      with step P acc show ?thesis
        by (auto simp: memory_part_def errorf_def stated_snoc key_lengths simp del: list.size intro: alignment_power split: option.splits if_splits)
    next
      case 3
      with step P acc show ?thesis by (auto simp: memory_part_def stated_snoc attribute_def)
    qed
  qed
  then show ?thesis by simp
qed

lemma label_place_Some: "label_place s l = Some n \<Longrightarrow> n < length l \<and> l ! n = s \<and> s \<notin> set (take n l)"
proof (induction l arbitrary: n)
  case (Cons x l)
  then show ?case by (auto split: if_splits)
qed simp

lemma references_refer:
  "label_depth e a = Inr v \<Longrightarrow> branches_to (en_labels e) a v"
  "function_index m a = Inr v \<Longrightarrow> refers (wm_function_names m) a v"
  "global_index m a = Inr v \<Longrightarrow> refers (wm_global_names m) a v"
  "type_index m a = Inr v \<Longrightarrow> refers (wm_type_names m) a v"
  "local_index e a = Inr v \<Longrightarrow> refers (en_locals e) a v"
proof -
  show "branches_to (en_labels e) a v" if "label_depth e a = Inr v"
    using that by (auto simp: label_depth_def unsigned_atom_def errorf_def branches_to_def dest!: label_place_Some
      split: if_splits option.splits)
qed (auto simp: function_index_def global_index_def type_index_def local_index_def unsigned_atom_def errorf_def refers_def
    split: if_splits option.splits)

lemma result_of_Some: "result_of r = Some v \<longleftrightarrow> r = Inr v"
  by (cases r) (auto simp: result_of_def)

lemma control_denotes:
  assumes "control_operator e t = Some i"
  shows "denotes e t i \<and> operand_nodes i t = (if op_name t = ''return'' then tl (children t) else drop 2 (children t))"
  using assms references_refer
  by (auto simp: control_operator_def denotes_def Let_def result_of_Some indexed_names_def name_runs_def split: if_splits)

lemma immediate_denotes:
  assumes "immediate_operator t = Some i"
  shows "denotes e t i \<and> operand_nodes i t =
    (if op_name t = ''i32.const'' \<or> op_name t = ''i64.const'' then []
     else if op_name t \<in> set memory_ops then filter (\<lambda>c. \<not> attribute c) (tl (children t))
     else if op_name t \<notin> set truncation_ops \<and> simd_lane_opcode (op_name t) \<noteq> None then drop 2 (children t)
     else tl (children t))"
proof -
  let ?op = "op_name t"
  consider "?op \<in> {''i32.const'', ''i64.const''}" | "?op \<in> set memory_ops"
    | "?op \<in> {''v128.load'', ''v128.store'', ''memory.size'', ''memory.grow'', ''memory.copy'', ''memory.fill''}"
    | "?op \<in> set truncation_ops" | "?op \<notin> set immediate_ops" by (auto simp: immediate_ops_def)
  then show ?thesis
  proof cases
    case 1
    with assms show ?thesis by (auto simp: immediate_operator_def denotes_def result_of_Some)
  next
    case 2
    with assms memory_apart[OF 2] obtain off al ops where m: "memory_parts ?op t = Inr (off, al, ops)"
      "i = Access (fst (memory_instruction ?op)) al off"
      by (auto simp: immediate_operator_def Let_def result_of_Some)
    with 2 memory_apart[OF 2] access_named[OF 2] memory_stated[OF m(1) 2] show ?thesis by (auto simp: denotes_def)
  next
    case 3
    then have "?op \<in> set immediate_ops" "?op \<notin> set memory_ops" "?op \<notin> set truncation_ops"
      by (auto simp: immediate_ops_def memory_ops_def truncation_ops_def)
    with 3 assms immediates_apart[of ?op] show ?thesis by (auto simp: immediate_operator_def denotes_def)
  next
    case 4
    with assms truncation_apart[OF 4] truncation_named[OF 4] show ?thesis
      by (auto simp: immediate_operator_def denotes_def)
  next
    case 5
    then have n: "?op \<notin> {''i32.const'', ''i64.const'', ''v128.load'', ''v128.store'', ''memory.size'', ''memory.grow'', ''memory.copy'', ''memory.fill''}"
      "?op \<notin> set memory_ops" "?op \<notin> set truncation_ops" by (auto simp: immediate_ops_def)
    show ?thesis
    proof (cases "simd_lane_opcode ?op")
      case (Some sub)
      with assms n lane_named[OF Some] show ?thesis
        by (auto simp: immediate_operator_def denotes_def Let_def result_of_Some unsigned_atom_def errorf_def split: if_splits option.splits)
    next
      case None
      with assms n simd_named[of ?op] plain_named[of ?op] show ?thesis
        by (auto simp: immediate_operator_def denotes_def Let_def split: option.splits)
    qed
  qed
qed

lemma reference_not_immediate: "op_name t \<in> set reference_ops \<Longrightarrow> immediate_operator t = None"
proof -
  have "list_all (\<lambda>op. op \<notin> set immediate_ops \<and> Option.is_none (simd_lane_opcode op) \<and> Option.is_none (simd_opcode op) \<and>
    Option.is_none (simple_instruction_opcode op)) reference_ops" by code_simp
  then show "op_name t \<in> set reference_ops \<Longrightarrow> immediate_operator t = None"
    by (auto simp: list_all_iff immediate_operator_def immediate_ops_def Option.is_none_def)
qed

lemma operator_denotes:
  assumes "operator e t = Some i"
  shows "denotes e t i" "operand_nodes i t = operand_list t"
proof -
  have "denotes e t i \<and> operand_nodes i t = operand_list t"
  proof (cases "op_name t \<in> set reference_ops")
    case True
    then have "simd_lane_opcode (op_name t) = None \<or> op_name t \<noteq> ''return''" "''return'' \<notin> set memory_ops"
      by (auto simp: simd_lane_opcode_def simd_lane_table_def memory_ops_def)
    moreover have "control_operator e t = Some i"
      using assms True reference_not_immediate[OF True] by (auto simp: operator_def or_else_def split: option.splits)
    ultimately show ?thesis using control_denotes[of e t i] True by (auto simp: operand_list_def reference_ops_def)
  next
    case False
    with assms have "immediate_operator t = Some i" by (simp add: not_reference)
    note d = immediate_denotes[OF this, of e]
    have "op_name t \<in> set truncation_ops \<Longrightarrow> simd_lane_opcode (op_name t) = None"
      using truncation_apart immediates_apart by blast
    with d False show ?thesis
      by (auto simp: operand_list_def reference_ops_def simd_lane_opcode_def simd_lane_table_def memory_ops_def)
  qed
  then show "denotes e t i" "operand_nodes i t = operand_list t" by blast+
qed

section \<open>What the encoder writes\<close>

text \<open>Every method but those of the structures ends in its operands and then one instruction.\<close>

definition operation_bytes :: "encoding \<Rightarrow> encoder \<Rightarrow> wat \<Rightarrow> bytes \<Rightarrow> bool" where
  "operation_bytes enc e t bs \<longleftrightarrow>
     (\<exists>i bs'. operator e t = Some i \<and> proper i \<and> encode_sequence enc e (operand_list t) = Inr bs' \<and> bs = bs' @ put i)"

lemma operation_bytesI:
  "encode_sequence enc e (operand_list t) = Inr bs' \<Longrightarrow> operator e t = Some i \<Longrightarrow> proper i \<Longrightarrow> bs = bs' @ put i \<Longrightarrow>
    operation_bytes enc e t bs"
  unfolding operation_bytes_def by blast

lemma operand_list_children: "set (operand_list t) \<subseteq> set (children t)"
  using set_drop_subset[of 1 "children t"] set_drop_subset[of 2 "children t"]
  unfolding operand_list_def Let_def by (auto simp: drop_Suc)

lemma operation_produces:
  assumes "operation_bytes enc e t bs" "op_name t \<notin> set structured_ops"
    and "\<And>x bs. x \<in> set (children t) \<Longrightarrow> enc e x = Inr bs \<Longrightarrow> produces e x bs"
  shows "produces e t bs"
proof -
  from assms(1) obtain i bs' where i: "operator e t = Some i" "proper i" "encode_sequence enc e (operand_list t) = Inr bs'"
    "bs = bs' @ put i" by (auto simp: operation_bytes_def)
  from sequence_produces[OF i(3) assms(3)] operand_list_children obtain l where
    l: "list_all2 (unfolds e) (operand_list t) l" "bs' = puts (concat l)" "list_all proper (concat l)" by blast
  from unfolds.operation[OF assms(2) operator_denotes(1)[OF i(1)]] operator_denotes(2)[OF i(1)] l i show ?thesis
    unfolding produces_def by (intro exI[of _ "concat l @ [i]"]) simp
qed

subsection \<open>The methods\<close>

lemma encode_sequence_one [simp]: "encode_sequence enc e [x] = enc e x" "encode_sequence enc e [] = Inr []"
  by (cases "enc e x"; simp add: encode_sequence_def)+

lemma drop_operands: "length ts = 3 \<Longrightarrow> drop 2 ts = [ts ! 2]" "length ts = 2 \<Longrightarrow> drop 2 ts = []" "length ts = 2 \<Longrightarrow> tl ts = [ts ! 1]"
  by (simp_all add: list_eq_iff_nth_eq nth_tl)

lemma reference_operands: "op_name t \<in> set reference_ops \<Longrightarrow> op_name t \<noteq> ''return'' \<Longrightarrow> operand_list t = drop 2 (children t)"
  by (auto simp: operand_list_def reference_ops_def)

lemma branch_operation:
  assumes "encode_branch enc e t c = Inr bs" "op_name t = (if c then ''br_if'' else ''br'')"
  shows "operation_bytes enc e t bs"
proof -
  from assms(1) obtain bs' v where b: "length (children t) = (if c then 3 else 2)"
      "(if c then enc e (children t ! 2) else Inr []) = Inr bs'" "label_depth e (children t ! 1) = Inr v"
      "bs = bs' @ put (Indexed (if c then 0x0d else 0x0c) v)"
    by (auto simp: encode_branch_def errorf_def bind_res_eq_Inr split: if_splits)
  have "operand_list t = drop 2 (children t)" by (rule reference_operands) (simp_all add: assms(2) reference_ops_def)
  with b(1,2) have "encode_sequence enc e (operand_list t) = Inr bs'" by (auto simp: drop_operands split: if_splits)
  then show ?thesis
    by (rule operation_bytesI[OF _ _ _ b(4)])
      (use assms(2) b(3) in \<open>simp_all add: operator_def or_else_def control_operator_def index_bytes_def\<close>)
qed

lemma call_operation:
  assumes "encode_call enc e t = Inr bs" "op_name t = ''call''"
  shows "operation_bytes enc e t bs"
proof -
  from assms(1) obtain bs' v where b: "encode_sequence enc e (drop 2 (children t)) = Inr bs'"
      "function_index (en_module e) (children t ! 1) = Inr v" "bs = bs' @ put (Indexed 0x10 v)"
    by (auto simp: encode_call_def errorf_def bind_res_eq_Inr split: if_splits)
  have "operand_list t = drop 2 (children t)" by (rule reference_operands) (simp_all add: assms(2) reference_ops_def)
  with b(1) have "encode_sequence enc e (operand_list t) = Inr bs'" by simp
  then show ?thesis
    by (rule operation_bytesI[OF _ _ _ b(3)])
      (use assms(2) b(2) in \<open>simp_all add: operator_def or_else_def control_operator_def index_bytes_def\<close>)
qed

lemma call_indirect_operation:
  assumes "encode_call_indirect enc e t = Inr bs" "op_name t = ''call_indirect''"
  shows "operation_bytes enc e t bs"
proof -
  from assms(1) obtain bs' v where b: "encode_sequence enc e (drop 2 (children t)) = Inr bs'"
      "type_index (en_module e) (children (children t ! 1) ! 1) = Inr v" "bs = bs' @ put (Indirect v 0)"
    by (auto simp: encode_call_indirect_def errorf_def bind_res_eq_Inr split: if_splits)
  have "operand_list t = drop 2 (children t)" by (rule reference_operands) (simp_all add: assms(2) reference_ops_def)
  with b(1) have "encode_sequence enc e (operand_list t) = Inr bs'" by simp
  then show ?thesis
    by (rule operation_bytesI[OF _ _ _ b(3)])
      (use assms(2) b(2) in \<open>simp_all add: operator_def or_else_def control_operator_def\<close>)
qed

lemma local_operation:
  assumes "encode_local enc e t op = Inr bs" "op_name t = op" "op \<in> {''local.get'', ''local.set'', ''local.tee''}"
  shows "operation_bytes enc e t bs"
proof -
  from assms(1) obtain bs' v where b: "length (children t) = (if op \<noteq> ''local.get'' then 3 else 2)"
      "(if op \<noteq> ''local.get'' then enc e (children t ! 2) else Inr []) = Inr bs'" "local_index e (children t ! 1) = Inr v"
      "bs = bs' @ put (Indexed (local_opcode op) v)"
    by (auto simp: encode_local_def errorf_def bind_res_eq_Inr split: if_splits)
  have "operand_list t = drop 2 (children t)"
    by (rule reference_operands) (use assms(2,3) in \<open>auto simp: reference_ops_def\<close>)
  with b(1,2) have "encode_sequence enc e (operand_list t) = Inr bs'" by (auto simp: drop_operands split: if_splits)
  then show ?thesis
    by (rule operation_bytesI[OF _ _ _ b(4)])
      (use assms(2,3) b(3) in \<open>auto simp: operator_def or_else_def control_operator_def index_bytes_def local_opcode_def\<close>)
qed

lemma global_operation:
  assumes "encode_global enc e t op = Inr bs" "op_name t = op" "op \<in> {''global.get'', ''global.set''}"
  shows "operation_bytes enc e t bs"
proof -
  from assms(1) obtain bs' v where b: "length (children t) = (if op = ''global.set'' then 3 else 2)"
      "(if op = ''global.set'' then enc e (children t ! 2) else Inr []) = Inr bs'"
      "global_index (en_module e) (children t ! 1) = Inr v"
      "bs = bs' @ put (Indexed (if op = ''global.get'' then 0x23 else 0x24) v)"
    by (auto simp: encode_global_def errorf_def bind_res_eq_Inr split: if_splits)
  have "operand_list t = drop 2 (children t)"
    by (rule reference_operands) (use assms(2,3) in \<open>auto simp: reference_ops_def\<close>)
  with b(1,2) have "encode_sequence enc e (operand_list t) = Inr bs'" by (auto simp: drop_operands split: if_splits)
  then show ?thesis
    by (rule operation_bytesI[OF _ _ _ b(4)])
      (use assms(2,3) b(3) in \<open>auto simp: operator_def or_else_def control_operator_def index_bytes_def\<close>)
qed

lemma return_operation:
  "encode_with_opcode enc e (tl (children t)) 0x0f = Inr bs \<Longrightarrow> op_name t = ''return'' \<Longrightarrow> operation_bytes enc e t bs"
proof -
  assume e: "encode_with_opcode enc e (tl (children t)) 0x0f = Inr bs" and n: "op_name t = ''return''"
  have "simd_lane_opcode ''return'' = None" by (simp add: simd_lane_opcode_def simd_lane_table_def)
  moreover have "''return'' \<notin> set memory_ops" by code_simp
  ultimately have "operand_list t = tl (children t)" using n by (simp add: operand_list_def)
  moreover from e obtain bs' where "encode_sequence enc e (tl (children t)) = Inr bs'" "bs = bs' @ put (Plain 0x0f)"
    by (auto simp: encode_with_opcode_def bind_res_eq_Inr)
  ultimately show ?thesis
    by (intro operation_bytesI[of enc e t bs' "Plain 0x0f"])
      (simp_all add: n operator_def or_else_def control_operator_def structured_bytes_def index_bytes_def access_bytes_def)
qed

text \<open>Immediates.\<close>

lemma immediate_operands:
  assumes "op_name t \<in> set immediate_ops"
  shows "operand_list t = (if op_name t = ''i32.const'' \<or> op_name t = ''i64.const'' then []
    else if op_name t \<in> set memory_ops then filter (\<lambda>c. \<not> attribute c) (tl (children t)) else tl (children t))"
    "operator e t = immediate_operator t"
  using immediates_apart[OF assms] not_reference[of t e] by (auto simp: operand_list_def reference_ops_def)

lemma constant_operation:
  assumes "encode_constant t op = Inr bs" "op_name t = op" "op = ''i32.const'' \<or> op = ''i64.const''"
  shows "operation_bytes enc e t bs"
proof -
  have op: "op_name t \<in> set immediate_ops" using assms(2,3) by (auto simp: immediate_ops_def)
  from assms(1,3) obtain v where "signed_atom (children t ! 1) = Inr v"
      "bs = put (if op = ''i32.const'' then Const32 (ucast v) else Const64 v)"
    by (auto simp: encode_constant_def errorf_def bind_res_eq_Inr split: if_splits)
  with immediate_operands[OF op] assms(2,3) show ?thesis
    by (intro operation_bytesI[of enc e t "[]" "if op = ''i32.const'' then Const32 (ucast v) else Const64 v"])
      (auto simp: immediate_operator_def)
qed

lemma memory_part_operands:
  "memory_part (off, al, ops) t = Inr (off', al', ops') \<Longrightarrow> ops' = ops @ (if attribute t then [] else [t])"
  by (auto simp: memory_part_def errorf_def attribute_def split: if_splits option.splits)

lemma memory_parts_operands: "memory_parts op t = Inr (off, al, ops) \<Longrightarrow> ops = filter (\<lambda>c. \<not> attribute c) (tl (children t))"
proof -
  have "fold_res memory_part (off0, al0, ops0) ts = Inr (off, al, ops) \<Longrightarrow> ops = ops0 @ filter (\<lambda>c. \<not> attribute c) ts"
    for off0 al0 ops0 ts
  proof (induction ts arbitrary: off0 al0 ops0)
    case (Cons x ts)
    then obtain off1 al1 ops1 where "memory_part (off0, al0, ops0) x = Inr (off1, al1, ops1)"
      and "fold_res memory_part (off1, al1, ops1) ts = Inr (off, al, ops)" by (auto simp: bind_res_eq_Inr)
    with Cons.IH memory_part_operands show ?case by fastforce
  qed simp
  then show "memory_parts op t = Inr (off, al, ops) \<Longrightarrow> ops = filter (\<lambda>c. \<not> attribute c) (tl (children t))"
    by (auto simp: memory_parts_def)
qed

lemma memory_operation:
  assumes "encode_memory enc e t op = Inr bs" "op_name t = op" "op \<in> set memory_ops"
  shows "operation_bytes enc e t bs"
proof -
  from assms(1) obtain off al ops bs' where m: "memory_parts op t = Inr (off, al, ops)" "encode_sequence enc e ops = Inr bs'"
      "bs = bs' @ put (Access (fst (memory_instruction op)) al off)"
    by (auto simp: encode_memory_def bind_res_eq_Inr)
  have op: "op_name t \<in> set immediate_ops" "op \<noteq> ''i32.const''" "op \<noteq> ''i64.const''" using memory_apart assms(2,3) by auto
  from immediate_operands[OF op(1)] m memory_parts_operands[OF m(1)] assms(2,3) op(2,3) memory_access[OF assms(3)] show ?thesis
    by (intro operation_bytesI[of enc e t bs' "Access (fst (memory_instruction op)) al off"]) (simp_all add: immediate_operator_def)
qed

lemma tail_operation:
  assumes "op_name t = op" "op \<in> set immediate_ops" "op \<notin> set memory_ops" "op \<notin> {''i32.const'', ''i64.const''}"
    and "encode_sequence enc e (tl (children t)) = Inr bs'" "immediate_operator t = Some i" "proper i" "bs = bs' @ put i"
  shows "operation_bytes enc e t bs"
  using assms immediate_operands[of t] by (intro operation_bytesI[of enc e t bs' i]) auto

lemma vector_memory_operation:
  assumes "encode_vector_memory enc e t op = Inr bs" "op_name t = op" "op = ''v128.load'' \<or> op = ''v128.store''"
  shows "operation_bytes enc e t bs"
proof -
  from assms(1) obtain bs' where b: "encode_sequence enc e (tl (children t)) = Inr bs'"
      "bs = bs' @ put (VectorAccess (if op = ''v128.store'' then 11 else 0) 4 0)"
    by (auto simp: encode_vector_memory_def bind_res_eq_Inr)
  have m: "op \<notin> set memory_ops" "op \<in> set immediate_ops" using assms(3) by (auto simp: memory_ops_def immediate_ops_def)
  show ?thesis
    by (rule tail_operation[OF assms(2) m(2,1) _ b(1) _ _ b(2)])
      (use assms(2,3) m in \<open>auto simp: immediate_operator_def memory_ops_def\<close>)
qed

lemma memory_size_operation:
  assumes "encode_memory_size enc e t op = Inr bs" "op_name t = op" "op = ''memory.size'' \<or> op = ''memory.grow''"
  shows "operation_bytes enc e t bs"
proof -
  have b: "encode_sequence enc e (tl (children t)) = Inr (butlast (butlast bs)) \<and>
      bs = butlast (butlast bs) @ put (Sized (if op = ''memory.size'' then 0x3f else 0x40))"
    using assms(1) by (auto simp: encode_memory_size_def errorf_def bind_res_eq_Inr drop_operands length_Suc_conv butlast_append split: if_splits)
  have m: "op \<notin> set memory_ops" "op \<in> set immediate_ops" using assms(3) by (auto simp: memory_ops_def immediate_ops_def)
  show ?thesis
    by (rule tail_operation[OF assms(2) m(2,1) _ conjunct1[OF b] _ _ conjunct2[OF b]])
      (use assms(2,3) m in \<open>auto simp: immediate_operator_def memory_ops_def\<close>)
qed

lemma truncation_operation:
  assumes "encode_saturating_truncation enc e t op = Inr bs" "op_name t = op" "op \<in> set truncation_ops"
  shows "operation_bytes enc e t bs"
proof -
  from assms(1) obtain bs' where b: "encode_sequence enc e (tl (children t)) = Inr bs'" "bs = bs' @ put (Prefixed (truncation_number op))"
    by (auto simp: encode_saturating_truncation_def errorf_def bind_res_eq_Inr split: if_splits)
  note apart = truncation_apart[OF assms(3)]
  show ?thesis
    by (rule tail_operation[OF assms(2) _ _ _ b(1) _ _ b(2)])
      (use assms(2,3) apart in \<open>auto simp: immediate_operator_def truncation_number_def\<close>)
qed

lemma bulk_operation:
  assumes "encode_bulk_memory enc e t op = Inr bs" "op_name t = op" "op = ''memory.copy'' \<or> op = ''memory.fill''"
  shows "operation_bytes enc e t bs"
proof -
  from assms(1) obtain bs' where b: "encode_sequence enc e (tl (children t)) = Inr bs'"
      "bs = bs' @ put (if op = ''memory.copy'' then MemoryCopy else MemoryFill)"
    by (auto simp: encode_bulk_memory_def errorf_def bind_res_eq_Inr split: if_splits)
  have m: "op \<notin> set memory_ops" "op \<in> set immediate_ops" using assms(3) by (auto simp: memory_ops_def immediate_ops_def)
  show ?thesis
    by (rule tail_operation[OF assms(2) m(2,1) _ b(1) _ _ b(2)])
      (use assms(2,3) m in \<open>auto simp: immediate_operator_def memory_ops_def\<close>)
qed

text \<open>Vector and plain instructions.\<close>

lemma lane_operation:
  assumes "encode_simd_lane enc e t sub = Inr bs" "simd_lane_opcode (op_name t) = Some sub"
  shows "operation_bytes enc e t bs"
proof -
  from assms(1) obtain bs' v where b: "encode_sequence enc e (drop 2 (children t)) = Inr bs'"
      "unsigned_atom (children t ! 1) = Inr v" "bs = bs' @ put (Lane sub (ucast v))"
    by (auto simp: encode_simd_lane_def errorf_def bind_res_eq_Inr split: if_splits)
  note apart = lane_apart[OF assms(2)]
  have "operand_list t = drop 2 (children t)" using assms(2) by (simp add: operand_list_def Let_def)
  moreover have "operator e t = Some (Lane sub (ucast v))"
    using apart b(2) assms(2) not_reference[of t e] by (auto simp: immediate_operator_def immediate_ops_def)
  ultimately show ?thesis using b apart by (intro operation_bytesI[of enc e t bs' "Lane sub (ucast v)"]) simp_all
qed

lemma plain_class:
  assumes "classify_instruction (op_name t) = SimpleInstruction"
  shows "operand_list t = tl (children t)"
    "operator e t = (case simd_opcode (op_name t) of Some sub \<Rightarrow> Some (Vector sub) | None \<Rightarrow> map_option Plain (simple_instruction_opcode (op_name t)))"
  using classified(4)[OF assms] not_reference[of t e]
  by (auto simp: operand_list_def immediate_operator_def immediate_ops_def reference_ops_def Let_def)

lemma simd_operation:
  assumes "encode_with_simd enc e (tl (children t)) sub = Inr bs" "classify_instruction (op_name t) = SimpleInstruction"
    "simd_opcode (op_name t) = Some sub"
  shows "operation_bytes enc e t bs"
  using assms plain_class[OF assms(2)] simd_number[OF assms(3)]
  by (auto simp: encode_with_simd_def bind_res_eq_Inr intro!: operation_bytesI[where i = "Vector sub"])

lemma plain_operation:
  assumes "encode_with_opcode enc e (tl (children t)) b = Inr bs" "classify_instruction (op_name t) = SimpleInstruction"
    "simd_opcode (op_name t) = None" "simple_instruction_opcode (op_name t) = Some b"
  shows "operation_bytes enc e t bs"
  using assms plain_class[OF assms(2)] plain_not_structured[OF assms(4)]
  by (auto simp: encode_with_opcode_def bind_res_eq_Inr intro!: operation_bytesI[where i = "Plain b"])

text \<open>Structures.\<close>

lemma group_produces:
  assumes "encode_sequence enc e (tl (children t)) = Inr bs" "op_name t = ''then'' \<or> op_name t = ''else''"
    and "\<And>e x bs. x \<in> set (children t) \<Longrightarrow> enc e x = Inr bs \<Longrightarrow> produces e x bs"
  shows "produces e t bs"
proof -
  have "set (tl (children t)) \<subseteq> set (children t)" by (cases "children t") auto
  with sequence_produces[OF assms(1)] assms(3) obtain l where
    "list_all2 (unfolds e) (tl (children t)) l" "bs = puts (concat l)" "list_all proper (concat l)" by blast
  with unfolds.group[OF assms(2)] show ?thesis unfolding produces_def by blast
qed

lemma block_produces:
  assumes "encode_block enc e t opcode = Inr bs" "op_name t = ''block'' \<and> opcode = 0x02 \<or> op_name t = ''loop'' \<and> opcode = 0x03"
    and IH: "\<And>e x bs. x \<in> set (children t) \<Longrightarrow> enc e x = Inr bs \<Longrightarrow> produces e x bs"
  shows "produces e t bs"
proof -
  from assms(1) obtain label ts ty body bs' where b: "block_label (tl (children t)) = (label, ts)" "block_type ts = Inr (ty, body)"
      "encode_sequence enc (inside label e) body = Inr bs'" "bs = opcode # ty # bs' @ [0x0b]"
    by (auto simp: encode_block_def bind_res_eq_Inr split: prod.splits)
  have "set (tl (children t)) \<subseteq> set (children t)" by (cases "children t") auto
  with block_label_rest[OF b(1)] block_type_rest[OF b(2)] have "set body \<subseteq> set (children t)" by blast
  with sequence_produces[OF b(3) IH] obtain l where
    l: "list_all2 (unfolds (inside label e)) body l" "bs' = puts (concat l)" "list_all proper (concat l)" by blast
  from unfolds.block[OF assms(2) b(1) block_type_opens[OF b(2)] l(1)] l b(4) assms(2) show ?thesis
    unfolding produces_def by (intro exI[of _ "[Block opcode ty (concat l)]"]) auto
qed

lemma if_produces:
  assumes "encode_if enc e t = Inr bs" and op: "op_name t = ''if''"
    and IH: "\<And>e x bs. x \<in> set (children t) \<Longrightarrow> enc e x = Inr bs \<Longrightarrow> produces e x bs"
  shows "produces e t bs"
proof -
  from assms(1) obtain ty c yes rest b1 b2 b3 where b: "block_type (tl (children t)) = Inr (ty, c # yes # rest)"
      "enc e c = Inr b1" "enc (inside [] e) yes = Inr b2" "encode_else enc (inside [] e) t rest = Inr b3"
      "bs = b1 @ 0x04 # ty # b2 @ b3 @ [0x0b]"
    by (auto simp: encode_if_def errorf_def bind_res_eq_Inr split: sum.splits prod.splits list.splits if_splits)
  have "set (tl (children t)) \<subseteq> set (children t)" by (cases "children t") auto
  with block_type_rest[OF b(1)] have sub: "c \<in> set (children t)" "yes \<in> set (children t)" "set rest \<subseteq> set (children t)" by auto
  from IH[OF sub(1) b(2)] IH[OF sub(2) b(3)] obtain cs ys where
    cs: "unfolds e c cs" "b1 = puts cs" "list_all proper cs" and
    ys: "unfolds (inside [] e) yes ys" "b2 = puts ys" "list_all proper ys" unfolding produces_def by blast
  from b(4) consider "rest = []" "b3 = []" | no bs' where "rest = [no]" "enc (inside [] e) no = Inr bs'" "b3 = 0x05 # bs'"
    by (auto simp: encode_else_def errorf_def bind_res_eq_Inr split: list.splits if_splits)
  then show ?thesis
  proof cases
    case 1
    from unfolds.cond[OF op block_type_opens[OF b(1)[unfolded 1]] cs(1) ys(1)] cs ys b(5) 1 show ?thesis
      unfolding produces_def by (intro exI[of _ "cs @ [Cond ty ys None]"]) simp
  next
    case 2
    with sub(3) IH[OF _ 2(2)] obtain ns where ns: "unfolds (inside [] e) no ns" "bs' = puts ns" "list_all proper ns"
      unfolding produces_def by auto
    from unfolds.cond_else[OF op block_type_opens[OF b(1)[unfolded 2]] cs(1) ys(1) ns(1)] cs ys ns b(5) 2 show ?thesis
      unfolding produces_def by (intro exI[of _ "cs @ [Cond ty ys (Some ns)]"]) simp
  qed
qed

text \<open>The dispatch, by the class of the name.\<close>

lemma control_produces:
  assumes "encode_control enc e t (op_name t) = Inr bs" "classify_instruction (op_name t) = ControlInstruction"
    and IH: "\<And>e x bs. x \<in> set (children t) \<Longrightarrow> enc e x = Inr bs \<Longrightarrow> produces e x bs"
  shows "produces e t bs"
proof -
  have operation: "operation_bytes enc e t bs \<Longrightarrow> op_name t \<notin> set structured_ops \<Longrightarrow> produces e t bs"
    by (rule operation_produces[OF _ _ IH])
  from classified(1)[OF assms(2)] consider "op_name t = ''block''" | "op_name t = ''loop''" | "op_name t = ''if''"
    | "op_name t = ''br''" | "op_name t = ''br_if''" | "op_name t = ''return''" | "op_name t = ''then'' \<or> op_name t = ''else''" by auto
  then show ?thesis
  proof cases
    case 1
    with assms(1) show ?thesis by (intro block_produces[OF _ _ IH, of enc e t "0x02"]) (simp_all add: encode_control_def)
  next
    case 2
    with assms(1) show ?thesis by (intro block_produces[OF _ _ IH, of enc e t "0x03"]) (simp_all add: encode_control_def)
  next
    case 3
    with assms(1) show ?thesis by (intro if_produces[OF _ _ IH, of enc e t]) (simp_all add: encode_control_def)
  next
    case 4
    with assms(1) branch_operation[of enc e t False bs] show ?thesis
      by (intro operation) (simp_all add: encode_control_def structured_ops_def)
  next
    case 5
    with assms(1) branch_operation[of enc e t True bs] show ?thesis
      by (intro operation) (simp_all add: encode_control_def structured_ops_def)
  next
    case 6
    with assms(1) return_operation[of enc e t bs] show ?thesis
      by (intro operation) (simp_all add: encode_control_def structured_ops_def)
  next
    case 7
    with assms(1) show ?thesis by (intro group_produces[OF _ _ IH, of enc e t]) (auto simp: encode_control_def)
  qed
qed

lemma reference_operation:
  assumes "encode_reference enc e t (op_name t) = Inr bs" "classify_instruction (op_name t) = ReferenceInstruction"
  shows "operation_bytes enc e t bs \<and> op_name t \<notin> set structured_ops"
proof -
  from classified(2)[OF assms(2)] consider "op_name t = ''call''" | "op_name t = ''call_indirect''"
    | "op_name t \<in> {''local.get'', ''local.set'', ''local.tee''}" | "op_name t \<in> {''global.get'', ''global.set''}" by auto
  then show ?thesis
    using assms(1) call_operation[of enc e t bs] call_indirect_operation[of enc e t bs]
      local_operation[OF _ refl, of enc e t bs] global_operation[OF _ refl, of enc e t bs]
    by cases (auto simp: encode_reference_def structured_ops_def)
qed

lemma immediate_operation:
  assumes enc: "encode_immediate_operation enc e t (op_name t) = Inr bs"
    and kind: "classify_instruction (op_name t) = ImmediateInstruction"
  shows "operation_bytes enc e t bs \<and> op_name t \<notin> set structured_ops"
proof (cases "simd_lane_opcode (op_name t)")
  case (Some sub)
  from lane_apart[OF Some] have "op_name t \<notin> set immediate_ops" "op_name t \<notin> set structured_ops" by auto
  with enc Some lane_operation[OF _ Some, of enc e bs] show ?thesis
    by (auto simp: encode_immediate_operation_def immediate_ops_def)
next
  case None
  let ?op = "op_name t"
  from classified(3)[OF kind] None have op: "?op \<in> set immediate_ops" by simp
  then consider "?op = ''i32.const'' \<or> ?op = ''i64.const''" | "?op \<in> set memory_ops" | "?op \<in> set truncation_ops"
    | "?op = ''v128.load'' \<or> ?op = ''v128.store''" | "?op = ''memory.size'' \<or> ?op = ''memory.grow''"
    | "?op = ''memory.copy'' \<or> ?op = ''memory.fill''" by (auto simp: immediate_ops_def)
  then have "operation_bytes enc e t bs"
  proof cases
    case 1
    with enc show ?thesis by (intro constant_operation[OF _ refl]) (simp_all add: encode_immediate_operation_def)
  next
    case 2
    with enc memory_apart[OF 2] show ?thesis by (intro memory_operation[OF _ refl]) (auto simp: encode_immediate_operation_def)
  next
    case 3
    with enc None truncation_apart[OF 3] show ?thesis
      by (intro truncation_operation[OF _ refl]) (auto simp: encode_immediate_operation_def)
  next
    case 4
    moreover from 4 have "?op \<notin> set memory_ops" by (auto simp: memory_ops_def)
    ultimately show ?thesis using enc by (intro vector_memory_operation[OF _ refl]) (auto simp: encode_immediate_operation_def)
  next
    case 5
    moreover from 5 have "?op \<notin> set memory_ops" by (auto simp: memory_ops_def)
    ultimately show ?thesis using enc None by (intro memory_size_operation[OF _ refl]) (auto simp: encode_immediate_operation_def)
  next
    case 6
    moreover from 6 have "?op \<notin> set memory_ops" "?op \<notin> set truncation_ops" by (auto simp: memory_ops_def truncation_ops_def)
    ultimately show ?thesis using enc None by (intro bulk_operation[OF _ refl]) (auto simp: encode_immediate_operation_def)
  qed
  with immediates_apart[OF op] show ?thesis by simp
qed

lemma encode_step_cases:
  assumes "encode_step enc e t = Inr bs"
  shows "(case classify_instruction (op_name t) of
      ControlInstruction \<Rightarrow> encode_control enc e t (op_name t)
    | ReferenceInstruction \<Rightarrow> encode_reference enc e t (op_name t)
    | ImmediateInstruction \<Rightarrow> encode_immediate_operation enc e t (op_name t)
    | SimpleInstruction \<Rightarrow>
        (case simd_opcode (op_name t) of
           Some sub \<Rightarrow> encode_with_simd enc e (tl (children t)) sub
         | None \<Rightarrow>
             (case simple_instruction_opcode (op_name t) of
                None \<Rightarrow> errorf t ''unsupported instruction %s'' [op_name t]
              | Some opcode \<Rightarrow> encode_with_opcode enc e (tl (children t)) opcode))) = Inr bs"
proof -
  from assms obtain h args where t: "is_wlist t" "children t = h # args"
    by (auto simp: encode_step_def errorf_def split: if_splits list.splits)
  then have "op_name t = node_text h" "tl (children t) = args" by (simp_all add: op_name_def)
  with assms t show ?thesis by (simp only: encode_step_def Let_def list.case not_True_eq_False if_False)
qed

lemma encode_produces: "encode e t = Inr bs \<Longrightarrow> produces e t bs"
proof (induction e t arbitrary: bs rule: encode.induct)
  case (1 e t)
  from "1.prems" have "encode_step encode e t = Inr bs" by (simp only: encode.simps[of e t])
  note step = encode_step_cases[OF this]
  have plain: "operation_bytes encode e t bs \<and> op_name t \<notin> set structured_ops \<Longrightarrow> produces e t bs"
    using operation_produces "1.IH" by blast
  show ?case
  proof (cases "classify_instruction (op_name t)")
    case SimpleInstruction
    with step show ?thesis
      using classified(4)[OF SimpleInstruction] simd_operation[of encode e t _ bs] plain_operation[of encode e t _ bs]
      by (intro plain) (auto simp: errorf_def split: option.splits)
  next
    case ControlInstruction
    with step show ?thesis by (intro control_produces[OF _ ControlInstruction "1.IH"]) auto
  next
    case ReferenceInstruction
    with step show ?thesis by (intro plain reference_operation) auto
  next
    case ImmediateInstruction
    with step show ?thesis by (intro plain immediate_operation) auto
  qed
qed

text \<open>
  C22: The bytes of an instruction say what its text says. When the encoder accepts a folded
  instruction, a reader of the binary format takes exactly those bytes for the instructions the
  text unfolds to: operands first and in order, then the operator with its resolved index and
  immediates; every block, loop and conditional closed where its text closes. What follows is
  left for the reader.
\<close>
theorem encoded_instruction_reads:
  assumes "encode e t = Inr bs"
  shows "\<exists>is. unfolds e t is \<and> read_body (Suc (length bs)) (bs @ 0x0b # rest) = Some (is, 0x0b, rest)"
proof -
  from encode_produces[OF assms] obtain "is" where i: "unfolds e t is" "bs = puts is" "list_all proper is"
    by (auto simp: produces_def)
  from puts_read(1)[OF i(3), of "0x0b" "Suc (length bs)" rest] i show ?thesis by auto
qed

definition node :: "string \<Rightarrow> wat list \<Rightarrow> wat" where
  "node s ts = WList (WAtom 0 s # ts)"

abbreviation atom :: "string \<Rightarrow> wat" where
  "atom s \<equiv> WAtom 0 s"

definition sub_example :: wat where
  "sub_example = node ''i64.sub'' [node ''local.get'' [atom ''$x''], node ''local.get'' [atom ''$y'']]"

definition two_locals :: encoder where
  "two_locals = \<lparr>en_module = empty_module, en_locals = [''$x'' \<mapsto> 0, ''$y'' \<mapsto> 1], en_count = 2, en_labels = []\<rparr>"

theorem encoded_instruction_reads_witness:
  "\<exists>is. unfolds two_locals sub_example is \<and>
    read_body 6 ([0x20, 0, 0x20, 1, 0x7d] @ [0x0b]) = Some (is, 0x0b, [])"
proof -
  have "encode two_locals sub_example = Inr [0x20, 0, 0x20, 1, 0x7d]" by code_simp
  from encoded_instruction_reads[OF this, of "[]"] show ?thesis by (simp add: eval_nat_numeral)
qed

end
