(* ===== verification/Wasm_Binary.thy ===== *)
theory Wasm_Binary
  imports Wasm_Assemble
begin

text \<open>
  The sections of a module (internal/wasm/binary.go, encode and the functions it calls) and the
  bodies of functions (encodeCode, encodeFunctionBody, addLocal and encodeLocalGroups of
  internal/wasm/binary_instruction.go).
\<close>

section \<open>Vectors and sections\<close>

definition count_bytes :: "'a list \<Rightarrow> bytes" where
  "count_bytes xs = u32_bytes (word_of_nat (length xs))"

definition name_bytes :: "bytes \<Rightarrow> bytes" where
  "name_bytes bs = count_bytes bs @ bs"

definition section_bytes :: "8 word \<Rightarrow> bytes \<Rightarrow> bytes" where
  "section_bytes sid payload = (if payload = [] then [] else sid # name_bytes payload)"

text \<open>The bytes of a Go string.\<close>

definition raw :: "string \<Rightarrow> bytes" where
  "raw s = map (\<lambda>c. word_of_nat (byte c)) s"

section \<open>Function bodies\<close>

definition add_local :: "encoder \<Rightarrow> named_type \<Rightarrow> asm_error + encoder" where
  "add_local e l =
     (let e' = e\<lparr>en_count := en_count e + 1\<rparr>
      in if nt_name l = [] then Inr e'
         else if en_locals e (nt_name l) \<noteq> None then Inl (AsmAt 0 ''duplicate local %s'' [nt_name l])
         else Inr (e'\<lparr>en_locals := (en_locals e)(nt_name l \<mapsto> en_count e)\<rparr>))"

definition function_encoder :: "wasm_module \<Rightarrow> wasm_function \<Rightarrow> asm_error + encoder" where
  "function_encoder m f =
     fold_res add_local \<lparr>en_module = m, en_locals = Map.empty, en_count = 0, en_labels = []\<rparr> (wf_params f @ wf_locals f)"

definition add_group :: "(u32 \<times> 8 word) list \<Rightarrow> named_type \<Rightarrow> (u32 \<times> 8 word) list" where
  "add_group gs l =
     (if gs \<noteq> [] \<and> snd (last gs) = nt_code l then butlast gs @ [(fst (last gs) + 1, snd (last gs))]
      else gs @ [(1, nt_code l)])"

definition encode_local_groups :: "named_type list \<Rightarrow> bytes" where
  "encode_local_groups ls =
     (if ls = [] then [0x00]
      else
        let groups = foldl add_group [] ls
        in count_bytes groups @ concat (map (\<lambda>(n, c). u32_bytes n @ [c]) groups))"

text \<open>The children of a function that are its instructions.\<close>

definition body_nodes :: "wasm_function \<Rightarrow> wat list" where
  "body_nodes f =
     filter (\<lambda>t. list_head t \<notin> set [''param'', ''result'', ''local'', ''export'', ''type''] \<and>
         \<not> (is_atom t \<and> is_symbol (node_text t)))
       (tl (children (wf_node f)))"

definition encode_function_body :: "wasm_module \<Rightarrow> wasm_function \<Rightarrow> asm_error + bytes" where
  "encode_function_body m f =
     bind_res (function_encoder m f) (\<lambda>e.
     bind_res (encode_sequence encode e (body_nodes f)) (\<lambda>bs.
     Inr (encode_local_groups (wf_locals f) @ bs @ [0x0b])))"

section \<open>The sections\<close>

definition encode_entries :: "('a \<Rightarrow> bytes) \<Rightarrow> 'a list \<Rightarrow> bytes" where
  "encode_entries write xs = (if xs = [] then [] else count_bytes xs @ concat (map write xs))"

definition encode_types :: "wasm_module \<Rightarrow> bytes" where
  "encode_types m =
     encode_entries (\<lambda>ft. 0x60 # name_bytes (ft_params ft) @ name_bytes (ft_results ft)) (wm_types m)"

definition encode_imports :: "wasm_module \<Rightarrow> bytes" where
  "encode_imports m =
     encode_entries (\<lambda>i. name_bytes (raw (im_module i)) @ name_bytes (raw (im_name i)) @ 0x00 # u32_bytes (im_type i))
       (wm_imports m)"

definition encode_function_types :: "wasm_module \<Rightarrow> bytes" where
  "encode_function_types m = encode_entries (\<lambda>f. u32_bytes (wf_type f)) (wm_functions m)"

definition encode_tables :: "wasm_module \<Rightarrow> bytes" where
  "encode_tables m = encode_entries (\<lambda>n. 0x70 # 0x00 # u32_bytes n) (wm_tables m)"

definition encode_memories :: "wasm_module \<Rightarrow> bytes" where
  "encode_memories m = encode_entries (\<lambda>n. 0x00 # u32_bytes n) (wm_memories m)"

definition encode_exports :: "wasm_module \<Rightarrow> bytes" where
  "encode_exports m =
     encode_entries (\<lambda>e. name_bytes (raw (we_name e)) @ we_kind e # u32_bytes (we_index e)) (wm_exports m)"

text \<open>A section whose entries may fail.\<close>

definition encode_entries_res :: "('a \<Rightarrow> asm_error + bytes) \<Rightarrow> 'a list \<Rightarrow> asm_error + bytes" where
  "encode_entries_res write xs =
     (if xs = [] then Inr []
      else bind_res (map_res write xs) (\<lambda>l. Inr (count_bytes xs @ concat l)))"

definition encode_const_expression :: "wat \<Rightarrow> asm_error + bytes" where
  "encode_const_expression t =
     (if \<not> is_wlist t then errorf t ''constant expression must be a list'' []
      else if length (children t) \<noteq> 2 then errorf t ''invalid constant expression'' []
      else bind_res (signed_atom (children t ! 1)) (\<lambda>v.
        if list_head t = ''i32.const'' then Inr (0x41 # i32_bytes (ucast v) @ [0x0b])
        else if list_head t = ''i64.const'' then Inr (0x42 # i64_bytes v @ [0x0b])
        else errorf t ''unsupported constant expression'' []))"

definition encode_globals :: "wasm_module \<Rightarrow> asm_error + bytes" where
  "encode_globals m =
     encode_entries_res (\<lambda>g.
       bind_res (encode_const_expression (wg_init g)) (\<lambda>bs.
       Inr (wg_code g # (if wg_mutable g then 0x01 else 0x00) # bs))) (wm_globals m)"

definition encode_elements :: "wasm_module \<Rightarrow> asm_error + bytes" where
  "encode_elements m =
     encode_entries_res (\<lambda>el.
       bind_res (encode_const_expression (el_offset el)) (\<lambda>bs.
       Inr (0x00 # bs @ count_bytes (el_functions el) @ concat (map u32_bytes (el_functions el))))) (wm_elements m)"

definition encode_code :: "wasm_module \<Rightarrow> asm_error + bytes" where
  "encode_code m =
     encode_entries_res (\<lambda>f. bind_res (encode_function_body m f) (\<lambda>bs. Inr (name_bytes bs))) (wm_functions m)"

definition encode_data :: "wasm_module \<Rightarrow> asm_error + bytes" where
  "encode_data m =
     encode_entries_res (\<lambda>d.
       bind_res (encode_const_expression (wd_offset d)) (\<lambda>bs.
       Inr (0x00 # bs @ name_bytes (raw (wd_bytes d))))) (wm_data m)"

definition module_header :: bytes where
  "module_header = [0x00, 0x61, 0x73, 0x6d, 0x01, 0x00, 0x00, 0x00]"

definition encode_module :: "wasm_module \<Rightarrow> asm_error + bytes" where
  "encode_module m =
     bind_res (encode_globals m) (\<lambda>globals.
     bind_res (encode_elements m) (\<lambda>elements.
     bind_res (encode_code m) (\<lambda>code.
     bind_res (encode_data m) (\<lambda>data.
     Inr (module_header @ section_bytes 1 (encode_types m) @ section_bytes 2 (encode_imports m) @
       section_bytes 3 (encode_function_types m) @ section_bytes 4 (encode_tables m) @
       section_bytes 5 (encode_memories m) @ section_bytes 6 globals @ section_bytes 7 (encode_exports m) @
       section_bytes 9 elements @ section_bytes 10 code @ section_bytes 11 data)))))"

text \<open>From the parsed text to the executable form.\<close>

definition module_binary :: "wat \<Rightarrow> asm_error + bytes" where
  "module_binary root = bind_res (lower_module root) encode_module"

end
