(* ===== verification/Wasm_Roundtrip.thy ===== *)
theory Wasm_Roundtrip
  imports Wasm_Binary
begin

text \<open>
  A reader of whole modules in the binary format, and the proof that it gives back what the
  encoder was given. An image is what a binary says: signatures, imports, indices, constants,
  and for each function the types of its locals and its instructions as trees. The contract of
  one entry of a section is the locale \<open>entry\<close>: what it writes can be read off the front of any
  bytes. Every kind of entry the format has interprets it.
\<close>

section \<open>Reading vectors\<close>

definition read_name :: "bytes \<Rightarrow> (bytes \<times> bytes) option" where
  "read_name bs =
     Option.bind (read_u32 bs) (\<lambda>(n, r).
       if unat n \<le> length r then Some (take (unat n) r, drop (unat n) r) else None)"

fun read_count :: "nat \<Rightarrow> (bytes \<Rightarrow> ('a \<times> bytes) option) \<Rightarrow> bytes \<Rightarrow> ('a list \<times> bytes) option" where
  "read_count 0 rd bs = Some ([], bs)"
| "read_count (Suc n) rd bs =
     Option.bind (rd bs) (\<lambda>(x, r). Option.bind (read_count n rd r) (\<lambda>(xs, r'). Some (x # xs, r')))"

definition read_entries :: "(bytes \<Rightarrow> ('a \<times> bytes) option) \<Rightarrow> bytes \<Rightarrow> ('a list \<times> bytes) option" where
  "read_entries rd bs = Option.bind (read_u32 bs) (\<lambda>(n, r). read_count (unat n) rd r)"

text \<open>A section that is there ends with its last entry.\<close>

definition read_section :: "(bytes \<Rightarrow> ('a \<times> bytes) option) \<Rightarrow> bytes \<Rightarrow> 'a list option" where
  "read_section rd bs =
     (if bs = [] then Some []
      else Option.bind (read_entries rd bs) (\<lambda>(xs, r). if r = [] then Some xs else None))"

lemma count_read: "length xs < 2 ^ 32 \<Longrightarrow> read_u32 (count_bytes xs @ r) = Some (word_of_nat (length xs), r)"
  by (simp add: count_bytes_def)

lemma unat_count: "n < 2 ^ 32 \<Longrightarrow> unat (word_of_nat n :: u32) = n"
  by (simp add: unat_of_nat take_bit_nat_eq_self)

lemma u32_bytes_not_Nil: "u32_bytes v \<noteq> []"
  by (subst u32_bytes.simps) (simp add: Let_def)

lemma name_read: "length bs < 2 ^ 32 \<Longrightarrow> read_name (name_bytes bs @ r) = Some (bs, r)"
  by (simp add: read_name_def name_bytes_def count_read unat_count)

locale entry =
  fixes wr :: "'a \<Rightarrow> bytes" and rd :: "bytes \<Rightarrow> ('a \<times> bytes) option" and sound :: "'a \<Rightarrow> bool"
  assumes reads: "sound x \<Longrightarrow> length (wr x) < 2 ^ 32 \<Longrightarrow> rd (wr x @ r) = Some (x, r)"
    and written: "wr x \<noteq> []"
begin

lemma count_reads:
  "list_all sound xs \<Longrightarrow> length (concat (map wr xs)) < 2 ^ 32 \<Longrightarrow>
    read_count (length xs) rd (concat (map wr xs) @ r) = Some (xs, r)"
  by (induction xs) (simp_all add: reads)

lemma count_short: "length xs \<le> length (concat (map wr xs))"
proof (induction xs)
  case (Cons x xs)
  with written[of x] show ?case by (cases "wr x") auto
qed simp

lemma entries_read:
  assumes "list_all sound xs" "length (concat (map wr xs)) < 2 ^ 32"
  shows "read_entries rd (count_bytes xs @ concat (map wr xs) @ r) = Some (xs, r)"
proof -
  have "length xs < 2 ^ 32" using count_short[of xs] assms(2) by simp
  with count_reads[OF assms] show ?thesis by (simp add: read_entries_def count_read unat_count)
qed

lemma section_reads:
  assumes "list_all sound xs" "length (encode_entries wr xs) < 2 ^ 32"
  shows "read_section rd (encode_entries wr xs) = Some xs"
proof (cases "xs = []")
  case False
  with assms(2) have "length (concat (map wr xs)) < 2 ^ 32" by (simp add: encode_entries_def)
  with entries_read[OF assms(1) this, of "[]"] False show ?thesis
    by (simp add: read_section_def encode_entries_def count_bytes_def u32_bytes_not_Nil)
qed (simp add: read_section_def encode_entries_def)

end

section \<open>The entries of the format\<close>

lemma name_length [simp]: "length (name_bytes bs) = length (count_bytes bs) + length bs"
  by (simp add: name_bytes_def)

interpretation name_entry: entry name_bytes read_name "\<lambda>_. True"
  by unfold_locales (simp_all add: name_read, simp add: name_bytes_def count_bytes_def u32_bytes_not_Nil)

definition write_type :: "func_type \<Rightarrow> bytes" where
  "write_type ft = 0x60 # name_bytes (ft_params ft) @ name_bytes (ft_results ft)"

definition read_type :: "bytes \<Rightarrow> (func_type \<times> bytes) option" where
  "read_type bs =
     (case bs of
        b # r \<Rightarrow>
          if b \<noteq> 0x60 then None
          else Option.bind (read_name r) (\<lambda>(ps, r'). Option.bind (read_name r') (\<lambda>(rs, r'').
            Some (\<lparr>ft_params = ps, ft_results = rs\<rparr>, r'')))
      | [] \<Rightarrow> None)"

interpretation type_entry: entry write_type read_type "\<lambda>_. True"
  by unfold_locales (simp_all add: write_type_def read_type_def name_read)

definition write_import :: "bytes \<times> bytes \<times> u32 \<Rightarrow> bytes" where
  "write_import i = (case i of (m, n, t) \<Rightarrow> name_bytes m @ name_bytes n @ 0x00 # u32_bytes t)"

definition read_import :: "bytes \<Rightarrow> ((bytes \<times> bytes \<times> u32) \<times> bytes) option" where
  "read_import bs =
     Option.bind (read_name bs) (\<lambda>(m, r). Option.bind (read_name r) (\<lambda>(n, r').
       case r' of
         b # r'' \<Rightarrow> if b \<noteq> 0x00 then None else map_option (\<lambda>(t, s). ((m, n, t), s)) (read_u32 r'')
       | [] \<Rightarrow> None))"

interpretation import_entry: entry write_import read_import "\<lambda>_. True"
  by unfold_locales (auto simp: write_import_def read_import_def name_read)

interpretation index_entry: entry u32_bytes read_u32 "\<lambda>_. True"
  by unfold_locales (simp_all add: u32_bytes_not_Nil)

definition write_marked :: "bytes \<Rightarrow> u32 \<Rightarrow> bytes" where
  "write_marked mark n = mark @ u32_bytes n"

definition read_marked :: "bytes \<Rightarrow> bytes \<Rightarrow> (u32 \<times> bytes) option" where
  "read_marked mark bs = Option.bind (cut_prefix bs mark) read_u32"

interpretation marked_entry: entry "write_marked mark" "read_marked mark" "\<lambda>_. True"
  by unfold_locales (simp_all add: write_marked_def read_marked_def u32_bytes_not_Nil)

definition write_export :: "bytes \<times> 8 word \<times> u32 \<Rightarrow> bytes" where
  "write_export e = (case e of (n, k, i) \<Rightarrow> name_bytes n @ k # u32_bytes i)"

definition read_export :: "bytes \<Rightarrow> ((bytes \<times> 8 word \<times> u32) \<times> bytes) option" where
  "read_export bs =
     Option.bind (read_name bs) (\<lambda>(n, r).
       case r of k # r' \<Rightarrow> map_option (\<lambda>(i, s). ((n, k, i), s)) (read_u32 r') | [] \<Rightarrow> None)"

interpretation export_entry: entry write_export read_export "\<lambda>_. True"
  by unfold_locales (auto simp: write_export_def read_export_def name_read)

text \<open>A constant expression is one instruction and the end.\<close>

definition write_const :: "inst \<Rightarrow> bytes" where
  "write_const i = put i @ [0x0b]"

definition read_const :: "bytes \<Rightarrow> (inst \<times> bytes) option" where
  "read_const bs =
     (case read_body (Suc (length bs)) bs of
        Some ([i], e, r) \<Rightarrow> if e = 0x0b then Some (i, r) else None
      | _ \<Rightarrow> None)"

interpretation const_entry: entry write_const read_const proper
proof unfold_locales
  fix i r
  assume "proper i"
  then show "read_const (write_const i @ r) = Some (i, r)"
    using puts_read(1)[of "[i]" "0x0b" "Suc (length (write_const i @ r))" r] by (simp add: read_const_def write_const_def)
qed (simp add: write_const_def)

definition write_global :: "8 word \<times> bool \<times> inst \<Rightarrow> bytes" where
  "write_global g = (case g of (c, mut, i) \<Rightarrow> c # (if mut then 0x01 else 0x00) # write_const i)"

definition read_global :: "bytes \<Rightarrow> ((8 word \<times> bool \<times> inst) \<times> bytes) option" where
  "read_global bs =
     (case bs of
        c # b # r \<Rightarrow>
          if b = 0x00 \<or> b = 0x01 then map_option (\<lambda>(i, s). ((c, b = 0x01, i), s)) (read_const r) else None
      | _ \<Rightarrow> None)"

interpretation global_entry: entry write_global read_global "\<lambda>(c, mut, i). proper i"
  by unfold_locales (auto simp: write_global_def read_global_def const_entry.reads)

definition write_element :: "inst \<times> u32 list \<Rightarrow> bytes" where
  "write_element el = (case el of (i, fs) \<Rightarrow> 0x00 # write_const i @ count_bytes fs @ concat (map u32_bytes fs))"

definition read_element :: "bytes \<Rightarrow> ((inst \<times> u32 list) \<times> bytes) option" where
  "read_element bs =
     (case bs of
        b # r \<Rightarrow>
          if b \<noteq> 0x00 then None
          else Option.bind (read_const r) (\<lambda>(i, r'). map_option (\<lambda>(fs, s). ((i, fs), s)) (read_entries read_u32 r'))
      | [] \<Rightarrow> None)"

interpretation element_entry: entry write_element read_element "\<lambda>(i, fs). proper i"
  by unfold_locales
    (auto simp: write_element_def read_element_def const_entry.reads index_entry.entries_read list_all_iff)

definition write_data :: "inst \<times> bytes \<Rightarrow> bytes" where
  "write_data d = (case d of (i, bs) \<Rightarrow> 0x00 # write_const i @ name_bytes bs)"

definition read_data :: "bytes \<Rightarrow> ((inst \<times> bytes) \<times> bytes) option" where
  "read_data bs =
     (case bs of
        b # r \<Rightarrow>
          if b \<noteq> 0x00 then None
          else Option.bind (read_const r) (\<lambda>(i, r'). map_option (\<lambda>(d, s). ((i, d), s)) (read_name r'))
      | [] \<Rightarrow> None)"

interpretation data_entry: entry write_data read_data "\<lambda>(i, bs). proper i"
  by unfold_locales (auto simp: write_data_def read_data_def const_entry.reads name_read)

subsection \<open>Function bodies\<close>

definition write_group :: "u32 \<times> 8 word \<Rightarrow> bytes" where
  "write_group g = (case g of (n, c) \<Rightarrow> u32_bytes n @ [c])"

definition read_group :: "bytes \<Rightarrow> ((u32 \<times> 8 word) \<times> bytes) option" where
  "read_group bs = Option.bind (read_u32 bs) (\<lambda>(n, r). case r of c # r' \<Rightarrow> Some ((n, c), r') | [] \<Rightarrow> None)"

interpretation group_entry: entry write_group read_group "\<lambda>_. True"
  by unfold_locales (auto simp: write_group_def read_group_def)

definition expand_groups :: "(u32 \<times> 8 word) list \<Rightarrow> bytes" where
  "expand_groups gs = concat (map (\<lambda>(n, c). replicate (unat n) c) gs)"

text \<open>The types of the locals, one for each, and the instructions.\<close>

definition read_function :: "bytes \<Rightarrow> (bytes \<times> inst list) option" where
  "read_function bs =
     Option.bind (read_entries read_group bs) (\<lambda>(gs, r).
       (case read_body (Suc (length r)) r of
          Some (is, e, r') \<Rightarrow> if e = 0x0b \<and> r' = [] then Some (expand_groups gs, is) else None
        | None \<Rightarrow> None))"

lemma expand_add_group:
  assumes "length (expand_groups gs) + 1 < 2 ^ 32"
  shows "expand_groups (add_group gs l) = expand_groups gs @ [nt_code l]"
proof (cases "gs \<noteq> [] \<and> snd (last gs) = nt_code l")
  case True
  then obtain gs' n where gs: "gs = gs' @ [(n, nt_code l)]" by (metis append_butlast_last_id prod.collapse)
  then have "unat n + 1 < 2 ^ 32" using assms by (simp add: expand_groups_def)
  then have "unat (n + 1) = unat n + 1" by (simp add: unat_word_ariths)
  with gs show ?thesis by (simp add: expand_groups_def add_group_def replicate_append_same)
next
  case False
  then show ?thesis by (auto simp: expand_groups_def add_group_def)
qed

lemma groups_expand: "length ls < 2 ^ 32 \<Longrightarrow> expand_groups (foldl add_group [] ls) = map nt_code ls"
proof (induction ls rule: rev_induct)
  case (snoc l ls)
  then show ?case by (simp add: expand_add_group)
qed (simp add: expand_groups_def)

lemma local_groups_written:
  "encode_local_groups ls = count_bytes (foldl add_group [] ls) @ concat (map write_group (foldl add_group [] ls))"
proof -
  have "u32_bytes 0 = [0]" by (subst u32_bytes.simps) simp
  moreover have "write_group = (\<lambda>(n, c). u32_bytes n @ [c])" by (rule ext) (simp add: write_group_def)
  ultimately show ?thesis by (auto simp: encode_local_groups_def count_bytes_def Let_def)
qed

lemma body_reads:
  assumes "length ls < 2 ^ 32" "list_all proper is" "length (encode_local_groups ls) < 2 ^ 32"
  shows "read_function (encode_local_groups ls @ puts is @ [0x0b]) = Some (map nt_code ls, is)"
proof -
  let ?gs = "foldl add_group [] ls"
  have "read_entries read_group (encode_local_groups ls @ puts is @ [0x0b]) = Some (?gs, puts is @ [0x0b])"
    using group_entry.entries_read[of ?gs "puts is @ [0x0b]"] assms(3)
    by (simp add: local_groups_written list_all_iff)
  with puts_read(1)[OF assms(2), of "0x0b" "Suc (length (puts is @ [0x0b]))" "[]"] groups_expand[OF assms(1)] show ?thesis
    by (simp add: read_function_def del: read_body.simps)
qed

section \<open>Sections and modules\<close>

text \<open>Sections stand in ascending order; one unit of fuel for each is enough, and each has a byte.\<close>

fun read_sections :: "nat \<Rightarrow> 8 word \<Rightarrow> bytes \<Rightarrow> ((8 word \<times> bytes) list) option" where
  "read_sections 0 p bs = None"
| "read_sections (Suc f) p bs =
     (case bs of
        [] \<Rightarrow> Some []
      | sid # r \<Rightarrow>
          if sid \<le> p then None
          else Option.bind (read_name r) (\<lambda>(payload, r').
            map_option (\<lambda>ss. (sid, payload) # ss) (read_sections f sid r')))"

record image =
  ig_types :: "func_type list"
  ig_imports :: "(bytes \<times> bytes \<times> u32) list"
  ig_signatures :: "u32 list"
  ig_tables :: "u32 list"
  ig_memories :: "u32 list"
  ig_globals :: "(8 word \<times> bool \<times> inst) list"
  ig_exports :: "(bytes \<times> 8 word \<times> u32) list"
  ig_elements :: "(inst \<times> u32 list) list"
  ig_functions :: "(bytes \<times> inst list) list"
  ig_data :: "(inst \<times> bytes) list"

text \<open>A section that is missing is one without entries.\<close>

definition payload_of :: "(8 word \<times> bytes) list \<Rightarrow> 8 word \<Rightarrow> bytes" where
  "payload_of ss sid = (case map_of ss sid of None \<Rightarrow> [] | Some p \<Rightarrow> p)"

definition read_module :: "bytes \<Rightarrow> image option" where
  "read_module bs =
     Option.bind (cut_prefix bs [0x00, 0x61, 0x73, 0x6d, 0x01, 0x00, 0x00, 0x00]) (\<lambda>r.
     Option.bind (read_sections (Suc (length r)) 0 r) (\<lambda>ss.
     let p = payload_of ss in
     if \<not> set (map fst ss) \<subseteq> {1, 2, 3, 4, 5, 6, 7, 9, 10, 11} then None else
     Option.bind (read_section read_type (p 1)) (\<lambda>types.
     Option.bind (read_section read_import (p 2)) (\<lambda>imports.
     Option.bind (read_section read_u32 (p 3)) (\<lambda>signatures.
     Option.bind (read_section (read_marked [0x70, 0x00]) (p 4)) (\<lambda>tables.
     Option.bind (read_section (read_marked [0x00]) (p 5)) (\<lambda>memories.
     Option.bind (read_section read_global (p 6)) (\<lambda>globals.
     Option.bind (read_section read_export (p 7)) (\<lambda>exports.
     Option.bind (read_section read_element (p 9)) (\<lambda>elements.
     Option.bind (read_section read_name (p 10)) (\<lambda>bodies.
     Option.bind (those (map read_function bodies)) (\<lambda>functions.
     Option.bind (read_section read_data (p 11)) (\<lambda>data.
     Some \<lparr>ig_types = types, ig_imports = imports, ig_signatures = signatures, ig_tables = tables,
       ig_memories = memories, ig_globals = globals, ig_exports = exports, ig_elements = elements,
       ig_functions = functions, ig_data = data\<rparr>)))))))))))))"

definition ascending :: "8 word \<Rightarrow> (8 word \<times> bytes) list \<Rightarrow> bool" where
  "ascending p ss \<longleftrightarrow> sorted_wrt (<) (p # map fst ss)"

definition all_sections :: "(8 word \<times> bytes) list \<Rightarrow> bytes" where
  "all_sections ss = concat (map (\<lambda>(sid, payload). section_bytes sid payload) ss)"

lemma sections_read:
  "ascending p ss \<Longrightarrow> list_all (\<lambda>(_, payload). length payload < 2 ^ 32) ss \<Longrightarrow>
    length (filter (\<lambda>(_, payload). payload \<noteq> []) ss) < f \<Longrightarrow>
    read_sections f p (all_sections ss) = Some (filter (\<lambda>(_, payload). payload \<noteq> []) ss)"
proof (induction ss arbitrary: p f)
  case Nil
  then show ?case by (cases f) (simp_all add: all_sections_def)
next
  case (Cons s ss)
  obtain sid payload where s: "s = (sid, payload)" by (cases s) auto
  show ?case
  proof (cases "payload = []")
    case True
    have "ascending p ss" using Cons.prems(1) by (auto simp: ascending_def)
    with Cons.IH[of p f] Cons.prems True s show ?thesis by (simp add: all_sections_def section_bytes_def)
  next
    case False
    obtain g where f: "f = Suc g" using Cons.prems(3) by (cases f) auto
    have "ascending sid ss" "p < sid" using Cons.prems(1) s by (auto simp: ascending_def)
    with Cons.IH[of sid g] Cons.prems False s f show ?thesis
      by (simp add: all_sections_def section_bytes_def name_read)
  qed
qed

lemma payload_of_filter:
  "distinct (map fst ss) \<Longrightarrow> (sid, payload) \<in> set ss \<Longrightarrow> payload_of (filter (\<lambda>(_, q). q \<noteq> []) ss) sid = payload"
  by (induction ss) (force simp: payload_of_def split: option.split dest: map_of_SomeD)+

lemma sections_few: "length (filter (\<lambda>(_, payload). payload \<noteq> []) ss) \<le> length (all_sections ss)"
proof (induction ss)
  case (Cons s ss)
  then show ?case by (cases s) (auto simp: all_sections_def section_bytes_def)
qed (simp add: all_sections_def)

lemma payloads_short: "length (all_sections ss) < n \<Longrightarrow> list_all (\<lambda>(_, payload). length payload < n) ss"
proof (induction ss)
  case (Cons s ss)
  then show ?case by (cases s) (auto simp: all_sections_def section_bytes_def split: if_splits)
qed simp

section \<open>What a binary says of a module\<close>

definition const_inst :: "wat \<Rightarrow> inst option" where
  "const_inst t =
     Option.bind (result_of (signed_atom (children t ! 1))) (\<lambda>v.
       if list_head t = ''i32.const'' then Some (Const32 (ucast v))
       else if list_head t = ''i64.const'' then Some (Const64 v) else None)"

definition function_matches :: "wasm_module \<Rightarrow> wasm_function \<Rightarrow> bytes \<times> inst list \<Rightarrow> bool" where
  "function_matches m f g \<longleftrightarrow>
     fst g = map nt_code (wf_locals f) \<and>
     (\<exists>e l. function_encoder m f = Inr e \<and> list_all2 (unfolds e) (body_nodes f) l \<and> snd g = concat l)"

definition image_matches :: "wasm_module \<Rightarrow> image \<Rightarrow> bool" where
  "image_matches m ig \<longleftrightarrow>
     ig_types ig = wm_types m \<and>
     ig_imports ig = map (\<lambda>i. (raw (im_module i), raw (im_name i), im_type i)) (wm_imports m) \<and>
     ig_signatures ig = map wf_type (wm_functions m) \<and> ig_tables ig = wm_tables m \<and> ig_memories ig = wm_memories m \<and>
     list_all2 (\<lambda>g (c, mut, i). c = wg_code g \<and> mut = wg_mutable g \<and> const_inst (wg_init g) = Some i)
       (wm_globals m) (ig_globals ig) \<and>
     ig_exports ig = map (\<lambda>e. (raw (we_name e), we_kind e, we_index e)) (wm_exports m) \<and>
     list_all2 (\<lambda>el (i, fs). const_inst (el_offset el) = Some i \<and> fs = el_functions el) (wm_elements m) (ig_elements ig) \<and>
     list_all2 (function_matches m) (wm_functions m) (ig_functions ig) \<and>
     list_all2 (\<lambda>d (i, bs). const_inst (wd_offset d) = Some i \<and> bs = raw (wd_bytes d)) (wm_data m) (ig_data ig)"

lemma const_written:
  assumes "encode_const_expression t = Inr bs"
  shows "\<exists>i. const_inst t = Some i \<and> bs = write_const i \<and> proper i"
proof -
  from assms obtain v where v: "signed_atom (children t ! 1) = Inr v"
      "list_head t = ''i32.const'' \<and> bs = 0x41 # i32_bytes (ucast v) @ [0x0b] \<or>
       list_head t = ''i64.const'' \<and> bs = 0x42 # i64_bytes v @ [0x0b]"
    by (auto simp: encode_const_expression_def errorf_def bind_res_eq_Inr split: if_splits)
  then show ?thesis by (auto simp: const_inst_def write_const_def)
qed

lemma entries_res_written:
  assumes "encode_entries_res w xs = Inr bs"
    and "\<And>x b. x \<in> set xs \<Longrightarrow> w x = Inr b \<Longrightarrow> \<exists>y. rel x y \<and> b = wr y"
  shows "\<exists>ys. list_all2 rel xs ys \<and> bs = encode_entries wr ys"
proof (cases "xs = []")
  case False
  with assms(1) obtain l where l: "map_res w xs = Inr l" "bs = count_bytes xs @ concat l"
    by (auto simp: encode_entries_res_def bind_res_eq_Inr)
  have "\<exists>ys. list_all2 rel xs ys \<and> l = map wr ys"
    using l(1) assms(2)
  proof (induction xs arbitrary: l)
    case (Cons x xs)
    then obtain b l' where b: "w x = Inr b" "map_res w xs = Inr l'" "l = b # l'" by (auto simp: bind_res_eq_Inr)
    obtain y where "rel x y" "b = wr y" using Cons.prems(2)[OF _ b(1)] by auto
    moreover obtain ys where "list_all2 rel xs ys" "l' = map wr ys" using Cons.IH[OF b(2)] Cons.prems(2) by auto
    ultimately show ?case using b(3) by (intro exI[of _ "y # ys"]) simp
  qed simp
  then obtain ys where ys: "list_all2 rel xs ys" "l = map wr ys" by blast
  then have "count_bytes xs = count_bytes ys" "ys \<noteq> []" using False by (auto simp: count_bytes_def list_all2_lengthD)
  with ys l(2) show ?thesis by (auto simp: encode_entries_def)
qed (use assms(1) in \<open>simp add: encode_entries_res_def encode_entries_def\<close>)

lemma list_all2_also: "list_all2 (\<lambda>x y. R x y \<and> Q y) xs ys \<Longrightarrow> list_all2 R xs ys \<and> list_all Q ys"
  by (induction xs ys rule: list_all2_induct) auto

lemma globals_written:
  assumes "encode_globals m = Inr bs"
  obtains gs where "bs = encode_entries write_global gs" "list_all (\<lambda>(c, mut, i). proper i) gs"
    "list_all2 (\<lambda>g (c, mut, i). c = wg_code g \<and> mut = wg_mutable g \<and> const_inst (wg_init g) = Some i) (wm_globals m) gs"
proof -
  let ?R = "\<lambda>g y. case y of (c, mut, i) \<Rightarrow> c = wg_code g \<and> mut = wg_mutable g \<and> const_inst (wg_init g) = Some i"
  let ?Q = "\<lambda>y. case y of (c, mut, i) \<Rightarrow> proper i"
  have "\<exists>gs. list_all2 (\<lambda>x y. ?R x y \<and> ?Q y) (wm_globals m) gs \<and> bs = encode_entries write_global gs"
    by (rule entries_res_written[OF assms[unfolded encode_globals_def]])
      (auto simp: bind_res_eq_Inr write_global_def dest!: const_written)
  then obtain gs where both: "list_all2 (\<lambda>x y. ?R x y \<and> ?Q y) (wm_globals m) gs" "bs = encode_entries write_global gs" by (elim exE conjE)
  note parts = list_all2_also[OF both(1)]
  show thesis by (rule that[OF both(2) conjunct2[OF parts] conjunct1[OF parts]])
qed

lemma elements_written:
  assumes "encode_elements m = Inr bs"
  obtains es where "bs = encode_entries write_element es" "list_all (\<lambda>(i, fs). proper i) es"
    "list_all2 (\<lambda>el (i, fs). const_inst (el_offset el) = Some i \<and> fs = el_functions el) (wm_elements m) es"
proof -
  let ?R = "\<lambda>el y. case y of (i, fs) \<Rightarrow> const_inst (el_offset el) = Some i \<and> fs = el_functions el"
  let ?Q = "\<lambda>y. case y of (i, fs) \<Rightarrow> proper i"
  have "\<exists>es. list_all2 (\<lambda>x y. ?R x y \<and> ?Q y) (wm_elements m) es \<and> bs = encode_entries write_element es"
    by (rule entries_res_written[OF assms[unfolded encode_elements_def]])
      (auto simp: bind_res_eq_Inr write_element_def dest!: const_written)
  then obtain es where both: "list_all2 (\<lambda>x y. ?R x y \<and> ?Q y) (wm_elements m) es" "bs = encode_entries write_element es" by (elim exE conjE)
  note parts = list_all2_also[OF both(1)]
  show thesis by (rule that[OF both(2) conjunct2[OF parts] conjunct1[OF parts]])
qed

lemma data_written:
  assumes "encode_data m = Inr bs"
  obtains ds where "bs = encode_entries write_data ds" "list_all (\<lambda>(i, ds). proper i) ds"
    "list_all2 (\<lambda>d (i, bs). const_inst (wd_offset d) = Some i \<and> bs = raw (wd_bytes d)) (wm_data m) ds"
proof -
  let ?R = "\<lambda>d y. case y of (i, bs) \<Rightarrow> const_inst (wd_offset d) = Some i \<and> bs = raw (wd_bytes d)"
  let ?Q = "\<lambda>y. case y of (i, bs) \<Rightarrow> proper i"
  have "\<exists>ds. list_all2 (\<lambda>x y. ?R x y \<and> ?Q y) (wm_data m) ds \<and> bs = encode_entries write_data ds"
    by (rule entries_res_written[OF assms[unfolded encode_data_def]])
      (auto simp: bind_res_eq_Inr write_data_def dest!: const_written)
  then obtain ds where both: "list_all2 (\<lambda>x y. ?R x y \<and> ?Q y) (wm_data m) ds" "bs = encode_entries write_data ds" by (elim exE conjE)
  note parts = list_all2_also[OF both(1)]
  show thesis by (rule that[OF both(2) conjunct2[OF parts] conjunct1[OF parts]])
qed

lemma function_body_reads:
  assumes "encode_function_body m f = Inr bs" "length (wf_locals f) < 2 ^ 32" "length bs < 2 ^ 32"
  shows "\<exists>g. read_function bs = Some g \<and> function_matches m f g"
proof -
  from assms(1) obtain e b where e: "function_encoder m f = Inr e" "encode_sequence encode e (body_nodes f) = Inr b"
      "bs = encode_local_groups (wf_locals f) @ b @ [0x0b]"
    by (auto simp: encode_function_body_def bind_res_eq_Inr)
  from sequence_produces[OF e(2) encode_produces] obtain l where
    l: "list_all2 (unfolds e) (body_nodes f) l" "b = puts (concat l)" "list_all proper (concat l)" by blast
  have "read_function bs = Some (map nt_code (wf_locals f), concat l)"
    using body_reads[OF assms(2) l(3)] assms(3) e(3) l(2) by simp
  with e(1) l(1) show ?thesis by (auto simp: function_matches_def)
qed

lemma code_written:
  assumes "encode_code m = Inr bs" "\<forall>f\<in>set (wm_functions m). length (wf_locals f) < 2 ^ 32" "length bs < 2 ^ 32"
  obtains bodies gs where "bs = encode_entries name_bytes bodies" "those (map read_function bodies) = Some gs"
    "list_all2 (function_matches m) (wm_functions m) gs"
proof -
  have "\<exists>bodies. list_all2 (\<lambda>f b. encode_function_body m f = Inr b) (wm_functions m) bodies \<and> bs = encode_entries name_bytes bodies"
    by (rule entries_res_written[OF assms(1)[unfolded encode_code_def]]) (auto simp: bind_res_eq_Inr)
  then obtain bodies where b: "list_all2 (\<lambda>f b. encode_function_body m f = Inr b) (wm_functions m) bodies"
    "bs = encode_entries name_bytes bodies" by blast
  have "length (concat (map name_bytes bodies)) < 2 ^ 32" using assms(3) b(2) by (auto simp: encode_entries_def split: if_splits)
  then have short: "\<forall>x\<in>set bodies. length x < 2 ^ 32"
    by (induction bodies) auto
  have "\<exists>gs. those (map read_function bodies) = Some gs \<and> list_all2 (function_matches m) (wm_functions m) gs"
    using b(1) assms(2) short
  proof (induction rule: list_all2_induct)
    case (Cons f fs b bs)
    with function_body_reads[of m f b] show ?case by fastforce
  qed simp
  with b(2) that show thesis by blast
qed

definition payloads :: "wasm_module \<Rightarrow> bytes \<Rightarrow> bytes \<Rightarrow> bytes \<Rightarrow> bytes \<Rightarrow> (8 word \<times> bytes) list" where
  "payloads m globals elements code data =
     [(1, encode_types m), (2, encode_imports m), (3, encode_function_types m), (4, encode_tables m),
      (5, encode_memories m), (6, globals), (7, encode_exports m), (9, elements), (10, code), (11, data)]"

lemma module_sections:
  assumes "encode_module m = Inr bs"
  obtains globals elements code data where "encode_globals m = Inr globals" "encode_elements m = Inr elements"
    "encode_code m = Inr code" "encode_data m = Inr data"
    "bs = module_header @ all_sections (payloads m globals elements code data)"
proof -
  from assms obtain globals elements code data where e: "encode_globals m = Inr globals" "encode_elements m = Inr elements"
    "encode_code m = Inr code" "encode_data m = Inr data"
    "bs = module_header @ all_sections (payloads m globals elements code data)"
    unfolding encode_module_def bind_res_eq_Inr by (auto simp: all_sections_def payloads_def)
  then show thesis by (rule that)
qed

lemma payloads_read:
  assumes "length (all_sections (payloads m globals elements code data)) < 2 ^ 32"
  obtains ss where
    "read_sections (Suc (length (all_sections (payloads m globals elements code data)))) 0
       (all_sections (payloads m globals elements code data)) = Some ss"
    "set (map fst ss) \<subseteq> {1, 2, 3, 4, 5, 6, 7, 9, 10, 11}"
    "\<And>sid p. (sid, p) \<in> set (payloads m globals elements code data) \<Longrightarrow> payload_of ss sid = p \<and> length p < 2 ^ 32"
proof -
  let ?ps = "payloads m globals elements code data"
  have order: "ascending 0 ?ps" "distinct (map fst ?ps)" by (simp_all add: ascending_def payloads_def)
  have sub: "set (map fst (filter (\<lambda>(_, p). p \<noteq> []) ?ps)) \<subseteq> set (map fst ?ps)" by auto
  also have "set (map fst ?ps) = {1, 2, 3, 4, 5, 6, 7, 9, 10, 11}" by (simp add: payloads_def)
  finally have ids: "set (map fst (filter (\<lambda>(_, p). p \<noteq> []) ?ps)) \<subseteq> {1, 2, 3, 4, 5, 6, 7, 9, 10, 11}" .
  note short = payloads_short[OF assms]
  show thesis
    by (rule that[OF sections_read[OF order(1) short le_imp_less_Suc[OF sections_few]] ids])
      (use payload_of_filter[OF order(2)] short in \<open>auto simp: list_all_iff\<close>)
qed

lemma entries_map: "encode_entries (\<lambda>x. w (f x)) xs = encode_entries w (map f xs)"
  by (simp add: encode_entries_def count_bytes_def comp_def)

lemma plain_sections:
  "encode_types m = encode_entries write_type (wm_types m)"
  "encode_imports m = encode_entries write_import (map (\<lambda>i. (raw (im_module i), raw (im_name i), im_type i)) (wm_imports m))"
  "encode_function_types m = encode_entries u32_bytes (map wf_type (wm_functions m))"
  "encode_tables m = encode_entries (write_marked [0x70, 0x00]) (wm_tables m)"
  "encode_memories m = encode_entries (write_marked [0x00]) (wm_memories m)"
  "encode_exports m = encode_entries write_export (map (\<lambda>e. (raw (we_name e), we_kind e, we_index e)) (wm_exports m))"
  by (simp_all add: entries_map[symmetric] encode_types_def encode_imports_def encode_function_types_def encode_tables_def
    encode_memories_def encode_exports_def write_type_def[abs_def] write_import_def[abs_def] write_marked_def[abs_def]
    write_export_def[abs_def])

lemma all_case: "list_all (\<lambda>(a, b, c). True) xs" "list_all (\<lambda>_. True) ys"
  by (simp_all add: list_all_iff)

text \<open>
  C21: The binary says what the module says. Of every module the encoder accepts, up to the size
  the format can count, a reader of the binary format finds the same signatures, imports,
  tables, memories, globals, exports and segments, and for each function the type of every local
  and, instruction by instruction, what its text unfolds to with the names of the module and the
  function resolved.
\<close>
theorem module_reads:
  assumes "encode_module m = Inr bs" and short: "length bs < 2 ^ 32"
    and locals: "\<forall>f\<in>set (wm_functions m). length (wf_locals f) < 2 ^ 32"
  shows "\<exists>ig. read_module bs = Some ig \<and> image_matches m ig"
proof -
  obtain globals elements code data where enc: "encode_globals m = Inr globals" "encode_elements m = Inr elements"
    "encode_code m = Inr code" "encode_data m = Inr data"
    and bs: "bs = module_header @ all_sections (payloads m globals elements code data)" (is "_ = _ @ all_sections ?ps")
    by (rule module_sections[OF assms(1)])
  have "length (all_sections ?ps) < 2 ^ 32" using short bs by simp
  from payloads_read[OF this] obtain ss where ss: "read_sections (Suc (length (all_sections ?ps))) 0 (all_sections ?ps) = Some ss"
    "set (map fst ss) \<subseteq> {1, 2, 3, 4, 5, 6, 7, 9, 10, 11}"
    and p: "\<And>sid p. (sid, p) \<in> set ?ps \<Longrightarrow> payload_of ss sid = p \<and> length p < 2 ^ 32" by metis
  note at = p[unfolded payloads_def list.set insert_iff]
  obtain gs where g: "globals = encode_entries write_global gs" "list_all (\<lambda>(c, mut, i). proper i) gs"
    "list_all2 (\<lambda>g (c, mut, i). c = wg_code g \<and> mut = wg_mutable g \<and> const_inst (wg_init g) = Some i) (wm_globals m) gs"
    by (rule globals_written[OF enc(1)])
  obtain es where e: "elements = encode_entries write_element es" "list_all (\<lambda>(i, fs). proper i) es"
    "list_all2 (\<lambda>el (i, fs). const_inst (el_offset el) = Some i \<and> fs = el_functions el) (wm_elements m) es"
    by (rule elements_written[OF enc(2)])
  obtain ds where d: "data = encode_entries write_data ds" "list_all (\<lambda>(i, ds). proper i) ds"
    "list_all2 (\<lambda>d (i, bs). const_inst (wd_offset d) = Some i \<and> bs = raw (wd_bytes d)) (wm_data m) ds"
    by (rule data_written[OF enc(4)])
  have "length code < 2 ^ 32" using at[of 10 code] by simp
  then obtain bodies fs where c: "code = encode_entries name_bytes bodies" "those (map read_function bodies) = Some fs"
    "list_all2 (function_matches m) (wm_functions m) fs"
    by (rule code_written[OF enc(3) locals])
  have sections: "read_section read_type (payload_of ss 1) = Some (wm_types m)"
    "read_section read_import (payload_of ss 2) = Some (map (\<lambda>i. (raw (im_module i), raw (im_name i), im_type i)) (wm_imports m))"
    "read_section read_u32 (payload_of ss 3) = Some (map wf_type (wm_functions m))"
    "read_section (read_marked [0x70, 0x00]) (payload_of ss 4) = Some (wm_tables m)"
    "read_section (read_marked [0x00]) (payload_of ss 5) = Some (wm_memories m)"
    "read_section read_export (payload_of ss 7) = Some (map (\<lambda>e. (raw (we_name e), we_kind e, we_index e)) (wm_exports m))"
    using at[of 1 "encode_types m"] at[of 2 "encode_imports m"] at[of 3 "encode_function_types m"] at[of 4 "encode_tables m"]
      at[of 5 "encode_memories m"] at[of 7 "encode_exports m"]
    by (simp_all add: plain_sections type_entry.section_reads import_entry.section_reads index_entry.section_reads
      marked_entry.section_reads export_entry.section_reads all_case)
  have segments: "read_section read_global (payload_of ss 6) = Some gs" "read_section read_element (payload_of ss 9) = Some es"
    "read_section read_name (payload_of ss 10) = Some bodies" "read_section read_data (payload_of ss 11) = Some ds"
    using at[of 6 globals] at[of 9 elements] at[of 10 code] at[of 11 data] g e c d
    by (simp_all add: global_entry.section_reads element_entry.section_reads name_entry.section_reads
      data_entry.section_reads all_case)
  have "read_module bs = Some \<lparr>ig_types = wm_types m,
      ig_imports = map (\<lambda>i. (raw (im_module i), raw (im_name i), im_type i)) (wm_imports m),
      ig_signatures = map wf_type (wm_functions m), ig_tables = wm_tables m, ig_memories = wm_memories m, ig_globals = gs,
      ig_exports = map (\<lambda>e. (raw (we_name e), we_kind e, we_index e)) (wm_exports m), ig_elements = es,
      ig_functions = fs, ig_data = ds\<rparr>"
    by (simp only: read_module_def bs module_header_def cut_prefix_append Option.bind.bind_lunit ss(1) Let_def ss(2) not_True_eq_False if_False
      sections segments c(2))
  with g(3) e(3) c(3) d(3) show ?thesis by (simp add: image_matches_def)
qed

definition module_example :: wat where
  "module_example = node ''module''
     [node ''type'' [atom ''$pick'', node ''func'' [node ''param'' [atom ''i64''], node ''result'' [atom ''i64'']]],
      node ''import'' [WString 0 ''env'', WString 0 ''log'', node ''func'' [atom ''$log'', node ''param'' [atom ''i64'']]],
      node ''func'' [atom ''$main'', node ''export'' [WString 0 ''main''], node ''param'' [atom ''$x'', atom ''i64''],
        node ''result'' [atom ''i64''], node ''local'' [atom ''$y'', atom ''i64''],
        node ''block'' [atom ''$done'',
          node ''br_if'' [atom ''$done'', node ''i64.eqz'' [node ''local.get'' [atom ''$x'']]],
          node ''call'' [atom ''$log'', node ''local.get'' [atom ''$x'']]],
        sub_example]]"

theorem module_reads_witness:
  "\<exists>m bs ig. lower_module module_example = Inr m \<and> encode_module m = Inr bs \<and>
    read_module bs = Some ig \<and> image_matches m ig \<and> length (ig_functions ig) = 1"
proof -
  have "case lower_module module_example of Inl _ \<Rightarrow> False
    | Inr m \<Rightarrow> (case encode_module m of Inl _ \<Rightarrow> False
      | Inr bs \<Rightarrow> length bs < 256 \<and> list_all (\<lambda>f. length (wf_locals f) < 2) (wm_functions m) \<and> length (wm_functions m) = 1)"
    by code_simp
  then obtain m bs where m: "lower_module module_example = Inr m" "encode_module m = Inr bs" "length bs < 256"
    "\<forall>f\<in>set (wm_functions m). length (wf_locals f) < 2" "length (wm_functions m) = 1"
    by (auto simp: list_all_iff split: sum.splits)
  have "\<forall>f\<in>set (wm_functions m). length (wf_locals f) < 2 ^ 32" using m(4) by (auto intro: less_trans)
  with module_reads[OF m(2)] m(3) obtain ig where ig: "read_module bs = Some ig" "image_matches m ig" by auto
  then have "list_all2 (function_matches m) (wm_functions m) (ig_functions ig)" by (simp add: image_matches_def)
  with m(1,2,5) ig show ?thesis by (metis list_all2_lengthD)
qed

end
