(* ===== verification/Wasm_Spaces.thy ===== *)
theory Wasm_Spaces
  imports Wasm_Roundtrip
begin

text \<open>
  The index spaces lowerBinaryModule builds: names stand for consecutive numbers, imported
  functions before defined ones, in the order of the declarations; a signature keeps the number
  it got. The same for the locals of a function and the labels of the open blocks.
\<close>

section \<open>Numbered names\<close>

definition numbered :: "string list \<Rightarrow> (string \<rightharpoonup> u32) \<Rightarrow> bool" where
  "numbered ns f \<longleftrightarrow> distinct ns \<and> f = map_of (zip ns (map word_of_nat [0..<length ns]))"

lemma numbered_Nil: "numbered [] Map.empty"
  by (simp add: numbered_def)

lemma numbered_dom: "numbered ns f \<Longrightarrow> dom f = set ns"
  by (auto simp: numbered_def)

lemma map_of_snoc: "map_of l n = None \<Longrightarrow> map_of (l @ [(n, v)]) = (map_of l)(n \<mapsto> v)"
  by (rule ext) (auto simp: map_add_def split: option.split)

lemma numbered_snoc:
  assumes "numbered ns f" "f n = None"
  shows "numbered (ns @ [n]) (f(n \<mapsto> word_of_nat (length ns)))"
proof -
  have "n \<notin> set ns" using numbered_dom[OF assms(1)] assms(2) by auto
  with assms map_of_snoc[of "zip ns (map word_of_nat [0..<length ns])" n "word_of_nat (length ns) :: u32"] show ?thesis
    by (simp add: numbered_def del: map_of_append)
qed

lemma numbered_nth: "numbered ns f \<Longrightarrow> i < length ns \<Longrightarrow> f (ns ! i) = Some (word_of_nat i)"
  by (simp add: numbered_def map_of_zip_nth)

section \<open>Signatures\<close>

definition type_at :: "func_type list \<Rightarrow> u32 \<Rightarrow> func_type \<Rightarrow> bool" where
  "type_at types w ft \<longleftrightarrow> (\<exists>i < length types. w = word_of_nat i \<and> types ! i = ft)"

lemma type_position_Some: "type_position ft types = Some i \<Longrightarrow> i < length types \<and> types ! i = ft"
  by (induction types arbitrary: i) (auto split: if_splits)

lemma type_position_None: "type_position ft types = None \<longleftrightarrow> ft \<notin> set types"
  by (induction types) auto

lemma intern_type_at:
  assumes "intern_type ft types = (w, types')"
  shows "type_at types' w ft" "\<exists>added. types' = types @ added" "distinct types \<Longrightarrow> distinct types'"
  using assms type_position_Some[of ft types] type_position_None[of ft types]
  by (auto simp: intern_type_def type_at_def split: option.splits)

lemma type_at_more: "type_at types w ft \<Longrightarrow> type_at (types @ added) w ft"
  unfolding type_at_def by (metis length_append nth_append trans_less_add1)

section \<open>The passes\<close>

definition declared_name :: "wat \<Rightarrow> string" where
  "declared_name t = node_text (children t ! 1)"

definition import_symbol :: "wat \<Rightarrow> string" where
  "import_symbol t = node_text (children (children t ! 3) ! 1)"

definition type_ok :: "wat \<Rightarrow> func_type \<Rightarrow> bool" where
  "type_ok t ft \<longleftrightarrow> (\<exists>ps ls. parse_function_type (children t ! 2) = Inr (ft, ps, ls))"

definition import_ok :: "func_type list \<Rightarrow> wat \<Rightarrow> wasm_import \<Rightarrow> bool" where
  "import_ok types t i \<longleftrightarrow>
     string_bytes (children t ! 1) = Inr (im_module i) \<and> string_bytes (children t ! 2) = Inr (im_name i) \<and>
     (\<exists>ft ps ls. parse_function_type (children t ! 3) = Inr (ft, ps, ls) \<and> type_at types (im_type i) ft)"

definition function_ok :: "func_type list \<Rightarrow> wat \<Rightarrow> wasm_function \<Rightarrow> bool" where
  "function_ok types t f \<longleftrightarrow>
     wf_node f = t \<and> wf_name f = declared_name t \<and>
     (\<exists>ft. parse_function_type t = Inr (ft, wf_params f, wf_locals f) \<and> type_at types (wf_type f) ft)"

text \<open>What holds once the declarations \<open>ts\<close> of types, \<open>is\<close> of imports and \<open>fs\<close> of functions are in.\<close>

definition spaces :: "wat list \<Rightarrow> wat list \<Rightarrow> wat list \<Rightarrow> wasm_module \<Rightarrow> bool" where
  "spaces ts is fs m \<longleftrightarrow>
     numbered (map declared_name ts) (wm_type_names m) \<and>
     list_all2 type_ok ts (take (length ts) (wm_types m)) \<and>
     numbered (map import_symbol is @ map declared_name fs) (wm_function_names m) \<and>
     list_all2 (import_ok (wm_types m)) is (wm_imports m) \<and>
     list_all2 (function_ok (wm_types m)) fs (wm_functions m)"

lemma spaces_empty: "spaces [] [] [] empty_module"
  by (simp add: spaces_def empty_module_def numbered_Nil)

lemma import_ok_more: "import_ok types t i \<Longrightarrow> import_ok (types @ added) t i"
  unfolding import_ok_def by (blast intro: type_at_more)

lemma function_ok_more: "function_ok types t f \<Longrightarrow> function_ok (types @ added) t f"
  unfolding function_ok_def by (blast intro: type_at_more)

lemma spaces_more:
  assumes "spaces ts is fs m"
  shows "spaces ts is fs (m\<lparr>wm_types := wm_types m @ added\<rparr>)"
proof -
  have "length ts \<le> length (wm_types m)" using assms by (auto simp: spaces_def dest: list_all2_lengthD)
  with assms show ?thesis
    by (auto simp: spaces_def intro: list_all2_mono[OF _ import_ok_more] list_all2_mono[OF _ function_ok_more])
qed

lemma type_pass:
  assumes "add_type_declaration m t = Inr m'" "spaces ts [] [] m" "length (wm_types m) = length ts"
  shows "spaces (ts @ [t]) [] [] m' \<and> length (wm_types m') = length (ts @ [t])"
proof -
  from assms(1) obtain h n f ft ps ls where t: "children t = [h, n, f]" "wm_type_names m (node_text n) = None"
    "parse_function_type f = Inr (ft, ps, ls)"
    "m' = m\<lparr>wm_type_names := (wm_type_names m)(node_text n \<mapsto> word_of_nat (length (wm_types m))), wm_types := wm_types m @ [ft]\<rparr>"
    by (auto simp: add_type_declaration_def errorf_def bind_res_eq_Inr split: list.splits if_splits)
  have "numbered (map declared_name ts @ [node_text n]) ((wm_type_names m)(node_text n \<mapsto> word_of_nat (length (map declared_name ts))))"
    using assms(2) t(2) by (intro numbered_snoc) (simp_all add: spaces_def)
  with assms(2,3) t show ?thesis
    by (auto simp: spaces_def declared_name_def type_ok_def list_all2_append intro!: list_all2_appendI)
qed

lemma add_import_cases:
  assumes "add_import m t = Inr m'"
  obtains h a b f mn fn ft ps ls g n r w types where "children t = [h, a, b, f]" "string_bytes a = Inr mn"
    "string_bytes b = Inr fn" "parse_function_type f = Inr (ft, ps, ls)" "children f = g # n # r"
    "wm_function_names m (node_text n) = None" "intern_type ft (wm_types m) = (w, types)"
    "m' = m\<lparr>wm_types := types, wm_function_names := (wm_function_names m)(node_text n \<mapsto> word_of_nat (length (wm_imports m))),
       wm_imports := wm_imports m @ [\<lparr>im_module = mn, im_name = fn, im_type = w\<rparr>]\<rparr>"
proof -
  from assms obtain h a b f where c: "children t = [h, a, b, f]"
    by (auto simp: add_import_def errorf_def split: list.splits)
  with assms obtain mn fn ft ps ls where parsed: "string_bytes a = Inr mn" "string_bytes b = Inr fn"
    "parse_function_type f = Inr (ft, ps, ls)"
    by (auto simp: add_import_def errorf_def bind_res_eq_Inr lift_string_def split: if_splits sum.splits)
  obtain w types where w0: "intern_type ft (wm_types m) = (w, types)" by (cases "intern_type ft (wm_types m)")
  from assms c parsed w0 obtain g n r where "children f = g # n # r" "wm_function_names m (node_text n) = None"
    "m' = m\<lparr>wm_types := types, wm_function_names := (wm_function_names m)(node_text n \<mapsto> word_of_nat (length (wm_imports m))),
       wm_imports := wm_imports m @ [\<lparr>im_module = mn, im_name = fn, im_type = w\<rparr>]\<rparr>"
    by (auto simp: add_import_def errorf_def lift_string_def split: if_splits list.splits)
  note t = this
  show thesis by (rule that[OF c parsed t(1,2) w0 t(3)])
qed

lemma import_pass:
  assumes "add_import m t = Inr m'" "spaces ts is [] m"
  shows "spaces ts (is @ [t]) [] m'"
proof -
  from assms(1) obtain h a b f mn fn ft ps ls g n r w types where t: "children t = [h, a, b, f]" "string_bytes a = Inr mn"
    "string_bytes b = Inr fn" "parse_function_type f = Inr (ft, ps, ls)" "children f = g # n # r"
    "wm_function_names m (node_text n) = None" "intern_type ft (wm_types m) = (w, types)"
    "m' = m\<lparr>wm_types := types, wm_function_names := (wm_function_names m)(node_text n \<mapsto> word_of_nat (length (wm_imports m))),
       wm_imports := wm_imports m @ [\<lparr>im_module = mn, im_name = fn, im_type = w\<rparr>]\<rparr>"
    by (rule add_import_cases)
  from intern_type_at(1,2)[OF t(7)] obtain added where w: "type_at types w ft" "types = wm_types m @ added" by blast
  have len: "length (wm_imports m) = length is" using assms(2) by (auto simp: spaces_def dest: list_all2_lengthD)
  have "numbered (map import_symbol is @ [node_text n]) ((wm_function_names m)(node_text n \<mapsto> word_of_nat (length (map import_symbol is))))"
    using assms(2) t(6) by (intro numbered_snoc) (simp_all add: spaces_def)
  with spaces_more[OF assms(2), of added] t w len show ?thesis
    by (auto simp: spaces_def import_symbol_def import_ok_def intro!: list_all2_appendI)
qed

lemma function_pass:
  assumes "add_function m t = Inr m'" "spaces ts is fs m"
  shows "spaces ts is (fs @ [t]) m'"
proof -
  from assms(1) obtain h n r where c: "children t = h # n # r"
    by (auto simp: add_function_def errorf_def split: list.splits)
  with assms(1) obtain ft ps ls where parsed: "parse_function_type t = Inr (ft, ps, ls)" "wm_function_names m (node_text n) = None"
    by (auto simp: add_function_def errorf_def bind_res_eq_Inr split: if_splits)
  obtain w types where w0: "intern_type ft (wm_types m) = (w, types)" by (cases "intern_type ft (wm_types m)")
  from assms(1) c parsed w0 have
    "m' = m\<lparr>wm_types := types,
       wm_function_names := (wm_function_names m)(node_text n \<mapsto> word_of_nat (length (wm_imports m) + length (wm_functions m))),
       wm_functions := wm_functions m @ [\<lparr>wf_node = t, wf_name = node_text n, wf_type = w, wf_params = ps, wf_locals = ls\<rparr>]\<rparr>"
    by (simp add: add_function_def errorf_def split: if_splits)
  note t = c parsed w0 this
  from intern_type_at(1,2)[OF t(4)] obtain added where w: "type_at types w ft" "types = wm_types m @ added" by blast
  have len: "length (wm_imports m) = length is" "length (wm_functions m) = length fs"
    using assms(2) by (auto simp: spaces_def dest: list_all2_lengthD)
  let ?ns = "map import_symbol is @ map declared_name fs"
  have "numbered (?ns @ [node_text n]) ((wm_function_names m)(node_text n \<mapsto> word_of_nat (length ?ns)))"
    using assms(2) t(3) by (intro numbered_snoc) (simp_all add: spaces_def)
  with spaces_more[OF assms(2), of added] t w len show ?thesis
    by (auto simp: spaces_def declared_name_def function_ok_def intro!: list_all2_appendI)
qed

lemma add_all_filter: "add_all add h m ts = fold_res add m (filter (\<lambda>t. list_head t = h) ts)"
  unfolding add_all_def by (induction ts arbitrary: m) auto

text \<open>The last pass leaves the types and the functions alone and numbers the globals.\<close>

definition global_spaces :: "wat list \<Rightarrow> wasm_module \<Rightarrow> bool" where
  "global_spaces gs m \<longleftrightarrow> map wg_name (wm_globals m) = map declared_name gs \<and> numbered (map declared_name gs) (wm_global_names m)"

abbreviation same_core :: "wasm_module \<Rightarrow> wasm_module \<Rightarrow> bool" where
  "same_core m m' \<equiv> wm_types m' = wm_types m \<and> wm_type_names m' = wm_type_names m \<and> wm_imports m' = wm_imports m \<and>
     wm_functions m' = wm_functions m \<and> wm_function_names m' = wm_function_names m"

abbreviation same_globals :: "wasm_module \<Rightarrow> wasm_module \<Rightarrow> bool" where
  "same_globals m m' \<equiv> wm_globals m' = wm_globals m \<and> wm_global_names m' = wm_global_names m"

abbreviation unchanged :: "wasm_module \<Rightarrow> wasm_module \<Rightarrow> bool" where
  "unchanged m m' \<equiv> same_core m m' \<and> same_globals m m'"

lemma export_field_unchanged: "export_field v m t = Inr m' \<Longrightarrow> unchanged m m'"
  by (auto simp: export_field_def bind_res_eq_Inr split: if_splits)

lemma memory_field_unchanged: "memory_field acc t = Inr acc' \<Longrightarrow> unchanged (fst acc) (fst acc')"
  by (auto simp: memory_field_def errorf_def bind_res_eq_Inr split: if_splits prod.splits)

lemma exports_unchanged: "fold_res (export_field v) m ts = Inr m' \<Longrightarrow> unchanged m m'"
  by (erule fold_res_invariant[where P = "unchanged m"]) (auto dest!: export_field_unchanged)

lemma memory_unchanged: "fold_res memory_field (m, n) ts = Inr (m', n') \<Longrightarrow> unchanged m m'"
  by (drule fold_res_invariant[where P = "\<lambda>acc. unchanged m (fst acc)"]) (auto dest!: memory_field_unchanged)

lemma add_global_pass:
  assumes "add_global m t = Inr m'" "global_spaces gs m"
  shows "global_spaces (gs @ [t]) m' \<and> same_core m m'"
proof -
  from assms(1) obtain h n ty e c mut where t: "children t = [h, n, ty, e]" "wm_global_names m (node_text n) = None"
    "m' = m\<lparr>wm_global_names := (wm_global_names m)(node_text n \<mapsto> word_of_nat (length (wm_globals m))),
       wm_globals := wm_globals m @ [\<lparr>wg_name = node_text n, wg_code = c, wg_mutable = mut, wg_init = e\<rparr>]\<rparr>"
    by (auto simp: add_global_def errorf_def bind_res_eq_Inr Let_def split: list.splits if_splits)
  have "length (wm_globals m) = length gs" using assms(2) by (metis global_spaces_def length_map)
  with t assms(2) numbered_snoc[of "map declared_name gs" "wm_global_names m" "node_text n"] show ?thesis
    by (simp add: global_spaces_def declared_name_def)
qed

lemma handlers_unchanged:
  "add_function_exports m t = Inr m' \<Longrightarrow> unchanged m m'"
  "add_table m t = Inr m' \<Longrightarrow> unchanged m m'"
  "add_memory m t = Inr m' \<Longrightarrow> unchanged m m'"
  "add_export m t = Inr m' \<Longrightarrow> unchanged m m'"
  "add_element m t = Inr m' \<Longrightarrow> unchanged m m'"
  "add_data m t = Inr m' \<Longrightarrow> unchanged m m'"
proof -
  show "add_function_exports m t = Inr m' \<Longrightarrow> unchanged m m'"
    using exports_unchanged by (fastforce simp: add_function_exports_def errorf_def bind_res_eq_Inr split: list.splits)
  show "add_table m t = Inr m' \<Longrightarrow> unchanged m m'"
    by (auto simp: add_table_def errorf_def bind_res_eq_Inr split: list.split_asm if_split_asm)
  show "add_memory m t = Inr m' \<Longrightarrow> unchanged m m'"
    by (auto simp: add_memory_def errorf_def bind_res_eq_Inr dest!: memory_unchanged split: option.splits)
  show "unchanged m m'" if e: "add_export m t = Inr m'"
  proof -
    from e obtain h s ref where c: "children t = [h, s, ref]" by (auto simp: add_export_def errorf_def split: list.split_asm)
    with e obtain nm where n: "lift_string (string_bytes s) = Inr nm" "is_wstring s" "is_wlist ref"
      by (auto simp: add_export_def errorf_def bind_res_eq_Inr split: if_split_asm)
    from e c n obtain k r where "children ref = [k, r]"
      by (auto simp: add_export_def errorf_def split: if_split_asm list.split_asm)
    with e c n show ?thesis by (auto simp: add_export_def errorf_def bind_res_eq_Inr split: if_split_asm)
  qed
  show "add_element m t = Inr m' \<Longrightarrow> unchanged m m'"
    by (auto simp: add_element_def errorf_def bind_res_eq_Inr split: list.split_asm if_split_asm)
  show "add_data m t = Inr m' \<Longrightarrow> unchanged m m'"
    by (auto simp: add_data_def errorf_def bind_res_eq_Inr split: list.split_asm if_split_asm)
qed

lemma earlier_passes:
  "add_type_declaration m t = Inr m' \<Longrightarrow> same_globals m m'"
  "add_import m t = Inr m' \<Longrightarrow> same_globals m m'"
  "add_function m t = Inr m' \<Longrightarrow> same_globals m m'"
proof -
  show "add_type_declaration m t = Inr m' \<Longrightarrow> same_globals m m'"
    by (auto simp: add_type_declaration_def errorf_def bind_res_eq_Inr split: list.split_asm if_split_asm)
  show "add_import m t = Inr m' \<Longrightarrow> same_globals m m'"
    by (erule add_import_cases) simp
  show "add_function m t = Inr m' \<Longrightarrow> same_globals m m'"
    by (auto simp: add_function_def errorf_def bind_res_eq_Inr case_prod_unfold split: list.split_asm if_split_asm)
qed

lemma declaration_pass:
  assumes "add_declaration m t = Inr m'" "global_spaces gs m"
  shows "same_core m m' \<and> global_spaces (gs @ filter (\<lambda>t. list_head t = ''global'') [t]) m'"
proof (cases "list_head t = ''global''")
  case True
  with assms add_global_pass show ?thesis by (simp add: add_declaration_def)
next
  case False
  have "unchanged m m'"
    using assms(1) False handlers_unchanged[of m t m']
    by (auto simp: add_declaration_def Let_def errorf_def split: if_splits)
  with False assms(2) show ?thesis by (simp add: global_spaces_def)
qed

text \<open>
  C23: The index spaces of a module. Named types, functions and globals are numbered in the order
  of their declarations, imported functions before the defined ones, and no name twice; every
  import and function keeps the signature its declaration has, at the type index it was given,
  whatever the later declarations add.
\<close>
theorem lowered_spaces:
  assumes "lower_module root = Inr m"
  shows "spaces (filter (\<lambda>t. list_head t = ''type'') (tl (children root))) (filter (\<lambda>t. list_head t = ''import'') (tl (children root)))
      (filter (\<lambda>t. list_head t = ''func'') (tl (children root))) m \<and>
    global_spaces (filter (\<lambda>t. list_head t = ''global'') (tl (children root))) m"
proof -
  let ?pick = "\<lambda>h. filter (\<lambda>t. list_head t = h) (tl (children root))"
  from assms obtain m1 m2 m3 where m: "fold_res add_type_declaration empty_module (?pick ''type'') = Inr m1"
    "fold_res add_import m1 (?pick ''import'') = Inr m2" "fold_res add_function m2 (?pick ''func'') = Inr m3"
    "fold_res add_declaration m3 (tl (children root)) = Inr m"
    by (auto simp: lower_module_def add_all_filter bind_res_eq_Inr Let_def)
  have "spaces (?pick ''type'') [] [] m1 \<and> length (wm_types m1) = length (?pick ''type'')"
    by (rule fold_res_snoc[OF m(1), where P = "\<lambda>ts m. spaces ts [] [] m \<and> length (wm_types m) = length ts"])
      (use spaces_empty type_pass in \<open>auto simp: empty_module_def\<close>)
  then have "spaces (?pick ''type'') (?pick ''import'') [] m2"
    by (intro fold_res_snoc[OF m(2), where P = "\<lambda>is m. spaces (?pick ''type'') is [] m"] import_pass) auto
  then have "spaces (?pick ''type'') (?pick ''import'') (?pick ''func'') m3"
    by (intro fold_res_snoc[OF m(3), where P = "\<lambda>fs m. spaces (?pick ''type'') (?pick ''import'') fs m"] function_pass) auto
  moreover have "same_globals empty_module m1" "same_globals m1 m2" "same_globals m2 m3"
    by (rule fold_res_invariant[OF m(1)] fold_res_invariant[OF m(2)] fold_res_invariant[OF m(3)]; auto dest!: earlier_passes)+
  then have "global_spaces [] m3" by (simp add: global_spaces_def numbered_Nil empty_module_def)
  then have "same_core m3 m \<and> global_spaces (?pick ''global'') m"
    by (intro fold_res_snoc[OF m(4), where P = "\<lambda>ts m. same_core m3 m \<and> global_spaces (filter (\<lambda>t. list_head t = ''global'') ts) m"])
      (auto dest!: declaration_pass)
  ultimately show ?thesis by (simp add: spaces_def)
qed

theorem lowered_spaces_witness:
  "\<exists>m. lower_module module_example = Inr m \<and> wm_function_names m ''$log'' = Some 0 \<and> wm_function_names m ''$main'' = Some 1"
proof -
  have "case lower_module module_example of Inl _ \<Rightarrow> False | Inr _ \<Rightarrow> True" by code_simp
  then obtain m where m: "lower_module module_example = Inr m" by (auto split: sum.splits)
  let ?pick = "\<lambda>h. filter (\<lambda>t. list_head t = h) (tl (children module_example))"
  have "map import_symbol (?pick ''import'') = [''$log'']" "map declared_name (?pick ''func'') = [''$main'']" by code_simp+
  with lowered_spaces[OF m] have "numbered [''$log'', ''$main''] (wm_function_names m)" by (simp add: spaces_def)
  with m show ?thesis by (auto simp: numbered_def)
qed

section \<open>Locals\<close>

definition locals_numbered :: "named_type list \<Rightarrow> encoder \<Rightarrow> bool" where
  "locals_numbered vs e \<longleftrightarrow>
     en_count e = word_of_nat (length vs) \<and>
     distinct (filter (\<lambda>n. n \<noteq> []) (map nt_name vs)) \<and>
     dom (en_locals e) = set (filter (\<lambda>n. n \<noteq> []) (map nt_name vs)) \<and>
     (\<forall>i < length vs. nt_name (vs ! i) = [] \<or> en_locals e (nt_name (vs ! i)) = Some (word_of_nat i))"

lemma add_local_pass:
  assumes "add_local e l = Inr e'" "locals_numbered vs e"
  shows "locals_numbered (vs @ [l]) e' \<and> en_module e' = en_module e \<and> en_labels e' = en_labels e"
proof (cases "nt_name l = []")
  case True
  with assms(1) have "e' = e\<lparr>en_count := en_count e + 1\<rparr>" by (simp add: add_local_def Let_def)
  with True assms(2) show ?thesis by (auto simp: locals_numbered_def nth_append less_Suc_eq)
next
  case False
  with assms(1) have e': "en_locals e (nt_name l) = None"
    "e' = e\<lparr>en_count := en_count e + 1, en_locals := (en_locals e)(nt_name l \<mapsto> en_count e)\<rparr>"
    by (auto simp: add_local_def Let_def split: if_splits)
  then have "nt_name l \<notin> set (filter (\<lambda>n. n \<noteq> []) (map nt_name vs))" using assms(2) by (auto simp: locals_numbered_def)
  then have fresh: "nt_name l \<notin> nt_name ` set vs" using False by auto
  then have other: "nt_name (vs ! i) \<noteq> nt_name l" if "i < length vs" for i using that by (metis image_eqI nth_mem)
  have "en_locals e' (nt_name ((vs @ [l]) ! i)) = Some (word_of_nat i)"
    if "i < length (vs @ [l])" "nt_name ((vs @ [l]) ! i) \<noteq> []" for i
    using that assms(2) other[of i] e'(2) by (cases "i < length vs") (auto simp: locals_numbered_def nth_append less_Suc_eq)
  moreover have "dom (en_locals e') = set (filter (\<lambda>n. n \<noteq> []) (map nt_name (vs @ [l])))"
    using assms(2) False e'(2) by (simp add: locals_numbered_def)
  moreover have "distinct (filter (\<lambda>n. n \<noteq> []) (map nt_name (vs @ [l])))"
    using assms(2) fresh by (auto simp: locals_numbered_def)
  moreover have "en_count e' = word_of_nat (length (vs @ [l]))" using assms(2) e'(2) by (simp add: locals_numbered_def)
  ultimately have "locals_numbered (vs @ [l]) e'" unfolding locals_numbered_def by blast
  then show ?thesis using e'(2) by simp
qed

text \<open>
  The locals of a function are numbered through: parameters first, then locals, an unnamed
  one taking its number too. A name stands for the number of its declaration, no name stands for
  two, and no other name is known.
\<close>
lemma function_locals:
  assumes "function_encoder m f = Inr e"
  shows "locals_numbered (wf_params f @ wf_locals f) e \<and> en_module e = m \<and> en_labels e = []"
  by (rule fold_res_snoc[OF assms[unfolded function_encoder_def],
      where P = "\<lambda>vs e. locals_numbered vs e \<and> en_module e = m \<and> en_labels e = []"])
    (use add_local_pass in \<open>auto simp: locals_numbered_def\<close>)

definition function_example :: wasm_function where
  "function_example =
     \<lparr>wf_node = node ''func'' [atom ''$last'', node ''param'' [atom ''$x'', atom ''i64''], node ''local'' [atom ''$y'', atom ''i64''],
        node ''block'' [atom ''$done'',
          node ''loop'' [atom ''$next'',
            node ''br_if'' [atom ''$done'', node ''i64.eqz'' [node ''local.get'' [atom ''$x'']]],
            node ''local.set'' [atom ''$x'', sub_example],
            node ''br'' [atom ''$next'']]]],
      wf_name = ''$last'', wf_type = 0, wf_params = [\<lparr>nt_name = ''$x'', nt_code = 0x7e\<rparr>],
      wf_locals = [\<lparr>nt_name = ''$y'', nt_code = 0x7e\<rparr>]\<rparr>"

lemma function_locals_example:
  "\<exists>e. function_encoder empty_module function_example = Inr e \<and> en_locals e ''$x'' = Some 0 \<and> en_locals e ''$y'' = Some 1"
proof -
  have "case function_encoder empty_module function_example of Inl _ \<Rightarrow> False | Inr _ \<Rightarrow> True" by code_simp
  then obtain e where e: "function_encoder empty_module function_example = Inr e" by (auto split: sum.splits)
  have "locals_numbered [\<lparr>nt_name = ''$x'', nt_code = 0x7e\<rparr>, \<lparr>nt_name = ''$y'', nt_code = 0x7e\<rparr>] e"
    using function_locals[OF e] by (simp add: function_example_def)
  note n = conjunct2[OF conjunct2[OF conjunct2[OF this[unfolded locals_numbered_def]]]]
  from spec[OF n, of 0] spec[OF n, of 1] e show ?thesis by simp
qed

section \<open>Branches\<close>

text \<open>Every branch of a tree leaves a block that is open where it stands.\<close>

fun scoped :: "nat \<Rightarrow> inst \<Rightarrow> bool" where
  "scoped n (Indexed b v) \<longleftrightarrow> (b \<noteq> 0x0c \<and> b \<noteq> 0x0d) \<or> unat v < n"
| "scoped n (Block b ty is) \<longleftrightarrow> list_all (scoped (Suc n)) is"
| "scoped n (Cond ty is None) \<longleftrightarrow> list_all (scoped (Suc n)) is"
| "scoped n (Cond ty is (Some js)) \<longleftrightarrow> list_all (scoped (Suc n)) is \<and> list_all (scoped (Suc n)) js"
| "scoped n _ \<longleftrightarrow> True"

fun symbolic_branches :: "wat \<Rightarrow> bool" where
  "symbolic_branches (WList ts) \<longleftrightarrow>
     list_all symbolic_branches ts \<and>
     (op_name (WList ts) \<notin> {''br'', ''br_if''} \<or> is_symbol (node_text (ts ! 1)))"
| "symbolic_branches _ \<longleftrightarrow> True"

lemma symbolic_child: "symbolic_branches t \<Longrightarrow> x \<in> set (children t) \<Longrightarrow> symbolic_branches x"
  by (cases t) (auto simp: children_def list_all_iff)

lemma symbolic_target: "symbolic_branches t \<Longrightarrow> op_name t \<in> {''br'', ''br_if''} \<Longrightarrow> is_symbol (node_text (children t ! 1))"
  by (cases t) (auto simp: op_name_def children_def)

lemma branches_inside: "branches_to labels a v \<Longrightarrow> is_symbol (node_text a) \<Longrightarrow> unat v < length labels"
proof -
  assume "branches_to labels a v" "is_symbol (node_text a)"
  then obtain n where n: "n < length labels" "v = word_of_nat n" by (auto simp: branches_to_def)
  have "unat v \<le> n" unfolding n(2) by (simp add: unat_of_nat take_bit_nat_less_eq_self)
  with n(1) show ?thesis by simp
qed

lemma denoted_scoped:
  assumes "denotes e t i" "op_name t \<notin> set structured_ops" "symbolic_branches t"
  shows "scoped (length (en_labels e)) i"
proof (cases i)
  case (Indexed b v)
  show ?thesis
  proof (cases "b = 0x0c \<or> b = 0x0d")
    case True
    with assms(1) Indexed have "branches_to (en_labels e) (children t ! 1) v" "op_name t \<in> {''br'', ''br_if''}"
      by (auto simp: denotes_def Let_def indexed_names_def)
    with symbolic_target[OF assms(3)] branches_inside show ?thesis by (simp add: Indexed)
  qed (simp add: Indexed)
next
  case (Block b ty js)
  with assms(1,2) show ?thesis by (auto simp: denotes_def structured_ops_def split: if_splits)
next
  case (Cond ty js ks)
  with assms(1,2) show ?thesis by (auto simp: denotes_def structured_ops_def)
qed simp_all

lemma operand_nodes_children: "set (operand_nodes i t) \<subseteq> set (children t)"
  using set_drop_subset[of 1 "children t"] set_drop_subset[of 2 "children t"]
  by (cases i) (auto simp: drop_Suc)

lemma block_parts: "block_label ts = (label, us) \<Longrightarrow> opens us ty body \<Longrightarrow> set body \<subseteq> set ts"
  using block_label_rest opens_rest by (metis subset_trans)

lemma list_all2_scoped:
  "list_all2 (\<lambda>t is. P t is \<and> (symbolic_branches t \<longrightarrow> list_all (scoped n) is)) ts l \<Longrightarrow>
    \<forall>t\<in>set ts. symbolic_branches t \<Longrightarrow> list_all (scoped n) (concat l)"
  by (induction ts l rule: list_all2_induct) auto

lemma unfolds_scoped: "unfolds e t is \<Longrightarrow> symbolic_branches t \<longrightarrow> list_all (scoped (length (en_labels e))) is"
proof (induction rule: unfolds.induct)
  case (operation t e i l)
  then show ?case
    using denoted_scoped[of e t i] list_all2_scoped[of _ _ "operand_nodes i t" l] symbolic_child[of t] operand_nodes_children[of i t]
    by fastforce
next
  case (group t e l)
  moreover have "set (tl (children t)) \<subseteq> set (children t)" by (cases "children t") auto
  ultimately show ?case using list_all2_scoped[of _ _ "tl (children t)" l] symbolic_child[of t] by fastforce
next
  case (block t opcode label ts ty body e l)
  have "set body \<subseteq> set (children t)"
    using block_parts[OF block(2,3)] by (cases "children t") auto
  with block(4) show ?case
    using list_all2_scoped[of _ "Suc (length (en_labels e))" body l] symbolic_child[of t] by fastforce
next
  case (cond t ty c yes e cs ys)
  have "{c, yes} \<subseteq> set (children t)"
    using opens_rest[OF cond(2)] by (cases "children t") auto
  with cond(5,6) symbolic_child[of t] show ?case by simp
next
  case (cond_else t ty c yes no e cs ys ns)
  have "{c, yes, no} \<subseteq> set (children t)"
    using opens_rest[OF cond_else(2)] by (cases "children t") auto
  with cond_else(6-8) symbolic_child[of t] show ?case by simp
qed

text \<open>
  C24: Branches stay inside. In the bytes of a function whose text names the targets of its
  branches, the reader finds only branches out of a block that is open where they stand: no depth
  reaches past the body of the function, through any nesting of blocks, loops and conditionals.
\<close>
theorem branches_in_scope:
  assumes "encode_function_body m f = Inr bs" "list_all symbolic_branches (body_nodes f)"
    and "length (wf_locals f) < 2 ^ 32" "length bs < 2 ^ 32"
  shows "\<exists>g. read_function bs = Some g \<and> list_all (scoped 0) (snd g)"
proof -
  obtain g where g: "read_function bs = Some g" "function_matches m f g"
    using function_body_reads[OF assms(1,3,4)] by blast
  then obtain e l where e: "function_encoder m f = Inr e" "list_all2 (unfolds e) (body_nodes f) l" "snd g = concat l"
    by (auto simp: function_matches_def split: prod.splits)
  have "en_labels e = []" using function_locals[OF e(1)] by blast
  then have "list_all2 (\<lambda>t is. unfolds e t is \<and> (symbolic_branches t \<longrightarrow> list_all (scoped 0) is)) (body_nodes f) l"
    using unfolds_scoped[of e] by (intro list_all2_mono[OF e(2)]) auto
  then have "list_all (scoped 0) (concat l)" using assms(2) by (intro list_all2_scoped) (auto simp: list_all_iff)
  with g(1) e(3) show ?thesis by auto
qed

theorem branches_in_scope_witness:
  "\<exists>bs g. encode_function_body empty_module function_example = Inr bs \<and> read_function bs = Some g \<and> list_all (scoped 0) (snd g)"
proof -
  have "case encode_function_body empty_module function_example of Inl _ \<Rightarrow> False | Inr bs \<Rightarrow> length bs < 256" by code_simp
  then obtain bs where bs: "encode_function_body empty_module function_example = Inr bs" "length bs < 256"
    by (auto split: sum.splits)
  have "list_all symbolic_branches (body_nodes function_example)" by code_simp
  from branches_in_scope[OF bs(1) this] bs show ?thesis by (auto simp: function_example_def)
qed

end
