(* ===== verification/Spec2Isabelle.thy ===== *)
theory Spec2Isabelle
  imports Prelude Staticexpr Typ Typ_Parse Ir Ir_Sem Ir_Sim Const_Fold Copy_Prop Dead_Code Tables
    Worklist Lexer_Roundtrip Manifest Stdtarget Reachable Dominators Verify Bounds_Pass
    Wat Leb Opcodes Wasm_Module Wasm_Code Wasm_Format Wasm_Assemble Wasm_Binary Wasm_Roundtrip Wasm_Spaces
begin

text \<open>
  A verification development for the Kizu compiler, the Go implementation under internal/.

  The program. kizu reads a package manifest, scans and parses the sources it names, checks
  types and ownership, lowers what is checked to an SSA intermediate representation, verifies
  and optimizes that, and emits LLVM IR or WebAssembly. The phases meet in three data
  structures: tokens with their place in a source file, type spellings (every phase passes a
  type on as its text and parses it again), and IR modules, which each pass of internal/ir
  rewrites in place and Verify checks after lowering and after Optimize.

  What is modelled, and where.

  \<^bold>\<open>Shared ground.\<close> Prelude: Go's strings as lists of bytes, strconv for decimal text, byte
  classes. An error is the left side of a sum; an operation the code reports with a second
  result is an option. i64 is \<^typ>\<open>64 word\<close> read signed, so that sums wrap as Go's do.

  \<^bold>\<open>Text.\<close> Lexer (internal/source, internal/token, internal/lexer): the scanner's state is a
  record with the code's fields, one function for each of its methods. Lexer_Roundtrip: the
  printer of tokens and the proof that scanning what it prints gives the tokens back.
  Manifest (internal/manifest): the line reader of kizu.toml. Stdtarget (internal/stdtarget):
  build targets and the target predicates. Staticexpr (internal/staticexpr and staticExprText of
  internal/parser): static length expressions, their canonical text and its evaluation.

  \<^bold>\<open>Types.\<close> Typ (internal/typ/typ.go): the tree of a type, its printer, substitution, the
  binding of array lengths, structural equality. Typ_Parse (parse.go, table.go and the text
  functions of typ.go): the recursive descent, the table of parsed types, and the functions
  that answer from the text alone what the tree would answer.

  \<^bold>\<open>IR.\<close> Ir (internal/ir/ir.go): modules, functions, blocks, instructions, terminators, edges.
  Ir_Sem is the abstract specification: what a function computes, as a step function over an
  environment and a memory. Constants, copies and the i64 operations the optimizer evaluates
  have a fixed meaning there; every other operation is a parameter, the record \<open>machine\<close>, so a
  theorem about a pass holds whatever calls, memory and runtime checks do, up to the laws it
  names. Ir_Sim, Thin and Expand hold the interfaces the passes are proved against.

  \<^bold>\<open>Verifying.\<close> Dominators and Verify (internal/ir/verify.go): reverse postorder, the iteration
  to the dominator tree, and every rule of Verify. Reachable (reachable.go): what is kept of a
  module. Worklist is the search both of its passes share.

  \<^bold>\<open>Optimizing.\<close> Const_Fold, Copy_Prop and Dead_Code (optimize.go); Tables (tables.go);
  Phi_Fold, Branches and Simplify (simplify.go, with replaceFunctionValues of inline.go); Cse
  (cse.go); Bounds, Bounds_Walk, Bounds_Sound and Bounds_Pass (bounds.go).

  \<^bold>\<open>WebAssembly.\<close> The backend prints a module as text and assembles the text itself. Wat
  (internal/wasm/module.go, the escapes of types.go): the parser of that text. Leb: LEB128
  numbers. Wasm_Module (binary.go, lowerBinaryModule): the index spaces. Opcodes and Wasm_Code
  (binary_instruction.go): the opcode tables and the instruction encoder, one definition for
  each of its methods, tied together by \<open>encode\<close>. Wasm_Binary: the sections and function bodies.
  Wasm_Format and the first half of Wasm_Roundtrip are the specification: a reader of the binary
  format and the names of the standard, which know nothing of the encoder; the relation
  \<open>unfolds\<close> of Wasm_Assemble says which instructions a folded text stands for. The locale \<open>entry\<close>
  is the contract of one kind of entry of a section, interpreted for all that are written.

  What the lemmas show.

  \<^item> Each pass is a refinement: a call that returned a value and left a memory before the pass
    returns and leaves the same after it (\<open>constant_fold_preserves\<close>, \<open>copy_propagate_preserves\<close>,
    \<open>dead_code_preserves\<close>, \<open>simplify_branches_preserves\<close>, \<open>common_subexpressions_preserved\<close>,
    \<open>bounds_checks_preserved\<close>). The locales say what such a proof owes. \<open>simulation\<close>: every step
    is matched by a step of the result or by none; \<open>lockstep\<close>, a sublocale of it: the steps are
    the same; \<open>thinning\<close>: instructions are dropped or rewritten in place; \<open>expansion\<close>: an
    instruction becomes several, or none. The passes interpret them.
  \<^item> The verifier is sound: in a run of an accepted function that is in SSA form, with distinct
    block names and no phi in its entry block, no value is read before it is bound
    (\<open>verified_reads_bound\<close>); its dominator tree is built for every function and its answers hold
    on every path (\<open>dominator_tree_sound\<close>); it always answers (\<open>verify_total\<close>). An accepted
    function in SSA form has the well-formedness the passes assume (\<open>verify_strict\<close>).
  \<^item> Passes keep that well-formedness for the passes after them (\<open>common_subexpressions_typed\<close>,
    \<open>simplify_branches_shape\<close>, \<open>standing_branch_wf\<close>).
  \<^item> What the bounds walk takes for known is true in every state a call reaches
    (\<open>bounds_plan_sound\<close>): the facts of a point are proved from the facts of its block's
    immediate dominator, along paths that leave array headers alone.
  \<^item> Printed text is read back: types, tokens, static expressions, manifests.
  \<^item> The assembler is right: the bytes of an instruction read as what its text names
    (\<open>encoded_instruction_reads\<close>), those of a module as the module (\<open>module_reads\<close>), its index
    spaces are those of its declarations (\<open>lowered_spaces\<close>), and no branch leaves its function
    (\<open>branches_in_scope\<close>).
  \<^item> Text-level shortcuts agree with the structural questions they stand for.

  Fuel and bounds. Loops whose end is not structural carry a measure (\<open>fold_rounds\<close>: the
  instructions that are not constants; \<open>settled_plan\<close>: the counters not yet excluded;
  \<open>phi_rounds\<close>: the phis left) or fuel, with a theorem that the fuel is enough: the scanner has
  one unit for each rune (\<open>lex_ends\<close>), the type parser five for each byte (\<open>typ_parse_no_fuel\<close>),
  static expressions one for each byte and one more (\<open>sx_eval_no_fuel\<close>), the walk along a table one for each
  block and one more (\<open>constant_table_no_fuel\<close>), the walks up the dominator tree one for each block
  (\<open>verify_total\<close>), the worklists one for each item that can be marked. Runs take a number of
  steps; a preservation theorem gives a number for the result.

  Findings. Structural equality forgets the calling convention of function pointers
  (\<open>ty_equal_ignores_abi\<close>); SplitArgs refuses function pointer arguments
  (\<open>split_args_refuses_func\<close>, for pointers to functions without parameters); a NUL ends a source file silently (\<open>lex_stops_at_nul\<close>); \<^verbatim>\<open>1e+\<close>
  is one token (\<open>exponent_without_digits\<close>); Verify accepts a phi in the entry block and a phi
  with uneven edges (\<open>entry_phi_accepted\<close>, \<open>uneven_phi_accepted\<close>); a failed array.set answers the
  check of a later one (\<open>failed_set_answers\<close>), so \<open>bounds_checks_preserved\<close> leaves array.set out; an error of the assembler about a list says
  byte 0 (\<open>wat_start\<close>), and its decimal immediates are read in any base of Go
  (\<open>parse_int_base0\<close>).

  Not modelled. The checkers (internal/types, internal/ownership) and lowering
  (internal/ir/lower.go and the files beside it) work on the whole syntax tree and on tables
  built from the standard library; a model of a part of them would rest on parameters for the
  rest. Of internal/ir, the passes that version, rotate and forward are left:
  their loops rest on the analyses modelled here. The emitters (internal/llvm, and emit.go,
  control.go, fs.go and their like of internal/wasm) print text whose meaning is another tool's. The language server, the formatter, the
  project loader, the caches and the commands are input and output around these phases.
\<close>

end
